(* ===== verification/Prelude.thy ===== *)
theory Prelude
  imports Main "HOL-Library.Word" "HOL-Library.Multiset" "HOL-Library.Signed_Division"
begin

text \<open>
  Shared base of the development.

  \<^item> \<open>vv_status\<close>: the status codes every fallible function of the library returns
    (\<^verbatim>\<open>include/vibevoice/types.h\<close>), with \<open>vv_status_code\<close> and \<open>vv_status_str\<close>
    (\<^verbatim>\<open>src/core/error.c\<close>).
  \<^item> the names of the machine integers;
  \<^item> \<open>transition_system\<close>: the interface of every component that several threads drive
    (an initial-state predicate and a step relation), with the one proof that an
    inductive invariant holds in every reachable state;
  \<^item> generic lemmas on counting in lists, prefixes and list updates that the component
    proofs use.
\<close>

type_synonym u8 = "8 word"
type_synonym u16 = "16 word"
type_synonym u32 = "32 word"
type_synonym u64 = "64 word"
type_synonym bytes = "u8 list"

text \<open>The bytes of a C string literal.\<close>

definition ascii :: "string \<Rightarrow> bytes" where
  "ascii s = map of_char s"

text \<open>Little-endian fields at the front of a byte list.\<close>

definition le16 :: "bytes \<Rightarrow> u16" where
  "le16 bs = ucast (bs ! 0) + 256 * ucast (bs ! 1)"

definition le32 :: "bytes \<Rightarrow> u32" where
  "le32 bs = ucast (bs ! 0) + 256 * (ucast (bs ! 1) + 256 * (ucast (bs ! 2) + 256 * ucast (bs ! 3)))"

definition le64 :: "bytes \<Rightarrow> u64" where
  "le64 bs = foldr (\<lambda>b acc. ucast b + 256 * acc) (take 8 bs) 0"

definition put16 :: "u16 \<Rightarrow> bytes" where
  "put16 x = [ucast x, ucast (drop_bit 8 x)]"

definition put32 :: "u32 \<Rightarrow> bytes" where
  "put32 x = [ucast x, ucast (drop_bit 8 x), ucast (drop_bit 16 x), ucast (drop_bit 24 x)]"

named_theorems vv_defs \<open>definitions that unfold in one step\<close>

subsection \<open>Status codes\<close>

datatype vv_status =
    VV_OK
  | VV_ERR_INVALID_ARG
  | VV_ERR_NULL_PTR
  | VV_ERR_OUT_OF_MEMORY
  | VV_ERR_NOT_FOUND
  | VV_ERR_IO
  | VV_ERR_PARSE
  | VV_ERR_UNSUPPORTED
  | VV_ERR_OVERFLOW
  | VV_ERR_SHAPE_MISMATCH
  | VV_ERR_KV_POOL_EXHAUSTED
  | VV_ERR_CANCELLED
  | VV_ERR_BUSY
  | VV_ERR_CUDA
  | VV_ERR_CUDA_OOM
  | VV_ERR_CUDA_LAUNCH
  | VV_ERR_TRT
  | VV_ERR_TRT_BUILD
  | VV_ERR_TRT_RUNTIME
  | VV_ERR_MODEL_FORMAT
  | VV_ERR_MODEL_VERSION
  | VV_ERR_WEIGHT_MISSING
  | VV_ERR_AUDIO_FORMAT
  | VV_ERR_AUDIO_RESAMPLE

primrec vv_status_code :: "vv_status \<Rightarrow> int" where
  "vv_status_code VV_OK = 0"
| "vv_status_code VV_ERR_INVALID_ARG = - 1"
| "vv_status_code VV_ERR_NULL_PTR = - 2"
| "vv_status_code VV_ERR_OUT_OF_MEMORY = - 3"
| "vv_status_code VV_ERR_NOT_FOUND = - 4"
| "vv_status_code VV_ERR_IO = - 5"
| "vv_status_code VV_ERR_PARSE = - 6"
| "vv_status_code VV_ERR_UNSUPPORTED = - 7"
| "vv_status_code VV_ERR_OVERFLOW = - 8"
| "vv_status_code VV_ERR_SHAPE_MISMATCH = - 9"
| "vv_status_code VV_ERR_KV_POOL_EXHAUSTED = - 10"
| "vv_status_code VV_ERR_CANCELLED = - 11"
| "vv_status_code VV_ERR_BUSY = - 12"
| "vv_status_code VV_ERR_CUDA = - 100"
| "vv_status_code VV_ERR_CUDA_OOM = - 101"
| "vv_status_code VV_ERR_CUDA_LAUNCH = - 102"
| "vv_status_code VV_ERR_TRT = - 200"
| "vv_status_code VV_ERR_TRT_BUILD = - 201"
| "vv_status_code VV_ERR_TRT_RUNTIME = - 202"
| "vv_status_code VV_ERR_MODEL_FORMAT = - 300"
| "vv_status_code VV_ERR_MODEL_VERSION = - 301"
| "vv_status_code VV_ERR_WEIGHT_MISSING = - 302"
| "vv_status_code VV_ERR_AUDIO_FORMAT = - 400"
| "vv_status_code VV_ERR_AUDIO_RESAMPLE = - 401"

text \<open>The C function takes the integer code; any other integer is "Unknown error".\<close>

definition vv_status_str :: "int \<Rightarrow> string" where
  "vv_status_str s =
     (if s = 0 then ''OK''
      else if s = - 1 then ''Invalid argument''
      else if s = - 2 then ''Null pointer''
      else if s = - 3 then ''Out of memory''
      else if s = - 4 then ''Not found''
      else if s = - 5 then ''I/O error''
      else if s = - 6 then ''Parse error''
      else if s = - 7 then ''Unsupported''
      else if s = - 8 then ''Overflow''
      else if s = - 9 then ''Shape mismatch''
      else if s = - 10 then ''KV page pool exhausted''
      else if s = - 11 then ''Cancelled''
      else if s = - 12 then ''Every slot is busy''
      else if s = - 100 then ''CUDA error''
      else if s = - 101 then ''CUDA out of memory''
      else if s = - 102 then ''CUDA kernel launch failed''
      else if s = - 200 then ''TensorRT error''
      else if s = - 201 then ''TensorRT build failed''
      else if s = - 202 then ''TensorRT runtime error''
      else if s = - 300 then ''Invalid model format''
      else if s = - 301 then ''Unsupported model version''
      else if s = - 302 then ''Missing weight tensor''
      else if s = - 400 then ''Unsupported audio format''
      else if s = - 401 then ''Audio resampling failed''
      else ''Unknown error'')"

lemma vv_status_code_inj: "vv_status_code s = vv_status_code t \<Longrightarrow> s = t"
  by (cases s; cases t; simp)

lemma vv_status_str_known: "vv_status_str (vv_status_code s) \<noteq> ''Unknown error''"
  by (cases s; simp add: vv_status_str_def)

subsection \<open>Transition systems\<close>

inductive reaches :: "('s \<Rightarrow> bool) \<Rightarrow> ('s \<Rightarrow> 's \<Rightarrow> bool) \<Rightarrow> 's \<Rightarrow> bool"
  for init step where
  reaches_init: "init s \<Longrightarrow> reaches init step s"
| reaches_step: "reaches init step s \<Longrightarrow> step s t \<Longrightarrow> reaches init step t"

locale transition_system =
  fixes init :: "'s \<Rightarrow> bool"
    and step :: "'s \<Rightarrow> 's \<Rightarrow> bool"
    and inv :: "'s \<Rightarrow> bool"
  assumes inv_init: "init s \<Longrightarrow> inv s"
    and inv_step: "inv s \<Longrightarrow> step s t \<Longrightarrow> inv t"
begin

lemma reaches_inv: "reaches init step s \<Longrightarrow> inv s"
  by (induction rule: reaches.induct) (auto intro: inv_init inv_step)

lemma steps_inv: "rtranclp step s t \<Longrightarrow> inv s \<Longrightarrow> inv t"
  by (induction rule: rtranclp_induct) (auto intro: inv_step)

end

subsection \<open>Counting the elements of a list that satisfy a predicate\<close>

definition count_if :: "('a \<Rightarrow> bool) \<Rightarrow> 'a list \<Rightarrow> int" where
  "count_if P xs = int (length (filter P xs))"

lemma count_if_Nil [simp]: "count_if P [] = 0"
  by (simp add: count_if_def)

lemma count_if_Cons [simp]:
  "count_if P (x # xs) = (if P x then 1 else 0) + count_if P xs"
  by (simp add: count_if_def)

lemma count_if_nonneg [simp]: "0 \<le> count_if P xs"
  by (simp add: count_if_def)

lemma count_if_update:
  "i < length xs \<Longrightarrow>
   count_if P (xs[i := x]) = count_if P xs - (if P (xs ! i) then 1 else 0) + (if P x then 1 else 0)"
proof (induction xs arbitrary: i)
  case Nil
  then show ?case by simp
next
  case (Cons y ys)
  then show ?case by (cases i) auto
qed

lemma count_if_mono: "(\<And>x. x \<in> set xs \<Longrightarrow> P x \<Longrightarrow> Q x) \<Longrightarrow> count_if P xs \<le> count_if Q xs"
  by (induction xs) auto

lemma count_if_zeroD: "count_if P xs = 0 \<Longrightarrow> x \<in> set xs \<Longrightarrow> \<not> P x"
  by (auto simp: count_if_def filter_empty_conv)

lemma count_if_zeroI: "(\<And>x. x \<in> set xs \<Longrightarrow> \<not> P x) \<Longrightarrow> count_if P xs = 0"
  by (simp add: count_if_def filter_empty_conv)

lemma count_if_pos: "x \<in> set xs \<Longrightarrow> P x \<Longrightarrow> 0 < count_if P xs"
  by (induction xs) (auto intro: add_pos_nonneg add_nonneg_pos)

lemma count_if_less_ex: "count_if P xs < count_if Q xs \<Longrightarrow> \<exists>x \<in> set xs. Q x \<and> \<not> P x"
  using count_if_mono [of xs Q P] by fastforce

lemma count_if_eq_all:
  assumes le: "\<And>x. x \<in> set xs \<Longrightarrow> P x \<Longrightarrow> Q x"
    and eq: "count_if Q xs \<le> count_if P xs"
    and x: "x \<in> set xs" "Q x"
  shows "P x"
proof (rule ccontr)
  assume "\<not> P x"
  from le have "length (filter P xs) = length (filter P (filter Q xs))"
    by (metis (mono_tags, lifting) filter_cong filter_filter)
  also have "\<dots> < length (filter Q xs)"
    using x \<open>\<not> P x\<close> by (intro length_filter_less [of x]) auto
  finally show False using eq by (simp add: count_if_def)
qed

subsection \<open>Lists\<close>

lemma take_Suc_update:
  "i < length xs \<Longrightarrow> take (Suc i) (xs[i := x]) = take i xs @ [x]"
  by (simp add: take_Suc_conv_app_nth)

lemma mset_update_concat:
  "i < length xss \<Longrightarrow>
   mset (concat (xss[i := ys])) + mset (xss ! i) = mset (concat xss) + mset ys"
proof (induction xss arbitrary: i)
  case Nil
  then show ?case by simp
next
  case (Cons zs xss)
  then show ?case by (cases i) (auto simp: ac_simps)
qed

lemma mset_swap:
  fixes A A' C C' T :: "'a multiset"
  assumes "A' + h' = A + h" and "C' + h = C + h'" and "A + C = T"
  shows "A' + C' = T"
proof -
  have "A' + C' + h = (A' + h') + C" using assms(2) by (simp add: ac_simps)
  also have "\<dots> = T + h" using assms(1,3) by (simp add: ac_simps)
  finally show ?thesis by simp
qed

end
