(* ===== verification/KvFormat.thy ===== *)
theory KvFormat
  imports Prelude
begin

text \<open>
  Storage formats of the key/value cache: \<^verbatim>\<open>src/quant/kv_format.c\<close> and the inline functions
  of \<^verbatim>\<open>include/vibevoice/kv_quant.h\<close>. The C enum is a datatype; \<open>kv_format_code\<close> gives the
  enumerator's value, which the range tests of \<open>vv_kv_has_meta\<close> and \<open>vv_kv_rotates\<close> compare.
  C division of a possibly negative \<^verbatim>\<open>int\<close> truncates, hence \<open>sdiv\<close>.
\<close>

datatype vv_kv_format =
    VV_KV_FP16
  | VV_KV_FP8_E4M3
  | VV_KV_FP8_E5M2
  | VV_KV_TQ4
  | VV_KV_TQ3
  | VV_KV_TQ2
  | VV_KV_TQ1_5
  | VV_KV_FP32
  | VV_KV_FORMAT_COUNT

primrec kv_format_code :: "vv_kv_format \<Rightarrow> nat" where
  "kv_format_code VV_KV_FP16 = 0"
| "kv_format_code VV_KV_FP8_E4M3 = 1"
| "kv_format_code VV_KV_FP8_E5M2 = 2"
| "kv_format_code VV_KV_TQ4 = 3"
| "kv_format_code VV_KV_TQ3 = 4"
| "kv_format_code VV_KV_TQ2 = 5"
| "kv_format_code VV_KV_TQ1_5 = 6"
| "kv_format_code VV_KV_FP32 = 7"
| "kv_format_code VV_KV_FORMAT_COUNT = 8"

definition VV_KV_PAGE_SIZE :: int where
  [simp]: "VV_KV_PAGE_SIZE = 64"

text \<open>One row of the table: format, name, alias, bits per value times 100.\<close>

definition k_formats :: "(vv_kv_format \<times> string \<times> string \<times> int) list" where
  "k_formats =
     [(VV_KV_FP32, ''fp32'', ''f32'', 3200),
      (VV_KV_FP16, ''fp16'', ''f16'', 1600),
      (VV_KV_FP8_E4M3, ''fp8'', ''fp8-e4m3'', 800),
      (VV_KV_FP8_E5M2, ''fp8-e5m2'', ''e5m2'', 800),
      (VV_KV_TQ4, ''tq4'', ''turbo4'', 400),
      (VV_KV_TQ3, ''tq3'', ''turbo3'', 300),
      (VV_KV_TQ2, ''tq2'', ''turbo2'', 200),
      (VV_KV_TQ1_5, ''tq1.5'', ''turbo1.5'', 150)]"

text \<open>The loops over the table. A NULL name is \<open>None\<close>.\<close>

fun kv_format_parse_from ::
  "(vv_kv_format \<times> string \<times> string \<times> int) list \<Rightarrow> string \<Rightarrow> vv_kv_format" where
  "kv_format_parse_from [] name = VV_KV_FORMAT_COUNT"
| "kv_format_parse_from ((fmt, nm, alias, bits) # rest) name =
     (if name = nm \<or> name = alias then fmt else kv_format_parse_from rest name)"

definition vv_kv_format_parse :: "string option \<Rightarrow> vv_kv_format" where
  "vv_kv_format_parse name =
     (case name of
        None \<Rightarrow> VV_KV_FP16
      | Some s \<Rightarrow> if s = [] then VV_KV_FP16 else kv_format_parse_from k_formats s)"

fun kv_format_row ::
  "(vv_kv_format \<times> string \<times> string \<times> int) list \<Rightarrow> vv_kv_format \<Rightarrow>
   (vv_kv_format \<times> string \<times> string \<times> int) option" where
  "kv_format_row [] fmt = None"
| "kv_format_row (r # rest) fmt = (if fst r = fmt then Some r else kv_format_row rest fmt)"

definition vv_kv_format_name :: "vv_kv_format \<Rightarrow> string" where
  "vv_kv_format_name fmt =
     (case kv_format_row k_formats fmt of Some (_, nm, _, _) \<Rightarrow> nm | None \<Rightarrow> ''?'')"

definition vv_kv_format_bits_x100 :: "vv_kv_format \<Rightarrow> int" where
  "vv_kv_format_bits_x100 fmt =
     (case kv_format_row k_formats fmt of Some (_, _, _, bits) \<Rightarrow> bits | None \<Rightarrow> 1600)"

primrec vv_kv_bytes_per_vec :: "vv_kv_format \<Rightarrow> int \<Rightarrow> int" where
  "vv_kv_bytes_per_vec VV_KV_FP32 head_dim = head_dim * 4"
| "vv_kv_bytes_per_vec VV_KV_FP16 head_dim = head_dim * 2"
| "vv_kv_bytes_per_vec VV_KV_FP8_E4M3 head_dim = head_dim"
| "vv_kv_bytes_per_vec VV_KV_FP8_E5M2 head_dim = head_dim"
| "vv_kv_bytes_per_vec VV_KV_TQ4 head_dim = head_dim sdiv 2"
| "vv_kv_bytes_per_vec VV_KV_TQ3 head_dim = (head_dim * 3) sdiv 8"
| "vv_kv_bytes_per_vec VV_KV_TQ2 head_dim = head_dim sdiv 4"
| "vv_kv_bytes_per_vec VV_KV_TQ1_5 head_dim = (head_dim * 3) sdiv 16"
| "vv_kv_bytes_per_vec VV_KV_FORMAT_COUNT head_dim = head_dim * 2"

definition vv_kv_is_raw :: "vv_kv_format \<Rightarrow> bool" where
  "vv_kv_is_raw fmt \<longleftrightarrow> fmt = VV_KV_FP16 \<or> fmt = VV_KV_FP32"

definition vv_kv_has_meta :: "vv_kv_format \<Rightarrow> bool" where
  "vv_kv_has_meta fmt \<longleftrightarrow>
     kv_format_code fmt \<ge> kv_format_code VV_KV_TQ4 \<and> kv_format_code fmt \<le> kv_format_code VV_KV_TQ1_5"

definition vv_kv_rotates :: "vv_kv_format \<Rightarrow> bool" where
  "vv_kv_rotates fmt \<longleftrightarrow>
     kv_format_code fmt \<ge> kv_format_code VV_KV_TQ4 \<and> kv_format_code fmt \<le> kv_format_code VV_KV_TQ1_5"

lemma sdiv_nonneg: "0 \<le> (a :: int) \<Longrightarrow> 0 < b \<Longrightarrow> a sdiv b = a div b"
  by (simp add: signed_divide_int_def sgn_if)

lemma kv_format_row_Some:
  "kv_format_row rows fmt = Some r \<Longrightarrow> r \<in> set rows \<and> fst r = fmt"
  by (induction rows) (auto split: if_splits)

lemmas kv_format_tables = k_formats_def vv_kv_format_parse_def vv_kv_format_name_def
  vv_kv_format_bits_x100_def

lemma vv_kv_format_names:
  "vv_kv_format_parse (Some (vv_kv_format_name fmt)) = fmt" if "fmt \<noteq> VV_KV_FORMAT_COUNT"
  using that by (cases fmt) (simp_all add: kv_format_tables)

text \<open>A raw format never carries scales, so the two tests the cache makes are exclusive.\<close>

lemma raw_no_meta: "vv_kv_is_raw fmt \<Longrightarrow> \<not> vv_kv_has_meta fmt"
  by (auto simp: vv_kv_is_raw_def vv_kv_has_meta_def)

lemma bytes_per_vec_nonneg: "0 \<le> head_dim \<Longrightarrow> 0 \<le> vv_kv_bytes_per_vec fmt head_dim"
  by (cases fmt) (auto simp: sdiv_nonneg)

end
