(* ===== verification/Heap.thy ===== *)
theory Heap
  imports Prelude
begin

text \<open>
  The allocation wrappers of \<^verbatim>\<open>src/core/alloc.c\<close> and the device allocator they sit beside.

  A heap records which blocks are live (a host block comes from \<^verbatim>\<open>vv_alloc\<close>, a device block
  from \<^verbatim>\<open>vv_dev_alloc\<close>), the size \<^verbatim>\<open>vv_alloc\<close> keeps in a block's header, the raw length it
  asked \<^verbatim>\<open>malloc\<close> for, and the thread's tracked total. The outcomes of \<^verbatim>\<open>malloc\<close> and of the
  device allocator are parameters of the heap (\<open>h_malloc\<close>, \<open>h_dev\<close>), indexed by the number of
  the request, so that every failure path can be taken; \<open>h_sizeof\<close> is the platform's \<^verbatim>\<open>sizeof\<close>
  of a named struct (pointers are 8 bytes, as on every 64-bit target). \<open>h_bad\<close> is set by an operation that is
  undefined behaviour in C: freeing what is not live (a double free, a block freed by the other
  allocator) or following a pointer that was never initialised.
\<close>

datatype mem = Host | Dev

type_synonym block = "mem \<times> nat"

record heap =
  h_next :: nat
  h_live :: "block list"
  h_size :: "nat \<Rightarrow> u64"
  h_raw :: "nat \<Rightarrow> u64"
  h_total :: u64
  h_bad :: bool
  h_malloc :: "nat \<Rightarrow> u64 \<Rightarrow> bool"
  h_dev :: "nat \<Rightarrow> u64 \<Rightarrow> vv_status"
  h_sizeof :: "string \<Rightarrow> u64"

definition vv_alloc :: "u64 \<Rightarrow> heap \<Rightarrow> nat option \<times> heap" where
  "vv_alloc sz h =
     (if sz = 0 then (None, h)
      else let total = sz + 8; n = h_next h in
        if h_malloc h n total
        then (Some n, h\<lparr>h_next := Suc n, h_live := (Host, n) # h_live h,
                        h_size := (h_size h)(n := sz), h_raw := (h_raw h)(n := total),
                        h_total := h_total h + sz\<rparr>)
        else (None, h\<lparr>h_next := Suc n\<rparr>))"

definition vv_free :: "nat option \<Rightarrow> heap \<Rightarrow> heap" where
  "vv_free ptr h =
     (case ptr of
        None \<Rightarrow> h
      | Some a \<Rightarrow>
          if (Host, a) \<in> set (h_live h)
          then let sz = h_size h a in
            h\<lparr>h_live := remove1 (Host, a) (h_live h),
              h_total := (if h_total h \<ge> sz then h_total h - sz else h_total h)\<rparr>
          else h\<lparr>h_bad := True\<rparr>)"

definition vv_realloc :: "nat option \<Rightarrow> u64 \<Rightarrow> heap \<Rightarrow> nat option \<times> heap" where
  "vv_realloc ptr new_size h =
     (case ptr of
        None \<Rightarrow> vv_alloc new_size h
      | Some a \<Rightarrow>
          if new_size = 0 then (None, vv_free (Some a) h)
          else if (Host, a) \<notin> set (h_live h) then (None, h\<lparr>h_bad := True\<rparr>)
          else let old_size = h_size h a; total = new_size + 8; n = h_next h in
            if h_malloc h n total
            then (Some n, h\<lparr>h_next := Suc n,
                            h_live := (Host, n) # remove1 (Host, a) (h_live h),
                            h_size := (h_size h)(n := new_size),
                            h_raw := (h_raw h)(n := total),
                            h_total := h_total h - old_size + new_size\<rparr>)
            else (None, h\<lparr>h_next := Suc n\<rparr>))"

definition vv_alloc_total :: "heap \<Rightarrow> u64" where
  "vv_alloc_total h = h_total h"

text \<open>The device allocator: the status, the pointer it stored (NULL on failure) and the heap.\<close>

definition vv_dev_alloc :: "u64 \<Rightarrow> heap \<Rightarrow> vv_status \<times> nat option \<times> heap" where
  "vv_dev_alloc sz h =
     (let n = h_next h; s = h_dev h n sz in
      if s = VV_OK then (VV_OK, Some n, h\<lparr>h_next := Suc n, h_live := (Dev, n) # h_live h\<rparr>)
      else (s, None, h\<lparr>h_next := Suc n\<rparr>))"

definition vv_dev_free :: "nat option \<Rightarrow> heap \<Rightarrow> heap" where
  "vv_dev_free ptr h =
     (case ptr of
        None \<Rightarrow> h
      | Some a \<Rightarrow>
          if (Dev, a) \<in> set (h_live h) then h\<lparr>h_live := remove1 (Dev, a) (h_live h)\<rparr>
          else h\<lparr>h_bad := True\<rparr>)"

subsection \<open>The file system\<close>

text \<open>The files the process has open and the mappings it has.\<close>

record os =
  os_fds :: int
  os_maps :: int

text \<open>
  What the system does with the path: \<^verbatim>\<open>open\<close> fails, \<^verbatim>\<open>fstat\<close> fails or the file is empty, \<^verbatim>\<open>mmap\<close> fails, or the
  file is mapped.
\<close>

datatype file_system = NoFile | NoSize | NoMap | Mapped bytes

subsection \<open>Ownership: the live blocks as a multiset\<close>

definition owns :: "heap \<Rightarrow> block multiset \<Rightarrow> bool" where
  "owns h M \<longleftrightarrow> mset (h_live h) = M \<and> \<not> h_bad h"

lemma vv_alloc_owns:
  "owns h M \<Longrightarrow> vv_alloc sz h = (p, h') \<Longrightarrow>
   owns h' (case p of None \<Rightarrow> M | Some a \<Rightarrow> add_mset (Host, a) M)"
  by (auto simp: vv_alloc_def owns_def Let_def split: if_splits)

lemma vv_dev_alloc_owns:
  "owns h M \<Longrightarrow> vv_dev_alloc sz h = (s, p, h') \<Longrightarrow>
   owns h' (case p of None \<Rightarrow> M | Some a \<Rightarrow> add_mset (Dev, a) M) \<and> (s = VV_OK) = (p \<noteq> None)"
  by (auto simp: vv_dev_alloc_def owns_def Let_def split: if_splits)

lemma vv_free_owns [simp]:
  "owns h (add_mset (Host, a) M) \<Longrightarrow> owns (vv_free (Some a) h) M"
  by (auto simp: vv_free_def owns_def Let_def simp flip: set_mset_mset)

lemma vv_dev_free_owns [simp]:
  "owns h (add_mset (Dev, a) M) \<Longrightarrow> owns (vv_dev_free (Some a) h) M"
  by (auto simp: vv_dev_free_def owns_def Let_def simp flip: set_mset_mset)

lemma vv_free_None [simp]: "vv_free None h = h"
  by (simp add: vv_free_def)

lemma vv_dev_free_None [simp]: "vv_dev_free None h = h"
  by (simp add: vv_dev_free_def)

lemma h_bad_free [simp]:
  "h_bad h \<Longrightarrow> h_bad (vv_free q h)" "h_bad h \<Longrightarrow> h_bad (vv_dev_free q h)"
  by (auto simp: vv_free_def vv_dev_free_def Let_def split: option.splits)

lemma h_bad_alloc: "h_bad h \<Longrightarrow> vv_alloc sz h = (q, h') \<Longrightarrow> h_bad h'"
  by (auto simp: vv_alloc_def Let_def split: if_splits)

lemma of_nat_neq_0: "0 < n \<Longrightarrow> n < 2 ^ 64 \<Longrightarrow> (of_nat n :: u64) \<noteq> 0"
proof
  assume n: "0 < n" "n < 2 ^ 64" and z: "(of_nat n :: u64) = 0"
  have "unat (of_nat n :: u64) = n" unfolding unsigned_of_nat of_nat_id by (intro take_bit_nat_eq_self) (use n in simp)
  with z n show False by simp
qed

subsection \<open>Arrays of pointers\<close>

text \<open>
  \<^verbatim>\<open>vv_alloc\<close> does not clear what it returns: the cells of a fresh array are \<open>Uninit\<close> until a
  \<^verbatim>\<open>memset\<close> makes them \<open>Null\<close>.
\<close>

datatype cell = Uninit | Null | Ptr nat

type_synonym ptr_array = "(nat \<times> cell list) option"

definition alloc_ptrs :: "int \<Rightarrow> heap \<Rightarrow> ptr_array \<times> heap" where
  "alloc_ptrs n h =
     (case vv_alloc (of_int n * 8) h of
        (None, h') \<Rightarrow> (None, h')
      | (Some a, h') \<Rightarrow> (Some (a, replicate (nat n) Uninit), h'))"

definition clear_ptrs :: "ptr_array \<Rightarrow> ptr_array" where
  "clear_ptrs arr = map_option (\<lambda>(a, cs). (a, replicate (length cs) Null)) arr"

definition set_ptr :: "nat \<Rightarrow> nat \<Rightarrow> ptr_array \<Rightarrow> ptr_array" where
  "set_ptr i p arr = map_option (\<lambda>(a, cs). (a, cs[i := Ptr p])) arr"

definition array_addr :: "ptr_array \<Rightarrow> nat option" where
  "array_addr arr = map_option fst arr"

text \<open>\<^verbatim>\<open>if (arr && arr[l]) free(arr[l])\<close>, with the allocator the block belongs to.\<close>

definition free_cell :: "mem \<Rightarrow> ptr_array \<Rightarrow> nat \<Rightarrow> heap \<Rightarrow> heap" where
  "free_cell m arr l h =
     (case arr of
        None \<Rightarrow> h
      | Some (a, cs) \<Rightarrow>
          (case cs ! l of
             Uninit \<Rightarrow> h\<lparr>h_bad := True\<rparr>
           | Null \<Rightarrow> h
           | Ptr p \<Rightarrow> (case m of Host \<Rightarrow> vv_free (Some p) h | Dev \<Rightarrow> vv_dev_free (Some p) h)))"

definition cell_blocks :: "mem \<Rightarrow> cell \<Rightarrow> block multiset" where
  "cell_blocks m c = (case c of Ptr p \<Rightarrow> {#(m, p)#} | _ \<Rightarrow> {#})"

definition arr_cell :: "mem \<Rightarrow> ptr_array \<Rightarrow> nat \<Rightarrow> block multiset" where
  "arr_cell m arr l = (case arr of None \<Rightarrow> {#} | Some (a, cs) \<Rightarrow> cell_blocks m (cs ! l))"

definition arr_addr_block :: "ptr_array \<Rightarrow> block multiset" where
  "arr_addr_block arr = (case arr of None \<Rightarrow> {#} | Some (a, cs) \<Rightarrow> {#(Host, a)#})"

definition opt_block :: "mem \<Rightarrow> nat option \<Rightarrow> block multiset" where
  "opt_block m p = (case p of None \<Rightarrow> {#} | Some a \<Rightarrow> {#(m, a)#})"

definition arr_clean :: "nat \<Rightarrow> ptr_array \<Rightarrow> bool" where
  "arr_clean n arr \<longleftrightarrow> (case arr of None \<Rightarrow> True | Some (a, cs) \<Rightarrow> length cs = n \<and> Uninit \<notin> set cs)"

definition cells_upto :: "mem \<Rightarrow> ptr_array \<Rightarrow> nat \<Rightarrow> block multiset" where
  "cells_upto m arr n = (\<Sum>l \<leftarrow> [0..<n]. arr_cell m arr l)"

lemmas ptr_defs = cell_blocks_def arr_cell_def arr_addr_block_def opt_block_def arr_clean_def
  clear_ptrs_def set_ptr_def array_addr_def

lemma owns_free_opt [simp]:
  "owns h (opt_block Host p + M) \<Longrightarrow> owns (vv_free p h) M"
  by (cases p) (auto simp: opt_block_def)

lemma owns_dev_free_opt [simp]:
  "owns h (opt_block Dev p + M) \<Longrightarrow> owns (vv_dev_free p h) M"
  by (cases p) (auto simp: opt_block_def)

lemma owns_free_array [simp]:
  "owns h (arr_addr_block arr + M) \<Longrightarrow> owns (vv_free (array_addr arr) h) M"
  by (cases arr) (auto simp: ptr_defs)

lemma owns_free_cell:
  "arr_clean n arr \<Longrightarrow> l < n \<Longrightarrow> owns h (arr_cell m arr l + M) \<Longrightarrow> owns (free_cell m arr l h) M"
  by (auto simp: free_cell_def ptr_defs split: option.splits cell.splits mem.splits)
    (metis nth_mem)

text \<open>A loop whose step \<open>l\<close> gives up the blocks \<open>B l\<close> gives up their sum.\<close>

lemma owns_fold:
  assumes "\<And>l h M. l \<in> set ls \<Longrightarrow> owns h (B l + M) \<Longrightarrow> owns (f l h) M"
    and "owns h ((\<Sum>l \<leftarrow> ls. B l) + M)"
  shows "owns (fold f ls h) M"
  using assms
proof (induction ls arbitrary: h)
  case Nil
  then show ?case by simp
next
  case (Cons l ls)
  have "owns (f l h) ((\<Sum>l \<leftarrow> ls. B l) + M)"
    using Cons.prems by (auto simp: add.assoc)
  with Cons.prems(1) show ?case by (auto intro!: Cons.IH)
qed

lemma owns_free_cells:
  assumes "arr_clean n arr" and "owns h (cells_upto m arr n + M)"
  shows "owns (fold (free_cell m arr) [0..<n] h) M"
  using assms by (intro owns_fold [where B = "arr_cell m arr"])
    (auto simp: cells_upto_def intro: owns_free_cell)

lemma alloc_ptrs_owns:
  assumes "owns h M" and "alloc_ptrs n h = (arr, h')"
  shows "owns h' (arr_addr_block arr + M)"
  using assms vv_alloc_owns [OF assms(1)]
  by (auto simp: alloc_ptrs_def arr_addr_block_def split: prod.splits option.splits)
    (metis (no_types, lifting) option.case)+

lemma cells_upto_None [simp]: "cells_upto m None n = {#}"
  by (simp add: cells_upto_def arr_cell_def)

lemma cells_upto_empty: "(\<And>l. l < n \<Longrightarrow> arr_cell m arr l = {#}) \<Longrightarrow> cells_upto m arr n = {#}"
  by (induction n) (simp_all add: cells_upto_def)

lemma arr_cell_clear [simp]:
  "n = nat k \<Longrightarrow> alloc_ptrs k h = (arr, h') \<Longrightarrow> l < n \<Longrightarrow> arr_cell m (clear_ptrs arr) l = {#}"
  by (auto simp: ptr_defs alloc_ptrs_def split: prod.splits option.splits)

lemma cells_upto_clear [simp]:
  "n = nat k \<Longrightarrow> alloc_ptrs k h = (arr, h') \<Longrightarrow> cells_upto m (clear_ptrs arr) n = {#}"
  by (rule cells_upto_empty) simp

lemma clear_ptrs_clean [simp]:
  "n = nat k \<Longrightarrow> alloc_ptrs k h = (arr, h') \<Longrightarrow> arr_clean n (clear_ptrs arr)"
  by (auto simp: arr_clean_def clear_ptrs_def alloc_ptrs_def split: prod.splits option.splits)

lemma set_ptr_clean [simp]: "arr_clean n arr \<Longrightarrow> arr_clean n (set_ptr i p arr)"
  by (auto simp: arr_clean_def set_ptr_def split: option.splits dest: set_update_subset_insert [THEN subsetD])

lemma array_addr_set_ptr [simp]: "arr_addr_block (set_ptr i p arr) = arr_addr_block arr"
  by (auto simp: set_ptr_def arr_addr_block_def split: option.splits)

lemma array_addr_clear [simp]: "arr_addr_block (clear_ptrs arr) = arr_addr_block arr"
  by (auto simp: clear_ptrs_def arr_addr_block_def split: option.splits)

lemma cells_upto_set_ptr:
  assumes "arr_clean n arr" and "i < n" and "arr \<noteq> None" and "arr_cell m arr i = {#}"
  shows "cells_upto m (set_ptr i p arr) n = add_mset (m, p) (cells_upto m arr n)"
proof -
  obtain a cs where arr: "arr = Some (a, cs)" and len: "length cs = n"
    using assms(1,3) by (auto simp: arr_clean_def split: option.splits)
  have sum: "cells_upto m (Some (a, ds)) n = (\<Sum>c \<leftarrow> ds. cell_blocks m c)" if "length ds = n" for ds
    using that by (simp add: cells_upto_def arr_cell_def map_nth [symmetric] flip: map_map)
      (metis (no_types, lifting) map_eq_conv map_nth map_map comp_apply)
  have "(\<Sum>c \<leftarrow> cs[i := Ptr p]. cell_blocks m c) =
      add_mset (m, p) (\<Sum>c \<leftarrow> cs. cell_blocks m c)"
    using assms(2,4) len arr
  proof (induction cs arbitrary: i n arr)
    case Nil
    then show ?case by simp
  next
    case (Cons c cs)
    then show ?case by (cases i) (auto simp: arr_cell_def cell_blocks_def)
  qed
  with arr len sum show ?thesis by (simp add: set_ptr_def)
qed

subsection \<open>When the host never runs out of memory\<close>

definition host_never_fails :: "heap \<Rightarrow> bool" where
  "host_never_fails h \<longleftrightarrow> (\<forall>n t. h_malloc h n t)"

lemma free_never_fails [simp]: "host_never_fails (vv_free p h) = host_never_fails h"
  by (auto simp: host_never_fails_def vv_free_def Let_def split: option.splits)

lemma alloc_keeps_never_fails: "host_never_fails h \<Longrightarrow> vv_alloc sz h = (p, h') \<Longrightarrow> host_never_fails h'"
  by (auto simp: vv_alloc_def host_never_fails_def Let_def split: if_splits)

lemma alloc_sizeof: "vv_alloc sz h = (p, h') \<Longrightarrow> h_sizeof h' = h_sizeof h"
  by (auto simp: vv_alloc_def Let_def split: if_splits)

lemma free_sizeof [simp]: "h_sizeof (vv_free p h) = h_sizeof h"
  by (auto simp: vv_free_def Let_def split: option.splits)

lemma word_times_neq_0: "0 < n \<Longrightarrow> n < 2 ^ 31 \<Longrightarrow> 0 < c \<Longrightarrow> c < 2 ^ 32 \<Longrightarrow> of_int n * of_int c \<noteq> (0 :: u64)"
proof -
  assume n: "0 < n" "n < 2 ^ 31" and c: "0 < c" "c < 2 ^ 32"
  have "n * c < 2 ^ 31 * 2 ^ 32" using n c by (intro mult_strict_mono) auto
  then have "n * c mod 2 ^ 64 = n * c" using n c by (intro mod_pos_pos_trivial) auto
  moreover have "0 < n * c" using n c by simp
  ultimately have "uint (word_of_int (n * c) :: u64) \<noteq> 0" using n c by (simp add: uint_word_of_int del: of_int_mult)
  then have "(word_of_int (n * c) :: u64) \<noteq> 0" by fastforce
  then show ?thesis by simp
qed

lemma vv_alloc_never_fails:
  assumes "host_never_fails h" and "sz \<noteq> 0" and "vv_alloc sz h = (p, h')"
  shows "p \<noteq> None \<and> host_never_fails h'"
  using assms by (auto simp: vv_alloc_def host_never_fails_def Let_def)

lemma vv_alloc_succeeds:
  assumes "host_never_fails h" and "sz \<noteq> 0"
  obtains a h' where "vv_alloc sz h = (Some a, h')" and "host_never_fails h'"
  using assms by (auto simp: vv_alloc_def host_never_fails_def Let_def)

lemma vv_dev_alloc_host_never_fails:
  "host_never_fails h \<Longrightarrow> vv_dev_alloc sz h = (s, p, h') \<Longrightarrow> host_never_fails h'"
  by (auto simp: vv_dev_alloc_def host_never_fails_def Let_def split: if_splits)

lemma alloc_ptrs_never_fails:
  assumes "host_never_fails h" and "0 < n" and "n < 2 ^ 31" and "alloc_ptrs n h = (arr, h')"
  shows "arr \<noteq> None \<and> host_never_fails h'"
proof -
  obtain p h1 where va: "vv_alloc (of_int n * 8) h = (p, h1)" by (cases "vv_alloc (of_int n * 8) h")
  from word_times_neq_0 [OF assms(2,3), of 8] have "of_int n * 8 \<noteq> (0 :: u64)" by simp
  from vv_alloc_never_fails [OF assms(1) this va] show ?thesis
    using assms(4) va by (auto simp: alloc_ptrs_def split: option.splits)
qed

subsection \<open>The tracked total\<close>

text \<open>
  The tracked total is the sum of the live sizes: \<open>tracked\<close> sums the headers of the live host
  blocks, and every wrapper keeps the total equal to it.
\<close>

definition tracked :: "heap \<Rightarrow> u64" where
  "tracked h = (\<Sum>b \<leftarrow> h_live h. if fst b = Host then h_size h (snd b) else 0)"

definition heap_wf :: "heap \<Rightarrow> bool" where
  "heap_wf h \<longleftrightarrow> distinct (h_live h) \<and> (\<forall>b \<in> set (h_live h). snd b < h_next h)"

lemma sum_list_remove1:
  "x \<in> set xs \<Longrightarrow> f x + (\<Sum>y \<leftarrow> remove1 x xs. f y) = (\<Sum>y \<leftarrow> xs. f y :: u64)"
  by (induction xs) (auto simp: algebra_simps)

lemma tracked_size_cong:
  "(\<And>a. (Host, a) \<in> set L \<Longrightarrow> f a = g a) \<Longrightarrow>
   (\<Sum>b \<leftarrow> L. if fst b = Host then f (snd b) else 0 :: u64) =
   (\<Sum>b \<leftarrow> L. if fst b = Host then g (snd b) else 0)"
proof (induction L)
  case Nil
  then show ?case by simp
next
  case (Cons b L)
  then show ?case by (cases b) auto
qed

text \<open>A heap for the examples: the host never fails, the device from the sixth request on.\<close>

definition demo_heap :: heap where
  "demo_heap = \<lparr>h_next = 0, h_live = [], h_size = (\<lambda>_. 0), h_raw = (\<lambda>_. 0), h_total = 0, h_bad = False,
     h_malloc = (\<lambda>_ _. True), h_dev = (\<lambda>n _. if n < 5 then VV_OK else VV_ERR_CUDA), h_sizeof = (\<lambda>_. 64)\<rparr>"

lemma demo_heap_owns: "owns demo_heap {#}" and demo_heap_host: "host_never_fails demo_heap"
  by (simp_all add: owns_def demo_heap_def host_never_fails_def)

end
