(* ===== verification/KvPool.thy ===== *)
theory KvPool
  imports KvFormat Heap
begin

text \<open>
  The page pool of the key/value cache (\<^verbatim>\<open>src/inference/kv_cache.c\<close>, "Paging", and the two
  structs it works on): creation and release of a pool, and the page operations of a cache that
  draws from one. The structs are records: a pointer array is \<open>ptr_array\<close>, the free stack and a
  cache's page list are the arrays' contents, \<open>p_n_free\<close> and \<open>c_n_pages\<close> index them. What a
  thread does between taking and dropping the pool's lock is one function here
  (\<open>reserve_iter\<close>, \<open>reserve_take\<close>, \<open>reserve_map\<close>, \<open>vv_kv_cache_release\<close>); how threads
  interleave is the theory \<open>KvSharing\<close>.
\<close>

datatype vv_attn_backend = VV_ATTN_AUTO | VV_ATTN_FA1 | VV_ATTN_FA2 | VV_ATTN_FLASHINFER

record kv_pool =
  p_self :: nat
  p_k :: ptr_array
  p_v :: ptr_array
  p_k_meta :: ptr_array
  p_v_meta :: ptr_array
  p_num_layers :: int
  p_first :: int
  p_count :: int
  p_n_kv_heads :: int
  p_head_dim :: int
  p_format :: vv_kv_format
  p_bytes_per_vec :: int
  p_n_pages :: nat
  p_free_ptr :: "nat option"
  p_free_stack :: "nat list"
  p_n_free :: nat
  p_refs :: int
  p_n_holders :: int
  p_n_stalled :: int
  p_stall_gen :: u32
  p_freed :: nat
  p_bytes :: u64

record kv_cache =
  c_self :: nat
  c_k_cache :: ptr_array
  c_v_cache :: ptr_array
  c_k_meta :: ptr_array
  c_v_meta :: ptr_array
  c_k_ref :: ptr_array
  c_ref_ready_ptr :: "nat option"
  c_ref_ready :: "bool list"
  c_num_layers :: int
  c_first_layer :: int
  c_last_layer :: int
  c_n_kv_heads :: int
  c_head_dim :: int
  c_max_seq_len :: int
  c_current_len :: int
  c_format :: vv_kv_format
  c_bytes_per_vec :: int
  c_on_cpu :: bool
  c_bytes_total :: u64
  c_d_len :: "nat option"
  c_d_len_next :: "nat option"
  c_attn_backend :: vv_attn_backend
  c_pool :: bool
  c_page_table :: "nat option"
  c_pages_ptr :: "nat option"
  c_pages :: "nat list"
  c_n_pages :: nat
  c_max_pages :: int
  c_no_wait :: bool
  c_rope_gap :: int

subsection \<open>Sizes\<close>

definition store_bytes :: "int \<Rightarrow> int \<Rightarrow> int \<Rightarrow> u64" where
  "store_bytes max_seq_len n_kv_heads bytes_per_vec =
     of_int max_seq_len * of_int n_kv_heads * of_int bytes_per_vec"

definition meta_bytes :: "int \<Rightarrow> int \<Rightarrow> u64" where
  "meta_bytes max_seq_len n_kv_heads = of_int max_seq_len * of_int n_kv_heads * 2"

definition vv_kv_cache_bytes :: "int \<Rightarrow> int \<Rightarrow> int \<Rightarrow> int \<Rightarrow> vv_kv_format \<Rightarrow> u64" where
  "vv_kv_cache_bytes num_layers n_kv_heads head_dim max_seq_len format =
     (let bpv = vv_kv_bytes_per_vec format head_dim;
          per_layer = 2 * store_bytes max_seq_len n_kv_heads bpv
            + (if vv_kv_has_meta format then 2 * meta_bytes max_seq_len n_kv_heads else 0)
            + (if \<not> vv_kv_is_raw format then of_int n_kv_heads * of_int head_dim * 2 else 0)
      in per_layer * of_int num_layers)"

subsection \<open>Creating and releasing a pool\<close>

definition pool_free_layer :: "kv_pool \<Rightarrow> nat \<Rightarrow> heap \<Rightarrow> heap" where
  "pool_free_layer p l h =
     free_cell Dev (p_v_meta p) l (free_cell Dev (p_k_meta p) l
       (free_cell Dev (p_v p) l (free_cell Dev (p_k p) l h)))"

definition vv_kv_pool_release :: "kv_pool \<Rightarrow> heap \<Rightarrow> kv_pool \<times> heap" where
  "vv_kv_pool_release p h =
     (let left = p_refs p - 1; p = p\<lparr>p_refs := left\<rparr> in
      if left > 0 then (p, h)
      else
        let h = fold (pool_free_layer p) [0..<nat (p_num_layers p)] h;
            h = vv_free (array_addr (p_k p)) h;
            h = vv_free (array_addr (p_v p)) h;
            h = vv_free (array_addr (p_k_meta p)) h;
            h = vv_free (array_addr (p_v_meta p)) h;
            h = vv_free (p_free_ptr p) h
        in (p, vv_free (Some (p_self p)) h))"

text \<open>One layer's device buffers, in the source's order; stops at the first failure.\<close>

definition pool_alloc_into ::
  "((ptr_array \<Rightarrow> ptr_array) \<Rightarrow> kv_pool \<Rightarrow> kv_pool) \<Rightarrow> nat \<Rightarrow> u64 \<Rightarrow>
   vv_status \<times> kv_pool \<times> heap \<Rightarrow> vv_status \<times> kv_pool \<times> heap" where
  "pool_alloc_into fld l bytes r =
     (case r of (s, p, h) \<Rightarrow>
        if s \<noteq> VV_OK then (s, p, h)
        else (case vv_dev_alloc bytes h of
                (s', None, h') \<Rightarrow> (s', p, h')
              | (s', Some a, h') \<Rightarrow> (s', fld (set_ptr l a) p, h')))"

definition pool_alloc_layer ::
  "bool \<Rightarrow> u64 \<Rightarrow> u64 \<Rightarrow> nat \<Rightarrow> vv_status \<times> kv_pool \<times> heap \<Rightarrow> vv_status \<times> kv_pool \<times> heap" where
  "pool_alloc_layer has_meta sb mb l r =
     (let r = pool_alloc_into p_k_update l sb r;
          r = pool_alloc_into p_v_update l sb r
      in if has_meta
         then pool_alloc_into p_v_meta_update l mb (pool_alloc_into p_k_meta_update l mb r)
         else r)"

text \<open>The host arrays of a new pool, in the order the source allocates them.\<close>

definition pool_arrays :: "kv_pool \<Rightarrow> heap \<Rightarrow> kv_pool \<times> heap" where
  "pool_arrays p h =
     (let has_meta = vv_kv_has_meta (p_format p);
          (k, h) = alloc_ptrs (p_num_layers p) h;
          (v, h) = alloc_ptrs (p_num_layers p) h;
          (fs, h) = vv_alloc (of_nat (p_n_pages p) * 4) h;
          (km, h) = (if has_meta then alloc_ptrs (p_num_layers p) h else (None, h));
          (vm, h) = (if has_meta then alloc_ptrs (p_num_layers p) h else (None, h))
      in (p\<lparr>p_k := k, p_v := v, p_free_ptr := fs, p_k_meta := km, p_v_meta := vm\<rparr>, h))"

definition pool_arrays_missing :: "kv_pool \<Rightarrow> bool" where
  "pool_arrays_missing p \<longleftrightarrow>
     p_k p = None \<or> p_v p = None \<or> p_free_ptr p = None \<or>
     (vv_kv_has_meta (p_format p) \<and> (p_k_meta p = None \<or> p_v_meta p = None))"

definition pool_clear :: "kv_pool \<Rightarrow> kv_pool" where
  "pool_clear p = p\<lparr>p_k := clear_ptrs (p_k p), p_v := clear_ptrs (p_v p),
     p_k_meta := clear_ptrs (p_k_meta p), p_v_meta := clear_ptrs (p_v_meta p)\<rparr>"

text \<open>The device buffers of every layer, then the free stack with the low page ids on top.\<close>

definition pool_fill ::
  "int \<Rightarrow> int \<Rightarrow> u64 \<Rightarrow> u64 \<Rightarrow> kv_pool \<Rightarrow> heap \<Rightarrow> vv_status \<times> kv_pool option \<times> heap" where
  "pool_fill first cnt sb mb p h =
     (let (s, p, h) = fold (pool_alloc_layer (vv_kv_has_meta (p_format p)) sb mb)
            [nat first..<nat (first + cnt)] (VV_OK, p, h)
      in if s \<noteq> VV_OK then (s, None, snd (vv_kv_pool_release p h))
         else (VV_OK,
               Some (p\<lparr>p_free_stack := rev [0..<p_n_pages p], p_n_free := p_n_pages p,
                       p_bytes := of_int cnt * 2 * (sb + mb)\<rparr>), h))"

definition vv_kv_pool_create ::
  "int \<Rightarrow> int \<Rightarrow> int \<Rightarrow> int \<Rightarrow> int \<Rightarrow> int \<Rightarrow> vv_kv_format \<Rightarrow> heap \<Rightarrow> vv_status \<times> kv_pool option \<times> heap" where
  "vv_kv_pool_create num_layers first cnt n_kv_heads head_dim n_pages format h =
     (if first < 0 \<or> cnt \<le> 0 \<or> first + cnt > num_layers \<or> n_pages \<le> 0
      then (VV_ERR_INVALID_ARG, None, h)
      else
        case vv_alloc (h_sizeof h ''vv_kv_pool_t'') h of
          (None, h) \<Rightarrow> (VV_ERR_OUT_OF_MEMORY, None, h)
        | (Some self, h) \<Rightarrow>
            let bpv = vv_kv_bytes_per_vec format head_dim;
                p = \<lparr>p_self = self, p_k = None, p_v = None, p_k_meta = None, p_v_meta = None,
                     p_num_layers = num_layers, p_first = first, p_count = cnt,
                     p_n_kv_heads = n_kv_heads, p_head_dim = head_dim, p_format = format,
                     p_bytes_per_vec = bpv, p_n_pages = nat n_pages, p_free_ptr = None,
                     p_free_stack = replicate (nat n_pages) 0, p_n_free = 0, p_refs = 1,
                     p_n_holders = 0, p_n_stalled = 0, p_stall_gen = 0, p_freed = 0, p_bytes = 0\<rparr>;
                has_meta = vv_kv_has_meta format;
                rows = n_pages * VV_KV_PAGE_SIZE;
                sb = store_bytes rows n_kv_heads bpv;
                mb = (if has_meta then meta_bytes rows n_kv_heads else 0);
                (p, h) = pool_arrays p h
            in if pool_arrays_missing p
               then (VV_ERR_OUT_OF_MEMORY, None, snd (vv_kv_pool_release p h))
               else pool_fill first cnt sb mb (pool_clear p) h)"

definition vv_kv_pool_pages :: "kv_pool option \<Rightarrow> nat \<times> nat" where
  "vv_kv_pool_pages p = (case p of None \<Rightarrow> (0, 0) | Some p \<Rightarrow> (p_n_pages p, p_n_free p))"

definition vv_kv_pool_bytes :: "kv_pool option \<Rightarrow> u64" where
  "vv_kv_pool_bytes p = (case p of None \<Rightarrow> 0 | Some p \<Rightarrow> p_bytes p)"

definition vv_kv_pool_stats :: "kv_pool option \<Rightarrow> nat \<times> int \<times> int" where
  "vv_kv_pool_stats p =
     (case p of None \<Rightarrow> (0, 0, 0) | Some p \<Rightarrow> (p_n_free p, p_n_holders p, p_n_stalled p))"

subsection \<open>Moving pages between the free stack and a cache\<close>

text \<open>\<^verbatim>\<open>for (i = 0; i < need; i++) pages[pos + i] = free_stack[--n_free];\<close>\<close>

fun take_pages :: "nat \<Rightarrow> nat \<Rightarrow> nat list \<Rightarrow> nat \<Rightarrow> nat list \<Rightarrow> nat \<times> nat list" where
  "take_pages 0 pos fs nf pg = (nf, pg)"
| "take_pages (Suc k) pos fs nf pg = take_pages k (Suc pos) fs (nf - 1) (pg[pos := fs ! (nf - 1)])"

text \<open>\<^verbatim>\<open>for (i = n - 1; i >= 0; i--) free_stack[n_free++] = pages[off + i];\<close>\<close>

fun put_pages :: "nat \<Rightarrow> nat \<Rightarrow> nat list \<Rightarrow> nat list \<Rightarrow> nat \<Rightarrow> nat list \<times> nat" where
  "put_pages 0 off pg fs nf = (fs, nf)"
| "put_pages (Suc i) off pg fs nf = put_pages i off pg (fs[nf := pg ! (off + i)]) (Suc nf)"

subsection \<open>Reserving and releasing\<close>

text \<open>
  The condition variable \<^verbatim>\<open>freed\<close> is the number of broadcasts it has had: a thread that went to sleep on it at
  \<open>t\<close> broadcasts has been woken when there have been more.
\<close>

definition vv_cond_broadcast :: "kv_pool \<Rightarrow> kv_pool" where
  "vv_cond_broadcast p = p\<lparr>p_freed := p_freed p + 1\<rparr>"

lemma cond_broadcast_simps [simp]:
  "p_freed (vv_cond_broadcast p) = p_freed p + 1"
  "p_self (vv_cond_broadcast p) = p_self p" "p_k (vv_cond_broadcast p) = p_k p" "p_v (vv_cond_broadcast p) = p_v p"
  "p_k_meta (vv_cond_broadcast p) = p_k_meta p" "p_v_meta (vv_cond_broadcast p) = p_v_meta p" "p_num_layers (vv_cond_broadcast p) = p_num_layers p"
  "p_first (vv_cond_broadcast p) = p_first p" "p_count (vv_cond_broadcast p) = p_count p" "p_n_kv_heads (vv_cond_broadcast p) = p_n_kv_heads p"
  "p_head_dim (vv_cond_broadcast p) = p_head_dim p" "p_format (vv_cond_broadcast p) = p_format p" "p_bytes_per_vec (vv_cond_broadcast p) = p_bytes_per_vec p"
  "p_n_pages (vv_cond_broadcast p) = p_n_pages p" "p_free_ptr (vv_cond_broadcast p) = p_free_ptr p" "p_free_stack (vv_cond_broadcast p) = p_free_stack p"
  "p_n_free (vv_cond_broadcast p) = p_n_free p" "p_refs (vv_cond_broadcast p) = p_refs p" "p_n_holders (vv_cond_broadcast p) = p_n_holders p"
  "p_n_stalled (vv_cond_broadcast p) = p_n_stalled p" "p_stall_gen (vv_cond_broadcast p) = p_stall_gen p" "p_bytes (vv_cond_broadcast p) = p_bytes p"
  by (simp_all add: vv_cond_broadcast_def)

text \<open>
  The tests before the lock: \<open>Inl s\<close> returns \<open>s\<close> at once, \<open>Inr (want, need)\<close> goes on for
  \<open>need\<close> more pages.
\<close>

definition reserve_enter :: "kv_cache option \<Rightarrow> int \<Rightarrow> vv_status + (nat \<times> nat)" where
  "reserve_enter cache n_positions =
     (case cache of
        None \<Rightarrow> Inl VV_ERR_NULL_PTR
      | Some c \<Rightarrow>
          if n_positions > c_max_seq_len c then Inl VV_ERR_OVERFLOW
          else if \<not> c_pool c then Inl VV_OK
          else let want = (n_positions + VV_KV_PAGE_SIZE - 1) sdiv VV_KV_PAGE_SIZE in
            if want \<le> int (c_n_pages c) then Inl VV_OK
            else Inr (nat want, nat want - c_n_pages c))"

datatype iter = Take | GiveUp | Sleep

text \<open>
  One test of \<^verbatim>\<open>while (p->n_free < need)\<close> and its body up to \<^verbatim>\<open>vv_cond_wait\<close>, under the lock.
\<close>

definition reserve_iter ::
  "kv_pool \<Rightarrow> kv_cache \<Rightarrow> nat \<Rightarrow> bool \<Rightarrow> bool \<Rightarrow> u32 \<Rightarrow> iter \<times> kv_pool \<times> bool \<times> u32" where
  "reserve_iter p c need wait counted my_gen =
     (if p_n_free p < need then
        let counted = (if counted \<and> p_stall_gen p \<noteq> my_gen then False else counted);
            holds = (c_n_pages c > 0);
            running = (p_n_holders p - (if holds then 1 else 0))
                      - (p_n_stalled p - (if counted then 1 else 0));
            hopeless = (need > p_n_pages p \<or> (holds \<and> running \<le> 0) \<or>
                        (\<not> holds \<and> p_n_holders p = 0))
        in if \<not> wait \<or> hopeless
           then (GiveUp, (if counted then p\<lparr>p_n_stalled := p_n_stalled p - 1\<rparr> else p), counted, my_gen)
           else if holds \<and> \<not> counted
           then (Sleep, p\<lparr>p_n_stalled := p_n_stalled p + 1\<rparr>, True, p_stall_gen p)
           else (Sleep, p, counted, my_gen)
      else (Take, p, counted, my_gen))"

definition reserve_take :: "kv_pool \<Rightarrow> kv_cache \<Rightarrow> nat \<Rightarrow> bool \<Rightarrow> u32 \<Rightarrow> kv_pool \<times> kv_cache" where
  "reserve_take p c need counted my_gen =
     (let stalled = (if counted \<and> p_stall_gen p = my_gen then p_n_stalled p - 1 else p_n_stalled p);
          holders = (if c_n_pages c = 0 then p_n_holders p + 1 else p_n_holders p);
          (nf, pg) = take_pages need (c_n_pages c) (p_free_stack p) (p_n_free p) (c_pages c)
      in (p\<lparr>p_n_stalled := stalled, p_n_holders := holders, p_n_free := nf\<rparr>, c\<lparr>c_pages := pg\<rparr>))"

text \<open>After the lock is dropped: the device table is written with status \<open>s\<close>.\<close>

definition reserve_map ::
  "kv_pool \<Rightarrow> kv_cache \<Rightarrow> nat \<Rightarrow> nat \<Rightarrow> vv_status \<Rightarrow> vv_status \<times> kv_pool \<times> kv_cache" where
  "reserve_map p c want need s =
     (if s \<noteq> VV_OK then
        let (fs, nf) = put_pages need (c_n_pages c) (c_pages c) (p_free_stack p) (p_n_free p)
        in (s, vv_cond_broadcast
                 (p\<lparr>p_free_stack := fs, p_n_free := nf,
                    p_n_holders := (if c_n_pages c = 0 then p_n_holders p - 1 else p_n_holders p),
                    p_n_stalled := 0, p_stall_gen := p_stall_gen p + 1\<rparr>), c)
      else (VV_OK, p, c\<lparr>c_n_pages := want\<rparr>))"

text \<open>
  \<^verbatim>\<open>vv_kv_cache_reserve\<close>: the whole function with \<^verbatim>\<open>wait\<close> false, which never sleeps.
  \<open>page_map\<close> is the status of \<^verbatim>\<open>vv_kv_page_map_dev\<close>.
\<close>

definition vv_kv_cache_reserve ::
  "kv_pool \<Rightarrow> kv_cache \<Rightarrow> int \<Rightarrow> vv_status \<Rightarrow> vv_status \<times> kv_pool \<times> kv_cache" where
  "vv_kv_cache_reserve p c n_positions page_map =
     (case reserve_enter (Some c) n_positions of
        Inl s \<Rightarrow> (s, p, c)
      | Inr (want, need) \<Rightarrow>
          (case reserve_iter p c need False False 0 of
             (Take, p, counted, g) \<Rightarrow>
               let (p, c) = reserve_take p c need counted g in reserve_map p c want need page_map
           | (_, p, _) \<Rightarrow> (VV_ERR_KV_POOL_EXHAUSTED, p, c)))"

definition vv_kv_cache_release :: "kv_pool \<Rightarrow> kv_cache \<Rightarrow> kv_pool \<times> kv_cache" where
  "vv_kv_cache_release p c =
     (if \<not> c_pool c \<or> c_n_pages c = 0 then (p, c)
      else let (fs, nf) = put_pages (c_n_pages c) 0 (c_pages c) (p_free_stack p) (p_n_free p)
        in (vv_cond_broadcast
              (p\<lparr>p_free_stack := fs, p_n_free := nf, p_n_holders := p_n_holders p - 1,
                 p_n_stalled := 0, p_stall_gen := p_stall_gen p + 1\<rparr>), c\<lparr>c_n_pages := 0\<rparr>))"


subsection \<open>What the page loops compute\<close>

lemma take_pages_spec:
  "k \<le> nf \<Longrightarrow> nf \<le> length fs \<Longrightarrow> pos + k \<le> length pg \<Longrightarrow>
   take_pages k pos fs nf pg =
     (nf - k, take pos pg @ rev (take k (drop (nf - k) fs)) @ drop (pos + k) pg)"
proof (induction k arbitrary: pos nf pg)
  case 0
  then show ?case by simp
next
  case (Suc k)
  have "take (Suc k) (drop (nf - Suc k) fs) = take k (drop (nf - Suc k) fs) @ [fs ! (nf - 1)]"
    using Suc.prems by (simp add: take_Suc_conv_app_nth)
  with Suc show ?case
    by (simp add: take_Suc_update diff_diff_add)
qed

lemma put_pages_spec:
  "nf + n \<le> length fs \<Longrightarrow> off + n \<le> length pg \<Longrightarrow>
   put_pages n off pg fs nf =
     (take nf fs @ rev (take n (drop off pg)) @ drop (nf + n) fs, nf + n)"
proof (induction n arbitrary: fs nf)
  case 0
  then show ?case by simp
next
  case (Suc n)
  have "take (Suc n) (drop off pg) = take n (drop off pg) @ [pg ! (off + n)]"
    using Suc.prems by (simp add: take_Suc_conv_app_nth)
  with Suc show ?case
    by (simp add: take_Suc_update)
qed

lemma length_put_pages [simp]: "length (fst (put_pages n off pg fs nf)) = length fs"
  by (induction n off pg fs nf rule: put_pages.induct) simp_all

lemma length_take_pages [simp]: "length (snd (take_pages k pos fs nf pg)) = length pg"
  by (induction k pos fs nf pg rule: take_pages.induct) simp_all

text \<open>Handing the pages just taken back restores the free stack, entry by entry.\<close>

lemma put_take_pages:
  assumes "k \<le> nf" "nf \<le> length fs" "pos + k \<le> length pg"
    and "take_pages k pos fs nf pg = (nf', pg')"
  shows "put_pages k pos pg' fs nf' = (fs, nf)"
proof -
  have pg': "pg' = take pos pg @ rev (take k (drop (nf - k) fs)) @ drop (pos + k) pg"
    and nf': "nf' = nf - k"
    using assms(4) take_pages_spec [OF assms(1-3)] by auto
  have "take k (drop pos pg') = rev (take k (drop (nf - k) fs))"
    using assms(1-3) pg' by simp
  moreover have "length pg' = length pg"
    using assms(4) length_take_pages [of k pos fs nf pg] by simp
  ultimately show ?thesis
    using assms(1-3) nf'
    by (simp add: put_pages_spec) (metis append_take_drop_id drop_drop le_add_diff_inverse2 add.commute)
qed

subsection \<open>The blocks a pool owns\<close>

definition pool_blocks :: "nat \<Rightarrow> kv_pool \<Rightarrow> block multiset" where
  "pool_blocks L p =
     {#(Host, p_self p)#} + opt_block Host (p_free_ptr p)
     + arr_addr_block (p_k p) + arr_addr_block (p_v p)
     + arr_addr_block (p_k_meta p) + arr_addr_block (p_v_meta p)
     + cells_upto Dev (p_k p) L + cells_upto Dev (p_v p) L
     + cells_upto Dev (p_k_meta p) L + cells_upto Dev (p_v_meta p) L"

definition pool_clean :: "nat \<Rightarrow> kv_pool \<Rightarrow> bool" where
  "pool_clean L p \<longleftrightarrow>
     nat (p_num_layers p) = L \<and> arr_clean L (p_k p) \<and> arr_clean L (p_v p) \<and>
     arr_clean L (p_k_meta p) \<and> arr_clean L (p_v_meta p)"

lemma pool_free_layer_owns:
  assumes "pool_clean L p" and "l < L"
    and "owns h (arr_cell Dev (p_k p) l + arr_cell Dev (p_v p) l + arr_cell Dev (p_k_meta p) l
                 + arr_cell Dev (p_v_meta p) l + M)"
  shows "owns (pool_free_layer p l h) M"
  using assms unfolding pool_free_layer_def pool_clean_def
  by (intro owns_free_cell [of L]) (simp_all add: ac_simps)

lemma pool_release_last_owns:
  assumes "pool_clean L p" and "p_refs p = 1" and "owns h (pool_blocks L p + M)"
  shows "owns (snd (vv_kv_pool_release p h)) M"
proof -
  let ?q = "p\<lparr>p_refs := 0\<rparr>"
  let ?B = "\<lambda>l. arr_cell Dev (p_k p) l + arr_cell Dev (p_v p) l + arr_cell Dev (p_k_meta p) l
                 + arr_cell Dev (p_v_meta p) l"
  let ?R = "arr_addr_block (p_k p) + (arr_addr_block (p_v p) + (arr_addr_block (p_k_meta p)
            + (arr_addr_block (p_v_meta p) + (opt_block Host (p_free_ptr p)
            + ({#(Host, p_self p)#} + M)))))"
  have q: "pool_clean L ?q" and L: "nat (p_num_layers p) = L"
    using assms(1) by (simp_all add: pool_clean_def)
  have "owns h ((\<Sum>l \<leftarrow> [0..<L]. ?B l) + ?R)"
    using assms(3) by (simp add: pool_blocks_def cells_upto_def sum_list_addf ac_simps)
  then have "owns (fold (pool_free_layer ?q) [0..<L] h) ?R"
    by (rule owns_fold [rotated]) (rule pool_free_layer_owns [OF q], simp_all)
  then show ?thesis
    using assms(2) L by (simp add: vv_kv_pool_release_def Let_def)
qed

subsection \<open>Creating a pool\<close>

definition arr_ready :: "nat \<Rightarrow> nat \<Rightarrow> ptr_array \<Rightarrow> bool" where
  "arr_ready L l arr \<longleftrightarrow>
     arr \<noteq> None \<and> arr_clean L arr \<and> (\<forall>j. l \<le> j \<and> j < L \<longrightarrow> arr_cell Dev arr j = {#})"

lemma arr_clean_None [simp]: "arr_clean L None"
  by (simp add: arr_clean_def)

lemma arr_ready_set: "arr_ready L l arr \<Longrightarrow> arr_ready L (Suc l) (set_ptr l a arr)"
  by (auto simp: arr_ready_def arr_cell_def set_ptr_def arr_clean_def split: option.splits
      dest: set_update_subset_insert [THEN subsetD])

lemma arr_ready_Suc: "arr_ready L l arr \<Longrightarrow> arr_ready L (Suc l) arr"
  by (auto simp: arr_ready_def)

lemma arr_cell_empty_kind: "arr_cell m arr j = {#} \<longleftrightarrow> arr_cell Dev arr j = {#}"
  by (auto simp: arr_cell_def cell_blocks_def split: option.splits cell.splits)

lemma arr_ready_blocks:
  "arr_ready L l arr \<Longrightarrow> l < L \<Longrightarrow>
   cells_upto m (set_ptr l a arr) L = add_mset (m, a) (cells_upto m arr L)"
  by (intro cells_upto_set_ptr) (auto simp: arr_ready_def arr_cell_empty_kind [of m])

lemma arr_ready_clear:
  assumes "alloc_ptrs n h = (arr, h')" and "arr \<noteq> None"
  shows "arr_ready (nat n) l (clear_ptrs arr)"
proof -
  have "clear_ptrs arr \<noteq> None" using assms(2) by (simp add: clear_ptrs_def)
  then show ?thesis
    using clear_ptrs_clean [OF refl assms(1)] arr_cell_clear [OF refl assms(1)]
    by (simp add: arr_ready_def)
qed

text \<open>Where each of the four arrays has its layers below its own mark filled in.\<close>

definition pool_ready :: "nat \<Rightarrow> bool \<Rightarrow> nat \<times> nat \<times> nat \<times> nat \<Rightarrow> kv_pool \<Rightarrow> bool" where
  "pool_ready L m marks p =
     (case marks of (a, b, c, d) \<Rightarrow>
        nat (p_num_layers p) = L \<and> p_refs p = 1 \<and>
        arr_ready L a (p_k p) \<and> arr_ready L b (p_v p) \<and>
        (if m then arr_ready L c (p_k_meta p) \<and> arr_ready L d (p_v_meta p)
         else p_k_meta p = None \<and> p_v_meta p = None))"

lemma pool_ready_clean: "pool_ready L m marks p \<Longrightarrow> pool_clean L p \<and> p_refs p = 1"
  by (cases marks) (auto simp: pool_ready_def pool_clean_def arr_ready_def split: if_splits)

definition pool_building :: "nat \<Rightarrow> bool \<Rightarrow> block multiset \<Rightarrow> nat \<times> nat \<times> nat \<times> nat \<Rightarrow>
    vv_status \<times> kv_pool \<times> heap \<Rightarrow> bool" where
  "pool_building L m M marks r =
     (case r of (s, p, h) \<Rightarrow>
        owns h (pool_blocks L p + M) \<and> pool_ready L m (if s = VV_OK then marks else (L, L, L, L)) p)"

lemma pool_ready_weaken:
  "pool_ready L m (a, b, c, d) p \<Longrightarrow> a \<le> a' \<Longrightarrow> b \<le> b' \<Longrightarrow> c \<le> c' \<Longrightarrow> d \<le> d' \<Longrightarrow>
   pool_ready L m (a', b', c', d') p"
  by (auto simp: pool_ready_def arr_ready_def)

lemma pool_alloc_into_building:
  assumes r: "pool_building L m M marks r" and ms: "marks = (a, b, c, d)"
    and le: "a \<le> L" "b \<le> L" "c \<le> L" "d \<le> L"
    and blocks: "\<And>p x. pool_ready L m marks p \<Longrightarrow>
      pool_blocks L (fld (set_ptr l x) p) = add_mset (Dev, x) (pool_blocks L p)"
    and ready: "\<And>p x. pool_ready L m marks p \<Longrightarrow> pool_ready L m marks' (fld (set_ptr l x) p)"
  shows "pool_building L m M marks' (pool_alloc_into fld l bytes r)"
proof -
  obtain s p h where rr: "r = (s, p, h)" by (cases r)
  obtain s' q h' where va: "vv_dev_alloc bytes h = (s', q, h')" by (cases "vv_dev_alloc bytes h")
  show ?thesis
  proof (cases "s = VV_OK")
    case True
    with r rr have own: "owns h (pool_blocks L p + M)" and rdy: "pool_ready L m marks p"
      by (simp_all add: pool_building_def)
    from vv_dev_alloc_owns [OF own va]
    have own': "owns h' (case q of None \<Rightarrow> pool_blocks L p + M
        | Some x \<Rightarrow> add_mset (Dev, x) (pool_blocks L p + M))" and st: "(s' = VV_OK) = (q \<noteq> None)"
      by simp_all
    have full: "pool_ready L m (L, L, L, L) p"
      using rdy le unfolding ms by (rule pool_ready_weaken)
    show ?thesis
      using True rr va own' st full blocks [OF rdy] ready [OF rdy]
      by (cases q) (auto simp: pool_alloc_into_def pool_building_def)
  next
    case False
    with r rr show ?thesis by (simp add: pool_alloc_into_def pool_building_def)
  qed
qed

lemma pool_alloc_layer_building:
  assumes "pool_building L m M (l, l, l, l) r" and l: "l < L"
  shows "pool_building L m M (Suc l, Suc l, Suc l, Suc l) (pool_alloc_layer m sb mb l r)"
proof -
  let ?r1 = "pool_alloc_into p_k_update l sb r"
  let ?r2 = "pool_alloc_into p_v_update l sb ?r1"
  let ?r3 = "pool_alloc_into p_k_meta_update l mb ?r2"
  let ?r4 = "pool_alloc_into p_v_meta_update l mb ?r3"
  note simps = pool_ready_def pool_blocks_def arr_ready_blocks arr_ready_set arr_ready_Suc
  have 1: "pool_building L m M (Suc l, l, l, l) ?r1"
    by (rule pool_alloc_into_building [OF assms(1) refl]) (use l in \<open>auto simp: simps\<close>)
  have 2: "pool_building L m M (Suc l, Suc l, l, l) ?r2"
    by (rule pool_alloc_into_building [OF 1 refl]) (use l in \<open>auto simp: simps\<close>)
  show ?thesis
  proof (cases m)
    case True
    have 3: "pool_building L m M (Suc l, Suc l, Suc l, l) ?r3"
      by (rule pool_alloc_into_building [OF 2 refl]) (use l True in \<open>auto simp: simps\<close>)
    have "pool_building L m M (Suc l, Suc l, Suc l, Suc l) ?r4"
      by (rule pool_alloc_into_building [OF 3 refl]) (use l True in \<open>auto simp: simps\<close>)
    with True show ?thesis by (simp add: pool_alloc_layer_def)
  next
    case False
    with 2 show ?thesis
      by (auto simp: pool_alloc_layer_def pool_building_def pool_ready_def split: if_splits)
  qed
qed

lemma pool_alloc_layers_building:
  "pool_building L m M (a, a, a, a) r \<Longrightarrow> a \<le> b \<Longrightarrow> b \<le> L \<Longrightarrow>
   pool_building L m M (b, b, b, b) (fold (pool_alloc_layer m sb mb) [a..<b] r)"
proof (induction "b - a" arbitrary: a r)
  case 0
  then show ?case by simp
next
  case (Suc n)
  then have "a < b" by simp
  then have "[a..<b] = a # [Suc a..<b]" by (rule upt_conv_Cons)
  moreover have "pool_building L m M (Suc a, Suc a, Suc a, Suc a) (pool_alloc_layer m sb mb a r)"
    using Suc.prems \<open>a < b\<close> by (intro pool_alloc_layer_building) auto
  ultimately show ?case using Suc.hyps(1) [of "Suc a"] Suc.hyps(2) Suc.prems \<open>a < b\<close> by simp
qed


lemma opt_alloc_ptrs_owns:
  assumes "owns h M" and "(if m then alloc_ptrs n h else (None, h)) = (arr, h')"
    and "host_never_fails h" and "0 < n" and "n < 2 ^ 31"
  shows "owns h' (arr_addr_block arr + M) \<and> host_never_fails h' \<and> (m \<longleftrightarrow> arr \<noteq> None) \<and>
    (\<forall>k. if m then arr_ready (nat n) k (clear_ptrs arr) else clear_ptrs arr = None) \<and>
    (\<forall>d. cells_upto d (clear_ptrs arr) (nat n) = {#})"
proof (cases m)
  case True
  with assms(2) have al: "alloc_ptrs n h = (arr, h')" by simp
  note nn = alloc_ptrs_never_fails [OF assms(3-5) al]
  with True show ?thesis
    using alloc_ptrs_owns [OF assms(1) al] arr_ready_clear [OF al] cells_upto_clear [OF refl al] by auto
next
  case False
  with assms show ?thesis by (auto simp: arr_addr_block_def clear_ptrs_def)
qed

lemmas alloc_ptrs_result = opt_alloc_ptrs_owns [where m = True, simplified]

lemma pool_arrays_ready:
  assumes own: "owns h ({#(Host, p_self p)#} + M)" and host: "host_never_fails h"
    and L: "0 < p_num_layers p" "p_num_layers p < 2 ^ 31"
    and np: "0 < p_n_pages p" "int (p_n_pages p) < 2 ^ 31" and refs: "p_refs p = 1"
    and pa: "pool_arrays p h = (p', h')"
  shows "\<not> pool_arrays_missing p' \<and> owns h' (pool_blocks (nat (p_num_layers p)) (pool_clear p') + M) \<and>
    pool_ready (nat (p_num_layers p)) (vv_kv_has_meta (p_format p)) (a, b, c, d) (pool_clear p') \<and>
    (\<exists>k v km vm fs. p' = p\<lparr>p_k := k, p_v := v, p_free_ptr := fs, p_k_meta := km, p_v_meta := vm\<rparr>)"
proof -
  let ?m = "vv_kv_has_meta (p_format p)"
  let ?n = "p_num_layers p"
  obtain k h1 where a1: "alloc_ptrs ?n h = (k, h1)" by fastforce
  obtain v h2 where a2: "alloc_ptrs ?n h1 = (v, h2)" by fastforce
  obtain fs h3 where a3: "vv_alloc (of_nat (p_n_pages p) * 4) h2 = (fs, h3)" by fastforce
  obtain km h4 where a4: "(if ?m then alloc_ptrs ?n h3 else (None, h3)) = (km, h4)" by fastforce
  obtain vm h5 where a5: "(if ?m then alloc_ptrs ?n h4 else (None, h4)) = (vm, h5)" by fastforce
  note r1 = alloc_ptrs_result [OF own a1 host L [simplified]]
  have host1: "host_never_fails h1" using r1 by blast
  note r2 = alloc_ptrs_result [OF r1 [THEN conjunct1] a2 host1 L [simplified]]
  have "of_nat (p_n_pages p) * 4 \<noteq> (0 :: u64)"
    using word_times_neq_0 [of "int (p_n_pages p)" 4] np by simp
  with r1 r2 a3 have n3: "fs \<noteq> None \<and> host_never_fails h3"
    by (intro vv_alloc_never_fails [OF _ _ a3]) auto
  have o3: "owns h3 (opt_block Host fs + (arr_addr_block v + (arr_addr_block k + ({#(Host, p_self p)#} + M))))"
    using vv_alloc_owns [OF _ a3, OF r2 [THEN conjunct1]] r1 n3 by (auto simp: opt_block_def add_mset_commute)
  note r4 = opt_alloc_ptrs_owns [OF o3 a4 n3 [THEN conjunct2] L]
  have host4: "host_never_fails h4" using r4 by blast
  note r5 = opt_alloc_ptrs_owns [OF r4 [THEN conjunct1] a5 host4 L]
  have p': "p' = p\<lparr>p_k := k, p_v := v, p_free_ptr := fs, p_k_meta := km, p_v_meta := vm\<rparr>" "h' = h5"
    using pa a1 a2 a3 a4 a5 by (simp_all add: pool_arrays_def Let_def)
  have "owns h5 (pool_blocks (nat ?n) (pool_clear p') + M)"
    using r5 [THEN conjunct1] r1 r2 r4 r5 by (simp add: p' pool_blocks_def pool_clear_def ac_simps)
  moreover have "\<not> pool_arrays_missing p'"
    using r1 r2 n3 r4 r5 by (auto simp: p' pool_arrays_missing_def)
  moreover have "pool_ready (nat ?n) ?m (a, b, c, d) (pool_clear p')"
    using r1 r2 r4 r5 refs by (simp add: p' pool_clear_def pool_ready_def split: if_splits)
  ultimately show ?thesis using p' by blast
qed

definition pool_counts :: "kv_pool \<Rightarrow> nat \<times> int \<times> int \<times> u32 \<times> nat" where
  "pool_counts p = (p_n_pages p, p_n_holders p, p_n_stalled p, p_stall_gen p, p_freed p)"

lemma pool_alloc_into_counts:
  "(\<And>f p. pool_counts (fld f p) = pool_counts p) \<Longrightarrow>
   pool_counts (fst (snd (pool_alloc_into fld l b r))) = pool_counts (fst (snd r))"
  by (cases r) (simp add: pool_alloc_into_def split: prod.split option.split)

lemma pool_alloc_layer_counts:
  "pool_counts (fst (snd (pool_alloc_layer m sb mb l r))) = pool_counts (fst (snd r))"
proof -
  have "pool_counts (p_k_update f p) = pool_counts p" "pool_counts (p_v_update f p) = pool_counts p"
    "pool_counts (p_k_meta_update f p) = pool_counts p" "pool_counts (p_v_meta_update f p) = pool_counts p" for f p
    by (simp_all add: pool_counts_def)
  then show ?thesis by (simp add: pool_alloc_layer_def Let_def pool_alloc_into_counts)
qed

lemma pool_building_frame:
  assumes "fold (pool_alloc_layer m sb mb) ls (s0, p, h) = (s, p', h')"
  shows "pool_counts p' = pool_counts p"
proof -
  have "pool_counts (fst (snd (fold (pool_alloc_layer m sb mb) ls r))) = pool_counts (fst (snd r))" for r
    by (induction ls arbitrary: r) (simp_all add: pool_alloc_layer_counts)
  from this [of "(s0, p, h)"] show ?thesis using assms by simp
qed

definition pool_fresh :: "nat \<Rightarrow> kv_pool \<Rightarrow> bool" where
  "pool_fresh n p \<longleftrightarrow>
     p_refs p = 1 \<and> p_n_pages p = n \<and> p_free_stack p = rev [0..<n] \<and> p_n_free p = n \<and>
     p_n_holders p = 0 \<and> p_n_stalled p = 0 \<and> p_stall_gen p = 0 \<and> p_freed p = 0"

lemma pool_clear_simps [simp]:
  "p_n_pages (pool_clear p) = p_n_pages p" "p_format (pool_clear p) = p_format p"
  "p_n_holders (pool_clear p) = p_n_holders p" "p_n_stalled (pool_clear p) = p_n_stalled p"
  "p_stall_gen (pool_clear p) = p_stall_gen p" "p_freed (pool_clear p) = p_freed p"
  by (simp_all add: pool_clear_def)

lemma pool_fill_owns:
  assumes ready: "pool_ready L (vv_kv_has_meta (p_format p)) (nat first, nat first, nat first, nat first) p"
    and own: "owns h (pool_blocks L p + M)"
    and rng: "0 \<le> first" "0 < cnt" "nat (first + cnt) \<le> L"
    and zero: "p_n_holders p = 0" "p_n_stalled p = 0" "p_stall_gen p = 0" "p_freed p = 0"
    and fill: "pool_fill first cnt sb mb p h = (s, r, h')"
  shows "case r of
           None \<Rightarrow> s \<noteq> VV_OK \<and> owns h' M
         | Some q \<Rightarrow> s = VV_OK \<and> owns h' (pool_blocks L q + M) \<and> pool_clean L q \<and>
             pool_fresh (p_n_pages p) q"
proof -
  let ?m = "vv_kv_has_meta (p_format p)" and ?l = "nat first" and ?u = "nat (first + cnt)"
  obtain s2 p2 h2 where fo: "fold (pool_alloc_layer ?m sb mb) [?l..<?u] (VV_OK, p, h) = (s2, p2, h2)"
    by (cases "fold (pool_alloc_layer ?m sb mb) [?l..<?u] (VV_OK, p, h)")
  have "pool_building L ?m M (?l, ?l, ?l, ?l) (VV_OK, p, h)"
    using ready own by (simp add: pool_building_def)
  from pool_alloc_layers_building [OF this _ rng(3), of sb mb]
  have own2: "owns h2 (pool_blocks L p2 + M)" and cl: "pool_clean L p2" "p_refs p2 = 1"
    using rng fo by (auto simp: pool_building_def nat_mono dest: pool_ready_clean)
  note fr = pool_building_frame [OF fo]
  show ?thesis
    using fill fo fr zero cl own2 pool_release_last_owns [OF cl own2]
    by (auto simp: pool_fill_def pool_fresh_def pool_clean_def pool_blocks_def pool_counts_def
        split: if_splits)
qed

lemma pool_create_owns:
  assumes own: "owns h M" and host: "host_never_fails h"
    and L: "num_layers < 2 ^ 31" and np: "n_pages < 2 ^ 31"
    and cr: "vv_kv_pool_create num_layers first cnt n_kv_heads head_dim n_pages fmt h = (s, r, h')"
  shows "case r of
           None \<Rightarrow> s \<noteq> VV_OK \<and> owns h' M
         | Some p \<Rightarrow> s = VV_OK \<and> owns h' (pool_blocks (nat num_layers) p + M) \<and>
             pool_clean (nat num_layers) p \<and> pool_fresh (nat n_pages) p"
proof (cases "(first < 0 \<or> cnt \<le> 0 \<or> first + cnt > num_layers \<or> n_pages \<le> 0) \<or>
    fst (vv_alloc (h_sizeof h ''vv_kv_pool_t'') h) = None")
  case True
  obtain q h0 where "vv_alloc (h_sizeof h ''vv_kv_pool_t'') h = (q, h0)" by fastforce
  with True cr own vv_alloc_owns [OF own this] show ?thesis
    by (auto simp: vv_kv_pool_create_def split: if_splits)
next
  case ok: False
  obtain self h0 where a0: "vv_alloc (h_sizeof h ''vv_kv_pool_t'') h = (Some self, h0)"
    using ok by (cases "vv_alloc (h_sizeof h ''vv_kv_pool_t'') h") auto
  have host0: "host_never_fails h0"
    using host a0 by (auto simp: vv_alloc_def host_never_fails_def Let_def split: if_splits)
  define p where "p = \<lparr>p_self = self, p_k = None, p_v = None, p_k_meta = None, p_v_meta = None,
                     p_num_layers = num_layers, p_first = first, p_count = cnt,
                     p_n_kv_heads = n_kv_heads, p_head_dim = head_dim, p_format = fmt,
                     p_bytes_per_vec = vv_kv_bytes_per_vec fmt head_dim, p_n_pages = nat n_pages,
                     p_free_ptr = None,
                     p_free_stack = replicate (nat n_pages) 0, p_n_free = 0, p_refs = 1,
                     p_n_holders = 0, p_n_stalled = 0, p_stall_gen = 0, p_freed = 0, p_bytes = 0\<rparr>"
  obtain p1 h1 where pa: "pool_arrays p h0 = (p1, h1)" by fastforce
  have own0: "owns h0 ({#(Host, p_self p)#} + M)"
    using vv_alloc_owns [OF own a0] by (simp add: p_def)
  note pr = pool_arrays_ready [OF own0 host0 _ _ _ _ _ pa, of "nat first" "nat first" "nat first" "nat first"]
  obtain sb mb where fi: "pool_fill first cnt sb mb (pool_clear p1) h1 = (s, r, h')"
    using cr ok a0 pr pa L np by (simp add: vv_kv_pool_create_def Let_def p_def)
  have fmt: "p_format p1 = fmt" "p_n_pages p1 = nat n_pages" "p_num_layers p = num_layers"
    "p_n_holders p1 = 0" "p_n_stalled p1 = 0" "p_stall_gen p1 = 0" "p_freed p1 = 0"
    using pa by (auto simp: pool_arrays_def Let_def p_def split: prod.splits)
  have le: "nat (first + cnt) \<le> nat num_layers" using ok by auto
  show ?thesis
    using pool_fill_owns [OF _ _ _ _ le _ _ _ _ fi, of M] pr ok L np fmt
    by (simp add: p_def split: option.splits)
qed

subsection \<open>A small pool and a small cache, for the witnesses\<close>

definition demo_pool :: kv_pool where
  "demo_pool = \<lparr>p_self = 0, p_k = None, p_v = None, p_k_meta = None, p_v_meta = None,
     p_num_layers = 1, p_first = 0, p_count = 1, p_n_kv_heads = 1, p_head_dim = 128,
     p_format = VV_KV_FP16, p_bytes_per_vec = 256, p_n_pages = 3, p_free_ptr = None,
     p_free_stack = [2, 1, 0], p_n_free = 3, p_refs = 1, p_n_holders = 0, p_n_stalled = 0,
     p_stall_gen = 0, p_freed = 0, p_bytes = 0\<rparr>"

definition demo_cache :: kv_cache where
  "demo_cache = \<lparr>c_self = 0, c_k_cache = None, c_v_cache = None, c_k_meta = None, c_v_meta = None,
     c_k_ref = None, c_ref_ready_ptr = None, c_ref_ready = [], c_num_layers = 1, c_first_layer = 0,
     c_last_layer = 0, c_n_kv_heads = 1, c_head_dim = 128, c_max_seq_len = 256, c_current_len = 0,
     c_format = VV_KV_FP16, c_bytes_per_vec = 256, c_on_cpu = False, c_bytes_total = 0,
     c_d_len = None, c_d_len_next = None, c_attn_backend = VV_ATTN_FLASHINFER, c_pool = True,
     c_page_table = None, c_pages_ptr = None, c_pages = [0, 0, 0, 0], c_n_pages = 0, c_max_pages = 4,
     c_no_wait = False, c_rope_gap = 0\<rparr>"

lemma demo_simps [simp]:
  "p_n_pages demo_pool = 3" "p_free_stack demo_pool = [2, 1, 0]" "p_n_free demo_pool = 3"
  "p_refs demo_pool = 1" "p_n_holders demo_pool = 0" "p_n_stalled demo_pool = 0" "p_stall_gen demo_pool = 0" "p_freed demo_pool = 0"
  "c_max_seq_len demo_cache = 256" "c_pool demo_cache" "c_pages demo_cache = [0, 0, 0, 0]"
  "c_n_pages demo_cache = 0" "c_max_pages demo_cache = 4" "\<not> c_no_wait demo_cache"
  by (simp_all add: demo_pool_def demo_cache_def)

end
