(* ===== verification/KvSharing.thy ===== *)
theory KvSharing
  imports KvPool
begin

text \<open>
  Slots sharing one page pool (\<^verbatim>\<open>src/inference/kv_cache.c\<close>, \<^verbatim>\<open>reserve_pages\<close> and
  \<^verbatim>\<open>vv_kv_cache_release\<close>, run by one thread per slot). A slot is a cache and where its thread is:
  outside the pool's functions (\<open>Running\<close>), asleep in \<^verbatim>\<open>vv_cond_wait\<close> (\<open>Waiting\<close>, with the
  locals of the loop and the broadcasts of \<^verbatim>\<open>freed\<close> before it), or between dropping the lock and the answer of the
  device table write (\<open>Mapping\<close>). Every lock region is one step. A waiting thread is \<open>asleep\<close> until the next broadcast;
  it may look again once it is woken, and also before, as condition variables allow. \<open>sys_returns\<close> counts the times pages came back: it is not in the
  program, and only says when the 32-bit generation counter \<^verbatim>\<open>stall_gen\<close> may have wrapped.
\<close>

datatype pc =
    Running
  | Waiting (pc_want: nat) (pc_need: nat) (pc_counted: bool) (pc_gen: u32) (pc_slept: nat)
  | Mapping (pc_want: nat) (pc_need: nat)

record slot =
  sl_cache :: kv_cache
  sl_pc :: pc

record pool_sys =
  sys_pool :: kv_pool
  sys_slots :: "slot list"
  sys_returns :: nat

text \<open>What a thread does after the loop test: give up, sleep, or take the pages.\<close>

definition after_iter ::
  "kv_pool \<Rightarrow> kv_cache \<Rightarrow> nat \<Rightarrow> nat \<Rightarrow> bool \<Rightarrow> bool \<Rightarrow> u32 \<Rightarrow> kv_pool \<times> slot" where
  "after_iter p c want need wait counted g =
     (case reserve_iter p c need wait counted g of
        (GiveUp, p', _, _) \<Rightarrow> (p', \<lparr>sl_cache = c, sl_pc = Running\<rparr>)
      | (Sleep, p', counted', g') \<Rightarrow> (p', \<lparr>sl_cache = c, sl_pc = Waiting want need counted' g' (p_freed p')\<rparr>)
      | (Take, p', counted', g') \<Rightarrow>
          (case reserve_take p' c need counted' g' of
             (p'', c') \<Rightarrow> (p'', \<lparr>sl_cache = c', sl_pc = Mapping want need\<rparr>)))"

abbreviation put_slot :: "pool_sys \<Rightarrow> kv_pool \<Rightarrow> nat \<Rightarrow> slot \<Rightarrow> nat \<Rightarrow> pool_sys" where
  "put_slot s p i sl k \<equiv>
     s\<lparr>sys_pool := p, sys_slots := (sys_slots s)[i := sl], sys_returns := sys_returns s + k\<rparr>"

inductive pool_step :: "pool_sys \<Rightarrow> pool_sys \<Rightarrow> bool" where
  st_reserve:
    "i < length (sys_slots s) \<Longrightarrow> sys_slots s ! i = sl \<Longrightarrow> sl_pc sl = Running \<Longrightarrow>
     reserve_enter (Some (sl_cache sl)) n_positions = Inr (want, need) \<Longrightarrow>
     after_iter (sys_pool s) (sl_cache sl) want need (wait \<and> \<not> c_no_wait (sl_cache sl)) False 0 = (p, sl') \<Longrightarrow>
     pool_step s (put_slot s p i sl' 0)"
| st_wake:
    "i < length (sys_slots s) \<Longrightarrow> sys_slots s ! i = sl \<Longrightarrow> sl_pc sl = Waiting want need counted g t \<Longrightarrow>
     after_iter (sys_pool s) (sl_cache sl) want need True counted g = (p, sl') \<Longrightarrow>
     pool_step s (put_slot s p i sl' 0)"
| st_map:
    "i < length (sys_slots s) \<Longrightarrow> sys_slots s ! i = sl \<Longrightarrow> sl_pc sl = Mapping want need \<Longrightarrow>
     reserve_map (sys_pool s) (sl_cache sl) want need status = (status', p, c) \<Longrightarrow>
     pool_step s (put_slot s p i \<lparr>sl_cache = c, sl_pc = Running\<rparr> (if status = VV_OK then 0 else 1))"
| st_release:
    "i < length (sys_slots s) \<Longrightarrow> sys_slots s ! i = sl \<Longrightarrow> sl_pc sl = Running \<Longrightarrow>
     0 < c_n_pages (sl_cache sl) \<Longrightarrow>
     vv_kv_cache_release (sys_pool s) (sl_cache sl) = (p, c) \<Longrightarrow>
     pool_step s (put_slot s p i \<lparr>sl_cache = c, sl_pc = Running\<rparr> 1)"

subsection \<open>The invariant\<close>

definition sl_taken :: "slot \<Rightarrow> nat" where
  "sl_taken sl = (case sl_pc sl of Mapping want need \<Rightarrow> want | _ \<Rightarrow> c_n_pages (sl_cache sl))"

definition sl_held :: "slot \<Rightarrow> nat list" where
  "sl_held sl = take (sl_taken sl) (c_pages (sl_cache sl))"

definition is_holder :: "slot \<Rightarrow> bool" where
  "is_holder sl \<longleftrightarrow> 0 < sl_taken sl"

definition is_stalled :: "u32 \<Rightarrow> slot \<Rightarrow> bool" where
  "is_stalled g sl = (case sl_pc sl of Waiting want need counted g' t \<Rightarrow> counted \<and> g' = g | _ \<Rightarrow> False)"

definition slot_ok :: "nat \<Rightarrow> nat \<Rightarrow> slot \<Rightarrow> bool" where
  "slot_ok n_pages returns sl \<longleftrightarrow>
     c_pool (sl_cache sl) \<and>
     length (c_pages (sl_cache sl)) = nat (c_max_pages (sl_cache sl)) \<and>
     c_max_pages (sl_cache sl) = (c_max_seq_len (sl_cache sl) + VV_KV_PAGE_SIZE - 1) sdiv VV_KV_PAGE_SIZE \<and>
     c_n_pages (sl_cache sl) \<le> length (c_pages (sl_cache sl)) \<and>
     (case sl_pc sl of
        Running \<Rightarrow> True
      | Waiting want need counted g t \<Rightarrow>
          0 < need \<and> need \<le> n_pages \<and> want = c_n_pages (sl_cache sl) + need \<and>
          want \<le> length (c_pages (sl_cache sl)) \<and>
          (counted \<longleftrightarrow> 0 < c_n_pages (sl_cache sl)) \<and> t \<le> returns \<and> (counted \<longrightarrow> g = of_nat t)
      | Mapping want need \<Rightarrow>
          0 < need \<and> want = c_n_pages (sl_cache sl) + need \<and> want \<le> length (c_pages (sl_cache sl)))"

text \<open>Asleep: waiting, and no broadcast since. What the sleeper needs is then not there.\<close>

definition asleep :: "kv_pool \<Rightarrow> slot \<Rightarrow> bool" where
  "asleep p sl = (case sl_pc sl of Waiting want need counted g t \<Rightarrow> t = p_freed p | _ \<Rightarrow> False)"

lemma awake_simps [simp]:
  "sl_pc sl = Running \<Longrightarrow> \<not> asleep p sl" "sl_pc sl = Mapping want need \<Longrightarrow> \<not> asleep p sl"
  by (simp_all add: asleep_def)

definition asleep_ok :: "kv_pool \<Rightarrow> slot \<Rightarrow> bool" where
  "asleep_ok p sl \<longleftrightarrow> (asleep p sl \<longrightarrow> p_n_free p < pc_need (sl_pc sl))"

lemma asleep_ok_awake [simp]:
  "sl_pc sl = Running \<Longrightarrow> asleep_ok p sl" "sl_pc sl = Mapping want need \<Longrightarrow> asleep_ok p sl"
  by (simp_all add: asleep_ok_def)

text \<open>Every page is free or held by exactly one slot.\<close>

definition pages_ok :: "kv_pool \<Rightarrow> slot list \<Rightarrow> bool" where
  "pages_ok p slots \<longleftrightarrow>
     length (p_free_stack p) = p_n_pages p \<and> p_n_free p \<le> p_n_pages p \<and>
     mset (take (p_n_free p) (p_free_stack p)) + mset (concat (map sl_held slots)) = mset [0..<p_n_pages p]"

text \<open>The two counters say what the pool's comment says, until the generation counter wraps.\<close>

definition counters_ok :: "kv_pool \<Rightarrow> slot list \<Rightarrow> nat \<Rightarrow> bool" where
  "counters_ok p slots returns \<longleftrightarrow>
     p_stall_gen p = of_nat returns \<and> p_freed p = returns \<and>
     p_n_holders p = count_if is_holder slots \<and>
     p_n_stalled p = count_if (is_stalled (p_stall_gen p)) slots \<and>
     (p_n_stalled p = 0 \<or> p_n_stalled p < p_n_holders p)"

definition pool_inv :: "pool_sys \<Rightarrow> bool" where
  "pool_inv s \<longleftrightarrow>
     sys_returns s < 2 ^ 32 \<longrightarrow>
     (\<forall>sl \<in> set (sys_slots s). slot_ok (p_n_pages (sys_pool s)) (sys_returns s) sl \<and> asleep_ok (sys_pool s) sl) \<and>
     pages_ok (sys_pool s) (sys_slots s) \<and>
     counters_ok (sys_pool s) (sys_slots s) (sys_returns s)"

text \<open>A system starts with a fresh pool and caches that hold nothing.\<close>

definition pool_init :: "pool_sys \<Rightarrow> bool" where
  "pool_init s \<longleftrightarrow>
     pool_fresh (p_n_pages (sys_pool s)) (sys_pool s) \<and> sys_returns s = 0 \<and>
     (\<forall>sl \<in> set (sys_slots s).
        sl_pc sl = Running \<and> c_pool (sl_cache sl) \<and> c_n_pages (sl_cache sl) = 0 \<and>
        length (c_pages (sl_cache sl)) = nat (c_max_pages (sl_cache sl)) \<and>
        c_max_pages (sl_cache sl) =
          (c_max_seq_len (sl_cache sl) + VV_KV_PAGE_SIZE - 1) sdiv VV_KV_PAGE_SIZE)"

lemma pool_init_inv: "pool_init s \<Longrightarrow> pool_inv s"
proof -
  assume i: "pool_init s"
  then have held: "map sl_held (sys_slots s) = map (\<lambda>_. []) (sys_slots s)"
    by (auto simp: pool_init_def sl_held_def sl_taken_def)
  have "count_if is_holder (sys_slots s) = 0"
    using i by (intro count_if_zeroI) (auto simp: pool_init_def is_holder_def sl_taken_def)
  moreover have "count_if (is_stalled g) (sys_slots s) = 0" for g
    using i by (intro count_if_zeroI) (auto simp: pool_init_def is_stalled_def)
  moreover have "pages_ok (sys_pool s) (sys_slots s)"
    using i held by (auto simp: pool_init_def pool_fresh_def pages_ok_def)
  ultimately show ?thesis
    using i by (auto simp: pool_inv_def pool_init_def pool_fresh_def counters_ok_def slot_ok_def asleep_ok_def asleep_def)
qed

subsection \<open>Replacing one slot\<close>

lemma pages_ok_put:
  assumes "pages_ok p slots" and "i < length slots" and "length (p_free_stack p') = p_n_pages p"
    and "p_n_pages p' = p_n_pages p" and "p_n_free p' \<le> p_n_pages p"
    and "mset (take (p_n_free p') (p_free_stack p')) + mset (sl_held sl) =
         mset (take (p_n_free p) (p_free_stack p)) + mset (sl_held (slots ! i))"
  shows "pages_ok p' (slots[i := sl])"
proof -
  have "mset (concat (map sl_held (slots[i := sl]))) + mset (sl_held (slots ! i)) =
        mset (concat (map sl_held slots)) + mset (sl_held sl)"
    using mset_update_concat [of i "map sl_held slots" "sl_held sl"] assms(2) by (simp add: map_update)
  from mset_swap [OF assms(6) this] assms(1) have
    "mset (take (p_n_free p') (p_free_stack p')) + mset (concat (map sl_held (slots[i := sl]))) =
     mset [0..<p_n_pages p]"
    by (simp add: pages_ok_def)
  with assms(3-5) show ?thesis by (simp add: pages_ok_def)
qed

lemma slot_ok_mono: "slot_ok n r sl \<Longrightarrow> r \<le> r' \<Longrightarrow> slot_ok n r' sl"
  by (auto simp: slot_ok_def split: pc.splits)

definition sys_ok :: "kv_pool \<Rightarrow> slot list \<Rightarrow> nat \<Rightarrow> nat \<Rightarrow> slot \<Rightarrow> bool" where
  "sys_ok p slots r i sl \<longleftrightarrow>
     pages_ok p (slots[i := sl]) \<and> counters_ok p (slots[i := sl]) r \<and> slot_ok (p_n_pages p) r sl \<and> asleep_ok p sl"

lemma pool_inv_put:
  assumes inv: "pool_inv s" and i: "i < length (sys_slots s)"
    and ok: "sys_returns s + k < 2 ^ 32 \<Longrightarrow>
       p_n_pages p = p_n_pages (sys_pool s) \<and> sys_ok p (sys_slots s) (sys_returns s + k) i sl"
    and no_gain: "sys_returns s + k < 2 ^ 32 \<Longrightarrow> k = 0 \<Longrightarrow> p_n_free p \<le> p_n_free (sys_pool s)"
  shows "pool_inv (put_slot s p i sl k)"
proof -
  have "slot_ok (p_n_pages p) (sys_returns s + k) x \<and> asleep_ok p x"
    if r: "sys_returns s + k < 2 ^ 32" and "x \<in> set ((sys_slots s)[i := sl])" for x
  proof (cases "x = sl")
    case True
    with ok that show ?thesis by (auto simp: sys_ok_def)
  next
    case False
    with that(2) have x: "x \<in> set (sys_slots s)"
      using set_update_subset_insert [of "sys_slots s" i sl] by auto
    then have so: "slot_ok (p_n_pages (sys_pool s)) (sys_returns s) x" "asleep_ok (sys_pool s) x" "p_freed (sys_pool s) = sys_returns s"
      using inv r by (auto simp: pool_inv_def counters_ok_def)
    have fr: "p_freed p = sys_returns s + k" using ok [OF r] by (simp add: sys_ok_def counters_ok_def)
    have "asleep_ok p x"
      using so fr no_gain [OF r] by (cases k) (auto simp: asleep_ok_def asleep_def slot_ok_def split: pc.splits)
    then show ?thesis using so(1) ok [OF r] by (auto intro: slot_ok_mono)
  qed
  with ok show ?thesis by (auto simp: pool_inv_def sys_ok_def)
qed

text \<open>After pages came back nobody is counted in the new generation.\<close>

lemma no_stalled_after_return:
  assumes "\<forall>sl \<in> set slots. slot_ok n r sl" and "Suc r < 2 ^ 32"
  shows "count_if (is_stalled (of_nat (Suc r))) slots = 0"
proof (rule count_if_zeroI)
  fix sl assume "sl \<in> set slots"
  with assms(1) have "slot_ok n r sl" by blast
  moreover have "unat (of_nat t :: u32) = t" if "t \<le> Suc r" for t
    using assms(2) that by (simp add: unat_of_nat del: of_nat_Suc)
  then have "(of_nat t :: u32) \<noteq> of_nat (Suc r)" if "t \<le> r" for t
    using that by (metis le_SucI not_less_eq_eq order_refl)
  ultimately show "\<not> is_stalled (of_nat (Suc r)) sl"
    by (auto simp: slot_ok_def is_stalled_def simp del: of_nat_Suc split: pc.splits)
qed


subsection \<open>One thread's turn in the reserve loop\<close>

text \<open>
  A slot whose thread is about to test the loop: it just called \<^verbatim>\<open>reserve_pages\<close>, or it woke up.
\<close>

definition at_loop :: "slot \<Rightarrow> nat \<Rightarrow> nat \<Rightarrow> bool \<Rightarrow> u32 \<Rightarrow> bool" where
  "at_loop sl want need counted g \<longleftrightarrow>
     (sl_pc sl = Running \<and> \<not> counted \<or> (\<exists>t. sl_pc sl = Waiting want need counted g t)) \<and>
     0 < need \<and> want = c_n_pages (sl_cache sl) + need \<and> want \<le> length (c_pages (sl_cache sl))"

lemma at_loop_facts:
  assumes "at_loop sl want need counted g"
  shows "is_holder sl \<longleftrightarrow> 0 < c_n_pages (sl_cache sl)"
    and "is_stalled g' sl \<longleftrightarrow> counted \<and> g = g'"
    and "sl_held sl = take (c_n_pages (sl_cache sl)) (c_pages (sl_cache sl))"
  using assms by (auto simp: at_loop_def is_holder_def is_stalled_def sl_held_def sl_taken_def)

lemma counters_stalled_pos:
  assumes "counters_ok p slots r" and "i < length slots" and "is_stalled (p_stall_gen p) (slots ! i)"
  shows "0 < p_n_stalled p"
proof -
  from assms(2) have "slots ! i \<in> set slots" by (rule nth_mem)
  from count_if_pos [OF this, of "is_stalled (p_stall_gen p)"] assms(1,3) show ?thesis
    by (simp add: counters_ok_def)
qed

lemma counters_ok_put:
  assumes "counters_ok p slots r" and "i < length slots" and "p_stall_gen p' = p_stall_gen p" and "p_freed p' = p_freed p"
    and "p_n_holders p' = p_n_holders p - (if is_holder (slots ! i) then 1 else 0) + (if is_holder sl then 1 else 0)"
    and "p_n_stalled p' = p_n_stalled p - (if is_stalled (p_stall_gen p) (slots ! i) then 1 else 0)
           + (if is_stalled (p_stall_gen p) sl then 1 else 0)"
    and "p_n_stalled p' = 0 \<or> p_n_stalled p' < p_n_holders p'"
  shows "counters_ok p' (slots[i := sl]) r"
  unfolding counters_ok_def
proof (intro conjI)
  show "p_stall_gen p' = of_nat r" "p_freed p' = r" using assms(1,3,4) by (simp_all add: counters_ok_def)
  show "p_n_holders p' = count_if is_holder (slots[i := sl])"
    using assms(1,2,5) by (simp add: counters_ok_def count_if_update)
  show "p_n_stalled p' = count_if (is_stalled (p_stall_gen p')) (slots[i := sl])"
    using assms(1,2,3,6) by (simp add: counters_ok_def count_if_update)
qed (rule assms(7))

text \<open>The three outcomes of a loop test.\<close>

lemma reserve_iter_Take:
  "reserve_iter p c need wait counted g = (Take, p', counted', g') \<Longrightarrow>
   need \<le> p_n_free p \<and> p' = p \<and> counted' = counted \<and> g' = g"
  by (auto simp: reserve_iter_def Let_def split: if_splits)

lemma reserve_iter_GiveUp:
  "reserve_iter p c need wait counted g = (GiveUp, p', counted', g') \<Longrightarrow>
   p_n_free p < need \<and>
   p' = p\<lparr>p_n_stalled := p_n_stalled p - (if counted \<and> g = p_stall_gen p then 1 else 0)\<rparr> \<and>
   (\<not> wait \<or> p_n_pages p < need \<or>
    0 < c_n_pages c \<and> p_n_holders p - 1 \<le> p_n_stalled p - (if counted \<and> g = p_stall_gen p then 1 else 0) \<or>
    c_n_pages c = 0 \<and> p_n_holders p = 0)"
  by (auto simp: reserve_iter_def Let_def split: if_splits)

lemma reserve_iter_Sleep:
  "reserve_iter p c need wait counted g = (Sleep, p', counted', g') \<Longrightarrow>
   p_n_free p < need \<and> need \<le> p_n_pages p \<and> wait \<and>
   (if 0 < c_n_pages c \<and> \<not> (counted \<and> g = p_stall_gen p)
    then p' = p\<lparr>p_n_stalled := p_n_stalled p + 1\<rparr> \<and> counted' \<and> g' = p_stall_gen p \<and>
         p_n_stalled p + 1 < p_n_holders p
    else p' = p \<and> (counted' \<longleftrightarrow> counted \<and> g = p_stall_gen p) \<and> g' = g)"
  by (auto simp: reserve_iter_def Let_def split: if_splits)

lemma loop_sleep:
  assumes inv: "counters_ok p slots r" "slot_ok (p_n_pages p) r (slots ! i)" "pages_ok p slots"
    and r: "r < 2 ^ 32" and i: "i < length slots"
    and at: "at_loop (slots ! i) want need counted g"
    and it: "reserve_iter p (sl_cache (slots ! i)) need wait counted g = (Sleep, p', counted', g')"
  shows "p_n_pages p' = p_n_pages p \<and>
    sys_ok p' slots r i \<lparr>sl_cache = sl_cache (slots ! i), sl_pc = Waiting want need counted' g' (p_freed p')\<rparr>"
proof -
  let ?c = "sl_cache (slots ! i)"
  let ?sl = "\<lparr>sl_cache = ?c, sl_pc = Waiting want need counted' g' (p_freed p')\<rparr>"
  let ?st = "counted \<and> g = p_stall_gen p"
  note af = at_loop_facts [OF at] and si = reserve_iter_Sleep [OF it]
  have u: "p_stall_gen p = of_nat r" "p_freed p = r" using inv(1) by (simp_all add: counters_ok_def)
  let ?at = "\<lambda>t. \<lparr>sl_cache = ?c, sl_pc = Waiting want need counted' g' t\<rparr>"
  have new: "is_holder (?at t) = is_holder (slots ! i)" "sl_held (?at t) = sl_held (slots ! i)"
    "is_stalled (p_stall_gen p) (?at t) \<longleftrightarrow> counted' \<and> g' = p_stall_gen p" for t
    using af by (simp_all add: is_holder_def sl_taken_def sl_held_def is_stalled_def)
  have counted: "counted \<Longrightarrow> 0 < c_n_pages ?c"
    using at inv(2) by (auto simp: at_loop_def slot_ok_def)
  have p': "p_n_pages p' = p_n_pages p" "p_free_stack p' = p_free_stack p" "p_n_free p' = p_n_free p"
    "p_stall_gen p' = p_stall_gen p" "p_n_holders p' = p_n_holders p" "p_freed p' = p_freed p"
    using si by (auto split: if_splits)
  have pages: "pages_ok p' (slots[i := ?sl])"
    using inv(3) p' by (intro pages_ok_put [OF inv(3) i]) (simp_all add: pages_ok_def new)
  moreover have "counters_ok p' (slots[i := ?sl]) r"
    using inv(1) si new af by (intro counters_ok_put [OF inv(1) i])
      (auto simp: p' counters_ok_def split: if_splits)
  moreover have "slot_ok (p_n_pages p) r ?sl"
    using inv(2) at si u counted by (auto simp: slot_ok_def at_loop_def p' split: if_splits)
  moreover have "asleep_ok p' ?sl" using si p' by (simp add: asleep_ok_def)
  ultimately show ?thesis using p' by (simp add: sys_ok_def)
qed

lemma loop_give_up:
  assumes inv: "counters_ok p slots r" "slot_ok (p_n_pages p) r (slots ! i)" "pages_ok p slots"
    and i: "i < length slots" and at: "at_loop (slots ! i) want need counted g"
    and it: "reserve_iter p (sl_cache (slots ! i)) need wait counted g = (GiveUp, p', counted', g')"
  shows "p_n_pages p' = p_n_pages p \<and>
    sys_ok p' slots r i \<lparr>sl_cache = sl_cache (slots ! i), sl_pc = Running\<rparr>"
proof -
  let ?sl = "\<lparr>sl_cache = sl_cache (slots ! i), sl_pc = Running\<rparr>"
  note af = at_loop_facts [OF at] and gi = reserve_iter_GiveUp [OF it, THEN conjunct2, THEN conjunct1]
  have new: "is_holder ?sl = is_holder (slots ! i)" "sl_held ?sl = sl_held (slots ! i)"
    "\<not> is_stalled (p_stall_gen p) ?sl"
    using af by (simp_all add: is_holder_def sl_taken_def sl_held_def is_stalled_def)
  have "pages_ok p' (slots[i := ?sl])"
    using inv(3) gi by (intro pages_ok_put [OF inv(3) i]) (simp_all add: pages_ok_def new)
  moreover have "counters_ok p' (slots[i := ?sl]) r"
    using gi new af inv(1) counters_stalled_pos [OF inv(1) i]
    by (intro counters_ok_put [OF inv(1) i]) (auto simp: counters_ok_def)
  moreover have "slot_ok (p_n_pages p) r ?sl"
    using inv(2) by (auto simp: slot_ok_def)
  ultimately show ?thesis using gi by (simp add: sys_ok_def)
qed


lemma loop_take:
  assumes inv: "counters_ok p slots r" "slot_ok (p_n_pages p) r (slots ! i)" "pages_ok p slots"
    and i: "i < length slots" and at: "at_loop (slots ! i) want need counted g"
    and need: "need \<le> p_n_free p"
    and tk: "reserve_take p (sl_cache (slots ! i)) need counted g = (p', c')"
  shows "p_n_pages p' = p_n_pages p \<and> sys_ok p' slots r i \<lparr>sl_cache = c', sl_pc = Mapping want need\<rparr>"
proof -
  let ?c = "sl_cache (slots ! i)" and ?sl = "\<lparr>sl_cache = c', sl_pc = Mapping want need\<rparr>"
  let ?n = "c_n_pages ?c" and ?fs = "p_free_stack p" and ?nf = "p_n_free p"
  let ?new = "rev (take need (drop (?nf - need) ?fs))"
  note af = at_loop_facts [OF at]
  have len: "?nf \<le> length ?fs" "?n + need \<le> length (c_pages ?c)"
    using inv(3) at by (auto simp: pages_ok_def at_loop_def)
  note ts = take_pages_spec [OF need len]
  have c': "c' = ?c\<lparr>c_pages := take ?n (c_pages ?c) @ ?new @ drop (?n + need) (c_pages ?c)\<rparr>"
    and p': "p' = p\<lparr>p_n_stalled := p_n_stalled p - (if counted \<and> g = p_stall_gen p then 1 else 0),
       p_n_holders := p_n_holders p + (if ?n = 0 then 1 else 0), p_n_free := ?nf - need\<rparr>"
    using tk ts by (auto simp: reserve_take_def Let_def)
  have held: "sl_held ?sl = take ?n (c_pages ?c) @ ?new"
    using at len need by (simp add: sl_held_def sl_taken_def c' at_loop_def)
  have split: "take ?nf ?fs = take (?nf - need) ?fs @ take need (drop (?nf - need) ?fs)"
    using need by (metis le_add_diff_inverse2 take_add)
  have new: "is_holder ?sl" "\<not> is_stalled (p_stall_gen p) ?sl"
    using at by (simp_all add: is_holder_def sl_taken_def is_stalled_def at_loop_def)
  have "?nf - need \<le> p_n_pages p"
    using inv(3) by (auto simp: pages_ok_def)
  then have "pages_ok p' (slots[i := ?sl])"
    using inv(3) af held by (intro pages_ok_put [OF inv(3) i])
      (simp_all add: pages_ok_def p' split ac_simps)
  moreover have "counters_ok p' (slots[i := ?sl]) r"
    using new af inv(1) counters_stalled_pos [OF inv(1) i]
    by (intro counters_ok_put [OF inv(1) i]) (auto simp: counters_ok_def p')
  moreover have "length (c_pages c') = length (c_pages ?c)"
    using len need by (simp add: c')
  then have "slot_ok (p_n_pages p) r ?sl"
    using inv(2) at by (auto simp: slot_ok_def at_loop_def) (simp_all add: c')
  ultimately show ?thesis by (simp add: sys_ok_def p')
qed

lemma after_iter_ok:
  assumes inv: "counters_ok p slots r" "slot_ok (p_n_pages p) r (slots ! i)" "pages_ok p slots"
    and r: "r < 2 ^ 32" and i: "i < length slots"
    and at: "at_loop (slots ! i) want need counted g"
    and it: "after_iter p (sl_cache (slots ! i)) want need wait counted g = (p', sl')"
  shows "p_n_pages p' = p_n_pages p \<and> sys_ok p' slots r i sl'"
proof -
  obtain o' q cn g' where ri: "reserve_iter p (sl_cache (slots ! i)) need wait counted g = (o', q, cn, g')"
    by (cases "reserve_iter p (sl_cache (slots ! i)) need wait counted g")
  show ?thesis
  proof (cases o')
    case Take
    with ri reserve_iter_Take [OF ri [unfolded Take]] it loop_take [OF inv i at] show ?thesis
      by (auto simp: after_iter_def split: prod.splits)
  next
    case GiveUp
    with ri it loop_give_up [OF inv i at ri [unfolded GiveUp]] show ?thesis
      by (auto simp: after_iter_def)
  next
    case Sleep
    with ri it loop_sleep [OF inv r i at ri [unfolded Sleep]] show ?thesis
      by (auto simp: after_iter_def)
  qed
qed

lemma take_pages_le: "fst (take_pages k pos fs nf pg) \<le> nf"
  by (induction k pos fs nf pg rule: take_pages.induct) (auto intro: order_trans)

lemma after_iter_free:
  "after_iter p c want need wait counted g = (p', sl') \<Longrightarrow> p_n_free p' \<le> p_n_free p"
  using take_pages_le [of need "c_n_pages c" "p_free_stack p" "p_n_free p" "c_pages c"]
  by (auto simp: after_iter_def reserve_iter_def reserve_take_def Let_def split: if_splits prod.splits)

subsection \<open>Pages coming back\<close>

lemma pages_ok_total:
  assumes "pages_ok p slots"
  shows "p_n_free p + length (concat (map sl_held slots)) = p_n_pages p"
proof -
  have "size (mset (take (p_n_free p) (p_free_stack p)) + mset (concat (map sl_held slots))) = p_n_pages p"
    using assms by (simp add: pages_ok_def)
  then show ?thesis using assms by (simp add: pages_ok_def)
qed

lemma pages_ok_room:
  assumes "pages_ok p slots" and "i < length slots"
  shows "length (sl_held (slots ! i)) + p_n_free p \<le> p_n_pages p"
proof -
  have "length (sl_held (slots ! i)) \<le> length (concat (map sl_held slots))"
    using assms(2) by (auto simp: length_concat intro!: member_le_sum_list)
  with pages_ok_total [OF assms(1)] show ?thesis by simp
qed

text \<open>
  Giving back \<open>n\<close> pages from position \<open>off\<close> on: the failed mapping and the release.
\<close>

lemma return_ok:
  assumes inv: "\<forall>sl \<in> set slots. slot_ok (p_n_pages p) r sl" "pages_ok p slots" "counters_ok p slots r"
    and r: "Suc r < 2 ^ 32" and i: "i < length slots"
    and off: "off + n = sl_taken (slots ! i)" "sl_taken (slots ! i) \<le> length (c_pages (sl_cache (slots ! i)))"
    and put: "put_pages n off (c_pages (sl_cache (slots ! i))) (p_free_stack p) (p_n_free p) = (fs, nf)"
    and new: "c_pages (sl_cache sl) = c_pages (sl_cache (slots ! i))" "sl_taken sl = off" "sl_pc sl = Running"
      "slot_ok (p_n_pages p) (Suc r) sl"
    and pos: "0 < sl_taken (slots ! i)"
    and p': "p' = vv_cond_broadcast (p\<lparr>p_free_stack := fs, p_n_free := nf,
       p_n_holders := p_n_holders p - (if off = 0 then 1 else 0), p_n_stalled := 0,
       p_stall_gen := p_stall_gen p + 1\<rparr>)"
  shows "p_n_pages p' = p_n_pages p \<and> sys_ok p' slots (Suc r) i sl"
proof -
  note p' = p' [unfolded vv_cond_broadcast_def]
  let ?pg = "c_pages (sl_cache (slots ! i))"
  let ?held = "sl_held (slots ! i)"
  have held: "?held = take off ?pg @ take n (drop off ?pg)"
    using off by (metis sl_held_def take_add)
  have "length ?held + p_n_free p \<le> p_n_pages p"
    using inv(2) i by (rule pages_ok_room)
  then have room: "p_n_free p + n \<le> length (p_free_stack p)"
    using inv(2) off by (simp add: pages_ok_def sl_held_def)
  have fs: "fs = take (p_n_free p) (p_free_stack p) @ rev (take n (drop off ?pg)) @ drop (p_n_free p + n) (p_free_stack p)"
    and nf: "nf = p_n_free p + n"
    using put_pages_spec [OF room, of off ?pg] off put by auto
  have lf: "length fs = p_n_pages p"
    using put length_put_pages [of n off ?pg "p_free_stack p" "p_n_free p"] inv(2) by (simp add: pages_ok_def)
  have hs: "sl_held sl = take off ?pg" using new by (simp add: sl_held_def)
  have "pages_ok p' (slots[i := sl])"
  proof (rule pages_ok_put [OF inv(2) i])
    show "mset (take (p_n_free p') (p_free_stack p')) + mset (sl_held sl) =
        mset (take (p_n_free p) (p_free_stack p)) + mset ?held"
      using room inv(2) off by (simp add: p' fs nf hs held pages_ok_def ac_simps)
  qed (use room inv(2) lf nf p' in \<open>simp_all add: pages_ok_def\<close>)
  moreover have "counters_ok p' (slots[i := sl]) (Suc r)"
  proof -
    have z: "count_if (is_stalled (p_stall_gen p + 1)) slots = 0"
      using no_stalled_after_return [OF inv(1) r] inv(3) by (simp add: counters_ok_def add.commute)
    have "count_if (is_stalled (p_stall_gen p + 1)) (slots[i := sl]) = 0"
      using z count_if_zeroD [OF z nth_mem [OF i]] i new(3) by (simp add: count_if_update is_stalled_def)
    moreover have "count_if is_holder (slots[i := sl]) = p_n_holders p - (if off = 0 then 1 else 0)"
      using inv(3) i pos new(2) by (simp add: counters_ok_def count_if_update is_holder_def)
    ultimately show ?thesis using inv(3) by (simp add: counters_ok_def p')
  qed
  ultimately show ?thesis using new p' by (simp add: sys_ok_def)
qed


subsection \<open>Every step keeps the invariant\<close>

lemma reserve_enter_at_loop:
  assumes "reserve_enter (Some c) n_positions = Inr (want, need)"
    and "slot_ok np r sl" and "sl_cache sl = c" and "sl_pc sl = Running"
  shows "at_loop sl want need False 0"
proof -
  let ?w = "(63 + n_positions) sdiv 64"
  have w: "want = nat ?w" "need = want - c_n_pages c" "int (c_n_pages c) < ?w" "n_positions \<le> c_max_seq_len c"
    using assms(1) by (auto simp: reserve_enter_def Let_def split: if_splits)
  have "0 < 63 + n_positions"
    using w(3) by (auto simp: signed_divide_int_def sgn_if split: if_splits)
  then have "?w \<le> (63 + c_max_seq_len c) sdiv 64"
    using w(4) by (simp add: sdiv_nonneg zdiv_mono1)
  then have "want \<le> length (c_pages c)"
    using assms(2,3) w(1) by (auto simp: slot_ok_def)
  with w assms(3,4) show ?thesis by (auto simp: at_loop_def)
qed

lemma map_done_ok:
  assumes inv: "\<forall>sl \<in> set slots. slot_ok (p_n_pages p) r sl" "pages_ok p slots" "counters_ok p slots r"
    and i: "i < length slots" and pc: "sl_pc (slots ! i) = Mapping want need"
  shows "sys_ok p slots r i \<lparr>sl_cache = (sl_cache (slots ! i))\<lparr>c_n_pages := want\<rparr>, sl_pc = Running\<rparr>"
proof -
  let ?sl = "\<lparr>sl_cache = (sl_cache (slots ! i))\<lparr>c_n_pages := want\<rparr>, sl_pc = Running\<rparr>"
  have ok: "slot_ok (p_n_pages p) r (slots ! i)" using inv(1) i by simp
  have same: "is_holder ?sl = is_holder (slots ! i)" "sl_held ?sl = sl_held (slots ! i)"
    "\<not> is_stalled (p_stall_gen p) ?sl" "\<not> is_stalled (p_stall_gen p) (slots ! i)"
    using pc by (simp_all add: is_holder_def sl_held_def sl_taken_def is_stalled_def)
  have "pages_ok p (slots[i := ?sl])"
    using inv(2) same by (intro pages_ok_put [OF inv(2) i]) (simp_all add: pages_ok_def)
  moreover have "counters_ok p (slots[i := ?sl]) r"
    using inv(3) same by (intro counters_ok_put [OF inv(3) i]) (auto simp: counters_ok_def)
  ultimately show ?thesis using ok pc by (auto simp: sys_ok_def slot_ok_def)
qed

lemma pool_step_inv:
  assumes "pool_inv s" and "pool_step s t"
  shows "pool_inv t"
  using assms(2,1)
proof (induction rule: pool_step.induct)
  case (st_reserve i s sl n_positions want need wait p sl')
  have "at_loop sl want need False 0" if "sys_returns s < 2 ^ 32"
    using st_reserve that nth_mem [OF st_reserve(1)]
    by (intro reserve_enter_at_loop [OF st_reserve(4) _ refl st_reserve(3)]) (auto simp: pool_inv_def)
  with st_reserve after_iter_free [OF st_reserve(5)] show ?case
    by (intro pool_inv_put after_iter_ok) (auto simp: pool_inv_def)
next
  case (st_wake i s sl want need counted g p sl')
  have "at_loop sl want need counted g" if "sys_returns s < 2 ^ 32"
  proof -
    have "slot_ok (p_n_pages (sys_pool s)) (sys_returns s) sl"
      using st_wake that nth_mem [OF st_wake(1)] by (auto simp: pool_inv_def)
    with st_wake(3) show ?thesis by (auto simp: at_loop_def slot_ok_def)
  qed
  with st_wake after_iter_free [OF st_wake(4)] show ?case
    by (intro pool_inv_put after_iter_ok) (auto simp: pool_inv_def)
next
  case (st_map i s sl want need status status' p c)
  let ?sl = "\<lparr>sl_cache = c, sl_pc = Running\<rparr>"
  show ?case
  proof (rule pool_inv_put [OF st_map(5,1)])
    assume r: "sys_returns s + (if status = VV_OK then 0 else 1) < 2 ^ 32"
    then have ok: "slot_ok (p_n_pages (sys_pool s)) (sys_returns s) sl"
      and inv: "\<forall>sl \<in> set (sys_slots s). slot_ok (p_n_pages (sys_pool s)) (sys_returns s) sl"
        "pages_ok (sys_pool s) (sys_slots s)" "counters_ok (sys_pool s) (sys_slots s) (sys_returns s)"
      using st_map nth_mem [OF st_map(1)] by (auto simp: pool_inv_def split: if_splits)
    show "p_n_pages p = p_n_pages (sys_pool s) \<and>
      sys_ok p (sys_slots s) (sys_returns s + (if status = VV_OK then 0 else 1)) i ?sl"
    proof (cases "status = VV_OK")
      case True
      with st_map show ?thesis using map_done_ok [OF inv st_map(1)] by (simp add: reserve_map_def)
    next
      case False
      obtain fs nf where put: "put_pages need (c_n_pages (sl_cache sl)) (c_pages (sl_cache sl))
          (p_free_stack (sys_pool s)) (p_n_free (sys_pool s)) = (fs, nf)" by fastforce
      have pc: "p = vv_cond_broadcast (sys_pool s\<lparr>p_free_stack := fs, p_n_free := nf,
          p_n_holders := p_n_holders (sys_pool s) - (if c_n_pages (sl_cache sl) = 0 then 1 else 0),
          p_n_stalled := 0, p_stall_gen := p_stall_gen (sys_pool s) + 1\<rparr>)" "c = sl_cache sl"
        using False st_map(4) put by (auto simp: reserve_map_def)
      have "p_n_pages p = p_n_pages (sys_pool s) \<and> sys_ok p (sys_slots s) (Suc (sys_returns s)) i ?sl"
        by (rule return_ok [OF inv _ st_map(1) _ _ put [folded st_map(2)] _ _ _ _ _ pc(1) [folded st_map(2)]])
          (use False r ok st_map pc(2) in \<open>auto simp: slot_ok_def sl_taken_def\<close>)
      with False show ?thesis by simp
    qed
  next
    assume "(if status = VV_OK then 0 else 1) = (0 :: nat)"
    then show "p_n_free p \<le> p_n_free (sys_pool s)" using st_map(4) by (auto simp: reserve_map_def split: if_splits)
  qed
next
  case (st_release i s sl p c)
  show ?case
  proof (rule pool_inv_put [OF st_release(6,1)])
    assume r: "sys_returns s + 1 < 2 ^ 32"
    then have ok: "slot_ok (p_n_pages (sys_pool s)) (sys_returns s) sl"
      and inv: "\<forall>sl \<in> set (sys_slots s). slot_ok (p_n_pages (sys_pool s)) (sys_returns s) sl"
        "pages_ok (sys_pool s) (sys_slots s)" "counters_ok (sys_pool s) (sys_slots s) (sys_returns s)"
      using st_release nth_mem [OF st_release(1)] by (auto simp: pool_inv_def)
    obtain fs nf where put: "put_pages (c_n_pages (sl_cache sl)) 0 (c_pages (sl_cache sl))
        (p_free_stack (sys_pool s)) (p_n_free (sys_pool s)) = (fs, nf)" by fastforce
    have pc: "p = vv_cond_broadcast (sys_pool s\<lparr>p_free_stack := fs, p_n_free := nf,
        p_n_holders := p_n_holders (sys_pool s) - (if (0::nat) = 0 then 1 else 0),
        p_n_stalled := 0, p_stall_gen := p_stall_gen (sys_pool s) + 1\<rparr>)"
      "c = (sl_cache sl)\<lparr>c_n_pages := 0\<rparr>"
      using st_release(4,5) ok put by (auto simp: vv_kv_cache_release_def slot_ok_def)
    have "p_n_pages p = p_n_pages (sys_pool s) \<and>
      sys_ok p (sys_slots s) (Suc (sys_returns s)) i \<lparr>sl_cache = c, sl_pc = Running\<rparr>"
      by (rule return_ok [OF inv _ st_release(1) _ _ put [folded st_release(2)] _ _ _ _ _ pc(1)])
        (use r ok st_release pc(2) in \<open>auto simp: slot_ok_def sl_taken_def\<close>)
    then show "p_n_pages p = p_n_pages (sys_pool s) \<and>
      sys_ok p (sys_slots s) (sys_returns s + 1) i \<lparr>sl_cache = c, sl_pc = Running\<rparr>" by simp
  qed simp
qed


interpretation sharing: transition_system pool_init pool_step pool_inv
  by unfold_locales (auto intro: pool_init_inv pool_step_inv)

lemmas pool_reach_inv = sharing.reaches_inv [unfolded pool_inv_def, rule_format]

inductive_cases pool_step_cases: "pool_step s t"

lemma reach_parts:
  assumes "reaches pool_init pool_step s" and "sys_returns s < 2 ^ 32"
  shows "\<And>sl. sl \<in> set (sys_slots s) \<Longrightarrow> slot_ok (p_n_pages (sys_pool s)) (sys_returns s) sl"
    and "pages_ok (sys_pool s) (sys_slots s)"
    and "counters_ok (sys_pool s) (sys_slots s) (sys_returns s)"
  using sharing.reaches_inv [OF assms(1)] assms(2) by (auto simp: pool_inv_def)

lemma stalled_is_holder: "slot_ok n r sl \<Longrightarrow> is_stalled g sl \<Longrightarrow> is_holder sl"
  by (auto simp: slot_ok_def is_stalled_def is_holder_def sl_taken_def split: pc.splits)

lemma held_length: "slot_ok n r sl \<Longrightarrow> length (sl_held sl) = sl_taken sl"
  by (auto simp: slot_ok_def sl_held_def sl_taken_def split: pc.splits)

text \<open>With no holder every page is free.\<close>

lemma no_holder_all_free:
  assumes "pages_ok p slots" and "counters_ok p slots r" and "p_n_holders p = 0"
  shows "p_n_free p = p_n_pages p"
proof -
  have "\<forall>sl \<in> set slots. sl_held sl = []"
    using assms(2,3) count_if_zeroD [of is_holder slots]
    by (auto simp: counters_ok_def is_holder_def sl_held_def)
  then have e: "concat (map sl_held slots) = []" by auto
  with pages_ok_total [OF assms(1)] show ?thesis by (simp only: e list.size add_0_right)
qed

text \<open>A holder is asleep exactly when it is counted in the current generation.\<close>

lemma sleeping_holder_stalled:
  "slot_ok n r sl \<Longrightarrow> counters_ok p slots r \<Longrightarrow> asleep p sl \<Longrightarrow> is_holder sl \<Longrightarrow> is_stalled (p_stall_gen p) sl"
  by (auto simp: slot_ok_def counters_ok_def asleep_def is_holder_def sl_taken_def is_stalled_def split: pc.splits)

lemma stalled_sleeps:
  assumes "slot_ok n r sl" and "counters_ok p slots r" and "r < 2 ^ 32" and "is_stalled (p_stall_gen p) sl"
  shows "\<exists>w nd. sl_pc sl = Waiting w nd True (p_stall_gen p) (p_freed p)"
proof -
  obtain w nd t where w: "sl_pc sl = Waiting w nd True (p_stall_gen p) t" "t \<le> r" "p_stall_gen p = of_nat t"
    using assms(1,4) by (auto simp: is_stalled_def slot_ok_def split: pc.splits)
  have g: "p_stall_gen p = of_nat r" "p_freed p = r" using assms(2) by (simp_all add: counters_ok_def)
  have "unat (of_nat t :: u32) = t" "unat (of_nat r :: u32) = r"
    using w(2) assms(3) by (simp_all add: unat_of_nat)
  then have "t = r" using w(3) g(1) by metis
  then show ?thesis using w(1) g(2) by blast
qed

text \<open>When the holder count less one is reached by the stalled count, all other holders sleep.\<close>

lemma all_others_stalled:
  assumes ok: "\<forall>sl \<in> set slots. slot_ok n r sl" and c: "counters_ok p slots r"
    and i: "i < length slots" and h: "is_holder (slots ! i)"
    and le: "p_n_holders p - 1 \<le> p_n_stalled p - (if is_stalled (p_stall_gen p) (slots ! i) then 1 else 0)"
    and j: "j < length slots" "j \<noteq> i" "is_holder (slots ! j)"
  shows "is_stalled (p_stall_gen p) (slots ! j)"
proof -
  define z where "z = \<lparr>sl_cache = (sl_cache (slots ! i))\<lparr>c_n_pages := 0\<rparr>, sl_pc = Running\<rparr>"
  let ?xs = "slots[i := z]"
  have z: "\<not> is_holder z" "\<not> is_stalled g z" for g
    by (simp_all add: z_def is_holder_def is_stalled_def sl_taken_def)
  have cnt: "count_if is_holder ?xs \<le> count_if (is_stalled (p_stall_gen p)) ?xs"
    using c i h le z by (simp add: counters_ok_def count_if_update)
  have sub: "is_holder x" if "x \<in> set ?xs" and "is_stalled (p_stall_gen p) x" for x
  proof -
    from that z have "x \<in> set slots" using set_update_subset_insert [of slots i z] by auto
    with ok that(2) show ?thesis by (auto intro: stalled_is_holder)
  qed
  have "?xs ! j \<in> set ?xs" using j(1) by (intro nth_mem) simp
  with j have jx: "slots ! j \<in> set ?xs" by simp
  show ?thesis by (rule count_if_eq_all [OF sub cnt jx j(3)])
qed

subsection \<open>Properties\<close>

text \<open>
  C1. In every reachable state of slots sharing a pool (any interleaving of reserving, waiting,
  waking, mapping and releasing, with fewer than 2^32 returns of pages so far), no page is lost
  and none is in two places: the free part of the stack and the pages of all slots together list
  every page id below \<open>n_pages\<close> exactly once.
\<close>

theorem pool_pages_conserved:
  assumes "reaches pool_init pool_step s" and "sys_returns s < 2 ^ 32"
  shows "distinct (take (p_n_free (sys_pool s)) (p_free_stack (sys_pool s)) @
                   concat (map sl_held (sys_slots s))) \<and>
    set (take (p_n_free (sys_pool s)) (p_free_stack (sys_pool s))) \<union>
      (\<Union>sl \<in> set (sys_slots s). set (sl_held sl)) = {0..<p_n_pages (sys_pool s)}"
proof -
  have "mset (take (p_n_free (sys_pool s)) (p_free_stack (sys_pool s)) @ concat (map sl_held (sys_slots s)))
      = mset [0..<p_n_pages (sys_pool s)]"
    using reach_parts(2) [OF assms] by (simp add: pages_ok_def)
  then have "distinct (take (p_n_free (sys_pool s)) (p_free_stack (sys_pool s)) @ concat (map sl_held (sys_slots s)))"
    and "set (take (p_n_free (sys_pool s)) (p_free_stack (sys_pool s)) @ concat (map sl_held (sys_slots s)))
      = set [0..<p_n_pages (sys_pool s)]"
    by (metis distinct_upt mset_eq_imp_distinct_iff) (metis \<open>mset _ = mset _\<close> mset_eq_setD)
  then show ?thesis by simp
qed

text \<open>
  C2. The pool never wedges: in every reachable state, with fewer than 2^32 returns of pages so far, a slot that sleeps in
  \<^verbatim>\<open>vv_cond_wait\<close> has not missed a wake-up (the pages it needs are not there), and whenever a slot sleeps or holds pages,
  some slot that holds pages is not asleep: its thread is running, or it has been woken by a broadcast since it went to
  sleep, so there is always a thread that can give pages back or will look again.
\<close>

theorem pool_never_wedged:
  assumes "reaches pool_init pool_step s" and "sys_returns s < 2 ^ 32" and "sl \<in> set (sys_slots s)"
    and "asleep (sys_pool s) sl \<or> is_holder sl"
  shows "\<not> (asleep (sys_pool s) sl \<and> pc_need (sl_pc sl) \<le> p_n_free (sys_pool s)) \<and>
    (\<exists>x \<in> set (sys_slots s). is_holder x \<and> \<not> asleep (sys_pool s) x)"
proof
  note parts = reach_parts [OF assms(1,2)]
  have ok: "asleep_ok (sys_pool s) sl" "slot_ok (p_n_pages (sys_pool s)) (sys_returns s) sl"
    using sharing.reaches_inv [OF assms(1)] assms(2,3) by (auto simp: pool_inv_def)
  then show "\<not> (asleep (sys_pool s) sl \<and> pc_need (sl_pc sl) \<le> p_n_free (sys_pool s))" by (auto simp: asleep_ok_def)
  have "p_n_free (sys_pool s) < p_n_pages (sys_pool s)" if "asleep (sys_pool s) sl"
    using ok that by (auto simp: asleep_ok_def asleep_def slot_ok_def split: pc.splits)
  then have "count_if is_holder (sys_slots s) \<noteq> 0"
    using assms(3,4) no_holder_all_free [OF parts(2,3)] parts(3) count_if_pos [of sl "sys_slots s" is_holder]
    by (auto simp: counters_ok_def)
  then have "0 < count_if is_holder (sys_slots s)" using count_if_nonneg [of is_holder "sys_slots s"] by linarith
  then have "\<exists>x \<in> set (sys_slots s). is_holder x \<and> \<not> is_stalled (p_stall_gen (sys_pool s)) x"
    using parts(3) by (intro count_if_less_ex) (auto simp: counters_ok_def)
  then show "\<exists>x \<in> set (sys_slots s). is_holder x \<and> \<not> asleep (sys_pool s) x"
    using parts(1) sleeping_holder_stalled [OF _ parts(3)] by blast
qed

text \<open>
  C22. A waiting reserve gives up only when waiting is useless, as the header promises: in a
  reachable state, a thread at the loop test that gives up although it may wait asked for more
  pages than the pool has, or holds pages itself while every other slot that holds pages is
  asleep, counted in the current generation, and has not been woken since.
\<close>

theorem give_up_only_when_hopeless:
  assumes "reaches pool_init pool_step s" and "sys_returns s < 2 ^ 32"
    and "i < length (sys_slots s)" and "at_loop (sys_slots s ! i) want need counted g"
    and "reserve_iter (sys_pool s) (sl_cache (sys_slots s ! i)) need True counted g = (GiveUp, p', counted', g')"
  shows "p_n_pages (sys_pool s) < need \<or>
    0 < c_n_pages (sl_cache (sys_slots s ! i)) \<and>
    (\<forall>j < length (sys_slots s). j \<noteq> i \<longrightarrow> is_holder (sys_slots s ! j) \<longrightarrow>
       (\<exists>w n. sl_pc (sys_slots s ! j) = Waiting w n True (p_stall_gen (sys_pool s)) (p_freed (sys_pool s))))"
proof -
  note parts = reach_parts [OF assms(1,2)] and af = at_loop_facts [OF assms(4)]
  have all: "\<forall>sl \<in> set (sys_slots s). slot_ok (p_n_pages (sys_pool s)) (sys_returns s) sl"
    using parts(1) by blast
  note gu = reserve_iter_GiveUp [OF assms(5)]
  have "\<not> (c_n_pages (sl_cache (sys_slots s ! i)) = 0 \<and> p_n_holders (sys_pool s) = 0)"
    if "need \<le> p_n_pages (sys_pool s)"
    using no_holder_all_free [OF parts(2,3)] gu that by auto
  moreover have "\<exists>w n. sl_pc (sys_slots s ! j) = Waiting w n True (p_stall_gen (sys_pool s)) (p_freed (sys_pool s))"
    if "j < length (sys_slots s)" "is_stalled (p_stall_gen (sys_pool s)) (sys_slots s ! j)" for j
    using stalled_sleeps [OF parts(1) parts(3) assms(2) that(2)] nth_mem [OF that(1)] by blast
  ultimately show ?thesis
    using gu af all_others_stalled [OF all parts(3) assms(3)] by fastforce
qed


subsection \<open>A concrete system\<close>

text \<open>
  Three pages and two caches with a window of 256 positions; the first asks for 65 positions and
  takes two pages.
\<close>

definition demo_sys :: pool_sys where
  "demo_sys = \<lparr>sys_pool = demo_pool, sys_slots = [\<lparr>sl_cache = demo_cache, sl_pc = Running\<rparr>,
     \<lparr>sl_cache = demo_cache, sl_pc = Running\<rparr>], sys_returns = 0\<rparr>"

definition demo_mapping :: pool_sys where
  "demo_mapping = \<lparr>sys_pool = demo_pool\<lparr>p_n_stalled := 0, p_n_holders := 1, p_n_free := 1\<rparr>,
     sys_slots = [\<lparr>sl_cache = demo_cache\<lparr>c_pages := [0, 1, 0, 0]\<rparr>, sl_pc = Mapping 2 2\<rparr>,
       \<lparr>sl_cache = demo_cache, sl_pc = Running\<rparr>], sys_returns = 0\<rparr>"

definition demo_taken :: pool_sys where
  "demo_taken = \<lparr>sys_pool = demo_pool\<lparr>p_n_stalled := 0, p_n_holders := 1, p_n_free := 1\<rparr>,
     sys_slots = [\<lparr>sl_cache = demo_cache\<lparr>c_pages := [0, 1, 0, 0], c_n_pages := 2\<rparr>, sl_pc = Running\<rparr>,
       \<lparr>sl_cache = demo_cache, sl_pc = Running\<rparr>], sys_returns = 0\<rparr>"

lemma demo_init: "pool_init demo_sys"
  by (simp add: demo_sys_def pool_init_def pool_fresh_def signed_divide_int_def upt_rec)

lemma demo_after_iter:
  "after_iter demo_pool demo_cache 2 2 (True \<and> \<not> c_no_wait demo_cache) False 0 =
   (demo_pool\<lparr>p_n_stalled := 0, p_n_holders := 1, p_n_free := 1\<rparr>,
    \<lparr>sl_cache = demo_cache\<lparr>c_pages := [0, 1, 0, 0]\<rparr>, sl_pc = Mapping 2 2\<rparr>)"
  by (simp add: after_iter_def reserve_iter_def reserve_take_def numeral_2_eq_2)

lemma demo_step1: "pool_step demo_sys demo_mapping"
proof -
  have "pool_step demo_sys (put_slot demo_sys (demo_pool\<lparr>p_n_stalled := 0, p_n_holders := 1, p_n_free := 1\<rparr>) 0
      \<lparr>sl_cache = demo_cache\<lparr>c_pages := [0, 1, 0, 0]\<rparr>, sl_pc = Mapping 2 2\<rparr> 0)"
    by (rule st_reserve [of 0 demo_sys "\<lparr>sl_cache = demo_cache, sl_pc = Running\<rparr>" 65 2 2 True])
      (use demo_after_iter in \<open>simp_all add: demo_sys_def reserve_enter_def signed_divide_int_def\<close>)
  then show ?thesis by (simp add: demo_sys_def demo_mapping_def)
qed

lemma demo_step2: "pool_step demo_mapping demo_taken"
proof -
  let ?p = "demo_pool\<lparr>p_n_stalled := 0, p_n_holders := 1, p_n_free := 1\<rparr>"
  have "pool_step demo_mapping (put_slot demo_mapping ?p 0
      \<lparr>sl_cache = demo_cache\<lparr>c_pages := [0, 1, 0, 0], c_n_pages := 2\<rparr>, sl_pc = Running\<rparr>
      (if VV_OK = VV_OK then 0 else 1))"
    by (rule st_map [of 0 demo_mapping
          "\<lparr>sl_cache = demo_cache\<lparr>c_pages := [0, 1, 0, 0]\<rparr>, sl_pc = Mapping 2 2\<rparr>" 2 2 VV_OK VV_OK])
      (simp_all add: demo_mapping_def reserve_map_def)
  then show ?thesis by (simp add: demo_taken_def demo_mapping_def)
qed

lemma demo_reaches: "reaches pool_init pool_step demo_taken"
  using demo_init demo_step1 demo_step2
  by (blast intro: reaches_init [of pool_init _ pool_step] reaches_step [of pool_init pool_step])

theorem pool_pages_conserved_witness:
  "distinct (take (p_n_free (sys_pool demo_taken)) (p_free_stack (sys_pool demo_taken)) @
      concat (map sl_held (sys_slots demo_taken))) \<and>
   concat (map sl_held (sys_slots demo_taken)) = [0, 1]"
  using pool_pages_conserved [OF demo_reaches]
  by (simp add: demo_taken_def sl_held_def sl_taken_def)

text \<open>The second slot asks for 65 positions too: one page is left, so it sleeps until the first gives its pages back.\<close>

definition demo_asleep :: pool_sys where
  "demo_asleep = demo_taken\<lparr>sys_slots := (sys_slots demo_taken)[1 := \<lparr>sl_cache = demo_cache, sl_pc = Waiting 2 2 False 0 0\<rparr>]\<rparr>"

lemma demo_step3: "pool_step demo_taken demo_asleep"
proof -
  have "pool_step demo_taken (put_slot demo_taken (sys_pool demo_taken) 1
      \<lparr>sl_cache = demo_cache, sl_pc = Waiting 2 2 False 0 0\<rparr> 0)"
    by (rule st_reserve [of 1 demo_taken "\<lparr>sl_cache = demo_cache, sl_pc = Running\<rparr>" 65 2 2 True])
      (simp_all add: demo_taken_def reserve_enter_def signed_divide_int_def after_iter_def reserve_iter_def)
  then show ?thesis by (simp add: demo_asleep_def demo_taken_def)
qed

theorem pool_never_wedged_witness:
  "asleep (sys_pool demo_asleep) (sys_slots demo_asleep ! 1) \<and>
   \<not> (asleep (sys_pool demo_asleep) (sys_slots demo_asleep ! 1) \<and>
      pc_need (sl_pc (sys_slots demo_asleep ! 1)) \<le> p_n_free (sys_pool demo_asleep)) \<and>
   (\<exists>x \<in> set (sys_slots demo_asleep). is_holder x \<and> \<not> asleep (sys_pool demo_asleep) x)"
proof -
  have r: "reaches pool_init pool_step demo_asleep"
    using demo_reaches demo_step3 by (rule reaches_step [of pool_init pool_step])
  have a: "asleep (sys_pool demo_asleep) (sys_slots demo_asleep ! 1)" by (simp add: demo_asleep_def demo_taken_def asleep_def)
  have b: "sys_returns demo_asleep < 2 ^ 32" "sys_slots demo_asleep ! 1 \<in> set (sys_slots demo_asleep)"
    by (simp_all add: demo_asleep_def demo_taken_def)
  show ?thesis using a pool_never_wedged [OF r b] by blast
qed

text \<open>
  The first slot, the only holder, asks for two more pages with one left: it does not wait for
  itself.
\<close>

theorem give_up_only_when_hopeless_witness:
  "p_n_pages (sys_pool demo_taken) < 2 \<or>
    0 < c_n_pages (sl_cache (sys_slots demo_taken ! 0)) \<and>
    (\<forall>j < length (sys_slots demo_taken). j \<noteq> 0 \<longrightarrow> is_holder (sys_slots demo_taken ! j) \<longrightarrow>
       (\<exists>w n. sl_pc (sys_slots demo_taken ! j) = Waiting w n True (p_stall_gen (sys_pool demo_taken)) (p_freed (sys_pool demo_taken))))"
proof -
  have r: "reserve_iter (sys_pool demo_taken) (sl_cache (sys_slots demo_taken ! 0)) 2 True False 0 =
      (GiveUp, sys_pool demo_taken, False, 0)"
    by (simp add: demo_taken_def reserve_iter_def)
  have a: "at_loop (sys_slots demo_taken ! 0) 4 2 False 0"
    by (simp add: demo_taken_def at_loop_def)
  show ?thesis
    by (rule give_up_only_when_hopeless [OF demo_reaches _ _ a r]) (simp_all add: demo_taken_def)
qed

end
