(* ===== verification/KvCache.thy ===== *)
theory KvCache
  imports KvPool
begin

text \<open>
  The key/value cache itself (\<^verbatim>\<open>src/inference/kv_cache.c\<close>, first half): creation of a slab and of
  a paged cache, append, lookups, reset and free. Out-parameters are results, so their NULL tests
  are not modelled; the other NULL tests are. The bytes the stores hold are a map from block
  addresses (\<open>stores\<close>); what a device copy or a quantizing store kernel writes is a parameter
  (\<open>kv_dev\<close>), the host's \<^verbatim>\<open>memcpy\<close> is written out.
\<close>

type_synonym stores = "nat \<Rightarrow> bytes"

subsection \<open>Freeing\<close>

text \<open>\<^verbatim>\<open>FREE_ARRAY\<close>: every pointer of the array, with the allocator of the cache, then the array.\<close>

definition FREE_ARRAY :: "bool \<Rightarrow> nat \<Rightarrow> ptr_array \<Rightarrow> heap \<Rightarrow> heap" where
  "FREE_ARRAY on_cpu n arr h =
     (if arr = None then h
      else vv_free (array_addr arr) (fold (free_cell (if on_cpu then Host else Dev) arr) [0..<n] h))"

text \<open>
  \<open>p\<close> is the pool the cache points to; a slab ignores it.
\<close>

definition vv_kv_cache_free :: "kv_cache \<Rightarrow> kv_pool \<Rightarrow> heap \<Rightarrow> kv_pool \<times> heap" where
  "vv_kv_cache_free c p h =
     (let (c, p, h) =
        (if c_pool c then
           let (p, c) = vv_kv_cache_release p c;
               h = vv_free (array_addr (c_k_cache c)) h;
               h = vv_free (array_addr (c_v_cache c)) h;
               h = vv_free (array_addr (c_k_meta c)) h;
               h = vv_free (array_addr (c_v_meta c)) h;
               h = vv_dev_free (c_page_table c) h;
               h = vv_free (c_pages_ptr c) h;
               (p, h) = vv_kv_pool_release p h
           in (c\<lparr>c_k_cache := None, c_v_cache := None, c_k_meta := None, c_v_meta := None,
                 c_pool := False\<rparr>, p, h)
         else (c, p, h));
        n = nat (c_num_layers c);
        h = FREE_ARRAY (c_on_cpu c) n (c_k_cache c) h;
        h = FREE_ARRAY (c_on_cpu c) n (c_v_cache c) h;
        h = FREE_ARRAY (c_on_cpu c) n (c_k_meta c) h;
        h = FREE_ARRAY (c_on_cpu c) n (c_v_meta c) h;
        h = FREE_ARRAY (c_on_cpu c) n (c_k_ref c) h;
        h = vv_free (c_ref_ready_ptr c) h;
        h = vv_dev_free (c_d_len c) h;
        h = vv_dev_free (c_d_len_next c) h
      in (p, vv_free (Some (c_self c)) h))"

subsection \<open>Creating a slab\<close>

text \<open>\<^verbatim>\<open>ALLOC_SLOT\<close>: one buffer of one layer, host or device.\<close>

definition alloc_slot :: "bool \<Rightarrow> u64 \<Rightarrow> heap \<Rightarrow> vv_status \<times> nat option \<times> heap" where
  "alloc_slot on_cpu bytes h =
     (if on_cpu
      then (case vv_alloc bytes h of
              (None, h) \<Rightarrow> (VV_ERR_OUT_OF_MEMORY, None, h)
            | (Some a, h) \<Rightarrow> (VV_OK, Some a, h))
      else vv_dev_alloc bytes h)"

definition cache_alloc_into ::
  "((ptr_array \<Rightarrow> ptr_array) \<Rightarrow> kv_cache \<Rightarrow> kv_cache) \<Rightarrow> nat \<Rightarrow> u64 \<Rightarrow>
   vv_status \<times> kv_cache \<times> heap \<Rightarrow> vv_status \<times> kv_cache \<times> heap" where
  "cache_alloc_into fld l bytes r =
     (case r of (s, c, h) \<Rightarrow>
        if s \<noteq> VV_OK then (s, c, h)
        else (case alloc_slot (c_on_cpu c) bytes h of
                (s', None, h') \<Rightarrow> (s', c, h')
              | (s', Some a, h') \<Rightarrow> (s', fld (set_ptr l a) c, h')))"

definition cache_alloc_layer ::
  "bool \<Rightarrow> u64 \<Rightarrow> u64 \<Rightarrow> u64 \<Rightarrow> nat \<Rightarrow> vv_status \<times> kv_cache \<times> heap \<Rightarrow> vv_status \<times> kv_cache \<times> heap" where
  "cache_alloc_layer has_meta sb mb rb l r =
     (let r = cache_alloc_into c_k_cache_update l sb r;
          r = cache_alloc_into c_v_cache_update l sb r;
          r = (if has_meta then cache_alloc_into c_v_meta_update l mb (cache_alloc_into c_k_meta_update l mb r) else r)
      in if c_k_ref (fst (snd r)) \<noteq> None then cache_alloc_into c_k_ref_update l rb r else r)"

text \<open>The two device copies of the length; the first failure is the status.\<close>

definition alloc_dlens :: "kv_cache \<Rightarrow> heap \<Rightarrow> vv_status \<times> kv_cache \<times> heap" where
  "alloc_dlens c h =
     (let (s, a, h) = vv_dev_alloc 4 h; c = c\<lparr>c_d_len := a\<rparr> in
      if s \<noteq> VV_OK then (s, c, h)
      else let (s, a, h) = vv_dev_alloc 4 h in (s, c\<lparr>c_d_len_next := a\<rparr>, h))"

definition cache_fail :: "vv_status \<Rightarrow> kv_cache \<Rightarrow> kv_pool \<Rightarrow> heap \<Rightarrow> vv_status \<times> kv_cache option \<times> kv_pool \<times> heap" where
  "cache_fail s c p h = (case vv_kv_cache_free c p h of (p, h) \<Rightarrow> (s, None, p, h))"

text \<open>The pointer arrays of a slab: each pair is tested, then cleared.\<close>

definition slab_refs :: "kv_cache \<Rightarrow> heap \<Rightarrow> bool \<times> kv_cache \<times> heap" where
  "slab_refs c h =
     (let (r, h) = alloc_ptrs (c_num_layers c) h;
          (rr, h) = vv_alloc (of_int (c_num_layers c)) h;
          c = c\<lparr>c_k_ref := r, c_ref_ready_ptr := rr,
                c_ref_ready := replicate (nat (c_num_layers c)) False\<rparr>
      in if r = None \<or> rr = None then (False, c, h) else (True, c\<lparr>c_k_ref := clear_ptrs r\<rparr>, h))"

definition slab_metas :: "kv_cache \<Rightarrow> heap \<Rightarrow> bool \<times> kv_cache \<times> heap" where
  "slab_metas c h =
     (let (km, h) = alloc_ptrs (c_num_layers c) h;
          (vm, h) = alloc_ptrs (c_num_layers c) h;
          c = c\<lparr>c_k_meta := km, c_v_meta := vm\<rparr>
      in if km = None \<or> vm = None then (False, c, h)
         else (True, c\<lparr>c_k_meta := clear_ptrs km, c_v_meta := clear_ptrs vm\<rparr>, h))"

definition slab_stores :: "kv_cache \<Rightarrow> heap \<Rightarrow> bool \<times> kv_cache \<times> heap" where
  "slab_stores c h =
     (let (k, h) = alloc_ptrs (c_num_layers c) h;
          (v, h) = alloc_ptrs (c_num_layers c) h;
          c = c\<lparr>c_k_cache := k, c_v_cache := v\<rparr>
      in if k = None \<or> v = None then (False, c, h)
         else (True, c\<lparr>c_k_cache := clear_ptrs k, c_v_cache := clear_ptrs v\<rparr>, h))"

definition slab_arrays :: "kv_cache \<Rightarrow> heap \<Rightarrow> bool \<times> kv_cache \<times> heap" where
  "slab_arrays c h =
     (let (ok, c, h) = slab_stores c h in
      if \<not> ok then (False, c, h)
      else let (ok, c, h) = (if vv_kv_is_raw (c_format c) then (True, c, h) else slab_refs c h) in
        if \<not> ok then (False, c, h)
        else if vv_kv_has_meta (c_format c) then slab_metas c h else (True, c, h))"

definition empty_cache :: "nat \<Rightarrow> kv_cache" where
  "empty_cache self = \<lparr>c_self = self, c_k_cache = None, c_v_cache = None, c_k_meta = None,
     c_v_meta = None, c_k_ref = None, c_ref_ready_ptr = None, c_ref_ready = [], c_num_layers = 0,
     c_first_layer = 0, c_last_layer = 0, c_n_kv_heads = 0, c_head_dim = 0, c_max_seq_len = 0,
     c_current_len = 0, c_format = VV_KV_FP16, c_bytes_per_vec = 0, c_on_cpu = False,
     c_bytes_total = 0, c_d_len = None, c_d_len_next = None, c_attn_backend = VV_ATTN_AUTO,
     c_pool = False, c_page_table = None, c_pages_ptr = None, c_pages = [], c_n_pages = 0,
     c_max_pages = 0, c_no_wait = False, c_rope_gap = 0\<rparr>"

text \<open>From the cleared arrays on: the layers' buffers, the device lengths, the total.\<close>

definition slab_fill ::
  "int \<Rightarrow> int \<Rightarrow> u64 \<Rightarrow> u64 \<Rightarrow> kv_cache \<Rightarrow> kv_pool \<Rightarrow> heap \<Rightarrow>
   vv_status \<times> kv_cache option \<times> kv_pool \<times> heap" where
  "slab_fill first cnt sb mb c p h =
     (let rb = of_int (c_n_kv_heads c) * of_int (c_head_dim c) * 2;
          (s, c, h) = fold (cache_alloc_layer (vv_kv_has_meta (c_format c)) sb mb rb)
            [nat first..<nat (first + cnt)] (VV_OK, c, h)
      in if s \<noteq> VV_OK then cache_fail s c p h
         else let (s, c, h) = (if c_on_cpu c then (VV_OK, c, h) else alloc_dlens c h) in
           if s \<noteq> VV_OK then cache_fail s c p h
           else (VV_OK, Some (c\<lparr>c_bytes_total := of_int cnt * 2 * (sb + mb)\<rparr>), p, h))"

definition vv_kv_cache_create_range ::
  "int \<Rightarrow> int \<Rightarrow> int \<Rightarrow> int \<Rightarrow> int \<Rightarrow> int \<Rightarrow> vv_kv_format \<Rightarrow> bool \<Rightarrow> kv_pool \<Rightarrow> heap \<Rightarrow>
   vv_status \<times> kv_cache option \<times> kv_pool \<times> heap" where
  "vv_kv_cache_create_range num_layers first cnt n_kv_heads head_dim max_seq_len format on_cpu p h =
     (if first < 0 \<or> cnt \<le> 0 \<or> first + cnt > num_layers
      then (VV_ERR_INVALID_ARG, None, p, h)
      else
        case vv_alloc (h_sizeof h ''vv_kv_cache_t'') h of
          (None, h) \<Rightarrow> (VV_ERR_OUT_OF_MEMORY, None, p, h)
        | (Some self, h) \<Rightarrow>
            let c = (empty_cache self)\<lparr>c_num_layers := num_layers, c_first_layer := first,
                      c_last_layer := first + cnt - 1, c_n_kv_heads := n_kv_heads,
                      c_head_dim := head_dim, c_max_seq_len := max_seq_len, c_format := format,
                      c_bytes_per_vec := vv_kv_bytes_per_vec format head_dim, c_on_cpu := on_cpu,
                      c_attn_backend := VV_ATTN_FA1\<rparr>;
                sb = store_bytes max_seq_len n_kv_heads (c_bytes_per_vec c);
                mb = (if vv_kv_has_meta format then meta_bytes max_seq_len n_kv_heads else 0);
                (ok, c, h) = slab_arrays c h
            in if \<not> ok then cache_fail VV_ERR_OUT_OF_MEMORY c p h
               else slab_fill first cnt sb mb c p h)"

definition vv_kv_cache_create ::
  "int \<Rightarrow> int \<Rightarrow> int \<Rightarrow> int \<Rightarrow> vv_kv_format \<Rightarrow> bool \<Rightarrow> kv_pool \<Rightarrow> heap \<Rightarrow>
   vv_status \<times> kv_cache option \<times> kv_pool \<times> heap" where
  "vv_kv_cache_create num_layers n_kv_heads head_dim max_seq_len format on_cpu p h =
     vv_kv_cache_create_range num_layers 0 num_layers n_kv_heads head_dim max_seq_len format on_cpu p h"

subsection \<open>Creating a paged cache\<close>

text \<open>The arrays of a paged cache; the layer pointers are copied from the pool.\<close>

definition paged_arrays :: "kv_cache \<Rightarrow> kv_pool \<Rightarrow> heap \<Rightarrow> bool \<times> kv_cache \<times> heap" where
  "paged_arrays c p h =
     (let has_meta = (p_k_meta p \<noteq> None);
          (k, h) = alloc_ptrs (c_num_layers c) h;
          (v, h) = alloc_ptrs (c_num_layers c) h;
          (pg, h) = vv_alloc (of_int (c_max_pages c) * 4) h;
          (km, h) = (if has_meta then alloc_ptrs (c_num_layers c) h else (None, h));
          (vm, h) = (if has_meta then alloc_ptrs (c_num_layers c) h else (None, h));
          c = c\<lparr>c_k_cache := k, c_v_cache := v, c_pages_ptr := pg, c_k_meta := km, c_v_meta := vm,
                c_pages := replicate (nat (c_max_pages c)) 0\<rparr>;
          copy = (\<lambda>own src. case (own, src) of (Some (a, _), Some (_, cs)) \<Rightarrow> Some (a, cs) | _ \<Rightarrow> own)
      in if k = None \<or> v = None \<or> pg = None \<or> (has_meta \<and> (km = None \<or> vm = None))
         then (False, c, h)
         else (True, c\<lparr>c_k_cache := copy k (p_k p), c_v_cache := copy v (p_v p),
                       c_k_meta := copy km (p_k_meta p), c_v_meta := copy vm (p_v_meta p)\<rparr>, h))"

fun alloc_refs :: "nat list \<Rightarrow> u64 \<Rightarrow> kv_cache \<Rightarrow> heap \<Rightarrow> vv_status \<times> kv_cache \<times> heap" where
  "alloc_refs [] rb c h = (VV_OK, c, h)"
| "alloc_refs (l # ls) rb c h =
     (case vv_dev_alloc rb h of
        (s, None, h) \<Rightarrow> (s, c, h)
      | (s, Some a, h) \<Rightarrow> alloc_refs ls rb (c\<lparr>c_k_ref := set_ptr l a (c_k_ref c)\<rparr>) h)"

definition vv_kv_cache_create_paged ::
  "kv_pool \<Rightarrow> int \<Rightarrow> heap \<Rightarrow> vv_status \<times> kv_cache option \<times> kv_pool \<times> heap" where
  "vv_kv_cache_create_paged p max_seq_len h =
     (if max_seq_len \<le> 0 then (VV_ERR_INVALID_ARG, None, p, h)
      else
        case vv_alloc (h_sizeof h ''vv_kv_cache_t'') h of
          (None, h) \<Rightarrow> (VV_ERR_OUT_OF_MEMORY, None, p, h)
        | (Some self, h) \<Rightarrow>
            let c = (empty_cache self)\<lparr>c_num_layers := p_num_layers p, c_first_layer := p_first p,
                      c_last_layer := p_first p + p_count p - 1, c_n_kv_heads := p_n_kv_heads p,
                      c_head_dim := p_head_dim p, c_max_seq_len := max_seq_len,
                      c_format := p_format p, c_bytes_per_vec := p_bytes_per_vec p,
                      c_attn_backend := VV_ATTN_FLASHINFER,
                      c_max_pages := (max_seq_len + VV_KV_PAGE_SIZE - 1) sdiv VV_KV_PAGE_SIZE,
                      c_pool := True\<rparr>;
                p = p\<lparr>p_refs := p_refs p + 1\<rparr>;
                (ok, c, h) = paged_arrays c p h
            in if \<not> ok then cache_fail VV_ERR_OUT_OF_MEMORY c p h
               else
                 case vv_dev_alloc (of_int (c_max_pages c) * 4) h of
                   (s, None, h) \<Rightarrow> cache_fail s c p h
                 | (_, Some table, h) \<Rightarrow>
                     let c = c\<lparr>c_page_table := Some table\<rparr>;
                         (ok, c, h) = (if vv_kv_is_raw (c_format c) then (True, c, h) else slab_refs c h)
                     in if \<not> ok then cache_fail VV_ERR_OUT_OF_MEMORY c p h
                        else
                          let rb = of_int (c_n_kv_heads c) * of_int (c_head_dim c) * 2;
                              ls = (if vv_kv_is_raw (c_format c) then []
                                    else [nat (c_first_layer c)..<nat (c_last_layer c + 1)]);
                              (s, c, h) = alloc_refs ls rb c h
                          in if s \<noteq> VV_OK then cache_fail s c p h
                             else let (s, c, h) = alloc_dlens c h in
                               if s \<noteq> VV_OK then cache_fail s c p h
                               else (VV_OK,
                                     Some (c\<lparr>c_bytes_total := of_int (c_max_pages c) * 4\<rparr>), p, h))"


subsection \<open>Append, lookups, reset\<close>

text \<open>
  What the device does for a cache: the copies and the store kernels, each with the status it
  returns and the stores afterwards. They are CUDA and Metal code outside this model.
\<close>

record kv_dev =
  dev_store_paged :: "kv_cache \<Rightarrow> nat \<Rightarrow> bytes \<Rightarrow> bytes \<Rightarrow> int \<Rightarrow> bool \<Rightarrow> stores \<Rightarrow> vv_status \<times> stores"
  dev_store_quant :: "kv_cache \<Rightarrow> nat \<Rightarrow> bytes \<Rightarrow> bytes \<Rightarrow> int \<Rightarrow> bool \<Rightarrow> stores \<Rightarrow> vv_status \<times> stores"
  dev_copy :: "nat \<Rightarrow> nat option \<Rightarrow> nat \<Rightarrow> bytes \<Rightarrow> stores \<Rightarrow> vv_status \<times> stores"

text \<open>\<^verbatim>\<open>memcpy(block + off, src, n)\<close>.\<close>

definition memcpy_to :: "nat \<Rightarrow> nat \<Rightarrow> bytes \<Rightarrow> nat \<Rightarrow> stores \<Rightarrow> stores" where
  "memcpy_to a off src n st = st(a := take off (st a) @ take n src @ drop (off + n) (st a))"

definition layer_ptr :: "ptr_array \<Rightarrow> nat \<Rightarrow> nat" where
  "layer_ptr arr l = (case arr of Some (a, cs) \<Rightarrow> (case cs ! l of Ptr p \<Rightarrow> p | _ \<Rightarrow> 0) | None \<Rightarrow> 0)"

definition build_ref :: "kv_cache \<Rightarrow> nat \<Rightarrow> bool" where
  "build_ref c l \<longleftrightarrow> c_ref_ready_ptr c \<noteq> None \<and> \<not> c_ref_ready c ! l"

definition mark_ref :: "bool \<Rightarrow> nat \<Rightarrow> kv_cache \<Rightarrow> kv_cache" where
  "mark_ref b l c = (if b then c\<lparr>c_ref_ready := (c_ref_ready c)[l := True]\<rparr> else c)"

definition append_store ::
  "kv_dev \<Rightarrow> kv_cache \<Rightarrow> nat \<Rightarrow> bytes \<Rightarrow> bytes \<Rightarrow> int \<Rightarrow> bool \<Rightarrow> stores \<Rightarrow> vv_status \<times> kv_cache \<times> stores" where
  "append_store dev c l k v seq_len use_device_pos st =
     (if c_pool c then
        if c_current_len c + seq_len > int (c_n_pages c) * VV_KV_PAGE_SIZE
        then (VV_ERR_KV_POOL_EXHAUSTED, c, st)
        else let b = build_ref c l; (s, st) = dev_store_paged dev c l k v seq_len b st
          in (s, if s = VV_OK then mark_ref b l c else c, st)
      else if vv_kv_is_raw (c_format c) then
        let row = nat (c_n_kv_heads c) * nat (c_bytes_per_vec c);
            off = nat (c_current_len c) * row;
            n = nat seq_len * row;
            ka = layer_ptr (c_k_cache c) l; va = layer_ptr (c_v_cache c) l
        in if c_on_cpu c
           then (VV_OK, c, memcpy_to va off v n (memcpy_to ka off k n st))
           else let pos = (if use_device_pos then None else Some off);
                    (s, st) = dev_copy dev ka pos n k st
             in if s \<noteq> VV_OK then (s, c, st)
                else let (s, st) = dev_copy dev va pos n v st in (s, c, st)
      else if c_on_cpu c then (VV_ERR_UNSUPPORTED, c, st)
      else let b = build_ref c l; (s, st) = dev_store_quant dev c l k v seq_len b st
        in (s, if s = VV_OK then mark_ref b l c else c, st))"

definition vv_kv_cache_append ::
  "kv_dev \<Rightarrow> kv_cache option \<Rightarrow> int \<Rightarrow> bytes option \<Rightarrow> bytes option \<Rightarrow> int \<Rightarrow> bool \<Rightarrow> stores \<Rightarrow>
   vv_status \<times> kv_cache option \<times> stores" where
  "vv_kv_cache_append dev cache layer k v seq_len use_device_pos st =
     (case (cache, k, v) of
        (Some c, Some kb, Some vb) \<Rightarrow>
          if layer < 0 \<or> layer \<ge> c_num_layers c then (VV_ERR_INVALID_ARG, cache, st)
          else if c_current_len c + seq_len > c_max_seq_len c then (VV_ERR_OVERFLOW, cache, st)
          else if use_device_pos \<and> (c_on_cpu c \<or> c_d_len c = None \<or> seq_len \<noteq> 1)
          then (VV_ERR_INVALID_ARG, cache, st)
          else
            (case append_store dev c (nat layer) kb vb seq_len use_device_pos st of (s, c, st) \<Rightarrow>
               if s \<noteq> VV_OK then (s, Some c, st)
               else (VV_OK,
                     Some (if layer = c_last_layer c
                           then c\<lparr>c_current_len := c_current_len c + seq_len\<rparr> else c), st))
      | _ \<Rightarrow> (VV_ERR_NULL_PTR, cache, st))"

definition cell_or_null :: "ptr_array \<Rightarrow> nat \<Rightarrow> cell" where
  "cell_or_null arr l = (case arr of None \<Rightarrow> Null | Some (a, cs) \<Rightarrow> cs ! l)"

definition vv_kv_cache_get :: "kv_cache option \<Rightarrow> int \<Rightarrow> vv_status + (cell \<times> cell \<times> int)" where
  "vv_kv_cache_get cache layer =
     (case cache of
        None \<Rightarrow> Inl VV_ERR_NULL_PTR
      | Some c \<Rightarrow>
          if layer < 0 \<or> layer \<ge> c_num_layers c then Inl VV_ERR_INVALID_ARG
          else Inr (cell_or_null (c_k_cache c) (nat layer), cell_or_null (c_v_cache c) (nat layer),
                    c_current_len c))"

definition vv_kv_cache_get_meta :: "kv_cache option \<Rightarrow> int \<Rightarrow> vv_status + (cell \<times> cell)" where
  "vv_kv_cache_get_meta cache layer =
     (case cache of
        None \<Rightarrow> Inl VV_ERR_NULL_PTR
      | Some c \<Rightarrow>
          if layer < 0 \<or> layer \<ge> c_num_layers c then Inl VV_ERR_INVALID_ARG
          else Inr (cell_or_null (c_k_meta c) (nat layer), cell_or_null (c_v_meta c) (nat layer)))"

text \<open>
  The device copies of the length: \<open>h2d\<close> is the status of each of the two copies, \<open>dl\<close> the
  values the device holds.
\<close>

definition vv_kv_cache_publish_len ::
  "vv_status \<times> vv_status \<Rightarrow> kv_cache option \<Rightarrow> int \<times> int \<Rightarrow> vv_status \<times> (int \<times> int)" where
  "vv_kv_cache_publish_len h2d cache dl =
     (case cache of
        None \<Rightarrow> (VV_ERR_NULL_PTR, dl)
      | Some c \<Rightarrow>
          if c_d_len c = None then (VV_OK, dl)
          else let len = c_current_len c; nxt = len + 1; (s1, s2) = h2d in
            if s1 \<noteq> VV_OK then (s1, dl)
            else if s2 \<noteq> VV_OK then (s2, (len, snd dl))
            else (VV_OK, (len, nxt)))"

definition vv_kv_cache_reset :: "kv_cache option \<Rightarrow> kv_pool \<Rightarrow> int \<times> int \<Rightarrow>
    vv_status \<times> kv_cache option \<times> kv_pool \<times> (int \<times> int)" where
  "vv_kv_cache_reset cache p dl =
     (case cache of
        None \<Rightarrow> (VV_ERR_NULL_PTR, None, p, dl)
      | Some c \<Rightarrow>
          let c = c\<lparr>c_current_len := 0, c_rope_gap := 0\<rparr>;
              dl = (if c_d_len c \<noteq> None then (0, 0) else dl);
              c = (if c_ref_ready_ptr c \<noteq> None
                   then c\<lparr>c_ref_ready := replicate (nat (c_num_layers c)) False\<rparr> else c);
              (p, c) = vv_kv_cache_release p c
          in (VV_OK, Some c, p, dl))"

record kv_view =
  v_k :: cell
  v_v :: cell
  v_k_meta :: cell
  v_v_meta :: cell
  v_page_table :: "nat option"
  v_format :: vv_kv_format
  v_n_kv_heads :: int
  v_head_dim :: int

definition vv_kv_cache_view :: "kv_cache option \<Rightarrow> int \<Rightarrow> kv_view" where
  "vv_kv_cache_view cache layer =
     (let v0 = \<lparr>v_k = Null, v_v = Null, v_k_meta = Null, v_v_meta = Null, v_page_table = None,
                v_format = VV_KV_FP16, v_n_kv_heads = 0, v_head_dim = 0\<rparr>
      in case cache of
           None \<Rightarrow> v0
         | Some c \<Rightarrow>
             if layer < 0 \<or> layer \<ge> c_num_layers c then v0
             else \<lparr>v_k = cell_or_null (c_k_cache c) (nat layer), v_v = cell_or_null (c_v_cache c) (nat layer),
                    v_k_meta = cell_or_null (c_k_meta c) (nat layer),
                    v_v_meta = cell_or_null (c_v_meta c) (nat layer),
                    v_page_table = (if c_pool c then c_page_table c else None),
                    v_format = c_format c, v_n_kv_heads = c_n_kv_heads c, v_head_dim = c_head_dim c\<rparr>)"


subsection \<open>The blocks a cache owns\<close>

definition cache_mem :: "kv_cache \<Rightarrow> mem" where
  "cache_mem c = (if c_on_cpu c then Host else Dev)"

text \<open>
  A slab owns the buffers its arrays point to; a paged cache owns the arrays, its table and its
  page list, while the buffers belong to the pool.
\<close>

definition slab_blocks :: "nat \<Rightarrow> kv_cache \<Rightarrow> block multiset" where
  "slab_blocks L c =
     {#(Host, c_self c)#} + opt_block Host (c_ref_ready_ptr c)
     + opt_block Dev (c_d_len c) + opt_block Dev (c_d_len_next c)
     + arr_addr_block (c_k_cache c) + arr_addr_block (c_v_cache c)
     + arr_addr_block (c_k_meta c) + arr_addr_block (c_v_meta c) + arr_addr_block (c_k_ref c)
     + cells_upto (cache_mem c) (c_k_cache c) L + cells_upto (cache_mem c) (c_v_cache c) L
     + cells_upto (cache_mem c) (c_k_meta c) L + cells_upto (cache_mem c) (c_v_meta c) L
     + cells_upto (cache_mem c) (c_k_ref c) L"

definition paged_blocks :: "nat \<Rightarrow> kv_cache \<Rightarrow> block multiset" where
  "paged_blocks L c =
     {#(Host, c_self c)#} + opt_block Host (c_ref_ready_ptr c)
     + opt_block Dev (c_d_len c) + opt_block Dev (c_d_len_next c)
     + opt_block Dev (c_page_table c) + opt_block Host (c_pages_ptr c)
     + arr_addr_block (c_k_cache c) + arr_addr_block (c_v_cache c)
     + arr_addr_block (c_k_meta c) + arr_addr_block (c_v_meta c) + arr_addr_block (c_k_ref c)
     + cells_upto (cache_mem c) (c_k_ref c) L"

definition slab_clean :: "nat \<Rightarrow> kv_cache \<Rightarrow> bool" where
  "slab_clean L c \<longleftrightarrow>
     nat (c_num_layers c) = L \<and> \<not> c_pool c \<and> arr_clean L (c_k_cache c) \<and> arr_clean L (c_v_cache c) \<and>
     arr_clean L (c_k_meta c) \<and> arr_clean L (c_v_meta c) \<and> arr_clean L (c_k_ref c)"

lemma FREE_ARRAY_owns:
  assumes "arr_clean n arr"
    and "owns h (arr_addr_block arr + (cells_upto (if on_cpu then Host else Dev) arr n + M))"
  shows "owns (FREE_ARRAY on_cpu n arr h) M"
proof (cases arr)
  case None
  with assms show ?thesis by (simp add: FREE_ARRAY_def arr_addr_block_def)
next
  case (Some a)
  have "owns h (cells_upto (if on_cpu then Host else Dev) arr n + (arr_addr_block arr + M))"
    using assms(2) by (simp add: ac_simps)
  from owns_free_cells [OF assms(1) this] Some show ?thesis by (simp add: FREE_ARRAY_def)
qed

lemma slab_free_owns:
  assumes cl: "slab_clean L c" and own: "owns h (slab_blocks L c + M)"
  shows "fst (vv_kv_cache_free c p h) = p \<and> owns (snd (vv_kv_cache_free c p h)) M"
proof -
  let ?m = "if c_on_cpu c then Host else Dev"
  let ?R0 = "opt_block Host (c_ref_ready_ptr c) + (opt_block Dev (c_d_len c) + (opt_block Dev (c_d_len_next c)
      + ({#(Host, c_self c)#} + M)))"
  let ?A = "\<lambda>arr R. arr_addr_block arr + (cells_upto ?m arr L + R)"
  have "owns h (?A (c_k_cache c) (?A (c_v_cache c) (?A (c_k_meta c) (?A (c_v_meta c) (?A (c_k_ref c) ?R0)))))"
    using own by (simp add: slab_blocks_def cache_mem_def ac_simps)
  then have "owns (FREE_ARRAY (c_on_cpu c) L (c_k_ref c) (FREE_ARRAY (c_on_cpu c) L (c_v_meta c)
      (FREE_ARRAY (c_on_cpu c) L (c_k_meta c) (FREE_ARRAY (c_on_cpu c) L (c_v_cache c)
      (FREE_ARRAY (c_on_cpu c) L (c_k_cache c) h))))) ?R0"
    using cl unfolding slab_clean_def by (intro FREE_ARRAY_owns) auto
  with cl show ?thesis by (simp add: vv_kv_cache_free_def slab_clean_def Let_def)
qed

text \<open>
  A paged cache that holds no pages: freeing it drops its reference and what it owns, and leaves
  the pool as it was before the reference was taken, as long as another reference remains.
\<close>

lemma paged_free_owns:
  assumes cl: "c_pool c" "c_n_pages c = 0" "nat (c_num_layers c) = L" "arr_clean L (c_k_ref c)"
    and refs: "1 < p_refs p" and own: "owns h (paged_blocks L c + M)"
  shows "fst (vv_kv_cache_free c p h) = p\<lparr>p_refs := p_refs p - 1\<rparr> \<and> owns (snd (vv_kv_cache_free c p h)) M"
proof -
  let ?m = "if c_on_cpu c then Host else Dev"
  let ?R0 = "opt_block Host (c_ref_ready_ptr c) + (opt_block Dev (c_d_len c) + (opt_block Dev (c_d_len_next c)
      + ({#(Host, c_self c)#} + M)))"
  let ?R1 = "arr_addr_block (c_k_ref c) + (cells_upto ?m (c_k_ref c) L + ?R0)"
  have "owns h (arr_addr_block (c_k_cache c) + (arr_addr_block (c_v_cache c) + (arr_addr_block (c_k_meta c)
      + (arr_addr_block (c_v_meta c) + (opt_block Dev (c_page_table c) + (opt_block Host (c_pages_ptr c) + ?R1))))))"
    using own by (simp add: paged_blocks_def cache_mem_def ac_simps)
  then have "owns (vv_free (c_pages_ptr c) (vv_dev_free (c_page_table c) (vv_free (array_addr (c_v_meta c))
      (vv_free (array_addr (c_k_meta c)) (vv_free (array_addr (c_v_cache c)) (vv_free (array_addr (c_k_cache c)) h)))))) ?R1"
    by simp
  from FREE_ARRAY_owns [OF cl(4) this] show ?thesis
    using cl(1-3) refs
    by (simp add: vv_kv_cache_free_def vv_kv_cache_release_def vv_kv_pool_release_def FREE_ARRAY_def [of _ _ None])
qed

subsection \<open>Creating a slab never leaks\<close>

definition slab_ready :: "nat \<Rightarrow> bool \<Rightarrow> bool \<Rightarrow> nat \<times> nat \<times> nat \<times> nat \<times> nat \<Rightarrow> kv_cache \<Rightarrow> bool" where
  "slab_ready L m r marks c =
     (case marks of (i1, i2, i3, i4, i5) \<Rightarrow>
        nat (c_num_layers c) = L \<and> \<not> c_pool c \<and>
        arr_ready L i1 (c_k_cache c) \<and> arr_ready L i2 (c_v_cache c) \<and>
        (if m then arr_ready L i3 (c_k_meta c) \<and> arr_ready L i4 (c_v_meta c)
         else c_k_meta c = None \<and> c_v_meta c = None) \<and>
        (if r then arr_ready L i5 (c_k_ref c) else c_k_ref c = None))"

lemma slab_ready_clean: "slab_ready L m r marks c \<Longrightarrow> slab_clean L c"
  by (cases marks) (auto simp: slab_ready_def slab_clean_def arr_ready_def split: if_splits)

lemma slab_ready_weaken:
  "slab_ready L m r (a, b, c, d, e) x \<Longrightarrow> a \<le> a' \<Longrightarrow> b \<le> b' \<Longrightarrow> c \<le> c' \<Longrightarrow> d \<le> d' \<Longrightarrow> e \<le> e' \<Longrightarrow>
   slab_ready L m r (a', b', c', d', e') x"
  by (auto simp: slab_ready_def arr_ready_def)

definition slab_building ::
  "nat \<Rightarrow> bool \<Rightarrow> bool \<Rightarrow> block multiset \<Rightarrow> nat \<times> nat \<times> nat \<times> nat \<times> nat \<Rightarrow> vv_status \<times> kv_cache \<times> heap \<Rightarrow> bool" where
  "slab_building L m r M marks x =
     (case x of (s, c, h) \<Rightarrow>
        owns h (slab_blocks L c + M) \<and> slab_ready L m r (if s = VV_OK then marks else (L, L, L, L, L)) c)"

lemma alloc_slot_owns:
  assumes "owns h M" and "alloc_slot on_cpu bytes h = (s, q, h')"
  shows "owns h' (case q of None \<Rightarrow> M | Some a \<Rightarrow> add_mset (if on_cpu then Host else Dev, a) M) \<and>
    (s = VV_OK) = (q \<noteq> None)"
proof (cases on_cpu)
  case True
  obtain q0 h0 where va: "vv_alloc bytes h = (q0, h0)" by fastforce
  from True va assms vv_alloc_owns [OF assms(1) va] show ?thesis
    by (cases q0) (auto simp: alloc_slot_def)
next
  case False
  with assms vv_dev_alloc_owns [OF assms(1)] show ?thesis by (simp add: alloc_slot_def)
qed

lemma cache_alloc_into_building:
  assumes x: "slab_building L m r M marks x" and ms: "marks = (a, b, c, d, e)"
    and le: "a \<le> L" "b \<le> L" "c \<le> L" "d \<le> L" "e \<le> L"
    and blocks: "\<And>y z. slab_ready L m r marks y \<Longrightarrow>
      slab_blocks L (fld (set_ptr l z) y) = add_mset (cache_mem y, z) (slab_blocks L y)"
    and ready: "\<And>y z. slab_ready L m r marks y \<Longrightarrow> slab_ready L m r marks' (fld (set_ptr l z) y)"
  shows "slab_building L m r M marks' (cache_alloc_into fld l bytes x)"
proof -
  obtain s y h where xx: "x = (s, y, h)" by (cases x)
  obtain s' q h' where va: "alloc_slot (c_on_cpu y) bytes h = (s', q, h')"
    by (cases "alloc_slot (c_on_cpu y) bytes h")
  show ?thesis
  proof (cases "s = VV_OK")
    case True
    with x xx have own: "owns h (slab_blocks L y + M)" and rdy: "slab_ready L m r marks y"
      by (simp_all add: slab_building_def)
    note al = alloc_slot_owns [OF own va]
    have full: "slab_ready L m r (L, L, L, L, L) y"
      using rdy le unfolding ms by (rule slab_ready_weaken)
    show ?thesis
      using True xx va al full blocks [OF rdy] ready [OF rdy]
      by (cases q) (auto simp: cache_alloc_into_def slab_building_def cache_mem_def)
  next
    case False
    with x xx show ?thesis by (simp add: cache_alloc_into_def slab_building_def)
  qed
qed


lemma slab_building_k_ref:
  "slab_building L m r M marks x \<Longrightarrow> c_k_ref (fst (snd x)) \<noteq> None \<longleftrightarrow> r"
  by (cases x; cases marks) (auto simp: slab_building_def slab_ready_def arr_ready_def split: if_splits)

lemma cache_alloc_layer_building:
  assumes "slab_building L m r M (l, l, l, l, l) x" and l: "l < L"
  shows "slab_building L m r M (Suc l, Suc l, Suc l, Suc l, Suc l) (cache_alloc_layer m sb mb rb l x)"
proof -
  let ?x1 = "cache_alloc_into c_k_cache_update l sb x"
  let ?x2 = "cache_alloc_into c_v_cache_update l sb ?x1"
  let ?x3 = "cache_alloc_into c_k_meta_update l mb ?x2"
  let ?x4 = "cache_alloc_into c_v_meta_update l mb ?x3"
  let ?y = "if m then ?x4 else ?x2"
  note simps = slab_ready_def slab_blocks_def cache_mem_def arr_ready_blocks arr_ready_set arr_ready_Suc
  have 1: "slab_building L m r M (Suc l, l, l, l, l) ?x1"
    by (rule cache_alloc_into_building [OF assms(1) refl]) (use l in \<open>auto simp: simps\<close>)
  have 2: "slab_building L m r M (Suc l, Suc l, l, l, l) ?x2"
    by (rule cache_alloc_into_building [OF 1 refl]) (use l in \<open>auto simp: simps\<close>)
  have y: "slab_building L m r M (Suc l, Suc l, Suc l, Suc l, l) ?y"
  proof (cases m)
    case True
    have 3: "slab_building L m r M (Suc l, Suc l, Suc l, l, l) ?x3"
      by (rule cache_alloc_into_building [OF 2 refl]) (use l True in \<open>auto simp: simps\<close>)
    have "slab_building L m r M (Suc l, Suc l, Suc l, Suc l, l) ?x4"
      by (rule cache_alloc_into_building [OF 3 refl]) (use l True in \<open>auto simp: simps\<close>)
    with True show ?thesis by simp
  next
    case False
    with 2 show ?thesis
      by (auto simp: slab_building_def slab_ready_def split: if_splits)
  qed
  show ?thesis
  proof (cases r)
    case True
    have "slab_building L m r M (Suc l, Suc l, Suc l, Suc l, Suc l) (cache_alloc_into c_k_ref_update l rb ?y)"
      by (rule cache_alloc_into_building [OF y refl]) (use l True in \<open>auto simp: simps\<close>)
    with True slab_building_k_ref [OF y] show ?thesis by (simp add: cache_alloc_layer_def Let_def)
  next
    case False
    with y slab_building_k_ref [OF y] show ?thesis
      by (auto simp: cache_alloc_layer_def Let_def slab_building_def slab_ready_def split: if_splits)
  qed
qed

lemma cache_alloc_layers_building:
  "slab_building L m r M (a, a, a, a, a) x \<Longrightarrow> a \<le> b \<Longrightarrow> b \<le> L \<Longrightarrow>
   slab_building L m r M (b, b, b, b, b) (fold (cache_alloc_layer m sb mb rb) [a..<b] x)"
proof (induction "b - a" arbitrary: a x)
  case 0
  then show ?case by simp
next
  case (Suc n)
  then have "a < b" by simp
  then have "[a..<b] = a # [Suc a..<b]" by (rule upt_conv_Cons)
  moreover have "slab_building L m r M (Suc a, Suc a, Suc a, Suc a, Suc a) (cache_alloc_layer m sb mb rb a x)"
    using Suc.prems \<open>a < b\<close> by (intro cache_alloc_layer_building) auto
  ultimately show ?case using Suc.hyps(1) [of "Suc a"] Suc.hyps(2) Suc.prems \<open>a < b\<close> by simp
qed

text \<open>Allocation leaves the device lengths of a fresh cache alone.\<close>

definition dlens :: "vv_status \<times> kv_cache \<times> heap \<Rightarrow> nat option \<times> nat option" where
  "dlens x = (c_d_len (fst (snd x)), c_d_len_next (fst (snd x)))"

lemma cache_alloc_into_dlens:
  "(\<And>f c. c_d_len (fld f c) = c_d_len c \<and> c_d_len_next (fld f c) = c_d_len_next c) \<Longrightarrow>
   dlens (cache_alloc_into fld l b x) = dlens x"
  by (cases x) (auto simp: cache_alloc_into_def dlens_def split: prod.split option.split)

lemma cache_alloc_layer_dlens [simp]: "dlens (cache_alloc_layer m sb mb rb l x) = dlens x"
  by (simp add: cache_alloc_layer_def Let_def cache_alloc_into_dlens)

lemma cache_alloc_layers_dlens: "dlens (fold (cache_alloc_layer m sb mb rb) ls x) = dlens x"
  by (induction ls arbitrary: x) simp_all

lemma alloc_dlens_owns:
  assumes own: "owns h (slab_blocks L c + M)" and cl: "slab_clean L c"
    and none: "c_d_len c = None" "c_d_len_next c = None" and al: "alloc_dlens c h = (s, c', h')"
  shows "owns h' (slab_blocks L c' + M) \<and> slab_clean L c'"
proof -
  obtain s1 a1 h1 where v1: "vv_dev_alloc 4 h = (s1, a1, h1)" by (cases "vv_dev_alloc 4 h")
  obtain s2 a2 h2 where v2: "vv_dev_alloc 4 h1 = (s2, a2, h2)" by (cases "vv_dev_alloc 4 h1")
  note o1 = vv_dev_alloc_owns [OF own v1]
  note o2 = vv_dev_alloc_owns [OF o1 [THEN conjunct1] v2]
  show ?thesis
    using al v1 v2 o1 o2 none cl
    by (cases a1; cases a2)
      (auto simp: alloc_dlens_def slab_blocks_def slab_clean_def cache_mem_def opt_block_def add_mset_commute
        split: if_splits)
qed

lemma slab_fill_owns:
  assumes ready: "slab_ready L (vv_kv_has_meta (c_format c)) r (nat first, nat first, nat first, nat first, nat first) c"
    and own: "owns h (slab_blocks L c + M)" and none: "c_d_len c = None" "c_d_len_next c = None"
    and rng: "0 \<le> first" "0 < cnt" "nat (first + cnt) \<le> L"
    and fill: "slab_fill first cnt sb mb c p h = (s, q, p', h')"
  shows "p' = p \<and> (case q of
           None \<Rightarrow> s \<noteq> VV_OK \<and> owns h' M
         | Some c' \<Rightarrow> s = VV_OK \<and> owns h' (slab_blocks L c' + M) \<and> slab_clean L c')"
proof -
  let ?m = "vv_kv_has_meta (c_format c)" and ?l = "nat first" and ?u = "nat (first + cnt)"
  let ?rb = "of_int (c_n_kv_heads c) * of_int (c_head_dim c) * 2 :: u64"
  obtain s2 c2 h2 where fo: "fold (cache_alloc_layer ?m sb mb ?rb) [?l..<?u] (VV_OK, c, h) = (s2, c2, h2)"
    by (cases "fold (cache_alloc_layer ?m sb mb ?rb) [?l..<?u] (VV_OK, c, h)")
  have b: "slab_building L ?m r M (?l, ?l, ?l, ?l, ?l) (VV_OK, c, h)"
    using ready own by (simp add: slab_building_def)
  from cache_alloc_layers_building [OF b _ rng(3), of sb mb ?rb]
  have own2: "owns h2 (slab_blocks L c2 + M)" and cl: "slab_clean L c2"
    using rng fo by (auto simp: slab_building_def nat_mono dest: slab_ready_clean)
  have none2: "c_d_len c2 = None" "c_d_len_next c2 = None"
    using cache_alloc_layers_dlens [of ?m sb mb ?rb "[?l..<?u]" "(VV_OK, c, h)"] fo none
    by (simp_all add: dlens_def)
  obtain s3 c3 h3 where al: "(if c_on_cpu c2 then (VV_OK, c2, h2) else alloc_dlens c2 h2) = (s3, c3, h3)"
    by (cases "if c_on_cpu c2 then (VV_OK, c2, h2) else alloc_dlens c2 h2")
  have 3: "owns h3 (slab_blocks L c3 + M)" "slab_clean L c3"
    using al own2 cl alloc_dlens_owns [OF own2 cl none2] by (auto split: if_splits)
  show ?thesis
    using fill fo al 3 slab_free_owns [OF cl own2, of p] slab_free_owns [OF 3(2,1), of p]
    by (auto simp: slab_fill_def Let_def cache_fail_def slab_blocks_def slab_clean_def cache_mem_def
        split: if_splits prod.splits)
qed

text \<open>
  Each stage of the array allocation keeps the ownership account, when the host does not run out
  of memory: what the stage added is in the cache, cleared.
\<close>

definition slab_stage ::
  "nat \<Rightarrow> bool \<Rightarrow> bool \<Rightarrow> block multiset \<Rightarrow> nat \<Rightarrow> kv_cache \<Rightarrow> heap \<Rightarrow> bool" where
  "slab_stage L m r M l c h \<longleftrightarrow>
     owns h (slab_blocks L c + M) \<and> slab_ready L m r (l, l, l, l, l) c \<and> host_never_fails h \<and>
     0 < c_num_layers c \<and> c_num_layers c < 2 ^ 31 \<and> c_d_len c = None \<and> c_d_len_next c = None"

lemma slab_stores_stage:
  assumes own: "owns h ({#(Host, c_self c)#} + M)" and host: "host_never_fails h"
    and L: "0 < c_num_layers c" "c_num_layers c < 2 ^ 31"
    and c: "c = (empty_cache (c_self c))\<lparr>c_num_layers := c_num_layers c, c_first_layer := c_first_layer c,
        c_last_layer := c_last_layer c, c_n_kv_heads := c_n_kv_heads c, c_head_dim := c_head_dim c,
        c_max_seq_len := c_max_seq_len c, c_format := c_format c, c_bytes_per_vec := c_bytes_per_vec c,
        c_on_cpu := c_on_cpu c, c_attn_backend := c_attn_backend c\<rparr>"
    and st: "slab_stores c h = (ok, c', h')"
  shows "ok \<and> slab_stage (nat (c_num_layers c)) False False M l c' h' \<and>
    (\<exists>k v. c' = c\<lparr>c_k_cache := k, c_v_cache := v\<rparr>)"
proof -
  obtain k h1 where a1: "alloc_ptrs (c_num_layers c) h = (k, h1)" by fastforce
  obtain v h2 where a2: "alloc_ptrs (c_num_layers c) h1 = (v, h2)" by fastforce
  note r1 = alloc_ptrs_result [OF own a1 host L [simplified]]
  have host1: "host_never_fails h1" using r1 by blast
  note r2 = alloc_ptrs_result [OF r1 [THEN conjunct1] a2 host1 L [simplified]]
  have nones: "c_k_meta c = None" "c_v_meta c = None" "c_k_ref c = None" "c_ref_ready_ptr c = None"
    "c_d_len c = None" "c_d_len_next c = None" "\<not> c_pool c"
    by (subst c, simp add: empty_cache_def)+
  have c': "c' = c\<lparr>c_k_cache := clear_ptrs k, c_v_cache := clear_ptrs v\<rparr>" "h' = h2" ok
    using st a1 a2 r1 r2 by (auto simp: slab_stores_def Let_def)
  show ?thesis
    using r1 r2 L nones
    by (auto simp: c' slab_stage_def slab_blocks_def slab_ready_def opt_block_def
        arr_addr_block_def [of None] add_mset_commute ac_simps)
qed

lemma slab_refs_stage:
  assumes st: "slab_stage L m False M l c h" and rr0: "c_ref_ready_ptr c = None"
    and sr: "slab_refs c h = (ok, c', h')"
  shows "ok \<and> slab_stage L m True M l c' h' \<and>
    (\<exists>r rr rl. c' = c\<lparr>c_k_ref := r, c_ref_ready_ptr := rr, c_ref_ready := rl\<rparr>)"
proof -
  have own: "owns h (slab_blocks L c + M)" and host: "host_never_fails h"
    and L: "0 < c_num_layers c" "c_num_layers c < 2 ^ 31" "nat (c_num_layers c) = L"
    and kr: "c_k_ref c = None"
    using st by (simp_all add: slab_stage_def slab_ready_def)
  obtain r h1 where a1: "alloc_ptrs (c_num_layers c) h = (r, h1)" by fastforce
  obtain rr h2 where a2: "vv_alloc (of_int (c_num_layers c)) h1 = (rr, h2)" by fastforce
  note r1 = alloc_ptrs_result [OF own a1 host L(1,2) [simplified]]
  have host1: "host_never_fails h1" using r1 by blast
  have "of_int (c_num_layers c) \<noteq> (0 :: u64)" using word_times_neq_0 [of "c_num_layers c" 1] L by simp
  from vv_alloc_never_fails [OF host1 this a2] have n2: "rr \<noteq> None" "host_never_fails h2" by auto
  have o2: "owns h2 (opt_block Host rr + (arr_addr_block r + (slab_blocks L c + M)))"
    using vv_alloc_owns [OF r1 [THEN conjunct1] a2] n2 by (auto simp: opt_block_def)
  have c': "c' = c\<lparr>c_k_ref := clear_ptrs r, c_ref_ready_ptr := rr,
      c_ref_ready := replicate (nat (c_num_layers c)) False\<rparr>" "h' = h2" ok
    using sr a1 a2 r1 n2 by (auto simp: slab_refs_def Let_def)
  show ?thesis
    using o2 r1 n2 st kr rr0 L
    by (auto simp: c' slab_stage_def slab_blocks_def slab_ready_def cache_mem_def opt_block_def [of _ None]
        arr_addr_block_def [of None] ac_simps)
qed

lemma slab_metas_stage:
  assumes st: "slab_stage L False r M l c h" and sr: "slab_metas c h = (ok, c', h')"
  shows "ok \<and> slab_stage L True r M l c' h' \<and> (\<exists>k v. c' = c\<lparr>c_k_meta := k, c_v_meta := v\<rparr>)"
proof -
  have own: "owns h (slab_blocks L c + M)" and host: "host_never_fails h"
    and L: "0 < c_num_layers c" "c_num_layers c < 2 ^ 31" "nat (c_num_layers c) = L"
    and kr: "c_k_meta c = None" "c_v_meta c = None"
    using st by (simp_all add: slab_stage_def slab_ready_def)
  obtain k h1 where a1: "alloc_ptrs (c_num_layers c) h = (k, h1)" by fastforce
  obtain v h2 where a2: "alloc_ptrs (c_num_layers c) h1 = (v, h2)" by fastforce
  note r1 = alloc_ptrs_result [OF own a1 host L(1,2) [simplified]]
  have host1: "host_never_fails h1" using r1 by blast
  note r2 = alloc_ptrs_result [OF r1 [THEN conjunct1] a2 host1 L(1,2) [simplified]]
  have c': "c' = c\<lparr>c_k_meta := clear_ptrs k, c_v_meta := clear_ptrs v\<rparr>" "h' = h2" ok
    using sr a1 a2 r1 r2 by (auto simp: slab_metas_def Let_def)
  show ?thesis
    using r1 r2 st kr L
    by (auto simp: c' slab_stage_def slab_blocks_def slab_ready_def cache_mem_def
        arr_addr_block_def [of None] ac_simps)
qed

lemma slab_arrays_stage:
  assumes "owns h ({#(Host, c_self c)#} + M)" and "host_never_fails h"
    and "0 < c_num_layers c" "c_num_layers c < 2 ^ 31"
    and c: "c = (empty_cache (c_self c))\<lparr>c_num_layers := c_num_layers c, c_first_layer := c_first_layer c,
        c_last_layer := c_last_layer c, c_n_kv_heads := c_n_kv_heads c, c_head_dim := c_head_dim c,
        c_max_seq_len := c_max_seq_len c, c_format := c_format c, c_bytes_per_vec := c_bytes_per_vec c,
        c_on_cpu := c_on_cpu c, c_attn_backend := c_attn_backend c\<rparr>"
    and sa: "slab_arrays c h = (ok, c', h')"
  shows "ok \<and> slab_stage (nat (c_num_layers c)) (vv_kv_has_meta (c_format c)) (\<not> vv_kv_is_raw (c_format c)) M l c' h' \<and>
    c_format c' = c_format c"
proof -
  obtain ok1 c1 h1 where s1: "slab_stores c h = (ok1, c1, h1)" by (cases "slab_stores c h")
  note st1 = slab_stores_stage [OF assms(1-5) s1, of l]
  have rr: "c_ref_ready_ptr c = None" by (subst c, simp add: empty_cache_def)
  obtain ok2 c2 h2 where s2: "(if vv_kv_is_raw (c_format c1) then (True, c1, h1) else slab_refs c1 h1) = (ok2, c2, h2)"
    by (cases "if vv_kv_is_raw (c_format c1) then (True, c1, h1) else slab_refs c1 h1")
  have f1: "c_format c1 = c_format c" "c_ref_ready_ptr c1 = None" using st1 rr by auto
  have st2: "ok2 \<and> slab_stage (nat (c_num_layers c)) False (\<not> vv_kv_is_raw (c_format c)) M l c2 h2 \<and>
      c_format c2 = c_format c"
  proof (cases "vv_kv_is_raw (c_format c)")
    case True
    with s2 st1 f1 show ?thesis by auto
  next
    case False
    with s2 f1 have sr: "slab_refs c1 h1 = (ok2, c2, h2)" by simp
    have "slab_stage (nat (c_num_layers c)) False False M l c1 h1" using st1 by blast
    from slab_refs_stage [OF this f1(2) sr] f1 False show ?thesis by auto
  qed
  show ?thesis
    using sa s1 s2 st1 st2 slab_metas_stage [OF st2 [THEN conjunct2, THEN conjunct1], of ok c' h']
    by (cases "vv_kv_has_meta (c_format c)") (auto simp: slab_arrays_def Let_def)
qed

text \<open>
  C24. Creating a slab is all or nothing. Whatever device allocation fails, at whatever layer,
  \<^verbatim>\<open>vv_kv_cache_create_range\<close> either returns a cache and the heap has grown by exactly the blocks
  that cache points to, or returns an error and the live blocks are those it started with; on
  the way nothing is freed twice, freed by the wrong allocator or followed uninitialised. And a
  cache it returned is given back completely by \<^verbatim>\<open>vv_kv_cache_free\<close>. (The host's \<^verbatim>\<open>malloc\<close> is
  assumed to succeed: the next property shows why.)
\<close>

theorem slab_create_no_leak:
  assumes own: "owns h M" and host: "host_never_fails h" and L: "num_layers < 2 ^ 31"
    and cr: "vv_kv_cache_create_range num_layers first cnt n_kv_heads head_dim max_seq_len fmt on_cpu p h = (s, r, p', h')"
  shows "p' = p \<and>
    (case r of
       None \<Rightarrow> s \<noteq> VV_OK \<and> owns h' M
     | Some c \<Rightarrow> s = VV_OK \<and> owns h' (slab_blocks (nat num_layers) c + M) \<and>
         owns (snd (vv_kv_cache_free c p h')) M)"
proof (cases "(first < 0 \<or> cnt \<le> 0 \<or> first + cnt > num_layers) \<or>
    fst (vv_alloc (h_sizeof h ''vv_kv_cache_t'') h) = None")
  case True
  obtain q h0 where "vv_alloc (h_sizeof h ''vv_kv_cache_t'') h = (q, h0)" by fastforce
  with True cr own vv_alloc_owns [OF own this] show ?thesis
    by (auto simp: vv_kv_cache_create_range_def split: if_splits)
next
  case ok: False
  obtain self h0 where a0: "vv_alloc (h_sizeof h ''vv_kv_cache_t'') h = (Some self, h0)"
    using ok by (cases "vv_alloc (h_sizeof h ''vv_kv_cache_t'') h") auto
  have host0: "host_never_fails h0"
    using host a0 by (auto simp: vv_alloc_def host_never_fails_def Let_def split: if_splits)
  define c where "c = (empty_cache self)\<lparr>c_num_layers := num_layers, c_first_layer := first,
                      c_last_layer := first + cnt - 1, c_n_kv_heads := n_kv_heads,
                      c_head_dim := head_dim, c_max_seq_len := max_seq_len, c_format := fmt,
                      c_bytes_per_vec := vv_kv_bytes_per_vec fmt head_dim, c_on_cpu := on_cpu,
                      c_attn_backend := VV_ATTN_FA1\<rparr>"
  obtain ok1 c1 h1 where sa: "slab_arrays c h0 = (ok1, c1, h1)" by (cases "slab_arrays c h0")
  have own0: "owns h0 ({#(Host, c_self c)#} + M)"
    using vv_alloc_owns [OF own a0] by (simp add: c_def empty_cache_def)
  have st: "ok1 \<and> slab_stage (nat num_layers) (vv_kv_has_meta fmt) (\<not> vv_kv_is_raw fmt) M (nat first) c1 h1 \<and>
      c_format c1 = fmt"
    using slab_arrays_stage [OF own0 host0 _ _ _ sa, of "nat first"] ok L
    by (simp add: c_def empty_cache_def)
  obtain sb mb where fi: "slab_fill first cnt sb mb c1 p h1 = (s, r, p', h')"
    using cr ok a0 st sa by (simp add: vv_kv_cache_create_range_def Let_def c_def)
  have f: "p' = p \<and> (case r of None \<Rightarrow> s \<noteq> VV_OK \<and> owns h' M
      | Some c \<Rightarrow> s = VV_OK \<and> owns h' (slab_blocks (nat num_layers) c + M) \<and> slab_clean (nat num_layers) c)"
    using st ok by (intro slab_fill_owns [OF _ _ _ _ _ _ _ fi]) (auto simp: slab_stage_def)
  then show ?thesis by (auto split: option.splits simp: slab_free_owns)
qed

text \<open>The third of four device buffers cannot be had: nothing is left behind.\<close>

theorem slab_create_no_leak_witness:
  "case vv_kv_cache_create_range 2 0 2 1 16 64 VV_KV_FP16 False demo_pool demo_heap of
     (s, r, p', h') \<Rightarrow> s = VV_ERR_CUDA \<and> r = None \<and> h_next h' = 6 \<and> owns h' {#}"
proof -
  let ?r = "vv_kv_cache_create_range 2 0 2 1 16 64 VV_KV_FP16 False demo_pool demo_heap"
  have ev: "fst ?r = VV_ERR_CUDA \<and> fst (snd ?r) = None \<and> h_next (snd (snd (snd ?r))) = 6"
    by code_simp
  obtain s r p' h' where r: "?r = (s, r, p', h')" by (cases ?r)
  show ?thesis
    using slab_create_no_leak [OF demo_heap_owns demo_heap_host _ r] ev by (simp add: r)
qed

end
