(* ===== verification/KvCacheOps.thy ===== *)
theory KvCacheOps
  imports KvCache
begin

text \<open>
  What a decoder relies on when it uses a key/value cache: pages reserved before an append are
  there when it happens, a failed reservation changes nothing, and the rows appended to a host
  cache, layer by layer and chunk by chunk, are the rows it holds afterwards. The last section
  is the failure path of the slab constructor on which it follows an uninitialised pointer.
\<close>

subsection \<open>Reserving and then appending\<close>

definition paged_wf :: "kv_pool \<Rightarrow> kv_cache \<Rightarrow> bool" where
  "paged_wf p c \<longleftrightarrow>
     c_pool c \<and> c_max_pages c = (c_max_seq_len c + VV_KV_PAGE_SIZE - 1) sdiv VV_KV_PAGE_SIZE \<and>
     length (c_pages c) = nat (c_max_pages c) \<and> c_n_pages c \<le> length (c_pages c) \<and>
     p_n_free p \<le> length (p_free_stack p)"

lemma page_ceil: "0 \<le> n \<Longrightarrow> (n + 64 - 1) sdiv 64 = (n + 63) div (64 :: int)"
  by (simp add: sdiv_nonneg)

lemma sdiv_64_mono: "a \<le> b \<Longrightarrow> (a :: int) sdiv 64 \<le> b sdiv 64"
proof -
  assume ab: "a \<le> b"
  consider "0 \<le> a" | "a < 0" "0 \<le> b" | "b < 0" using ab by linarith
  then show ?thesis
  proof cases
    case 1
    with ab show ?thesis by (simp add: sdiv_nonneg zdiv_mono1)
  next
    case 2
    then have "0 \<le> - a div 64" "0 \<le> b div 64" by (simp_all add: pos_imp_zdiv_nonneg_iff)
    with 2 show ?thesis by (simp add: signed_divide_int_def sgn_if)
  next
    case 3
    with ab show ?thesis by (simp add: signed_divide_int_def sgn_if zdiv_mono1)
  qed
qed

lemma page_ceil_covers: "(n + 64 - 1) sdiv 64 \<le> int k \<Longrightarrow> n \<le> int k * (64 :: int)"
proof (cases "0 \<le> n")
  case True
  assume "(n + 64 - 1) sdiv 64 \<le> int k"
  with page_ceil [OF True] show ?thesis by simp
next
  case False
  then show ?thesis by simp
qed

lemma reserve_enter_Inr:
  assumes "reserve_enter (Some c) n = Inr (want, need)" and "paged_wf p c"
  shows "need = want - c_n_pages c" and "c_n_pages c < want" and "want \<le> length (c_pages c)"
    and "n \<le> int want * 64"
proof -
  let ?w = "(n + 64 - 1) sdiv (64 :: int)"
  have w: "want = nat ?w" "need = nat ?w - c_n_pages c" "int (c_n_pages c) < ?w" "n \<le> c_max_seq_len c"
    using assms(1) by (auto simp: reserve_enter_def Let_def split: if_splits)
  have "?w \<le> (c_max_seq_len c + 64 - 1) sdiv 64" using w(4) by (intro sdiv_64_mono) simp
  then show "want \<le> length (c_pages c)" using assms(2) w(1) by (simp add: paged_wf_def)
  show "need = want - c_n_pages c" "c_n_pages c < want" using w by auto
  show "n \<le> int want * 64" by (rule page_ceil_covers) (use w in simp)
qed

lemma reserve_covers:
  assumes wf: "paged_wf p c" and r: "vv_kv_cache_reserve p c n page_map = (VV_OK, p', c')"
  shows "n \<le> int (c_n_pages c') * 64"
proof (cases "reserve_enter (Some c) n")
  case (Inl s0)
  then have "s0 = VV_OK" "c' = c" using r by (simp_all add: vv_kv_cache_reserve_def)
  with Inl wf show ?thesis
    by (intro page_ceil_covers) (auto simp: reserve_enter_def paged_wf_def Let_def split: if_splits)
next
  case (Inr wn)
  obtain want need where wn: "wn = (want, need)" by (cases wn)
  have "c_n_pages c' = want"
    using r Inr wn by (auto simp: vv_kv_cache_reserve_def reserve_map_def Let_def
        split: if_splits iter.splits prod.splits)
  with reserve_enter_Inr(4) [OF Inr [unfolded wn] wf] show ?thesis by simp
qed



text \<open>
  A reservation is what the append needs: once \<^verbatim>\<open>vv_kv_cache_reserve\<close> has said \<open>VV_OK\<close> for the
  positions an append would reach, appending to any layer is never refused for want of pages or
  of room in the window, whatever the device kernels answer to a store.
\<close>

theorem reserved_append_not_refused:
  assumes wf: "paged_wf p c" and r: "vv_kv_cache_reserve p c (c_current_len c + seq_len) page_map = (VV_OK, p', c')"
    and layer: "0 \<le> layer" "layer < c_num_layers c"
    and dev: "\<And>l kb vb b st. fst (dev_store_paged dev c' l kb vb seq_len b st) \<notin> {VV_ERR_KV_POOL_EXHAUSTED, VV_ERR_OVERFLOW}"
  shows "fst (vv_kv_cache_append dev (Some c') layer (Some k) (Some v) seq_len use_device_pos st)
    \<notin> {VV_ERR_KV_POOL_EXHAUSTED, VV_ERR_OVERFLOW}"
proof -
  have same: "c_current_len c' = c_current_len c" "c_max_seq_len c' = c_max_seq_len c" "c_pool c'"
      "c_num_layers c' = c_num_layers c" "c_current_len c + seq_len \<le> c_max_seq_len c"
    using r wf by (auto simp: vv_kv_cache_reserve_def reserve_enter_def reserve_iter_def reserve_take_def
        reserve_map_def paged_wf_def Let_def split: if_splits sum.splits prod.splits)
  have "c_current_len c + seq_len \<le> int (c_n_pages c') * 64"
    using reserve_covers [OF wf r] by simp
  with same layer dev [of "nat layer" k v "build_ref c' (nat layer)" st] show ?thesis
    by (auto simp: vv_kv_cache_append_def append_store_def Let_def split: prod.splits)
qed

definition demo_dev :: kv_dev where
  "demo_dev = \<lparr>dev_store_paged = (\<lambda>_ _ _ _ _ _ st. (VV_OK, st)), dev_store_quant = (\<lambda>_ _ _ _ _ _ st. (VV_OK, st)),
     dev_copy = (\<lambda>_ _ _ _ st. (VV_OK, st))\<rparr>"

theorem reserved_append_not_refused_witness:
  "fst (vv_kv_cache_append demo_dev (Some (snd (snd (vv_kv_cache_reserve demo_pool demo_cache 65 VV_OK)))) 0
     (Some []) (Some []) 65 False (\<lambda>_. [])) \<notin> {VV_ERR_KV_POOL_EXHAUSTED, VV_ERR_OVERFLOW}"
proof -
  have wf: "paged_wf demo_pool demo_cache"
    by (simp add: paged_wf_def signed_divide_int_def)
  obtain p' c' where r: "vv_kv_cache_reserve demo_pool demo_cache (c_current_len demo_cache + 65) VV_OK = (VV_OK, p', c')"
    by (auto simp: demo_cache_def vv_kv_cache_reserve_def reserve_enter_def signed_divide_int_def reserve_iter_def
        reserve_take_def reserve_map_def numeral_2_eq_2)
  have "fst (vv_kv_cache_append demo_dev (Some c') 0 (Some []) (Some []) 65 False (\<lambda>_. []))
      \<notin> {VV_ERR_KV_POOL_EXHAUSTED, VV_ERR_OVERFLOW}"
    by (rule reserved_append_not_refused [OF wf r]) (simp_all add: demo_dev_def demo_cache_def)
  moreover have "c_current_len demo_cache = 0" by (simp add: demo_cache_def)
  ultimately show ?thesis using r by simp
qed

subsection \<open>Appending to a host slab\<close>

text \<open>
  A raw host slab whose layers' buffers are distinct blocks, each of the size \<^verbatim>\<open>store_bytes\<close>
  gave it.
\<close>

definition row_bytes :: "kv_cache \<Rightarrow> nat" where
  "row_bytes c = nat (c_n_kv_heads c) * nat (c_bytes_per_vec c)"

definition slab_layers :: "kv_cache \<Rightarrow> nat list" where
  "slab_layers c = [nat (c_first_layer c)..<Suc (nat (c_last_layer c))]"

definition slab_addrs :: "kv_cache \<Rightarrow> nat list" where
  "slab_addrs c = map (layer_ptr (c_k_cache c)) (slab_layers c)
     @ map (layer_ptr (c_v_cache c)) (slab_layers c)"

definition host_slab :: "kv_cache \<Rightarrow> stores \<Rightarrow> bool" where
  "host_slab c st \<longleftrightarrow>
     \<not> c_pool c \<and> c_on_cpu c \<and> vv_kv_is_raw (c_format c) \<and>
     0 \<le> c_first_layer c \<and> c_first_layer c \<le> c_last_layer c \<and> c_last_layer c < c_num_layers c \<and>
     0 \<le> c_current_len c \<and> c_current_len c \<le> c_max_seq_len c \<and> distinct (slab_addrs c) \<and>
     (\<forall>a \<in> set (slab_addrs c). length (st a) = nat (c_max_seq_len c) * row_bytes c)"

text \<open>What a layer holds: the rows of the positions so far.\<close>

definition held_k :: "kv_cache \<Rightarrow> stores \<Rightarrow> nat \<Rightarrow> bytes" where
  "held_k c st l = take (nat (c_current_len c) * row_bytes c) (st (layer_ptr (c_k_cache c) l))"

definition held_v :: "kv_cache \<Rightarrow> stores \<Rightarrow> nat \<Rightarrow> bytes" where
  "held_v c st l = take (nat (c_current_len c) * row_bytes c) (st (layer_ptr (c_v_cache c) l))"

text \<open>One forward pass: every layer in turn, as the decoder calls it; the first error stops it.\<close>

fun append_pass ::
  "kv_dev \<Rightarrow> (nat \<Rightarrow> bytes) \<Rightarrow> (nat \<Rightarrow> bytes) \<Rightarrow> int \<Rightarrow> nat list \<Rightarrow> kv_cache option \<Rightarrow> stores \<Rightarrow>
   vv_status \<times> kv_cache option \<times> stores" where
  "append_pass dev k v n [] c st = (VV_OK, c, st)"
| "append_pass dev k v n (l # ls) c st =
     (case vv_kv_cache_append dev c (int l) (Some (k l)) (Some (v l)) n False st of
        (s, c, st) \<Rightarrow> if s \<noteq> VV_OK then (s, c, st) else append_pass dev k v n ls c st)"

text \<open>What the passes over the layers \<open>ls\<close> do to the stores.\<close>

definition put_rows :: "kv_cache \<Rightarrow> nat \<Rightarrow> bytes \<Rightarrow> bytes \<Rightarrow> nat \<Rightarrow> stores \<Rightarrow> stores" where
  "put_rows c n k v l st =
     memcpy_to (layer_ptr (c_v_cache c) l) (nat (c_current_len c) * row_bytes c) v (n * row_bytes c)
      (memcpy_to (layer_ptr (c_k_cache c) l) (nat (c_current_len c) * row_bytes c) k (n * row_bytes c) st)"

lemma append_host_layer:
  assumes "host_slab c st'" "nat (c_first_layer c) \<le> l" "l \<le> nat (c_last_layer c)"
    and "0 \<le> n" "c_current_len c + n \<le> c_max_seq_len c"
  shows "vv_kv_cache_append dev (Some c) (int l) (Some k) (Some v) n False st =
    (VV_OK, Some (if int l = c_last_layer c then c\<lparr>c_current_len := c_current_len c + n\<rparr> else c),
     put_rows c (nat n) k v l st)"
  using assms by (auto simp: vv_kv_cache_append_def append_store_def host_slab_def put_rows_def row_bytes_def Let_def)

lemma append_pass_inner:
  assumes "host_slab c st'" "0 \<le> n" "c_current_len c + n \<le> c_max_seq_len c"
    and "\<forall>l \<in> set ls. nat (c_first_layer c) \<le> l \<and> int l < c_last_layer c"
  shows "append_pass dev k v n ls (Some c) st =
    (VV_OK, Some c, fold (\<lambda>l. put_rows c (nat n) (k l) (v l) l) ls st)"
  using assms(4)
proof (induction ls arbitrary: st)
  case Nil
  then show ?case by simp
next
  case (Cons l ls)
  then have "nat (c_first_layer c) \<le> l" "l \<le> nat (c_last_layer c)" "int l \<noteq> c_last_layer c" by auto
  with append_host_layer [OF assms(1) this(1,2) assms(2,3)] Cons show ?case by simp
qed

lemma append_pass_append:
  "append_pass dev k v n (ls @ ls') c st =
     (case append_pass dev k v n ls c st of
        (s, c, st) \<Rightarrow> if s \<noteq> VV_OK then (s, c, st) else append_pass dev k v n ls' c st)"
  by (induction ls arbitrary: c st) (auto split: prod.splits)

lemma append_pass_host:
  assumes hs: "host_slab c st" and n: "0 \<le> n" "c_current_len c + n \<le> c_max_seq_len c"
  shows "append_pass dev k v n (slab_layers c) (Some c) st =
    (VV_OK, Some (c\<lparr>c_current_len := c_current_len c + n\<rparr>),
     fold (\<lambda>l. put_rows c (nat n) (k l) (v l) l) (slab_layers c) st)"
proof -
  have fl: "nat (c_first_layer c) \<le> nat (c_last_layer c)" "int (nat (c_last_layer c)) = c_last_layer c"
    using hs by (auto simp: host_slab_def)
  let ?ls = "[nat (c_first_layer c)..<nat (c_last_layer c)]"
  have "append_pass dev k v n ?ls (Some c) st =
      (VV_OK, Some c, fold (\<lambda>l. put_rows c (nat n) (k l) (v l) l) ?ls st)"
    by (rule append_pass_inner [OF hs n]) auto
  with append_host_layer [OF hs fl(1) order_refl n] fl show ?thesis
    by (simp add: append_pass_append slab_layers_def)
qed

lemma put_rows_at:
  "layer_ptr (c_k_cache c) l \<noteq> layer_ptr (c_v_cache c) l \<Longrightarrow>
   put_rows c n k v l st (layer_ptr (c_k_cache c) l) =
     memcpy_to (layer_ptr (c_k_cache c) l) (nat (c_current_len c) * row_bytes c) k (n * row_bytes c) st (layer_ptr (c_k_cache c) l)"
  "layer_ptr (c_k_cache c) l \<noteq> layer_ptr (c_v_cache c) l \<Longrightarrow>
   put_rows c n k v l st (layer_ptr (c_v_cache c) l) =
     memcpy_to (layer_ptr (c_v_cache c) l) (nat (c_current_len c) * row_bytes c) v (n * row_bytes c) st (layer_ptr (c_v_cache c) l)"
  "a \<noteq> layer_ptr (c_k_cache c) l \<Longrightarrow> a \<noteq> layer_ptr (c_v_cache c) l \<Longrightarrow> put_rows c n k v l st a = st a"
  by (simp_all add: put_rows_def memcpy_to_def)

lemma memcpy_to_at: "memcpy_to a off d n st a = take off (st a) @ take n d @ drop (off + n) (st a)"
  by (simp add: memcpy_to_def)

lemma fold_put_rows_other:
  "a \<notin> layer_ptr (c_k_cache c) ` set ls \<Longrightarrow> a \<notin> layer_ptr (c_v_cache c) ` set ls \<Longrightarrow>
   fold (\<lambda>l. put_rows c n (k l) (v l) l) ls st a = st a"
  by (induction ls arbitrary: st) (simp_all add: put_rows_at)

lemma fold_put_rows:
  assumes "distinct (map (layer_ptr (c_k_cache c)) ls @ map (layer_ptr (c_v_cache c)) ls)" and "l \<in> set ls"
  shows "fold (\<lambda>l. put_rows c n (k l) (v l) l) ls st (layer_ptr (c_k_cache c) l) =
      memcpy_to (layer_ptr (c_k_cache c) l) (nat (c_current_len c) * row_bytes c) (k l) (n * row_bytes c) st (layer_ptr (c_k_cache c) l)
    \<and> fold (\<lambda>l. put_rows c n (k l) (v l) l) ls st (layer_ptr (c_v_cache c) l) =
      memcpy_to (layer_ptr (c_v_cache c) l) (nat (c_current_len c) * row_bytes c) (v l) (n * row_bytes c) st (layer_ptr (c_v_cache c) l)"
  using assms
proof (induction ls arbitrary: st)
  case Nil
  then show ?case by simp
next
  case (Cons l0 ls)
  show ?case
  proof (cases "l = l0")
    case True
    with Cons.prems show ?thesis by (simp add: fold_put_rows_other put_rows_at)
  next
    case False
    with Cons.prems have l: "l \<in> set ls" by simp
    let ?st = "put_rows c n (k l0) (v l0) l0 st"
    have m: "layer_ptr (c_k_cache c) l \<in> layer_ptr (c_k_cache c) ` set ls"
      "layer_ptr (c_v_cache c) l \<in> layer_ptr (c_v_cache c) ` set ls" using l by (rule imageI)+
    have "layer_ptr (c_k_cache c) l0 \<notin> layer_ptr (c_k_cache c) ` set ls"
      "layer_ptr (c_v_cache c) l0 \<notin> layer_ptr (c_k_cache c) ` set ls"
      "layer_ptr (c_k_cache c) l0 \<notin> layer_ptr (c_v_cache c) ` set ls"
      "layer_ptr (c_v_cache c) l0 \<notin> layer_ptr (c_v_cache c) ` set ls"
      using Cons.prems(1) by simp_all
    with m have "?st (layer_ptr (c_k_cache c) l) = st (layer_ptr (c_k_cache c) l)"
      "?st (layer_ptr (c_v_cache c) l) = st (layer_ptr (c_v_cache c) l)"
      by (metis put_rows_at(3))+
    moreover have "distinct (map (layer_ptr (c_k_cache c)) ls @ map (layer_ptr (c_v_cache c)) ls)"
      using Cons.prems(1) by simp
    note Cons.IH [OF this l, of ?st]
    ultimately show ?thesis by (simp only: fold_Cons comp_apply memcpy_to_at)
  qed
qed

lemma take_memcpy_to:
  "off + n \<le> length (st a) \<Longrightarrow> length d = n \<Longrightarrow>
   take (off + n) (memcpy_to a off d n st a) = take off (st a) @ d \<and> length (memcpy_to a off d n st a) = length (st a)"
  by (simp add: memcpy_to_def)

lemma rows_fit: "0 \<le> len \<Longrightarrow> 0 \<le> n \<Longrightarrow> len + n \<le> m \<Longrightarrow> nat len * r + nat n * r \<le> nat m * (r :: nat)"
  by (metis add_mult_distrib mult_le_mono1 nat_add_distrib nat_mono)

text \<open>
  The cache is the concatenation of what was appended. A forward pass over the layers of a
  raw host slab that has room succeeds; afterwards the length has grown by the chunk, and every
  layer holds the rows it held before followed by the chunk's rows, keys and values alike: no
  layer overwrites another, no append moves the position before the last layer has stored its
  rows, and no buffer is written past its end.
\<close>

theorem append_pass_concat:
  assumes hs: "host_slab c st" and n: "0 \<le> n" "c_current_len c + n \<le> c_max_seq_len c"
    and chunk: "\<And>l. length (k l) = nat n * row_bytes c" "\<And>l. length (v l) = nat n * row_bytes c"
  shows "\<exists>c' st'. append_pass dev k v n (slab_layers c) (Some c) st
      = (VV_OK, Some c', st') \<and>
    c_current_len c' = c_current_len c + n \<and> host_slab c' st' \<and>
    (\<forall>l \<in> set (slab_layers c).
       held_k c' st' l = held_k c st l @ k l \<and> held_v c' st' l = held_v c st l @ v l) \<and>
    (\<forall>a. a \<notin> set (slab_addrs c) \<longrightarrow> st' a = st a)"
proof -
  let ?ls = "slab_layers c"
  let ?c = "c\<lparr>c_current_len := c_current_len c + n\<rparr>"
  define st' where "st' = fold (\<lambda>l. put_rows c (nat n) (k l) (v l) l) ?ls st"
  let ?off = "nat (c_current_len c) * row_bytes c" and ?n = "nat n * row_bytes c"
  have d: "distinct (map (layer_ptr (c_k_cache c)) ?ls @ map (layer_ptr (c_v_cache c)) ?ls)"
    and len: "\<And>l. l \<in> set ?ls \<Longrightarrow> length (st (layer_ptr (c_k_cache c) l)) = nat (c_max_seq_len c) * row_bytes c"
      "\<And>l. l \<in> set ?ls \<Longrightarrow> length (st (layer_ptr (c_v_cache c) l)) = nat (c_max_seq_len c) * row_bytes c"
    using hs by (simp_all add: host_slab_def slab_addrs_def)
  have fit: "?off + ?n \<le> nat (c_max_seq_len c) * row_bytes c"
    using hs n by (intro rows_fit) (auto simp: host_slab_def)
  have off: "nat (c_current_len c + n) * row_bytes c = ?off + ?n"
    using hs n by (simp add: host_slab_def nat_add_distrib add_mult_distrib)
  note w = fold_put_rows [OF d, of _ "nat n" k v st, folded st'_def]
  have rows: "take (?off + ?n) (st' (layer_ptr (c_k_cache c) l)) = take ?off (st (layer_ptr (c_k_cache c) l)) @ k l \<and>
      take (?off + ?n) (st' (layer_ptr (c_v_cache c) l)) = take ?off (st (layer_ptr (c_v_cache c) l)) @ v l \<and>
      length (st' (layer_ptr (c_k_cache c) l)) = nat (c_max_seq_len c) * row_bytes c \<and>
      length (st' (layer_ptr (c_v_cache c) l)) = nat (c_max_seq_len c) * row_bytes c" if "l \<in> set ?ls" for l
    using w [OF that] take_memcpy_to [of ?off ?n st] len [OF that] fit chunk by simp
  have sa: "slab_addrs ?c = slab_addrs c" "row_bytes ?c = row_bytes c"
    by (simp_all add: slab_addrs_def row_bytes_def slab_layers_def)
  have "host_slab ?c st'"
    using hs n rows unfolding host_slab_def sa by (auto simp: slab_addrs_def)
  moreover have "\<forall>l \<in> set (slab_layers c).
       held_k ?c st' l = held_k c st l @ k l \<and> held_v ?c st' l = held_v c st l @ v l"
    using rows off sa by (simp add: held_k_def held_v_def)
  moreover have "\<forall>a. a \<notin> set (slab_addrs c) \<longrightarrow> st' a = st a"
    unfolding st'_def by (auto simp: slab_addrs_def intro!: fold_put_rows_other)
  ultimately show ?thesis
    using append_pass_host [OF hs n, of dev k v, folded st'_def] by auto
qed

definition demo_slab :: kv_cache where
  "demo_slab = demo_cache\<lparr>c_k_cache := Some (1, [Ptr 2]), c_v_cache := Some (3, [Ptr 4]), c_pool := False,
     c_on_cpu := True, c_max_seq_len := 2, c_bytes_per_vec := 1\<rparr>"

theorem append_pass_concat_witness:
  "\<exists>c' st'. append_pass demo_dev (\<lambda>_. [7]) (\<lambda>_. [9]) 1 (slab_layers demo_slab) (Some demo_slab) (\<lambda>_. [0, 0])
      = (VV_OK, Some c', st') \<and> c_current_len c' = 1 \<and> held_k c' st' 0 = [7] \<and> held_v c' st' 0 = [9]"
proof -
  have hs: "host_slab demo_slab (\<lambda>_. [0, 0])"
    by (simp add: host_slab_def demo_slab_def demo_cache_def slab_addrs_def slab_layers_def layer_ptr_def
        row_bytes_def vv_kv_is_raw_def upt_rec)
  have l0: "slab_layers demo_slab = [0]" and n0: "c_current_len demo_slab = 0"
    and m: "c_max_seq_len demo_slab = 2" and rb: "row_bytes demo_slab = 1"
    by (simp_all add: slab_layers_def demo_slab_def demo_cache_def row_bytes_def)
  have "held_k demo_slab (\<lambda>_. [0, 0]) 0 = []" "held_v demo_slab (\<lambda>_. [0, 0]) 0 = []"
    by (simp_all add: held_k_def held_v_def n0)
  with append_pass_concat [OF hs, of 1 "\<lambda>_. [7]" "\<lambda>_. [9]" demo_dev] l0 n0 m rb
  show ?thesis by fastforce
qed

subsection \<open>Running out of host memory while a slab is created\<close>

lemma h_bad_free_cell [simp]: "h_bad h \<Longrightarrow> h_bad (free_cell m arr l h)"
  by (auto simp: free_cell_def split: option.splits cell.splits mem.splits)

lemma h_bad_free_cells [simp]: "h_bad h \<Longrightarrow> h_bad (fold (free_cell m arr) ls h)"
  by (induction ls arbitrary: h) simp_all

lemma h_bad_FREE_ARRAY [simp]: "h_bad h \<Longrightarrow> h_bad (FREE_ARRAY on_cpu n arr h)"
  by (simp add: FREE_ARRAY_def)

lemma FREE_ARRAY_uninit:
  assumes "0 < n" and "arr = Some (a, replicate n Uninit)"
  shows "h_bad (FREE_ARRAY on_cpu n arr h)"
proof -
  have "[0..<n] = 0 # [1..<n]" using assms(1) by (simp add: upt_conv_Cons)
  with assms show ?thesis by (simp add: FREE_ARRAY_def free_cell_def)
qed

text \<open>
  The failure path that is not clean. If the host runs out of memory exactly when the second pointer array
  (\<^verbatim>\<open>v_cache\<close>) is allocated, \<^verbatim>\<open>vv_kv_cache_create_range\<close> reports
  \<open>VV_ERR_OUT_OF_MEMORY\<close> but has freed the pointers of the first array before they were
  cleared: the \<^verbatim>\<open>memset\<close> comes after the NULL test, and \<^verbatim>\<open>vv_alloc\<close> does not clear.
\<close>

theorem slab_create_oom_frees_garbage:
  assumes m: "\<And>n t. h_malloc h n t \<longleftrightarrow> n \<noteq> h_next h + 2"
    and args: "0 \<le> first" "0 < cnt" "first + cnt \<le> num_layers" "num_layers < 2 ^ 31"
    and sz: "h_sizeof h ''vv_kv_cache_t'' \<noteq> 0"
    and cr: "vv_kv_cache_create_range num_layers first cnt n_kv_heads head_dim max_seq_len fmt on_cpu p h = (s, r, p', h')"
  shows "s = VV_ERR_OUT_OF_MEMORY \<and> r = None \<and> h_bad h'"
proof -
  have nz: "of_int num_layers * 8 \<noteq> (0 :: u64)"
    using word_times_neq_0 [of num_layers 8] args by simp
  let ?n = "nat num_layers" and ?a = "Suc (h_next h)"
  have st: "\<exists>c1 h1. slab_stores c h0 = (False, c1, h1) \<and>
      c1 = c\<lparr>c_k_cache := Some (?a, replicate ?n Uninit), c_v_cache := None\<rparr>"
    if "vv_alloc (h_sizeof h ''vv_kv_cache_t'') h = (Some self, h0)" "c_num_layers c = num_layers" for self h0 c
    using that m nz sz by (auto simp: slab_stores_def alloc_ptrs_def vv_alloc_def Let_def split: if_splits)
  obtain self h0 where a0: "vv_alloc (h_sizeof h ''vv_kv_cache_t'') h = (Some self, h0)"
    using sz m by (simp add: vv_alloc_def Let_def)
  have L: "0 < ?n" using args by simp
  obtain c1 h1 where s1: "vv_kv_cache_create_range num_layers first cnt n_kv_heads head_dim max_seq_len fmt on_cpu p h =
      cache_fail VV_ERR_OUT_OF_MEMORY c1 p h1"
    and c1: "c_k_cache c1 = Some (?a, replicate ?n Uninit)" "\<not> c_pool c1" "c_num_layers c1 = num_layers"
    using args a0 st [OF a0, of "(empty_cache self)\<lparr>c_num_layers := num_layers, c_first_layer := first,
        c_last_layer := first + cnt - 1, c_n_kv_heads := n_kv_heads,
        c_head_dim := head_dim, c_max_seq_len := max_seq_len, c_format := fmt,
        c_bytes_per_vec := vv_kv_bytes_per_vec fmt head_dim, c_on_cpu := on_cpu,
        c_attn_backend := VV_ATTN_FA1\<rparr>"]
    by (auto simp: vv_kv_cache_create_range_def Let_def slab_arrays_def empty_cache_def)
  with cr FREE_ARRAY_uninit [OF L c1(1)] show ?thesis
    by (auto simp: cache_fail_def vv_kv_cache_free_def Let_def split: prod.splits)
qed

definition demo_short_heap :: heap where
  "demo_short_heap = demo_heap\<lparr>h_malloc := (\<lambda>n _. n \<noteq> 2)\<rparr>"

theorem slab_create_oom_frees_garbage_witness:
  "case vv_kv_cache_create_range 2 0 2 1 16 64 VV_KV_FP16 False demo_pool demo_short_heap of
     (s, r, p', h') \<Rightarrow> s = VV_ERR_OUT_OF_MEMORY \<and> r = None \<and> h_bad h'"
proof -
  obtain s r p' h' where cr: "vv_kv_cache_create_range 2 0 2 1 16 64 VV_KV_FP16 False demo_pool demo_short_heap = (s, r, p', h')"
    by (cases "vv_kv_cache_create_range 2 0 2 1 16 64 VV_KV_FP16 False demo_pool demo_short_heap")
  have m: "h_malloc demo_short_heap n t \<longleftrightarrow> n \<noteq> h_next demo_short_heap + 2" for n t
    by (simp add: demo_short_heap_def demo_heap_def numeral_2_eq_2)
  have "h_sizeof demo_short_heap ''vv_kv_cache_t'' \<noteq> 0" by (simp add: demo_short_heap_def demo_heap_def)
  from slab_create_oom_frees_garbage [OF m _ _ _ _ this cr] cr show ?thesis by simp
qed

end
