(* ===== verification/AdmissionQueue.thy ===== *)
theory AdmissionQueue
  imports Prelude
begin

text \<open>
  The admission queue of the server (\<^verbatim>\<open>src/server/vv_queue.h\<close>): a bounded first-in first-out
  line for the slots of the engine, with a side door for live sessions that must not wait in it.

  The record is the struct without its lock and condition variable. A thread runs alone from
  taking the lock to dropping it or to \<^verbatim>\<open>vv_cond_wait\<close>; each such stretch is a step of \<open>q_step\<close>.
  A thread that sleeps carries whether a broadcast has reached it since it went to sleep
  (\<open>Queued t w\<close>, \<open>Trying w\<close>); a wake-up may also come for no reason, as the interface of the
  condition variable allows. \<open>qs_arrived\<close> and \<open>qs_admitted\<close> log the threads that drew a ticket
  and those that got a slot by it; the code does not keep them.
\<close>

record vv_queue =
  q_active :: int
  q_waiting :: int
  q_slots :: int
  q_capacity :: int
  q_next :: u64
  q_serving :: u64
  q_rejected :: u64

definition vv_queue_init :: "int \<Rightarrow> int \<Rightarrow> vv_queue" where
  "vv_queue_init slots capacity =
     \<lparr>q_active = 0, q_waiting = 0, q_slots = slots, q_capacity = capacity,
      q_next = 0, q_serving = 0, q_rejected = 0\<rparr>"

text \<open>\<^verbatim>\<open>vv_queue_enter\<close> up to its loop: refused, or the ticket drawn.\<close>

definition vv_queue_draw :: "vv_queue \<Rightarrow> u64 option \<times> vv_queue" where
  "vv_queue_draw q =
     (if q_active q + q_waiting q \<ge> q_slots q + q_capacity q
      then (None, q\<lparr>q_rejected := q_rejected q + 1\<rparr>)
      else (Some (q_next q), q\<lparr>q_next := q_next q + 1, q_waiting := q_waiting q + 1\<rparr>))"

text \<open>The loop's test, and what follows the loop.\<close>

definition vv_queue_must_wait :: "vv_queue \<Rightarrow> u64 \<Rightarrow> bool" where
  "vv_queue_must_wait q ticket \<longleftrightarrow> ticket \<noteq> q_serving q \<or> q_active q \<ge> q_slots q"

definition vv_queue_admit :: "vv_queue \<Rightarrow> vv_queue" where
  "vv_queue_admit q =
     q\<lparr>q_waiting := q_waiting q - 1, q_active := q_active q + 1, q_serving := q_serving q + 1\<rparr>"

text \<open>
  One round of \<^verbatim>\<open>vv_queue_try_enter\<close>: \<open>Some b\<close> returns \<open>b\<close>, \<open>None\<close> waits again. \<open>expired\<close> is
  \<^verbatim>\<open>left <= 0.0\<close>.
\<close>

definition vv_queue_try_enter :: "vv_queue \<Rightarrow> bool \<Rightarrow> bool option \<times> vv_queue" where
  "vv_queue_try_enter q expired =
     (if q_waiting q = 0 \<and> q_active q < q_slots q
      then (Some True, q\<lparr>q_active := q_active q + 1\<rparr>)
      else if expired then (Some False, q\<lparr>q_rejected := q_rejected q + 1\<rparr>)
      else (None, q))"

definition vv_queue_leave :: "vv_queue \<Rightarrow> vv_queue" where
  "vv_queue_leave q = q\<lparr>q_active := q_active q - 1\<rparr>"

subsection \<open>Threads\<close>

datatype q_pc = Idle | Queued u64 bool | Trying bool | Active

fun wake :: "q_pc \<Rightarrow> q_pc" where
  "wake (Queued t w) = Queued t True"
| "wake (Trying w) = Trying True"
| "wake pc = pc"

record queue_sys =
  qs_queue :: vv_queue
  qs_threads :: "q_pc list"
  qs_arrived :: "nat list"
  qs_admitted :: "nat list"

text \<open>A thread at the loop's test with its ticket: it goes in and broadcasts, or sleeps.\<close>

definition enter_test :: "queue_sys \<Rightarrow> nat \<Rightarrow> u64 \<Rightarrow> queue_sys" where
  "enter_test s i ticket =
     (let q = qs_queue s in
      if vv_queue_must_wait q ticket
      then s\<lparr>qs_threads := (qs_threads s)[i := Queued ticket False]\<rparr>
      else s\<lparr>qs_queue := vv_queue_admit q, qs_threads := (map wake (qs_threads s))[i := Active],
             qs_admitted := qs_admitted s @ [i]\<rparr>)"

definition try_test :: "queue_sys \<Rightarrow> nat \<Rightarrow> bool \<Rightarrow> queue_sys" where
  "try_test s i expired =
     (case vv_queue_try_enter (qs_queue s) expired of
        (Some True, q) \<Rightarrow> s\<lparr>qs_queue := q, qs_threads := (qs_threads s)[i := Active]\<rparr>
      | (Some False, q) \<Rightarrow> s\<lparr>qs_queue := q, qs_threads := (qs_threads s)[i := Idle]\<rparr>
      | (None, q) \<Rightarrow> s\<lparr>qs_queue := q, qs_threads := (qs_threads s)[i := Trying False]\<rparr>)"

inductive q_step :: "queue_sys \<Rightarrow> queue_sys \<Rightarrow> bool" where
  q_refuse: "i < length (qs_threads s) \<Longrightarrow> qs_threads s ! i = Idle \<Longrightarrow>
    vv_queue_draw (qs_queue s) = (None, q) \<Longrightarrow> q_step s (s\<lparr>qs_queue := q\<rparr>)"
| q_arrive: "i < length (qs_threads s) \<Longrightarrow> qs_threads s ! i = Idle \<Longrightarrow>
    vv_queue_draw (qs_queue s) = (Some ticket, q) \<Longrightarrow>
    q_step s (enter_test (s\<lparr>qs_queue := q, qs_arrived := qs_arrived s @ [i]\<rparr>) i ticket)"
| q_wake: "i < length (qs_threads s) \<Longrightarrow> qs_threads s ! i = Queued ticket w \<Longrightarrow>
    q_step s (enter_test s i ticket)"
| q_try: "i < length (qs_threads s) \<Longrightarrow> qs_threads s ! i = Idle \<Longrightarrow> q_step s (try_test s i expired)"
| q_try_wake: "i < length (qs_threads s) \<Longrightarrow> qs_threads s ! i = Trying w \<Longrightarrow>
    q_step s (try_test s i expired)"
| q_leave: "i < length (qs_threads s) \<Longrightarrow> qs_threads s ! i = Active \<Longrightarrow>
    q_step s (s\<lparr>qs_queue := vv_queue_leave (qs_queue s), qs_threads := (map wake (qs_threads s))[i := Idle]\<rparr>)"

definition q_init :: "queue_sys \<Rightarrow> bool" where
  "q_init s \<longleftrightarrow>
     (\<exists>slots capacity n. 0 < slots \<and> 0 \<le> capacity \<and> n < 2 ^ 64 \<and>
        s = \<lparr>qs_queue = vv_queue_init slots capacity, qs_threads = replicate n Idle,
             qs_arrived = [], qs_admitted = []\<rparr>)"

subsection \<open>The invariant\<close>

definition in_line :: "queue_sys \<Rightarrow> nat list" where
  "in_line s = drop (length (qs_admitted s)) (qs_arrived s)"

fun queued :: "q_pc \<Rightarrow> u64 option" where
  "queued (Queued t w) = Some t"
| "queued _ = None"

text \<open>The line: who arrived and was not admitted, each with the ticket of its place.\<close>

definition line_ok :: "vv_queue \<Rightarrow> q_pc list \<Rightarrow> nat list \<Rightarrow> bool" where
  "line_ok q ts Q \<longleftrightarrow>
     distinct Q \<and> q_waiting q = int (length Q) \<and> q_next q = q_serving q + of_nat (length Q) \<and>
     (\<forall>k < length Q. Q ! k < length ts \<and> queued (ts ! (Q ! k)) = Some (q_serving q + of_nat k)) \<and>
     (\<forall>i < length ts. queued (ts ! i) \<noteq> None \<longrightarrow> i \<in> set Q)"

text \<open>A thread no broadcast has reached has nothing to wake up for.\<close>

definition sleeper_ok :: "vv_queue \<Rightarrow> q_pc \<Rightarrow> bool" where
  "sleeper_ok q pc =
     (case pc of
        Queued t w \<Rightarrow> w \<or> vv_queue_must_wait q t
      | Trying w \<Rightarrow> w \<or> \<not> (q_waiting q = 0 \<and> q_active q < q_slots q)
      | _ \<Rightarrow> True)"

abbreviation n_active :: "q_pc list \<Rightarrow> int" where
  "n_active ts \<equiv> count_if (\<lambda>pc. pc = Active) ts"

definition q_inv :: "queue_sys \<Rightarrow> bool" where
  "q_inv s \<longleftrightarrow>
     (let q = qs_queue s; ts = qs_threads s in
      q_active q = n_active ts \<and> q_active q \<le> q_slots q \<and>
      q_active q + q_waiting q \<le> q_slots q + q_capacity q \<and> 0 \<le> q_capacity q \<and>
      length ts < 2 ^ 64 \<and> qs_arrived s = qs_admitted s @ in_line s \<and>
      line_ok q ts (in_line s) \<and> (\<forall>pc \<in> set ts. sleeper_ok q pc))"

lemmas queue_ops = vv_queue_draw_def vv_queue_admit_def vv_queue_try_enter_def vv_queue_leave_def
  vv_queue_must_wait_def

lemma queued_wake [simp]: "queued (wake pc) = queued pc"
  by (cases pc) simp_all

lemma wake_Active [simp]: "wake pc = Active \<longleftrightarrow> pc = Active"
  by (cases pc) simp_all

lemma sleeper_ok_wake [simp]: "sleeper_ok q (wake pc)"
  by (cases pc) (simp_all add: sleeper_ok_def)

lemma n_active_wake [simp]: "n_active (map wake ts) = n_active ts"
  by (induction ts) auto

lemma line_ok_wake [simp]: "line_ok q (map wake ts) Q = line_ok q ts Q"
  by (auto simp: line_ok_def)

lemma line_ok_update:
  assumes "line_ok q ts Q" and "queued pc = queued (ts ! i)"
  shows "line_ok q (ts[i := pc]) Q"
proof -
  have "queued (ts[i := pc] ! j) = queued (ts ! j)" for j
    using assms(2) by (cases "j = i"; cases "i < length ts") (auto simp: nth_list_update list_update_beyond)
  with assms(1) show ?thesis by (simp add: line_ok_def)
qed

lemma line_push:
  assumes ok: "line_ok q ts Q" and i: "i < length ts" "queued (ts ! i) = None"
  shows "line_ok (q\<lparr>q_next := q_next q + 1, q_waiting := q_waiting q + 1\<rparr>) (ts[i := Queued (q_next q) True]) (Q @ [i])"
proof -
  have "i \<notin> set Q" using ok i by (auto simp: line_ok_def in_set_conv_nth)
  with ok i show ?thesis
    by (auto simp: line_ok_def nth_append nth_list_update less_Suc_eq)
qed

lemma line_pop:
  assumes ok: "line_ok q ts (i # Q)"
  shows "line_ok (vv_queue_admit q) (ts[i := Active]) Q"
proof -
  have "Q ! k \<noteq> i \<and> Q ! k < length ts \<and> queued (ts ! (Q ! k)) = Some (q_serving q + 1 + of_nat k)"
    if "k < length Q" for k
  proof -
    from ok that have "(i # Q) ! Suc k < length ts \<and> queued (ts ! ((i # Q) ! Suc k)) = Some (q_serving q + of_nat (Suc k))"
      unfolding line_ok_def by (metis Suc_less_eq length_Cons)
    moreover from ok that have "Q ! k \<noteq> i" by (auto simp: line_ok_def)
    ultimately show ?thesis by (simp add: algebra_simps)
  qed
  moreover from ok have "i < length ts" by (force simp: line_ok_def)
  ultimately show ?thesis
    using ok by (auto simp: line_ok_def vv_queue_admit_def nth_list_update algebra_simps split: if_splits)
qed

lemma line_head:
  assumes ok: "line_ok q ts Q" and len: "length ts < 2 ^ 64"
    and i: "i < length ts" "queued (ts ! i) = Some (q_serving q)"
  shows "\<exists>Q'. Q = i # Q'"
proof -
  obtain k where k: "k < length Q" "i = Q ! k" using ok i by (auto simp: line_ok_def in_set_conv_nth)
  have "set Q \<subseteq> {..<length ts}" using ok by (auto simp: line_ok_def in_set_conv_nth)
  then have "length Q \<le> length ts"
    using ok card_mono [of "{..<length ts}" "set Q"] by (simp add: line_ok_def distinct_card)
  with k len have "k < 2 ^ 64" by simp
  moreover from ok k i have "of_nat k = (0 :: u64)" by (auto simp: line_ok_def)
  ultimately have "k = 0" by (auto simp: word_of_nat_eq_0_iff dest: dvd_imp_le intro: ccontr)
  with k show ?thesis by (cases Q) auto
qed

subsection \<open>Every step keeps it\<close>

lemma in_line_append: "qs_arrived s = qs_admitted s @ Q \<Longrightarrow> in_line s = Q"
  by (simp add: in_line_def)

lemma sleepers_update:
  "(\<forall>x \<in> set ts. sleeper_ok q x) \<Longrightarrow> sleeper_ok q pc \<Longrightarrow> \<forall>x \<in> set (ts[i := pc]). sleeper_ok q x"
  using set_update_subset_insert [of ts i pc] by blast

lemma sleepers_woken: "sleeper_ok q pc \<Longrightarrow> \<forall>x \<in> set ((map wake ts)[i := pc]). sleeper_ok q x"
  by (rule sleepers_update) auto

lemma q_inv_init: "q_init s \<Longrightarrow> q_inv s"
  by (auto simp: q_init_def q_inv_def vv_queue_init_def in_line_def line_ok_def sleeper_ok_def count_if_def Let_def)

lemma enter_test_inv:
  assumes inv: "q_inv s" and i: "i < length (qs_threads s)" "qs_threads s ! i = Queued t w"
  shows "q_inv (enter_test s i t)"
proof (cases "vv_queue_must_wait (qs_queue s) t")
  case True
  have line: "line_ok (qs_queue s) ((qs_threads s)[i := Queued t False]) (in_line s)"
    using inv i by (intro line_ok_update) (simp_all add: q_inv_def Let_def)
  have "\<forall>x \<in> set ((qs_threads s)[i := Queued t False]). sleeper_ok (qs_queue s) x"
    using inv True by (intro sleepers_update) (simp_all add: q_inv_def Let_def sleeper_ok_def)
  with inv i line True show ?thesis
    by (simp add: enter_test_def q_inv_def Let_def count_if_update in_line_def)
next
  case False
  let ?q = "vv_queue_admit (qs_queue s)" and ?ts = "(map wake (qs_threads s))[i := Active]"
  from False have t: "t = q_serving (qs_queue s)" "q_active (qs_queue s) < q_slots (qs_queue s)"
    by (auto simp: vv_queue_must_wait_def)
  have ok: "line_ok (qs_queue s) (qs_threads s) (in_line s)" "length (qs_threads s) < 2 ^ 64"
    and arr: "qs_arrived s = qs_admitted s @ in_line s"
    using inv by (simp_all add: q_inv_def Let_def)
  from line_head [OF ok i(1)] i t obtain Q where Q: "in_line s = i # Q" by auto
  have line: "line_ok ?q ?ts Q" using ok Q by (intro line_pop) simp
  have sl: "\<forall>x \<in> set ?ts. sleeper_ok ?q x" by (rule sleepers_woken) (simp add: sleeper_ok_def)
  have il: "in_line (s\<lparr>qs_queue := ?q, qs_threads := ?ts, qs_admitted := qs_admitted s @ [i]\<rparr>) = Q"
    using arr Q by (intro in_line_append) simp
  have "n_active ?ts = n_active (qs_threads s) + 1"
    using i by (simp add: count_if_update)
  with inv line sl il arr Q t False show ?thesis
    by (simp add: enter_test_def q_inv_def Let_def) (simp add: vv_queue_admit_def)
qed

lemma enter_test_pushed:
  "enter_test (s\<lparr>qs_threads := (qs_threads s)[i := pc]\<rparr>) i t = enter_test s i t"
  by (simp add: enter_test_def Let_def map_update)

lemma arrive_inv:
  assumes inv: "q_inv s" and i: "i < length (qs_threads s)" "qs_threads s ! i = Idle"
    and draw: "vv_queue_draw (qs_queue s) = (Some t, q)"
  shows "q_inv (enter_test (s\<lparr>qs_queue := q, qs_arrived := qs_arrived s @ [i]\<rparr>) i t)"
proof -
  let ?s = "s\<lparr>qs_queue := q, qs_arrived := qs_arrived s @ [i]\<rparr>"
  let ?s1 = "?s\<lparr>qs_threads := (qs_threads s)[i := Queued t True]\<rparr>"
  have q: "q = (qs_queue s)\<lparr>q_next := q_next (qs_queue s) + 1, q_waiting := q_waiting (qs_queue s) + 1\<rparr>"
      "t = q_next (qs_queue s)" "q_active q + q_waiting q \<le> q_slots q + q_capacity q"
    using draw by (auto simp: vv_queue_draw_def split: if_splits)
  have arr: "qs_arrived s = qs_admitted s @ in_line s" using inv by (simp add: q_inv_def Let_def)
  then have il: "in_line ?s1 = in_line s @ [i]" by (intro in_line_append) simp
  have line: "line_ok q ((qs_threads s)[i := Queued t True]) (in_line s @ [i])"
    unfolding q(1,2) using inv i by (intro line_push) (simp_all add: q_inv_def Let_def)
  have w: "0 \<le> q_waiting (qs_queue s)" using inv by (simp add: q_inv_def Let_def line_ok_def)
  have "sleeper_ok q x" if "sleeper_ok (qs_queue s) x" for x
    using that w by (cases x) (auto simp: sleeper_ok_def q(1) vv_queue_must_wait_def)
  then have sl: "\<forall>x \<in> set ((qs_threads s)[i := Queued t True]). sleeper_ok q x"
    using inv by (intro sleepers_update) (simp_all add: q_inv_def Let_def sleeper_ok_def)
  have "q_inv ?s1"
    using inv line sl il arr q(3) i by (simp add: q_inv_def Let_def count_if_update) (simp add: q(1))
  from enter_test_inv [OF this, of i t True] i show ?thesis
    using enter_test_pushed [of ?s i] by simp
qed

lemma try_test_inv:
  assumes inv: "q_inv s" and i: "i < length (qs_threads s)" "queued (qs_threads s ! i) = None" "qs_threads s ! i \<noteq> Active"
  shows "q_inv (try_test s i expired)"
proof -
  have line: "line_ok (qs_queue s) ((qs_threads s)[i := pc]) (in_line s)" if "queued pc = None" for pc
    using inv i that by (intro line_ok_update) (simp_all add: q_inv_def Let_def)
  have lq: "line_ok (q\<lparr>q_active := a\<rparr>) ts Q = line_ok q ts Q" "line_ok (q\<lparr>q_rejected := r\<rparr>) ts Q = line_ok q ts Q"
    for q a r ts Q by (simp_all add: line_ok_def)
  have mono: "sleeper_ok q x \<Longrightarrow> sleeper_ok (q\<lparr>q_active := q_active q + 1\<rparr>) x" "sleeper_ok (q\<lparr>q_rejected := r\<rparr>) x = sleeper_ok q x"
    for q x r by (cases x; force simp: sleeper_ok_def vv_queue_must_wait_def)+
  have sl: "\<forall>x \<in> set (qs_threads s). sleeper_ok (qs_queue s) x" using inv by (simp add: q_inv_def Let_def)
  consider (go) "q_waiting (qs_queue s) = 0" "q_active (qs_queue s) < q_slots (qs_queue s)"
    | (out) "\<not> (q_waiting (qs_queue s) = 0 \<and> q_active (qs_queue s) < q_slots (qs_queue s))" expired
    | (again) "\<not> (q_waiting (qs_queue s) = 0 \<and> q_active (qs_queue s) < q_slots (qs_queue s))" "\<not> expired"
    by blast
  then show ?thesis
  proof cases
    case go
    let ?q = "(qs_queue s)\<lparr>q_active := q_active (qs_queue s) + 1\<rparr>"
    have "\<forall>x \<in> set ((qs_threads s)[i := Active]). sleeper_ok ?q x"
      using sl mono(1) by (intro sleepers_update) (auto simp: sleeper_ok_def [of _ Active])
    with go inv i line [of Active] show ?thesis
      by (simp add: try_test_def vv_queue_try_enter_def q_inv_def Let_def count_if_update in_line_def lq)
  next
    case out
    have "\<forall>x \<in> set ((qs_threads s)[i := Idle]). sleeper_ok (qs_queue s) x"
      using sl by (intro sleepers_update) (auto simp: sleeper_ok_def [of _ Idle])
    moreover have "try_test s i expired = s\<lparr>qs_queue := (qs_queue s)\<lparr>q_rejected := q_rejected (qs_queue s) + 1\<rparr>,
        qs_threads := (qs_threads s)[i := Idle]\<rparr>"
      using out by (auto simp: try_test_def vv_queue_try_enter_def)
    ultimately show ?thesis
      using inv i line [of Idle] by (simp add: q_inv_def Let_def count_if_update in_line_def lq mono(2))
  next
    case again
    have "\<forall>x \<in> set ((qs_threads s)[i := Trying False]). sleeper_ok (qs_queue s) x"
      using sl again(1) by (intro sleepers_update) (auto simp: sleeper_ok_def [of _ "Trying False"])
    moreover have "try_test s i expired = s\<lparr>qs_threads := (qs_threads s)[i := Trying False]\<rparr>"
      using again by (auto simp: try_test_def vv_queue_try_enter_def)
    ultimately show ?thesis
      using inv i line [of "Trying False"] by (simp add: q_inv_def Let_def count_if_update in_line_def)
  qed
qed

lemma leave_inv:
  assumes inv: "q_inv s" and i: "i < length (qs_threads s)" "qs_threads s ! i = Active"
  shows "q_inv (s\<lparr>qs_queue := vv_queue_leave (qs_queue s), qs_threads := (map wake (qs_threads s))[i := Idle]\<rparr>)"
proof -
  have line: "line_ok (qs_queue s) ((map wake (qs_threads s))[i := Idle]) (in_line s)"
    using inv i by (intro line_ok_update) (simp_all add: q_inv_def Let_def)
  have "\<forall>x \<in> set ((map wake (qs_threads s))[i := Idle]). sleeper_ok (vv_queue_leave (qs_queue s)) x"
    by (rule sleepers_woken) (simp add: sleeper_ok_def)
  moreover have "line_ok (vv_queue_leave (qs_queue s)) ts Q = line_ok (qs_queue s) ts Q" for ts Q
    by (simp add: line_ok_def vv_queue_leave_def)
  ultimately show ?thesis
    using inv i line by (simp add: q_inv_def Let_def count_if_update in_line_def) (simp add: vv_queue_leave_def)
qed

lemma refuse_inv:
  assumes "q_inv s" and "vv_queue_draw (qs_queue s) = (None, q)"
  shows "q_inv (s\<lparr>qs_queue := q\<rparr>)"
proof -
  have q: "q = (qs_queue s)\<lparr>q_rejected := q_rejected (qs_queue s) + 1\<rparr>"
    using assms(2) by (auto simp: vv_queue_draw_def split: if_splits)
  have "sleeper_ok q x = sleeper_ok (qs_queue s) x" for x
    by (cases x) (simp_all add: sleeper_ok_def vv_queue_must_wait_def q)
  moreover have "line_ok q ts Q = line_ok (qs_queue s) ts Q" for ts Q
    by (simp add: line_ok_def q)
  ultimately show ?thesis using assms(1) by (simp add: q_inv_def Let_def in_line_def) (simp add: q)
qed

lemma q_inv_step: "q_inv s \<Longrightarrow> q_step s s' \<Longrightarrow> q_inv s'"
  by (erule q_step.cases)
    (auto intro: enter_test_inv arrive_inv try_test_inv leave_inv refuse_inv)

interpretation admission: transition_system q_init q_step q_inv
  by unfold_locales (blast intro: q_inv_init q_inv_step)+

subsection \<open>What the server relies on\<close>

text \<open>
  C26. The bound. However requests and live sessions arrive, wait, give up and leave, the number of threads
  inside never exceeds the slots, inside and waiting together never exceed slots and capacity, and
  the two counters are exactly the numbers of such threads.
\<close>

theorem queue_bounded:
  assumes "reaches q_init q_step s"
  shows "q_active (qs_queue s) = n_active (qs_threads s) \<and>
    q_waiting (qs_queue s) = count_if (\<lambda>pc. queued pc \<noteq> None) (qs_threads s) \<and>
    n_active (qs_threads s) \<le> q_slots (qs_queue s) \<and>
    q_active (qs_queue s) + q_waiting (qs_queue s) \<le> q_slots (qs_queue s) + q_capacity (qs_queue s)"
proof -
  have inv: "q_inv s" using assms by (rule admission.reaches_inv)
  then have ok: "line_ok (qs_queue s) (qs_threads s) (in_line s)" by (simp add: q_inv_def Let_def)
  have "set (in_line s) = {i. i < length (qs_threads s) \<and> queued (qs_threads s ! i) \<noteq> None}"
    using ok by (auto simp: line_ok_def in_set_conv_nth)
  then have "length (in_line s) = length (filter (\<lambda>pc. queued pc \<noteq> None) (qs_threads s))"
    using ok by (simp add: length_filter_conv_card line_ok_def flip: distinct_card)
  with inv ok show ?thesis by (simp add: q_inv_def Let_def count_if_def line_ok_def)
qed

text \<open>
  C3. First in, first out. The threads admitted by ticket are, in order, the first of those that drew
  one: nobody overtakes.
\<close>

theorem queue_fifo:
  assumes "reaches q_init q_step s"
  shows "\<exists>rest. qs_arrived s = qs_admitted s @ rest \<and>
    set rest = {i. i < length (qs_threads s) \<and> queued (qs_threads s ! i) \<noteq> None}"
proof -
  have inv: "q_inv s" using assms by (rule admission.reaches_inv)
  then have ok: "line_ok (qs_queue s) (qs_threads s) (in_line s)" by (simp add: q_inv_def Let_def)
  have "set (in_line s) = {i. i < length (qs_threads s) \<and> queued (qs_threads s ! i) \<noteq> None}"
    using ok by (auto simp: line_ok_def in_set_conv_nth)
  with inv show ?thesis by (auto simp: q_inv_def Let_def)
qed

text \<open>
  C4. No lost wake-up. If a slot is free and somebody stands in line, the thread at the head
  of the line has been woken and its test will let it in: a free slot is never left to sleepers.
\<close>

theorem queue_no_lost_wakeup:
  assumes "reaches q_init q_step s" and "q_active (qs_queue s) < q_slots (qs_queue s)" and "0 < q_waiting (qs_queue s)"
  shows "\<exists>i < length (qs_threads s). qs_threads s ! i = Queued (q_serving (qs_queue s)) True \<and>
    qs_threads (enter_test s i (q_serving (qs_queue s))) ! i = Active"
proof -
  have inv: "q_inv s" using assms(1) by (rule admission.reaches_inv)
  then have ok: "line_ok (qs_queue s) (qs_threads s) (in_line s)" by (simp add: q_inv_def Let_def)
  with assms(3) have "0 < length (in_line s)" by (auto simp: line_ok_def)
  moreover have "\<forall>k < length (in_line s). in_line s ! k < length (qs_threads s) \<and>
      queued (qs_threads s ! (in_line s ! k)) = Some (q_serving (qs_queue s) + of_nat k)"
    using ok by (simp add: line_ok_def)
  ultimately have i: "in_line s ! 0 < length (qs_threads s)"
      "queued (qs_threads s ! (in_line s ! 0)) = Some (q_serving (qs_queue s))"
    by force+
  then obtain w where w: "qs_threads s ! (in_line s ! 0) = Queued (q_serving (qs_queue s)) w"
    by (cases "qs_threads s ! (in_line s ! 0)") auto
  have "sleeper_ok (qs_queue s) (qs_threads s ! (in_line s ! 0))"
    using inv i(1) by (simp add: q_inv_def Let_def)
  with w assms(2) have w by (simp add: sleeper_ok_def vv_queue_must_wait_def)
  with w i assms(2) show ?thesis
    by (auto simp: enter_test_def vv_queue_must_wait_def Let_def)
qed

text \<open>
  A live session does not jump the line. \<^verbatim>\<open>vv_queue_try_enter\<close> gives a slot only in a state where no
  thread stands in line.
\<close>

theorem try_enter_never_jumps:
  assumes "reaches q_init q_step s" and "vv_queue_try_enter (qs_queue s) expired = (Some True, q)"
  shows "(\<forall>pc \<in> set (qs_threads s). queued pc = None) \<and> n_active (qs_threads s) < q_slots (qs_queue s)"
proof -
  have inv: "q_inv s" using assms(1) by (rule admission.reaches_inv)
  from assms(2) have "q_waiting (qs_queue s) = 0" "q_active (qs_queue s) < q_slots (qs_queue s)"
    by (auto simp: vv_queue_try_enter_def split: if_splits)
  moreover have ok: "line_ok (qs_queue s) (qs_threads s) (in_line s)" "q_active (qs_queue s) = n_active (qs_threads s)"
    using inv by (simp_all add: q_inv_def Let_def)
  moreover have "queued (qs_threads s ! i) = None" if "i < length (qs_threads s)" for i
    using that ok calculation(1) by (cases "queued (qs_threads s ! i)") (auto simp: line_ok_def)
  ultimately show ?thesis by (simp add: all_set_conv_all_nth)
qed

subsection \<open>One slot, room for one to wait\<close>

definition demo_q0 :: queue_sys where
  "demo_q0 = \<lparr>qs_queue = vv_queue_init 1 1, qs_threads = [Idle, Idle], qs_arrived = [], qs_admitted = []\<rparr>"

definition demo_q1 :: queue_sys where
  "demo_q1 = \<lparr>qs_queue = \<lparr>q_active = 1, q_waiting = 0, q_slots = 1, q_capacity = 1, q_next = 1, q_serving = 1, q_rejected = 0\<rparr>,
     qs_threads = [Active, Idle], qs_arrived = [0], qs_admitted = [0]\<rparr>"

definition demo_q2 :: queue_sys where
  "demo_q2 = \<lparr>qs_queue = \<lparr>q_active = 1, q_waiting = 1, q_slots = 1, q_capacity = 1, q_next = 2, q_serving = 1, q_rejected = 0\<rparr>,
     qs_threads = [Active, Queued 1 False], qs_arrived = [0, 1], qs_admitted = [0]\<rparr>"

definition demo_q3 :: queue_sys where
  "demo_q3 = \<lparr>qs_queue = \<lparr>q_active = 0, q_waiting = 1, q_slots = 1, q_capacity = 1, q_next = 2, q_serving = 1, q_rejected = 0\<rparr>,
     qs_threads = [Idle, Queued 1 True], qs_arrived = [0, 1], qs_admitted = [0]\<rparr>"

lemma demo_queue_init: "q_init demo_q0"
  unfolding q_init_def demo_q0_def
  by (rule exI [of _ 1], rule exI [of _ 1], rule exI [of _ "Suc (Suc 0)"]) simp

lemma demo_queue_reaches: "reaches q_init q_step demo_q3" "reaches q_init q_step demo_q0"
proof -
  have 1: "q_step demo_q0 demo_q1"
    using q_arrive [of 0 demo_q0 0 "(vv_queue_init 1 1)\<lparr>q_next := 1, q_waiting := 1\<rparr>"]
    by (simp add: demo_q0_def demo_q1_def vv_queue_init_def enter_test_def queue_ops)
  have 2: "q_step demo_q1 demo_q2"
    using q_arrive [of 1 demo_q1 1 "(qs_queue demo_q1)\<lparr>q_next := 2, q_waiting := 1\<rparr>"]
    by (simp add: demo_q1_def demo_q2_def enter_test_def queue_ops)
  have 3: "q_step demo_q2 demo_q3"
    using q_leave [of 0 demo_q2] by (simp add: demo_q2_def demo_q3_def queue_ops)
  show "reaches q_init q_step demo_q0" using demo_queue_init by (rule reaches_init)
  then show "reaches q_init q_step demo_q3" using 1 2 3 by (blast intro: reaches_step [of q_init q_step])
qed

theorem queue_bounded_witness: "n_active (qs_threads demo_q3) \<le> 1 \<and> q_waiting (qs_queue demo_q3) = 1"
  using queue_bounded [OF demo_queue_reaches(1)] by (simp add: demo_q3_def)

theorem queue_fifo_witness: "\<exists>rest. qs_arrived demo_q3 = qs_admitted demo_q3 @ rest \<and> set rest = {1}"
proof -
  have "{i. i < length (qs_threads demo_q3) \<and> queued (qs_threads demo_q3 ! i) \<noteq> None} = {1}"
    by (auto simp: demo_q3_def less_Suc_eq numeral_2_eq_2)
  with queue_fifo [OF demo_queue_reaches(1)] show ?thesis by auto
qed

theorem queue_no_lost_wakeup_witness:
  "\<exists>i < length (qs_threads demo_q3). qs_threads demo_q3 ! i = Queued 1 True \<and>
    qs_threads (enter_test demo_q3 i 1) ! i = Active"
  using queue_no_lost_wakeup [OF demo_queue_reaches(1)] by (simp add: demo_q3_def)

theorem try_enter_never_jumps_witness:
  "fst (vv_queue_try_enter (qs_queue demo_q0) False) = Some True \<and> n_active (qs_threads demo_q0) < 1"
  using try_enter_never_jumps [OF demo_queue_reaches(2), of False]
  by (simp add: demo_q0_def vv_queue_init_def queue_ops)

end
