(* ===== verification/WebSocket.thy ===== *)
theory WebSocket
  imports Prelude
begin

unbundle bit_operations_syntax

text \<open>
  The socket-free half of the streaming server (\<^verbatim>\<open>src/server/ws.c\<close>, \<^verbatim>\<open>src/server/vv_ws.h\<close>): SHA-1 and
  base64 for the handshake key, frame headers, Server-Sent Events, and the incremental parser of
  client frames. Byte buffers are lists of 8-bit words, C strings are \<open>string\<close> without the NUL. Sizes of
  buffers are natural numbers: they are sizes of objects in memory, and the length a frame
  announces is tested against bit 63 and against \<open>ws_max_message\<close> before it is added to anything.
\<close>

subsection \<open>SHA-1 and base64\<close>

definition rol32 :: "u32 \<Rightarrow> nat \<Rightarrow> u32" where
  "rol32 x n = push_bit n x OR drop_bit (32 - n) x"

definition be32 :: "bytes \<Rightarrow> nat \<Rightarrow> u32" where
  "be32 b i = push_bit 24 (ucast (b ! i)) OR push_bit 16 (ucast (b ! (i + 1))) OR
     push_bit 8 (ucast (b ! (i + 2))) OR ucast (b ! (i + 3))"

definition sha1_schedule :: "bytes \<Rightarrow> u32 list" where
  "sha1_schedule b =
     fold (\<lambda>i w. w @ [rol32 (w ! (i - 3) XOR w ! (i - 8) XOR w ! (i - 14) XOR w ! (i - 16)) 1]) [16..<80]
       (map (\<lambda>i. be32 b (4 * i)) [0..<16])"

definition sha1_round :: "u32 list \<Rightarrow> nat \<Rightarrow> u32 \<times> u32 \<times> u32 \<times> u32 \<times> u32 \<Rightarrow> u32 \<times> u32 \<times> u32 \<times> u32 \<times> u32" where
  "sha1_round w i s =
     (case s of (a, bb, c, d, e) \<Rightarrow>
        let (f, k) =
              (if i < 20 then ((bb AND c) OR (NOT bb AND d), 0x5A827999)
               else if i < 40 then (bb XOR c XOR d, 0x6ED9EBA1)
               else if i < 60 then ((bb AND c) OR (bb AND d) OR (c AND d), 0x8F1BBCDC)
               else (bb XOR c XOR d, 0xCA62C1D6));
            t = rol32 a 5 + f + e + k + w ! i
        in (t, a, rol32 bb 30, c, d))"

type_synonym sha1_state = "u32 \<times> u32 \<times> u32 \<times> u32 \<times> u32"

definition sha1_block :: "sha1_state \<Rightarrow> bytes \<Rightarrow> sha1_state" where
  "sha1_block h b =
     (case (h, fold (sha1_round (sha1_schedule b)) [0..<80] h) of
        ((h0, h1, h2, h3, h4), (a, bb, c, d, e)) \<Rightarrow> (h0 + a, h1 + bb, h2 + c, h3 + d, h4 + e))"

definition sha1_init :: sha1_state where
  "sha1_init = (0x67452301, 0xEFCDAB89, 0x98BADCFE, 0x10325476, 0xC3D2E1F0)"

text \<open>\<^verbatim>\<open>while (left >= 64)\<close>: the chaining value and what is left.\<close>

function sha1_blocks :: "sha1_state \<Rightarrow> bytes \<Rightarrow> sha1_state \<times> bytes" where
  "sha1_blocks h p = (if length p \<ge> 64 then sha1_blocks (sha1_block h (take 64 p)) (drop 64 p) else (h, p))"
  by auto
termination by (relation "measure (\<lambda>(h, p). length p)") auto

declare sha1_blocks.simps [simp del]

definition be_bytes32 :: "u32 \<Rightarrow> bytes" where
  "be_bytes32 x = [ucast (drop_bit 24 x), ucast (drop_bit 16 x), ucast (drop_bit 8 x), ucast x]"

definition sha1_tail :: "nat \<Rightarrow> bytes \<Rightarrow> bytes" where
  "sha1_tail n left =
     (let tail = (left @ replicate (128 - length left) 0)[length left := 0x80];
          tl = (if length left + 9 \<le> 64 then 64 else 128);
          bits = of_nat n * 8 :: u64
      in take tl (fold (\<lambda>i t. t[tl - 1 - i := ucast (drop_bit (8 * i) bits)]) [0..<8] tail))"

definition vv_sha1 :: "bytes \<Rightarrow> bytes" where
  "vv_sha1 data =
     (let (h, left) = sha1_blocks sha1_init data;
          tail = sha1_tail (length data) left;
          h = sha1_block h (take 64 tail);
          (h0, h1, h2, h3, h4) = (if length tail = 128 then sha1_block h (drop 64 tail) else h)
      in concat (map be_bytes32 [h0, h1, h2, h3, h4]))"

definition base64_tab :: string where
  "base64_tab = ''ABCDEFGHIJKLMNOPQRSTUVWXYZabcdefghijklmnopqrstuvwxyz0123456789+/''"

definition base64_digit :: "u32 \<Rightarrow> char" where
  "base64_digit v = base64_tab ! unat (v AND 63)"

text \<open>The loop takes three bytes at a time, the last group padded.\<close>

fun vv_base64_encode :: "bytes \<Rightarrow> string" where
  "vv_base64_encode [] = []"
| "vv_base64_encode [a] =
     (let v = push_bit 16 (ucast a :: u32)
      in [base64_digit (drop_bit 18 v), base64_digit (drop_bit 12 v), CHR ''='', CHR ''=''])"
| "vv_base64_encode [a, b] =
     (let v = push_bit 16 (ucast a :: u32) OR push_bit 8 (ucast b)
      in [base64_digit (drop_bit 18 v), base64_digit (drop_bit 12 v), base64_digit (drop_bit 6 v), CHR ''=''])"
| "vv_base64_encode (a # b # c # rest) =
     (let v = push_bit 16 (ucast a :: u32) OR push_bit 8 (ucast b) OR ucast c
      in [base64_digit (drop_bit 18 v), base64_digit (drop_bit 12 v), base64_digit (drop_bit 6 v), base64_digit v]
         @ vv_base64_encode rest)"

definition ws_guid :: string where
  "ws_guid = ''258EAFA5-E914-47DA-95CA-C5AB0DC85B11''"

definition vv_ws_accept_key :: "string option \<Rightarrow> string option" where
  "vv_ws_accept_key client_key =
     (case client_key of
        None \<Rightarrow> None
      | Some k \<Rightarrow>
          if length k = 0 \<or> length k > 64 then None
          else Some (vv_base64_encode (vv_sha1 (map of_char (k @ ws_guid)))))"

subsection \<open>Frames and events\<close>

definition vv_ws_frame_header :: "u32 \<Rightarrow> bool \<Rightarrow> u64 \<Rightarrow> bytes" where
  "vv_ws_frame_header opcode fin len =
     (let b0 = (if fin then 0x80 else 0) OR (ucast opcode AND 0x0F)
      in if len < 126 then [b0, ucast len]
         else if len \<le> 0xFFFF then [b0, 126, ucast (drop_bit 8 len), ucast len]
         else b0 # 127 # map (\<lambda>i. ucast (drop_bit (56 - 8 * i) len)) [0..<8])"

text \<open>
  \<^verbatim>\<open>vv_sse_format\<close>: \<open>sse_put\<close> is its \<^verbatim>\<open>PUT\<close>, on the bytes written so far (always a prefix of the
  buffer) and the count \<^verbatim>\<open>need\<close>. \<open>cap\<close> is \<open>None\<close> when \<^verbatim>\<open>buf\<close> is NULL.
\<close>

definition sse_put :: "nat option \<Rightarrow> string \<Rightarrow> string \<times> nat \<Rightarrow> string \<times> nat" where
  "sse_put cap s st =
     (case st of (buf, need) \<Rightarrow>
        ((case cap of
            None \<Rightarrow> buf
          | Some c \<Rightarrow>
              if need + length s < c then take need buf @ s
              else if need < c then take need buf @ take (c - 1 - need) s
              else buf),
         need + length s))"

function sse_lines :: "nat option \<Rightarrow> string \<Rightarrow> string \<times> nat \<Rightarrow> string \<times> nat" where
  "sse_lines cap p st =
     (let cut = length (takeWhile (\<lambda>c. c \<noteq> CHR 0x0A) p);
          n = (if cut > 0 \<and> p ! (cut - 1) = CHR 0x0D then cut - 1 else cut);
          st = sse_put cap [CHR 0x0A] (sse_put cap (take n p) (sse_put cap ''data: '' st))
      in if cut < length p then sse_lines cap (drop (cut + 1) p) st else st)"
  by auto
termination by (relation "measure (\<lambda>(cap, p, st). length p)") auto

declare sse_lines.simps [simp del]

definition vv_sse_format :: "string option \<Rightarrow> string option \<Rightarrow> nat option \<Rightarrow> string \<times> nat" where
  "vv_sse_format event data cap =
     (let st = (case event of
            Some (c # cs) \<Rightarrow> sse_put cap [CHR 0x0A] (sse_put cap (c # cs) (sse_put cap ''event: '' ([], 0)))
          | _ \<Rightarrow> ([], 0));
          p = (case data of None \<Rightarrow> [] | Some d \<Rightarrow> d);
          st = sse_lines cap p st
      in sse_put cap [CHR 0x0A] st)"

subsection \<open>Base64 decodes\<close>

lemma index_takeWhile: "distinct xs \<Longrightarrow> k < length xs \<Longrightarrow> length (takeWhile ((\<noteq>) (xs ! k)) xs) = k"
proof (induction xs arbitrary: k)
  case Nil
  then show ?case by simp
next
  case (Cons x xs)
  then show ?case by (cases k) auto
qed

definition base64_value :: "char \<Rightarrow> u32" where
  "base64_value c = of_nat (length (takeWhile ((\<noteq>) c) base64_tab))"

text \<open>A decoder as RFC 4648 describes it; the repository has none.\<close>

fun base64_decode :: "string \<Rightarrow> bytes" where
  "base64_decode (c0 # c1 # c2 # c3 # rest) =
     (let v1 = push_bit 6 (base64_value c0) OR base64_value c1;
          v2 = push_bit 6 v1 OR base64_value c2;
          v3 = push_bit 6 v2 OR base64_value c3
      in if c2 = CHR ''='' then [ucast (drop_bit 4 v1)]
         else if c3 = CHR ''='' then [ucast (drop_bit 10 v2), ucast (drop_bit 2 v2)]
         else [ucast (drop_bit 16 v3), ucast (drop_bit 8 v3), ucast v3] @ base64_decode rest)"
| "base64_decode _ = []"

lemma base64_tab_facts: "length base64_tab = 64" "distinct base64_tab" "CHR ''='' \<notin> set base64_tab"
  by (code_simp, code_simp, code_simp)

lemma and_63: "(v :: u32) AND 63 = take_bit 6 v"
  by (simp add: take_bit_eq_mask mask_eq_exp_minus_1)

lemma digit_index: "unat ((v :: u32) AND 63) < 64"
  by (simp add: and_63 take_bit_eq_mod unat_mod)

lemma base64_value_digit [simp]: "base64_value (base64_digit v) = take_bit 6 v"
  using index_takeWhile [OF base64_tab_facts(2), of "unat (v AND 63)"] digit_index [of v]
  by (simp add: base64_value_def base64_digit_def base64_tab_facts(1)) (simp add: and_63)

lemma base64_digit_pad [simp]: "base64_digit v \<noteq> CHR ''=''"
  using base64_tab_facts digit_index [of v] nth_mem [of "unat (v AND 63)" base64_tab]
  unfolding base64_digit_def by metis

lemma glue6: "push_bit 6 (drop_bit 6 w) OR take_bit 6 w = (w :: u32)"
  by (rule bit_word_eqI) (auto simp: bit_simps)

lemma glue6_drop: "push_bit 6 (drop_bit (n + 6) v) OR take_bit 6 (drop_bit n v) = drop_bit n (v :: u32)"
  using glue6 [of "drop_bit n v"] by (simp add: add.commute)

lemma top_digit:
  assumes "drop_bit 24 v = (0 :: u32)"
  shows "take_bit 6 (drop_bit 18 v) = drop_bit 18 v"
proof -
  have "drop_bit 6 (drop_bit 18 v) = 0" using assms by simp
  then show ?thesis using glue6 [of "drop_bit 18 v"] by simp
qed

lemma group_bytes:
  fixes a b c :: u8
  defines "v \<equiv> push_bit 16 (ucast a :: u32) OR push_bit 8 (ucast b) OR ucast c"
  shows "ucast (drop_bit 16 v) = a" "ucast (drop_bit 8 v) = b" "ucast v = c" "drop_bit 24 v = 0"
  by (rule bit_word_eqI; auto simp: v_def bit_simps dest: bit_imp_le_length)+

lemma decode_group:
  assumes "drop_bit 24 v = (0 :: u32)"
  shows "push_bit 6 (take_bit 6 (drop_bit 18 v)) OR take_bit 6 (drop_bit 12 v) = drop_bit 12 v"
    "push_bit 6 (drop_bit 12 v) OR take_bit 6 (drop_bit 6 v) = drop_bit 6 v"
    "push_bit 6 (drop_bit 6 v) OR take_bit 6 v = v"
  using glue6_drop [of 12 v] glue6_drop [of 6 v] glue6_drop [of 0 v] top_digit [OF assms] by simp_all

text \<open>
  Base64 round trip. Decoding what \<^verbatim>\<open>vv_base64_encode\<close> wrote gives the bytes back, for every
  length, and the text is four characters for every three bytes begun: the 4 * ceil(n/3) its caller must have room for.
\<close>

theorem base64_roundtrip:
  "base64_decode (vv_base64_encode bs) = bs \<and> length (vv_base64_encode bs) = 4 * ((length bs + 2) div 3)"
proof (induction bs rule: vv_base64_encode.induct)
  case 1
  show ?case by simp
next
  case (2 a)
  define v where "v = push_bit 16 (ucast a :: u32)"
  note v = group_bytes [of a 0 0, simplified, folded v_def]
  show ?case using decode_group [OF v(4)] v by (simp add: Let_def flip: v_def)
next
  case (3 a b)
  define v where "v = push_bit 16 (ucast a :: u32) OR push_bit 8 (ucast b)"
  have v: "ucast (drop_bit 16 v) = a" "ucast (drop_bit 8 v) = b" "drop_bit 24 v = 0"
    using group_bytes [of a b 0] by (simp_all add: v_def)
  show ?case using decode_group [OF v(3)] v(1,2) by (simp add: Let_def del: drop_bit_or flip: v_def)
next
  case (4 a b c rest)
  define v where "v = push_bit 16 (ucast a :: u32) OR push_bit 8 (ucast b) OR ucast c"
  note v = group_bytes [of a b c, folded v_def]
  have "(5 + length rest) div 3 = Suc ((length rest + 2) div 3)" by simp
  then show ?case
    using decode_group [OF v(4)] v(1-3) 4 by (simp add: Let_def del: drop_bit_or push_bit_or flip: v_def)
qed

subsection \<open>SHA-1 pads as FIPS 180-4 says\<close>

definition be64 :: "u64 \<Rightarrow> bytes" where
  "be64 x = map (\<lambda>i. ucast (drop_bit (56 - 8 * i) x)) [0..<8]"

text \<open>One bit, the least number of zero bytes, and the bit count, up to a whole number of blocks.\<close>

definition sha1_pad :: "bytes \<Rightarrow> bytes" where
  "sha1_pad data =
     data @ [0x80] @ replicate ((119 - length data mod 64) mod 64) 0 @ be64 (of_nat (length data) * 8)"

definition sha1_digest :: "sha1_state \<Rightarrow> bytes" where
  "sha1_digest h = (case h of (h0, h1, h2, h3, h4) \<Rightarrow> concat (map be_bytes32 [h0, h1, h2, h3, h4]))"

lemma fold_update_back:
  "k \<le> m \<Longrightarrow> m \<le> length t \<Longrightarrow>
   fold (\<lambda>i t. t[m - 1 - i := g i]) [0..<k] t = take (m - k) t @ rev (map g [0..<k]) @ drop m t"
proof (induction k)
  case 0
  then show ?case by simp
next
  case (Suc k)
  have "m - k = Suc (m - Suc k)" using Suc.prems by simp
  then have "take (m - k) t = take (m - Suc k) t @ [t ! (m - Suc k)]"
    using Suc.prems by (simp add: take_Suc_conv_app_nth)
  with Suc show ?case by (simp add: list_update_append)
qed

lemma be64_rev: "rev (map (\<lambda>i. ucast (drop_bit (8 * i) x) :: u8) [0..<8]) = be64 x"
  by (simp add: be64_def upt_rec)

lemma take_two: "length a + length b = m \<Longrightarrow> take m (a @ b @ c) = a @ b"
  by simp

lemma sha1_tail_eq:
  assumes "length left < 64"
  shows "sha1_tail n left = left @ [0x80] @ replicate ((119 - length left) mod 64) 0 @ be64 (of_nat n * 8)"
proof -
  let ?m = "if length left + 9 \<le> 64 then 64 else 128 :: nat"
  let ?t = "(left @ replicate (128 - length left) 0)[length left := 0x80] :: bytes"
  have t: "?t = left @ 0x80 # replicate (127 - length left) 0"
    using assms by (simp add: list_update_append) (simp add: Suc_diff_Suc [symmetric] numeral_eq_Suc)
  have len: "length ?t = 128" using assms by simp
  have "take (?m - 8) ?t = left @ [0x80] @ replicate ((119 - length left) mod 64) 0"
    unfolding t using assms by (auto simp: take_Cons' mod_if)
  moreover define F where "F = fold (\<lambda>i t. t[?m - 1 - i := ucast (drop_bit (8 * i) (of_nat n * 8 :: u64))]) [0..<8] ?t"
  have F: "F = take (?m - 8) ?t @ be64 (of_nat n * 8) @ drop ?m ?t"
    unfolding F_def be64_rev [symmetric] by (rule fold_update_back) (use len in auto)
  have "length (take (?m - 8) ?t @ be64 (of_nat n * 8)) = ?m" using len by (simp add: be64_def)
  then have "take ?m F = take (?m - 8) ?t @ be64 (of_nat n * 8)"
    unfolding F by (intro take_two) simp
  moreover have "sha1_tail n left = take ?m F" by (simp add: sha1_tail_def F_def Let_def)
  ultimately show ?thesis by simp
qed

lemma sha1_blocks_append:
  "64 dvd length a \<Longrightarrow> sha1_blocks h (a @ b) = sha1_blocks (fst (sha1_blocks h a)) b"
proof (induction h a rule: sha1_blocks.induct)
  case (1 h p)
  show ?case
  proof (cases "64 \<le> length p")
    case True
    then have "64 dvd length (drop 64 p)" using 1(2) by simp
    with 1(1) True show ?thesis
      by (subst (1 2) sha1_blocks.simps) simp
  next
    case False
    with 1(2) have "p = []" by (auto dest: dvd_imp_le)
    then show ?thesis by (simp add: sha1_blocks.simps [of h "[]"])
  qed
qed

lemma sha1_blocks_left:
  "snd (sha1_blocks h p) = drop (64 * (length p div 64)) p \<and>
   fst (sha1_blocks h p) = fst (sha1_blocks h (take (64 * (length p div 64)) p))"
proof -
  let ?n = "64 * (length p div 64)"
  have "length (drop ?n p) < 64" by (simp add: minus_mult_div_eq_mod)
  then have "sha1_blocks h' (drop ?n p) = (h', drop ?n p)" for h' by (simp add: sha1_blocks.simps [of h'])
  moreover have "64 dvd length (take ?n p)" by simp
  ultimately show ?thesis
    using sha1_blocks_append [of "take ?n p" h "drop ?n p"] by simp
qed

lemma sha1_blocks_single: "length b = 64 \<Longrightarrow> sha1_blocks h b = (sha1_block h b, [])"
  by (simp add: sha1_blocks.simps [of h b] sha1_blocks.simps [of _ "[]"])

text \<open>
  C27. \<^verbatim>\<open>vv_sha1\<close> hashes the padded message. The padding of FIPS 180-4 is a whole number of blocks, and the
  digest is that of the compression function folded over all of them: hashing the message's whole blocks in place and
  building one or two blocks in a 128-byte tail is the same thing, at every length.
\<close>

theorem sha1_hashes_padded:
  "64 dvd length (sha1_pad data) \<and> vv_sha1 data = sha1_digest (fst (sha1_blocks sha1_init (sha1_pad data))) \<and>
   length (vv_sha1 data) = 20"
proof -
  let ?n = "64 * (length data div 64)"
  let ?left = "drop ?n data"
  let ?tail = "sha1_tail (length data) ?left"
  let ?h = "fst (sha1_blocks sha1_init data)"
  have len: "length ?left = length data mod 64" by (simp add: minus_mult_div_eq_mod)
  then have lt: "length ?left < 64" by simp
  have pad: "sha1_pad data = take ?n data @ ?tail"
    using sha1_tail_eq [OF lt, of "length data"] unfolding len by (simp add: sha1_pad_def)
  have m: "length ?tail = 64 \<or> length ?tail = 128"
    using lt by (auto simp: sha1_tail_eq [OF lt] be64_def mod_if)
  have h: "?h = fst (sha1_blocks sha1_init (take ?n data))"
    using sha1_blocks_left [of sha1_init data] by simp
  have "fst (sha1_blocks sha1_init (sha1_pad data)) = fst (sha1_blocks ?h ?tail)"
    unfolding pad h by (subst sha1_blocks_append) auto
  also have "\<dots> = (if length ?tail = 128 then sha1_block (sha1_block ?h (take 64 ?tail)) (drop 64 ?tail)
      else sha1_block ?h (take 64 ?tail))"
    using m by (auto simp: sha1_blocks_single sha1_blocks.simps [of ?h ?tail] sha1_blocks.simps [of _ "[]"])
  also have "sha1_digest \<dots> = vv_sha1 data"
    using sha1_blocks_left [of sha1_init data]
    by (cases "sha1_blocks sha1_init data") (auto simp: vv_sha1_def sha1_digest_def Let_def)
  finally have eq: "sha1_digest (fst (sha1_blocks sha1_init (sha1_pad data))) = vv_sha1 data" .
  have "length (sha1_digest x) = 20" for x
    by (cases x) (simp add: sha1_digest_def be_bytes32_def)
  with eq m show ?thesis by (auto simp: pad simp flip: eq)
qed

subsection \<open>Server-Sent Events\<close>

text \<open>The event as a whole, and how a client reads it (WHATWG, 9.2.6).\<close>

function split_lines :: "string \<Rightarrow> string list" where
  "split_lines p =
     (let cut = length (takeWhile (\<lambda>c. c \<noteq> CHR 0x0A) p)
      in if cut < length p then take cut p # split_lines (drop (cut + 1) p) else [p])"
  by auto
termination by (relation "measure length") auto

declare split_lines.simps [simp del]

definition chomp :: "string \<Rightarrow> string" where
  "chomp l = (if l \<noteq> [] \<and> last l = CHR 0x0D then butlast l else l)"

definition sse_event :: "string option \<Rightarrow> string \<Rightarrow> string" where
  "sse_event event data =
     (case event of Some (c # cs) \<Rightarrow> ''event: '' @ (c # cs) @ [CHR 0x0A] | _ \<Rightarrow> [])
     @ concat (map (\<lambda>l. ''data: '' @ chomp l @ [CHR 0x0A]) (split_lines data)) @ [CHR 0x0A]"

text \<open>What \<^verbatim>\<open>PUT\<close> keeps: the text so far, cut to the buffer, and its full length.\<close>

definition sse_buf :: "nat option \<Rightarrow> string \<Rightarrow> string \<times> nat" where
  "sse_buf cap t = (case cap of None \<Rightarrow> [] | Some c \<Rightarrow> take (c - 1) t, length t)"

lemma sse_put_buf [simp]: "sse_put cap s (sse_buf cap t) = sse_buf cap (t @ s)"
  by (auto simp: sse_put_def sse_buf_def split: option.split)

lemma sse_line_cut:
  fixes p :: string
  defines "k \<equiv> length (takeWhile (\<lambda>c. c \<noteq> CHR 0x0A) p)"
  shows "take (if k > 0 \<and> p ! (k - 1) = CHR 0x0D then k - 1 else k) p = chomp (take k p)"
proof (cases "k = 0")
  case True
  then show ?thesis by (simp add: chomp_def)
next
  case False
  have le: "k \<le> length p" by (simp add: k_def length_takeWhile_le)
  with False have ne: "take k p \<noteq> []" by auto
  with False le have "last (take k p) = p ! (k - 1)" "butlast (take k p) = take (k - 1) p"
    by (simp_all add: last_conv_nth butlast_take min_absorb2)
  with False ne show ?thesis by (simp add: chomp_def)
qed

lemma sse_lines_buf:
  "sse_lines cap p (sse_buf cap t) =
   sse_buf cap (t @ concat (map (\<lambda>l. ''data: '' @ chomp l @ [CHR 0x0A]) (split_lines p)))"
proof (induction p arbitrary: t rule: split_lines.induct)
  case (1 p)
  let ?cut = "length (takeWhile (\<lambda>c. c \<noteq> CHR 0x0A) p)"
  let ?d = "''data: '' @ chomp (take ?cut p) @ [CHR 0x0A]"
  have u: "sse_lines cap p (sse_buf cap t) =
      (if ?cut < length p then sse_lines cap (drop (?cut + 1) p) (sse_buf cap (t @ ?d)) else sse_buf cap (t @ ?d))"
    unfolding sse_lines.simps [of cap p] Let_def sse_line_cut sse_put_buf append_assoc by (rule refl)
  show ?case
  proof (cases "?cut < length p")
    case True
    with 1 [OF refl True] u show ?thesis by (simp add: split_lines.simps [of p] Let_def)
  next
    case False
    with u show ?thesis by (simp add: split_lines.simps [of p] Let_def)
  qed
qed

text \<open>
  \<^verbatim>\<open>vv_sse_format\<close> keeps the contract of \<^verbatim>\<open>snprintf\<close>. The count it returns is the length of the whole
  event, whatever the buffer; the buffer receives the event cut to one byte less than it has room
  for (the NUL takes the last), so an event that fits is written whole, and nothing is written
  where there is no buffer.
\<close>

theorem sse_format_snprintf:
  "vv_sse_format event data cap =
   (case cap of None \<Rightarrow> [] | Some c \<Rightarrow> take (c - 1) (sse_event event (case data of None \<Rightarrow> [] | Some d \<Rightarrow> d)),
    length (sse_event event (case data of None \<Rightarrow> [] | Some d \<Rightarrow> d)))"
proof -
  have e: "([], 0) = sse_buf cap []" by (simp add: sse_buf_def split: option.split)
  have "vv_sse_format event data cap = sse_buf cap (sse_event event (case data of None \<Rightarrow> [] | Some d \<Rightarrow> d))"
    unfolding vv_sse_format_def Let_def e
    by (auto simp: sse_lines_buf sse_event_def split: list.split option.split)
  then show ?thesis by (simp add: sse_buf_def)
qed

end
