(* ===== verification/WsParser.thy ===== *)
theory WsParser
  imports WebSocket
begin

unbundle bit_operations_syntax

text \<open>
  The incremental parser of client frames (\<^verbatim>\<open>src/server/ws.c\<close>, "Parser"): the struct as a record
  whose buffers are their contents and capacities, the whole of \<^verbatim>\<open>vv_ws_parser_feed\<close> with its
  in-place unmasking, and its message callback as the list of the calls it makes. What \<^verbatim>\<open>vv_realloc\<close> answers is the
  parameter \<open>ok\<close>, by the number of the request and its size, so every pattern of failures is there; \<open>ws_requests\<close>, which is
  not in the struct, counts the requests.

  The specification \<open>ws_run\<close> knows nothing of buffers, offsets or capacities: it reads frames off a
  list of bytes. The parser implements it, and what the specification does not depend on, how
  the bytes were cut into reads, the parser does not depend on either.
\<close>

record ws_parser =
  ws_max_message :: nat
  ws_require_mask :: bool
  ws_in :: bytes
  ws_in_cap :: nat
  ws_msg :: bytes
  ws_msg_cap :: nat
  ws_msg_opcode :: nat
  ws_close_code :: nat
  ws_failed :: bool
  ws_requests :: nat

type_synonym ws_call = "nat \<times> bytes"

definition vv_ws_parser_init :: "nat \<Rightarrow> ws_parser" where
  "vv_ws_parser_init max_message =
     \<lparr>ws_max_message = (if max_message \<noteq> 0 then max_message else 16 * 2 ^ 20), ws_require_mask = True,
      ws_in = [], ws_in_cap = 0, ws_msg = [], ws_msg_cap = 0, ws_msg_opcode = 0, ws_close_code = 0,
      ws_failed = False, ws_requests = 0\<rparr>"

definition vv_ws_parser_free :: "ws_parser \<Rightarrow> ws_parser" where
  "vv_ws_parser_free p =
     \<lparr>ws_max_message = 0, ws_require_mask = False, ws_in = [], ws_in_cap = 0, ws_msg = [], ws_msg_cap = 0,
      ws_msg_opcode = 0, ws_close_code = 0, ws_failed = False, ws_requests = ws_requests p\<rparr>"

function ws_grow_cap :: "nat \<Rightarrow> nat \<Rightarrow> nat" where
  "ws_grow_cap c need = (if 0 < c \<and> c < need then ws_grow_cap (2 * c) need else c)"
  by auto
termination by (relation "measure (\<lambda>(c, need). need - c)") auto

declare ws_grow_cap.simps [simp del]

text \<open>Whether there is room, the capacity, and the number of requests made so far.\<close>

definition grow :: "(nat \<Rightarrow> nat \<Rightarrow> bool) \<Rightarrow> nat \<Rightarrow> nat \<Rightarrow> nat \<Rightarrow> bool \<times> nat \<times> nat" where
  "grow ok r cap need =
     (if need \<le> cap then (True, cap, r)
      else let c = ws_grow_cap (if cap \<noteq> 0 then cap else 4096) need in
        if ok r c then (True, c, Suc r) else (False, cap, Suc r))"

definition VV_WS_CLOSE_PROTOCOL :: nat where [simp]: "VV_WS_CLOSE_PROTOCOL = 1002"
definition VV_WS_CLOSE_TOO_BIG :: nat where [simp]: "VV_WS_CLOSE_TOO_BIG = 1009"
definition VV_WS_OP_CONT :: nat where [simp]: "VV_WS_OP_CONT = 0"

definition ws_code_status :: "nat \<Rightarrow> vv_status" where
  "ws_code_status code = (if code = VV_WS_CLOSE_TOO_BIG then VV_ERR_OVERFLOW else VV_ERR_PARSE)"

definition ws_fail :: "ws_parser \<Rightarrow> nat \<Rightarrow> vv_status \<times> ws_parser" where
  "ws_fail p code = (ws_code_status code, p\<lparr>ws_failed := True, ws_close_code := code\<rparr>)"

text \<open>
  The header of the frame at the start of \<open>f\<close>, with the tests in the order the code makes them:
  more bytes are needed, the connection is to be closed, or the frame is all there.
\<close>

datatype ws_head = More | Bad nat | Head (h_fin: bool) (h_op: nat) (h_masked: bool) (h_len: nat) (h_hl: nat)

definition be_len :: "bytes \<Rightarrow> u64" where
  "be_len bs = fold (\<lambda>b len. push_bit 8 len OR ucast b) bs 0"

definition ws_head_tail :: "nat \<Rightarrow> nat \<Rightarrow> bytes \<Rightarrow> bool \<Rightarrow> nat \<Rightarrow> bool \<Rightarrow> nat \<Rightarrow> nat \<Rightarrow> ws_head" where
  "ws_head_tail max_message msg_len f fin op masked len hl =
     (if len > max_message then Bad VV_WS_CLOSE_TOO_BIG
      else if op = VV_WS_OP_CONT \<and> msg_len + len > max_message then Bad VV_WS_CLOSE_TOO_BIG
      else let hl = (if masked then hl + 4 else hl) in
        if length f < hl + len then More else Head fin op masked len hl)"

definition ws_head_body :: "nat \<Rightarrow> bool \<Rightarrow> nat \<Rightarrow> bytes \<Rightarrow> bool \<Rightarrow> bool \<Rightarrow> nat \<Rightarrow> bool \<Rightarrow> nat \<Rightarrow> ws_head" where
  "ws_head_body max_message require_mask msg_len f fin rsv op masked len =
     (if rsv then Bad VV_WS_CLOSE_PROTOCOL
      else if \<not> (op \<le> 2 \<or> (op \<ge> 8 \<and> op \<le> 10)) then Bad VV_WS_CLOSE_PROTOCOL
      else if require_mask \<and> \<not> masked then Bad VV_WS_CLOSE_PROTOCOL
      else if op \<ge> 8 \<and> (\<not> fin \<or> len > 125) then Bad VV_WS_CLOSE_PROTOCOL
      else if len = 126 then
        if length f < 4 then More
        else ws_head_tail max_message msg_len f fin op masked (unat (be_len (take 2 (drop 2 f)))) 4
      else if len = 127 then
        if length f < 10 then More
        else let len = be_len (take 8 (drop 2 f)) in
          if drop_bit 63 len \<noteq> 0 then Bad VV_WS_CLOSE_PROTOCOL
          else ws_head_tail max_message msg_len f fin op masked (unat len) 10
      else ws_head_tail max_message msg_len f fin op masked len 2)"

definition ws_frame_head :: "nat \<Rightarrow> bool \<Rightarrow> nat \<Rightarrow> bytes \<Rightarrow> ws_head" where
  "ws_frame_head max_message require_mask msg_len f =
     (if length f < 2 then More
      else ws_head_body max_message require_mask msg_len f
             (f ! 0 AND 0x80 \<noteq> 0) (f ! 0 AND 0x70 \<noteq> 0) (unat (f ! 0 AND 0x0F))
             (f ! 1 AND 0x80 \<noteq> 0) (unat (f ! 1 AND 0x7F)))"

definition ws_mask :: "bytes \<Rightarrow> bytes \<Rightarrow> bytes" where
  "ws_mask key payload = map (\<lambda>i. payload ! i XOR key ! (i mod 4)) [0..<length payload]"

definition ws_unmask :: "bool \<Rightarrow> nat \<Rightarrow> nat \<Rightarrow> bytes \<Rightarrow> bytes" where
  "ws_unmask masked hl len f =
     (if masked then ws_mask (take 4 (drop (hl - 4) f)) (take len (drop hl f)) else take len (drop hl f))"

text \<open>
  One turn of the loop at offset \<open>off\<close>: \<open>Break\<close>, a \<open>return\<close>, or the calls made and the next offset.
\<close>

datatype ws_turn = Break | Return vv_status ws_parser | Turn ws_parser nat "ws_call list"

definition ws_turn_at :: "(nat \<Rightarrow> nat \<Rightarrow> bool) \<Rightarrow> ws_parser \<Rightarrow> nat \<Rightarrow> ws_turn" where
  "ws_turn_at ok p off =
     (let f = drop off (ws_in p) in
      case ws_frame_head (ws_max_message p) (ws_require_mask p) (length (ws_msg p)) f of
        More \<Rightarrow> Break
      | Bad code \<Rightarrow> (case ws_fail p code of (s, p) \<Rightarrow> Return s p)
      | Head fin op masked len hl \<Rightarrow>
          let payload = ws_unmask masked hl len f;
              p = p\<lparr>ws_in := take (off + hl) (ws_in p) @ payload @ drop (off + hl + len) (ws_in p)\<rparr>;
              next_off = off + hl + len
          in if op \<ge> 8 then Turn p next_off [(op, payload)]
             else if op = VV_WS_OP_CONT then
               if ws_msg_opcode p = 0 then (case ws_fail p VV_WS_CLOSE_PROTOCOL of (s, p) \<Rightarrow> Return s p)
               else (case grow ok (ws_requests p) (ws_msg_cap p) (length (ws_msg p) + len + 1) of
                       (False, _, r) \<Rightarrow> Return VV_ERR_OUT_OF_MEMORY (p\<lparr>ws_requests := r\<rparr>)
                     | (True, cap, r) \<Rightarrow>
                         let p = p\<lparr>ws_requests := r, ws_msg_cap := cap, ws_msg := ws_msg p @ payload\<rparr> in
                         if fin then Turn (p\<lparr>ws_msg_opcode := 0, ws_msg := []\<rparr>) next_off [(ws_msg_opcode p, ws_msg p)]
                         else Turn p next_off [])
             else if ws_msg_opcode p \<noteq> 0 then (case ws_fail p VV_WS_CLOSE_PROTOCOL of (s, p) \<Rightarrow> Return s p)
             else if fin then Turn p next_off [(op, payload)]
             else (case grow ok (ws_requests p) (ws_msg_cap p) (len + 1) of
                     (False, _, r) \<Rightarrow> Return VV_ERR_OUT_OF_MEMORY (p\<lparr>ws_requests := r\<rparr>)
                   | (True, cap, r) \<Rightarrow>
                       Turn (p\<lparr>ws_requests := r, ws_msg_cap := cap, ws_msg := payload, ws_msg_opcode := op\<rparr>) next_off []))"

subsection \<open>The loop ends\<close>

lemma head_fits:
  assumes "ws_frame_head m r n f = Head fin op masked len hl"
  shows "hl + len \<le> length f \<and> 2 \<le> hl \<and> (masked \<longrightarrow> 6 \<le> hl) \<and> len \<le> m \<and>
    (op \<le> 2 \<or> 8 \<le> op \<and> op \<le> 10) \<and> (op = 0 \<longrightarrow> n + len \<le> m)"
  using assms by (auto simp: ws_frame_head_def ws_head_body_def ws_head_tail_def Let_def split: if_splits)

lemma length_ws_unmask: "hl + len \<le> length f \<Longrightarrow> length (ws_unmask masked hl len f) = len"
  by (simp add: ws_unmask_def ws_mask_def)

lemma turn_advances:
  assumes "ws_turn_at ok p off = Turn p' off' ds"
  shows "off < off' \<and> off' \<le> length (ws_in p') \<and> length (ws_in p') = length (ws_in p)"
proof (cases "ws_frame_head (ws_max_message p) (ws_require_mask p) (length (ws_msg p)) (drop off (ws_in p))")
  case (Head fin op masked len hl)
  note b = head_fits [OF Head]
  from b have "length (ws_unmask masked hl len (drop off (ws_in p))) = len" by (intro length_ws_unmask) simp
  with b assms Head show ?thesis
    by (auto simp: ws_turn_at_def ws_fail_def Let_def split: if_splits prod.splits bool.splits)
qed (use assms in \<open>auto simp: ws_turn_at_def ws_fail_def\<close>)

function ws_loop :: "(nat \<Rightarrow> nat \<Rightarrow> bool) \<Rightarrow> ws_parser \<Rightarrow> nat \<Rightarrow> vv_status \<times> ws_parser \<times> ws_call list" where
  "ws_loop ok p off =
     (case ws_turn_at ok p off of
        Break \<Rightarrow> (VV_OK, p\<lparr>ws_in := drop off (ws_in p)\<rparr>, [])
      | Return s p \<Rightarrow> (s, p, [])
      | Turn p off ds \<Rightarrow> (case ws_loop ok p off of (s, p, ds') \<Rightarrow> (s, p, ds @ ds')))"
  by auto
termination
proof (relation "measure (\<lambda>(ok, p, off). length (ws_in p) - off)")
  show "wf (measure (\<lambda>(ok, p, off). length (ws_in p) - off))" by simp
next
  fix ok :: "nat \<Rightarrow> nat \<Rightarrow> bool" and p :: ws_parser and off :: nat and p' off' ds
  assume "ws_turn_at ok p off = Turn p' off' ds"
  from turn_advances [OF this] show "((ok, p', off'), (ok, p, off)) \<in> measure (\<lambda>(ok, p, off). length (ws_in p) - off)"
    by auto
qed

declare ws_loop.simps [simp del]

definition vv_ws_parser_feed ::
  "(nat \<Rightarrow> nat \<Rightarrow> bool) \<Rightarrow> ws_parser option \<Rightarrow> bytes option \<Rightarrow> nat \<Rightarrow> vv_status \<times> ws_parser option \<times> ws_call list" where
  "vv_ws_parser_feed ok parser data n =
     (case parser of
        None \<Rightarrow> (VV_ERR_NULL_PTR, None, [])
      | Some p \<Rightarrow>
          if ws_failed p then (ws_code_status (ws_close_code p), Some p, [])
          else if n = 0 then (case ws_loop ok p 0 of (s, p, ds) \<Rightarrow> (s, Some p, ds))
          else
            (case data of
               None \<Rightarrow> (VV_ERR_NULL_PTR, Some p, [])
             | Some d \<Rightarrow>
                 (case grow ok (ws_requests p) (ws_in_cap p) (length (ws_in p) + n) of
                    (False, _, r) \<Rightarrow> (VV_ERR_OUT_OF_MEMORY, Some (p\<lparr>ws_requests := r\<rparr>), [])
                  | (True, cap, r) \<Rightarrow>
                      (case ws_loop ok (p\<lparr>ws_requests := r, ws_in_cap := cap, ws_in := ws_in p @ take n d\<rparr>) 0 of
                         (s, p, ds) \<Rightarrow> (s, Some p, ds)))))"

subsection \<open>The specification\<close>

text \<open>
  A message in progress is its opcode (0 for none) and its bytes. A frame either needs more input, closes the
  connection, or makes calls and leaves the rest.
\<close>

datatype ws_out = SMore | SBad nat | SFrame "ws_call list" nat bytes bytes

definition ws_frame :: "nat \<Rightarrow> bool \<Rightarrow> nat \<Rightarrow> bytes \<Rightarrow> bytes \<Rightarrow> ws_out" where
  "ws_frame m r op0 msg f =
     (case ws_frame_head m r (length msg) f of
        More \<Rightarrow> SMore
      | Bad code \<Rightarrow> SBad code
      | Head fin op masked len hl \<Rightarrow>
          let payload = ws_unmask masked hl len f; rest = drop (hl + len) f in
          if op \<ge> 8 then SFrame [(op, payload)] op0 msg rest
          else if op = 0 then
            if op0 = 0 then SBad 1002
            else if fin then SFrame [(op0, msg @ payload)] 0 [] rest
            else SFrame [] op0 (msg @ payload) rest
          else if op0 \<noteq> 0 then SBad 1002
          else if fin then SFrame [(op, payload)] op0 msg rest
          else SFrame [] op payload rest)"

lemma ws_frame_shrinks: "ws_frame m r op0 msg f = SFrame ds op1 msg1 rest \<Longrightarrow> length rest < length f"
proof (cases "ws_frame_head m r (length msg) f")
  case (Head fin op masked len hl)
  assume "ws_frame m r op0 msg f = SFrame ds op1 msg1 rest"
  with head_fits [OF Head] Head show ?thesis by (auto simp: ws_frame_def Let_def split: if_splits)
qed (auto simp: ws_frame_def)

function ws_run :: "nat \<Rightarrow> bool \<Rightarrow> nat \<Rightarrow> bytes \<Rightarrow> bytes \<Rightarrow> nat option \<times> ws_call list \<times> nat \<times> bytes \<times> bytes" where
  "ws_run m r op0 msg f =
     (case ws_frame m r op0 msg f of
        SMore \<Rightarrow> (None, [], op0, msg, f)
      | SBad code \<Rightarrow> (Some code, [], op0, msg, f)
      | SFrame ds op1 msg1 rest \<Rightarrow> (case ws_run m r op1 msg1 rest of (e, ds', s) \<Rightarrow> (e, ds @ ds', s)))"
  by auto
termination
  by (relation "measure (\<lambda>(m, r, op0, msg, f). length f)") (auto dest: ws_frame_shrinks)

declare ws_run.simps [simp del]

subsection \<open>The specification reads a stream\<close>

lemma head_tail_mono:
  "ws_head_tail m n f fin op masked len hl \<noteq> More \<Longrightarrow>
   ws_head_tail m n (f @ g) fin op masked len hl = ws_head_tail m n f fin op masked len hl"
  by (auto simp: ws_head_tail_def Let_def split: if_splits)

lemma head_body_mono:
  assumes "2 \<le> length f" and "ws_head_body m r n f fin rsv op masked len \<noteq> More"
  shows "ws_head_body m r n (f @ g) fin rsv op masked len = ws_head_body m r n f fin rsv op masked len"
proof -
  have "4 \<le> length f \<Longrightarrow> take 2 (drop 2 (f @ g)) = take 2 (drop 2 f)"
    "10 \<le> length f \<Longrightarrow> take 8 (drop 2 (f @ g)) = take 8 (drop 2 f)" by simp_all
  note eq = this
  show ?thesis
  proof (cases "rsv \<or> \<not> (op \<le> 2 \<or> (op \<ge> 8 \<and> op \<le> 10)) \<or> (r \<and> \<not> masked) \<or> (op \<ge> 8 \<and> (\<not> fin \<or> len > 125))")
    case True
    then have "ws_head_body m r n f' fin rsv op masked len = Bad 1002" for f'
      by (elim disjE) (auto simp: ws_head_body_def)
    then show ?thesis by simp
  next
    case False
    have body: "ws_head_body m r n f' fin rsv op masked len =
        (if len = 126 then
           if length f' < 4 then More
           else ws_head_tail m n f' fin op masked (unat (be_len (take 2 (drop 2 f')))) 4
         else if len = 127 then
           if length f' < 10 then More
           else if drop_bit 63 (be_len (take 8 (drop 2 f'))) \<noteq> 0 then Bad 1002
           else ws_head_tail m n f' fin op masked (unat (be_len (take 8 (drop 2 f')))) 10
         else ws_head_tail m n f' fin op masked len 2)" for f'
      using False unfolding ws_head_body_def Let_def VV_WS_CLOSE_PROTOCOL_def by argo
    have "\<not> length f < 4" if "len = 126" using that assms(2) unfolding body by auto
    moreover have "\<not> length f < 10" if "len = 127" using that assms(2) unfolding body by auto
    ultimately show ?thesis
      using eq assms(2) head_tail_mono [of m n f fin op masked _ _ g] unfolding body
      by (cases "len = 126"; cases "len = 127") (simp_all del: take_append drop_append split: if_splits)
  qed
qed

lemma head_mono:
  assumes "ws_frame_head m r n f \<noteq> More"
  shows "ws_frame_head m r n (f @ g) = ws_frame_head m r n f"
proof -
  have "2 \<le> length f" by (rule ccontr) (use assms in \<open>simp add: ws_frame_head_def\<close>)
  then have "(f @ g) ! 0 = f ! 0" "(f @ g) ! 1 = f ! 1" by (auto simp: nth_append)
  moreover have "\<not> length f < 2" "\<not> length (f @ g) < 2" using \<open>2 \<le> length f\<close> by simp_all
  ultimately show ?thesis
    using assms head_body_mono [OF \<open>2 \<le> length f\<close>] unfolding ws_frame_head_def by (simp only: if_False)
qed

lemma unmask_mono:
  assumes "hl + len \<le> length f" and "masked \<longrightarrow> 6 \<le> hl"
  shows "ws_unmask masked hl len (f @ g) = ws_unmask masked hl len f"
proof -
  have "masked \<Longrightarrow> 4 + (hl - 4) - length f = 0" using assms by auto
  with assms show ?thesis by (simp add: ws_unmask_def)
qed

lemma frame_mono:
  "ws_frame m r op0 msg f = SFrame ds op1 msg1 rest \<Longrightarrow>
   ws_frame m r op0 msg (f @ g) = SFrame ds op1 msg1 (rest @ g)"
  "ws_frame m r op0 msg f = SBad code \<Longrightarrow> ws_frame m r op0 msg (f @ g) = SBad code"
proof -
  assume a: "ws_frame m r op0 msg f = SFrame ds op1 msg1 rest"
  then obtain fin op masked len hl where h: "ws_frame_head m r (length msg) f = Head fin op masked len hl"
    by (cases "ws_frame_head m r (length msg) f") (auto simp: ws_frame_def)
  from head_fits [OF h] a h head_mono [of m r "length msg" f g] unmask_mono [of hl len f masked g]
  show "ws_frame m r op0 msg (f @ g) = SFrame ds op1 msg1 (rest @ g)"
    by (auto simp: ws_frame_def Let_def split: if_splits)
next
  assume a: "ws_frame m r op0 msg f = SBad code"
  show "ws_frame m r op0 msg (f @ g) = SBad code"
  proof (cases "ws_frame_head m r (length msg) f")
    case (Head fin op masked len hl)
    with a head_mono [of m r "length msg" f g] show ?thesis by (auto simp: ws_frame_def Let_def split: if_splits)
  next
    case (Bad c)
    with a head_mono [of m r "length msg" f g] show ?thesis by (simp add: ws_frame_def)
  qed (use a in \<open>simp add: ws_frame_def\<close>)
qed

lemma ws_run_append:
  "ws_run m r op0 msg (f @ g) =
     (case ws_run m r op0 msg f of (e, ds, op1, msg1, rest) \<Rightarrow>
        if e = None then (case ws_run m r op1 msg1 (rest @ g) of (e', ds', s) \<Rightarrow> (e', ds @ ds', s))
        else (e, ds, op1, msg1, rest @ g))"
proof (induction m r op0 msg f rule: ws_run.induct)
  case (1 m r op0 msg f)
  show ?case
  proof (cases "ws_frame m r op0 msg f")
    case SMore
    then show ?thesis by (simp add: ws_run.simps [of m r op0 msg f])
  next
    case (SBad c)
    then show ?thesis by (simp add: ws_run.simps [of _ _ _ _ "f @ g"] ws_run.simps [of _ _ _ _ f] frame_mono)
  next
    case (SFrame ds op1 msg1 rest)
    then have "ws_run m r op0 msg (f @ g) = (case ws_run m r op1 msg1 (rest @ g) of (e, ds', s) \<Rightarrow> (e, ds @ ds', s))"
      by (simp add: ws_run.simps [of _ _ _ _ "f @ g"] frame_mono)
    moreover obtain e ds2 op2 msg2 rest2 where "ws_run m r op1 msg1 rest = (e, ds2, op2, msg2, rest2)"
      by (cases "ws_run m r op1 msg1 rest")
    moreover obtain e3 ds3 s3 where "ws_run m r op2 msg2 (rest2 @ g) = (e3, ds3, s3)"
      by (cases "ws_run m r op2 msg2 (rest2 @ g)")
    ultimately show ?thesis using 1 [OF SFrame] SFrame
      by (simp add: ws_run.simps [of _ _ _ _ f])
  qed
qed

lemma ws_run_rest_quiet:
  "ws_run m r op0 msg f = (None, ds, op1, msg1, rest) \<Longrightarrow> ws_frame m r op1 msg1 rest = SMore"
proof (induction m r op0 msg f arbitrary: ds rule: ws_run.induct)
  case (1 m r op0 msg f)
  show ?case
  proof (cases "ws_frame m r op0 msg f")
    case (SFrame ds1 op2 msg2 rest2)
    with 1 show ?thesis by (auto simp: ws_run.simps [of _ _ _ _ f] split: prod.splits)
  qed (use 1 in \<open>auto simp: ws_run.simps [of _ _ _ _ f]\<close>)
qed

subsection \<open>The parser implements it\<close>

abbreviation never_fails :: "nat \<Rightarrow> nat \<Rightarrow> bool" where
  "never_fails \<equiv> \<lambda>_ _. True"

text \<open>Either memory ran out, which it does not if no request fails, or what the specification says.\<close>

definition unless_oom :: "(nat \<Rightarrow> nat \<Rightarrow> bool) \<Rightarrow> vv_status \<Rightarrow> bool \<Rightarrow> bool" where
  "unless_oom ok s spec \<longleftrightarrow> (s = VV_ERR_OUT_OF_MEMORY \<and> ok \<noteq> never_fails) \<or> spec"

lemma grow_cases:
  obtains (room) cap r where "grow ok q c need = (True, cap, r)"
  | (none) r where "grow ok q c need = (False, c, r)" and "ok \<noteq> never_fails"
  by (cases "grow ok q c need") (auto simp: grow_def Let_def split: if_splits)

definition ws_ctx :: "ws_parser \<Rightarrow> nat \<times> bool \<times> bool \<times> nat" where
  "ws_ctx p = (ws_max_message p, ws_require_mask p, ws_failed p, ws_close_code p)"

abbreviation frame_at :: "ws_parser \<Rightarrow> nat \<Rightarrow> ws_out" where
  "frame_at p off \<equiv> ws_frame (ws_max_message p) (ws_require_mask p) (ws_msg_opcode p) (ws_msg p) (drop off (ws_in p))"

lemma turn_refines:
  "frame_at p off = SMore \<Longrightarrow> ws_turn_at ok p off = Break"
  "frame_at p off = SBad c \<Longrightarrow> \<exists>p'. ws_turn_at ok p off = Return (ws_code_status c) p' \<and>
     ws_failed p' \<and> ws_close_code p' = c \<and> ws_max_message p' = ws_max_message p"
  "frame_at p off = SFrame ds op1 msg1 rest \<Longrightarrow>
     (ok \<noteq> never_fails \<and> (\<exists>p'. ws_turn_at ok p off = Return VV_ERR_OUT_OF_MEMORY p')) \<or>
     (\<exists>p' off'. ws_turn_at ok p off = Turn p' off' ds \<and> drop off' (ws_in p') = rest \<and>
       ws_msg_opcode p' = op1 \<and> ws_msg p' = msg1 \<and> ws_ctx p' = ws_ctx p)"
proof -
  let ?h = "ws_frame_head (ws_max_message p) (ws_require_mask p) (length (ws_msg p)) (drop off (ws_in p))"
  show "frame_at p off = SMore \<Longrightarrow> ws_turn_at ok p off = Break"
    by (cases ?h) (auto simp: ws_frame_def ws_turn_at_def Let_def split: if_splits)
  show "\<exists>p'. ws_turn_at ok p off = Return (ws_code_status c) p' \<and>
     ws_failed p' \<and> ws_close_code p' = c \<and> ws_max_message p' = ws_max_message p" if "frame_at p off = SBad c"
    using that by (cases ?h) (auto simp: ws_frame_def ws_turn_at_def ws_fail_def Let_def split: if_splits)
  show "(ok \<noteq> never_fails \<and> (\<exists>p'. ws_turn_at ok p off = Return VV_ERR_OUT_OF_MEMORY p')) \<or>
     (\<exists>p' off'. ws_turn_at ok p off = Turn p' off' ds \<and> drop off' (ws_in p') = rest \<and>
       ws_msg_opcode p' = op1 \<and> ws_msg p' = msg1 \<and> ws_ctx p' = ws_ctx p)" if "frame_at p off = SFrame ds op1 msg1 rest"
  proof (cases ?h)
    case (Head fin op masked len hl)
    have b: "hl + len \<le> length (drop off (ws_in p))" using head_fits [OF Head] by simp
    have le: "off + hl \<le> length (ws_in p)" using head_fits [OF Head] by auto
    define q where "q = ws_unmask masked hl len (drop off (ws_in p))"
    have "length q = len" unfolding q_def using b by (intro length_ws_unmask) simp
    then have d: "drop (off + hl + len) (take (off + hl) (ws_in p) @ q @ drop (off + hl + len) (ws_in p)) =
        drop (hl + len) (drop off (ws_in p))"
      using le by (simp add: min_absorb2 ac_simps)
    obtain b1 cap1 r1 where g1: "grow ok (ws_requests p) (ws_msg_cap p) (length (ws_msg p) + len + 1) = (b1, cap1, r1)"
      by (rule prod_cases3)
    obtain b2 cap2 r2 where g2: "grow ok (ws_requests p) (ws_msg_cap p) (len + 1) = (b2, cap2, r2)"
      by (rule prod_cases3)
    have nf: "b1 \<or> ok \<noteq> never_fails" "b2 \<or> ok \<noteq> never_fails"
      using g1 g2 by (metis grow_cases prod.inject)+
    show ?thesis
      using that Head d g1 g2 nf
      by (cases b1; cases b2) (auto simp: ws_frame_def ws_turn_at_def ws_ctx_def Let_def simp del: drop_drop drop_append simp flip: q_def
          split: if_splits)
  qed (use that in \<open>auto simp: ws_frame_def\<close>)
qed

lemma loop_refines:
  assumes "ws_run (ws_max_message p) (ws_require_mask p) (ws_msg_opcode p) (ws_msg p) (drop off (ws_in p)) = (e, ds, op1, msg1, rest)"
  shows "unless_oom ok (fst (ws_loop ok p off))
    (\<exists>p'. ws_loop ok p off = (case e of None \<Rightarrow> VV_OK | Some c \<Rightarrow> ws_code_status c, p', ds) \<and>
    (case e of
       None \<Rightarrow> ws_ctx p' = ws_ctx p \<and> ws_in p' = rest \<and> ws_msg_opcode p' = op1 \<and> ws_msg p' = msg1
     | Some c \<Rightarrow> ws_failed p' \<and> ws_close_code p' = c))"
  using assms
proof (induction ok p off arbitrary: ds rule: ws_loop.induct)
  case (1 ok p off)
  show ?case
  proof (cases "frame_at p off")
    case SMore
    with 1(2) turn_refines(1) [OF SMore] show ?thesis
      by (auto simp: unless_oom_def ws_loop.simps [of _ p off] ws_run.simps [of _ _ _ _ "drop off (ws_in p)"] ws_ctx_def)
  next
    case (SBad c)
    with 1(2) turn_refines(2) [OF SBad, of ok] show ?thesis
      by (auto simp: unless_oom_def ws_loop.simps [of _ p off] ws_run.simps [of _ _ _ _ "drop off (ws_in p)"])
  next
    case (SFrame ds1 op2 msg2 rest2)
    from turn_refines(3) [OF SFrame, of ok] show ?thesis
    proof (elim disjE conjE exE)
      fix p' assume "ok \<noteq> never_fails" and "ws_turn_at ok p off = Return VV_ERR_OUT_OF_MEMORY p'"
      then show ?thesis by (simp add: unless_oom_def ws_loop.simps [of _ p off])
    next
      fix p2 off2
      assume t: "ws_turn_at ok p off = Turn p2 off2 ds1"
        and p2: "drop off2 (ws_in p2) = rest2" "ws_msg_opcode p2 = op2" "ws_msg p2 = msg2" "ws_ctx p2 = ws_ctx p"
      have m: "ws_max_message p2 = ws_max_message p" "ws_require_mask p2 = ws_require_mask p"
        using p2(4) by (simp_all add: ws_ctx_def)
      obtain ds2 where r: "ws_run (ws_max_message p) (ws_require_mask p) op2 msg2 rest2 = (e, ds2, op1, msg1, rest)"
        and ds: "ds = ds1 @ ds2"
        using 1(2) SFrame by (auto simp: ws_run.simps [of _ _ _ _ "drop off (ws_in p)"] split: prod.splits)
      from 1(1) [OF t, of ds2] r p2 m t ds show ?thesis
        by (auto simp: unless_oom_def ws_loop.simps [of _ p off] split: option.splits prod.splits)
    qed
  qed
qed

subsection \<open>Feeding a stream in reads of any size\<close>

text \<open>The receive loop: every read is fed until one is refused.\<close>

fun ws_feed_all :: "(nat \<Rightarrow> nat \<Rightarrow> bool) \<Rightarrow> ws_parser \<Rightarrow> bytes list \<Rightarrow> vv_status \<times> ws_parser \<times> ws_call list" where
  "ws_feed_all ok p [] = (VV_OK, p, [])"
| "ws_feed_all ok p (d # ds) =
     (case vv_ws_parser_feed ok (Some p) (Some d) (length d) of
        (s, Some p, cs) \<Rightarrow>
          if s \<noteq> VV_OK then (s, p, cs)
          else (case ws_feed_all ok p ds of (s, p, cs') \<Rightarrow> (s, p, cs @ cs'))
      | (s, None, cs) \<Rightarrow> (s, p, cs))"

abbreviation spec_run :: "ws_parser \<Rightarrow> bytes \<Rightarrow> nat option \<times> ws_call list \<times> nat \<times> bytes \<times> bytes" where
  "spec_run p \<equiv> ws_run (ws_max_message p) (ws_require_mask p) (ws_msg_opcode p) (ws_msg p)"

lemma ws_code_status_not_ok [simp]: "ws_code_status c \<noteq> VV_OK"
  by (simp add: ws_code_status_def)

lemma feed_refines:
  assumes "\<not> ws_failed p" and "spec_run p (ws_in p @ d) = (e, cs, op1, msg1, rest)"
  shows "unless_oom ok (fst (vv_ws_parser_feed ok (Some p) (Some d) (length d)))
    (\<exists>p'. vv_ws_parser_feed ok (Some p) (Some d) (length d) =
      (case e of None \<Rightarrow> VV_OK | Some c \<Rightarrow> ws_code_status c, Some p', cs) \<and>
    (case e of
       None \<Rightarrow> ws_ctx p' = ws_ctx p \<and> ws_in p' = rest \<and> ws_msg_opcode p' = op1 \<and> ws_msg p' = msg1
     | Some c \<Rightarrow> ws_failed p' \<and> ws_close_code p' = c))"
proof (cases "length d = 0")
  case True
  with assms loop_refines [of p 0 e cs op1 msg1 rest ok] show ?thesis
    by (auto simp: unless_oom_def vv_ws_parser_feed_def split: option.splits prod.splits)
next
  case False
  show ?thesis
  proof (cases rule: grow_cases [of ok "ws_requests p" "ws_in_cap p" "length (ws_in p) + length d"])
    case (none r)
    then show ?thesis using False assms(1) by (simp add: unless_oom_def vv_ws_parser_feed_def)
  next
    case (room cap r)
    let ?p = "p\<lparr>ws_requests := r, ws_in_cap := cap, ws_in := ws_in p @ d\<rparr>"
    from assms(2) have "spec_run ?p (drop 0 (ws_in ?p)) = (e, cs, op1, msg1, rest)" by simp
    from loop_refines [OF this, of ok] False room assms(1) show ?thesis
      by (auto simp: unless_oom_def vv_ws_parser_feed_def ws_ctx_def split: option.splits prod.splits)
  qed
qed

lemma feed_all_refines:
  assumes "\<not> ws_failed p" and "frame_at p 0 = SMore"
    and "spec_run p (ws_in p @ concat ds) = (e, cs, op1, msg1, rest)"
  shows "unless_oom ok (fst (ws_feed_all ok p ds))
    (\<exists>p'. ws_feed_all ok p ds = (case e of None \<Rightarrow> VV_OK | Some c \<Rightarrow> ws_code_status c, p', cs) \<and>
    (case e of
       None \<Rightarrow> ws_ctx p' = ws_ctx p \<and> ws_in p' = rest \<and> ws_msg_opcode p' = op1 \<and> ws_msg p' = msg1
     | Some c \<Rightarrow> ws_failed p' \<and> ws_close_code p' = c))"
  using assms
proof (induction ds arbitrary: p cs)
  case Nil
  then show ?case by (auto simp: unless_oom_def ws_run.simps [of _ _ _ _ "ws_in p"])
next
  case (Cons d ds)
  obtain e1 cs1 op2 msg2 rest2 where r1: "spec_run p (ws_in p @ d) = (e1, cs1, op2, msg2, rest2)"
    by (cases "spec_run p (ws_in p @ d)")
  have all: "(if e1 = None
      then (case ws_run (ws_max_message p) (ws_require_mask p) op2 msg2 (rest2 @ concat ds) of (e', ds', s) \<Rightarrow> (e', cs1 @ ds', s))
      else (e1, cs1, op2, msg2, rest2 @ concat ds)) = (e, cs, op1, msg1, rest)"
    using Cons.prems(3) ws_run_append [of _ _ _ _ "ws_in p @ d" "concat ds"] r1 by simp
  obtain s0 x0 cs0 where f0: "vv_ws_parser_feed ok (Some p) (Some d) (length d) = (s0, x0, cs0)" by (rule prod_cases3)
  show ?case
  proof (cases "s0 = VV_ERR_OUT_OF_MEMORY \<and> ok \<noteq> never_fails")
    case True
    then show ?thesis using f0 by (cases x0) (simp_all add: unless_oom_def)
  next
    case False
    with feed_refines [OF Cons.prems(1) r1, of ok] f0 obtain p1 where
      f1: "vv_ws_parser_feed ok (Some p) (Some d) (length d) = (case e1 of None \<Rightarrow> VV_OK | Some c \<Rightarrow> ws_code_status c, Some p1, cs1)"
      and p1: "case e1 of None \<Rightarrow> ws_ctx p1 = ws_ctx p \<and> ws_in p1 = rest2 \<and> ws_msg_opcode p1 = op2 \<and> ws_msg p1 = msg2
        | Some c \<Rightarrow> ws_failed p1 \<and> ws_close_code p1 = c"
      unfolding unless_oom_def by fastforce
    show ?thesis
    proof (cases e1)
      case (Some c)
      with all r1 have "e = Some c" "cs = cs1" by auto
      with f1 p1 Some show ?thesis by (simp add: unless_oom_def)
    next
      case None
      have p1: "ws_ctx p1 = ws_ctx p" "ws_in p1 = rest2" "ws_msg_opcode p1 = op2" "ws_msg p1 = msg2" using p1 None by auto
      have m: "ws_max_message p1 = ws_max_message p" "ws_require_mask p1 = ws_require_mask p" "\<not> ws_failed p1"
        using p1(1) Cons.prems(1) by (simp_all add: ws_ctx_def)
      have quiet: "frame_at p1 0 = SMore" using ws_run_rest_quiet [OF r1 [unfolded None]] p1 m by simp
      obtain cs2 where r2: "spec_run p1 (ws_in p1 @ concat ds) = (e, cs2, op1, msg1, rest)" and cs: "cs = cs1 @ cs2"
        using all r1 None p1 m by (auto split: prod.splits)
      from Cons.IH [OF m(3) quiet r2] f1 None cs p1(1) show ?thesis
        by (auto simp: unless_oom_def split: option.splits prod.splits)
    qed
  qed
qed

lemma init_quiet: "frame_at (vv_ws_parser_init m) 0 = SMore" "\<not> ws_failed (vv_ws_parser_init m)"
    "ws_in (vv_ws_parser_init m) = []"
  by (simp_all add: vv_ws_parser_init_def ws_frame_def ws_frame_head_def)

text \<open>
  C23. How the network cuts the stream does not matter. Two ways of cutting the same bytes into reads make a fresh parser,
  whatever the allocator answers in either run as long as neither run ends for want of memory, deliver the same messages in
  the same order and end with the same status and the same close code; and when they end well, they hold the same unfinished
  frame and fragments.
\<close>

theorem parser_chunking_irrelevant:
  assumes "concat ds = concat ds'"
    and "ws_feed_all ok (vv_ws_parser_init m) ds = (s, p, cs)" and "s \<noteq> VV_ERR_OUT_OF_MEMORY"
    and "ws_feed_all ok' (vv_ws_parser_init m) ds' = (s', p', cs')" and "s' \<noteq> VV_ERR_OUT_OF_MEMORY"
  shows "cs = cs' \<and> s = s' \<and> ws_close_code p = ws_close_code p' \<and>
    (s = VV_OK \<longrightarrow> ws_in p = ws_in p' \<and> ws_msg p = ws_msg p' \<and> ws_msg_opcode p = ws_msg_opcode p')"
proof -
  obtain e c op1 msg1 rest where "spec_run (vv_ws_parser_init m) (concat ds) = (e, c, op1, msg1, rest)"
    by (cases "spec_run (vv_ws_parser_init m) (concat ds)")
  with feed_all_refines [OF init_quiet(2,1), of m ds e c op1 msg1 rest ok]
    feed_all_refines [OF init_quiet(2,1), of m ds' e c op1 msg1 rest ok'] assms
  show ?thesis by (auto simp: unless_oom_def init_quiet(3) ws_ctx_def split: option.splits)
qed

subsection \<open>Writing frames and reading them back\<close>

lemma ucast_byte: "ucast (ucast (w :: u64) :: u8) = take_bit 8 w"
  by (rule bit_word_eqI) (auto simp: bit_simps)

lemma glue8: "push_bit 8 (drop_bit 8 w) OR take_bit 8 w = (w :: u64)"
  by (rule bit_word_eqI) (auto simp: bit_simps)

lemma glue8_drop: "push_bit 8 (drop_bit (n + 8) v) OR take_bit 8 (drop_bit n v) = drop_bit n (v :: u64)"
  using glue8 [of "drop_bit n v"] by (simp add: add.commute)

lemma be_len_16: "len \<le> 0xFFFF \<Longrightarrow> be_len [ucast (drop_bit 8 (len :: u64)), ucast len] = len"
proof -
  assume "len \<le> 0xFFFF"
  then have "unat len \<le> 0xFFFF" by (simp add: word_le_nat_alt)
  moreover have "unat (drop_bit 16 len) = unat len div 65536" by (simp add: drop_bit_eq_div unat_div)
  ultimately have "drop_bit 16 len = 0" by (simp flip: unat_eq_zero)
  then show ?thesis
    using glue8_drop [of 8 len] glue8_drop [of 0 len] by (simp add: be_len_def ucast_byte)
qed

lemma be_len_be64: "be_len (be64 len) = len"
proof -
  have "drop_bit 64 len = 0" by (rule bit_word_eqI) (auto simp: bit_simps)
  with glue8_drop [of 56 len] glue8_drop [of 48 len] glue8_drop [of 40 len] glue8_drop [of 32 len]
    glue8_drop [of 24 len] glue8_drop [of 16 len] glue8_drop [of 8 len] glue8_drop [of 0 len]
  show ?thesis
    by (simp add: be64_def be_len_def ucast_byte upt_rec del: push_bit_or)
qed

lemma length_be64 [simp]: "length (be64 x) = 8"
  by (simp add: be64_def)

lemma ws_mask_involution:
  "length key = 4 \<Longrightarrow> ws_mask key (ws_mask key payload) = payload"
  by (rule nth_equalityI) (simp_all add: ws_mask_def xor.assoc)

text \<open>A client's masking, as RFC 6455 describes it: the key is used byte by byte, over and over.\<close>

fun client_mask :: "bytes \<Rightarrow> bytes \<Rightarrow> bytes" where
  "client_mask (k # ks) (x # xs) = (x XOR k) # client_mask (ks @ [k]) xs"
| "client_mask _ _ = []"

lemma client_mask_eq: "length key = 4 \<Longrightarrow> client_mask key payload = ws_mask key payload"
proof (induction payload arbitrary: key)
  case Nil
  show ?case by (cases key) (simp_all add: ws_mask_def)
next
  case (Cons x xs)
  then obtain k ks where key: "key = k # ks" and ks: "length ks = 3" by (cases key) auto
  have rot: "(ks @ [k]) ! (i mod 4) = (k # ks) ! (Suc i mod 4)" for i
  proof -
    have "i mod 4 < 4" by simp
    then consider "i mod 4 = 0" | "i mod 4 = 1" | "i mod 4 = 2" | "i mod 4 = 3" by linarith
    then show ?thesis by cases (use ks in \<open>simp_all add: mod_Suc nth_append\<close>)
  qed
  have "client_mask key (x # xs) = (x XOR k) # ws_mask (ks @ [k]) xs" using Cons.IH [of "ks @ [k]"] ks by (simp add: key)
  also have "\<dots> = ws_mask key (x # xs)"
    by (simp add: ws_mask_def key rot upt_conv_Cons map_Suc_upt [symmetric] del: upt_Suc)
  finally show ?case .
qed

text \<open>A frame as a client sends it: the header of the code with the mask bit, the key, the masked payload.\<close>

definition client_frame :: "bytes \<Rightarrow> nat \<Rightarrow> bool \<Rightarrow> bytes \<Rightarrow> bytes" where
  "client_frame key op fin payload =
     (let h = vv_ws_frame_header (of_nat op) fin (of_nat (length payload))
      in h[1 := h ! 1 OR 0x80] @ key @ client_mask key payload)"

lemma header_byte0:
  assumes "op \<le> 15"
  shows "((if fin then 0x80 else 0) OR (ucast (of_nat op :: u32) AND 0x0F) :: u8) AND 0x80 \<noteq> 0 \<longleftrightarrow> fin"
    "((if fin then 0x80 else 0) OR (ucast (of_nat op :: u32) AND 0x0F) :: u8) AND 0x70 = 0"
    "unat (((if fin then 0x80 else 0) OR (ucast (of_nat op :: u32) AND 0x0F) :: u8) AND 0x0F) = op"
proof -
  have "op \<in> {0..15}" using assms by simp
  then have "op \<in> set [0..<16]" by simp
  then have "(((if fin then 0x80 else 0) OR (ucast (of_nat op :: u32) AND 0x0F) :: u8) AND 0x80 \<noteq> 0 \<longleftrightarrow> fin) \<and>
    ((if fin then 0x80 else 0) OR (ucast (of_nat op :: u32) AND 0x0F) :: u8) AND 0x70 = 0 \<and>
    unat (((if fin then 0x80 else 0) OR (ucast (of_nat op :: u32) AND 0x0F) :: u8) AND 0x0F) = op"
    by (cases fin) (auto simp: upt_rec)
  then show "((if fin then 0x80 else 0) OR (ucast (of_nat op :: u32) AND 0x0F) :: u8) AND 0x80 \<noteq> 0 \<longleftrightarrow> fin"
    "((if fin then 0x80 else 0) OR (ucast (of_nat op :: u32) AND 0x0F) :: u8) AND 0x70 = 0"
    "unat (((if fin then 0x80 else 0) OR (ucast (of_nat op :: u32) AND 0x0F) :: u8) AND 0x0F) = op" by auto
qed

lemma header_byte1:
  assumes "n \<le> 127"
  shows "((of_nat n :: u8) OR 0x80) AND 0x80 \<noteq> 0" "unat (((of_nat n :: u8) OR 0x80) AND 0x7F) = n"
proof -
  have "bit (((of_nat n :: u8) OR 0x80) AND 0x80) 7" by (simp add: bit_simps)
  then show "((of_nat n :: u8) OR 0x80) AND 0x80 \<noteq> 0" by auto
  have t: "(w :: u8) AND 0x7F = take_bit 7 w" for w
    by (simp add: take_bit_eq_mask mask_eq_exp_minus_1)
  have "take_bit 7 ((of_nat n :: u8) OR 0x80) = take_bit 7 (of_nat n)"
    by (simp add: take_bit_or)
  then show "unat (((of_nat n :: u8) OR 0x80) AND 0x7F) = n"
    using assms by (simp add: t unat_of_nat take_bit_eq_mod unat_mod)
qed

lemma ucast_of_nat_byte: "ucast (of_nat n :: u64) = (of_nat n :: u8)"
  by (simp add: word_unat_eq_iff unsigned_ucast_eq unat_of_nat take_bit_eq_mod mod_mod_cancel)

lemma header_parses:
  assumes op: "op \<le> 2 \<or> 8 \<le> op \<and> op \<le> 10" and ctl: "8 \<le> op \<longrightarrow> fin \<and> length payload \<le> 125"
    and key: "length key = 4" and big: "length payload < 2 ^ 63" "length payload \<le> m"
    and cont: "op = 0 \<longrightarrow> n + length payload \<le> m"
  shows "\<exists>hl. ws_frame_head m True n (client_frame key op fin payload @ rest) = Head fin op True (length payload) (hl + 4) \<and>
    client_frame key op fin payload = take hl (client_frame key op fin payload) @ key @ ws_mask key payload \<and>
    hl \<le> length (client_frame key op fin payload)"
proof -
  let ?L = "length payload" and ?len = "of_nat (length payload) :: u64"
  let ?b0 = "(if fin then 0x80 else 0) OR (ucast (of_nat op :: u32) AND 0x0F) :: u8"
  let ?F = "client_frame key op fin payload @ rest"
  have u: "unat ?len = ?L" using big by (simp add: unat_of_nat)
  note b0 = header_byte0 [of op fin]
  have op15: "op \<le> 15" using op by auto
  have tail: "ws_head_tail m n ?F fin op True ?L hl = Head fin op True ?L (hl + 4)"
    if "length ?F \<ge> hl + 4 + ?L" for hl
    using that big cont by (auto simp: ws_head_tail_def)
  consider (small) "?L < 126" | (mid) "126 \<le> ?L" "?L \<le> 0xFFFF" | (long) "0xFFFF < ?L" by linarith
  then show ?thesis
  proof cases
    case small
    then have "?len < 126" by (simp add: word_less_nat_alt u)
    then have F: "client_frame key op fin payload = [?b0, of_nat ?L OR 0x80] @ key @ ws_mask key payload"
      by (simp add: client_frame_def client_mask_eq [OF key] vv_ws_frame_header_def Let_def ucast_of_nat_byte)
    have "ws_frame_head m True n ?F = ws_head_tail m n ?F fin op True ?L 2"
      using b0 [OF op15] header_byte1 [of ?L] op ctl small
      by (auto simp: F ws_frame_head_def ws_head_body_def)
    with tail [of 2] F key show ?thesis by (intro exI [of _ 2]) (simp add: ws_mask_def)
  next
    case mid
    then have l: "\<not> ?len < 126" "?len \<le> 0xFFFF" by (simp_all add: word_less_nat_alt word_le_nat_alt u)
    then have F: "client_frame key op fin payload =
        [?b0, 126 OR 0x80, ucast (drop_bit 8 ?len), ucast ?len] @ key @ ws_mask key payload"
      by (simp add: client_frame_def client_mask_eq [OF key] vv_ws_frame_header_def Let_def)
    have "ws_frame_head m True n ?F = ws_head_tail m n ?F fin op True ?L 4"
      using b0 [OF op15] header_byte1 [of 126] op ctl mid be_len_16 [OF l(2)] u
      by (auto simp: F ws_frame_head_def ws_head_body_def)
    with tail [of 4] F key show ?thesis by (intro exI [of _ 4]) (simp add: ws_mask_def)
  next
    case long
    then have l: "\<not> ?len < 126" "\<not> ?len \<le> 0xFFFF" by (simp_all add: word_less_nat_alt word_le_nat_alt u)
    then have F: "client_frame key op fin payload = ([?b0, 127 OR 0x80] @ be64 ?len) @ key @ ws_mask key payload"
      by (simp add: client_frame_def client_mask_eq [OF key] vv_ws_frame_header_def Let_def be64_def)
    have "unat (drop_bit 63 ?len) = 0" using big(1) by (simp add: drop_bit_eq_div unat_div u)
    then have "drop_bit 63 ?len = 0" using unat_eq_zero by blast
    then have "ws_frame_head m True n ?F = ws_head_tail m n ?F fin op True ?L 10"
      using b0 [OF op15] header_byte1 [of 127] op ctl long be_len_be64 [of ?len] u
      by (auto simp: F ws_frame_head_def ws_head_body_def Let_def)
    with tail [of 10] F key show ?thesis by (intro exI [of _ 10]) (simp add: ws_mask_def be64_def)
  qed
qed

lemma frame_parses:
  assumes "op \<le> 2 \<or> 8 \<le> op \<and> op \<le> 10" and "8 \<le> op \<longrightarrow> fin \<and> length payload \<le> 125"
    and key: "length key = 4" and "length payload < 2 ^ 63" "length payload \<le> m"
    and "op = 0 \<longrightarrow> length msg + length payload \<le> m"
  shows "ws_frame m True op0 msg (client_frame key op fin payload @ rest) =
     (if op \<ge> 8 then SFrame [(op, payload)] op0 msg rest
      else if op = 0 then
        if op0 = 0 then SBad 1002
        else if fin then SFrame [(op0, msg @ payload)] 0 [] rest
        else SFrame [] op0 (msg @ payload) rest
      else if op0 \<noteq> 0 then SBad 1002
      else if fin then SFrame [(op, payload)] op0 msg rest
      else SFrame [] op payload rest)"
proof -
  let ?F = "client_frame key op fin payload"
  from header_parses [OF assms, of rest] obtain hl where
    h: "ws_frame_head m True (length msg) (?F @ rest) = Head fin op True (length payload) (hl + 4)"
    and F: "?F = take hl ?F @ key @ ws_mask key payload" and hl: "hl \<le> length ?F" by blast
  have len: "length ?F = hl + 4 + length payload"
    using arg_cong [OF F, of length] hl key by (simp add: ws_mask_def min_absorb2)
  have "drop hl ?F = key @ ws_mask key payload" using F by (metis append_take_drop_id same_append_eq)
  then have d: "drop hl (?F @ rest) = key @ ws_mask key payload @ rest" using hl by simp
  have "drop (hl + 4) (?F @ rest) = drop 4 (drop hl (?F @ rest))" by (simp only: drop_drop add.commute)
  then have "take (length payload) (drop (hl + 4) (?F @ rest)) = ws_mask key payload"
    unfolding d using key by (simp add: ws_mask_def)
  moreover have "take 4 (drop hl (?F @ rest)) = key" unfolding d using key by simp
  ultimately have um: "ws_unmask True (hl + 4) (length payload) (?F @ rest) = payload"
    using key by (simp add: ws_unmask_def ws_mask_involution)
  have dr: "drop (hl + 4 + length payload) (?F @ rest) = rest" using len by simp
  show ?thesis unfolding ws_frame_def h ws_head.case Let_def um dr by (rule refl)
qed

text \<open>A message in fragments, each with its own key; the first carries the opcode, the last the FIN bit.\<close>

fun fragment_frames :: "nat \<Rightarrow> (bytes \<times> bytes) list \<Rightarrow> bytes" where
  "fragment_frames op [] = []"
| "fragment_frames op [(key, x)] = client_frame key op True x"
| "fragment_frames op ((key, x) # y # ys) = client_frame key op False x @ fragment_frames 0 (y # ys)"

datatype ws_item = Message nat "(bytes \<times> bytes) list" | Control nat bytes bytes

fun item_bytes :: "ws_item \<Rightarrow> bytes" where
  "item_bytes (Message op fs) = fragment_frames op fs"
| "item_bytes (Control op key x) = client_frame key op True x"

fun item_call :: "ws_item \<Rightarrow> ws_call" where
  "item_call (Message op fs) = (op, concat (map snd fs))"
| "item_call (Control op key x) = (op, x)"

text \<open>What a client may send to a parser that takes messages up to \<open>m\<close> bytes.\<close>

fun item_ok :: "nat \<Rightarrow> ws_item \<Rightarrow> bool" where
  "item_ok m (Message op fs) \<longleftrightarrow>
     op \<in> {1, 2} \<and> fs \<noteq> [] \<and> (\<forall>(key, x) \<in> set fs. length key = 4) \<and> length (concat (map snd fs)) \<le> m"
| "item_ok m (Control op key x) \<longleftrightarrow> op \<in> {8, 9, 10} \<and> length key = 4 \<and> length x \<le> min 125 m"

lemma run_frame:
  assumes "ws_frame m r op0 msg (f @ rest) = SFrame cs op1 msg1 rest"
  shows "ws_run m r op0 msg (f @ rest) = (case ws_run m r op1 msg1 rest of (e, cs', s) \<Rightarrow> (e, cs @ cs', s))"
  using assms by (simp add: ws_run.simps [of _ _ _ _ "f @ rest"])

lemma run_continuation:
  assumes "op0 \<noteq> 0" and "m < 2 ^ 63" and "fs \<noteq> []" and "\<forall>(key, x) \<in> set fs. length key = 4"
    and "length msg + length (concat (map snd fs)) \<le> m"
  shows "ws_run m True op0 msg (fragment_frames 0 fs @ rest) =
    (case ws_run m True 0 [] rest of (e, cs, s) \<Rightarrow> (e, (op0, msg @ concat (map snd fs)) # cs, s))"
  using assms(3-5)
proof (induction fs arbitrary: msg)
  case (Cons kx ys)
  obtain key x where kx: "kx = (key, x)" by (cases kx)
  show ?case
  proof (cases ys)
    case Nil
    have "ws_frame m True op0 msg (client_frame key 0 True x @ rest) = SFrame [(op0, msg @ x)] 0 [] rest"
      using assms(1,2) Cons.prems kx Nil by (subst frame_parses) auto
    from run_frame [OF this] kx Nil show ?thesis by simp
  next
    case (Cons y zs)
    let ?r = "fragment_frames 0 ys @ rest"
    have "ws_frame m True op0 msg (client_frame key 0 False x @ ?r) = SFrame [] op0 (msg @ x) ?r"
      using assms(1,2) Cons.prems kx by (subst frame_parses) auto
    from run_frame [OF this] Cons.IH [of "msg @ x"] Cons.prems kx Cons show ?thesis by (auto split: prod.split)
  qed
qed simp

lemma run_item:
  assumes "m < 2 ^ 63" and "item_ok m it"
  shows "ws_run m True 0 [] (item_bytes it @ rest) =
    (case ws_run m True 0 [] rest of (e, cs, s) \<Rightarrow> (e, item_call it # cs, s))"
proof (cases it)
  case (Control op key x)
  with assms have "ws_frame m True 0 [] (client_frame key op True x @ rest) = SFrame [(op, x)] 0 [] rest"
    by (subst frame_parses) auto
  from run_frame [OF this] Control show ?thesis by (simp split: prod.split)
next
  case (Message op fs)
  with assms(2) obtain key x ys where fs: "fs = (key, x) # ys" by (cases fs) auto
  show ?thesis
  proof (cases ys)
    case Nil
    with assms Message fs have "ws_frame m True 0 [] (client_frame key op True x @ rest) = SFrame [(op, x)] 0 [] rest"
      by (subst frame_parses) auto
    from run_frame [OF this] Message fs Nil show ?thesis by (simp split: prod.split)
  next
    case (Cons y zs)
    let ?r = "fragment_frames 0 ys @ rest"
    from assms Message fs have "ws_frame m True 0 [] (client_frame key op False x @ ?r) = SFrame [] op x ?r"
      by (subst frame_parses) auto
    from run_frame [OF this] run_continuation [of op m ys x rest] assms Message fs Cons show ?thesis
      by (auto split: prod.split)
  qed
qed

lemma run_items:
  assumes "m < 2 ^ 63" and "\<forall>it \<in> set items. item_ok m it"
  shows "ws_run m True 0 [] (concat (map item_bytes items)) = (None, map item_call items, 0, [], [])"
  using assms(2)
proof (induction items)
  case Nil
  show ?case by (simp add: ws_run.simps [of _ _ _ _ "[]"] ws_frame_def ws_frame_head_def)
next
  case (Cons it items)
  with run_item [OF assms(1), of it "concat (map item_bytes items)"] show ?case by simp
qed

text \<open>
  C6. What is sent is what is delivered. Take any sequence of text and binary messages, in any number of
  masked fragments, and control frames between them, within the parser's limit; cut the bytes into
  reads anywhere at all. A fresh parser that gets the memory it asks for accepts every read, delivers exactly those messages and
  control frames, unmasked, whole and in order, and is left with nothing.
\<close>

theorem parser_roundtrip:
  assumes "0 < m" and "m < 2 ^ 63" and "\<forall>it \<in> set items. item_ok m it" and "concat ds = concat (map item_bytes items)"
  shows "\<exists>p. ws_feed_all never_fails (vv_ws_parser_init m) ds = (VV_OK, p, map item_call items) \<and> ws_in p = [] \<and> ws_msg_opcode p = 0"
proof -
  let ?p = "vv_ws_parser_init m"
  have "ws_run m True 0 [] (concat ds) = (None, map item_call items, 0, [], [])"
    using run_items [OF assms(2,3)] assms(4) by simp
  then have "spec_run ?p (ws_in ?p @ concat ds) = (None, map item_call items, 0, [], [])"
    using assms(1) by (simp add: vv_ws_parser_init_def)
  from feed_all_refines [OF init_quiet(2,1) this, of never_fails] show ?thesis by (auto simp: unless_oom_def)
qed

definition demo_key :: bytes where "demo_key = [1, 2, 3, 4]"

definition demo_items :: "ws_item list" where
  "demo_items = [Message 1 [(demo_key, [0x68]), (demo_key, [0x69])], Control 9 demo_key [7]]"

theorem parser_roundtrip_witness:
  "\<exists>p. ws_feed_all never_fails (vv_ws_parser_init 100) [concat (map item_bytes demo_items)] =
     (VV_OK, p, [(1, [0x68, 0x69]), (9, [7])]) \<and> ws_in p = [] \<and> ws_msg_opcode p = 0"
  using parser_roundtrip [of 100 demo_items "[concat (map item_bytes demo_items)]"]
  by (simp add: demo_items_def demo_key_def)

theorem parser_chunking_irrelevant_witness:
  "snd (snd (ws_feed_all (\<lambda>r c. r = 0) (vv_ws_parser_init 100) [[0x81], [0x81], [1, 2, 3, 4, 0x69]])) =
   snd (snd (ws_feed_all never_fails (vv_ws_parser_init 100) [[0x81, 0x81, 1, 2, 3, 4, 0x69]]))"
proof -
  obtain s p cs where 1: "ws_feed_all (\<lambda>r c. r = 0) (vv_ws_parser_init 100) [[0x81], [0x81], [1, 2, 3, 4, 0x69]] = (s, p, cs)"
    by (rule prod_cases3)
  obtain s' p' cs' where 2: "ws_feed_all never_fails (vv_ws_parser_init 100) [[0x81, 0x81, 1, 2, 3, 4, 0x69]] = (s', p', cs')"
    by (rule prod_cases3)
  have "fst (ws_feed_all (\<lambda>r c. r = 0) (vv_ws_parser_init 100) [[0x81], [0x81], [1, 2, 3, 4, 0x69]]) = VV_OK"
    "fst (ws_feed_all never_fails (vv_ws_parser_init 100) [[0x81, 0x81, 1, 2, 3, 4, 0x69]]) = VV_OK" by code_simp+
  then have "s \<noteq> VV_ERR_OUT_OF_MEMORY" "s' \<noteq> VV_ERR_OUT_OF_MEMORY" using 1 2 by simp_all
  from parser_chunking_irrelevant [OF _ 1 this(1) 2 this(2)] 1 2 show ?thesis by simp
qed

subsection \<open>Limits hold whatever the memory does\<close>

definition ws_inv :: "ws_parser \<Rightarrow> bool" where
  "ws_inv p \<longleftrightarrow> length (ws_msg p) \<le> ws_max_message p \<and> ws_msg_opcode p \<le> 2"

definition call_ok :: "nat \<Rightarrow> ws_call \<Rightarrow> bool" where
  "call_ok m c \<longleftrightarrow> length (snd c) \<le> m \<and> fst c \<in> {1, 2, 8, 9, 10}"

lemma turn_inv:
  assumes inv: "ws_inv p"
  shows "ws_turn_at ok p off = Turn p' off' cs \<Longrightarrow>
      ws_inv p' \<and> ws_max_message p' = ws_max_message p \<and> (\<forall>c \<in> set cs. call_ok (ws_max_message p) c)"
    "ws_turn_at ok p off = Return s p' \<Longrightarrow> ws_inv p' \<and> ws_max_message p' = ws_max_message p"
proof -
  let ?h = "ws_frame_head (ws_max_message p) (ws_require_mask p) (length (ws_msg p)) (drop off (ws_in p))"
  { fix fin op masked len hl
    assume h: "?h = Head fin op masked len hl"
    note b = head_fits [OF h]
    then have l: "length (ws_unmask masked hl len (drop off (ws_in p))) = len" by (intro length_ws_unmask) simp
    have op: "op = 0 \<or> op = 1 \<or> op = 2 \<or> op = 8 \<or> op = 9 \<or> op = 10" using b by auto
    have "ws_turn_at ok p off = Turn p' off' cs \<Longrightarrow>
        ws_inv p' \<and> ws_max_message p' = ws_max_message p \<and> (\<forall>c \<in> set cs. call_ok (ws_max_message p) c)"
      "ws_turn_at ok p off = Return s p' \<Longrightarrow> ws_inv p' \<and> ws_max_message p' = ws_max_message p"
      using h b l op inv
      by (auto simp: ws_turn_at_def ws_fail_def ws_inv_def call_ok_def Let_def split: if_splits prod.splits bool.splits) }
  note head = this
  show "ws_inv p' \<and> ws_max_message p' = ws_max_message p \<and> (\<forall>c \<in> set cs. call_ok (ws_max_message p) c)"
    if t: "ws_turn_at ok p off = Turn p' off' cs"
  proof (cases ?h)
    case (Head fin op masked len hl)
    from head(1) [OF this t] show ?thesis .
  qed (use t in \<open>auto simp: ws_turn_at_def ws_fail_def\<close>)
  show "ws_inv p' \<and> ws_max_message p' = ws_max_message p" if t: "ws_turn_at ok p off = Return s p'"
  proof (cases ?h)
    case (Head fin op masked len hl)
    from head(2) [OF this t] show ?thesis .
  qed (use t inv in \<open>auto simp: ws_turn_at_def ws_fail_def ws_inv_def\<close>)
qed

lemma loop_inv:
  "ws_inv p \<Longrightarrow> ws_loop ok p off = (s, p', cs) \<Longrightarrow>
   ws_inv p' \<and> ws_max_message p' = ws_max_message p \<and> (\<forall>c \<in> set cs. call_ok (ws_max_message p) c)"
proof (induction ok p off arbitrary: cs rule: ws_loop.induct)
  case (1 ok p off)
  show ?case
  proof (cases "ws_turn_at ok p off")
    case Break
    with 1 show ?thesis by (auto simp: ws_loop.simps [of ok p off] ws_inv_def)
  next
    case (Return s1 p1)
    with 1 turn_inv(2) [OF 1(2) Return] show ?thesis by (auto simp: ws_loop.simps [of ok p off])
  next
    case (Turn p1 off1 cs1)
    obtain cs2 where l: "ws_loop ok p1 off1 = (s, p', cs2)" and cs: "cs = cs1 @ cs2"
      using 1(3) Turn by (auto simp: ws_loop.simps [of ok p off] split: prod.splits)
    note t = turn_inv(1) [OF 1(2) Turn]
    from 1(1) [OF Turn t [THEN conjunct1] l] t cs show ?thesis by auto
  qed
qed

lemma feed_inv:
  assumes "ws_inv p" and "vv_ws_parser_feed ok (Some p) d n = (s, Some p', cs)"
  shows "ws_inv p' \<and> ws_max_message p' = ws_max_message p \<and> (\<forall>c \<in> set cs. call_ok (ws_max_message p) c)"
proof -
  have "ws_inv (p\<lparr>ws_requests := r, ws_in_cap := c, ws_in := i\<rparr>)" "ws_inv (p\<lparr>ws_requests := r\<rparr>)" for r c i using assms(1) by (simp_all add: ws_inv_def)
  with assms show ?thesis
    by (auto simp: vv_ws_parser_feed_def split: if_splits option.splits prod.splits bool.splits dest: loop_inv)
      (fastforce dest: loop_inv)+
qed

text \<open>
  C21. The limit on messages. Whatever bytes arrive, however they are cut and whichever requests for memory fail, in any pattern, no message
  longer than \<open>max_message\<close> is ever delivered or even assembled, and what is delivered carries
  one of the five opcodes a client may use: fragments do not get past the bound piecewise.
\<close>

theorem parser_limits:
  assumes "0 < m" and "ws_feed_all ok (vv_ws_parser_init m) ds = (s, p, cs)"
  shows "length (ws_msg p) \<le> m \<and> (\<forall>c \<in> set cs. length (snd c) \<le> m \<and> fst c \<in> {1, 2, 8, 9, 10})"
proof -
  have "ws_inv q \<Longrightarrow> ws_feed_all ok q ds = (s, p, cs) \<Longrightarrow>
      ws_inv p \<and> ws_max_message p = ws_max_message q \<and> (\<forall>c \<in> set cs. call_ok (ws_max_message q) c)" for q
  proof (induction ds arbitrary: q cs)
    case (Cons d ds)
    obtain s1 r cs1 where f: "vv_ws_parser_feed ok (Some q) (Some d) (length d) = (s1, r, cs1)"
      by (cases "vv_ws_parser_feed ok (Some q) (Some d) (length d)")
    then have "r \<noteq> None"
      by (auto simp: vv_ws_parser_feed_def split: if_splits option.splits prod.splits bool.splits)
    then obtain q1 where r: "r = Some q1" by blast
    from feed_inv [OF Cons.prems(1) f [unfolded r]]
    show ?case using Cons.IH [of q1] Cons.prems(2) f r
      by (fastforce split: if_splits prod.splits)
  qed auto
  from this [of "vv_ws_parser_init m"] assms show ?thesis
    by (auto simp: vv_ws_parser_init_def ws_inv_def call_ok_def)
qed

theorem parser_limits_witness:
  "case ws_feed_all (\<lambda>r c. r = 0) (vv_ws_parser_init 100) [concat (map item_bytes demo_items)] of
     (s, p, cs) \<Rightarrow> length (ws_msg p) \<le> 100 \<and> (\<forall>c \<in> set cs. length (snd c) \<le> 100 \<and> fst c \<in> {1, 2, 8, 9, 10})"
  by (cases "ws_feed_all (\<lambda>r c. r = 0) (vv_ws_parser_init 100) [concat (map item_bytes demo_items)]")
    (use parser_limits [of 100 "\<lambda>r c. r = 0" "[concat (map item_bytes demo_items)]"] in auto)

subsection \<open>Running out of memory inside a read\<close>

definition demo_open :: ws_parser where
  "demo_open = (vv_ws_parser_init 100)\<lparr>ws_in_cap := 4096\<rparr>"

definition demo_burst :: bytes where
  "demo_burst = client_frame demo_key 9 True [7] @ client_frame demo_key 1 False [0x68]"

text \<open>
  After an out-of-memory return the parser does not go on where it stopped. A read brings a ping and the first
  fragment of a message; the fragment's buffer cannot be had. The ping has been delivered, but the frames already
  handled stay in the buffer with their payloads unmasked in place, so the next call delivers the ping again, masked
  a second time.
\<close>

theorem parser_oom_redelivers:
  "case vv_ws_parser_feed (\<lambda>_ _. False) (Some demo_open) (Some demo_burst) (length demo_burst) of (s, p, cs) \<Rightarrow>
     s = VV_ERR_OUT_OF_MEMORY \<and> cs = [(9, [7])] \<and>
     snd (snd (vv_ws_parser_feed never_fails p None 0)) = [(9, [6])]"
  by code_simp

end
