(* ===== verification/Json.thy ===== *)
theory Json
  imports Prelude
begin

text \<open>
  JSON trees as the code reads them. The parser is the vendored cJSON: every reader of the library takes it as a
  parameter that returns a tree. A number is its double cut to an integer; the accessors are those of cJSON the code calls.
\<close>

datatype json = JNull | JBool bool | JNum int | JStr string | JArr "json list" | JObj "(string \<times> json) list"

definition ascii_lower :: "char \<Rightarrow> char" where
  "ascii_lower c = (if 65 \<le> (of_char c :: nat) \<and> (of_char c :: nat) \<le> 90 then char_of ((of_char c :: nat) + 32) else c)"

text \<open>\<^verbatim>\<open>cJSON_GetObjectItem\<close> compares keys without regard to case and takes the first.\<close>

definition json_get :: "string \<Rightarrow> json \<Rightarrow> json option" where
  "json_get k j =
     (case j of
        JObj kvs \<Rightarrow> map_option snd (find (\<lambda>kv. map ascii_lower (fst kv) = map ascii_lower k) kvs)
      | _ \<Rightarrow> None)"

definition json_string :: "json option \<Rightarrow> string option" where
  "json_string j = (case j of Some (JStr s) \<Rightarrow> Some s | _ \<Rightarrow> None)"

definition json_number :: "json \<Rightarrow> int" where
  "json_number j = (case j of JNum n \<Rightarrow> n | _ \<Rightarrow> 0)"

text \<open>What \<^verbatim>\<open>cJSON_ArrayForEach\<close> walks: only an object's children have a \<^verbatim>\<open>string\<close>.\<close>

definition json_children :: "json \<Rightarrow> (string option \<times> json) list" where
  "json_children j =
     (case j of JObj kvs \<Rightarrow> map (\<lambda>(k, v). (Some k, v)) kvs | JArr xs \<Rightarrow> map (Pair None) xs | _ \<Rightarrow> [])"

end
