(* ===== verification/Safetensors.thy ===== *)
theory Safetensors
  imports Heap Json
begin

text \<open>
  The reader of safetensors model files (\<^verbatim>\<open>src/model/safetensors.c\<close>). The path is what the
  system does with it (\<open>file_system\<close> of \<^verbatim>\<open>Heap\<close>), the open files and the mappings are counted in an \<open>os\<close>; pointers
  into the mapping are offsets, as 64-bit words, so the code's pointer and size arithmetic wraps as in C. The JSON parser is a
  parameter (\<open>json_parse\<close>) with a tree as result, read by the accessors of \<^verbatim>\<open>Json\<close>. \<open>h_bad\<close> of the heap records a copy beyond the mapping or the block,
  or a null name that is followed. The \<^verbatim>\<open>int\<close> count of tensors is an ideal integer.
\<close>

datatype vv_dtype = VV_DTYPE_F32 | VV_DTYPE_F16 | VV_DTYPE_BF16 | VV_DTYPE_U8 | VV_DTYPE_I32 | VV_DTYPE_I64
  | VV_DTYPE_F8_E4M3 | VV_DTYPE_NF4 | VV_DTYPE_BOOL | VV_DTYPE_I8 | VV_DTYPE_I16 | VV_DTYPE_U16 | VV_DTYPE_U32
  | VV_DTYPE_F8_E5M2 | VV_DTYPE_UNKNOWN | VV_DTYPE_F64

definition vv_dtype_size :: "vv_dtype \<Rightarrow> u64" where
  "vv_dtype_size d =
     (case d of VV_DTYPE_F32 \<Rightarrow> 4 | VV_DTYPE_F16 \<Rightarrow> 2 | VV_DTYPE_BF16 \<Rightarrow> 2 | VV_DTYPE_U8 \<Rightarrow> 1 | VV_DTYPE_I32 \<Rightarrow> 4
      | VV_DTYPE_I64 \<Rightarrow> 8 | VV_DTYPE_F8_E4M3 \<Rightarrow> 1 | VV_DTYPE_NF4 \<Rightarrow> 1 | VV_DTYPE_BOOL \<Rightarrow> 1 | VV_DTYPE_I8 \<Rightarrow> 1
      | VV_DTYPE_I16 \<Rightarrow> 2 | VV_DTYPE_U16 \<Rightarrow> 2 | VV_DTYPE_U32 \<Rightarrow> 4 | VV_DTYPE_F8_E5M2 \<Rightarrow> 1 | VV_DTYPE_F64 \<Rightarrow> 8
      | VV_DTYPE_UNKNOWN \<Rightarrow> 0)"

definition parse_dtype :: "string option \<Rightarrow> vv_dtype" where
  "parse_dtype s =
     (case s of
        None \<Rightarrow> VV_DTYPE_F32
      | Some s \<Rightarrow>
          if s = ''F32'' then VV_DTYPE_F32 else if s = ''F16'' then VV_DTYPE_F16
          else if s = ''BF16'' then VV_DTYPE_BF16 else if s = ''U8'' then VV_DTYPE_U8
          else if s = ''I32'' then VV_DTYPE_I32 else if s = ''I64'' then VV_DTYPE_I64
          else if s = ''F8_E4M3'' then VV_DTYPE_F8_E4M3 else if s = ''BOOL'' then VV_DTYPE_BOOL
          else if s = ''I8'' then VV_DTYPE_I8 else if s = ''I16'' then VV_DTYPE_I16
          else if s = ''U16'' then VV_DTYPE_U16 else if s = ''U32'' then VV_DTYPE_U32
          else if s = ''F8_E5M2'' then VV_DTYPE_F8_E5M2 else if s = ''F64'' then VV_DTYPE_F64
          else VV_DTYPE_UNKNOWN)"

subsection \<open>The file\<close>

record st_info =
  si_name :: string
  si_dtype :: vv_dtype
  si_shape :: "int list"
  si_data_offset :: u64
  si_data_size :: u64

record safetensors =
  st_self :: nat
  st_fd :: bool
  st_is_mapped :: bool
  st_mapped :: bytes
  st_mapped_size :: u64
  st_header_size :: u64
  st_data_start :: u64
  st_tensors_ptr :: "nat option"
  st_tensors :: "st_info list"

definition VV_MAX_DIMS :: nat where [simp]: "VV_MAX_DIMS = 8"

text \<open>One entry of the header.\<close>

definition tensor_info :: "string \<Rightarrow> json \<Rightarrow> st_info" where
  "tensor_info key item =
     (let name = (if length key \<ge> 256 then take 255 key else key);
          dtype = parse_dtype (json_string (json_get ''dtype'' item));
          shape = (case json_get ''shape'' item of Some (JArr ds) \<Rightarrow> map json_number (take VV_MAX_DIMS ds) | _ \<Rightarrow> []);
          (off, sz) =
            (case json_get ''data_offsets'' item of
               Some (JArr (a # b # _)) \<Rightarrow>
                 (let start = of_int (json_number a) :: u64; end = of_int (json_number b) in (start, end - start))
             | _ \<Rightarrow> (0, 0))
      in \<lparr>si_name = name, si_dtype = dtype, si_shape = shape, si_data_offset = off, si_data_size = sz\<rparr>)"

definition is_tensor :: "string option \<times> json \<Rightarrow> bool" where
  "is_tensor kv \<longleftrightarrow> fst kv \<noteq> Some ''__metadata__''"

text \<open>
  \<^verbatim>\<open>mmap_file\<close>, as on a POSIX system: the file is closed again on every failure, and a mapping of no bytes fails.
\<close>

definition mmap_file :: "file_system \<Rightarrow> os \<Rightarrow> bytes option \<times> os" where
  "mmap_file fs w =
     (case fs of
        NoFile \<Rightarrow> (None, w)
      | Mapped (b # data) \<Rightarrow> (Some (b # data), w\<lparr>os_fds := os_fds w + 1, os_maps := os_maps w + 1\<rparr>)
      | _ \<Rightarrow>
          let w = w\<lparr>os_fds := os_fds w + 1\<rparr>
          in (None, w\<lparr>os_fds := os_fds w - 1\<rparr>))"

definition vv_safetensors_close :: "safetensors option \<Rightarrow> heap \<times> os \<Rightarrow> vv_status \<times> heap \<times> os" where
  "vv_safetensors_close st = (\<lambda>(h, w).
     (case st of
        None \<Rightarrow> (VV_ERR_NULL_PTR, h, w)
      | Some st \<Rightarrow>
          let w = (if st_is_mapped st
                   then let w = w\<lparr>os_maps := os_maps w - 1\<rparr>
                        in if st_fd st then w\<lparr>os_fds := os_fds w - 1\<rparr> else w
                   else w);
              h = vv_free (st_tensors_ptr st) h
          in (VV_OK, vv_free (Some (st_self st)) h, w)))"

type_synonym st_result = "vv_status \<times> safetensors option \<times> heap \<times> os"

definition st_fail :: "vv_status \<Rightarrow> safetensors \<Rightarrow> heap \<Rightarrow> os \<Rightarrow> st_result" where
  "st_fail s st h w = (case vv_safetensors_close (Some st) (h, w) of (_, h, w) \<Rightarrow> (s, None, h, w))"

text \<open>
  From the parsed header on. A header whose root is an array has children without a name, which
  \<^verbatim>\<open>strcmp\<close> follows.
\<close>

definition st_read_header :: "safetensors \<Rightarrow> json \<Rightarrow> heap \<Rightarrow> os \<Rightarrow> st_result" where
  "st_read_header st root h w =
     (let h = (if \<exists>kv \<in> set (json_children root). fst kv = None then h\<lparr>h_bad := True\<rparr> else h);
          kvs = filter is_tensor (json_children root)
      in case vv_alloc (of_nat (length kvs) * h_sizeof h ''vv_st_tensor_info_t'') h of
           (None, h) \<Rightarrow> st_fail VV_ERR_OUT_OF_MEMORY st h w
         | (Some a, h) \<Rightarrow>
             (VV_OK,
              Some (st\<lparr>st_tensors_ptr := Some a,
                       st_tensors := map (\<lambda>(k, v). tensor_info (the k) v) kvs\<rparr>), h, w))"

definition st_parse :: "(bytes \<Rightarrow> json option) \<Rightarrow> safetensors \<Rightarrow> bytes \<Rightarrow> heap \<Rightarrow> os \<Rightarrow> st_result" where
  "st_parse json_parse st header h w =
     (case json_parse header of
        None \<Rightarrow> st_fail VV_ERR_PARSE st h w
      | Some root \<Rightarrow> st_read_header st root h w)"

text \<open>The text of the header, as the C string that \<^verbatim>\<open>cJSON_Parse\<close> is given.\<close>

definition st_header_text :: "u64 \<Rightarrow> bytes \<Rightarrow> bytes" where
  "st_header_text hs data = takeWhile (\<lambda>b. b \<noteq> 0) (take (unat hs) (drop 8 data))"

definition st_load :: "(bytes \<Rightarrow> json option) \<Rightarrow> safetensors \<Rightarrow> heap \<Rightarrow> os \<Rightarrow> st_result" where
  "st_load json_parse st h w =
     (let hs = st_header_size st; data = st_mapped st in
      case vv_alloc (hs + 1) h of
        (None, h) \<Rightarrow> st_fail VV_ERR_OUT_OF_MEMORY st h w
      | (Some a, h) \<Rightarrow>
          let h = (if 8 + unat hs > length data \<or> unat hs + 9 > unat (h_raw h a) then h\<lparr>h_bad := True\<rparr> else h)
          in st_parse json_parse st (st_header_text hs data) (vv_free (Some a) h) w)"

definition vv_safetensors_open ::
  "(bytes \<Rightarrow> json option) \<Rightarrow> file_system option \<Rightarrow> heap \<Rightarrow> os \<Rightarrow> st_result" where
  "vv_safetensors_open json_parse path h w =
     (case path of
        None \<Rightarrow> (VV_ERR_NULL_PTR, None, h, w)
      | Some fs \<Rightarrow>
     (case vv_alloc (h_sizeof h ''vv_safetensors_t'') h of
        (None, h) \<Rightarrow> (VV_ERR_OUT_OF_MEMORY, None, h, w)
      | (Some self, h) \<Rightarrow>
          (case mmap_file fs w of
             (None, w) \<Rightarrow> (VV_ERR_IO, None, vv_free (Some self) h, w)
           | (Some data, w) \<Rightarrow>
               let st = \<lparr>st_self = self, st_fd = True, st_is_mapped = True, st_mapped = data,
                         st_mapped_size = of_nat (length data), st_header_size = 0, st_data_start = 0,
                         st_tensors_ptr = None, st_tensors = []\<rparr>
               in if st_mapped_size st < 8 then st_fail VV_ERR_MODEL_FORMAT st h w
                  else
                    let hs = le64 data; st = st\<lparr>st_header_size := hs\<rparr> in
                    if 8 + hs > st_mapped_size st then st_fail VV_ERR_MODEL_FORMAT st h w
                    else
                      let st = st\<lparr>st_data_start := 8 + hs\<rparr> in
                      st_load json_parse st h w)))"

definition vv_safetensors_num_tensors :: "safetensors option \<Rightarrow> int" where
  "vv_safetensors_num_tensors st = (case st of None \<Rightarrow> 0 | Some st \<Rightarrow> int (length (st_tensors st)))"

definition vv_safetensors_get_info :: "safetensors option \<Rightarrow> int \<Rightarrow> vv_status + st_info" where
  "vv_safetensors_get_info st index =
     (case st of
        None \<Rightarrow> Inl VV_ERR_NULL_PTR
      | Some st \<Rightarrow>
          if index < 0 \<or> index \<ge> int (length (st_tensors st)) then Inl VV_ERR_INVALID_ARG
          else Inr (st_tensors st ! nat index))"

definition vv_safetensors_find :: "safetensors option \<Rightarrow> string option \<Rightarrow> vv_status + st_info" where
  "vv_safetensors_find st name =
     (case (st, name) of
        (Some st, Some name) \<Rightarrow>
          (case find (\<lambda>i. si_name i = name) (st_tensors st) of
             None \<Rightarrow> Inl VV_ERR_NOT_FOUND
           | Some i \<Rightarrow> Inr i)
      | _ \<Rightarrow> Inl VV_ERR_NULL_PTR)"

text \<open>The pointer handed out is an offset into the mapping.\<close>

definition vv_safetensors_get_data :: "safetensors option \<Rightarrow> st_info option \<Rightarrow> vv_status + u64" where
  "vv_safetensors_get_data st info =
     (case (st, info) of
        (Some st, Some i) \<Rightarrow>
          let base = st_data_start st + si_data_offset i;
              data_section_size = st_mapped_size st - 8 - st_header_size st
          in if si_data_offset i + si_data_size i > data_section_size then Inl VV_ERR_MODEL_FORMAT
             else Inr base
      | _ \<Rightarrow> Inl VV_ERR_NULL_PTR)"

subsection \<open>Opening and closing\<close>

definition st_blocks :: "safetensors \<Rightarrow> block multiset" where
  "st_blocks st = {#(Host, st_self st)#} + opt_block Host (st_tensors_ptr st)"

text \<open>A handle as \<^verbatim>\<open>vv_safetensors_open\<close> leaves it.\<close>

definition st_wf :: "safetensors \<Rightarrow> bool" where
  "st_wf st \<longleftrightarrow>
     length (st_mapped st) < 2 ^ 63 \<and> st_mapped_size st = of_nat (length (st_mapped st)) \<and>
     8 + unat (st_header_size st) \<le> length (st_mapped st) \<and> st_data_start st = 8 + st_header_size st"

text \<open>A handle that holds its file and its mapping, over the state \<open>w\<close> the system had before.\<close>

definition st_holds_file :: "safetensors \<Rightarrow> os \<Rightarrow> os \<Rightarrow> bool" where
  "st_holds_file st w w' \<longleftrightarrow> st_fd st \<and> st_is_mapped st \<and> w' = w\<lparr>os_fds := os_fds w + 1, os_maps := os_maps w + 1\<rparr>"

lemma close_frees:
  assumes "owns h (st_blocks st + M)" and "st_holds_file st w w'"
  obtains h' where "vv_safetensors_close (Some st) (h, w') = (VV_OK, h', w)" and "owns h' M"
proof
  have "owns h (opt_block Host (st_tensors_ptr st) + add_mset (Host, st_self st) M)"
    using assms(1) by (simp add: st_blocks_def ac_simps)
  then show "owns (vv_free (Some (st_self st)) (vv_free (st_tensors_ptr st) h)) M" by simp
  show "vv_safetensors_close (Some st) (h, w') = (VV_OK, vv_free (Some (st_self st)) (vv_free (st_tensors_ptr st) h), w)"
    using assms(2) by (simp add: vv_safetensors_close_def st_holds_file_def)
qed

definition opened_ok :: "st_result \<Rightarrow> os \<Rightarrow> block multiset \<Rightarrow> bool" where
  "opened_ok r w M =
     (case r of (s, res, h', w') \<Rightarrow>
       (case res of
          None \<Rightarrow> s \<noteq> VV_OK \<and> owns h' M \<and> w' = w
        | Some st \<Rightarrow> s = VV_OK \<and> owns h' (st_blocks st + M) \<and> st_holds_file st w w' \<and> st_wf st))"

lemma fail_ok:
  assumes own: "owns h (add_mset (Host, st_self st) M)" and none: "st_tensors_ptr st = None"
    and os: "st_holds_file st w w'" and s: "s \<noteq> VV_OK"
  shows "opened_ok (st_fail s st h w') w M"
proof -
  have "owns h (st_blocks st + M)" using own none by (simp add: st_blocks_def opt_block_def)
  with os obtain h' where "vv_safetensors_close (Some st) (h, w') = (VV_OK, h', w)" "owns h' M"
    using close_frees by blast
  with s show ?thesis by (simp add: st_fail_def opened_ok_def)
qed

lemma read_header_ok:
  assumes own: "owns h (add_mset (Host, st_self st) M)" and none: "st_tensors_ptr st = None"
    and os: "st_holds_file st w w'" and wf: "st_wf st"
    and root: "\<forall>kv \<in> set (json_children root). fst kv \<noteq> None"
  shows "opened_ok (st_read_header st root h w') w M"
proof -
  let ?n = "of_nat (length (filter is_tensor (json_children root))) * h_sizeof h ''vv_st_tensor_info_t'' :: u64"
  have nb: "\<not> (\<exists>kv \<in> set (json_children root). fst kv = None)" using root by blast
  obtain q h1 where va: "vv_alloc ?n h = (q, h1)" by fastforce
  note own1 = vv_alloc_owns [OF own va]
  show ?thesis
  proof (cases q)
    case None
    with own1 have "opened_ok (st_fail VV_ERR_OUT_OF_MEMORY st h1 w') w M" by (intro fail_ok none os) simp_all
    then show ?thesis unfolding st_read_header_def Let_def if_not_P [OF nb] va None by simp
  next
    case (Some a)
    with own1 os wf show ?thesis unfolding st_read_header_def Let_def if_not_P [OF nb] va Some
      by (simp add: opened_ok_def st_blocks_def opt_block_def st_holds_file_def st_wf_def)
  qed
qed

lemma vv_alloc_raw: "vv_alloc sz h = (Some a, h') \<Longrightarrow> h_raw h' a = sz + 8"
  by (auto simp: vv_alloc_def Let_def split: if_splits)

lemma header_fits_block:
  assumes "8 + unat (hs :: u64) \<le> n" and "n < 2 ^ 63"
  shows "unat (hs + 1 + 8) = unat hs + 9"
  using assms by (simp add: unat_word_ariths unat_plus_if')

text \<open>
  The two files that lead the code astray: one whose first eight bytes are a length so near \<open>2 ^ 64\<close> that eight more wrap, and
  one whose header is a JSON array with an element, which has no name to compare.
\<close>

definition header_wraps :: "bytes \<Rightarrow> bool" where
  "header_wraps data \<longleftrightarrow> 2 ^ 64 - 8 \<le> unat (le64 data)"

definition header_is_array :: "(bytes \<Rightarrow> json option) \<Rightarrow> bytes \<Rightarrow> bool" where
  "header_is_array json_parse data =
     (case json_parse (st_header_text (le64 data) data) of Some (JArr (_ # _)) \<Rightarrow> True | _ \<Rightarrow> False)"

lemma header_children_named:
  assumes "\<not> header_is_array json_parse data" and "json_parse (st_header_text (le64 data) data) = Some root"
  shows "\<forall>kv \<in> set (json_children root). fst kv \<noteq> None"
  using assms by (auto simp: header_is_array_def json_children_def split: json.splits list.splits)

lemma open_copy_inside:
  assumes "length data < 2 ^ 63" and "\<not> header_wraps data" and "\<not> 8 + le64 data > (of_nat (length data) :: u64)"
  shows "8 + unat (le64 data) \<le> length data" and "unat (le64 data + 1 + 8) = unat (le64 data) + 9"
proof -
  have "unat (8 + le64 data) = 8 + unat (le64 data)" using assms(2) by (simp add: unat_word_ariths header_wraps_def)
  moreover have "unat (8 + le64 data) \<le> unat (of_nat (length data) :: u64)"
    using assms(3) by (simp add: word_le_nat_alt not_less)
  ultimately show le: "8 + unat (le64 data) \<le> length data" using assms(1) by (simp add: unat_of_nat)
  show "unat (le64 data + 1 + 8) = unat (le64 data) + 9" using header_fits_block [OF le assms(1)] .
qed

lemma st_parse_ok:
  assumes own: "owns h (add_mset (Host, st_self st) M)" and none: "st_tensors_ptr st = None"
    and os: "st_holds_file st w w'" and wf: "st_wf st"
    and json: "\<And>root. json_parse header = Some root \<Longrightarrow> \<forall>kv \<in> set (json_children root). fst kv \<noteq> None"
  shows "opened_ok (st_parse json_parse st header h w') w M"
proof (cases "json_parse header")
  case None
  have "opened_ok (st_fail VV_ERR_PARSE st h w') w M" by (intro fail_ok own none os) simp
  with None show ?thesis by (simp add: st_parse_def)
next
  case (Some root)
  from read_header_ok [OF own none os wf json [OF Some]] Some show ?thesis by (simp add: st_parse_def)
qed

lemma st_load_ok:
  assumes own: "owns h (add_mset (Host, st_self st) M)" and none: "st_tensors_ptr st = None"
    and os: "st_holds_file st w w'" and wf: "st_wf st"
    and json: "\<And>root. json_parse (st_header_text (st_header_size st) (st_mapped st)) = Some root \<Longrightarrow>
      \<forall>kv \<in> set (json_children root). fst kv \<noteq> None"
    and i: "unat (st_header_size st + 1 + 8) = unat (st_header_size st) + 9"
  shows "opened_ok (st_load json_parse st h w') w M"
proof -
  obtain q2 h2 where v2: "vv_alloc (st_header_size st + 1) h = (q2, h2)" by fastforce
  note own2 = vv_alloc_owns [OF own v2]
  show ?thesis
  proof (cases q2)
    case None
    with own2 have "opened_ok (st_fail VV_ERR_OUT_OF_MEMORY st h2 w') w M" by (intro fail_ok none os) simp_all
    with v2 None show ?thesis by (simp add: st_load_def)
  next
    case (Some a)
    have raw: "\<not> unat (st_header_size st) + 9 > unat (h_raw h2 a)"
      using vv_alloc_raw v2 Some i by (simp add: add.assoc)
    have len: "\<not> 8 + unat (st_header_size st) > length (st_mapped st)" using wf by (simp add: st_wf_def)
    have "owns (vv_free (Some a) h2) (add_mset (Host, st_self st) M)" using own2 Some by simp
    from st_parse_ok [where header = "st_header_text (st_header_size st) (st_mapped st)", OF this none os wf json]
      v2 Some raw len show ?thesis by (simp add: st_load_def Let_def)
  qed
qed

lemma mmap_file_cases:
  obtains (failed) "mmap_file fs w = (None, w)"
    | (mapped) data where "fs = Mapped data" and "data \<noteq> []"
        and "mmap_file fs w = (Some data, w\<lparr>os_fds := os_fds w + 1, os_maps := os_maps w + 1\<rparr>)"
proof (cases fs)
  case (Mapped data)
  with that show thesis by (cases data) (auto simp: mmap_file_def)
qed (use that in \<open>auto simp: mmap_file_def\<close>)

lemma st_open_ok:
  assumes own: "owns h M"
    and content: "\<And>data. path = Some (Mapped data) \<Longrightarrow>
      length data < 2 ^ 63 \<and> \<not> header_wraps data \<and> \<not> header_is_array json_parse data"
  shows "opened_ok (vv_safetensors_open json_parse path h w) w M"
proof -
  obtain q h1 where va: "vv_alloc (h_sizeof h ''vv_safetensors_t'') h = (q, h1)" by fastforce
  note own1 = vv_alloc_owns [OF own va]
  show ?thesis
  proof (cases "path = None \<or> q = None")
    case True
    with va own own1 show ?thesis by (cases path) (auto simp: vv_safetensors_open_def opened_ok_def)
  next
    case False
    then obtain fs self where p: "path = Some fs" and q: "q = Some self" by auto
    have own0: "owns h1 (add_mset (Host, self) M)" using own1 q by simp
    show ?thesis
    proof (cases fs w rule: mmap_file_cases)
      case failed
      with p q va own0 show ?thesis by (simp add: vv_safetensors_open_def opened_ok_def)
    next
      case (mapped data)
      define st0 where "st0 = \<lparr>st_self = self, st_fd = True, st_is_mapped = True, st_mapped = data,
        st_mapped_size = of_nat (length data), st_header_size = 0, st_data_start = 0, st_tensors_ptr = None, st_tensors = []\<rparr>"
      define st1 where "st1 = st0\<lparr>st_header_size := le64 data\<rparr>"
      define st where "st = st1\<lparr>st_data_start := 8 + le64 data\<rparr>"
      define w' where "w' = w\<lparr>os_fds := os_fds w + 1, os_maps := os_maps w + 1\<rparr>"
      note defs = st_def st1_def st0_def
      have os: "st_holds_file x w w'" if "x \<in> {st0, st1, st}" for x
        using that by (auto simp: defs st_holds_file_def w'_def)
      have fail: "opened_ok (st_fail VV_ERR_MODEL_FORMAT x h1 w') w M" if "x \<in> {st0, st1}" for x
        by (rule fail_ok [OF _ _ os]) (use that own0 in \<open>auto simp: defs\<close>)
      have step: "vv_safetensors_open json_parse path h w =
        (if (of_nat (length data) :: u64) < 8 then st_fail VV_ERR_MODEL_FORMAT st0 h1 w'
         else if 8 + le64 data > (of_nat (length data) :: u64) then st_fail VV_ERR_MODEL_FORMAT st1 h1 w'
         else st_load json_parse st h1 w')"
        using p q va mapped by (simp add: vv_safetensors_open_def Let_def defs w'_def)
      have load: "opened_ok (st_load json_parse st h1 w') w M" if fits: "\<not> 8 + le64 data > (of_nat (length data) :: u64)"
      proof (rule st_load_ok)
        have f: "length data < 2 ^ 63" "\<not> header_wraps data" "\<not> header_is_array json_parse data"
          using content p mapped(1) by auto
        note inside = open_copy_inside [OF f(1,2) fits]
        show "st_wf st" using f(1) inside(1) by (simp add: st_wf_def defs)
        show "unat (st_header_size st + 1 + 8) = unat (st_header_size st) + 9" using inside(2) by (simp add: defs)
        show "\<forall>kv \<in> set (json_children root). fst kv \<noteq> None"
          if "json_parse (st_header_text (st_header_size st) (st_mapped st)) = Some root" for root
          using header_children_named [OF f(3)] that by (simp add: defs)
      qed (use own0 os in \<open>simp_all add: defs\<close>)
      show ?thesis using step fail load by (auto split: if_splits)
    qed
  qed
qed

text \<open>
  C28. Opening a model file is all or nothing. Whichever allocation fails, and however the file is broken (missing, empty,
  impossible to map, shorter than its header says, not JSON, without tensors), \<^verbatim>\<open>vv_safetensors_open\<close> either
  hands out a handle that owns two blocks, one open file and one mapping, which \<^verbatim>\<open>vv_safetensors_close\<close> gives
  back, and whose header lies inside the file, or reports an error with the heap, the open files and the mappings as they were.
  The JSON parser is any function. Two kinds of file are left out, for which the code goes wrong, as the theorems after it show:
  a header length within eight of \<open>2 ^ 64\<close> (\<^verbatim>\<open>st_open_wraps\<close>), and a header that parses to a JSON array with an element
  (\<^verbatim>\<open>st_open_array_header\<close>).
\<close>

theorem st_open_all_or_nothing:
  assumes own: "owns h M"
    and content: "\<And>data. path = Some (Mapped data) \<Longrightarrow>
      length data < 2 ^ 63 \<and> \<not> header_wraps data \<and> \<not> header_is_array json_parse data"
    and op: "vv_safetensors_open json_parse path h w = (s, res, h', w')"
  shows "case res of
      None \<Rightarrow> s \<noteq> VV_OK \<and> owns h' M \<and> w' = w
    | Some st \<Rightarrow> s = VV_OK \<and> owns h' (st_blocks st + M) \<and>
        w' = w\<lparr>os_fds := os_fds w + 1, os_maps := os_maps w + 1\<rparr> \<and> st_wf st \<and>
        (\<exists>h''. vv_safetensors_close (Some st) (h', w') = (VV_OK, h'', w) \<and> owns h'' M)"
proof -
  have ok: "opened_ok (s, res, h', w') w M" using st_open_ok [of h M path json_parse w, OF own content] op by simp
  show ?thesis
  proof (cases res)
    case (Some st)
    with ok have st: "owns h' (st_blocks st + M)" "st_holds_file st w w'" by (simp_all add: opened_ok_def)
    from close_frees [OF st] have "\<exists>h''. vv_safetensors_close (Some st) (h', w') = (VV_OK, h'', w) \<and> owns h'' M" by metis
    with ok Some show ?thesis by (simp add: opened_ok_def st_holds_file_def)
  qed (use ok in \<open>simp add: opened_ok_def\<close>)
qed

definition demo_json :: json where
  "demo_json = JObj [(''w'', JObj [(''dtype'', JStr ''F16''), (''shape'', JArr [JNum 2]), (''data_offsets'', JArr [JNum 0, JNum 4])])]"

definition demo_st_heap :: heap where
  "demo_st_heap = \<lparr>h_next = 0, h_live = [], h_size = (\<lambda>_. 0), h_raw = (\<lambda>_. 0), h_total = 0, h_bad = False,
     h_malloc = (\<lambda>_ _. True), h_dev = (\<lambda>_ _. VV_OK), h_sizeof = (\<lambda>_. 64)\<rparr>"

definition demo_st_os :: os where
  "demo_st_os = \<lparr>os_fds = 3, os_maps = 1\<rparr>"

definition demo_st_file :: bytes where
  "demo_st_file = [2, 0, 0, 0, 0, 0, 0, 0, 0x7B, 0x7D, 1, 2, 3, 4]"

definition demo_st_open :: "json \<Rightarrow> st_result" where
  "demo_st_open root = vv_safetensors_open (\<lambda>b. if b = [] then None else Some root) (Some (Mapped demo_st_file)) demo_st_heap demo_st_os"

lemmas demo_open_defs = demo_st_open_def demo_st_heap_def demo_st_os_def demo_st_file_def demo_json_def vv_safetensors_open_def
  mmap_file_def vv_alloc_def le64_def st_load_def st_parse_def st_read_header_def json_children_def is_tensor_def vv_free_def
  st_header_text_def

lemma demo_open_ok:
  obtains st h' w' where "demo_st_open demo_json = (VV_OK, Some st, h', w')"
  by (simp add: demo_open_defs)

theorem st_open_all_or_nothing_witness:
  "case demo_st_open demo_json of
     (s, Some st, h', w') \<Rightarrow> owns h' (st_blocks st) \<and> os_fds w' = 4 \<and> os_maps w' = 2 \<and> st_wf st \<and>
       (\<exists>h''. vv_safetensors_close (Some st) (h', w') = (VV_OK, h'', demo_st_os) \<and> owns h'' {#})
   | _ \<Rightarrow> False"
proof -
  obtain st h' w' where r: "demo_st_open demo_json = (VV_OK, Some st, h', w')" using demo_open_ok .
  have own: "owns demo_st_heap {#}" by (simp add: owns_def demo_st_heap_def)
  have content: "length data < 2 ^ 63 \<and> \<not> header_wraps data \<and> \<not> header_is_array (\<lambda>b. if b = [] then None else Some demo_json) data"
    if "Some (Mapped demo_st_file) = Some (Mapped data)" for data
    using that by (auto simp: demo_st_file_def header_wraps_def header_is_array_def le64_def demo_json_def split: if_splits)
  from st_open_all_or_nothing [OF own content r [unfolded demo_st_open_def]] r show ?thesis
    by (auto simp: demo_st_os_def)
qed

subsection \<open>What a lying header does\<close>

lemma fail_bad: "h_bad h \<Longrightarrow> h_bad (fst (snd (snd (st_fail s st h w))))"
  by (simp add: st_fail_def vv_safetensors_close_def)

lemma h_bad_same: "h_bad h \<Longrightarrow> (if b then h\<lparr>h_bad := True\<rparr> else h) = h"
  by (cases h) simp

lemma read_header_bad: "h_bad h \<Longrightarrow> h_bad (fst (snd (snd (st_read_header st root h w))))"
  by (auto simp: st_read_header_def h_bad_same Let_def fail_bad h_bad_alloc split: option.split prod.split)

lemma st_parse_bad: "h_bad h \<Longrightarrow> h_bad (fst (snd (snd (st_parse json_parse st header h w))))"
  by (auto simp: st_parse_def read_header_bad fail_bad split: option.split)

text \<open>
  The two additions that wrap. A file whose first eight bytes are a length within eight of \<open>2 ^ 64\<close> passes
  the test against the file's size, because \<^verbatim>\<open>8 + header_size\<close> wraps to a small number; \<^verbatim>\<open>vv_alloc\<close>
  wraps once more and asks for fewer than eight bytes, and the copy of the header runs off the mapping.
\<close>

theorem st_open_wraps:
  assumes "8 \<le> length data" "length data < 2 ^ 63" and hs: "header_wraps data" "le64 data \<noteq> - 1"
    and mem: "\<And>n t. h_malloc h n t" and sz: "h_sizeof h ''vv_safetensors_t'' \<noteq> 0"
  shows "h_bad (fst (snd (snd (vv_safetensors_open json_parse (Some (Mapped data)) h w))))"
proof -
  let ?hs = "le64 data"
  obtain self h1 where a1: "vv_alloc (h_sizeof h ''vv_safetensors_t'') h = (Some self, h1)" and m1: "h_malloc h1 = h_malloc h"
    using sz mem by (auto simp: vv_alloc_def Let_def)
  have hs1: "2 ^ 64 - 8 \<le> unat ?hs" using hs(1) by (simp add: header_wraps_def)
  have lt: "unat ?hs < 2 ^ 64" by (rule order_less_le_trans [OF unsigned_less]) simp
  have "unat (8 + ?hs) = unat ?hs + 8 - 2 ^ 64"
    using hs1 lt by (simp add: unat_word_ariths mod_if)
  then have "unat (8 + ?hs) < 8" using lt by simp
  moreover have len: "unat (of_nat (length data) :: u64) = length data" using assms(2) by (simp add: unat_of_nat)
  ultimately have small: "\<not> 8 + ?hs > (of_nat (length data) :: u64)" "\<not> (of_nat (length data) :: u64) < 8"
    using assms(1) by (simp_all add: word_less_nat_alt)
  have nz: "?hs + 1 \<noteq> 0" using hs(2) by (metis add_diff_cancel_right' diff_0)
  have "length data < 8 + unat ?hs" using assms(2) hs1 by simp
  with nz m1 mem have load: "h_bad (fst (snd (snd (st_load json_parse st h1 w'))))"
    if "st_header_size st = ?hs" "st_mapped st = data" for st w'
    using that by (auto simp: st_load_def vv_alloc_def Let_def st_parse_bad)
  obtain b rest where "data = b # rest" using assms(1) by (cases data) auto
  then have "mmap_file (Mapped data) w = (Some data, w\<lparr>os_fds := os_fds w + 1, os_maps := os_maps w + 1\<rparr>)"
    by (simp add: mmap_file_def)
  with a1 small load show ?thesis by (simp add: vv_safetensors_open_def Let_def)
qed

theorem st_open_wraps_witness:
  "h_bad (fst (snd (snd (vv_safetensors_open (\<lambda>_. None) (Some (Mapped [0xF8, 0xFF, 0xFF, 0xFF, 0xFF, 0xFF, 0xFF, 0xFF])) demo_st_heap demo_st_os))))"
  by (rule st_open_wraps) (simp_all add: le64_def demo_st_heap_def header_wraps_def)

text \<open>
  The nameless children. When the header is a JSON array with an element, for example \<open>[1]\<close>, its children have no
  \<^verbatim>\<open>string\<close>, and the comparison with \<^verbatim>\<open>"__metadata__"\<close> follows a null pointer.
\<close>

theorem st_open_array_header:
  assumes fits: "8 \<le> length data" "length data < 2 ^ 63" "8 + unat (le64 data) \<le> length data"
    and arr: "header_is_array json_parse data"
    and mem: "\<And>n t. h_malloc h n t" and sz: "h_sizeof h ''vv_safetensors_t'' \<noteq> 0"
  shows "h_bad (fst (snd (snd (vv_safetensors_open json_parse (Some (Mapped data)) h w))))"
proof -
  obtain self h1 where a1: "vv_alloc (h_sizeof h ''vv_safetensors_t'') h = (Some self, h1)" and m1: "h_malloc h1 = h_malloc h"
    using sz mem by (auto simp: vv_alloc_def Let_def)
  obtain x xs where root: "json_parse (st_header_text (le64 data) data) = Some (JArr (x # xs))"
    using arr by (auto simp: header_is_array_def split: option.splits json.splits list.splits)
  have len: "unat (of_nat (length data) :: u64) = length data" using fits(2) by (simp add: unat_of_nat)
  have u: "unat (8 + le64 data) = 8 + unat (le64 data)" using fits by (simp add: unat_word_ariths)
  have small: "\<not> 8 + le64 data > (of_nat (length data) :: u64)" "\<not> (of_nat (length data) :: u64) < 8"
    using fits(1,3) len u by (simp_all add: word_less_nat_alt)
  have nz: "le64 data + 1 \<noteq> 0"
  proof
    assume "le64 data + 1 = 0"
    then have "unat (le64 data + 1) = 0" by simp
    then show False using fits by (simp add: unat_word_ariths)
  qed
  have header: "h_bad (fst (snd (snd (st_read_header st (JArr (x # xs)) h2 w'))))" for st h2 w'
  proof -
    have nameless: "\<exists>kv \<in> set (json_children (JArr (x # xs))). fst kv = None" by (simp add: json_children_def)
    show ?thesis unfolding st_read_header_def Let_def if_P [OF nameless]
      by (auto intro!: fail_bad dest!: h_bad_alloc [rotated] split: option.split prod.split)
  qed
  have load: "h_bad (fst (snd (snd (st_load json_parse st h1 w'))))"
    if "st_header_size st = le64 data" "st_mapped st = data" for st w'
    using that nz m1 mem root header by (auto simp: st_load_def vv_alloc_def Let_def st_parse_def)
  obtain b rest where "data = b # rest" using fits(1) by (cases data) auto
  then have "mmap_file (Mapped data) w = (Some data, w\<lparr>os_fds := os_fds w + 1, os_maps := os_maps w + 1\<rparr>)"
    by (simp add: mmap_file_def)
  with a1 small load show ?thesis by (simp add: vv_safetensors_open_def Let_def)
qed

theorem st_open_array_header_witness:
  "h_bad (fst (snd (snd (demo_st_open (JArr [JNum 1])))))"
  unfolding demo_st_open_def
  by (rule st_open_array_header)
    (simp_all add: le64_def demo_st_heap_def demo_st_file_def header_is_array_def st_header_text_def)

subsection \<open>Data pointers\<close>

definition section_size :: "safetensors \<Rightarrow> nat" where
  "section_size st = length (st_mapped st) - 8 - unat (st_header_size st)"

lemma unat_section:
  assumes "st_wf st"
  shows "unat (st_mapped_size st - 8 - st_header_size st) = section_size st"
    and "unat (st_data_start st) = 8 + unat (st_header_size st)"
proof -
  have b: "unat (st_mapped_size st) = length (st_mapped st)" "8 + unat (st_header_size st) \<le> length (st_mapped st)"
    using assms by (auto simp: st_wf_def unat_of_nat)
  have e: "unat (st_mapped_size st - 8) = length (st_mapped st) - 8"
    using b by (subst unat_sub) (simp_all add: word_le_nat_alt)
  show "unat (st_mapped_size st - 8 - st_header_size st) = section_size st"
    using b e by (subst unat_sub) (simp_all add: word_le_nat_alt section_size_def)
  have "unat (8 + st_header_size st) = 8 + unat (st_header_size st)"
    using assms by (auto simp: st_wf_def unat_word_ariths)
  then show "unat (st_data_start st) = 8 + unat (st_header_size st)" using assms by (simp add: st_wf_def)
qed

lemma tensor_offsets:
  assumes "json_get ''data_offsets'' item = Some (JArr (JNum a # JNum b # rest))"
    and "0 \<le> a" "a < 2 ^ 63" "0 \<le> b" "b < 2 ^ 63"
  shows "unat (si_data_offset (tensor_info key item)) = nat a"
    and "si_data_offset (tensor_info key item) + si_data_size (tensor_info key item) = of_int b"
    and "unat (of_int b :: u64) = nat b"
proof -
  have o: "si_data_offset (tensor_info key item) = of_int a" "si_data_size (tensor_info key item) = of_int b - of_int a"
    using assms(1) by (simp_all add: tensor_info_def json_number_def Let_def)
  have u: "unat (of_int x :: u64) = nat x" if "0 \<le> x" "x < 2 ^ 63" for x
    using that by (simp add: unsigned_of_int take_bit_int_eq_self)
  show "unat (si_data_offset (tensor_info key item)) = nat a" using u assms o by simp
  show "si_data_offset (tensor_info key item) + si_data_size (tensor_info key item) = of_int b" using o by simp
  show "unat (of_int b :: u64) = nat b" using u assms by simp
qed

text \<open>
  Where a tensor's bytes are. For an entry of the header with offsets \<open>[a, b]\<close>, \<open>a \<le> b\<close>,
  \<^verbatim>\<open>vv_safetensors_get_data\<close> succeeds exactly when the tensor ends inside the data section, and the pointer it gives is
  \<open>a\<close> bytes into that section, so all \<open>b - a\<close> bytes lie inside the mapped file.
\<close>

theorem st_data_in_bounds:
  assumes wf: "st_wf st" and j: "json_get ''data_offsets'' item = Some (JArr (JNum a # JNum b # rest))"
    and ab: "0 \<le> a" "a \<le> b" "b < 2 ^ 63"
  shows "case vv_safetensors_get_data (Some st) (Some (tensor_info key item)) of
      Inl s \<Rightarrow> s = VV_ERR_MODEL_FORMAT \<and> section_size st < nat b
    | Inr ptr \<Rightarrow> unat ptr = 8 + unat (st_header_size st) + nat a \<and>
        unat ptr + nat (b - a) \<le> length (st_mapped st)"
proof -
  have a63: "a < 2 ^ 63" and b0: "0 \<le> b" using ab by simp_all
  note t = tensor_offsets [OF j ab(1) a63 b0 ab(3)]
  have gt: "(of_int b > st_mapped_size st - 8 - st_header_size st) = (section_size st < nat b)"
    using t(3) unat_section(1) [OF wf] by (simp add: word_less_nat_alt)
  have s63: "8 + unat (st_header_size st) + section_size st = length (st_mapped st)" "length (st_mapped st) < 2 ^ 63"
    using wf by (auto simp: st_wf_def section_size_def)
  show ?thesis
  proof (cases "section_size st < nat b")
    case True
    with gt t(2) show ?thesis by (simp add: vv_safetensors_get_data_def)
  next
    case False
    have "nat a \<le> section_size st" using False ab by linarith
    then have "unat (st_data_start st + si_data_offset (tensor_info key item)) = 8 + unat (st_header_size st) + nat a"
      using t(1) unat_section(2) [OF wf] s63 by (simp add: unat_word_ariths)
    with False gt t(2) s63 ab show ?thesis by (simp add: vv_safetensors_get_data_def)
  qed
qed

definition demo_item :: "int \<Rightarrow> int \<Rightarrow> json" where
  "demo_item a b = JObj [(''dtype'', JStr ''U8''), (''data_offsets'', JArr [JNum a, JNum b])]"

definition demo_st :: safetensors where
  "demo_st = \<lparr>st_self = 0, st_fd = True, st_is_mapped = True, st_mapped = demo_st_file, st_mapped_size = 14, st_header_size = 2, st_data_start = 10,
     st_tensors_ptr = Some 1, st_tensors = []\<rparr>"

lemma demo_st_wf: "st_wf demo_st"
  by (simp add: st_wf_def demo_st_def demo_st_file_def)

lemma demo_item_offsets: "json_get ''data_offsets'' (demo_item a b) = Some (JArr [JNum a, JNum b])"
  by (simp add: demo_item_def json_get_def ascii_lower_def)

theorem st_data_in_bounds_witness:
  "case vv_safetensors_get_data (Some demo_st) (Some (tensor_info ''w'' (demo_item 1 3))) of
     Inl s \<Rightarrow> section_size demo_st < 3 | Inr ptr \<Rightarrow> unat ptr = 11 \<and> unat ptr + 2 \<le> 14"
  using st_data_in_bounds [OF demo_st_wf demo_item_offsets [of 1 3], of "''w''"]
  by (auto simp: demo_st_def demo_st_file_def split: sum.splits)

text \<open>
  Offsets the wrong way round pass. With \<open>b < a\<close> the size wraps, offset and size add up to \<open>b\<close>
  again, and the test only sees \<open>b\<close>: whatever \<open>a\<close> is, the pointer \<open>a\<close> bytes into the data section is
  handed out, also when that is past the end of the file.
\<close>

theorem st_data_reversed_offsets:
  assumes wf: "st_wf st" and j: "json_get ''data_offsets'' item = Some (JArr (JNum a # JNum b # rest))"
    and ab: "0 \<le> b" "b < a" "a < 2 ^ 62" "nat b \<le> section_size st"
  shows "\<exists>ptr. vv_safetensors_get_data (Some st) (Some (tensor_info key item)) = Inr ptr \<and>
    unat ptr = 8 + unat (st_header_size st) + nat a"
proof -
  have "0 \<le> a" "a < 2 ^ 63" "b < 2 ^ 63" using ab by simp_all
  note t = tensor_offsets [OF j this(1,2) ab(1) this(3)]
  have gt: "\<not> of_int b > st_mapped_size st - 8 - st_header_size st"
    using t(3) unat_section(1) [OF wf] ab by (simp add: word_less_nat_alt)
  have "unat (st_data_start st + si_data_offset (tensor_info key item)) = 8 + unat (st_header_size st) + nat a"
    using t(1) unat_section(2) [OF wf] wf ab by (auto simp: unat_word_ariths st_wf_def)
  with gt t(2) show ?thesis by (simp add: vv_safetensors_get_data_def)
qed

theorem st_data_reversed_offsets_witness:
  "\<exists>ptr. vv_safetensors_get_data (Some demo_st) (Some (tensor_info ''w'' (demo_item 1000 0))) = Inr ptr \<and> unat ptr = 1010"
  using st_data_reversed_offsets [OF demo_st_wf demo_item_offsets [of 1000 0], of "''w''"]
  by (simp add: demo_st_def)

text \<open>
  Looking a tensor up by name. After opening a file whose header is a JSON object, \<^verbatim>\<open>vv_safetensors_find\<close> of
  a name of at most 255 characters, other than the metadata's, gives the first entry of
  that name, and says not found when there is none; the number of tensors is the number of entries but for the metadata.
\<close>

theorem st_find_after_open:
  assumes op: "vv_safetensors_open json_parse (Some (Mapped data)) h w = (VV_OK, Some st, h', w')"
    and root: "json_parse (st_header_text (le64 data) data) = Some (JObj kvs)"
    and names: "\<forall>k \<in> fst ` set kvs. length k < 256" and nm: "name \<noteq> ''__metadata__''"
  shows "vv_safetensors_find (Some st) (Some name) =
      (case map_of kvs name of None \<Rightarrow> Inl VV_ERR_NOT_FOUND | Some v \<Rightarrow> Inr (tensor_info name v)) \<and>
    vv_safetensors_num_tensors (Some st) = int (length (filter (\<lambda>kv. fst kv \<noteq> ''__metadata__'') kvs))"
proof -
  let ?ts = "map (\<lambda>(k, v). tensor_info (the k) v) (filter is_tensor (json_children (JObj kvs)))"
  have ts: "st_tensors st = ?ts"
    using op root by (cases data) (auto simp: vv_safetensors_open_def mmap_file_def st_load_def st_parse_def st_read_header_def
        st_fail_def Let_def split: if_splits prod.splits option.splits)
  have "find (\<lambda>i. si_name i = name) ?ts = map_option (tensor_info name) (map_of kvs name)"
    using names nm
    by (induction kvs) (auto simp: json_children_def is_tensor_def tensor_info_def Let_def split: prod.splits)
  moreover have "length ?ts = length (filter (\<lambda>kv. fst kv \<noteq> ''__metadata__'') kvs)"
    by (induction kvs) (auto simp: json_children_def is_tensor_def)
  ultimately show ?thesis
    by (simp add: vv_safetensors_find_def vv_safetensors_num_tensors_def ts split: option.split)
qed

theorem st_find_after_open_witness:
  "case demo_st_open demo_json of
     (s, Some st, h', w') \<Rightarrow> vv_safetensors_find (Some st) (Some ''x'') = Inl VV_ERR_NOT_FOUND
   | _ \<Rightarrow> False"
proof -
  obtain st h' w' where r: "demo_st_open demo_json = (VV_OK, Some st, h', w')" using demo_open_ok .
  from st_find_after_open [OF r [unfolded demo_st_open_def demo_json_def], of "[(''w'', JObj [(''dtype'', JStr ''F16''), (''shape'', JArr [JNum 2]), (''data_offsets'', JArr [JNum 0, JNum 4])])]" "''x''"] r
  show ?thesis by (simp add: demo_st_file_def le64_def st_header_text_def)
qed

end
