(* ===== verification/Wav.thy ===== *)
theory Wav
  imports Heap
begin

unbundle bit_operations_syntax

text \<open>
  Reading and writing WAV files (\<^verbatim>\<open>src/audio/wav.c\<close>). A file is the list of bytes not read yet;
  \<^verbatim>\<open>fread\<close> takes from its front and \<^verbatim>\<open>fseek(SEEK_CUR)\<close> drops, past the end too. Integers read from the file
  keep their width. The C type \<^verbatim>\<open>float\<close> is the type variable \<open>'f\<close> with the operations the code uses
  (\<open>float_ops\<close>): which operation is applied to what, and in which order, is fixed here; their rounding is not.
\<close>

record 'f float_ops =
  f_zero :: 'f
  f_of_int :: "int \<Rightarrow> 'f"
  f_of_bits :: "u32 \<Rightarrow> 'f"
  f_add :: "'f \<Rightarrow> 'f \<Rightarrow> 'f"
  f_sub :: "'f \<Rightarrow> 'f \<Rightarrow> 'f"
  f_mul :: "'f \<Rightarrow> 'f \<Rightarrow> 'f"
  f_div :: "'f \<Rightarrow> 'f \<Rightarrow> 'f"
  f_less :: "'f \<Rightarrow> 'f \<Rightarrow> bool"
  f_to_i16 :: "'f \<Rightarrow> int"

definition WAV_FORMAT_PCM :: u16 where [simp]: "WAV_FORMAT_PCM = 1"
definition WAV_FORMAT_FLOAT :: u16 where [simp]: "WAV_FORMAT_FLOAT = 3"

text \<open>The fields of \<^verbatim>\<open>wav_fmt_t\<close>, on its 16 bytes.\<close>

definition fmt_audio_format :: "bytes \<Rightarrow> u16" where "fmt_audio_format fmt = le16 fmt"
definition fmt_num_channels :: "bytes \<Rightarrow> u16" where "fmt_num_channels fmt = le16 (drop 2 fmt)"
definition fmt_sample_rate :: "bytes \<Rightarrow> u32" where "fmt_sample_rate fmt = le32 (drop 4 fmt)"
definition fmt_bits_per_sample :: "bytes \<Rightarrow> u16" where "fmt_bits_per_sample fmt = le16 (drop 14 fmt)"

subsection \<open>Finding the chunks\<close>

record wav_state =
  w_fmt :: bytes
  w_found_fmt :: bool
  w_data :: "(nat \<times> bytes) option"

text \<open>
  The loop over the chunks; \<open>Inl\<close> is a \<open>return\<close> from inside it. \<open>w_data\<close> is \<^verbatim>\<open>raw_data\<close> with what was
  read into it, and a later data chunk overwrites the pointer.
\<close>

function wav_chunks :: "bytes \<Rightarrow> wav_state \<Rightarrow> heap \<Rightarrow> (vv_status \<times> heap) + (wav_state \<times> heap)" where
  "wav_chunks f w h =
     (if length f < 8 then Inr (w, h)
      else
        let id = take 4 f; sz = le32 (drop 4 f); f = drop 8 f in
        if id = ascii ''fmt '' then
          let to_read = (if sz < 16 then unat sz else 16) in
          if to_read = 0 \<or> length f < to_read then Inl (VV_ERR_AUDIO_FORMAT, h)
          else wav_chunks (drop (unat sz) f)
                 (w\<lparr>w_fmt := take to_read f @ drop to_read (w_fmt w), w_found_fmt := True\<rparr>) h
        else if id = ascii ''data'' then
          (case vv_alloc (ucast sz) h of
             (None, h) \<Rightarrow> Inl (VV_ERR_OUT_OF_MEMORY, h)
           | (Some a, h) \<Rightarrow>
               if length f < unat sz then Inl (VV_ERR_IO, vv_free (Some a) h)
               else wav_chunks (drop (unat sz) f) (w\<lparr>w_data := Some (a, take (unat sz) f)\<rparr>) h)
        else wav_chunks (drop (unat sz) f) w h)"
  by auto
termination by (relation "measure (\<lambda>(f, w, h). length f)") auto

declare wav_chunks.simps [simp del]

subsection \<open>Samples\<close>

definition i16_of :: "u16 \<Rightarrow> int" where "i16_of x = signed_take_bit 15 (uint x)"
definition i32_of :: "u32 \<Rightarrow> int" where "i32_of x = signed_take_bit 31 (uint x)"

text \<open>One sample at \<open>buf\<close>; a combination the code has no branch for stays zero.\<close>

definition wav_sample :: "'f float_ops \<Rightarrow> u16 \<Rightarrow> int \<Rightarrow> bytes \<Rightarrow> 'f" where
  "wav_sample F format bps buf =
     (if format = WAV_FORMAT_FLOAT \<and> bps = 32 then f_of_bits F (le32 buf)
      else if format = WAV_FORMAT_PCM then
        if bps = 8 then f_div F (f_sub F (f_of_int F (uint (buf ! 0))) (f_of_int F 128)) (f_of_int F 128)
        else if bps = 16 then f_div F (f_of_int F (i16_of (le16 buf))) (f_of_int F 32768)
        else if bps = 24 then
          let s32 = le32 (take 3 buf @ [0]);
              s32 = (if s32 AND 0x800000 \<noteq> 0 then s32 OR 0xFF000000 else s32)
          in f_div F (f_of_int F (i32_of s32)) (f_of_int F 8388608)
        else if bps = 32 then f_div F (f_of_int F (i32_of (le32 buf))) (f_of_int F 2147483648)
        else f_zero F
      else f_zero F)"

text \<open>
  \<^verbatim>\<open>int offset = (i * n_channels + ch) * bytes_per_sample;\<close> it does not fit an \<^verbatim>\<open>int\<close> past 2 GiB: signed overflow, \<open>None\<close>.
  None of the three factors is negative, so the partial results fit when the whole does.
\<close>

definition wav_offset :: "int \<Rightarrow> nat \<Rightarrow> nat \<Rightarrow> nat \<Rightarrow> nat option" where
  "wav_offset n_bytes n_channels i ch =
     (let offset = (int i * int n_channels + int ch) * n_bytes in if offset < 2 ^ 31 then Some (nat offset) else None)"

definition wav_add_channel ::
  "'f float_ops \<Rightarrow> u16 \<Rightarrow> int \<Rightarrow> int \<Rightarrow> nat \<Rightarrow> bytes \<Rightarrow> nat \<Rightarrow> nat \<Rightarrow> 'f option \<Rightarrow> 'f option" where
  "wav_add_channel F format bps n_bytes n_channels data i ch val =
     (case (val, wav_offset n_bytes n_channels i ch) of
        (Some v, Some offset) \<Rightarrow> Some (f_add F v (wav_sample F format bps (drop offset data)))
      | _ \<Rightarrow> None)"

definition wav_frame :: "'f float_ops \<Rightarrow> u16 \<Rightarrow> int \<Rightarrow> int \<Rightarrow> nat \<Rightarrow> bytes \<Rightarrow> nat \<Rightarrow> 'f option" where
  "wav_frame F format bps n_bytes n_channels data i =
     map_option (\<lambda>val. f_div F val (f_of_int F (int n_channels)))
       (fold (wav_add_channel F format bps n_bytes n_channels data i) [0..<n_channels] (Some (f_zero F)))"

text \<open>
  \<open>WavCrash\<close> is the integer division by zero of line 129, \<open>WavOverflow\<close> an offset that overflows; \<open>WavOk\<close> the samples and
  the rate.
\<close>

datatype 'f wav_result = WavErr vv_status | WavCrash | WavOverflow | WavOk "'f list" int

definition wav_convert :: "'f float_ops \<Rightarrow> bytes \<Rightarrow> nat \<Rightarrow> bytes \<Rightarrow> heap \<Rightarrow> 'f wav_result \<times> heap" where
  "wav_convert F fmt raw data h =
     (if fmt_audio_format fmt \<noteq> WAV_FORMAT_PCM \<and> fmt_audio_format fmt \<noteq> WAV_FORMAT_FLOAT
      then (WavErr VV_ERR_AUDIO_FORMAT, vv_free (Some raw) h)
      else
        let n_channels = uint (fmt_num_channels fmt);
            bps = uint (fmt_bits_per_sample fmt);
            bytes_per_sample = bps div 8
        in if bytes_per_sample * n_channels = 0 then (WavCrash, h)
           else
             let total = signed_take_bit 31 (int (length data) div (bytes_per_sample * n_channels)) in
             (case vv_alloc (of_int total * 4) h of
                (None, h) \<Rightarrow> (WavErr VV_ERR_OUT_OF_MEMORY, vv_free (Some raw) h)
              | (Some out, h) \<Rightarrow>
                  (case those (map (wav_frame F (fmt_audio_format fmt) bps bytes_per_sample (nat n_channels) data) [0..<nat total]) of
                     None \<Rightarrow> (WavOverflow, h)
                   | Some pcm \<Rightarrow> (WavOk pcm (signed_take_bit 31 (uint (fmt_sample_rate fmt))), vv_free (Some raw) h))))"

definition vv_audio_load_wav :: "'f float_ops \<Rightarrow> bytes option \<Rightarrow> heap \<Rightarrow> 'f wav_result \<times> heap" where
  "vv_audio_load_wav F file h =
     (case file of
        None \<Rightarrow> (WavErr VV_ERR_IO, h)
      | Some f \<Rightarrow>
          if length f < 12 then (WavErr VV_ERR_AUDIO_FORMAT, h)
          else if take 4 f \<noteq> ascii ''RIFF'' \<or> take 4 (drop 8 f) \<noteq> ascii ''WAVE''
          then (WavErr VV_ERR_AUDIO_FORMAT, h)
          else
            (case wav_chunks (drop 12 f) \<lparr>w_fmt = replicate 16 0, w_found_fmt = False, w_data = None\<rparr> h of
               Inl (s, h) \<Rightarrow> (WavErr s, h)
             | Inr (w, h) \<Rightarrow>
                 (case w_data w of
                    None \<Rightarrow> (WavErr VV_ERR_AUDIO_FORMAT, h)
                  | Some (raw, data) \<Rightarrow>
                      if \<not> w_found_fmt w then (WavErr VV_ERR_AUDIO_FORMAT, vv_free (Some raw) h)
                      else wav_convert F (w_fmt w) raw data h)))"

definition wav_quantize :: "'f float_ops \<Rightarrow> 'f \<Rightarrow> int" where
  "wav_quantize F v =
     (let v = (if f_less F (f_of_int F 1) v then f_of_int F 1 else v);
          v = (if f_less F v (f_of_int F (-1)) then f_of_int F (-1) else v)
      in f_to_i16 F (f_mul F v (f_of_int F 32767)))"

text \<open>
  \<^verbatim>\<open>vv_audio_save_wav\<close> on a file that was opened (\<open>opened\<close>) and whose stream reported no error (\<open>ok\<close>): the
  bytes written.
\<close>

definition vv_audio_save_wav :: "'f float_ops \<Rightarrow> bool \<Rightarrow> bool \<Rightarrow> 'f list \<Rightarrow> int \<Rightarrow> vv_status \<times> bytes" where
  "vv_audio_save_wav F opened ok pcm sample_rate =
     (if pcm = [] \<or> sample_rate \<le> 0 then (VV_ERR_INVALID_ARG, [])
      else if \<not> opened then (VV_ERR_IO, [])
      else
        let data_bytes = of_nat (length pcm) * 2 :: u32;
            riff_size = 36 + data_bytes;
            byte_rate = of_int sample_rate * 2 :: u32;
            out = ascii ''RIFF'' @ put32 riff_size @ ascii ''WAVEfmt '' @ put32 16 @ put16 WAV_FORMAT_PCM @ put16 1
              @ put32 (of_int sample_rate) @ put32 byte_rate @ put16 2 @ put16 16 @ ascii ''data'' @ put32 data_bytes
              @ concat (map (\<lambda>v. put16 (of_int (wav_quantize F v))) pcm)
        in (if ok then VV_OK else VV_ERR_IO, out))"

subsection \<open>Little-endian round trips\<close>

lemma split_byte32: "ucast (ucast (x :: u32) :: u8) + 256 * drop_bit 8 x = x"
proof -
  have "ucast (ucast x :: u8) = take_bit 8 x" by (rule bit_word_eqI) (auto simp: bit_simps)
  moreover have "256 * drop_bit 8 x = push_bit 8 (drop_bit 8 x)" by (simp add: push_bit_eq_mult)
  ultimately show ?thesis using bits_ident [of 8 x] by (simp add: add.commute)
qed

lemma split_byte16: "ucast (ucast (x :: u16) :: u8) + 256 * drop_bit 8 x = x"
proof -
  have "ucast (ucast x :: u8) = take_bit 8 x" by (rule bit_word_eqI) (auto simp: bit_simps)
  moreover have "256 * drop_bit 8 x = push_bit 8 (drop_bit 8 x)" by (simp add: push_bit_eq_mult)
  ultimately show ?thesis using bits_ident [of 8 x] by (simp add: add.commute)
qed

lemma le32_put32 [simp]: "le32 (put32 x @ r) = x"
proof -
  have "drop_bit 32 x = 0" by (rule bit_word_eqI) (auto simp: bit_simps)
  then show ?thesis
    using split_byte32 [of x] split_byte32 [of "drop_bit 8 x"] split_byte32 [of "drop_bit 16 x"] split_byte32 [of "drop_bit 24 x"]
    by (simp add: le32_def put32_def)
qed

lemma le16_put16 [simp]: "le16 (put16 x @ r) = x"
proof -
  have "drop_bit 16 x = 0" by (rule bit_word_eqI) (auto simp: bit_simps)
  then show ?thesis using split_byte16 [of x] split_byte16 [of "drop_bit 8 x"] by (simp add: le16_def put16_def)
qed

lemma le_put_plain [simp]: "le32 (put32 x) = x" "le16 (put16 y) = y"
  using le32_put32 [of x "[]"] le16_put16 [of y "[]"] by simp_all

lemma length_put [simp]: "length (put32 x) = 4" "length (put16 y) = 2" "length (ascii s) = length s"
  by (simp_all add: put32_def put16_def ascii_def)

lemma i16_of_of_int: "- 32768 \<le> q \<Longrightarrow> q \<le> 32767 \<Longrightarrow> i16_of (of_int q) = q"
proof -
  assume "- 32768 \<le> q" "q \<le> 32767"
  then have "signed_take_bit 15 q = q" by (intro signed_take_bit_int_eq_self) simp_all
  then show ?thesis by (simp add: i16_of_def uint_word_of_int_eq signed_take_bit_take_bit)
qed

subsection \<open>A plain file\<close>

definition wav_file :: "u32 \<Rightarrow> bytes \<Rightarrow> bytes \<Rightarrow> bytes" where
  "wav_file riff fmt data =
     ascii ''RIFF'' @ put32 riff @ ascii ''WAVE'' @ ascii ''fmt '' @ put32 16 @ fmt
     @ ascii ''data'' @ put32 (of_nat (length data)) @ data"

lemma chunk_fmt:
  assumes "length fmt = 16"
  shows "wav_chunks (ascii ''fmt '' @ put32 16 @ fmt @ rest) w h =
    wav_chunks rest (w\<lparr>w_fmt := fmt @ drop 16 (w_fmt w), w_found_fmt := True\<rparr>) h"
  using assms by (subst wav_chunks.simps) (simp add: Let_def)

lemma chunk_data:
  assumes "length data < 2 ^ 32" and "vv_alloc (of_nat (length data)) h = (Some a, h')"
  shows "wav_chunks (ascii ''data'' @ put32 (of_nat (length data)) @ data @ rest) w h =
    wav_chunks rest (w\<lparr>w_data := Some (a, data)\<rparr>) h'"
proof -
  have u: "unat (of_nat (length data) :: u32) = length data" using assms(1) by (simp add: unat_of_nat)
  have c: "ucast (of_nat (length data) :: u32) = (of_nat (length data) :: u64)"
    using assms(1) by (simp add: word_unat_eq_iff unsigned_ucast_eq unat_of_nat take_bit_eq_mod)
  have ne: "ascii ''data'' \<noteq> ascii ''fmt ''" by (simp add: ascii_def)
  show ?thesis using assms(2) u c ne by (subst wav_chunks.simps) (simp add: Let_def)
qed

lemma chunk_end: "wav_chunks [] w h = Inr (w, h)"
  by (subst wav_chunks.simps) simp

lemma load_wav_file:
  assumes "length fmt = 16" and "length data < 2 ^ 32" and "vv_alloc (of_nat (length data)) h = (Some a, h')"
  shows "vv_audio_load_wav F (Some (wav_file riff fmt data)) h = wav_convert F fmt a data h'"
proof -
  have d: "drop 12 (wav_file riff fmt data) = ascii ''fmt '' @ put32 16 @ fmt
      @ ascii ''data'' @ put32 (of_nat (length data)) @ data @ []"
    by (simp add: wav_file_def)
  have h: "\<not> length (wav_file riff fmt data) < 12" "take 4 (wav_file riff fmt data) = ascii ''RIFF''"
    "take 4 (drop 8 (wav_file riff fmt data)) = ascii ''WAVE''" by (simp_all add: wav_file_def)
  show ?thesis
    unfolding vv_audio_load_wav_def option.case d chunk_fmt [OF assms(1)] chunk_data [OF assms(2,3)] chunk_end
    using h by simp
qed

subsection \<open>Saving and loading\<close>

definition pcm16_fmt :: "int \<Rightarrow> bytes" where
  "pcm16_fmt rate = put16 WAV_FORMAT_PCM @ put16 1 @ put32 (of_int rate) @ put32 (of_int rate * 2) @ put16 2 @ put16 16"

lemma pcm16_fmt_fields:
  "length (pcm16_fmt r) = 16" "fmt_audio_format (pcm16_fmt r) = 1" "fmt_num_channels (pcm16_fmt r) = 1"
  "fmt_sample_rate (pcm16_fmt r) = of_int r" "fmt_bits_per_sample (pcm16_fmt r) = 16"
  by (simp_all add: pcm16_fmt_def fmt_audio_format_def fmt_num_channels_def fmt_sample_rate_def fmt_bits_per_sample_def)

lemma length_samples: "length (concat (map (\<lambda>v. put16 (g v)) pcm)) = 2 * length pcm"
  by (induction pcm) simp_all

lemma save_is_wav_file:
  assumes "pcm \<noteq> []" and "0 < rate"
  shows "vv_audio_save_wav F True True pcm rate =
    (VV_OK, wav_file (36 + of_nat (length pcm) * 2) (pcm16_fmt rate) (concat (map (\<lambda>v. put16 (of_int (wav_quantize F v))) pcm)))"
proof -
  have "ascii ''WAVEfmt '' = ascii ''WAVE'' @ ascii ''fmt ''" by (simp add: ascii_def)
  with assms show ?thesis
    by (simp add: vv_audio_save_wav_def wav_file_def pcm16_fmt_def length_samples Let_def mult.commute)
qed

lemma nth_sample:
  "i < length pcm \<Longrightarrow> \<exists>r. drop (i * 2) (concat (map (\<lambda>v. put16 (g v)) pcm)) = put16 (g (pcm ! i)) @ r"
proof (induction pcm arbitrary: i)
  case Nil
  then show ?case by simp
next
  case (Cons v pcm)
  then show ?case by (cases i) auto
qed

lemma those_map: "(\<And>x. x \<in> set xs \<Longrightarrow> g x = Some (k x)) \<Longrightarrow> those (map g xs) = Some (map k xs)"
  by (induction xs) auto

lemma mono16_frame:
  "wav_frame F 1 16 2 1 data i =
     (if i < 2 ^ 30 then Some (f_div F (f_add F (f_zero F) (wav_sample F 1 16 (drop (i * 2) data))) (f_of_int F 1)) else None)"
  by (simp add: wav_frame_def wav_add_channel_def wav_offset_def nat_mult_distrib)

text \<open>
  C20. What is saved can be loaded. A recording of at most 2^30 samples (the loader computes byte offsets as \<^verbatim>\<open>int\<close>, see
  \<open>wav_long_overflows\<close>) written by \<^verbatim>\<open>vv_audio_save_wav\<close> is read back by
  \<^verbatim>\<open>vv_audio_load_wav\<close> with the same number of samples, in order, and the same rate; each sample is the saved 16-bit value
  over 32768, and of what the loader allocated only the samples remain.
\<close>

theorem wav_roundtrip:
  assumes own: "owns h M" and host: "host_never_fails h"
    and pcm: "pcm \<noteq> []" "length pcm \<le> 2 ^ 30" and rate: "0 < rate" "rate < 2 ^ 31"
    and i16: "\<And>x. - 32768 \<le> f_to_i16 F x \<and> f_to_i16 F x \<le> 32767"
  shows "\<exists>h' out. vv_audio_load_wav F (Some (snd (vv_audio_save_wav F True True pcm rate))) h =
      (WavOk (map (\<lambda>v. f_div F (f_add F (f_zero F) (f_div F (f_of_int F (wav_quantize F v)) (f_of_int F 32768)))
                       (f_of_int F 1)) pcm) rate, h') \<and> owns h' (add_mset (Host, out) M)"
proof -
  let ?n = "length pcm"
  define data where "data = concat (map (\<lambda>v. put16 (of_int (wav_quantize F v))) pcm)"
  have len: "length data = 2 * ?n" by (simp add: data_def length_samples)
  have nz: "of_nat (length data) \<noteq> (0 :: u64)" "of_int (int ?n) * 4 \<noteq> (0 :: u64)"
    using word_times_neq_0 [of "int ?n" 2] word_times_neq_0 [of "int ?n" 4] pcm len by (simp_all add: mult.commute)
  obtain a h1 where v1: "vv_alloc (of_nat (length data)) h = (Some a, h1)" and host1: "host_never_fails h1"
    using vv_alloc_succeeds [OF host nz(1)] .
  obtain out h2 where v2: "vv_alloc (of_int (int ?n) * 4) h1 = (Some out, h2)"
    using vv_alloc_succeeds [OF host1 nz(2)] .
  have o1: "owns h1 (add_mset (Host, a) M)" using vv_alloc_owns [OF own v1] by simp
  have "owns h2 (add_mset (Host, out) (add_mset (Host, a) M))" using vv_alloc_owns [OF o1 v2] by simp
  then have o2: "owns (vv_free (Some a) h2) (add_mset (Host, out) M)" by (simp add: add_mset_commute)
  define loaded where "loaded v = f_div F (f_add F (f_zero F) (f_div F (f_of_int F (wav_quantize F v)) (f_of_int F 32768)))
      (f_of_int F 1)" for v
  have samp: "wav_frame F 1 16 2 1 data i = Some (loaded (pcm ! i))" if i: "i < ?n" for i
  proof -
    obtain r where "drop (i * 2) data = put16 (of_int (wav_quantize F (pcm ! i))) @ r"
      using nth_sample [OF i, of "\<lambda>v. of_int (wav_quantize F v)"] by (auto simp: data_def)
    moreover have "i16_of (of_int (wav_quantize F (pcm ! i))) = wav_quantize F (pcm ! i)"
      using i16 by (intro i16_of_of_int) (simp_all add: wav_quantize_def Let_def)
    moreover have "i < 2 ^ 30" using i pcm(2) by simp
    ultimately show ?thesis by (simp add: mono16_frame wav_sample_def loaded_def del: One_nat_def)
  qed
  have "signed_take_bit 31 (int ?n) = int ?n" "signed_take_bit 31 (uint (of_int rate :: u32)) = rate"
    using pcm(2) rate by (simp_all add: signed_take_bit_int_eq_self uint_word_of_int_eq take_bit_int_eq_self)
  moreover have "those (map (wav_frame F 1 16 2 1 data) [0..<?n]) = Some (map loaded pcm)"
  proof -
    have "those (map (wav_frame F 1 16 2 1 data) [0..<?n]) = Some (map (\<lambda>i. loaded (pcm ! i)) [0..<?n])"
      using samp by (intro those_map) simp
    also have "map (\<lambda>i. loaded (pcm ! i)) [0..<?n] = map loaded pcm" by (intro nth_equalityI) simp_all
    finally show ?thesis .
  qed
  ultimately have "wav_convert F (pcm16_fmt rate) a data h1 = (WavOk (map loaded pcm) rate, vv_free (Some a) h2)"
    using v2 len by (simp add: wav_convert_def pcm16_fmt_fields)
  moreover have "map loaded pcm = map (\<lambda>v. f_div F (f_add F (f_zero F)
      (f_div F (f_of_int F (wav_quantize F v)) (f_of_int F 32768))) (f_of_int F 1)) pcm"
    by (simp add: loaded_def)
  ultimately show ?thesis
    using load_wav_file [OF pcm16_fmt_fields(1) _ v1, of F "36 + of_nat ?n * 2" rate] o2 len pcm(2)
    by (auto simp: save_is_wav_file [OF pcm(1) rate(1)] simp flip: data_def)
qed

definition demo_ops :: "int float_ops" where
  "demo_ops = \<lparr>f_zero = 0, f_of_int = (\<lambda>x. x), f_of_bits = uint, f_add = (+), f_sub = (-), f_mul = (*), f_div = (div),
     f_less = (<), f_to_i16 = signed_take_bit 15\<rparr>"

definition demo_wav_heap :: heap where
  "demo_wav_heap = \<lparr>h_next = 0, h_live = [], h_size = (\<lambda>_. 0), h_raw = (\<lambda>_. 0), h_total = 0, h_bad = False,
     h_malloc = (\<lambda>_ _. True), h_dev = (\<lambda>_ _. VV_OK), h_sizeof = (\<lambda>_. 64)\<rparr>"

lemma demo_wav_heap_ok: "owns demo_wav_heap {#}" "host_never_fails demo_wav_heap"
  by (simp_all add: owns_def host_never_fails_def demo_wav_heap_def)

theorem wav_roundtrip_witness:
  "\<exists>h' out. vv_audio_load_wav demo_ops (Some (snd (vv_audio_save_wav demo_ops True True [0, 1, 0] 16000))) demo_wav_heap =
     (WavOk [0, 0, 0] 16000, h') \<and> owns h' {#(Host, out)#}"
proof -
  have "- 32768 \<le> f_to_i16 demo_ops x \<and> f_to_i16 demo_ops x \<le> 32767" for x
    using signed_take_bit_int_greater_eq_minus_exp [of 15 x] signed_take_bit_int_less_exp [of 15 x]
    by (simp add: demo_ops_def)
  from wav_roundtrip [OF demo_wav_heap_ok, of "[0, 1, 0]" 16000 demo_ops, OF _ _ _ _ this] show ?thesis
    by (simp add: demo_ops_def wav_quantize_def signed_take_bit_int_eq_self)
qed

subsection \<open>Recordings past 2 GiB\<close>

lemma those_None: "x \<in> set xs \<Longrightarrow> g x = None \<Longrightarrow> those (map g xs) = None"
  by (induction xs) (auto split: option.splits)

text \<open>
  A recording of more than 2^30 samples is saved with a header that holds its size, and cannot be loaded: the byte offset of
  sample 2^30 overflows \<^verbatim>\<open>int\<close>.
\<close>

theorem wav_long_overflows:
  assumes host: "host_never_fails h" and pcm: "2 ^ 30 < length pcm" "length pcm < 2 ^ 31" and rate: "0 < rate"
  shows "\<exists>h'. vv_audio_load_wav F (Some (snd (vv_audio_save_wav F True True pcm rate))) h = (WavOverflow, h')"
proof -
  let ?n = "length pcm"
  have ne: "pcm \<noteq> []" using pcm(1) by auto
  define data where "data = concat (map (\<lambda>v. put16 (of_int (wav_quantize F v))) pcm)"
  have len: "length data = 2 * ?n" by (simp add: data_def length_samples)
  have nz: "of_nat (length data) \<noteq> (0 :: u64)" "of_int (int ?n) * 4 \<noteq> (0 :: u64)"
    using word_times_neq_0 [of "int ?n" 2] word_times_neq_0 [of "int ?n" 4] ne pcm(2) len by (auto simp: mult.commute)
  obtain a h1 where v1: "vv_alloc (of_nat (length data)) h = (Some a, h1)" and host1: "host_never_fails h1"
    using vv_alloc_succeeds [OF host nz(1)] .
  obtain out h2 where v2: "vv_alloc (of_int (int ?n) * 4) h1 = (Some out, h2)"
    using vv_alloc_succeeds [OF host1 nz(2)] .
  have "those (map (wav_frame F 1 16 2 1 data) [0..<?n]) = None"
    by (rule those_None [of "2 ^ 30"]) (use pcm in \<open>simp_all add: mono16_frame del: One_nat_def\<close>)
  moreover have "signed_take_bit 31 (int ?n) = int ?n" using pcm(2) by (simp add: signed_take_bit_int_eq_self)
  ultimately have "wav_convert F (pcm16_fmt rate) a data h1 = (WavOverflow, h2)"
    using v2 len by (simp add: wav_convert_def pcm16_fmt_fields)
  then show ?thesis
    using load_wav_file [OF pcm16_fmt_fields(1) _ v1, of F "36 + of_nat ?n * 2" rate] len pcm(2)
    by (auto simp: save_is_wav_file [OF ne rate] simp flip: data_def)
qed

subsection \<open>Reading inside the data\<close>

text \<open>The bytes one sample's branch reads.\<close>

definition wav_reads :: "u16 \<Rightarrow> int \<Rightarrow> int" where
  "wav_reads format bps =
     (if format = WAV_FORMAT_FLOAT \<and> bps = 32 then 4
      else if format = WAV_FORMAT_PCM then (if bps = 8 then 1 else if bps = 16 then 2 else if bps = 24 then 3 else if bps = 32 then 4 else 0)
      else 0)"

lemma wav_reads_le: "0 \<le> bps \<Longrightarrow> wav_reads format bps \<le> bps div 8"
  by (auto simp: wav_reads_def)

text \<open>
  The conversion never reads outside the data chunk. For every sample and channel the loops visit, the bytes
  the branch for that format reads end inside the buffer, and the index arithmetic, done in \<^verbatim>\<open>int\<close>, does
  not overflow when the chunk is below 2 GiB, whatever the header says.
\<close>

theorem wav_reads_in_bounds:
  assumes len: "length data < 2 ^ 31" and pos: "0 < uint (fmt_num_channels fmt)" "0 < uint (fmt_bits_per_sample fmt) div 8"
    and i: "0 \<le> i" "i < int (length data) div (uint (fmt_bits_per_sample fmt) div 8 * uint (fmt_num_channels fmt))"
    and ch: "0 \<le> ch" "ch < uint (fmt_num_channels fmt)"
  shows "0 \<le> (i * uint (fmt_num_channels fmt) + ch) * (uint (fmt_bits_per_sample fmt) div 8) \<and>
    (i * uint (fmt_num_channels fmt) + ch) * (uint (fmt_bits_per_sample fmt) div 8)
      + wav_reads (fmt_audio_format fmt) (uint (fmt_bits_per_sample fmt)) \<le> int (length data) \<and>
    (i * uint (fmt_num_channels fmt) + ch) * (uint (fmt_bits_per_sample fmt) div 8) < 2 ^ 31"
proof -
  let ?c = "uint (fmt_num_channels fmt)" and ?b = "uint (fmt_bits_per_sample fmt) div 8" and ?n = "int (length data)"
  let ?r = "wav_reads (fmt_audio_format fmt) (uint (fmt_bits_per_sample fmt))"
  have r: "?r \<le> ?b" by (rule wav_reads_le) simp
  have "(i * ?c + ch) + 1 \<le> (i + 1) * ?c" using ch by (simp add: algebra_simps)
  then have "((i * ?c + ch) + 1) * ?b \<le> ((i + 1) * ?c) * ?b" using pos by (intro mult_right_mono) simp_all
  also have "\<dots> = (i + 1) * (?b * ?c)" by (simp add: algebra_simps)
  also have "\<dots> \<le> (?n div (?b * ?c)) * (?b * ?c)" using i pos by (intro mult_right_mono) simp_all
  also have "\<dots> \<le> ?n" using div_mult_mod_eq [of ?n "?b * ?c"] pos_mod_sign [OF mult_pos_pos [OF pos(2,1)], of ?n] by linarith
  finally have e: "(i * ?c + ch) * ?b + ?b \<le> ?n" by (simp add: algebra_simps)
  have "0 \<le> (i * ?c + ch) * ?b" using i ch pos by simp
  moreover have "?n < 2 ^ 31" using len by simp
  ultimately show ?thesis using e r pos by linarith
qed


theorem wav_reads_in_bounds_witness:
  "(0 \<le> (1 * uint (fmt_num_channels (pcm16_fmt 8000)) + 0) * (uint (fmt_bits_per_sample (pcm16_fmt 8000)) div 8)) \<and>
    (1 * uint (fmt_num_channels (pcm16_fmt 8000)) + 0) * (uint (fmt_bits_per_sample (pcm16_fmt 8000)) div 8)
      + wav_reads (fmt_audio_format (pcm16_fmt 8000)) (uint (fmt_bits_per_sample (pcm16_fmt 8000)))
      \<le> int (length (replicate 4 0 :: bytes))"
  using wav_reads_in_bounds [of "replicate 4 0" "pcm16_fmt 8000" 1 0] by (simp add: pcm16_fmt_fields)

subsection \<open>Hostile files\<close>

lemma of_nat_u64_nonzero: "0 < n \<Longrightarrow> n < 2 ^ 64 \<Longrightarrow> of_nat n \<noteq> (0 :: u64)"
proof -
  assume "0 < n" "n < 2 ^ 64"
  then have "unat (of_nat n :: u64) \<noteq> 0" by (simp add: unat_of_nat)
  then show ?thesis by auto
qed

text \<open>
  A header with no channels, or fewer than eight bits a sample, stops the process. The loader divides by
  the frame size it computes from the header without looking at it, so a well-formed file with either is a division
  by zero, after the data was read and with the buffer still held.
\<close>

theorem wav_zero_frame_crashes:
  assumes fmt: "length fmt = 16" "fmt_audio_format fmt \<in> {WAV_FORMAT_PCM, WAV_FORMAT_FLOAT}"
    and zero: "fmt_num_channels fmt = 0 \<or> fmt_bits_per_sample fmt < 8"
    and data: "0 < length data" "length data < 2 ^ 32" and host: "host_never_fails h"
  shows "\<exists>h'. vv_audio_load_wav F (Some (wav_file riff fmt data)) h = (WavCrash, h')"
proof -
  have nz: "of_nat (length data) \<noteq> (0 :: u64)" using data by (intro of_nat_u64_nonzero) simp_all
  obtain a h1 where v1: "vv_alloc (of_nat (length data)) h = (Some a, h1)" using vv_alloc_succeeds [OF host nz] .
  have "uint (fmt_bits_per_sample fmt) div 8 * uint (fmt_num_channels fmt) = 0"
    using zero by (auto simp: word_less_def)
  then have "wav_convert F fmt a data h1 = (WavCrash, h1)" using fmt by (auto simp: wav_convert_def)
  then show ?thesis using load_wav_file [OF fmt(1) _ v1, of F riff] data by auto
qed


theorem wav_zero_frame_crashes_witness:
  "\<exists>h'. vv_audio_load_wav demo_ops (Some (wav_file 0 (put16 1 @ put16 0 @ replicate 12 0) [7])) demo_wav_heap = (WavCrash, h')"
  by (rule wav_zero_frame_crashes [OF _ _ _ _ _ demo_wav_heap_ok(2)])
    (simp_all add: fmt_audio_format_def fmt_num_channels_def)

text \<open>
  A second data chunk leaks the first. The loader keeps reading chunks after it has the data; a further data chunk
  is read into a new buffer whose pointer replaces the old one, and the load succeeds with the first buffer still allocated.
\<close>

theorem wav_second_data_leaks:
  assumes own: "owns h M" and host: "host_never_fails h"
    and d1: "0 < length d1" "length d1 < 2 ^ 31" and d2: "2 \<le> length d2" "length d2 < 2 ^ 31"
  shows "\<exists>pcm lost out h'. vv_audio_load_wav F (Some (wav_file riff (pcm16_fmt rate) d1
        @ ascii ''data'' @ put32 (of_nat (length d2)) @ d2)) h = (WavOk pcm (signed_take_bit 31 (uint (of_int rate :: u32))), h')
      \<and> owns h' (add_mset (Host, out) (add_mset (Host, lost) M))"
proof -
  let ?file = "wav_file riff (pcm16_fmt rate) d1 @ ascii ''data'' @ put32 (of_nat (length d2)) @ d2"
  let ?n = "length d2 div 2"
  have nz: "of_nat (length d1) \<noteq> (0 :: u64)" by (rule of_nat_u64_nonzero) (use d1 in auto)
  have nz2: "of_nat (length d2) \<noteq> (0 :: u64)" by (rule of_nat_u64_nonzero) (use d2 in auto)
  have nz3: "of_nat (?n * 4) \<noteq> (0 :: u64)" by (rule of_nat_u64_nonzero) (use d2 in auto)
  obtain a h1 where v1: "vv_alloc (of_nat (length d1)) h = (Some a, h1)" and host1: "host_never_fails h1"
    using vv_alloc_succeeds [OF host nz] .
  obtain b h2 where v2: "vv_alloc (of_nat (length d2)) h1 = (Some b, h2)" and host2: "host_never_fails h2"
    using vv_alloc_succeeds [OF host1 nz2] .
  obtain out h3 where v3: "vv_alloc (of_nat (?n * 4)) h2 = (Some out, h3)"
    using vv_alloc_succeeds [OF host2 nz3] .
  have o1: "owns h1 (add_mset (Host, a) M)" using vv_alloc_owns [OF own v1] by simp
  have o2: "owns h2 (add_mset (Host, b) (add_mset (Host, a) M))" using vv_alloc_owns [OF o1 v2] by simp
  have "owns h3 (add_mset (Host, out) (add_mset (Host, b) (add_mset (Host, a) M)))" using vv_alloc_owns [OF o2 v3] by simp
  then have o3: "owns (vv_free (Some b) h3) (add_mset (Host, out) (add_mset (Host, a) M))"
    by (simp add: add_mset_commute [of "(Host, out)"])
  have d: "drop 12 ?file = ascii ''fmt '' @ put32 16 @ pcm16_fmt rate @ ascii ''data'' @ put32 (of_nat (length d1)) @ d1
      @ ascii ''data'' @ put32 (of_nat (length d2)) @ d2 @ []"
    by (simp add: wav_file_def)
  have hd: "\<not> length ?file < 12" "take 4 ?file = ascii ''RIFF''" "take 4 (drop 8 ?file) = ascii ''WAVE''"
    by (simp_all add: wav_file_def)
  have len: "length d1 < 2 ^ 32" "length d2 < 2 ^ 32" using d1 d2 by simp_all
  have "signed_take_bit 31 (int (length d2) div 2) = int ?n"
    using d2 by (subst signed_take_bit_int_eq_self) (simp_all add: zdiv_int)
  moreover have "\<exists>pcm. those (map (wav_frame F 1 16 2 1 d2) [0..<?n]) = Some pcm"
    by (rule exI, rule those_map [where k = "\<lambda>i. the (wav_frame F 1 16 2 1 d2 i)"])
      (use d2 in \<open>simp add: mono16_frame del: One_nat_def\<close>)
  ultimately have "\<exists>pcm. wav_convert F (pcm16_fmt rate) b d2 h2 =
      (WavOk pcm (signed_take_bit 31 (uint (of_int rate :: u32))), vv_free (Some b) h3)"
    using v3 by (auto simp: wav_convert_def pcm16_fmt_fields)
  then have "\<exists>pcm. vv_audio_load_wav F (Some ?file) h =
      (WavOk pcm (signed_take_bit 31 (uint (of_int rate :: u32))), vv_free (Some b) h3)"
    unfolding vv_audio_load_wav_def option.case d chunk_fmt [OF pcm16_fmt_fields(1)] chunk_data [OF len(1) v1]
      chunk_data [OF len(2) v2] chunk_end
    using hd by simp
  with o3 show ?thesis by blast
qed

theorem wav_second_data_leaks_witness:
  "\<exists>pcm lost out h'. vv_audio_load_wav demo_ops (Some (wav_file 0 (pcm16_fmt 8000) [1]
        @ ascii ''data'' @ put32 (of_nat (length [2, 3 :: u8])) @ [2, 3])) demo_wav_heap
      = (WavOk pcm (signed_take_bit 31 (uint (of_int 8000 :: u32))), h')
      \<and> owns h' (add_mset (Host, out) (add_mset (Host, lost) {#}))"
  by (rule wav_second_data_leaks [OF demo_wav_heap_ok]) simp_all

end
