(* ===== verification/HashTable.thy ===== *)
theory HashTable
  imports Prelude
begin

unbundle bit_operations_syntax

text \<open>
  The open-addressed hash tables of the tokenizer (\<^verbatim>\<open>src/text_tokenizer/bpe.c\<close>). A table is an array of indexes
  into a list of entries, \<^verbatim>\<open>-1\<close> where it is empty, with a power of two of cells; both tables of the tokenizer
  (vocabulary and merges) share the same two loops, \<open>bucket_free\<close> and \<open>bucket_find\<close>. The loops walk until they meet
  an empty cell, so they return \<open>None\<close> when they do not end. The locale \<open>probe_table\<close> is what the tokenizer
  relies on: a table filled entry by entry answers like a search through the list of entries.
\<close>

definition fnv1a :: "bytes \<Rightarrow> u64" where
  "fnv1a s = fold (\<lambda>b h. (h XOR ucast b) * 1099511628211) s 1469598103934665603"

text \<open>\<^verbatim>\<open>while (p < v) p <<= 1\<close> on 32 bits, which does not end above \<open>2 ^ 31\<close>.\<close>

partial_function (option) pow2_loop :: "u32 \<Rightarrow> u32 \<Rightarrow> u32 option" where
  "pow2_loop v p = (if p < v then pow2_loop v (push_bit 1 p) else Some p)"

definition next_pow2 :: "u32 \<Rightarrow> u32 option" where
  "next_pow2 v = pow2_loop v 16"

partial_function (option) bucket_free :: "int list \<Rightarrow> u32 \<Rightarrow> u32 \<Rightarrow> u32 option" where
  "bucket_free bucket msk i =
     (if 0 \<le> bucket ! unat i then bucket_free bucket msk ((i + 1) AND msk) else Some i)"

partial_function (option) bucket_find :: "int list \<Rightarrow> u32 \<Rightarrow> (nat \<Rightarrow> bool) \<Rightarrow> u32 \<Rightarrow> nat option option" where
  "bucket_find bucket msk test i =
     (if 0 \<le> bucket ! unat i then
        if test (nat (bucket ! unat i)) then Some (Some (nat (bucket ! unat i)))
        else bucket_find bucket msk test ((i + 1) AND msk)
      else Some None)"

text \<open>A loop whose body may not end.\<close>

primrec fold_opt :: "('a \<Rightarrow> 's \<Rightarrow> 's option) \<Rightarrow> 'a list \<Rightarrow> 's \<Rightarrow> 's option" where
  "fold_opt f [] s = Some s"
| "fold_opt f (x # xs) s = (case f x s of None \<Rightarrow> None | Some s \<Rightarrow> fold_opt f xs s)"

lemma fold_opt_append: "fold_opt f (xs @ ys) s = (case fold_opt f xs s of None \<Rightarrow> None | Some s \<Rightarrow> fold_opt f ys s)"
  by (induction xs arbitrary: s) (auto split: option.splits)

subsection \<open>Powers of two\<close>

lemma unat_pow2: "k < 32 \<Longrightarrow> unat (2 ^ k :: u32) = 2 ^ k"
proof -
  assume "k < 32"
  then have "(2 :: nat) ^ k < 2 ^ 32" by (rule power_strict_increasing) simp
  then have "unat (of_nat (2 ^ k) :: u32) = 2 ^ k" by (simp add: unat_of_nat del: of_nat_power)
  then show ?thesis by simp
qed

lemma pow2_loop_done: "v \<le> p \<Longrightarrow> pow2_loop v p = Some p"
  by (subst pow2_loop.simps) auto

lemma pow2_loop_pow:
  assumes "k \<le> 31" and "unat v \<le> 2 ^ 31"
  shows "\<exists>m. k \<le> m \<and> m \<le> 31 \<and> pow2_loop v (2 ^ k) = Some (2 ^ m) \<and> unat v \<le> 2 ^ m \<and> (m = k \<or> 2 ^ m < 2 * unat v)"
  using assms(1)
proof (induction k rule: measure_induct_rule [where f = "\<lambda>k. 31 - k"])
  case (less k)
  have u: "unat (2 ^ k :: u32) = 2 ^ k" using less.prems by (simp add: unat_pow2)
  show ?case
  proof (cases "unat v \<le> 2 ^ k")
    case True
    then show ?thesis using less.prems u by (intro exI [of _ k]) (auto simp: word_le_nat_alt pow2_loop_done)
  next
    case False
    then have k: "k < 31" using assms(2) less.prems by (cases "k = 31") auto
    have "pow2_loop v (2 ^ k) = pow2_loop v (2 ^ Suc k)"
      using False u by (subst pow2_loop.simps) (simp add: word_less_nat_alt mult.commute)
    moreover have "31 - Suc k < 31 - k" using k by simp
    moreover obtain m where "Suc k \<le> m" "m \<le> 31" "pow2_loop v (2 ^ Suc k) = Some (2 ^ m)" "unat v \<le> 2 ^ m"
        "m = Suc k \<or> 2 ^ m < 2 * unat v"
      using less.IH [OF \<open>31 - Suc k < 31 - k\<close>] k by auto
    ultimately show ?thesis using False by (intro exI [of _ m]) auto
  qed
qed

lemma next_pow2_total:
  assumes "unat v \<le> 2 ^ 31"
  obtains m where "next_pow2 v = Some (2 ^ m)" "4 \<le> m" "m \<le> 31" "unat v \<le> 2 ^ m"
proof -
  have "(16 :: u32) = 2 ^ 4" by simp
  then show thesis using pow2_loop_pow [of 4 v] assms that unfolding next_pow2_def by auto
qed


subsection \<open>Probing\<close>

lemma unat_step: "m < 32 \<Longrightarrow> unat (((i :: u32) + 1) AND (2 ^ m - 1)) = (unat i + 1) mod 2 ^ m"
proof -
  assume m: "m < 32"
  have "(2 :: nat) ^ m dvd 2 ^ 32" by (rule le_imp_power_dvd) (use m in simp)
  moreover have "(i + 1) AND (2 ^ m - 1) = take_bit m (i + 1)" by (simp add: take_bit_eq_mask mask_eq_exp_minus_1)
  moreover have "unat (i + 1) = (unat i + 1) mod 2 ^ 32" by (simp add: unat_word_ariths)
  ultimately show ?thesis by (simp add: unsigned_take_bit_eq take_bit_nat_def mod_mod_cancel)
qed

lemma unat_start: "unat ((x :: u32) AND (2 ^ m - 1)) = unat x mod 2 ^ m"
proof -
  have "x AND (2 ^ m - 1) = take_bit m x" by (simp add: take_bit_eq_mask mask_eq_exp_minus_1)
  then show ?thesis by (simp add: unsigned_take_bit_eq take_bit_nat_def)
qed

lemma slot_shift: "((a + 1) mod N + e) mod N = (a + Suc e) mod (N :: nat)"
  by (simp add: mod_add_left_eq)

lemma bucket_free_run:
  assumes "m < 32"
    and "\<And>e. e < d \<Longrightarrow> 0 \<le> b ! ((unat i + e) mod 2 ^ m)"
    and "b ! ((unat i + d) mod 2 ^ m) < 0" and "unat i < 2 ^ m"
  shows "\<exists>j. bucket_free b (2 ^ m - 1) i = Some j \<and> unat j = (unat i + d) mod 2 ^ m"
  using assms(2-)
proof (induction d arbitrary: i)
  case 0
  then show ?case by (subst bucket_free.simps) simp
next
  case (Suc d)
  let ?i = "(i + 1) AND (2 ^ m - 1)"
  have s: "(unat ?i + e) mod 2 ^ m = (unat i + Suc e) mod 2 ^ m" for e
    unfolding unat_step [OF assms(1)] by (rule slot_shift)
  have "\<exists>j. bucket_free b (2 ^ m - 1) ?i = Some j \<and> unat j = (unat ?i + d) mod 2 ^ m"
  proof (rule Suc.IH)
    show "0 \<le> b ! ((unat ?i + e) mod 2 ^ m)" if "e < d" for e unfolding s by (rule Suc.prems) (use that in simp)
    show "b ! ((unat ?i + d) mod 2 ^ m) < 0" unfolding s by (rule Suc.prems)
  qed (simp add: unat_step assms(1))
  moreover have "bucket_free b (2 ^ m - 1) i = bucket_free b (2 ^ m - 1) ?i"
    using Suc.prems(1) [of 0] Suc.prems(3) by (subst bucket_free.simps) simp
  ultimately show ?case by (simp add: s)
qed

lemma bucket_find_run:
  assumes "m < 32"
    and "\<And>e. e < d \<Longrightarrow> 0 \<le> b ! ((unat i + e) mod 2 ^ m) \<and> \<not> test (nat (b ! ((unat i + e) mod 2 ^ m)))"
    and "unat i < 2 ^ m"
  shows "\<exists>j. bucket_find b (2 ^ m - 1) test i = bucket_find b (2 ^ m - 1) test j \<and> unat j = (unat i + d) mod 2 ^ m"
  using assms(2-)
proof (induction d arbitrary: i)
  case 0
  then show ?case by auto
next
  case (Suc d)
  let ?i = "(i + 1) AND (2 ^ m - 1)"
  have s: "(unat ?i + e) mod 2 ^ m = (unat i + Suc e) mod 2 ^ m" for e
    unfolding unat_step [OF assms(1)] by (rule slot_shift)
  have "\<exists>j. bucket_find b (2 ^ m - 1) test ?i = bucket_find b (2 ^ m - 1) test j \<and> unat j = (unat ?i + d) mod 2 ^ m"
  proof (rule Suc.IH)
    show "0 \<le> b ! ((unat ?i + e) mod 2 ^ m) \<and> \<not> test (nat (b ! ((unat ?i + e) mod 2 ^ m)))" if "e < d" for e
      unfolding s by (rule Suc.prems) (use that in simp)
  qed (simp add: unat_step assms(1))
  moreover have "bucket_find b (2 ^ m - 1) test i = bucket_find b (2 ^ m - 1) test ?i"
    using Suc.prems(1) [of 0] Suc.prems(2) by (subst bucket_find.simps) simp
  ultimately show ?case by (simp add: s)
qed

subsection \<open>Tables filled in order\<close>

text \<open>
  \<open>probe_inv H n b\<close>: the entries \<open>0..<n\<close> are in the array, each behind a run of cells taken by earlier entries
  that starts at its home cell \<open>H i\<close>.
\<close>

definition probe_inv :: "(nat \<Rightarrow> nat) \<Rightarrow> nat \<Rightarrow> int list \<Rightarrow> bool" where
  "probe_inv H n b \<longleftrightarrow>
     count_if (\<lambda>x. 0 \<le> x) b = int n \<and> (\<forall>x \<in> set b. x < int n) \<and>
     (\<forall>i < n. \<exists>d < length b. b ! ((H i + d) mod length b) = int i \<and>
        (\<forall>e < d. 0 \<le> b ! ((H i + e) mod length b) \<and> b ! ((H i + e) mod length b) < int i))"

lemma probe_inv_empty: "probe_inv H 0 (replicate N (- 1))"
  by (auto simp: probe_inv_def intro: count_if_zeroI)

lemma free_slot:
  assumes "probe_inv H n b" and "n < length b"
  obtains d where "d < length b" "b ! ((h + d) mod length b) < 0" "\<And>e. e < d \<Longrightarrow> 0 \<le> b ! ((h + e) mod length b)"
proof -
  let ?N = "length b" and ?P = "\<lambda>d. b ! ((h + d) mod length b) < 0"
  have "count_if (\<lambda>x. 0 \<le> x) b < count_if (\<lambda>x. True) b" using assms by (simp add: probe_inv_def) (simp add: count_if_def)
  from count_if_less_ex [OF this] obtain p where p: "p < ?N" "b ! p < 0" by (auto simp: in_set_conv_nth)
  have N: "0 < ?N" using assms by linarith
  have "(h + (p + ?N - h mod ?N) mod ?N) mod ?N = p"
  proof -
    have "(h + (p + ?N - h mod ?N) mod ?N) mod ?N = (h mod ?N + (p + ?N - h mod ?N)) mod ?N"
      by (simp add: mod_add_right_eq mod_add_left_eq)
    also have "h mod ?N + (p + ?N - h mod ?N) = p + ?N" using N mod_less_divisor [of ?N h] by linarith
    finally show ?thesis using p by simp
  qed
  with p have "?P ((p + ?N - h mod ?N) mod ?N)" by simp
  then have L: "?P (LEAST d. ?P d)" "(LEAST d. ?P d) \<le> (p + ?N - h mod ?N) mod ?N" by (rule LeastI, rule Least_le)
  show thesis
  proof
    show "(LEAST d. ?P d) < ?N" using L(2) mod_less_divisor [OF N] by (rule le_less_trans)
    show "?P (LEAST d. ?P d)" by (rule L)
    show "0 \<le> b ! ((h + e) mod ?N)" if "e < (LEAST d. ?P d)" for e using not_less_Least [OF that] by simp
  qed
qed

lemma probe_inv_put:
  assumes inv: "probe_inv H n b" and d: "d < length b" "b ! ((H n + d) mod length b) < 0"
    and run: "\<And>e. e < d \<Longrightarrow> 0 \<le> b ! ((H n + e) mod length b)"
  shows "probe_inv H (Suc n) (b[(H n + d) mod length b := int n])"
proof -
  let ?N = "length b" let ?p = "(H n + d) mod ?N" let ?b = "b[?p := int n]"
  have p: "?p < ?N" using d by (intro mod_less_divisor) linarith
  have keep: "?b ! q = b ! q" if "0 \<le> b ! q" for q using that d(2) by (cases "q = ?p") auto
  have small: "b ! q < int n" if "q < ?N" for q using inv that by (auto simp: probe_inv_def)
  have "count_if (\<lambda>x. 0 \<le> x) ?b = int (Suc n)" using inv p d(2) by (simp add: probe_inv_def count_if_update)
  moreover have "\<forall>x \<in> set ?b. x < int (Suc n)"
    using inv set_update_subset_insert [of b ?p "int n"] by (fastforce simp: probe_inv_def)
  moreover have "\<exists>d < ?N. ?b ! ((H i + d) mod ?N) = int i \<and>
      (\<forall>e < d. 0 \<le> ?b ! ((H i + e) mod ?N) \<and> ?b ! ((H i + e) mod ?N) < int i)" if i: "i < Suc n" for i
  proof (cases "i = n")
    case True
    have "0 \<le> ?b ! ((H n + e) mod ?N) \<and> ?b ! ((H n + e) mod ?N) < int n" if "e < d" for e
      using run [OF that] keep [OF run [OF that]] small [of "(H n + e) mod ?N"] mod_less_divisor [of ?N "H n + e"] d(1) by linarith
    then show ?thesis using True d p by (intro exI [of _ d]) simp
  next
    case False
    with i have "i < n" by simp
    with inv obtain d' where d': "d' < ?N" "b ! ((H i + d') mod ?N) = int i"
      "\<And>e. e < d' \<Longrightarrow> 0 \<le> b ! ((H i + e) mod ?N) \<and> b ! ((H i + e) mod ?N) < int i"
      unfolding probe_inv_def by blast
    then show ?thesis using keep by (intro exI [of _ d']) auto
  qed
  ultimately show ?thesis by (simp add: probe_inv_def)
qed


subsection \<open>The interface of a table\<close>

text \<open>
  \<open>'t\<close> is the structure the table is part of. \<open>put t i\<close> enters the entry \<open>i\<close>, whose key is \<open>key t i\<close>;
  \<open>look t k\<close> is the index of an entry with the key \<open>k\<close>. The laws say that both walk the buckets from the home cell
  of the key and that \<open>put\<close> changes the buckets only.
\<close>

locale probe_table =
  fixes bucket :: "'t \<Rightarrow> int list"
    and bmask :: "'t \<Rightarrow> u32"
    and with_bucket :: "int list \<Rightarrow> 't \<Rightarrow> 't"
    and key :: "'t \<Rightarrow> nat \<Rightarrow> 'k"
    and hash :: "'k \<Rightarrow> u64"
    and put :: "nat \<Rightarrow> 't \<Rightarrow> 't option"
    and look :: "'t \<Rightarrow> 'k \<Rightarrow> nat option option"
  assumes put_walks: "put i t = map_option (\<lambda>j. with_bucket ((bucket t)[unat j := int i]) t)
      (bucket_free (bucket t) (bmask t) (ucast (hash (key t i)) AND bmask t))"
    and look_walks: "look t k = bucket_find (bucket t) (bmask t) (\<lambda>i. key t i = k) (ucast (hash k) AND bmask t)"
    and with_bucket [simp]: "bucket (with_bucket b t) = b" "bmask (with_bucket b t) = bmask t" "key (with_bucket b t) = key t"
      "with_bucket c (with_bucket b t) = with_bucket c t" "with_bucket (bucket t) t = t"
begin

definition home :: "nat \<Rightarrow> 'k \<Rightarrow> nat" where
  "home m k = unat (ucast (hash k) :: u32) mod 2 ^ m"

lemma put_one:
  assumes m: "m < 32" "bmask t = 2 ^ m - 1" "length (bucket t) = 2 ^ m"
    and inv: "probe_inv (\<lambda>i. home m (key t i)) n (bucket t)" and n: "n < 2 ^ m"
  shows "\<exists>b. put n t = Some (with_bucket b t) \<and> length b = 2 ^ m \<and> probe_inv (\<lambda>i. home m (key t i)) (Suc n) b"
proof -
  let ?i = "ucast (hash (key t n)) AND (2 ^ m - 1) :: u32"
  have i: "unat ?i = home m (key t n)" unfolding home_def by (rule unat_start)
  then have lt: "unat ?i < 2 ^ m" by (simp add: home_def)
  obtain d where d: "d < 2 ^ m" "bucket t ! ((home m (key t n) + d) mod 2 ^ m) < 0"
    "\<And>e. e < d \<Longrightarrow> 0 \<le> bucket t ! ((home m (key t n) + e) mod 2 ^ m)"
    using free_slot [OF inv, of "home m (key t n)"] n m(3) by auto
  obtain j where "bucket_free (bucket t) (2 ^ m - 1) ?i = Some j" "unat j = (home m (key t n) + d) mod 2 ^ m"
    using bucket_free_run [OF m(1), of d "bucket t" ?i] d i lt by auto
  then show ?thesis using probe_inv_put [OF inv, of d] d m
    by (intro exI [of _ "(bucket t)[unat j := int n]"]) (simp add: put_walks)
qed

lemma put_all:
  assumes m: "m < 32" "bmask t = 2 ^ m - 1" "bucket t = replicate (2 ^ m) (- 1)" and n: "n \<le> 2 ^ m"
  shows "\<exists>b. fold_opt put [0..<n] t = Some (with_bucket b t) \<and> length b = 2 ^ m \<and> probe_inv (\<lambda>i. home m (key t i)) n b"
  using n
proof (induction n)
  case 0
  then show ?case using m with_bucket(5) [of t] by (auto simp: probe_inv_empty intro: exI [of _ "bucket t"])
next
  case (Suc n)
  then obtain b where b: "fold_opt put [0..<n] t = Some (with_bucket b t)" "length b = 2 ^ m"
    "probe_inv (\<lambda>i. home m (key t i)) n b" by auto
  with put_one [of m "with_bucket b t" n] m Suc.prems show ?case by (auto simp: fold_opt_append)
qed

lemma look_run:
  assumes m: "m < 32" "bmask t = 2 ^ m - 1" "length (bucket t) = 2 ^ m"
    and run: "\<And>e. e < d \<Longrightarrow> 0 \<le> bucket t ! ((home m k + e) mod 2 ^ m) \<and>
      key t (nat (bucket t ! ((home m k + e) mod 2 ^ m))) \<noteq> k"
    and stop: "v = bucket t ! ((home m k + d) mod 2 ^ m)" "v < 0 \<or> key t (nat v) = k"
  shows "look t k = Some (if v < 0 then None else Some (nat v))"
proof -
  let ?i = "ucast (hash k) AND (2 ^ m - 1) :: u32"
  have i: "unat ?i = home m k" unfolding home_def by (rule unat_start)
  then have lt: "unat ?i < 2 ^ m" by (simp add: home_def)
  obtain j where j: "look t k = bucket_find (bucket t) (2 ^ m - 1) (\<lambda>i. key t i = k) j" "unat j = (home m k + d) mod 2 ^ m"
    using bucket_find_run [OF m(1), of d "bucket t" ?i "\<lambda>i. key t i = k"] run i lt by (auto simp: look_walks m(2))
  then show ?thesis using stop by (subst j(1), subst bucket_find.simps) auto
qed

text \<open>A table filled in order finds the first entry with the key, and the search ends.\<close>

lemma look_filled:
  assumes m: "m < 32" "bmask t = 2 ^ m - 1" "length (bucket t) = 2 ^ m"
    and inv: "probe_inv (\<lambda>i. home m (key t i)) n (bucket t)" and n: "n < 2 ^ m"
  shows "look t k = Some (find (\<lambda>i. key t i = k) [0..<n])"
proof (cases "find (\<lambda>i. key t i = k) [0..<n]")
  case None
  then have no: "key t i \<noteq> k" if "i < n" for i using that by (auto simp: find_None_iff)
  obtain d where d: "d < 2 ^ m" "bucket t ! ((home m k + d) mod 2 ^ m) < 0"
    "\<And>e. e < d \<Longrightarrow> 0 \<le> bucket t ! ((home m k + e) mod 2 ^ m)"
    using free_slot [OF inv, of "home m k"] n m(3) by auto
  have "nat (bucket t ! ((home m k + e) mod 2 ^ m)) < n" if "e < d" for e
    using inv d(3) [OF that] m(3) by (auto simp: probe_inv_def nat_less_iff)
  then show ?thesis using look_run [OF m, of d k] d no None by auto
next
  case (Some i)
  then have i: "i < n" "key t i = k" and least: "\<And>j. j < i \<Longrightarrow> key t j \<noteq> k"
    by (auto simp: find_Some_iff)
  from inv i obtain d where d: "bucket t ! ((home m k + d) mod 2 ^ m) = int i"
    "\<And>e. e < d \<Longrightarrow> 0 \<le> bucket t ! ((home m k + e) mod 2 ^ m) \<and> bucket t ! ((home m k + e) mod 2 ^ m) < int i"
    unfolding probe_inv_def m(3) by metis
  have "key t (nat (bucket t ! ((home m k + e) mod 2 ^ m))) \<noteq> k" if "e < d" for e
    using d(2) [OF that] by (intro least) (simp add: nat_less_iff)
  then show ?thesis using look_run [OF m, of d k] d i Some by auto
qed

lemma filled_table:
  assumes m: "m < 32" "bmask t = 2 ^ m - 1" "bucket t = replicate (2 ^ m) (- 1)" and n: "n < 2 ^ m"
  obtains b where "fold_opt put [0..<n] t = Some (with_bucket b t)" "length b = 2 ^ m"
    "\<And>k. look (with_bucket b t) k = Some (find (\<lambda>i. key t i = k) [0..<n])"
proof -
  obtain b where b: "fold_opt put [0..<n] t = Some (with_bucket b t)" "length b = 2 ^ m"
    "probe_inv (\<lambda>i. home m (key t i)) n b" using put_all [OF m, of n] n by auto
  show thesis
  proof (rule that [OF b(1,2)])
    show "look (with_bucket b t) k = Some (find (\<lambda>i. key t i = k) [0..<n])" for k
      using look_filled [of m "with_bucket b t" n k] b m n by simp
  qed
qed

end

end
