(* ===== verification/Utf8.thy ===== *)
theory Utf8
  imports Prelude
begin

unbundle bit_operations_syntax

text \<open>
  The text layer under the tokenizer (\<^verbatim>\<open>src/text_tokenizer/bpe.c\<close>, first part): UTF-8, the byte alphabet of
  GPT-2 and the classes of code points the pre-tokenizer asks for. A string is the list of its bytes and code points
  are 32-bit words.
\<close>

subsection \<open>UTF-8\<close>

definition utf8_put :: "u32 \<Rightarrow> bytes" where
  "utf8_put cp =
     (if cp < 0x80 then [ucast cp]
      else if cp < 0x800 then [ucast (0xC0 OR drop_bit 6 cp), ucast (0x80 OR (cp AND 0x3F))]
      else if cp < 0x10000 then
        [ucast (0xE0 OR drop_bit 12 cp), ucast (0x80 OR (drop_bit 6 cp AND 0x3F)), ucast (0x80 OR (cp AND 0x3F))]
      else
        [ucast (0xF0 OR drop_bit 18 cp), ucast (0x80 OR (drop_bit 12 cp AND 0x3F)),
         ucast (0x80 OR (drop_bit 6 cp AND 0x3F)), ucast (0x80 OR (cp AND 0x3F))])"

text \<open>The number of bytes consumed and the code point, of a string that is not empty.\<close>

definition utf8_get :: "bytes \<Rightarrow> nat \<times> u32" where
  "utf8_get s =
     (let c = s ! 0; len = length s; tail = (\<lambda>i. ucast (s ! i) AND 0x3F :: u32) in
      if c < 0x80 then (1, ucast c)
      else if c AND 0xE0 = 0xC0 \<and> 2 \<le> len then
        (2, push_bit 6 (ucast c AND 0x1F) OR tail 1)
      else if c AND 0xF0 = 0xE0 \<and> 3 \<le> len then
        (3, push_bit 12 (ucast c AND 0x0F) OR push_bit 6 (tail 1) OR tail 2)
      else if c AND 0xF8 = 0xF0 \<and> 4 \<le> len then
        (4, push_bit 18 (ucast c AND 0x07) OR push_bit 12 (tail 1) OR push_bit 6 (tail 2) OR tail 3)
      else (1, ucast c))"

lemma utf8_get_adv: "s \<noteq> [] \<Longrightarrow> 1 \<le> fst (utf8_get s) \<and> fst (utf8_get s) \<le> length s"
  by (cases s) (auto simp: utf8_get_def Let_def)

lemma length_utf8_put: "length (utf8_put cp) = (if cp < 0x80 then 1 else if cp < 0x800 then 2 else if cp < 0x10000 then 3 else 4)"
  by (simp add: utf8_put_def)

lemma less_imp_bit_False: "unat x < 2 ^ n \<Longrightarrow> n \<le> m \<Longrightarrow> \<not> bit (x :: 'a::len word) m"
proof -
  assume "unat x < 2 ^ n" and le: "n \<le> m"
  then have "take_bit n x = x" by (simp add: word_unat_eq_iff unsigned_take_bit_eq take_bit_nat_eq_self)
  then show ?thesis using le by (metis bit_take_bit_iff linorder_not_less)
qed

lemma u8_eqI: "(\<And>n. n \<in> {0, 1, 2, 3, 4, 5, 6, 7} \<Longrightarrow> bit x n = bit y n) \<Longrightarrow> x = (y :: u8)"
proof (rule bit_word_eqI)
  fix n assume *: "\<And>n. n \<in> {0, 1, 2, 3, 4, 5, 6, 7} \<Longrightarrow> bit x n = bit y n" and n: "n < LENGTH(8)"
  from n have "n \<in> {0, 1, 2, 3, 4, 5, 6, 7}" by auto
  then show "bit x n = bit y n" by (rule *)
qed

lemma u32_eqI:
  "(\<And>n. n \<in> {0, 1, 2, 3, 4, 5, 6, 7, 8, 9, 10, 11, 12, 13, 14, 15, 16, 17, 18, 19, 20, 21, 22, 23, 24, 25, 26, 27, 28, 29, 30, 31}
    \<Longrightarrow> bit x n = bit y n) \<Longrightarrow> x = (y :: u32)"
proof (rule bit_word_eqI)
  let ?S = "{0, 1, 2, 3, 4, 5, 6, 7, 8, 9, 10, 11, 12, 13, 14, 15, 16, 17, 18, 19, 20, 21, 22, 23, 24, 25, 26, 27, 28, 29, 30, 31 :: nat}"
  fix n assume *: "\<And>n. n \<in> ?S \<Longrightarrow> bit x n = bit y n" and n: "n < LENGTH(32)"
  from n have "n \<in> ?S" by (simp add: numeral_eq_Suc less_Suc_eq)
  then show "bit x n = bit y n" by (rule *)
qed

lemma u8_high_bit: "bit b 7 \<Longrightarrow> \<not> b < (0x80 :: u8)"
  using less_imp_bit_False [of b 7 7] by (auto simp: word_less_nat_alt)

text \<open>The bits of a code point below a bound, and the bytes \<^verbatim>\<open>utf8_put\<close> makes of them.\<close>

lemma cp_high_bits:
  fixes cp :: u32
  shows
  "cp < 0x80 \<Longrightarrow> 7 \<le> m \<Longrightarrow> \<not> bit cp m" "cp < 0x800 \<Longrightarrow> 11 \<le> m \<Longrightarrow> \<not> bit cp m"
  "cp < 0x10000 \<Longrightarrow> 16 \<le> m \<Longrightarrow> \<not> bit cp m" "cp < 0x200000 \<Longrightarrow> 21 \<le> m \<Longrightarrow> \<not> bit cp m"
  using less_imp_bit_False [of cp 7 m] less_imp_bit_False [of cp 11 m] less_imp_bit_False [of cp 16 m] less_imp_bit_False [of cp 21 m]
  by (auto simp: word_less_nat_alt)

lemma utf8_get_put1: "(cp :: u32) < 0x80 \<Longrightarrow> ucast (ucast cp :: u8) = cp \<and> ucast cp < (0x80 :: u8)"
proof
  assume a: "cp < 0x80"
  show "ucast (ucast cp :: u8) = cp" by (rule u32_eqI) (use cp_high_bits(1) [OF a] in \<open>auto simp: bit_simps\<close>)
  have "unat cp < 128" using a by (simp add: word_less_nat_alt)
  then show "ucast cp < (0x80 :: u8)" by (simp add: word_less_nat_alt unsigned_ucast_eq take_bit_nat_eq_self)
qed

lemma utf8_get_put2:
  fixes cp :: u32
  assumes a: "cp < 0x800"
  shows "ucast (0xC0 OR drop_bit 6 cp) AND 0xE0 = (0xC0 :: u8)" "\<not> ucast (0xC0 OR drop_bit 6 cp) < (0x80 :: u8)"
    "push_bit 6 (ucast (ucast (0xC0 OR drop_bit 6 cp) :: u8) AND 0x1F) OR (ucast (ucast (0x80 OR (cp AND 0x3F)) :: u8) AND 0x3F) = cp"
proof -
  note hi = cp_high_bits(2) [OF a]
  show "ucast (0xC0 OR drop_bit 6 cp) AND 0xE0 = (0xC0 :: u8)" by (rule u8_eqI) (use hi in \<open>auto simp: bit_simps\<close>)
  show "\<not> ucast (0xC0 OR drop_bit 6 cp) < (0x80 :: u8)" by (rule u8_high_bit) (simp add: bit_simps)
  show "push_bit 6 (ucast (ucast (0xC0 OR drop_bit 6 cp) :: u8) AND 0x1F) OR (ucast (ucast (0x80 OR (cp AND 0x3F)) :: u8) AND 0x3F) = cp"
    by (rule u32_eqI, elim insertE emptyE) (simp_all add: hi bit_simps)
qed

lemma utf8_get_put3:
  fixes cp :: u32
  assumes a: "cp < 0x10000"
  shows "ucast (0xE0 OR drop_bit 12 cp) AND 0xF0 = (0xE0 :: u8)" "\<not> ucast (0xE0 OR drop_bit 12 cp) < (0x80 :: u8)"
    "ucast (0xE0 OR drop_bit 12 cp) AND 0xE0 \<noteq> (0xC0 :: u8)"
    "push_bit 12 (ucast (ucast (0xE0 OR drop_bit 12 cp) :: u8) AND 0x0F)
      OR push_bit 6 (ucast (ucast (0x80 OR (drop_bit 6 cp AND 0x3F)) :: u8) AND 0x3F)
      OR (ucast (ucast (0x80 OR (cp AND 0x3F)) :: u8) AND 0x3F) = cp"
proof -
  note hi = cp_high_bits(3) [OF a]
  let ?b = "ucast (0xE0 OR drop_bit 12 cp) :: u8"
  show "?b AND 0xF0 = 0xE0" by (rule u8_eqI) (use hi in \<open>auto simp: bit_simps\<close>)
  show "\<not> ?b < 0x80" by (rule u8_high_bit) (simp add: bit_simps)
  have "bit (?b AND 0xE0) 5" by (simp add: bit_simps)
  moreover have "\<not> bit (0xC0 :: u8) 5" by simp
  ultimately show "?b AND 0xE0 \<noteq> 0xC0" by metis
  show "push_bit 12 (ucast ?b AND 0x0F) OR push_bit 6 (ucast (ucast (0x80 OR (drop_bit 6 cp AND 0x3F)) :: u8) AND 0x3F)
      OR (ucast (ucast (0x80 OR (cp AND 0x3F)) :: u8) AND 0x3F) = cp"
    by (rule u32_eqI, elim insertE emptyE) (simp_all add: hi bit_simps)
qed

lemma utf8_get_put4:
  fixes cp :: u32
  assumes a: "cp < 0x200000"
  shows "ucast (0xF0 OR drop_bit 18 cp) AND 0xF8 = (0xF0 :: u8)" "\<not> ucast (0xF0 OR drop_bit 18 cp) < (0x80 :: u8)"
    "ucast (0xF0 OR drop_bit 18 cp) AND 0xE0 \<noteq> (0xC0 :: u8)" "ucast (0xF0 OR drop_bit 18 cp) AND 0xF0 \<noteq> (0xE0 :: u8)"
    "push_bit 18 (ucast (ucast (0xF0 OR drop_bit 18 cp) :: u8) AND 0x07)
      OR push_bit 12 (ucast (ucast (0x80 OR (drop_bit 12 cp AND 0x3F)) :: u8) AND 0x3F)
      OR push_bit 6 (ucast (ucast (0x80 OR (drop_bit 6 cp AND 0x3F)) :: u8) AND 0x3F)
      OR (ucast (ucast (0x80 OR (cp AND 0x3F)) :: u8) AND 0x3F) = cp"
proof -
  note hi = cp_high_bits(4) [OF a]
  let ?b = "ucast (0xF0 OR drop_bit 18 cp) :: u8"
  show "?b AND 0xF8 = 0xF0" by (rule u8_eqI) (use hi in \<open>auto simp: bit_simps\<close>)
  show "\<not> ?b < 0x80" by (rule u8_high_bit) (simp add: bit_simps)
  have "bit (?b AND 0xE0) 5" "bit (?b AND 0xF0) 4" by (simp_all add: bit_simps)
  moreover have "\<not> bit (0xC0 :: u8) 5" "\<not> bit (0xE0 :: u8) 4" by simp_all
  ultimately show "?b AND 0xE0 \<noteq> 0xC0" "?b AND 0xF0 \<noteq> 0xE0" by metis+
  show "push_bit 18 (ucast ?b AND 0x07) OR push_bit 12 (ucast (ucast (0x80 OR (drop_bit 12 cp AND 0x3F)) :: u8) AND 0x3F)
      OR push_bit 6 (ucast (ucast (0x80 OR (drop_bit 6 cp AND 0x3F)) :: u8) AND 0x3F)
      OR (ucast (ucast (0x80 OR (cp AND 0x3F)) :: u8) AND 0x3F) = cp"
    by (rule u32_eqI, elim insertE emptyE) (simp_all add: hi bit_simps)
qed

lemma utf8_get_put: "cp < 0x200000 \<Longrightarrow> utf8_get (utf8_put cp @ r) = (length (utf8_put cp), cp)"
proof -
  assume a: "cp < 0x200000"
  consider "cp < 0x80" | "\<not> cp < 0x80" "cp < 0x800" | "\<not> cp < 0x80" "\<not> cp < 0x800" "cp < 0x10000"
    | "\<not> cp < 0x80" "\<not> cp < 0x800" "\<not> cp < 0x10000" by blast
  then show ?thesis
  proof cases
    case 1
    then show ?thesis using utf8_get_put1 [OF 1] by (simp add: utf8_get_def utf8_put_def Let_def)
  next
    case 2
    then show ?thesis using utf8_get_put2 [OF 2(2), simplified] by (simp add: utf8_get_def utf8_put_def Let_def)
  next
    case 3
    then show ?thesis using utf8_get_put3 [OF 3(3), simplified] by (simp add: utf8_get_def utf8_put_def Let_def)
  next
    case 4
    then show ?thesis using utf8_get_put4 [OF a, simplified] by (simp add: utf8_get_def utf8_put_def Let_def)
  qed
qed

subsection \<open>The byte alphabet\<close>

text \<open>
  \<^verbatim>\<open>bytelevel_build\<close>: the two tables after the loop over the bytes; \<open>n\<close> counts the bytes that got a code point
  above 255.
\<close>

definition printable :: "nat \<Rightarrow> bool" where
  "printable b \<longleftrightarrow> (33 \<le> b \<and> b \<le> 126) \<or> (0xA1 \<le> b \<and> b \<le> 0xAC) \<or> (0xAE \<le> b \<and> b \<le> 0xFF)"

definition bytelevel_step :: "nat \<Rightarrow> nat \<times> u32 list \<times> int list \<Rightarrow> nat \<times> u32 list \<times> int list" where
  "bytelevel_step b t =
     (let (n, to_cp, to_byte) = t;
          (cp, n) = (if printable b then (of_nat b, n) else (of_nat (256 + n), n + 1))
      in (n, to_cp[b := cp], if cp < 324 then to_byte[unat cp := int b] else to_byte))"

definition bytelevel_build :: "nat \<times> u32 list \<times> int list" where
  "bytelevel_build = fold bytelevel_step [0..<256] (0, replicate 256 0, replicate 324 (- 1))"

definition byte_to_cp :: "u32 list" where "byte_to_cp = fst (snd bytelevel_build)"
definition cp_to_byte :: "int list" where "cp_to_byte = snd (snd bytelevel_build)"

text \<open>What the loop computes, byte by byte.\<close>

definition hidden_below :: "nat \<Rightarrow> nat" where
  "hidden_below b = length (filter (\<lambda>c. \<not> printable c) [0..<b])"

definition alphabet_cp :: "nat \<Rightarrow> nat" where
  "alphabet_cp b = (if printable b then b else 256 + hidden_below b)"

lemma hidden_below_mono: "a \<le> b \<Longrightarrow> hidden_below a \<le> hidden_below b"
proof -
  assume "a \<le> b"
  then have "[0..<b] = [0..<a] @ [a..<b]" by (metis le0 le_add_diff_inverse upt_add_eq_append)
  then show ?thesis by (simp add: hidden_below_def)
qed

lemma hidden_below_Suc: "hidden_below (Suc b) = (if printable b then hidden_below b else Suc (hidden_below b))"
  by (simp add: hidden_below_def)

lemma hidden_below_256: "hidden_below 256 = 68"
  unfolding hidden_below_def printable_def by code_simp

lemma printable_less: "printable b \<Longrightarrow> b < 256"
  by (auto simp: printable_def)

lemma alphabet_cp_less: "b < 256 \<Longrightarrow> alphabet_cp b < 324"
  using hidden_below_mono [of "Suc b" 256] hidden_below_256 by (auto simp: alphabet_cp_def hidden_below_Suc)

lemma alphabet_cp_inj: "a < 256 \<Longrightarrow> b < 256 \<Longrightarrow> alphabet_cp a = alphabet_cp b \<Longrightarrow> a = b"
proof (rule ccontr)
  assume "a < 256" "b < 256" and eq: "alphabet_cp a = alphabet_cp b" and "a \<noteq> b"
  have lt: "hidden_below c < hidden_below d" if "c < d" "\<not> printable c" for c d
    using hidden_below_mono [of "Suc c" d] that by (simp add: hidden_below_Suc)
  from \<open>a \<noteq> b\<close> consider "a < b" | "b < a" by linarith
  then show False
    using eq lt [of a b] lt [of b a] \<open>a < 256\<close> \<open>b < 256\<close> by cases (auto simp: alphabet_cp_def split: if_splits)
qed

lemma bytelevel_inv:
  "k \<le> 256 \<Longrightarrow>
   (case fold bytelevel_step [0..<k] (0, replicate 256 0, replicate 324 (- 1)) of
      (n, to_cp, to_byte) \<Rightarrow> n = hidden_below k \<and> length to_cp = 256 \<and> length to_byte = 324 \<and>
        (\<forall>b < k. to_cp ! b = of_nat (alphabet_cp b) \<and> to_byte ! alphabet_cp b = int b) \<and>
        (\<forall>cp < 324. to_byte ! cp \<noteq> - 1 \<longrightarrow> (\<exists>b < k. alphabet_cp b = cp \<and> to_byte ! cp = int b)))"
proof (induction k)
  case 0
  then show ?case by (simp add: hidden_below_def)
next
  case (Suc k)
  obtain n tc tb where st: "fold bytelevel_step [0..<k] (0, replicate 256 0, replicate 324 (- 1)) = (n, tc, tb)"
    by (metis prod_cases3)
  with Suc have n: "n = hidden_below k" and len: "length tc = 256" "length tb = 324"
    and old: "\<forall>b < k. tc ! b = of_nat (alphabet_cp b) \<and> tb ! alphabet_cp b = int b"
    and only: "\<forall>cp < 324. tb ! cp \<noteq> - 1 \<longrightarrow> (\<exists>b < k. alphabet_cp b = cp \<and> tb ! cp = int b)" by auto
  have k: "k < 256" using Suc.prems by simp
  have a: "alphabet_cp k < 324" by (rule alphabet_cp_less [OF k])
  then have u: "unat (of_nat (alphabet_cp k) :: u32) = alphabet_cp k" by (simp add: unat_of_nat)
  with a have lt: "(of_nat (alphabet_cp k) :: u32) < 324" by (simp add: word_less_nat_alt)
  have step: "bytelevel_step k (n, tc, tb) =
      (hidden_below (Suc k), tc[k := of_nat (alphabet_cp k)], tb[alphabet_cp k := int k])"
    using lt u by (auto simp: bytelevel_step_def Let_def n hidden_below_Suc alphabet_cp_def split: if_splits)
  have new: "alphabet_cp b \<noteq> alphabet_cp k" if "b < k" for b using alphabet_cp_inj [of b k] that k by auto
  have "\<forall>b < Suc k. tc[k := of_nat (alphabet_cp k)] ! b = of_nat (alphabet_cp b) \<and> tb[alphabet_cp k := int k] ! alphabet_cp b = int b"
    using old len a k by (auto simp: less_Suc_eq nth_list_update dest: new [symmetric])
  moreover have "\<forall>cp < 324. tb[alphabet_cp k := int k] ! cp \<noteq> - 1 \<longrightarrow>
      (\<exists>b < Suc k. alphabet_cp b = cp \<and> tb[alphabet_cp k := int k] ! cp = int b)"
    using only len a by (auto simp: nth_list_update less_Suc_eq)
  ultimately show ?case using st step len by simp
qed

lemma byte_to_cp_length [simp]: "length byte_to_cp = 256" "length cp_to_byte = 324"
  using bytelevel_inv [of 256] by (auto simp: byte_to_cp_def cp_to_byte_def bytelevel_build_def split: prod.splits)

lemma byte_to_cp_nth: "b < 256 \<Longrightarrow> byte_to_cp ! b = of_nat (alphabet_cp b)"
  using bytelevel_inv [of 256] by (auto simp: byte_to_cp_def bytelevel_build_def split: prod.splits)

lemma cp_to_byte_nth: "b < 256 \<Longrightarrow> cp_to_byte ! alphabet_cp b = int b"
  using bytelevel_inv [of 256] by (auto simp: cp_to_byte_def bytelevel_build_def split: prod.splits)

lemma cp_to_byte_only: "cp < 324 \<Longrightarrow> cp_to_byte ! cp \<noteq> - 1 \<Longrightarrow> \<exists>b < 256. alphabet_cp b = cp \<and> cp_to_byte ! cp = int b"
  using bytelevel_inv [of 256] by (auto simp: cp_to_byte_def bytelevel_build_def split: prod.splits)

subsection \<open>Classes of code points\<close>

definition cp_is_space :: "u32 \<Rightarrow> bool" where
  "cp_is_space c \<longleftrightarrow> c = 32 \<or> c = 9 \<or> c = 10 \<or> c = 13 \<or> c = 0x0B \<or> c = 0x0C \<or> c = 0x85 \<or> c = 0xA0 \<or>
     c = 0x1680 \<or> (0x2000 \<le> c \<and> c \<le> 0x200A) \<or> c = 0x2028 \<or> c = 0x2029 \<or> c = 0x202F \<or> c = 0x205F \<or> c = 0x3000"

definition cp_is_digit :: "u32 \<Rightarrow> bool" where
  "cp_is_digit c \<longleftrightarrow> (48 \<le> c \<and> c \<le> 57) \<or> (0x0660 \<le> c \<and> c \<le> 0x0669) \<or> (0x06F0 \<le> c \<and> c \<le> 0x06F9) \<or>
     (0x0966 \<le> c \<and> c \<le> 0x096F) \<or> (0x09E6 \<le> c \<and> c \<le> 0x09EF) \<or> (0x0E50 \<le> c \<and> c \<le> 0x0E59) \<or>
     (0xFF10 \<le> c \<and> c \<le> 0xFF19) \<or> c = 0xB2 \<or> c = 0xB3 \<or> c = 0xB9 \<or> (0xBC \<le> c \<and> c \<le> 0xBE)"

definition cp_is_sym :: "u32 \<Rightarrow> bool" where
  "cp_is_sym c =
     (if c < 0x80 then \<not> ((97 \<le> c \<and> c \<le> 122) \<or> (65 \<le> c \<and> c \<le> 90))
      else if 0xA0 \<le> c \<and> c \<le> 0xBF then True
      else if c = 0xD7 \<or> c = 0xF7 then True
      else if 0x2000 \<le> c \<and> c \<le> 0x2BFF then True
      else if 0x3000 \<le> c \<and> c \<le> 0x303F then True
      else if 0xFE00 \<le> c \<and> c \<le> 0xFE6F then True
      else if 0xFF00 \<le> c \<and> c \<le> 0xFF0F then True
      else if 0xFF1A \<le> c \<and> c \<le> 0xFF20 then True
      else if 0xFF3B \<le> c \<and> c \<le> 0xFF40 then True
      else if 0xFF5B \<le> c \<and> c \<le> 0xFF65 then True
      else if 0xFFF0 \<le> c then True
      else if 0x1F000 \<le> c \<and> c \<le> 0x1FAFF then True
      else False)"

definition cp_is_letter :: "u32 \<Rightarrow> bool" where
  "cp_is_letter c = (if cp_is_space c \<or> cp_is_digit c then False else \<not> cp_is_sym c)"

subsection \<open>Encoding bytes in the alphabet\<close>

definition enc_byte :: "u8 \<Rightarrow> bytes" where
  "enc_byte b = utf8_put (byte_to_cp ! unat b)"

definition enc_bytes :: "bytes \<Rightarrow> bytes" where
  "enc_bytes bs = concat (map enc_byte bs)"

text \<open>The bytes one character of a token stands for.\<close>

definition dec_cp :: "u32 \<Rightarrow> bytes" where
  "dec_cp cp = (if cp < 324 \<and> 0 \<le> cp_to_byte ! unat cp then [of_int (cp_to_byte ! unat cp)] else utf8_put cp)"

function dec_bytes :: "bytes \<Rightarrow> bytes" where
  "dec_bytes s = (if s = [] then [] else let (a, cp) = utf8_get s in dec_cp cp @ dec_bytes (drop a s))"
  by auto
termination
proof (relation "measure length", goal_cases)
  case 1
  show ?case by simp
next
  case (2 s x a cp)
  then show ?case using utf8_get_adv [of s] by (cases "utf8_get s") auto
qed

declare dec_bytes.simps [simp del]

lemma dec_bytes_Nil [simp]: "dec_bytes [] = []"
  by (subst dec_bytes.simps) simp

lemma enc_byte_get: "utf8_get (enc_byte b @ r) = (length (enc_byte b), of_nat (alphabet_cp (unat b)))"
proof -
  have b: "unat b < 256" using unsigned_less [of b] by simp
  have "alphabet_cp (unat b) < 324" by (rule alphabet_cp_less [OF b])
  then have "(of_nat (alphabet_cp (unat b)) :: u32) < 0x200000" by (simp add: word_less_nat_alt unat_of_nat)
  then show ?thesis by (simp add: enc_byte_def byte_to_cp_nth [OF b] utf8_get_put)
qed

lemma dec_cp_alphabet: "dec_cp (of_nat (alphabet_cp (unat b))) = [b]"
proof -
  have b: "unat b < 256" using unsigned_less [of b] by simp
  have a: "alphabet_cp (unat b) < 324" by (rule alphabet_cp_less [OF b])
  then have "unat (of_nat (alphabet_cp (unat b)) :: u32) = alphabet_cp (unat b)" by (simp add: unat_of_nat)
  with a cp_to_byte_nth [OF b] show ?thesis by (simp add: dec_cp_def word_less_nat_alt)
qed

lemma enc_byte_ne [simp]: "enc_byte b \<noteq> []"
  by (simp add: enc_byte_def utf8_put_def)

lemma dec_enc_byte: "dec_bytes (enc_byte b @ r) = b # dec_bytes r"
  by (subst dec_bytes.simps) (simp add: enc_byte_get dec_cp_alphabet)

lemma dec_enc_bytes: "dec_bytes (enc_bytes bs) = bs"
  by (induction bs) (simp_all add: enc_bytes_def dec_enc_byte)

end
