(* ===== verification/Tokenizer.thy ===== *)
theory Tokenizer
  imports Heap Json HashTable Utf8
begin

unbundle bit_operations_syntax

text \<open>
  The tokenizer's tables and how they are loaded and given back (\<^verbatim>\<open>src/text_tokenizer/bpe.c\<close>,
  \<^verbatim>\<open>vv_tokenizer_load\<close> and \<^verbatim>\<open>vv_tokenizer_free\<close>). Every block the loader allocates is a field of the records
  (a \<open>_ptr\<close> field holds its address), so leaks can be seen. A function that may not return, because a search
  meets no empty bucket or follows a NULL table, has the result \<open>None\<close>. The file system is a function from paths to
  the bytes of the file.
\<close>

record vocab_entry =
  ve_ptr :: "nat option"
  ve_str :: bytes
  ve_id :: int

record merge_entry =
  me_a_ptr :: "nat option"
  me_a :: bytes
  me_b_ptr :: "nat option"
  me_b :: bytes
  me_rank :: int

record tokenizer =
  tk_self :: nat
  tk_ventry_ptr :: "nat option"
  tk_ventry :: "vocab_entry list"
  tk_vbucket_ptr :: "nat option"
  tk_vbucket :: "int list"
  tk_vmask :: u32
  tk_mentry_ptr :: "nat option"
  tk_mentry :: "merge_entry list"
  tk_mbucket_ptr :: "nat option"
  tk_mbucket :: "int list"
  tk_mmask :: u32
  tk_id_to_token_ptr :: "nat option"
  tk_id_to_len_ptr :: "nat option"
  tk_id_to_token :: "bytes option list"
  tk_sentry_ptr :: "nat option"
  tk_sentry :: "vocab_entry list"
  tk_s_is_special_ptr :: "nat option"
  tk_s_is_special :: "bool list"

definition id_capacity :: "tokenizer \<Rightarrow> int" where
  "id_capacity t = int (length (tk_id_to_token t))"

subsection \<open>The two tables\<close>

definition vkey :: "tokenizer \<Rightarrow> nat \<Rightarrow> bytes" where
  "vkey t i = ve_str (tk_ventry t ! i)"

definition vocab_put :: "nat \<Rightarrow> tokenizer \<Rightarrow> tokenizer option" where
  "vocab_put idx t =
     (case bucket_free (tk_vbucket t) (tk_vmask t) (ucast (fnv1a (ve_str (tk_ventry t ! idx))) AND tk_vmask t) of
        None \<Rightarrow> None
      | Some i \<Rightarrow> Some (t\<lparr>tk_vbucket := (tk_vbucket t)[unat i := int idx]\<rparr>))"

definition vocab_find :: "tokenizer \<Rightarrow> bytes \<Rightarrow> nat option option" where
  "vocab_find t s =
     bucket_find (tk_vbucket t) (tk_vmask t)
       (\<lambda>e. length (ve_str (tk_ventry t ! e)) = length s \<and> ve_str (tk_ventry t ! e) = s) (ucast (fnv1a s) AND tk_vmask t)"

definition vocab_get :: "tokenizer \<Rightarrow> bytes \<Rightarrow> int option" where
  "vocab_get t s = map_option (\<lambda>r. case r of None \<Rightarrow> - 1 | Some e \<Rightarrow> ve_id (tk_ventry t ! e)) (vocab_find t s)"

definition pair_hash :: "bytes \<Rightarrow> bytes \<Rightarrow> u64" where
  "pair_hash a b = (fnv1a a * 1000003) XOR fnv1a b"

definition mkey :: "tokenizer \<Rightarrow> nat \<Rightarrow> bytes \<times> bytes" where
  "mkey t i = (me_a (tk_mentry t ! i), me_b (tk_mentry t ! i))"

definition merge_put :: "nat \<Rightarrow> tokenizer \<Rightarrow> tokenizer option" where
  "merge_put idx t =
     (let m = tk_mentry t ! idx in
      case bucket_free (tk_mbucket t) (tk_mmask t) (ucast (pair_hash (me_a m) (me_b m)) AND tk_mmask t) of
        None \<Rightarrow> None
      | Some i \<Rightarrow> Some (t\<lparr>tk_mbucket := (tk_mbucket t)[unat i := int idx]\<rparr>))"

definition merge_find :: "tokenizer \<Rightarrow> bytes \<times> bytes \<Rightarrow> nat option option" where
  "merge_find t ab =
     bucket_find (tk_mbucket t) (tk_mmask t)
       (\<lambda>i. let m = tk_mentry t ! i in
             length (me_a m) = length (fst ab) \<and> length (me_b m) = length (snd ab) \<and> me_a m = fst ab \<and> me_b m = snd ab)
       (ucast (pair_hash (fst ab) (snd ab)) AND tk_mmask t)"

text \<open>A tokenizer without merges has no table: the search follows a NULL pointer.\<close>

definition merge_rank :: "tokenizer \<Rightarrow> bytes \<Rightarrow> bytes \<Rightarrow> int option" where
  "merge_rank t a b =
     (if tk_mbucket_ptr t = None then None
      else map_option (\<lambda>r. case r of None \<Rightarrow> - 1 | Some e \<Rightarrow> me_rank (tk_mentry t ! e)) (merge_find t (a, b)))"

interpretation vocab: probe_table tk_vbucket tk_vmask "\<lambda>b t. t\<lparr>tk_vbucket := b\<rparr>" vkey fnv1a vocab_put vocab_find
proof (unfold_locales, goal_cases)
  case (1 i t)
  show ?case by (simp add: vocab_put_def vkey_def split: option.splits)
next
  case (2 t k)
  have "(\<lambda>e. length (ve_str (tk_ventry t ! e)) = length k \<and> ve_str (tk_ventry t ! e) = k) = (\<lambda>i. vkey t i = k)"
    by (auto simp: vkey_def fun_eq_iff)
  then show ?case by (simp add: vocab_find_def)
qed (simp_all add: vkey_def fun_eq_iff)

interpretation merges: probe_table tk_mbucket tk_mmask "\<lambda>b t. t\<lparr>tk_mbucket := b\<rparr>" mkey "\<lambda>ab. pair_hash (fst ab) (snd ab)"
    merge_put merge_find
proof (unfold_locales, goal_cases)
  case (1 i t)
  show ?case by (simp add: merge_put_def mkey_def Let_def split: option.splits)
next
  case (2 t k)
  have "(\<lambda>i. let m = tk_mentry t ! i in length (me_a m) = length (fst k) \<and> length (me_b m) = length (snd k)
      \<and> me_a m = fst k \<and> me_b m = snd k) = (\<lambda>i. mkey t i = k)"
    by (auto simp: mkey_def fun_eq_iff Let_def prod_eq_iff)
  then show ?case by (simp add: merge_find_def)
qed (simp_all add: mkey_def fun_eq_iff)

subsection \<open>Giving it back\<close>

definition vv_tokenizer_free :: "tokenizer option \<Rightarrow> heap \<Rightarrow> vv_status \<times> heap" where
  "vv_tokenizer_free t h =
     (case t of
        None \<Rightarrow> (VV_ERR_NULL_PTR, h)
      | Some t \<Rightarrow>
          let h = (if tk_ventry_ptr t \<noteq> None
                   then vv_free (tk_ventry_ptr t) (fold (\<lambda>e. vv_free (ve_ptr e)) (tk_ventry t) h) else h);
              h = (if tk_vbucket_ptr t \<noteq> None then vv_free (tk_vbucket_ptr t) h else h);
              h = (if tk_mentry_ptr t \<noteq> None
                   then vv_free (tk_mentry_ptr t)
                          (fold (\<lambda>m h. vv_free (me_b_ptr m) (vv_free (me_a_ptr m) h)) (tk_mentry t) h) else h);
              h = (if tk_mbucket_ptr t \<noteq> None then vv_free (tk_mbucket_ptr t) h else h);
              h = (if tk_sentry_ptr t \<noteq> None
                   then vv_free (tk_sentry_ptr t) (fold (\<lambda>e. vv_free (ve_ptr e)) (tk_sentry t) h) else h);
              h = (if tk_s_is_special_ptr t \<noteq> None then vv_free (tk_s_is_special_ptr t) h else h);
              h = (if tk_id_to_token_ptr t \<noteq> None then vv_free (tk_id_to_token_ptr t) h else h);
              h = (if tk_id_to_len_ptr t \<noteq> None then vv_free (tk_id_to_len_ptr t) h else h)
          in (VV_OK, vv_free (Some (tk_self t)) h))"

subsection \<open>Loading\<close>

definition read_file :: "bytes option \<Rightarrow> heap \<Rightarrow> (nat \<times> bytes) option \<times> heap" where
  "read_file file h =
     (case file of
        None \<Rightarrow> (None, h)
      | Some bs \<Rightarrow>
          if bs = [] then (None, h)
          else (case vv_alloc (of_nat (length bs) + 1) h of
                  (None, h) \<Rightarrow> (None, h)
                | (Some a, h) \<Rightarrow> (Some (a, bs), h)))"

definition dup_str :: "bytes \<Rightarrow> heap \<Rightarrow> nat option \<times> heap" where
  "dup_str s h = vv_alloc (of_nat (length s) + 1) h"

definition tokenizer_path :: "string \<Rightarrow> string" where
  "tokenizer_path dir =
     take 511 (if dir \<noteq> '''' \<and> (last dir = CHR ''/'' \<or> last dir = CHR 0x5C) then dir @ ''tokenizer.json''
               else dir @ ''/tokenizer.json'')"

text \<open>
  The entries of \<^verbatim>\<open>model.vocab\<close> and the largest id. A child without a key (the vocabulary is an array) is followed
  through a NULL pointer.
\<close>

fun load_vocab_entries :: "(string option \<times> json) list \<Rightarrow> int \<Rightarrow> heap \<Rightarrow> vocab_entry list \<times> int \<times> heap" where
  "load_vocab_entries [] max_id h = ([], max_id, h)"
| "load_vocab_entries ((k, v) # kvs) max_id h =
     (let h = (if k = None then h\<lparr>h_bad := True\<rparr> else h);
          s = ascii (the k);
          (p, h) = dup_str s h;
          id = json_number v;
          (es, max_id, h) = load_vocab_entries kvs (if max_id < id then id else max_id) h
      in (\<lparr>ve_ptr = p, ve_str = s, ve_id = id\<rparr> # es, max_id, h))"

text \<open>The buckets of \<open>n\<close> entries: the mask, and the array with every cell empty.\<close>

definition alloc_buckets :: "nat \<Rightarrow> heap \<Rightarrow> ((u32 \<times> (nat \<times> int list) option) \<times> heap) option" where
  "alloc_buckets n h =
     (case next_pow2 (of_nat n * 2) of
        None \<Rightarrow> None
      | Some p \<Rightarrow>
          let msk = p - 1 in
          (case vv_alloc ((ucast msk + 1) * 4) h of
             (None, h) \<Rightarrow> Some ((msk, None), h)
           | (Some a, h) \<Rightarrow> Some ((msk, Some (a, replicate (unat msk + 1) (- 1))), h)))"

text \<open>
  A stage of the loader: \<open>Inl\<close> is \<^verbatim>\<open>goto oom\<close>, with the tokenizer as it is then; \<open>Inr\<close> goes on. An entry whose
  copy could not be allocated is hashed through a NULL pointer.
\<close>

definition load_vocab :: "tokenizer \<Rightarrow> json \<Rightarrow> heap \<Rightarrow> ((tokenizer \<times> heap) + (tokenizer \<times> int \<times> heap)) option" where
  "load_vocab t vocab h =
     (let kvs = json_children vocab in
      case vv_alloc (of_nat (length kvs) * h_sizeof h ''vocab_entry_t'') h of
        (None, h) \<Rightarrow> Some (Inl (t, h))
      | (Some a, h) \<Rightarrow>
          let (es, max_id, h) = load_vocab_entries kvs 0 h;
              t = t\<lparr>tk_ventry_ptr := Some a, tk_ventry := es\<rparr>
          in case alloc_buckets (length es) h of
               None \<Rightarrow> None
             | Some ((msk, None), h) \<Rightarrow> Some (Inl (t\<lparr>tk_vmask := msk\<rparr>, h))
             | Some ((msk, Some (b, cells)), h) \<Rightarrow>
                 let h = (if \<exists>e \<in> set es. ve_ptr e = None \<and> ve_str e \<noteq> [] then h\<lparr>h_bad := True\<rparr> else h) in
                 (case fold_opt vocab_put [0..<length es]
                         (t\<lparr>tk_vmask := msk, tk_vbucket_ptr := Some b, tk_vbucket := cells\<rparr>) of
                    None \<Rightarrow> None
                  | Some t \<Rightarrow> Some (Inr (t, max_id, h))))"

text \<open>One element of \<^verbatim>\<open>model.merges\<close>: the two sides, or nothing when it is skipped.\<close>

definition merge_sides :: "json \<Rightarrow> (bytes \<times> bytes) option" where
  "merge_sides m =
     (case m of
        JStr s \<Rightarrow>
          (let s = ascii s; a = takeWhile (\<lambda>c. c \<noteq> 32) s in
           if a = s then None else Some (a, drop (length a + 1) s))
      | JArr [JStr x, JStr y] \<Rightarrow> Some (ascii x, ascii y)
      | _ \<Rightarrow> None)"

fun load_merge_entries :: "json list \<Rightarrow> int \<Rightarrow> heap \<Rightarrow> merge_entry list \<times> heap" where
  "load_merge_entries [] i h = ([], h)"
| "load_merge_entries (m # ms) i h =
     (case merge_sides m of
        None \<Rightarrow> load_merge_entries ms (i + 1) h
      | Some (a, b) \<Rightarrow>
          let (pa, h) = dup_str a h; (pb, h) = dup_str b h; (es, h) = load_merge_entries ms (i + 1) h
          in (\<lparr>me_a_ptr = pa, me_a = a, me_b_ptr = pb, me_b = b, me_rank = i\<rparr> # es, h))"

definition load_merges :: "tokenizer \<Rightarrow> json option \<Rightarrow> heap \<Rightarrow> ((tokenizer \<times> heap) + (tokenizer \<times> heap)) option" where
  "load_merges t merges h =
     (case merges of
        None \<Rightarrow> Some (Inr (t, h))
      | Some merges \<Rightarrow>
          let ms = map snd (json_children merges) in
          (case vv_alloc (of_nat (length ms) * h_sizeof h ''merge_entry_t'') h of
             (None, h) \<Rightarrow> Some (Inl (t, h))
           | (Some a, h) \<Rightarrow>
               let (es, h) = load_merge_entries ms 0 h;
                   t = t\<lparr>tk_mentry_ptr := Some a, tk_mentry := es\<rparr>
               in case alloc_buckets (if 0 < length es then length es else 1) h of
                    None \<Rightarrow> None
                  | Some ((msk, None), h) \<Rightarrow> Some (Inl (t\<lparr>tk_mmask := msk\<rparr>, h))
                  | Some ((msk, Some (b, cells)), h) \<Rightarrow>
                      let h = (if \<exists>e \<in> set es. me_a_ptr e = None \<and> me_a e \<noteq> [] \<or> me_b_ptr e = None \<and> me_b e \<noteq> []
                               then h\<lparr>h_bad := True\<rparr> else h) in
                      (case fold_opt merge_put [0..<length es]
                              (t\<lparr>tk_mmask := msk, tk_mbucket_ptr := Some b, tk_mbucket := cells\<rparr>) of
                         None \<Rightarrow> None
                       | Some t \<Rightarrow> Some (Inr (t, h)))))"

text \<open>The added tokens with their flags, in the order of the file, and the largest id so far.\<close>

fun load_added_entries :: "json list \<Rightarrow> int \<Rightarrow> heap \<Rightarrow> (vocab_entry \<times> bool) list \<times> int \<times> heap" where
  "load_added_entries [] max_id h = ([], max_id, h)"
| "load_added_entries (it # its) max_id h =
     (case (json_get ''content'' it, json_get ''id'' it) of
        (Some (JStr c), Some i) \<Rightarrow>
          let s = ascii c; (p, h) = dup_str s h; id = json_number i;
              sp = (case json_get ''special'' it of None \<Rightarrow> True | Some j \<Rightarrow> j = JBool True);
              (es, max_id, h) = load_added_entries its (if max_id < id then id else max_id) h
          in ((\<lparr>ve_ptr = p, ve_str = s, ve_id = id\<rparr>, sp) # es, max_id, h)
      | _ \<Rightarrow> load_added_entries its max_id h)"

text \<open>One round of the insertion sort: the entry moves left past every shorter one it meets.\<close>

definition insert_longest :: "vocab_entry \<times> bool \<Rightarrow> (vocab_entry \<times> bool) list \<Rightarrow> (vocab_entry \<times> bool) list" where
  "insert_longest x xs =
     (let k = length xs - length (takeWhile (\<lambda>y. length (ve_str (fst y)) < length (ve_str (fst x))) (rev xs))
      in take k xs @ x # drop k xs)"

definition longest_first :: "(vocab_entry \<times> bool) list \<Rightarrow> (vocab_entry \<times> bool) list" where
  "longest_first xs = fold insert_longest xs []"

definition load_added :: "tokenizer \<Rightarrow> json option \<Rightarrow> int \<Rightarrow> heap \<Rightarrow> (tokenizer \<times> heap) + (tokenizer \<times> int \<times> heap)" where
  "load_added t added max_id h =
     (case added of
        None \<Rightarrow> Inr (t, max_id, h)
      | Some added \<Rightarrow>
          let its = map snd (json_children added);
              (a, h) = vv_alloc (of_nat (length its) * h_sizeof h ''vocab_entry_t'') h;
              (b, h) = vv_alloc (of_nat (length its)) h;
              t = t\<lparr>tk_sentry_ptr := a, tk_s_is_special_ptr := b\<rparr>
          in if a = None \<or> b = None then Inl (t, h)
             else
               let (es, max_id, h) = load_added_entries its max_id h; es = longest_first es
               in Inr (t\<lparr>tk_sentry := map fst es, tk_s_is_special := map snd es\<rparr>, max_id, h))"

definition set_token :: "vocab_entry \<Rightarrow> bytes option list \<Rightarrow> bytes option list" where
  "set_token e xs =
     (if 0 \<le> ve_id e \<and> ve_id e < int (length xs)
      then xs[nat (ve_id e) := (if ve_ptr e = None then None else Some (ve_str e))] else xs)"

definition load_ids :: "tokenizer \<Rightarrow> int \<Rightarrow> heap \<Rightarrow> (tokenizer \<times> heap) + (tokenizer \<times> heap)" where
  "load_ids t max_id h =
     (let (a, h) = vv_alloc (of_int (max_id + 1) * 8) h;
          (b, h) = vv_alloc (of_int (max_id + 1) * 4) h;
          t = t\<lparr>tk_id_to_token_ptr := a, tk_id_to_len_ptr := b\<rparr>
      in if a = None \<or> b = None then Inl (t, h)
         else Inr (t\<lparr>tk_id_to_token :=
                    fold set_token (tk_sentry t) (fold set_token (tk_ventry t) (replicate (nat (max_id + 1)) None))\<rparr>, h))"

definition empty_tokenizer :: "nat \<Rightarrow> tokenizer" where
  "empty_tokenizer a =
     \<lparr>tk_self = a, tk_ventry_ptr = None, tk_ventry = [], tk_vbucket_ptr = None, tk_vbucket = [], tk_vmask = 0,
      tk_mentry_ptr = None, tk_mentry = [], tk_mbucket_ptr = None, tk_mbucket = [], tk_mmask = 0,
      tk_id_to_token_ptr = None, tk_id_to_len_ptr = None, tk_id_to_token = [],
      tk_sentry_ptr = None, tk_sentry = [], tk_s_is_special_ptr = None, tk_s_is_special = []\<rparr>"

definition oom :: "tokenizer \<Rightarrow> heap \<Rightarrow> vv_status \<times> tokenizer option \<times> heap" where
  "oom t h = (VV_ERR_OUT_OF_MEMORY, None, snd (vv_tokenizer_free (Some t) h))"

definition load_tables :: "json \<Rightarrow> tokenizer \<Rightarrow> heap \<Rightarrow> (vv_status \<times> tokenizer option \<times> heap) option" where
  "load_tables root t h =
     (let model = json_get ''model'' root in
      case (case model of None \<Rightarrow> None | Some m \<Rightarrow> json_get ''vocab'' m) of
        None \<Rightarrow> Some (VV_ERR_PARSE, None, vv_free (Some (tk_self t)) h)
      | Some vocab \<Rightarrow>
          (case load_vocab t vocab h of
             None \<Rightarrow> None
           | Some (Inl (t, h)) \<Rightarrow> Some (oom t h)
           | Some (Inr (t, max_id, h)) \<Rightarrow>
               (case load_merges t (json_get ''merges'' (the model)) h of
                  None \<Rightarrow> None
                | Some (Inl (t, h)) \<Rightarrow> Some (oom t h)
                | Some (Inr (t, h)) \<Rightarrow>
                    (case load_added t (json_get ''added_tokens'' root) max_id h of
                       Inl (t, h) \<Rightarrow> Some (oom t h)
                     | Inr (t, max_id, h) \<Rightarrow>
                         (case load_ids t max_id h of
                            Inl (t, h) \<Rightarrow> Some (oom t h)
                          | Inr (t, h) \<Rightarrow> Some (VV_OK, Some t, h))))))"

definition vv_tokenizer_load :: "(string \<Rightarrow> bytes option) \<Rightarrow> (bytes \<Rightarrow> json option) \<Rightarrow> string option \<Rightarrow> heap \<Rightarrow>
    (vv_status \<times> tokenizer option \<times> heap) option" where
  "vv_tokenizer_load fs json_parse dir h =
     (case dir of
        None \<Rightarrow> Some (VV_ERR_NULL_PTR, None, h)
      | Some dir \<Rightarrow>
          (case read_file (fs (tokenizer_path dir)) h of
             (None, h) \<Rightarrow> Some (VV_ERR_IO, None, h)
           | (Some (js, bs), h) \<Rightarrow>
               let h = vv_free (Some js) h in
               (case json_parse bs of
                  None \<Rightarrow> Some (VV_ERR_PARSE, None, h)
                | Some root \<Rightarrow>
                    (case vv_alloc (h_sizeof h ''vv_tokenizer_t'') h of
                       (None, h) \<Rightarrow> Some (VV_ERR_OUT_OF_MEMORY, None, h)
                     | (Some a, h) \<Rightarrow> load_tables root (empty_tokenizer a) h))))"

subsection \<open>What a tokenizer holds\<close>

definition entry_blocks :: "vocab_entry list \<Rightarrow> block multiset" where
  "entry_blocks es = (\<Sum>e \<leftarrow> es. opt_block Host (ve_ptr e))"

definition merge_blocks :: "merge_entry list \<Rightarrow> block multiset" where
  "merge_blocks es = (\<Sum>e \<leftarrow> es. opt_block Host (me_a_ptr e) + opt_block Host (me_b_ptr e))"

definition tok_blocks :: "tokenizer \<Rightarrow> block multiset" where
  "tok_blocks t =
     {#(Host, tk_self t)#} + opt_block Host (tk_ventry_ptr t) + entry_blocks (tk_ventry t) + opt_block Host (tk_vbucket_ptr t)
     + opt_block Host (tk_mentry_ptr t) + merge_blocks (tk_mentry t) + opt_block Host (tk_mbucket_ptr t)
     + opt_block Host (tk_sentry_ptr t) + entry_blocks (tk_sentry t) + opt_block Host (tk_s_is_special_ptr t)
     + opt_block Host (tk_id_to_token_ptr t) + opt_block Host (tk_id_to_len_ptr t)"

text \<open>Entries live in an array that was allocated.\<close>

definition tok_arrays :: "tokenizer \<Rightarrow> bool" where
  "tok_arrays t \<longleftrightarrow> (tk_ventry_ptr t = None \<longrightarrow> tk_ventry t = []) \<and> (tk_mentry_ptr t = None \<longrightarrow> tk_mentry t = []) \<and>
     (tk_sentry_ptr t = None \<longrightarrow> tk_sentry t = [])"

text \<open>
  \<open>holds h M\<close>: unless the process has already gone wrong, exactly \<open>M\<close> is allocated. \<open>holds_if False\<close> is \<open>owns\<close>.
\<close>

definition holds_if :: "bool \<Rightarrow> heap \<Rightarrow> block multiset \<Rightarrow> bool" where
  "holds_if B h M \<longleftrightarrow> B \<and> h_bad h \<or> owns h M"

abbreviation holds :: "heap \<Rightarrow> block multiset \<Rightarrow> bool" where
  "holds \<equiv> holds_if True"

lemma opt_block_simps [simp]: "opt_block m None = {#}" "opt_block m (Some a) = {#(m, a)#}"
  by (simp_all add: opt_block_def)

lemma holds_bad [simp]: "holds (h\<lparr>h_bad := True\<rparr>) M"
  by (simp add: holds_if_def)

lemma holds_alloc: "holds_if B h M \<Longrightarrow> vv_alloc sz h = (p, h') \<Longrightarrow> holds_if B h' (opt_block Host p + M)"
  using vv_alloc_owns [of h M sz p h'] h_bad_alloc [of h sz p h'] by (auto simp: holds_if_def split: option.splits)

lemma holds_free: "holds_if B h (opt_block Host p + M) \<Longrightarrow> holds_if B (vv_free p h) M"
  using owns_free_opt [of h p M] by (auto simp: holds_if_def)

lemma holds_fold_free:
  "holds_if B h ((\<Sum>x \<leftarrow> xs. opt_block Host (p x)) + M) \<Longrightarrow> holds_if B (fold (\<lambda>x. vv_free (p x)) xs h) M"
  by (induction xs arbitrary: h) (simp_all add: holds_free add.assoc)

lemma holds_fold_free2:
  "holds_if B h ((\<Sum>x \<leftarrow> xs. opt_block Host (p x) + opt_block Host (q x)) + M) \<Longrightarrow>
   holds_if B (fold (\<lambda>x h. vv_free (q x) (vv_free (p x) h)) xs h) M"
  by (induction xs arbitrary: h) (simp_all add: holds_free add.assoc)

lemma free_tokenizer_holds:
  assumes "tok_arrays t" and "holds_if B h (tok_blocks t + M)"
  shows "holds_if B (snd (vv_tokenizer_free (Some t) h)) M"
proof -
  define h1 where "h1 = (if tk_ventry_ptr t \<noteq> None
      then vv_free (tk_ventry_ptr t) (fold (\<lambda>e. vv_free (ve_ptr e)) (tk_ventry t) h) else h)"
  define h2 where "h2 = (if tk_vbucket_ptr t \<noteq> None then vv_free (tk_vbucket_ptr t) h1 else h1)"
  define h3 where "h3 = (if tk_mentry_ptr t \<noteq> None then vv_free (tk_mentry_ptr t)
      (fold (\<lambda>m h. vv_free (me_b_ptr m) (vv_free (me_a_ptr m) h)) (tk_mentry t) h2) else h2)"
  define h4 where "h4 = (if tk_mbucket_ptr t \<noteq> None then vv_free (tk_mbucket_ptr t) h3 else h3)"
  define h5 where "h5 = (if tk_sentry_ptr t \<noteq> None
      then vv_free (tk_sentry_ptr t) (fold (\<lambda>e. vv_free (ve_ptr e)) (tk_sentry t) h4) else h4)"
  define h6 where "h6 = (if tk_s_is_special_ptr t \<noteq> None then vv_free (tk_s_is_special_ptr t) h5 else h5)"
  define h7 where "h7 = (if tk_id_to_token_ptr t \<noteq> None then vv_free (tk_id_to_token_ptr t) h6 else h6)"
  define h8 where "h8 = (if tk_id_to_len_ptr t \<noteq> None then vv_free (tk_id_to_len_ptr t) h7 else h7)"
  have opt: "holds_if B (if p \<noteq> None then vv_free p h else h) N" if "holds_if B h (opt_block Host p + N)" for p h N
    using that by (auto intro: holds_free)
  have arr: "holds_if B (if p \<noteq> None then vv_free p (fold (\<lambda>e. vv_free (ve_ptr e)) es h) else h) N"
    if "p = None \<Longrightarrow> es = []" and "holds_if B h (entry_blocks es + (opt_block Host p + N))" for p es h N
    using that by (auto simp: entry_blocks_def intro!: holds_free holds_fold_free)
  let ?r = "opt_block Host (tk_s_is_special_ptr t) + (opt_block Host (tk_id_to_token_ptr t) + (opt_block Host (tk_id_to_len_ptr t)
      + (opt_block Host (Some (tk_self t)) + M)))"
  let ?m = "opt_block Host (tk_mbucket_ptr t) + (entry_blocks (tk_sentry t) + (opt_block Host (tk_sentry_ptr t) + ?r))"
  have "holds_if B h (entry_blocks (tk_ventry t) + (opt_block Host (tk_ventry_ptr t) + (opt_block Host (tk_vbucket_ptr t)
      + (merge_blocks (tk_mentry t) + (opt_block Host (tk_mentry_ptr t) + ?m)))))"
    using assms(2) by (simp add: tok_blocks_def ac_simps)
  then have "holds_if B h1 (opt_block Host (tk_vbucket_ptr t) + (merge_blocks (tk_mentry t) + (opt_block Host (tk_mentry_ptr t) + ?m)))"
    unfolding h1_def using assms(1) by (intro arr) (auto simp: tok_arrays_def)
  then have "holds_if B h2 (merge_blocks (tk_mentry t) + (opt_block Host (tk_mentry_ptr t) + ?m))" unfolding h2_def by (rule opt)
  then have "holds_if B h3 ?m"
    unfolding h3_def using assms(1) by (auto simp: tok_arrays_def merge_blocks_def intro!: holds_free holds_fold_free2)
  then have "holds_if B h4 (entry_blocks (tk_sentry t) + (opt_block Host (tk_sentry_ptr t) + ?r))" unfolding h4_def by (rule opt)
  then have "holds_if B h5 ?r" unfolding h5_def using assms(1) by (intro arr) (auto simp: tok_arrays_def)
  then have "holds_if B h8 (opt_block Host (Some (tk_self t)) + M)" unfolding h8_def h7_def h6_def by (intro opt)
  then have "holds_if B (vv_free (Some (tk_self t)) h8) M" by (rule holds_free)
  then show ?thesis
    unfolding vv_tokenizer_free_def option.case Let_def snd_conv h8_def h7_def h6_def h5_def h4_def h3_def h2_def h1_def .
qed

subsection \<open>The loader gives back what it does not return\<close>

lemma load_vocab_entries_holds:
  "holds h M \<Longrightarrow> load_vocab_entries kvs m h = (es, m', h') \<Longrightarrow> holds h' (entry_blocks es + M)"
proof (induction kvs m h arbitrary: es m' h' M rule: load_vocab_entries.induct)
  case (1 m h)
  then show ?case by (simp add: entry_blocks_def)
next
  case (2 k v kvs m h)
  define h1 where "h1 = (if k = None then h\<lparr>h_bad := True\<rparr> else h)"
  obtain p h2 where d: "dup_str (ascii (the k)) h1 = (p, h2)" by (cases "dup_str (ascii (the k)) h1")
  define m1 where "m1 = (if m < json_number v then json_number v else m)"
  obtain es2 m2 h3 where r: "load_vocab_entries kvs m1 h2 = (es2, m2, h3)" by (metis prod_cases3)
  have "holds h1 M" using 2(2) by (simp add: h1_def)
  then have "holds h2 (opt_block Host p + M)" using d unfolding dup_str_def by (rule holds_alloc)
  then have "holds h3 (entry_blocks es2 + (opt_block Host p + M))"
    using r 2(1) [of h1 "ascii (the k)" "(p, h2)" p h2 "json_number v"] d by (simp add: h1_def m1_def)
  moreover have "es = \<lparr>ve_ptr = p, ve_str = ascii (the k), ve_id = json_number v\<rparr> # es2 \<and> h' = h3"
    using 2(3) d r by (simp add: h1_def m1_def Let_def split: prod.splits if_splits)
  ultimately show ?case by (simp add: entry_blocks_def ac_simps)
qed

lemma load_merge_entries_holds:
  "holds h M \<Longrightarrow> load_merge_entries ms i h = (es, h') \<Longrightarrow> holds h' (merge_blocks es + M)"
proof (induction ms arbitrary: i h es h' M)
  case Nil
  then show ?case by (simp add: merge_blocks_def)
next
  case (Cons m ms)
  show ?case
  proof (cases "merge_sides m")
    case None
    then show ?thesis using Cons by simp
  next
    case (Some ab)
    obtain a b where ab: "ab = (a, b)" by (cases ab)
    obtain pa h1 where da: "dup_str a h = (pa, h1)" by (cases "dup_str a h")
    obtain pb h2 where db: "dup_str b h1 = (pb, h2)" by (cases "dup_str b h1")
    obtain es2 h3 where r: "load_merge_entries ms (i + 1) h2 = (es2, h3)" by (cases "load_merge_entries ms (i + 1) h2")
    have "holds h1 (opt_block Host pa + M)" using Cons.prems(1) da unfolding dup_str_def by (rule holds_alloc)
    then have "holds h2 (opt_block Host pb + (opt_block Host pa + M))" using db unfolding dup_str_def by (rule holds_alloc)
    then have "holds h3 (merge_blocks es2 + (opt_block Host pb + (opt_block Host pa + M)))"
      using r by (rule Cons.IH)
    moreover have "es = \<lparr>me_a_ptr = pa, me_a = a, me_b_ptr = pb, me_b = b, me_rank = i\<rparr> # es2 \<and> h' = h3"
      using Cons.prems(2) Some ab da db r by simp
    ultimately show ?thesis by (simp add: merge_blocks_def ac_simps)
  qed
qed

lemma load_added_entries_holds:
  "holds h M \<Longrightarrow> load_added_entries its m h = (es, m', h') \<Longrightarrow> holds h' (entry_blocks (map fst es) + M)"
proof (induction its arbitrary: m h es m' h' M)
  case Nil
  then show ?case by (simp add: entry_blocks_def)
next
  case (Cons it its)
  show ?case
  proof (cases "\<exists>c i. json_get ''content'' it = Some (JStr c) \<and> json_get ''id'' it = Some i")
    case False
    then have "load_added_entries (it # its) m h = load_added_entries its m h"
      by (auto split: option.splits json.splits)
    then show ?thesis using Cons by simp
  next
    case True
    then obtain c i where ci: "json_get ''content'' it = Some (JStr c)" "json_get ''id'' it = Some i" by auto
    obtain p h1 where d: "dup_str (ascii c) h = (p, h1)" by (cases "dup_str (ascii c) h")
    define m1 where "m1 = (if m < json_number i then json_number i else m)"
    obtain es2 m2 h2 where r: "load_added_entries its m1 h1 = (es2, m2, h2)" by (metis prod_cases3)
    have "holds h1 (opt_block Host p + M)" using Cons.prems(1) d unfolding dup_str_def by (rule holds_alloc)
    then have "holds h2 (entry_blocks (map fst es2) + (opt_block Host p + M))" using r by (rule Cons.IH)
    moreover have "\<exists>sp. es = (\<lparr>ve_ptr = p, ve_str = ascii c, ve_id = json_number i\<rparr>, sp) # es2 \<and> h' = h2"
      using Cons.prems(2) ci d r by (auto simp: m1_def Let_def split: if_splits prod.splits)
    ultimately show ?thesis by (auto simp: entry_blocks_def ac_simps)
  qed
qed


lemma alloc_buckets_holds:
  assumes "holds h M" and "alloc_buckets n h = Some ((msk, r), h')"
  shows "holds h' (opt_block Host (map_option fst r) + M)"
proof -
  obtain p where "next_pow2 (of_nat n * 2) = Some p" using assms(2) by (auto simp: alloc_buckets_def split: option.splits)
  then have "\<exists>a. vv_alloc ((ucast (p - 1) + 1) * 4) h = (a, h') \<and> map_option fst r = a"
    using assms(2) by (auto simp: alloc_buckets_def Let_def split: prod.splits option.splits)
  then show ?thesis using holds_alloc [OF assms(1)] by auto
qed

text \<open>The part of a tokenizer the next stage has not touched yet.\<close>

lemma vocab_put_fields: "fold_opt vocab_put is t = Some t' \<Longrightarrow> \<exists>b. t' = t\<lparr>tk_vbucket := b\<rparr>"
proof (induction "is" arbitrary: t)
  case Nil
  then show ?case by (auto intro: exI [of _ "tk_vbucket t"])
next
  case (Cons i "is")
  then obtain t1 where "vocab_put i t = Some t1" "fold_opt vocab_put is t1 = Some t'" by (auto split: option.splits)
  moreover from this(1) obtain b where "t1 = t\<lparr>tk_vbucket := b\<rparr>" by (auto simp: vocab_put_def split: option.splits)
  ultimately show ?case using Cons.IH [of t1] by auto
qed

lemma merge_put_fields: "fold_opt merge_put is t = Some t' \<Longrightarrow> \<exists>b. t' = t\<lparr>tk_mbucket := b\<rparr>"
proof (induction "is" arbitrary: t)
  case Nil
  then show ?case by (auto intro: exI [of _ "tk_mbucket t"])
next
  case (Cons i "is")
  then obtain t1 where "merge_put i t = Some t1" "fold_opt merge_put is t1 = Some t'" by (auto split: option.splits)
  moreover from this(1) obtain b where "t1 = t\<lparr>tk_mbucket := b\<rparr>" by (auto simp: merge_put_def Let_def split: option.splits)
  ultimately show ?case using Cons.IH [of t1] by auto
qed

definition stage_ok :: "tokenizer \<Rightarrow> heap \<Rightarrow> block multiset \<Rightarrow> bool" where
  "stage_ok t h M \<longleftrightarrow> tok_arrays t \<and> holds h (tok_blocks t + M)"

definition fresh_vocab :: "tokenizer \<Rightarrow> bool" where
  "fresh_vocab t \<longleftrightarrow> tk_ventry_ptr t = None \<and> tk_ventry t = [] \<and> tk_vbucket_ptr t = None"

definition fresh_merges :: "tokenizer \<Rightarrow> bool" where
  "fresh_merges t \<longleftrightarrow> tk_mentry_ptr t = None \<and> tk_mentry t = [] \<and> tk_mbucket_ptr t = None"

definition fresh_added :: "tokenizer \<Rightarrow> bool" where
  "fresh_added t \<longleftrightarrow> tk_sentry_ptr t = None \<and> tk_sentry t = [] \<and> tk_s_is_special_ptr t = None \<and>
     tk_id_to_token_ptr t = None \<and> tk_id_to_len_ptr t = None"

lemmas fresh_defs = fresh_vocab_def fresh_merges_def fresh_added_def

lemma load_vocab_ok:
  assumes ok: "stage_ok t h M" and fr: "fresh_vocab t" "fresh_merges t" "fresh_added t"
    and res: "load_vocab t vocab h = Some r"
  shows "case r of Inl (t', h') \<Rightarrow> stage_ok t' h' M
    | Inr (t', m, h') \<Rightarrow> stage_ok t' h' M \<and> fresh_merges t' \<and> fresh_added t'"
proof -
  let ?kvs = "json_children vocab"
  have H: "holds h (tok_blocks t + M)" and A: "tok_arrays t" using ok by (simp_all add: stage_ok_def)
  obtain p h1 where v: "vv_alloc (of_nat (length ?kvs) * h_sizeof h ''vocab_entry_t'') h = (p, h1)" by (metis surj_pair)
  note H1 = holds_alloc [OF H v]
  show ?thesis
  proof (cases p)
    case None
    then show ?thesis using res v H1 A by (auto simp: load_vocab_def Let_def stage_ok_def)
  next
    case (Some a)
    obtain es m h2 where e: "load_vocab_entries ?kvs 0 h1 = (es, m, h2)" by (metis prod_cases3)
    note H2 = load_vocab_entries_holds [OF H1 e]
    obtain msk bk h3 where b: "alloc_buckets (length es) h2 = Some ((msk, bk), h3)"
      using res v Some e by (auto simp: load_vocab_def Let_def split: option.splits)
    note H3 = alloc_buckets_holds [OF H2 b]
    show ?thesis
    proof (cases bk)
      case None
      then show ?thesis using res v Some e b H3 A fr
        by (auto simp: load_vocab_def Let_def stage_ok_def tok_arrays_def tok_blocks_def fresh_defs entry_blocks_def ac_simps)
    next
      case (Some bc)
      obtain b0 cells where bc: "bc = (b0, cells)" by (cases bc)
      define h4 where "h4 = (if \<exists>e \<in> set es. ve_ptr e = None \<and> ve_str e \<noteq> [] then h3\<lparr>h_bad := True\<rparr> else h3)"
      define t1 where "t1 = t\<lparr>tk_ventry_ptr := Some a, tk_ventry := es, tk_vmask := msk, tk_vbucket_ptr := Some b0, tk_vbucket := cells\<rparr>"
      from res obtain t2 where f: "fold_opt vocab_put [0..<length es] t1 = Some t2" and r: "r = Inr (t2, m, h4)"
        using v \<open>p = Some a\<close> e b Some bc by (auto simp: load_vocab_def Let_def t1_def h4_def split: option.splits)
      obtain bb where t2: "t2 = t1\<lparr>tk_vbucket := bb\<rparr>" using vocab_put_fields [OF f] by auto
      have "holds h4 (opt_block Host (Some b0) + (entry_blocks es + (opt_block Host (Some a) + (tok_blocks t + M))))"
        using H3 Some bc \<open>p = Some a\<close> by (auto simp: h4_def)
      then show ?thesis using r fr A
        by (auto simp: t2 t1_def stage_ok_def tok_arrays_def tok_blocks_def fresh_defs entry_blocks_def ac_simps)
    qed
  qed
qed

lemma load_merges_ok:
  assumes ok: "stage_ok t h M" and fr: "fresh_merges t" "fresh_added t" and res: "load_merges t merges h = Some r"
  shows "case r of Inl (t', h') \<Rightarrow> stage_ok t' h' M | Inr (t', h') \<Rightarrow> stage_ok t' h' M \<and> fresh_added t'"
proof (cases merges)
  case None
  then show ?thesis using res ok fr by (auto simp: load_merges_def)
next
  case (Some mj)
  let ?ms = "map snd (json_children mj)"
  have H: "holds h (tok_blocks t + M)" and A: "tok_arrays t" using ok by (simp_all add: stage_ok_def)
  obtain p h1 where v: "vv_alloc (of_nat (length ?ms) * h_sizeof h ''merge_entry_t'') h = (p, h1)" by (metis surj_pair)
  note H1 = holds_alloc [OF H v]
  show ?thesis
  proof (cases p)
    case None
    then show ?thesis using res v H1 A Some by (auto simp: load_merges_def Let_def stage_ok_def)
  next
    case (Some a)
    obtain es h2 where e: "load_merge_entries ?ms 0 h1 = (es, h2)" by (metis surj_pair)
    note H2 = load_merge_entries_holds [OF H1 e]
    let ?n = "if 0 < length es then length es else 1"
    obtain msk bk h3 where b: "alloc_buckets ?n h2 = Some ((msk, bk), h3)"
      using res v Some e \<open>merges = Some mj\<close> by (auto simp: load_merges_def Let_def split: option.splits)
    note H3 = alloc_buckets_holds [OF H2 b]
    show ?thesis
    proof (cases bk)
      case None
      then show ?thesis using res v Some e b H3 A fr \<open>merges = Some mj\<close>
        by (auto simp: load_merges_def Let_def stage_ok_def tok_arrays_def tok_blocks_def fresh_defs merge_blocks_def ac_simps add_mset_commute
            split: if_splits)
    next
      case (Some bc)
      obtain b0 cells where bc: "bc = (b0, cells)" by (cases bc)
      define h4 where "h4 = (if \<exists>e \<in> set es. me_a_ptr e = None \<and> me_a e \<noteq> [] \<or> me_b_ptr e = None \<and> me_b e \<noteq> []
          then h3\<lparr>h_bad := True\<rparr> else h3)"
      define t1 where "t1 = t\<lparr>tk_mentry_ptr := Some a, tk_mentry := es, tk_mmask := msk, tk_mbucket_ptr := Some b0, tk_mbucket := cells\<rparr>"
      have "load_merges t merges h = (case fold_opt merge_put [0..<length es] t1 of None \<Rightarrow> None | Some t \<Rightarrow> Some (Inr (t, h4)))"
        unfolding load_merges_def \<open>merges = Some mj\<close> option.case Let_def v \<open>p = Some a\<close> prod.case e b Some bc t1_def h4_def
        by simp
      with res obtain t2 where f: "fold_opt merge_put [0..<length es] t1 = Some t2" and r: "r = Inr (t2, h4)"
        by (auto split: option.splits)
      obtain bb where t2: "t2 = t1\<lparr>tk_mbucket := bb\<rparr>" using merge_put_fields [OF f] by auto
      have "holds h4 (opt_block Host (Some b0) + (merge_blocks es + (opt_block Host (Some a) + (tok_blocks t + M))))"
        using H3 Some bc \<open>p = Some a\<close> by (auto simp: h4_def)
      then show ?thesis using r fr A
        by (auto simp: t2 t1_def stage_ok_def tok_arrays_def tok_blocks_def fresh_defs merge_blocks_def ac_simps add_mset_commute)
    qed
  qed
qed

lemma mset_insert_longest: "mset (insert_longest x xs) = add_mset x (mset xs)"
proof -
  have "mset (take k xs) + mset (drop k xs) = mset xs" for k by (simp flip: mset_append)
  then show ?thesis by (simp add: insert_longest_def Let_def)
qed

lemma mset_longest_first: "mset (longest_first xs) = mset xs"
proof -
  have "mset (fold insert_longest xs ys) = mset xs + mset ys" for ys
    by (induction xs arbitrary: ys) (simp_all add: mset_insert_longest)
  then show ?thesis by (simp add: longest_first_def)
qed

lemma entry_blocks_mset: "mset es = mset es' \<Longrightarrow> entry_blocks es = entry_blocks es'"
  unfolding entry_blocks_def by (metis mset_map sum_mset_sum_list)

lemma load_added_ok:
  assumes ok: "stage_ok t h M" and fr: "fresh_added t" and res: "load_added t added m h = r"
  shows "case r of Inl (t', h') \<Rightarrow> stage_ok t' h' M
    | Inr (t', m, h') \<Rightarrow> stage_ok t' h' M \<and> tk_id_to_token_ptr t' = None \<and> tk_id_to_len_ptr t' = None"
proof (cases added)
  case None
  then show ?thesis using res ok fr by (auto simp: load_added_def fresh_defs)
next
  case (Some aj)
  let ?its = "map snd (json_children aj)"
  have H: "holds h (tok_blocks t + M)" and A: "tok_arrays t" using ok by (simp_all add: stage_ok_def)
  obtain a h1 where v: "vv_alloc (of_nat (length ?its) * h_sizeof h ''vocab_entry_t'') h = (a, h1)" by (metis surj_pair)
  obtain b h2 where w: "vv_alloc (of_nat (length ?its)) h1 = (b, h2)" by (metis surj_pair)
  note H2 = holds_alloc [OF holds_alloc [OF H v] w]
  show ?thesis
  proof (cases "a = None \<or> b = None")
    case True
    then show ?thesis using res v w H2 A Some fr
      by (auto simp: load_added_def Let_def stage_ok_def tok_arrays_def tok_blocks_def fresh_defs entry_blocks_def ac_simps add_mset_commute)
  next
    case False
    obtain es m2 h3 where e: "load_added_entries ?its m h2 = (es, m2, h3)" by (metis prod_cases3)
    have "entry_blocks (map fst es) = entry_blocks (map fst (longest_first es))"
      by (rule entry_blocks_mset) (simp add: mset_longest_first)
    with load_added_entries_holds [OF H2 e]
    have "holds h3 (entry_blocks (map fst (longest_first es)) + (opt_block Host b + (opt_block Host a + (tok_blocks t + M))))" by simp
    then show ?thesis using res v w e A Some fr False
      by (auto simp: load_added_def Let_def stage_ok_def tok_arrays_def tok_blocks_def fresh_defs entry_blocks_def ac_simps add_mset_commute)
  qed
qed

lemma load_ids_ok:
  assumes ok: "stage_ok t h M" and fr: "tk_id_to_token_ptr t = None" "tk_id_to_len_ptr t = None" and res: "load_ids t m h = r"
  shows "case r of Inl (t', h') \<Rightarrow> stage_ok t' h' M | Inr (t', h') \<Rightarrow> stage_ok t' h' M"
proof -
  have H: "holds h (tok_blocks t + M)" and A: "tok_arrays t" using ok by (simp_all add: stage_ok_def)
  obtain a h1 where v: "vv_alloc (of_int (m + 1) * 8) h = (a, h1)" by (metis surj_pair)
  obtain b h2 where w: "vv_alloc (of_int (m + 1) * 4) h1 = (b, h2)" by (metis surj_pair)
  note H2 = holds_alloc [OF holds_alloc [OF H v] w]
  have res': "r = (if a = None \<or> b = None then Inl (t\<lparr>tk_id_to_token_ptr := a, tk_id_to_len_ptr := b\<rparr>, h2)
      else Inr (t\<lparr>tk_id_to_token_ptr := a, tk_id_to_len_ptr := b, tk_id_to_token :=
        fold set_token (tk_sentry t) (fold set_token (tk_ventry t) (replicate (nat (m + 1)) None))\<rparr>, h2))"
    using res unfolding load_ids_def Let_def v prod.case w by (cases "a = None \<or> b = None") auto
  show ?thesis using H2 A fr by (auto simp: res' stage_ok_def tok_arrays_def tok_blocks_def ac_simps add_mset_commute)
qed

definition loaded_ok :: "vv_status \<times> tokenizer option \<times> heap \<Rightarrow> block multiset \<Rightarrow> bool" where
  "loaded_ok r M = (case r of (s, tk, h') \<Rightarrow> (case tk of None \<Rightarrow> s \<noteq> VV_OK \<and> holds h' M
     | Some t \<Rightarrow> s = VV_OK \<and> stage_ok t h' M))"

lemma oom_ok: "stage_ok t h M \<Longrightarrow> loaded_ok (oom t h) M"
  by (auto simp: oom_def loaded_ok_def stage_ok_def intro: free_tokenizer_holds)

lemma returned_ok: "stage_ok t h M \<Longrightarrow> loaded_ok (VV_OK, Some t, h) M"
  by (simp add: loaded_ok_def)

lemma load_tables_ok:
  assumes ok: "stage_ok t h M" and fr: "fresh_vocab t" "fresh_merges t" "fresh_added t" and res: "load_tables root t h = Some r"
    and only: "tok_blocks t = {#(Host, tk_self t)#}"
  shows "loaded_ok r M"
proof (cases "case json_get ''model'' root of None \<Rightarrow> None | Some m \<Rightarrow> json_get ''vocab'' m")
  case None
  have "holds (vv_free (Some (tk_self t)) h) M" using ok only by (intro holds_free) (simp add: stage_ok_def)
  then show ?thesis using res None by (auto simp: load_tables_def loaded_ok_def)
next
  case (Some vocab)
  have step: "load_tables root t h =
     (case load_vocab t vocab h of None \<Rightarrow> None | Some (Inl (t, h)) \<Rightarrow> Some (oom t h)
      | Some (Inr (t, max_id, h)) \<Rightarrow>
          (case load_merges t (json_get ''merges'' (the (json_get ''model'' root))) h of
             None \<Rightarrow> None | Some (Inl (t, h)) \<Rightarrow> Some (oom t h)
           | Some (Inr (t, h)) \<Rightarrow>
               (case load_added t (json_get ''added_tokens'' root) max_id h of Inl (t, h) \<Rightarrow> Some (oom t h)
                | Inr (t, max_id, h) \<Rightarrow>
                    (case load_ids t max_id h of Inl (t, h) \<Rightarrow> Some (oom t h) | Inr (t, h) \<Rightarrow> Some (VV_OK, Some t, h)))))"
    unfolding load_tables_def Let_def Some by simp
  from res step obtain rv where v: "load_vocab t vocab h = Some rv" by (auto split: option.splits)
  note V = load_vocab_ok [OF ok fr v]
  show ?thesis
  proof (cases rv)
    case (Inl th)
    then show ?thesis using V v res step by (cases th) (auto intro: oom_ok)
  next
    case (Inr tmh)
    obtain t1 m1 h1 where rv: "rv = Inr (t1, m1, h1)" using Inr by (cases tmh) auto
    let ?mj = "json_get ''merges'' (the (json_get ''model'' root))"
    from res step v rv obtain rm where mm: "load_merges t1 ?mj h1 = Some rm" by (auto split: option.splits)
    note Mg = load_merges_ok [OF _ _ _ mm, of M]
    show ?thesis
    proof (cases rm)
      case (Inl th)
      then show ?thesis using V Mg v rv mm res step by (cases th) (auto intro: oom_ok)
    next
      case (Inr th)
      obtain t2 h2 where rm: "rm = Inr (t2, h2)" using Inr by (cases th) auto
      have S2: "stage_ok t2 h2 M" "fresh_added t2" using V Mg rv rm by auto
      show ?thesis
      proof (cases "load_added t2 (json_get ''added_tokens'' root) m1 h2")
        case (Inl th)
        then show ?thesis using load_added_ok [OF S2 Inl] v rv mm rm res step by (cases th) (auto intro: oom_ok)
      next
        case (Inr tmh)
        obtain t3 m3 h3 where a: "load_added t2 (json_get ''added_tokens'' root) m1 h2 = Inr (t3, m3, h3)"
          using Inr by (cases tmh) auto
        have S3: "stage_ok t3 h3 M" "tk_id_to_token_ptr t3 = None" "tk_id_to_len_ptr t3 = None"
          using load_added_ok [OF S2 a] by auto
        note L = load_ids_ok [OF S3 refl, of m3]
        have "r = (case load_ids t3 m3 h3 of Inl (t, h) \<Rightarrow> oom t h | Inr (t, h) \<Rightarrow> (VV_OK, Some t, h))"
          using v rv mm rm a res step by (auto split: sum.splits)
        then show ?thesis using L by (cases "load_ids t3 m3 h3") (auto intro: oom_ok returned_ok)
      qed
    qed
  qed
qed


lemma empty_tokenizer_fresh:
  "fresh_vocab (empty_tokenizer a)" "fresh_merges (empty_tokenizer a)" "fresh_added (empty_tokenizer a)"
  "tok_arrays (empty_tokenizer a)" "tok_blocks (empty_tokenizer a) = {#(Host, a)#}" "tk_self (empty_tokenizer a) = a"
  by (simp_all add: empty_tokenizer_def fresh_defs tok_arrays_def tok_blocks_def entry_blocks_def merge_blocks_def)

lemma read_file_holds:
  "holds h M \<Longrightarrow> read_file f h = (r, h') \<Longrightarrow> holds h' (opt_block Host (map_option fst r) + M)"
  by (auto simp: read_file_def split: option.splits if_splits prod.splits dest: holds_alloc)

lemma free_tokenizer_owns:
  "tok_arrays t \<Longrightarrow> owns h (tok_blocks t + M) \<Longrightarrow> owns (snd (vv_tokenizer_free (Some t) h)) M"
  using free_tokenizer_holds [of t False h M] by (simp add: holds_if_def)

text \<open>
  Loading a tokenizer leaks nothing. Whatever the file and the JSON in it and whichever allocations fail,
  \<^verbatim>\<open>vv_tokenizer_load\<close> either fails with everything it took given back, or returns a tokenizer whose blocks are all it
  took and which \<^verbatim>\<open>vv_tokenizer_free\<close> gives back. The one exception is a copy of a key that could not be allocated: it is
  hashed through the NULL pointer, so the process does not get to the end of the load.
\<close>

theorem tokenizer_load_no_leak:
  assumes own: "owns h M" and load: "vv_tokenizer_load fs json_parse dir h = Some (s, tk, h')" and fine: "\<not> h_bad h'"
  shows "case tk of None \<Rightarrow> s \<noteq> VV_OK \<and> owns h' M
    | Some t \<Rightarrow> s = VV_OK \<and> owns h' (tok_blocks t + M) \<and>
        owns (snd (vv_tokenizer_free (Some t) h')) M"
proof -
  have H: "holds h M" using own by (simp add: holds_if_def)
  have "loaded_ok (s, tk, h') M"
  proof (cases dir)
    case None
    then show ?thesis using load H by (auto simp: vv_tokenizer_load_def loaded_ok_def)
  next
    case (Some d)
    obtain r h1 where rd: "read_file (fs (tokenizer_path d)) h = (r, h1)" by (metis surj_pair)
    note H1 = read_file_holds [OF H rd]
    show ?thesis
    proof (cases r)
      case None
      then show ?thesis using load H1 rd Some by (auto simp: vv_tokenizer_load_def loaded_ok_def)
    next
      case (Some jb)
      obtain js bs where r: "r = Some (js, bs)" using Some by (cases jb) auto
      have H2: "holds (vv_free (Some js) h1) M" using H1 r by (intro holds_free) simp
      let ?h2 = "vv_free (Some js) h1"
      obtain a h3 where v: "vv_alloc (h_sizeof ?h2 ''vv_tokenizer_t'') ?h2 = (a, h3)" by (metis surj_pair)
      note H3 = holds_alloc [OF H2 v]
      show ?thesis
      proof (cases "json_parse bs = None \<or> a = None")
        case True
        then show ?thesis using load H2 H3 v rd r \<open>dir = Some d\<close>
          by (auto simp: vv_tokenizer_load_def loaded_ok_def Let_def split: option.splits)
      next
        case False
        then obtain root p where rp: "json_parse bs = Some root" "a = Some p" by auto
        have "stage_ok (empty_tokenizer p) h3 M" using H3 rp by (simp add: stage_ok_def empty_tokenizer_fresh)
        moreover have "load_tables root (empty_tokenizer p) h3 = Some (s, tk, h')"
          using load v rd r rp \<open>dir = Some d\<close> by (simp add: vv_tokenizer_load_def Let_def)
        ultimately show ?thesis
          by (intro load_tables_ok [OF _ empty_tokenizer_fresh(1-3)]) (auto simp: empty_tokenizer_fresh)
      qed
    qed
  qed
  then show ?thesis
    using fine free_tokenizer_owns by (auto simp: loaded_ok_def stage_ok_def holds_if_def split: option.splits)
qed

subsection \<open>What the loaded tables answer\<close>

text \<open>The association lists the JSON describes.\<close>

definition vocab_pairs :: "(string \<times> json) list \<Rightarrow> (bytes \<times> int) list" where
  "vocab_pairs kvs = map (\<lambda>(k, v). (ascii k, json_number v)) kvs"

fun merge_pairs :: "json list \<Rightarrow> int \<Rightarrow> ((bytes \<times> bytes) \<times> int) list" where
  "merge_pairs [] i = []"
| "merge_pairs (m # ms) i =
     (case merge_sides m of None \<Rightarrow> merge_pairs ms (i + 1) | Some ab \<Rightarrow> (ab, i) # merge_pairs ms (i + 1))"

lemma find_index_map_of:
  "map_option (\<lambda>i. g (xs ! i)) (find (\<lambda>i. f (xs ! i) = k) [0..<length xs]) = map_of (map (\<lambda>x. (f x, g x)) xs) k"
proof (induction xs)
  case Nil
  then show ?case by simp
next
  case (Cons x xs)
  have up: "[0..<length (x # xs)] = 0 # map Suc [0..<length xs]" by (simp add: upt_conv_Cons map_Suc_upt del: upt_Suc)
  have fm: "find P (map h ys) = map_option h (find (P \<circ> h) ys)" for P :: "nat \<Rightarrow> bool" and h :: "nat \<Rightarrow> nat" and ys
    by (induction ys) auto
  show ?case
  proof (cases "f x = k")
    case True
    then show ?thesis unfolding up by simp
  next
    case False
    then show ?thesis using Cons unfolding up by (simp add: fm comp_def option.map_comp)
  qed
qed

text \<open>What every step of the loader keeps when the host does not run out of memory.\<close>

definition calm :: "heap \<Rightarrow> heap \<Rightarrow> bool" where
  "calm h h' \<longleftrightarrow> host_never_fails h' \<and> h_bad h' = h_bad h \<and> h_sizeof h' = h_sizeof h"

lemma calm_refl: "host_never_fails h \<Longrightarrow> calm h h"
  by (simp add: calm_def)

lemma calm_trans: "calm h h' \<Longrightarrow> calm h' h'' \<Longrightarrow> calm h h''"
  by (simp add: calm_def)

lemma calm_alloc:
  assumes "host_never_fails h" and "sz \<noteq> 0"
  obtains a h' where "vv_alloc sz h = (Some a, h')" and "calm h h'"
  using assms by (auto simp: vv_alloc_def host_never_fails_def calm_def Let_def)

lemma len_nonzero: "n < 2 ^ 32 \<Longrightarrow> of_nat n + 1 \<noteq> (0 :: u64)"
proof -
  assume "n < 2 ^ 32"
  then have "unat (of_nat (Suc n) :: u64) = Suc n" by (simp only: unat_of_nat) simp
  then have "of_nat (Suc n) \<noteq> (0 :: u64)" by force
  then show ?thesis by (simp add: add.commute)
qed

lemma calm_dup:
  assumes "host_never_fails h" and "length s < 2 ^ 32"
  obtains a h' where "dup_str s h = (Some a, h')" and "calm h h'"
  using calm_alloc [OF assms(1) len_nonzero [OF assms(2)]] unfolding dup_str_def by blast

lemma load_vocab_entries_calm:
  assumes "host_never_fails h" and "\<forall>kv \<in> set kvs. length (fst kv) < 2 ^ 32"
  shows "\<exists>es h'. load_vocab_entries (map (\<lambda>(k, v). (Some k, v)) kvs) m h = (es, fold max (map snd (vocab_pairs kvs)) m, h') \<and>
    calm h h' \<and> map (\<lambda>e. (ve_str e, ve_id e)) es = vocab_pairs kvs \<and> (\<forall>e \<in> set es. ve_ptr e \<noteq> None)"
  using assms
proof (induction kvs arbitrary: m h)
  case Nil
  then show ?case by (simp add: vocab_pairs_def calm_refl)
next
  case (Cons kv kvs)
  obtain k v where kv: "kv = (k, v)" by (cases kv)
  have "length (ascii k) < 2 ^ 32" using Cons.prems(2) kv by (auto simp: ascii_def)
  with calm_dup [OF Cons.prems(1)] obtain a h1 where d: "dup_str (ascii k) h = (Some a, h1)" and c: "calm h h1" by blast
  have "host_never_fails h1" using c by (simp add: calm_def)
  from Cons.IH [OF this, of "max (json_number v) m"] Cons.prems(2) obtain es h' where
    r: "load_vocab_entries (map (\<lambda>(k, v). (Some k, v)) kvs) (max (json_number v) m) h1 =
        (es, fold max (map snd (vocab_pairs kvs)) (max (json_number v) m), h')" "calm h1 h'"
      "map (\<lambda>e. (ve_str e, ve_id e)) es = vocab_pairs kvs" "\<forall>e \<in> set es. ve_ptr e \<noteq> None"
    by (auto simp: kv)
  have "(if m < json_number v then json_number v else m) = max (json_number v) m" by auto
  then show ?case using d r c calm_trans [OF c r(2)] by (simp add: kv vocab_pairs_def Let_def)
qed

lemma load_merge_entries_calm:
  assumes "host_never_fails h" and "\<forall>p \<in> set (merge_pairs ms i). length (fst (fst p)) < 2 ^ 32 \<and> length (snd (fst p)) < 2 ^ 32"
  shows "\<exists>es h'. load_merge_entries ms i h = (es, h') \<and>
    calm h h' \<and> map (\<lambda>e. ((me_a e, me_b e), me_rank e)) es = merge_pairs ms i \<and>
    (\<forall>e \<in> set es. me_a_ptr e \<noteq> None \<and> me_b_ptr e \<noteq> None)"
  using assms
proof (induction ms i arbitrary: h rule: merge_pairs.induct)
  case (1 i)
  then show ?case by (simp add: calm_refl)
next
  case (2 m ms i)
  show ?case
  proof (cases "merge_sides m")
    case None
    then show ?thesis using 2 by simp
  next
    case (Some ab)
    obtain a b where ab: "ab = (a, b)" by (cases ab)
    have len: "length a < 2 ^ 32" "length b < 2 ^ 32" using "2.prems"(2) Some ab by auto
    obtain pa h1 where da: "dup_str a h = (Some pa, h1)" and c1: "calm h h1" using calm_dup [OF "2.prems"(1) len(1)] by blast
    have n1: "host_never_fails h1" using c1 by (simp add: calm_def)
    obtain pb h2 where db: "dup_str b h1 = (Some pb, h2)" and c2: "calm h1 h2" using calm_dup [OF n1 len(2)] by blast
    have n2: "host_never_fails h2" using c2 by (simp add: calm_def)
    obtain es h3 where r: "load_merge_entries ms (i + 1) h2 = (es, h3)" "calm h2 h3"
      "map (\<lambda>e. ((me_a e, me_b e), me_rank e)) es = merge_pairs ms (i + 1)"
      "\<forall>e \<in> set es. me_a_ptr e \<noteq> None \<and> me_b_ptr e \<noteq> None"
      using "2.IH"(2) [OF Some n2] "2.prems"(2) Some by auto
    then show ?thesis using Some ab da db calm_trans [OF c1 calm_trans [OF c2 r(2)]] by simp
  qed
qed

lemma alloc_buckets_calm:
  assumes "host_never_fails h" and "n \<le> 2 ^ 29" and "0 < n"
  obtains m a h' where "m < 32" "2 * n \<le> 2 ^ m" "calm h h'"
    "alloc_buckets n h = Some ((2 ^ m - 1, Some (a, replicate (2 ^ m) (- 1))), h')"
proof -
  have u: "unat (of_nat n * 2 :: u32) = n * 2"
  proof -
    have "unat (of_nat (n * 2) :: u32) = n * 2" using assms(2) by (simp only: unat_of_nat) simp
    then show ?thesis by simp
  qed
  obtain m where m: "next_pow2 (of_nat n * 2) = Some (2 ^ m)" "m \<le> 31" "n * 2 \<le> 2 ^ m"
    using next_pow2_total [of "of_nat n * 2"] assms(2) by (auto simp: u)
  have um: "unat (2 ^ m :: u32) = 2 ^ m" using m by (simp add: unat_pow2)
  have mm: "(2 ^ m - 1 :: u32) = mask m" by (simp add: mask_eq_exp_minus_1)
  have "unat (mask m :: u32) = mask m" using m(2) by (intro bit_eqI) (auto simp: bit_simps)
  then have u1: "unat (2 ^ m - 1 :: u32) + 1 = 2 ^ m" unfolding mm by (simp add: mask_eq_exp_minus_1)
  have "ucast (mask m :: u32) = (mask m :: u64)" using m(2) by (intro bit_word_eqI) (auto simp: bit_simps)
  then have uc: "ucast (2 ^ m - 1 :: u32) + 1 = (2 ^ m :: u64)" unfolding mm by (simp add: mask_eq_exp_minus_1)
  have "(2 :: nat) ^ m \<le> 2 ^ 31" using m(2) by (intro power_increasing) auto
  then have "unat (of_nat (2 ^ m * 4) :: u64) = 2 ^ m * 4" by (simp only: unat_of_nat) simp
  moreover have "0 < (2 :: nat) ^ m * 4" by simp
  ultimately have "of_nat (2 ^ m * 4) \<noteq> (0 :: u64)" by fastforce
  then have nz: "(ucast (2 ^ m - 1 :: u32) + 1) * 4 \<noteq> (0 :: u64)" unfolding uc by simp
  obtain a h' where v: "vv_alloc ((ucast (2 ^ m - 1 :: u32) + 1) * 4) h = (Some a, h')" and c: "calm h h'"
    using calm_alloc [OF assms(1) nz] .
  show thesis
  proof (rule that [OF _ _ c])
    show "alloc_buckets n h = Some ((2 ^ m - 1, Some (a, replicate (2 ^ m) (- 1))), h')"
      using m(1) v u1 by (simp add: alloc_buckets_def Let_def)
  qed (use m in auto)
qed

definition sizes_ok :: "heap \<Rightarrow> bool" where
  "sizes_ok h \<longleftrightarrow> (\<forall>s \<in> {''vocab_entry_t'', ''merge_entry_t'', ''vv_tokenizer_t''}. 0 < unat (h_sizeof h s) \<and> unat (h_sizeof h s) < 2 ^ 16)"

lemma nz_times: "0 < n \<Longrightarrow> n < 2 ^ 31 \<Longrightarrow> 0 < unat z \<Longrightarrow> unat z < 2 ^ 16 \<Longrightarrow> of_nat n * z \<noteq> (0 :: u64)"
proof -
  assume n: "0 < n" "n < 2 ^ 31" and z: "0 < unat z" "unat z < 2 ^ 16"
  then have "n * unat z < 2 ^ 31 * 2 ^ 16" by (intro mult_strict_mono) auto
  then have "unat (of_nat (n * unat z) :: u64) = n * unat z" by (simp only: unat_of_nat) simp
  moreover have "0 < n * unat z" using n z by simp
  ultimately have "of_nat (n * unat z) \<noteq> (0 :: u64)" by fastforce
  then show ?thesis by simp
qed

lemma sizes_calm: "calm h h' \<Longrightarrow> sizes_ok h \<Longrightarrow> sizes_ok h'"
  by (simp add: calm_def sizes_ok_def)

lemma calm_host: "calm h h' \<Longrightarrow> host_never_fails h'"
  by (simp add: calm_def)

definition or_minus1 :: "int option \<Rightarrow> int" where
  "or_minus1 r = (case r of None \<Rightarrow> - 1 | Some i \<Rightarrow> i)"

lemma load_vocab_calm:
  assumes h: "host_never_fails h" "sizes_ok h" and kvs: "kvs \<noteq> []" "length kvs \<le> 2 ^ 29" "\<forall>kv \<in> set kvs. length (fst kv) < 2 ^ 32"
  shows "\<exists>a es msk b bk h'.
    load_vocab t (JObj kvs) h = Some (Inr (t\<lparr>tk_ventry_ptr := Some a, tk_ventry := es, tk_vmask := msk, tk_vbucket_ptr := Some b,
        tk_vbucket := bk\<rparr>, fold max (map snd (vocab_pairs kvs)) 0, h')) \<and> calm h h' \<and>
    map (\<lambda>e. (ve_str e, ve_id e)) es = vocab_pairs kvs \<and> (\<forall>e \<in> set es. ve_ptr e \<noteq> None) \<and>
    (\<forall>t s. tk_ventry t = es \<longrightarrow> tk_vmask t = msk \<longrightarrow> tk_vbucket t = bk \<longrightarrow>
       vocab_get t s = Some (or_minus1 (map_of (vocab_pairs kvs) s)))"
proof -
  have ch: "json_children (JObj kvs) = map (\<lambda>(k, v). (Some k, v)) kvs" by (simp add: json_children_def)
  have nz: "of_nat (length (json_children (JObj kvs))) * h_sizeof h ''vocab_entry_t'' \<noteq> 0" unfolding ch length_map using h(2) kvs by (intro nz_times) (auto simp: sizes_ok_def)
  obtain a h1 where v: "vv_alloc (of_nat (length (json_children (JObj kvs))) * h_sizeof h ''vocab_entry_t'') h = (Some a, h1)"
    and c1: "calm h h1" using calm_alloc [OF h(1) nz] .
  obtain es h2 where e: "load_vocab_entries (json_children (JObj kvs)) 0 h1 = (es, fold max (map snd (vocab_pairs kvs)) 0, h2)"
    and c2: "calm h1 h2" and es: "map (\<lambda>e. (ve_str e, ve_id e)) es = vocab_pairs kvs" and np: "\<forall>e \<in> set es. ve_ptr e \<noteq> None"
    using load_vocab_entries_calm [OF calm_host [OF c1] kvs(3)] unfolding ch by blast
  have len: "length es = length kvs" using arg_cong [OF es, of length] by (simp add: vocab_pairs_def)
  have n: "length es \<le> 2 ^ 29" "0 < length es" using len kvs by auto
  obtain m b h3 where m: "m < 32" "2 * length es \<le> 2 ^ m" and c3: "calm h2 h3"
    and bk: "alloc_buckets (length es) h2 = Some ((2 ^ m - 1, Some (b, replicate (2 ^ m) (- 1))), h3)"
    using alloc_buckets_calm [OF calm_host [OF c2] n] by blast
  let ?t = "t\<lparr>tk_ventry_ptr := Some a, tk_ventry := es, tk_vmask := 2 ^ m - 1, tk_vbucket_ptr := Some b,
    tk_vbucket := replicate (2 ^ m) (- 1)\<rparr>"
  have A: "tk_vmask ?t = 2 ^ m - 1" "tk_vbucket ?t = replicate (2 ^ m) (- 1)" by simp_all
  have lt: "length es < 2 ^ m" using m(2) n by linarith
  obtain bb where put: "fold_opt vocab_put [0..<length es] ?t = Some (?t\<lparr>tk_vbucket := bb\<rparr>)"
    and look: "\<And>k. vocab_find (?t\<lparr>tk_vbucket := bb\<rparr>) k = Some (find (\<lambda>i. vkey ?t i = k) [0..<length es])"
    using vocab.filled_table [OF m(1) A lt] by blast
  have get: "vocab_get t' s = Some (or_minus1 (map_of (vocab_pairs kvs) s))"
    if "tk_ventry t' = es" "tk_vmask t' = 2 ^ m - 1" "tk_vbucket t' = bb" for t' s
  proof -
    have "vocab_find t' s = vocab_find (?t\<lparr>tk_vbucket := bb\<rparr>) s" using that by (simp add: vocab_find_def)
    also have "\<dots> = Some (find (\<lambda>i. ve_str (es ! i) = s) [0..<length es])" using look [of s] by (simp add: vkey_def)
    finally show ?thesis
      using that find_index_map_of [of ve_id es ve_str s] es
      by (auto simp: vocab_get_def or_minus1_def split: option.splits)
  qed
  have "\<not> (\<exists>e \<in> set es. ve_ptr e = None \<and> ve_str e \<noteq> [])" using np by blast
  then have "load_vocab t (JObj kvs) h = Some (Inr (?t\<lparr>tk_vbucket := bb\<rparr>, fold max (map snd (vocab_pairs kvs)) 0, h3))"
    unfolding load_vocab_def Let_def v prod.case e option.case bk
    using put by auto
  moreover have "calm h h3" by (rule calm_trans [OF c1 calm_trans [OF c2 c3]])
  ultimately show ?thesis using es np get
    by (intro exI [of _ a] exI [of _ es] exI [of _ "2 ^ m - 1"] exI [of _ b] exI [of _ bb] exI [of _ h3]) simp
qed

lemma load_merges_calm:
  assumes h: "host_never_fails h" "sizes_ok h" and ms: "ms \<noteq> []" "length ms \<le> 2 ^ 29"
    "\<forall>p \<in> set (merge_pairs ms 0). length (fst (fst p)) < 2 ^ 32 \<and> length (snd (fst p)) < 2 ^ 32"
  shows "\<exists>a es msk b bk h'.
    load_merges t (Some (JArr ms)) h = Some (Inr (t\<lparr>tk_mentry_ptr := Some a, tk_mentry := es, tk_mmask := msk,
        tk_mbucket_ptr := Some b, tk_mbucket := bk\<rparr>, h')) \<and> calm h h' \<and>
    map (\<lambda>e. ((me_a e, me_b e), me_rank e)) es = merge_pairs ms 0 \<and>
    (\<forall>t x y. tk_mentry t = es \<longrightarrow> tk_mmask t = msk \<longrightarrow> tk_mbucket t = bk \<longrightarrow> tk_mbucket_ptr t = Some b \<longrightarrow>
       merge_rank t x y = Some (or_minus1 (map_of (merge_pairs ms 0) (x, y))))"
proof -
  have ch: "map snd (json_children (JArr ms)) = ms" by (simp add: json_children_def comp_def)
  have nz: "of_nat (length ms) * h_sizeof h ''merge_entry_t'' \<noteq> 0" using h(2) ms by (intro nz_times) (auto simp: sizes_ok_def)
  obtain a h1 where v: "vv_alloc (of_nat (length ms) * h_sizeof h ''merge_entry_t'') h = (Some a, h1)"
    and c1: "calm h h1" using calm_alloc [OF h(1) nz] .
  obtain es h2 where e: "load_merge_entries ms 0 h1 = (es, h2)"
    and c2: "calm h1 h2" and es: "map (\<lambda>e. ((me_a e, me_b e), me_rank e)) es = merge_pairs ms 0"
    and np: "\<forall>e \<in> set es. me_a_ptr e \<noteq> None \<and> me_b_ptr e \<noteq> None"
    using load_merge_entries_calm [OF calm_host [OF c1] ms(3)] by blast
  have "length (merge_pairs ms i) \<le> length ms" for i by (induction ms i rule: merge_pairs.induct) (auto split: option.splits)
  then have len: "length es \<le> length ms" using arg_cong [OF es, of length] by (metis length_map)
  let ?n = "if 0 < length es then length es else 1"
  have n: "length es \<le> ?n" "0 < ?n" "?n \<le> 2 ^ 29" using len ms(2) by simp_all
  obtain m b h3 where m: "m < 32" "2 * ?n \<le> 2 ^ m" and c3: "calm h2 h3"
    and bk: "alloc_buckets ?n h2 = Some ((2 ^ m - 1, Some (b, replicate (2 ^ m) (- 1))), h3)"
    using alloc_buckets_calm [OF calm_host [OF c2] n(3,2)] by blast
  let ?t = "t\<lparr>tk_mentry_ptr := Some a, tk_mentry := es, tk_mmask := 2 ^ m - 1, tk_mbucket_ptr := Some b,
    tk_mbucket := replicate (2 ^ m) (- 1)\<rparr>"
  have A: "tk_mmask ?t = 2 ^ m - 1" "tk_mbucket ?t = replicate (2 ^ m) (- 1)" by simp_all
  have lt: "length es < 2 ^ m" using m(2) n(1,2) by linarith
  obtain bb where put: "fold_opt merge_put [0..<length es] ?t = Some (?t\<lparr>tk_mbucket := bb\<rparr>)"
    and look: "\<And>k. merge_find (?t\<lparr>tk_mbucket := bb\<rparr>) k = Some (find (\<lambda>i. mkey ?t i = k) [0..<length es])"
    using merges.filled_table [OF m(1) A lt] by blast
  have get: "merge_rank t' x y = Some (or_minus1 (map_of (merge_pairs ms 0) (x, y)))"
    if "tk_mentry t' = es" "tk_mmask t' = 2 ^ m - 1" "tk_mbucket t' = bb" "tk_mbucket_ptr t' = Some b" for t' x y
  proof -
    have "merge_find t' (x, y) = merge_find (?t\<lparr>tk_mbucket := bb\<rparr>) (x, y)" using that by (simp add: merge_find_def)
    also have "\<dots> = Some (find (\<lambda>i. (me_a (es ! i), me_b (es ! i)) = (x, y)) [0..<length es])"
      using look [of "(x, y)"] by (simp add: mkey_def)
    finally show ?thesis
      using that find_index_map_of [of me_rank es "\<lambda>e. (me_a e, me_b e)" "(x, y)"] es
      by (auto simp: merge_rank_def or_minus1_def split: option.splits)
  qed
  have "\<not> (\<exists>e \<in> set es. me_a_ptr e = None \<and> me_a e \<noteq> [] \<or> me_b_ptr e = None \<and> me_b e \<noteq> [])" using np by blast
  then have "load_merges t (Some (JArr ms)) h = Some (Inr (?t\<lparr>tk_mbucket := bb\<rparr>, h3))"
    unfolding load_merges_def Let_def option.case ch v prod.case e bk
    using put by auto
  moreover have "calm h h3" by (rule calm_trans [OF c1 calm_trans [OF c2 c3]])
  ultimately show ?thesis using es get
    by (intro exI [of _ a] exI [of _ es] exI [of _ "2 ^ m - 1"] exI [of _ b] exI [of _ bb] exI [of _ h3]) simp
qed

fun added_pairs :: "json list \<Rightarrow> ((bytes \<times> int) \<times> bool) list" where
  "added_pairs [] = []"
| "added_pairs (it # its) =
     (case (json_get ''content'' it, json_get ''id'' it) of
        (Some (JStr c), Some i) \<Rightarrow>
          ((ascii c, json_number i), case json_get ''special'' it of None \<Rightarrow> True | Some j \<Rightarrow> j = JBool True) # added_pairs its
      | _ \<Rightarrow> added_pairs its)"

definition entry_pair :: "vocab_entry \<Rightarrow> bytes \<times> int" where
  "entry_pair e = (ve_str e, ve_id e)"

lemma load_added_entries_calm:
  assumes "host_never_fails h" and "\<forall>p \<in> set (added_pairs its). length (fst (fst p)) < 2 ^ 32"
  shows "\<exists>es h'. load_added_entries its m h = (es, fold max (map (\<lambda>p. snd (fst p)) (added_pairs its)) m, h') \<and>
    calm h h' \<and> map (\<lambda>(e, f). (entry_pair e, f)) es = added_pairs its \<and> (\<forall>e \<in> set es. ve_ptr (fst e) \<noteq> None)"
  using assms
proof (induction its arbitrary: m h)
  case Nil
  then show ?case by (simp add: calm_refl)
next
  case (Cons it its)
  show ?case
  proof (cases "\<exists>c i. json_get ''content'' it = Some (JStr c) \<and> json_get ''id'' it = Some i")
    case False
    then have "load_added_entries (it # its) m h = load_added_entries its m h" "added_pairs (it # its) = added_pairs its"
      by (auto split: option.splits json.splits)
    then show ?thesis using Cons by simp
  next
    case True
    then obtain c i where ci: "json_get ''content'' it = Some (JStr c)" "json_get ''id'' it = Some i" by auto
    have "length (ascii c) < 2 ^ 32" using Cons.prems(2) ci by simp
    then obtain a h1 where d: "dup_str (ascii c) h = (Some a, h1)" and c: "calm h h1"
      using calm_dup [OF Cons.prems(1)] by blast
    obtain es h' where
      r: "load_added_entries its (max (json_number i) m) h1 =
          (es, fold max (map (\<lambda>p. snd (fst p)) (added_pairs its)) (max (json_number i) m), h')" "calm h1 h'"
        "map (\<lambda>(e, f). (entry_pair e, f)) es = added_pairs its" "\<forall>e \<in> set es. ve_ptr (fst e) \<noteq> None"
      using Cons.IH [OF calm_host [OF c], of "max (json_number i) m"] Cons.prems(2) ci by auto
    have "(if m < json_number i then json_number i else m) = max (json_number i) m" by auto
    then show ?thesis using ci d r calm_trans [OF c r(2)] by (simp add: Let_def entry_pair_def)
  qed
qed

lemma load_added_calm:
  assumes h: "host_never_fails h" "sizes_ok h" and its: "its \<noteq> []" "length its < 2 ^ 31"
    "\<forall>p \<in> set (added_pairs its). length (fst (fst p)) < 2 ^ 32"
  shows "\<exists>a b es h'. load_added t (Some (JArr its)) m h =
      Inr (t\<lparr>tk_sentry_ptr := Some a, tk_s_is_special_ptr := Some b, tk_sentry := map fst (longest_first es),
             tk_s_is_special := map snd (longest_first es)\<rparr>, fold max (map (\<lambda>p. snd (fst p)) (added_pairs its)) m, h') \<and> calm h h' \<and>
    map (\<lambda>(e, f). (entry_pair e, f)) es = added_pairs its \<and> (\<forall>e \<in> set es. ve_ptr (fst e) \<noteq> None)"
proof -
  have ch: "map snd (json_children (JArr its)) = its" by (simp add: json_children_def comp_def)
  have nz: "of_nat (length its) * h_sizeof h ''vocab_entry_t'' \<noteq> 0" using h(2) its by (intro nz_times) (auto simp: sizes_ok_def)
  obtain a h1 where v: "vv_alloc (of_nat (length its) * h_sizeof h ''vocab_entry_t'') h = (Some a, h1)" and c1: "calm h h1"
    using calm_alloc [OF h(1) nz] .
  have nz2: "of_nat (length its) \<noteq> (0 :: u64)" using nz_times [of "length its" 1] its by simp
  obtain b h2 where w: "vv_alloc (of_nat (length its)) h1 = (Some b, h2)" and c2: "calm h1 h2"
    using calm_alloc [OF calm_host [OF c1] nz2] .
  obtain es h3 where e: "load_added_entries its m h2 = (es, fold max (map (\<lambda>p. snd (fst p)) (added_pairs its)) m, h3)" and c3: "calm h2 h3"
    and es: "map (\<lambda>(e, f). (entry_pair e, f)) es = added_pairs its" "\<forall>e \<in> set es. ve_ptr (fst e) \<noteq> None"
    using load_added_entries_calm [OF calm_host [OF c2] its(3)] by blast
  have "load_added t (Some (JArr its)) m h =
      Inr (t\<lparr>tk_sentry_ptr := Some a, tk_s_is_special_ptr := Some b, tk_sentry := map fst (longest_first es),
             tk_s_is_special := map snd (longest_first es)\<rparr>, fold max (map (\<lambda>p. snd (fst p)) (added_pairs its)) m, h3)"
    unfolding load_added_def Let_def option.case ch v prod.case w e by simp
  then show ?thesis using es calm_trans [OF c1 calm_trans [OF c2 c3]] by blast
qed

subsection \<open>From ids to tokens\<close>

lemma length_set_token [simp]: "length (fold set_token es xs) = length xs"
  by (induction es arbitrary: xs) (simp_all add: set_token_def)

lemma set_token_other: "0 \<le> k \<Longrightarrow> k \<notin> ve_id ` set es \<Longrightarrow> fold set_token es xs ! nat k = xs ! nat k"
proof (induction es arbitrary: xs)
  case Nil
  then show ?case by simp
next
  case (Cons e es)
  then have "set_token e xs ! nat k = xs ! nat k" by (auto simp: set_token_def nth_list_update)
  then show ?case using Cons by simp
qed

lemma set_token_same:
  "e \<in> set es \<Longrightarrow> distinct (map ve_id es) \<Longrightarrow> ve_ptr e \<noteq> None \<Longrightarrow> 0 \<le> ve_id e \<Longrightarrow> ve_id e < int (length xs) \<Longrightarrow>
   fold set_token es xs ! nat (ve_id e) = Some (ve_str e)"
proof (induction es arbitrary: xs)
  case Nil
  then show ?case by simp
next
  case (Cons x es)
  show ?case
  proof (cases "e = x")
    case True
    then have "ve_id e \<notin> ve_id ` set es" using Cons.prems by auto
    moreover have "set_token x xs ! nat (ve_id e) = Some (ve_str e)" using True Cons.prems by (auto simp: set_token_def)
    ultimately show ?thesis using Cons.prems by (simp add: set_token_other)
  next
    case False
    moreover have "length (set_token x xs) = length xs" by (simp add: set_token_def)
    ultimately show ?thesis using Cons.prems by (simp add: Cons.IH)
  qed
qed

lemma fold_max_ge:
  fixes m :: int
  shows "m \<le> fold max xs m" "x \<in> set xs \<Longrightarrow> x \<le> fold max xs m"
proof -
  show A: "m \<le> fold max xs m" for xs and m :: int
  proof (induction xs arbitrary: m)
    case (Cons a xs)
    show ?case using order_trans [OF max.cobounded2 Cons [of "max a m"]] by simp
  qed simp
  show "x \<in> set xs \<Longrightarrow> x \<le> fold max xs m"
  proof (induction xs arbitrary: m)
    case (Cons a xs)
    then show ?case using A [of "max a m" xs] by auto
  qed simp
qed

lemma fold_max_less: "m < b \<Longrightarrow> (\<forall>x \<in> set xs. x < b) \<Longrightarrow> fold max xs m < (b :: int)"
  by (induction xs arbitrary: m) auto

lemma load_ids_calm:
  assumes "host_never_fails h" and "0 \<le> m" and "m < 2 ^ 31 - 1"
  shows "\<exists>a b h'. load_ids t m h = Inr (t\<lparr>tk_id_to_token_ptr := Some a, tk_id_to_len_ptr := Some b, tk_id_to_token :=
      fold set_token (tk_sentry t) (fold set_token (tk_ventry t) (replicate (nat (m + 1)) None))\<rparr>, h') \<and> calm h h'"
proof -
  have nz: "of_int (m + 1) * 8 \<noteq> (0 :: u64)" "of_int (m + 1) * 4 \<noteq> (0 :: u64)"
    using word_times_neq_0 [of "m + 1" 8] word_times_neq_0 [of "m + 1" 4] assms(2,3) by (simp_all del: of_int_add)
  obtain a h1 where v: "vv_alloc (of_int (m + 1) * 8) h = (Some a, h1)" and c1: "calm h h1" using calm_alloc [OF assms(1) nz(1)] .
  obtain b h2 where w: "vv_alloc (of_int (m + 1) * 4) h1 = (Some b, h2)" and c2: "calm h1 h2"
    using calm_alloc [OF calm_host [OF c1] nz(2)] .
  have "load_ids t m h = Inr (t\<lparr>tk_id_to_token_ptr := Some a, tk_id_to_len_ptr := Some b, tk_id_to_token :=
      fold set_token (tk_sentry t) (fold set_token (tk_ventry t) (replicate (nat (m + 1)) None))\<rparr>, h2)"
    unfolding load_ids_def Let_def v prod.case w by simp
  then show ?thesis using calm_trans [OF c1 c2] by blast
qed


subsection \<open>A good file\<close>

text \<open>
  What a usable \<^verbatim>\<open>tokenizer.json\<close> looks like: a vocabulary, merges and added tokens, none of them empty, keys below
  4 GiB and ids that are not negative and fit an \<^verbatim>\<open>int32_t\<close>.
\<close>

definition good_json :: "json \<Rightarrow> (string \<times> json) list \<Rightarrow> json list \<Rightarrow> json list \<Rightarrow> bool" where
  "good_json root kvs ms its \<longleftrightarrow>
     (case json_get ''model'' root of None \<Rightarrow> False
      | Some m \<Rightarrow> json_get ''vocab'' m = Some (JObj kvs) \<and> json_get ''merges'' m = Some (JArr ms)) \<and>
     json_get ''added_tokens'' root = Some (JArr its) \<and>
     kvs \<noteq> [] \<and> length kvs \<le> 2 ^ 29 \<and> ms \<noteq> [] \<and> length ms \<le> 2 ^ 29 \<and> its \<noteq> [] \<and> length its < 2 ^ 31 \<and>
     (\<forall>kv \<in> set kvs. length (fst kv) < 2 ^ 32) \<and>
     (\<forall>p \<in> set (merge_pairs ms 0). length (fst (fst p)) < 2 ^ 32 \<and> length (snd (fst p)) < 2 ^ 32) \<and>
     (\<forall>p \<in> set (added_pairs its). length (fst (fst p)) < 2 ^ 32) \<and>
     (\<forall>i \<in> snd ` set (vocab_pairs kvs) \<union> (\<lambda>p. snd (fst p)) ` set (added_pairs its). 0 \<le> i \<and> i < 2 ^ 31 - 1)"

lemma map_snd_inj: "map f xs = ys \<Longrightarrow> distinct (map g ys) \<Longrightarrow> distinct (map (\<lambda>x. g (f x)) xs)"
  by (auto simp: comp_def)

lemma load_tables_good:
  assumes h: "host_never_fails h" "sizes_ok h" and good: "good_json root kvs ms its"
  shows "\<exists>t' es se h'. load_tables root t h = Some (VV_OK, Some t', h') \<and> calm h h' \<and>
    (\<forall>s. vocab_get t' s = Some (or_minus1 (map_of (vocab_pairs kvs) s))) \<and>
    (\<forall>a b. merge_rank t' a b = Some (or_minus1 (map_of (merge_pairs ms 0) (a, b)))) \<and>
    map entry_pair es = vocab_pairs kvs \<and> map (\<lambda>(e, f). (entry_pair e, f)) se = added_pairs its \<and>
    (\<forall>e \<in> set es \<union> fst ` set se. ve_ptr e \<noteq> None) \<and>
    tk_sentry t' = map fst (longest_first se) \<and> tk_s_is_special t' = map snd (longest_first se) \<and>
    tk_id_to_token t' = fold set_token (map fst (longest_first se)) (fold set_token es
      (replicate (nat (fold max (map (\<lambda>p. snd (fst p)) (added_pairs its)) (fold max (map snd (vocab_pairs kvs)) 0) + 1)) None))"
proof -
  let ?m = "fold max (map snd (vocab_pairs kvs)) 0"
  let ?m2 = "fold max (map (\<lambda>p. snd (fst p)) (added_pairs its)) ?m"
  from good obtain md where md: "json_get ''model'' root = Some md" "json_get ''vocab'' md = Some (JObj kvs)"
    "json_get ''merges'' md = Some (JArr ms)" "json_get ''added_tokens'' root = Some (JArr its)"
    by (auto simp: good_json_def split: option.splits)
  have kvs: "kvs \<noteq> []" "length kvs \<le> 2 ^ 29" "\<forall>kv \<in> set kvs. length (fst kv) < 2 ^ 32"
    and ms: "ms \<noteq> []" "length ms \<le> 2 ^ 29" "\<forall>p \<in> set (merge_pairs ms 0). length (fst (fst p)) < 2 ^ 32 \<and> length (snd (fst p)) < 2 ^ 32"
    and its: "its \<noteq> []" "length its < 2 ^ 31" "\<forall>p \<in> set (added_pairs its). length (fst (fst p)) < 2 ^ 32"
    and ids: "\<forall>i \<in> snd ` set (vocab_pairs kvs) \<union> (\<lambda>p. snd (fst p)) ` set (added_pairs its). 0 \<le> i \<and> i < 2 ^ 31 - 1"
    using good by (simp_all add: good_json_def)
  obtain a es vm b bk h1 where v: "load_vocab t (JObj kvs) h = Some (Inr (t\<lparr>tk_ventry_ptr := Some a, tk_ventry := es, tk_vmask := vm,
        tk_vbucket_ptr := Some b, tk_vbucket := bk\<rparr>, ?m, h1))" and c1: "calm h h1"
    and es: "map (\<lambda>e. (ve_str e, ve_id e)) es = vocab_pairs kvs" "\<forall>e \<in> set es. ve_ptr e \<noteq> None"
    and vget: "\<forall>t s. tk_ventry t = es \<longrightarrow> tk_vmask t = vm \<longrightarrow> tk_vbucket t = bk \<longrightarrow>
       vocab_get t s = Some (or_minus1 (map_of (vocab_pairs kvs) s))"
    using load_vocab_calm [OF h kvs, of t] by blast
  let ?t1 = "t\<lparr>tk_ventry_ptr := Some a, tk_ventry := es, tk_vmask := vm, tk_vbucket_ptr := Some b, tk_vbucket := bk\<rparr>"
  obtain c me mm d mk h2 where mg: "load_merges ?t1 (Some (JArr ms)) h1 = Some (Inr (?t1\<lparr>tk_mentry_ptr := Some c, tk_mentry := me,
        tk_mmask := mm, tk_mbucket_ptr := Some d, tk_mbucket := mk\<rparr>, h2))" and c2: "calm h1 h2"
    and mget: "\<forall>t x y. tk_mentry t = me \<longrightarrow> tk_mmask t = mm \<longrightarrow> tk_mbucket t = mk \<longrightarrow> tk_mbucket_ptr t = Some d \<longrightarrow>
       merge_rank t x y = Some (or_minus1 (map_of (merge_pairs ms 0) (x, y)))"
    using load_merges_calm [OF calm_host [OF c1] sizes_calm [OF c1 h(2)] ms, of ?t1] by blast
  let ?t2 = "?t1\<lparr>tk_mentry_ptr := Some c, tk_mentry := me, tk_mmask := mm, tk_mbucket_ptr := Some d, tk_mbucket := mk\<rparr>"
  obtain sp fp se h3 where ad: "load_added ?t2 (Some (JArr its)) ?m h2 = Inr (?t2\<lparr>tk_sentry_ptr := Some sp,
        tk_s_is_special_ptr := Some fp, tk_sentry := map fst (longest_first se), tk_s_is_special := map snd (longest_first se)\<rparr>, ?m2, h3)"
    and c3: "calm h2 h3" and se: "map (\<lambda>(e, f). (entry_pair e, f)) se = added_pairs its" "\<forall>e \<in> set se. ve_ptr (fst e) \<noteq> None"
    using load_added_calm [OF calm_host [OF c2] sizes_calm [OF calm_trans [OF c1 c2] h(2)] its, of ?t2 ?m] by blast
  let ?t3 = "?t2\<lparr>tk_sentry_ptr := Some sp, tk_s_is_special_ptr := Some fp, tk_sentry := map fst (longest_first se),
    tk_s_is_special := map snd (longest_first se)\<rparr>"
  have m2: "0 \<le> ?m2" "?m2 < 2 ^ 31 - 1"
    using order_trans [OF fold_max_ge(1) fold_max_ge(1)] ids by (auto intro!: fold_max_less)
  obtain x y h4 where ld: "load_ids ?t3 ?m2 h3 = Inr (?t3\<lparr>tk_id_to_token_ptr := Some x, tk_id_to_len_ptr := Some y, tk_id_to_token :=
      fold set_token (tk_sentry ?t3) (fold set_token (tk_ventry ?t3) (replicate (nat (?m2 + 1)) None))\<rparr>, h4)" and c4: "calm h3 h4"
    using load_ids_calm [OF calm_host [OF c3] m2, of ?t3] by blast
  let ?t4 = "?t3\<lparr>tk_id_to_token_ptr := Some x, tk_id_to_len_ptr := Some y, tk_id_to_token :=
      fold set_token (tk_sentry ?t3) (fold set_token (tk_ventry ?t3) (replicate (nat (?m2 + 1)) None))\<rparr>"
  have "load_tables root t h = Some (VV_OK, Some ?t4, h4)"
    unfolding load_tables_def Let_def md option.case option.sel v sum.case prod.case mg ad ld ..
  moreover have "calm h h4" by (rule calm_trans [OF c1 calm_trans [OF c2 calm_trans [OF c3 c4]]])
  moreover have "vocab_get ?t4 s = Some (or_minus1 (map_of (vocab_pairs kvs) s))" for s using vget by simp
  moreover have "merge_rank ?t4 a b = Some (or_minus1 (map_of (merge_pairs ms 0) (a, b)))" for a b using mget by simp
  moreover have "map entry_pair es = vocab_pairs kvs" using es(1) by (simp add: entry_pair_def [abs_def])
  ultimately show ?thesis using es(2) se
    by (intro exI [of _ ?t4] exI [of _ es] exI [of _ se] exI [of _ h4]) auto
qed

definition longer_eq :: "vocab_entry \<times> bool \<Rightarrow> vocab_entry \<times> bool \<Rightarrow> bool" where
  "longer_eq x y \<longleftrightarrow> length (ve_str (fst y)) \<le> length (ve_str (fst x))"

lemma insert_longest_split:
  "insert_longest x xs = rev (dropWhile (\<lambda>y. \<not> longer_eq y x) (rev xs)) @ x # rev (takeWhile (\<lambda>y. \<not> longer_eq y x) (rev xs))"
proof -
  let ?P = "\<lambda>y. \<not> longer_eq y x" let ?k = "length xs - length (takeWhile ?P (rev xs))"
  have P: "?P = (\<lambda>y. length (ve_str (fst y)) < length (ve_str (fst x)))" by (auto simp: longer_eq_def)
  have "xs = rev (dropWhile ?P (rev xs)) @ rev (takeWhile ?P (rev xs))" by (metis rev_append rev_rev_ident takeWhile_dropWhile_id)
  moreover have "length (rev (dropWhile ?P (rev xs))) = ?k"
    by (metis add_diff_cancel_left' length_append length_rev takeWhile_dropWhile_id)
  ultimately have "take ?k xs = rev (dropWhile ?P (rev xs))" "drop ?k xs = rev (takeWhile ?P (rev xs))"
    by (metis append_eq_conv_conj)+
  then show ?thesis by (simp add: insert_longest_def Let_def P)
qed

lemma insert_longest_sorted:
  assumes "sorted_wrt longer_eq xs"
  shows "sorted_wrt longer_eq (insert_longest x xs)"
proof -
  let ?P = "\<lambda>y. \<not> longer_eq y x"
  let ?a = "rev (dropWhile ?P (rev xs))" and ?b = "rev (takeWhile ?P (rev xs))"
  have xs: "xs = ?a @ ?b" by (metis rev_append rev_rev_ident takeWhile_dropWhile_id)
  have s: "sorted_wrt longer_eq ?a" "sorted_wrt longer_eq ?b" "\<forall>y \<in> set ?a. \<forall>z \<in> set ?b. longer_eq y z"
    using assms sorted_wrt_append [of longer_eq ?a ?b] unfolding xs [symmetric] by blast+
  have b: "longer_eq x z" if "z \<in> set ?b" for z
    using that set_takeWhileD [of z ?P "rev xs"] by (auto simp: longer_eq_def)
  have a: "longer_eq y x" if "y \<in> set ?a" for y
  proof (cases "dropWhile ?P (rev xs)")
    case Nil
    then show ?thesis using that by (simp only: rev.simps list.set empty_iff)
  next
    case (Cons w ws)
    then have w: "longer_eq w x" using hd_dropWhile [of ?P "rev xs"] by auto
    have "?a = rev ws @ [w]" using Cons by simp
    then have "longer_eq y w" using that s(1) by (auto simp: sorted_wrt_append longer_eq_def)
    with w show ?thesis by (simp add: longer_eq_def)
  qed
  have "sorted_wrt longer_eq (as @ x # bs)" if "sorted_wrt longer_eq as" "sorted_wrt longer_eq bs"
    "\<forall>y \<in> set as. \<forall>z \<in> set bs. longer_eq y z" "\<forall>y \<in> set as. longer_eq y x" "\<forall>z \<in> set bs. longer_eq x z" for as bs
    using that by (auto simp: sorted_wrt_append)
  from this [OF s] a b show ?thesis unfolding insert_longest_split by blast
qed

lemma longest_first_sorted: "sorted_wrt longer_eq (longest_first xs)"
proof -
  have "sorted_wrt longer_eq ys \<Longrightarrow> sorted_wrt longer_eq (fold insert_longest xs ys)" for ys
    by (induction xs arbitrary: ys) (auto intro: insert_longest_sorted)
  then show ?thesis by (simp add: longest_first_def)
qed

lemma zip_pairs: "zip (map f (map fst xs)) (map snd xs) = map (\<lambda>(e, b). (f e, b)) xs"
  by (induction xs) auto

lemma load_good:
  assumes host: "host_never_fails h" "sizes_ok h"
    and content: "fs (tokenizer_path d) = Some bs" "bs \<noteq> []" "length bs < 2 ^ 32" "json_parse bs = Some root"
    and good: "good_json root kvs ms its"
  shows "\<exists>t es se h'. vv_tokenizer_load fs json_parse (Some d) h = Some (VV_OK, Some t, h') \<and>
    host_never_fails h' \<and> (owns h M \<longrightarrow> \<not> h_bad h') \<and>
    (\<forall>s. vocab_get t s = Some (or_minus1 (map_of (vocab_pairs kvs) s))) \<and>
    (\<forall>a b. merge_rank t a b = Some (or_minus1 (map_of (merge_pairs ms 0) (a, b)))) \<and>
    map entry_pair es = vocab_pairs kvs \<and> map (\<lambda>(e, f). (entry_pair e, f)) se = added_pairs its \<and>
    (\<forall>e \<in> set es \<union> fst ` set se. ve_ptr e \<noteq> None) \<and>
    tk_sentry t = map fst (longest_first se) \<and> tk_s_is_special t = map snd (longest_first se) \<and>
    tk_id_to_token t = fold set_token (map fst (longest_first se)) (fold set_token es
      (replicate (nat (fold max (map (\<lambda>p. snd (fst p)) (added_pairs its)) (fold max (map snd (vocab_pairs kvs)) 0) + 1)) None))"
proof -
  obtain p h1 where v: "vv_alloc (of_nat (length bs) + 1) h = (Some p, h1)" and c1: "calm h h1"
    using calm_alloc [OF host(1) len_nonzero [OF content(3)]] .
  then have rd: "read_file (fs (tokenizer_path d)) h = (Some (p, bs), h1)" using content by (simp add: read_file_def)
  let ?h1 = "vv_free (Some p) h1"
  have f: "host_never_fails ?h1" "h_sizeof ?h1 = h_sizeof h"
    using c1 by (auto simp: vv_free_def calm_def host_never_fails_def Let_def)
  have "(Host, p) \<in> set (h_live h1)" using v by (auto simp: vv_alloc_def Let_def split: if_splits)
  then have bad: "h_bad ?h1 = h_bad h" using c1 by (simp add: vv_free_def calm_def Let_def)
  have nz: "h_sizeof ?h1 ''vv_tokenizer_t'' \<noteq> 0" using host(2) f(2) by (auto simp: sizes_ok_def)
  obtain q h2 where w: "vv_alloc (h_sizeof ?h1 ''vv_tokenizer_t'') ?h1 = (Some q, h2)"
    and c2: "calm ?h1 h2" using calm_alloc [OF f(1) nz] .
  have h2: "host_never_fails h2" "sizes_ok h2" using c2 f host(2) by (auto simp: calm_def sizes_ok_def)
  have ld: "vv_tokenizer_load fs json_parse (Some d) h = load_tables root (empty_tokenizer q) h2"
    using rd content(4) w by (simp add: vv_tokenizer_load_def Let_def)
  have "host_never_fails h' \<and> (owns h M \<longrightarrow> \<not> h_bad h')" if "calm h2 h'" for h'
    using that c2 bad by (simp add: calm_def owns_def)
  then show ?thesis unfolding ld using load_tables_good [OF h2 good, of "empty_tokenizer q"] by meson
qed

text \<open>
  C29. The loaded tables mean what the file says, and every search ends. For a good \<^verbatim>\<open>tokenizer.json\<close> and a host with
  memory, the load succeeds; afterwards \<^verbatim>\<open>vocab_get\<close> and \<^verbatim>\<open>merge_rank\<close>, which walk the open-addressed buckets until an empty
  one, return for every key the value of its first entry in the file, or \<^verbatim>\<open>-1\<close>; and the added tokens are those of the file, in
  the order the greedy match needs, the longest first.
\<close>

theorem tokenizer_tables_refine_json:
  assumes host: "host_never_fails h" "sizes_ok h"
    and content: "fs (tokenizer_path d) = Some bs" "bs \<noteq> []" "length bs < 2 ^ 32" "json_parse bs = Some root"
    and good: "good_json root kvs ms its"
  shows "\<exists>t h'. vv_tokenizer_load fs json_parse (Some d) h = Some (VV_OK, Some t, h') \<and>
    (\<forall>s. vocab_get t s = Some (case map_of (vocab_pairs kvs) s of None \<Rightarrow> - 1 | Some i \<Rightarrow> i)) \<and>
    (\<forall>a b. merge_rank t a b = Some (case map_of (merge_pairs ms 0) (a, b) of None \<Rightarrow> - 1 | Some i \<Rightarrow> i)) \<and>
    mset (zip (map entry_pair (tk_sentry t)) (tk_s_is_special t)) = mset (added_pairs its) \<and>
    sorted_wrt (\<lambda>x y. length (ve_str y) \<le> length (ve_str x)) (tk_sentry t)"
proof -
  obtain t es se h' where ld: "vv_tokenizer_load fs json_parse (Some d) h = Some (VV_OK, Some t, h')" and t:
    "\<forall>s. vocab_get t s = Some (or_minus1 (map_of (vocab_pairs kvs) s))"
    "\<forall>a b. merge_rank t a b = Some (or_minus1 (map_of (merge_pairs ms 0) (a, b)))"
    "map (\<lambda>(e, f). (entry_pair e, f)) se = added_pairs its"
    "tk_sentry t = map fst (longest_first se)" "tk_s_is_special t = map snd (longest_first se)"
    using load_good [where M = "{#}" and fs = fs and json_parse = json_parse and d = d and bs = bs, OF host content good] by blast
  have "zip (map entry_pair (tk_sentry t)) (tk_s_is_special t) = map (\<lambda>(e, f). (entry_pair e, f)) (longest_first se)"
    unfolding t(4,5) by (rule zip_pairs)
  then have "mset (zip (map entry_pair (tk_sentry t)) (tk_s_is_special t)) = mset (added_pairs its)"
    using t(3) mset_longest_first [of se] by (metis mset_map)
  moreover have "sorted_wrt (\<lambda>x y. length (ve_str y) \<le> length (ve_str x)) (tk_sentry t)"
    using longest_first_sorted [of se] unfolding t(4) by (simp add: sorted_wrt_map longer_eq_def [abs_def])
  ultimately show ?thesis using ld t(1,2) by (auto simp: or_minus1_def)
qed

definition demo_tok_json :: json where
  "demo_tok_json = JObj
     [(''added_tokens'', JArr [JObj [(''id'', JNum 3), (''content'', JStr ''<s>''), (''special'', JBool True)]]),
      (''model'', JObj [(''vocab'', JObj [(''a'', JNum 0), (''b'', JNum 1), (''ab'', JNum 2)]), (''merges'', JArr [JStr ''a b''])])]"

definition demo_fs :: "string \<Rightarrow> bytes option" where
  "demo_fs p = (if p = ''m/tokenizer.json'' then Some [123, 125] else None)"

definition demo_tok_heap :: heap where
  "demo_tok_heap = \<lparr>h_next = 0, h_live = [], h_size = (\<lambda>_. 0), h_raw = (\<lambda>_. 0), h_total = 0, h_bad = False,
     h_malloc = (\<lambda>_ _. True), h_dev = (\<lambda>_ _. VV_OK), h_sizeof = (\<lambda>_. 64)\<rparr>"

lemma demo_tok_heap_ok: "host_never_fails demo_tok_heap" "sizes_ok demo_tok_heap" "owns demo_tok_heap {#}"
  by (simp_all add: demo_tok_heap_def host_never_fails_def sizes_ok_def owns_def)

lemma demo_file: "demo_fs (tokenizer_path ''m'') = Some [123, 125]"
  by (simp add: demo_fs_def tokenizer_path_def)

abbreviation demo_vocab :: "(string \<times> json) list" where
  "demo_vocab \<equiv> [(''a'', JNum 0), (''b'', JNum 1), (''ab'', JNum 2)]"

abbreviation demo_added :: "json list" where
  "demo_added \<equiv> [JObj [(''id'', JNum 3), (''content'', JStr ''<s>''), (''special'', JBool True)]]"

lemma demo_pairs:
  "vocab_pairs demo_vocab = [([97], 0), ([98], 1), ([97, 98], 2)]" "merge_pairs [JStr ''a b''] 0 = [(([97], [98]), 0)]"
  "added_pairs demo_added = [(([60, 115, 62], 3), True)]"
  by (simp_all add: vocab_pairs_def ascii_def json_number_def merge_sides_def json_get_def ascii_lower_def)

lemma demo_json_good: "good_json demo_tok_json demo_vocab [JStr ''a b''] demo_added"
  unfolding good_json_def demo_pairs by (simp add: demo_tok_json_def json_get_def ascii_lower_def)

theorem tokenizer_tables_refine_json_witness:
  "\<exists>t h'. vv_tokenizer_load demo_fs (\<lambda>_. Some demo_tok_json) (Some ''m'') demo_tok_heap = Some (VV_OK, Some t, h') \<and>
    vocab_get t (ascii ''ab'') = Some 2 \<and> vocab_get t (ascii ''c'') = Some (- 1) \<and>
    merge_rank t (ascii ''a'') (ascii ''b'') = Some 0"
  using tokenizer_tables_refine_json [where fs = demo_fs and d = "''m''" and bs = "[123, 125]" and json_parse = "\<lambda>_. Some demo_tok_json",
    OF demo_tok_heap_ok(1,2) demo_file _ _ refl demo_json_good]
  unfolding demo_pairs by (auto simp: ascii_def)

theorem tokenizer_load_no_leak_witness:
  "\<exists>t h'. vv_tokenizer_load demo_fs (\<lambda>_. Some demo_tok_json) (Some ''m'') demo_tok_heap = Some (VV_OK, Some t, h') \<and>
    owns h' (tok_blocks t + {#}) \<and> owns (snd (vv_tokenizer_free (Some t) h')) {#}"
proof -
  obtain t h' where ld: "vv_tokenizer_load demo_fs (\<lambda>_. Some demo_tok_json) (Some ''m'') demo_tok_heap = Some (VV_OK, Some t, h')"
    and "\<not> h_bad h'"
    using load_good [where fs = demo_fs and d = "''m''" and bs = "[123, 125]" and json_parse = "\<lambda>_. Some demo_tok_json" and M = "{#}",
      OF demo_tok_heap_ok(1,2) demo_file _ _ refl demo_json_good]
      demo_tok_heap_ok(3) by auto
  from tokenizer_load_no_leak [OF demo_tok_heap_ok(3) ld this(2)] ld show ?thesis by auto
qed


text \<open>
  An empty list of added tokens is a request for 0 bytes, which \<^verbatim>\<open>vv_alloc\<close> refuses: the loader jumps to \<^verbatim>\<open>oom\<close> although
  nothing failed. The same happens to an empty list of merges.
\<close>

lemma empty_added_is_oom: "\<exists>t' h'. load_added t (Some (JArr [])) m h = Inl (t', h')"
  by (simp add: load_added_def json_children_def vv_alloc_def)

lemma empty_merges_is_oom: "load_merges t (Some (JArr [])) h = Some (Inl (t, h))"
  by (simp add: load_merges_def json_children_def vv_alloc_def)

end
