(* ===== verification/Bpe.thy ===== *)
theory Bpe
  imports Tokenizer
begin

unbundle bit_operations_syntax

text \<open>
  Encoding and decoding text (\<^verbatim>\<open>src/text_tokenizer/bpe.c\<close>, second part): the pre-tokenizer \<open>next_piece\<close>, byte-pair
  merging of one piece, \<open>vv_tokenizer_encode\<close> with its growing buffer of ids, and decoding. A text is the list of its
  bytes (without the terminating NUL) and a position is a natural number: the code's 32-bit \<^verbatim>\<open>sym_t\<close> is exact for
  texts below 2 GiB; so are the \<^verbatim>\<open>int\<close> capacities of the buffer of ids, which stay below \<open>2 ^ 31\<close> for fewer
  than \<open>2 ^ 29\<close> ids. \<open>None\<close> is a function that does not return.
\<close>

subsection \<open>The pre-tokenizer\<close>

text \<open>\<^verbatim>\<open>while (q < len) { ... if (!P) break; q += a; }\<close>\<close>

function scan_while :: "(u32 \<Rightarrow> bool) \<Rightarrow> bytes \<Rightarrow> nat \<Rightarrow> nat" where
  "scan_while P s q =
     (if q < length s then let (a, c) = utf8_get (drop q s) in if P c then scan_while P s (q + a) else q else q)"
  by auto
termination
proof (relation "measure (\<lambda>(P, s, q). length s - q)", goal_cases)
  case 1
  show ?case by simp
next
  case (2 P s q x a c)
  then show ?case using utf8_get_adv [of "drop q s"] by (cases "utf8_get (drop q s)") auto
qed

function skip_newlines :: "bytes \<Rightarrow> nat \<Rightarrow> nat" where
  "skip_newlines s q = (if q < length s \<and> (s ! q = 13 \<or> s ! q = 10) then skip_newlines s (q + 1) else q)"
  by auto
termination by (relation "measure (\<lambda>(s, q). length s - q)") auto

text \<open>The run of white space from \<open>end\<close> on, with the position of the last line break in it.\<close>

function space_run :: "bytes \<Rightarrow> nat \<Rightarrow> nat option \<Rightarrow> nat \<times> nat option" where
  "space_run s end last_nl =
     (if end < length s then
        let (a, c) = utf8_get (drop end s) in
        if \<not> cp_is_space c then (end, last_nl)
        else space_run s (end + a) (if c = 13 \<or> c = 10 then Some end else last_nl)
      else (end, last_nl))"
  by auto
termination
proof (relation "measure (\<lambda>(s, e, nl). length s - e)", goal_cases)
  case 1
  show ?case by simp
next
  case (2 s e nl x a c)
  then show ?case using utf8_get_adv [of "drop e s"] by (cases "utf8_get (drop e s)") auto
qed

declare scan_while.simps [simp del] skip_newlines.simps [simp del] space_run.simps [simp del]

definition contraction :: "bytes \<Rightarrow> u32 \<Rightarrow> nat option" where
  "contraction s cp =
     (if cp = 39 \<and> 2 \<le> length s then
        let c1 = s ! 1 OR 0x20 in
        if c1 = 115 \<or> c1 = 116 \<or> c1 = 109 \<or> c1 = 100 then Some 2
        else if 3 \<le> length s then
          let c2 = s ! 2 OR 0x20 in
          if c1 = 114 \<and> c2 = 101 \<or> c1 = 118 \<and> c2 = 101 \<or> c1 = 108 \<and> c2 = 108 then Some 3 else None
        else None
      else None)"

definition next_piece :: "bytes \<Rightarrow> nat" where
  "next_piece s =
     (let (adv, cp) = utf8_get s in
      case contraction s cp of
        Some n \<Rightarrow> n
      | None \<Rightarrow>
          let p = (if cp \<noteq> 13 \<and> cp \<noteq> 10 \<and> \<not> cp_is_letter cp \<and> \<not> cp_is_digit cp then adv else 0);
              q = scan_while cp_is_letter s p
          in if p < q then q
             else if cp_is_digit cp then adv
             else
               let p = (if cp = 32 then 1 else 0);
                   q = scan_while (\<lambda>c. \<not> (cp_is_space c \<or> cp_is_letter c \<or> cp_is_digit c)) s p
               in if p < q then skip_newlines s q
                  else if cp_is_space cp then
                    (case space_run s 0 None of
                       (end, Some last_nl) \<Rightarrow> last_nl + 1
                     | (end, None) \<Rightarrow> if length s \<le> end then end else if 2 \<le> end then end - 1 else end)
                  else adv)"

subsection \<open>Merging one piece\<close>

text \<open>A symbol is its start and its length in the buffer.\<close>

type_synonym sym = "nat \<times> nat"

definition sym_str :: "bytes \<Rightarrow> sym \<Rightarrow> bytes" where
  "sym_str buf y = take (snd y) (drop (fst y) buf)"

function first_syms :: "bytes \<Rightarrow> nat \<Rightarrow> sym list" where
  "first_syms buf p =
     (if p < length buf then let (a, cp) = utf8_get (drop p buf) in (p, a) # first_syms buf (p + a) else [])"
  by auto
termination
proof (relation "measure (\<lambda>(buf, p). length buf - p)", goal_cases)
  case 1
  show ?case by simp
next
  case (2 buf p x a cp)
  then show ?case using utf8_get_adv [of "drop p buf"] by (cases "utf8_get (drop p buf)") auto
qed

declare first_syms.simps [simp del]

text \<open>The search for the best pair: its rank and index so far, from the pair \<open>i\<close> on.\<close>

function best_pair :: "tokenizer \<Rightarrow> bytes \<Rightarrow> sym list \<Rightarrow> nat \<Rightarrow> int \<times> nat option \<Rightarrow> (int \<times> nat option) option" where
  "best_pair t buf ys i best =
     (if i + 1 < length ys then
        (case merge_rank t (sym_str buf (ys ! i)) (sym_str buf (ys ! (i + 1))) of
           None \<Rightarrow> None
         | Some r \<Rightarrow> best_pair t buf ys (i + 1) (if 0 \<le> r \<and> (fst best < 0 \<or> r < fst best) then (r, Some i) else best))
      else Some best)"
  by auto
termination by (relation "measure (\<lambda>(t, buf, ys, i, best). length ys - i)") auto

declare best_pair.simps [simp del]

lemma best_pair_less:
  "best_pair t buf ys i best = Some (r, Some k) \<Longrightarrow> (\<And>k. snd best = Some k \<Longrightarrow> k + 1 < length ys) \<Longrightarrow> k + 1 < length ys"
proof (induction t buf ys i best rule: best_pair.induct)
  case (1 t buf ys i best)
  show ?case
  proof (cases "i + 1 < length ys")
    case True
    then obtain q where q: "merge_rank t (sym_str buf (ys ! i)) (sym_str buf (ys ! (i + 1))) = Some q"
      using "1.prems"(1) by (subst (asm) best_pair.simps) (auto split: option.splits)
    then have "best_pair t buf ys i best =
        best_pair t buf ys (i + 1) (if 0 \<le> q \<and> (fst best < 0 \<or> q < fst best) then (q, Some i) else best)"
      using True by (subst best_pair.simps) simp
    then show ?thesis using "1.IH" [OF True q] "1.prems" True by (auto split: if_splits)
  next
    case False
    then show ?thesis using "1.prems" by (subst (asm) best_pair.simps) (auto split: if_splits)
  qed
qed

text \<open>Symbols \<open>k\<close> and \<open>k + 1\<close> become one.\<close>

definition merge_at :: "nat \<Rightarrow> sym list \<Rightarrow> sym list" where
  "merge_at k ys = take k ys @ (fst (ys ! k), snd (ys ! k) + snd (ys ! (k + 1))) # drop (k + 2) ys"

function bpe_merge :: "tokenizer \<Rightarrow> bytes \<Rightarrow> sym list \<Rightarrow> sym list option" where
  "bpe_merge t buf ys =
     (if 1 < length ys then
        (case best_pair t buf ys 0 (- 1, None) of
           None \<Rightarrow> None
         | Some (r, None) \<Rightarrow> Some ys
         | Some (r, Some k) \<Rightarrow> bpe_merge t buf (merge_at k ys))
      else Some ys)"
  by auto
termination
proof (relation "measure (\<lambda>(t, buf, ys). length ys)", goal_cases)
  case 1
  show ?case by simp
next
  case (2 t buf ys b r k k')
  then show ?case using best_pair_less [of t buf ys 0 "(- 1, None)" r k'] by (auto simp: merge_at_def)
qed

declare bpe_merge.simps [simp del]


subsection \<open>The buffer of ids\<close>

record idbuf =
  ib_ptr :: nat
  ib_ids :: "int list"
  ib_cap :: int

text \<open>Append an id, growing first when the buffer is full; nothing changes when that fails.\<close>

definition push_id :: "int \<Rightarrow> idbuf \<Rightarrow> heap \<Rightarrow> idbuf option \<times> heap" where
  "push_id x ib h =
     (if ib_cap ib \<le> int (length (ib_ids ib)) then
        let nc = ib_cap ib * 2 + 64 in
        (case vv_alloc (of_int nc * 4) h of
           (None, h) \<Rightarrow> (None, h)
         | (Some np, h) \<Rightarrow> (Some \<lparr>ib_ptr = np, ib_ids = ib_ids ib @ [x], ib_cap = nc\<rparr>, vv_free (Some (ib_ptr ib)) h))
      else (Some (ib\<lparr>ib_ids := ib_ids ib @ [x]\<rparr>), h))"

fun emit_ids :: "tokenizer \<Rightarrow> bytes list \<Rightarrow> idbuf \<Rightarrow> heap \<Rightarrow> (vv_status \<times> idbuf \<times> heap) option" where
  "emit_ids t [] ib h = Some (VV_OK, ib, h)"
| "emit_ids t (s # ss) ib h =
     (case vocab_get t s of
        None \<Rightarrow> None
      | Some x \<Rightarrow>
          if x < 0 then emit_ids t ss ib h
          else (case push_id x ib h of
                  (None, h) \<Rightarrow> Some (VV_ERR_OUT_OF_MEMORY, ib, h)
                | (Some ib, h) \<Rightarrow> emit_ids t ss ib h))"

definition bpe_piece :: "tokenizer \<Rightarrow> bytes \<Rightarrow> idbuf \<Rightarrow> heap \<Rightarrow> (vv_status \<times> idbuf \<times> heap) option" where
  "bpe_piece t buf ib h =
     (case vv_alloc ((of_nat (length buf) + 1) * 8) h of
        (None, h) \<Rightarrow> Some (VV_ERR_OUT_OF_MEMORY, ib, h)
      | (Some a, h) \<Rightarrow>
          (case bpe_merge t buf (first_syms buf 0) of
             None \<Rightarrow> None
           | Some ys \<Rightarrow>
               (case emit_ids t (map (sym_str buf) ys) ib h of
                  None \<Rightarrow> None
                | Some (s, ib, h) \<Rightarrow> Some (s, ib, vv_free (Some a) h))))"

subsection \<open>Encoding\<close>

text \<open>The pieces of a text, one after the other.\<close>

definition piece_len :: "bytes \<Rightarrow> nat" where
  "piece_len s = (if next_piece s = 0 then 1 else next_piece s)"

function run_pieces :: "tokenizer \<Rightarrow> bytes \<Rightarrow> idbuf \<Rightarrow> heap \<Rightarrow> (vv_status \<times> idbuf \<times> heap) option" where
  "run_pieces t s ib h =
     (if s = [] then Some (VV_OK, ib, h)
      else
        (case bpe_piece t (enc_bytes (take (piece_len s) s)) ib h of
           None \<Rightarrow> None
         | Some (st, ib, h) \<Rightarrow> if st \<noteq> VV_OK then Some (st, ib, h) else run_pieces t (drop (piece_len s) s) ib h))"
  by auto
termination by (relation "measure (\<lambda>(t, s, ib, h). length s)") (auto simp: piece_len_def)

declare run_pieces.simps [simp del]

definition encode_text_run :: "tokenizer \<Rightarrow> bytes \<Rightarrow> idbuf \<Rightarrow> heap \<Rightarrow> (vv_status \<times> idbuf \<times> heap) option" where
  "encode_text_run t s ib h =
     (case vv_alloc (of_nat (length s) * 2 + 8) h of
        (None, h) \<Rightarrow> Some (VV_ERR_OUT_OF_MEMORY, ib, h)
      | (Some enc, h) \<Rightarrow>
          (case run_pieces t s ib h of
             None \<Rightarrow> None
           | Some (st, ib, h) \<Rightarrow> Some (st, ib, vv_free (Some enc) h)))"

text \<open>The first added token the rest of the text starts with; a token whose copy is NULL is compared through it.\<close>

fun special_hit :: "vocab_entry list \<Rightarrow> bytes \<Rightarrow> vocab_entry option option" where
  "special_hit [] s = Some None"
| "special_hit (e # es) s =
     (if length (ve_str e) \<le> length s then
        if ve_ptr e = None \<and> ve_str e \<noteq> [] then None
        else if take (length (ve_str e)) s = ve_str e then Some (Some e)
        else special_hit es s
      else special_hit es s)"

partial_function (option) encode_loop ::
  "tokenizer \<Rightarrow> bytes \<Rightarrow> nat \<Rightarrow> nat \<Rightarrow> idbuf \<Rightarrow> heap \<Rightarrow> (vv_status \<times> nat \<times> idbuf \<times> heap) option" where
  "encode_loop t text pos run_start ib h =
     (if pos < length text then
        (case (if text ! pos = 60 then special_hit (tk_sentry t) (drop pos text) else Some None) of
           None \<Rightarrow> None
         | Some None \<Rightarrow> encode_loop t text (pos + 1) run_start ib h
         | Some (Some e) \<Rightarrow>
             (case (if run_start < pos then encode_text_run t (take (pos - run_start) (drop run_start text)) ib h
                    else Some (VV_OK, ib, h)) of
                None \<Rightarrow> None
              | Some (st, ib, h) \<Rightarrow>
                  if st \<noteq> VV_OK then Some (st, run_start, ib, h)
                  else
                    (case push_id (ve_id e) ib h of
                       (None, h) \<Rightarrow> Some (VV_ERR_OUT_OF_MEMORY, run_start, ib, h)
                     | (Some ib, h) \<Rightarrow>
                         encode_loop t text (pos + length (ve_str e)) (pos + length (ve_str e)) ib h)))
      else Some (VV_OK, run_start, ib, h))"

definition vv_tokenizer_encode :: "tokenizer option \<Rightarrow> bytes option \<Rightarrow> heap \<Rightarrow>
    (vv_status \<times> (nat \<times> int list) option \<times> heap) option" where
  "vv_tokenizer_encode tk text h =
     (case (tk, text) of
        (Some t, Some text) \<Rightarrow>
          let len = length text; cap = int len div 2 + 32 in
          (case vv_alloc (of_int cap * 4) h of
             (None, h) \<Rightarrow> Some (VV_ERR_OUT_OF_MEMORY, None, h)
           | (Some a, h) \<Rightarrow>
               (case encode_loop t text 0 0 \<lparr>ib_ptr = a, ib_ids = [], ib_cap = cap\<rparr> h of
                  None \<Rightarrow> None
                | Some (st, run_start, ib, h) \<Rightarrow>
                    if st \<noteq> VV_OK then Some (st, None, vv_free (Some (ib_ptr ib)) h)
                    else
                      (case (if run_start < len then encode_text_run t (drop run_start text) ib h else Some (VV_OK, ib, h)) of
                         None \<Rightarrow> None
                       | Some (st, ib, h) \<Rightarrow>
                           if st \<noteq> VV_OK then Some (st, None, vv_free (Some (ib_ptr ib)) h)
                           else Some (VV_OK, Some (ib_ptr ib, ib_ids ib), h))))
      | _ \<Rightarrow> Some (VV_ERR_NULL_PTR, None, h))"

subsection \<open>Decoding\<close>

definition token_of :: "tokenizer \<Rightarrow> int \<Rightarrow> bytes option" where
  "token_of t i = (if i < 0 \<or> id_capacity t \<le> i then None else tk_id_to_token t ! nat i)"

definition decode_bound :: "tokenizer \<Rightarrow> int list \<Rightarrow> nat" where
  "decode_bound t ids = sum_list (map (\<lambda>i. case token_of t i of None \<Rightarrow> 0 | Some s \<Rightarrow> length s) ids)"

text \<open>Whether an id is an added token, and whether that token is special.\<close>

definition added_flag :: "tokenizer \<Rightarrow> int \<Rightarrow> bool option" where
  "added_flag t i = map_option snd (find (\<lambda>(e, f). ve_id e = i) (zip (tk_sentry t) (tk_s_is_special t)))"

definition decode_token :: "tokenizer \<Rightarrow> bool \<Rightarrow> int \<Rightarrow> bytes" where
  "decode_token t skip_special i =
     (case token_of t i of
        None \<Rightarrow> []
      | Some s \<Rightarrow>
          (case added_flag t i of
             Some spec \<Rightarrow> if skip_special \<and> spec then [] else s
           | None \<Rightarrow> dec_bytes s))"

definition decode_write :: "tokenizer \<Rightarrow> int list \<Rightarrow> bool \<Rightarrow> bytes" where
  "decode_write t ids skip_special = concat (map (decode_token t skip_special) ids)"

text \<open>Writing past the buffer sets \<open>h_bad\<close>.\<close>

definition vv_tokenizer_decode_ex :: "tokenizer option \<Rightarrow> int list option \<Rightarrow> bool \<Rightarrow> heap \<Rightarrow>
    vv_status \<times> (nat \<times> bytes) option \<times> heap" where
  "vv_tokenizer_decode_ex tk ids skip_special h =
     (case (tk, ids) of
        (Some t, Some ids) \<Rightarrow>
          let total = decode_bound t ids + 1 in
          (case vv_alloc (of_nat total + 1) h of
             (None, h) \<Rightarrow> (VV_ERR_OUT_OF_MEMORY, None, h)
           | (Some a, h) \<Rightarrow>
               let res = decode_write t ids skip_special;
                   h = (if total + 1 < length res + 1 then h\<lparr>h_bad := True\<rparr> else h)
               in (VV_OK, Some (a, res), h))
      | _ \<Rightarrow> (VV_ERR_NULL_PTR, None, h))"

definition vv_tokenizer_decode :: "tokenizer option \<Rightarrow> int list option \<Rightarrow> heap \<Rightarrow> vv_status \<times> (nat \<times> bytes) option \<times> heap" where
  "vv_tokenizer_decode tk ids h = vv_tokenizer_decode_ex tk ids False h"

text \<open>\<^verbatim>\<open>vv_tokenizer_decode_into\<close> a buffer of \<open>cap\<close> bytes (\<open>buf\<close>: not NULL).\<close>

definition vv_tokenizer_decode_into :: "tokenizer option \<Rightarrow> int list option \<Rightarrow> bool \<Rightarrow> bool \<Rightarrow> nat \<Rightarrow> heap \<Rightarrow>
    vv_status \<times> bytes option \<times> heap" where
  "vv_tokenizer_decode_into tk ids skip_special buf cap h =
     (case (tk, ids) of
        (Some t, Some ids) \<Rightarrow>
          if cap \<noteq> 0 \<and> \<not> buf then (VV_ERR_NULL_PTR, None, h)
          else if cap < decode_bound t ids then (VV_ERR_OVERFLOW, None, h)
          else
            let res = decode_write t ids skip_special;
                h = (if cap < length res then h\<lparr>h_bad := True\<rparr> else h)
            in (VV_OK, Some res, h)
      | _ \<Rightarrow> (VV_ERR_NULL_PTR, None, h))"

subsection \<open>Lookups\<close>

definition vv_tokenizer_special_id :: "tokenizer option \<Rightarrow> bytes option \<Rightarrow> int option" where
  "vv_tokenizer_special_id tk name =
     (case (tk, name) of
        (Some t, Some s) \<Rightarrow>
          (case find (\<lambda>e. length (ve_str e) = length s \<and> ve_str e = s) (tk_sentry t) of
             Some e \<Rightarrow> Some (ve_id e)
           | None \<Rightarrow> vocab_get t s)
      | _ \<Rightarrow> Some (- 1))"

definition vv_tokenizer_id_to_token :: "tokenizer option \<Rightarrow> int \<Rightarrow> bytes option" where
  "vv_tokenizer_id_to_token tk i = (case tk of None \<Rightarrow> None | Some t \<Rightarrow> token_of t i)"

definition vv_tokenizer_vocab_size :: "tokenizer option \<Rightarrow> int" where
  "vv_tokenizer_vocab_size tk = (case tk of None \<Rightarrow> 0 | Some t \<Rightarrow> int (length (tk_ventry t) + length (tk_sentry t)))"

subsection \<open>Pieces partition the text\<close>

lemma scan_while_bounds: "q \<le> length s \<Longrightarrow> q \<le> scan_while P s q \<and> scan_while P s q \<le> length s"
proof (induction P s q rule: scan_while.induct)
  case (1 P s q)
  obtain a c where ac: "utf8_get (drop q s) = (a, c)" by (cases "utf8_get (drop q s)")
  show ?case
  proof (cases "q < length s \<and> P c")
    case True
    then have "q + a \<le> length s" using utf8_get_adv [of "drop q s"] ac by auto
    then have "q + a \<le> scan_while P s (q + a) \<and> scan_while P s (q + a) \<le> length s"
      using True by (intro "1.IH" [of "(a, c)"]) (auto simp: ac)
    moreover have "scan_while P s q = scan_while P s (q + a)" using True ac by (subst scan_while.simps) simp
    ultimately show ?thesis by simp
  next
    case False
    then show ?thesis using "1.prems" ac by (subst (1 2) scan_while.simps) auto
  qed
qed

lemma skip_newlines_bounds: "q \<le> length s \<Longrightarrow> q \<le> skip_newlines s q \<and> skip_newlines s q \<le> length s"
proof (induction s q rule: skip_newlines.induct)
  case (1 s q)
  then show ?case by (subst (1 2) skip_newlines.simps) auto
qed

lemma space_run_bounds:
  "e \<le> length s \<Longrightarrow> (\<And>n. nl = Some n \<Longrightarrow> n < e) \<Longrightarrow> space_run s e nl = (e', nl') \<Longrightarrow>
   e \<le> e' \<and> e' \<le> length s \<and> (\<forall>n. nl' = Some n \<longrightarrow> n < e')"
proof (induction s e nl rule: space_run.induct)
  case (1 s e nl)
  obtain a c where ac: "utf8_get (drop e s) = (a, c)" by (cases "utf8_get (drop e s)")
  show ?case
  proof (cases "e < length s \<and> cp_is_space c")
    case True
    then have adv: "1 \<le> a" "e + a \<le> length s" using utf8_get_adv [of "drop e s"] ac by auto
    let ?nl = "if c = 13 \<or> c = 10 then Some e else nl"
    have "space_run s e nl = space_run s (e + a) ?nl" using True ac by (subst space_run.simps) simp
    moreover have "\<And>n. ?nl = Some n \<Longrightarrow> n < e + a" using "1.prems"(2) adv by (fastforce split: if_splits)
    ultimately show ?thesis using "1.IH" [of "(a, c)" a c] True ac adv "1.prems"(3) by simp
  next
    case False
    then show ?thesis using "1.prems" ac by (subst (asm) space_run.simps) (auto split: if_splits)
  qed
qed

lemma contraction_bounds: "contraction s cp = Some n \<Longrightarrow> 1 \<le> n \<and> n \<le> length s"
  by (auto simp: contraction_def Let_def split: if_splits)

lemma space_run_start:
  assumes "s \<noteq> []" and "cp_is_space (snd (utf8_get s))" and "space_run s 0 None = (e, nl)"
  shows "1 \<le> e \<and> e \<le> length s \<and> (\<forall>n. nl = Some n \<longrightarrow> n < e)"
proof -
  obtain a c where ac: "utf8_get s = (a, c)" by (cases "utf8_get s")
  have "space_run s 0 None = space_run s a (if c = 13 \<or> c = 10 then Some 0 else None)"
    using assms ac by (subst space_run.simps) simp
  then show ?thesis
    using space_run_bounds [of a s "if c = 13 \<or> c = 10 then Some 0 else None" e nl] utf8_get_adv [OF assms(1)] assms(3) ac
    by (auto split: if_splits)
qed

lemma next_piece_bounds:
  assumes "s \<noteq> []"
  shows "1 \<le> next_piece s \<and> next_piece s \<le> length s"
proof -
  obtain adv cp where ac: "utf8_get s = (adv, cp)" by (cases "utf8_get s")
  have adv: "1 \<le> adv" "adv \<le> length s" using utf8_get_adv [OF assms] ac by auto
  have scan: "p \<le> length s \<Longrightarrow> p \<le> scan_while P s p \<and> scan_while P s p \<le> length s" for P p by (rule scan_while_bounds)
  let ?p = "if cp \<noteq> 13 \<and> cp \<noteq> 10 \<and> \<not> cp_is_letter cp \<and> \<not> cp_is_digit cp then adv else 0"
  let ?q = "scan_while cp_is_letter s ?p"
  let ?p2 = "if cp = 32 then 1 else 0 :: nat"
  let ?q2 = "scan_while (\<lambda>c. \<not> (cp_is_space c \<or> cp_is_letter c \<or> cp_is_digit c)) s ?p2"
  have p: "?p \<le> length s" "?p2 \<le> length s" using adv assms by (auto simp: Suc_le_eq)
  consider (con) n where "contraction s cp = Some n" "next_piece s = n"
    | (letters) "?p < ?q" "next_piece s = ?q"
    | (one) "next_piece s = adv"
    | (syms) "?p2 < ?q2" "next_piece s = skip_newlines s ?q2"
    | (space) e nl where "cp_is_space cp" "space_run s 0 None = (e, nl)"
        "next_piece s = (case nl of Some n \<Rightarrow> n + 1 | None \<Rightarrow> if length s \<le> e then e else if 2 \<le> e then e - 1 else e)"
    unfolding next_piece_def ac prod.case Let_def
    by (cases "contraction s cp"; cases "?p < ?q"; cases "cp_is_digit cp"; cases "?p2 < ?q2"; cases "cp_is_space cp";
        cases "space_run s 0 None") (auto split: option.splits)
  then show ?thesis
  proof cases
    case con
    then show ?thesis using contraction_bounds by auto
  next
    case letters
    then show ?thesis using scan [OF p(1), of cp_is_letter] by linarith
  next
    case one
    then show ?thesis using adv by simp
  next
    case syms
    have "?q2 \<le> length s" using scan [OF p(2)] by simp
    then show ?thesis using syms skip_newlines_bounds [of ?q2 s] by linarith
  next
    case space
    then show ?thesis using space_run_start [OF assms _ space(2)] ac by (auto split: option.splits)
  qed
qed

lemma piece_len_bounds: "s \<noteq> [] \<Longrightarrow> 1 \<le> piece_len s \<and> piece_len s \<le> length s"
  using next_piece_bounds [of s] by (simp add: piece_len_def)

text \<open>The pieces, as a list.\<close>

function pieces :: "bytes \<Rightarrow> bytes list" where
  "pieces s = (if s = [] then [] else take (piece_len s) s # pieces (drop (piece_len s) s))"
  by auto
termination by (relation "measure length") (auto simp: piece_len_def)

declare pieces.simps [simp del]

lemma pieces_Nil [simp]: "pieces [] = []"
  by (subst pieces.simps) simp

lemma concat_pieces: "concat (pieces s) = s"
proof (induction s rule: pieces.induct)
  case (1 s)
  then show ?case by (subst pieces.simps) auto
qed

lemma pieces_nonempty: "p \<in> set (pieces s) \<Longrightarrow> p \<noteq> []"
proof (induction s rule: pieces.induct)
  case (1 s)
  then show ?case using piece_len_bounds [of s] by (subst (asm) (2) pieces.simps) (auto split: if_splits)
qed


text \<open>
  The pre-tokenizer loses nothing and always advances. Cutting a text with \<^verbatim>\<open>next_piece\<close> again and again yields
  pieces that are not empty and whose concatenation is the text: the length is never 0 and never runs past the end, for
  any bytes, valid UTF-8 or not.
\<close>

theorem pieces_partition_text:
  "concat (pieces s) = s \<and> (\<forall>p. p \<in> set (pieces s) \<longrightarrow> p \<noteq> []) \<and> (s \<noteq> [] \<longrightarrow> 1 \<le> next_piece s \<and> next_piece s \<le> length s)"
  using concat_pieces pieces_nonempty next_piece_bounds by blast

theorem pieces_partition_text_witness:
  "concat (pieces [0xE3, 0x80, 0x80]) = [0xE3, 0x80, 0x80] \<and>
   1 \<le> next_piece [0xE3, 0x80, 0x80] \<and> next_piece [0xE3, 0x80, 0x80] \<le> 3"
  using pieces_partition_text [of "[0xE3, 0x80, 0x80]"] by simp

text \<open>
  A white-space character of several bytes can be cut in two. Before a character that is not a letter, a run of
  white space gives its last character to the next piece, but the code steps back one byte: a no-break space before a digit
  is split into its two bytes, and two ideographic spaces before a letter leave the last byte of the second one alone.
\<close>

theorem next_piece_splits_character:
  "next_piece [0xC2, 0xA0, 0x31] = 1 \<and> utf8_get [0xC2, 0xA0, 0x31] = (2, 0xA0) \<and>
   next_piece [0xE3, 0x80, 0x80, 0xE3, 0x80, 0x80, 0x41] = 5"
proof -
  have "utf8_get [0xC2, 0xA0, 0x31] = (2, 0xA0)" by (simp add: utf8_get_def)
  moreover have "next_piece [0xC2, 0xA0, 0x31] = 1"
    by (simp add: next_piece_def utf8_get_def contraction_def cp_is_letter_def cp_is_digit_def cp_is_space_def cp_is_sym_def
        scan_while.simps space_run.simps Let_def)
  moreover have "next_piece [0xE3, 0x80, 0x80, 0xE3, 0x80, 0x80, 0x41] = 5"
    by (simp add: next_piece_def utf8_get_def contraction_def cp_is_letter_def cp_is_digit_def cp_is_space_def cp_is_sym_def
        scan_while.simps space_run.simps Let_def)
  ultimately show ?thesis by simp
qed

subsection \<open>Byte-pair merging on strings\<close>

text \<open>
  The reference: the characters of the piece as strings; as long as some adjacent pair has a rank, the leftmost pair of
  the lowest rank is joined.
\<close>

function chars :: "bytes \<Rightarrow> bytes list" where
  "chars s = (if s = [] then [] else take (fst (utf8_get s)) s # chars (drop (fst (utf8_get s)) s))"
  by auto
termination
proof (relation "measure length", goal_cases)
  case (2 s)
  then show ?case using utf8_get_adv [of s] by auto
qed simp

declare chars.simps [simp del]

definition pair_rank :: "(bytes \<Rightarrow> bytes \<Rightarrow> int) \<Rightarrow> bytes list \<Rightarrow> nat \<Rightarrow> int" where
  "pair_rank rk ss i = rk (ss ! i) (ss ! (i + 1))"

definition best_merge :: "(bytes \<Rightarrow> bytes \<Rightarrow> int) \<Rightarrow> bytes list \<Rightarrow> nat option" where
  "best_merge rk ss =
     find (\<lambda>i. 0 \<le> pair_rank rk ss i \<and>
               list_all (\<lambda>j. 0 \<le> pair_rank rk ss j \<longrightarrow> pair_rank rk ss i \<le> pair_rank rk ss j) [0..<length ss - 1])
       [0..<length ss - 1]"

definition join_at :: "nat \<Rightarrow> bytes list \<Rightarrow> bytes list" where
  "join_at k ss = take k ss @ (ss ! k @ ss ! (k + 1)) # drop (k + 2) ss"

lemma best_merge_less: "best_merge rk ss = Some k \<Longrightarrow> k + 1 < length ss"
  by (auto simp: best_merge_def find_Some_iff)

function bpe_spec :: "(bytes \<Rightarrow> bytes \<Rightarrow> int) \<Rightarrow> bytes list \<Rightarrow> bytes list" where
  "bpe_spec rk ss = (case best_merge rk ss of None \<Rightarrow> ss | Some k \<Rightarrow> bpe_spec rk (join_at k ss))"
  by auto
termination
proof (relation "measure (\<lambda>(rk, ss). length ss)", goal_cases)
  case (2 rk ss k)
  then show ?case using best_merge_less [of rk ss k] by (auto simp: join_at_def)
qed simp

declare bpe_spec.simps [simp del]

text \<open>What the search has found after the first \<open>n\<close> pairs.\<close>

definition is_best :: "(nat \<Rightarrow> int) \<Rightarrow> nat \<Rightarrow> int \<times> nat option \<Rightarrow> bool" where
  "is_best f n best =
     (case best of
        (r, None) \<Rightarrow> r < 0 \<and> (\<forall>j < n. f j < 0)
      | (r, Some k) \<Rightarrow> k < n \<and> f k = r \<and> 0 \<le> r \<and> (\<forall>j < n. 0 \<le> f j \<longrightarrow> r \<le> f j) \<and> (\<forall>j < k. 0 \<le> f j \<longrightarrow> r < f j))"

lemma is_best_step:
  assumes "is_best f n best"
  shows "is_best f (Suc n) (if 0 \<le> f n \<and> (fst best < 0 \<or> f n < fst best) then (f n, Some n) else best)"
proof (cases best)
  case (Pair r ko)
  show ?thesis
  proof (cases ko)
    case None
    then show ?thesis using assms Pair by (auto simp: is_best_def less_Suc_eq)
  next
    case (Some k)
    then show ?thesis using assms Pair by (fastforce simp: is_best_def less_Suc_eq)
  qed
qed

lemma best_pair_is_best:
  assumes total: "\<And>a b. merge_rank t a b = Some (rk a b)"
  shows "is_best (pair_rank rk (map (sym_str buf) ys)) i best \<Longrightarrow> i \<le> length ys - 1 \<Longrightarrow>
    \<exists>r. best_pair t buf ys i best = Some r \<and> is_best (pair_rank rk (map (sym_str buf) ys)) (length ys - 1) r"
proof (induction "length ys - i" arbitrary: i best rule: less_induct)
  case less
  let ?f = "pair_rank rk (map (sym_str buf) ys)"
  show ?case
  proof (cases "i + 1 < length ys")
    case True
    have f: "rk (sym_str buf (ys ! i)) (sym_str buf (ys ! (i + 1))) = ?f i" using True by (simp add: pair_rank_def)
    let ?b = "if 0 \<le> ?f i \<and> (fst best < 0 \<or> ?f i < fst best) then (?f i, Some i) else best"
    have "best_pair t buf ys i best = best_pair t buf ys (i + 1) ?b"
      using True total f by (subst best_pair.simps) simp
    moreover have "is_best ?f (i + 1) ?b" using is_best_step [OF less.prems(1)] by simp
    then have "\<exists>r. best_pair t buf ys (i + 1) ?b = Some r \<and> is_best ?f (length ys - 1) r"
      using True by (intro less.hyps) auto
    ultimately show ?thesis by simp
  next
    case False
    then have "i = length ys - 1" using less.prems(2) by simp
    moreover have "best_pair t buf ys i best = Some best" using False by (subst best_pair.simps) simp
    ultimately show ?thesis using less.prems(1) by simp
  qed
qed

lemma is_best_merge:
  assumes "is_best (pair_rank rk ss) (length ss - 1) (r, ko)"
  shows "best_merge rk ss = ko"
proof (cases ko)
  case None
  then show ?thesis using assms by (auto simp: is_best_def best_merge_def find_None_iff)
next
  case (Some k)
  then show ?thesis using assms
    by (fastforce simp: is_best_def best_merge_def find_Some_iff list_all_iff intro!: exI [of _ k])
qed

subsection \<open>The index version is the string version\<close>

primrec tiles :: "nat \<Rightarrow> sym list \<Rightarrow> bool" where
  "tiles p [] = True"
| "tiles p (y # ys) = (fst y = p \<and> tiles (p + snd y) ys)"

lemma tiles_append: "tiles p (xs @ ys) = (tiles p xs \<and> tiles (p + sum_list (map snd xs)) ys)"
  by (induction xs arbitrary: p) (auto simp: add.assoc)

lemma split_at2: "k + 1 < length ys \<Longrightarrow> ys = take k ys @ ys ! k # ys ! (k + 1) # drop (k + 2) ys"
  by (metis Cons_nth_drop_Suc Suc_eq_plus1 add_2_eq_Suc' append_take_drop_id less_SucI Suc_lessD)

lemma tiles_merge_at: "tiles p ys \<Longrightarrow> k + 1 < length ys \<Longrightarrow> tiles p (merge_at k ys)"
proof -
  assume t: "tiles p ys" and k: "k + 1 < length ys"
  from t have "tiles p (take k ys @ ys ! k # ys ! (k + 1) # drop (k + 2) ys)" using split_at2 [OF k] by simp
  then show ?thesis by (simp add: merge_at_def tiles_append add.assoc)
qed

lemma sym_str_join: "fst z = fst y + snd y \<Longrightarrow> sym_str buf (fst y, snd y + snd z) = sym_str buf y @ sym_str buf z"
  by (simp add: sym_str_def take_add add.commute)

lemma map_merge_at:
  assumes "tiles p ys" and k: "k + 1 < length ys"
  shows "map (sym_str buf) (merge_at k ys) = join_at k (map (sym_str buf) ys)"
proof -
  from assms(1) have "tiles p (take k ys @ ys ! k # ys ! (k + 1) # drop (k + 2) ys)" using split_at2 [OF k] by simp
  then have "fst (ys ! (k + 1)) = fst (ys ! k) + snd (ys ! k)" by (simp add: tiles_append)
  from sym_str_join [OF this] show ?thesis using k by (simp add: merge_at_def join_at_def take_map drop_map)
qed

lemma bpe_merge_spec:
  assumes total: "\<And>a b. merge_rank t a b = Some (rk a b)"
  shows "tiles p ys \<Longrightarrow> \<exists>zs. bpe_merge t buf ys = Some zs \<and> tiles p zs \<and>
    map (sym_str buf) zs = bpe_spec rk (map (sym_str buf) ys)"
proof (induction "length ys" arbitrary: ys rule: less_induct)
  case less
  let ?ss = "map (sym_str buf) ys"
  show ?case
  proof (cases "1 < length ys")
    case False
    then have "best_merge rk ?ss = None" using best_merge_less [of rk ?ss] by (cases "best_merge rk ?ss") auto
    then have "bpe_spec rk ?ss = ?ss" by (subst bpe_spec.simps) simp
    moreover have "bpe_merge t buf ys = Some ys" using False by (subst bpe_merge.simps) simp
    ultimately show ?thesis using less.prems by simp
  next
    case True
    have "is_best (pair_rank rk ?ss) 0 (- 1, None)" by (simp add: is_best_def)
    then obtain r ko where b: "best_pair t buf ys 0 (- 1, None) = Some (r, ko)" "is_best (pair_rank rk ?ss) (length ys - 1) (r, ko)"
      using best_pair_is_best [OF total, of buf ys 0 "(- 1, None)"] by auto
    have bm: "best_merge rk ?ss = ko" using is_best_merge [of rk ?ss r ko] b(2) by simp
    show ?thesis
    proof (cases ko)
      case None
      then show ?thesis using True b(1) bm less.prems by (subst bpe_merge.simps, subst bpe_spec.simps) simp
    next
      case (Some k)
      then have k: "k + 1 < length ys" using best_merge_less [of rk ?ss k] bm by simp
      have "length (merge_at k ys) < length ys" using k by (simp add: merge_at_def)
      from less.hyps [OF this tiles_merge_at [OF less.prems k]]
      obtain zs where "bpe_merge t buf (merge_at k ys) = Some zs" "tiles p zs"
        "map (sym_str buf) zs = bpe_spec rk (join_at k ?ss)"
        using map_merge_at [OF less.prems k] by auto
      then show ?thesis using True b(1) bm Some by (subst bpe_merge.simps, subst bpe_spec.simps) simp
    qed
  qed
qed

lemma first_syms_chars: "tiles p (first_syms buf p) \<and> map (sym_str buf) (first_syms buf p) = chars (drop p buf)"
proof (induction buf p rule: first_syms.induct)
  case (1 buf p)
  show ?case
  proof (cases "p < length buf")
    case True
    obtain a cp where ac: "utf8_get (drop p buf) = (a, cp)" by (cases "utf8_get (drop p buf)")
    have "first_syms buf p = (p, a) # first_syms buf (p + a)" using True ac by (subst first_syms.simps) simp
    moreover have "chars (drop p buf) = take a (drop p buf) # chars (drop (p + a) buf)"
      using True ac by (subst chars.simps) (simp add: add.commute)
    ultimately show ?thesis using "1.IH" [OF True ac [symmetric] refl] by (simp add: sym_str_def)
  next
    case False
    then show ?thesis by (subst (1 2) first_syms.simps, subst chars.simps) simp
  qed
qed

lemma concat_join_at: "k + 1 < length ss \<Longrightarrow> concat (join_at k ss) = concat ss"
proof -
  assume k: "k + 1 < length ss"
  have "ss = take k ss @ ss ! k # ss ! (k + 1) # drop (k + 2) ss"
    using k by (metis Cons_nth_drop_Suc Suc_eq_plus1 add_2_eq_Suc' append_take_drop_id less_SucI Suc_lessD)
  then have "concat ss = concat (take k ss @ ss ! k # ss ! (k + 1) # drop (k + 2) ss)" by simp
  then show ?thesis by (simp add: join_at_def)
qed

lemma concat_bpe_spec: "concat (bpe_spec rk ss) = concat ss"
proof (induction rk ss rule: bpe_spec.induct)
  case (1 rk ss)
  then show ?case
    by (subst bpe_spec.simps) (auto split: option.splits dest: best_merge_less simp: concat_join_at)
qed

lemma concat_chars: "concat (chars s) = s"
proof (induction s rule: chars.induct)
  case (1 s)
  then show ?case by (subst chars.simps) auto
qed

text \<open>
  C18. Merging on indexes is byte-pair encoding. \<^verbatim>\<open>bpe_piece\<close> merges in place, on start and length of each symbol;
  the strings it ends with are those of the textbook algorithm, which joins the leftmost adjacent pair of the lowest rank
  until none has one, and it ends. Put together they are the piece.
\<close>

theorem bpe_merge_refines_spec:
  assumes "\<And>a b. merge_rank t a b = Some (rk a b)"
  shows "\<exists>ys. bpe_merge t buf (first_syms buf 0) = Some ys \<and> map (sym_str buf) ys = bpe_spec rk (chars buf) \<and>
    concat (map (sym_str buf) ys) = buf"
  using bpe_merge_spec [OF assms, of 0 "first_syms buf 0" buf] first_syms_chars [of 0 buf]
  by (auto simp: concat_bpe_spec concat_chars)

theorem bpe_merge_refines_spec_witness:
  "\<exists>t h' ys. vv_tokenizer_load demo_fs (\<lambda>_. Some demo_tok_json) (Some ''m'') demo_tok_heap = Some (VV_OK, Some t, h') \<and>
    bpe_merge t [97, 98, 97] (first_syms [97, 98, 97] 0) = Some ys \<and> map (sym_str [97, 98, 97]) ys = [[97, 98], [97]]"
proof -
  define rk where "rk = (\<lambda>a b. or_minus1 (map_of [(([97 :: u8], [98 :: u8]), 0)] (a, b)))"
  obtain t h' where ld: "vv_tokenizer_load demo_fs (\<lambda>_. Some demo_tok_json) (Some ''m'') demo_tok_heap = Some (VV_OK, Some t, h')"
    and mr: "\<And>a b. merge_rank t a b = Some (rk a b)"
    using load_good [where fs = demo_fs and d = "''m''" and bs = "[123, 125]" and json_parse = "\<lambda>_. Some demo_tok_json" and M = "{#}",
      OF demo_tok_heap_ok(1,2) demo_file _ _ refl demo_json_good] unfolding demo_pairs rk_def by auto
  have c: "chars [97, 98, 97] = [[97], [98], [97]]" by (simp add: chars.simps utf8_get_def)
  have b: "best_merge rk [[97], [98], [97]] = Some 0" "best_merge rk [[97, 98], [97]] = None"
    by (simp_all add: best_merge_def pair_rank_def rk_def or_minus1_def upt_rec)
  have "bpe_spec rk [[97], [98], [97]] = [[97, 98], [97]]"
    by (subst bpe_spec.simps, simp add: b join_at_def, subst bpe_spec.simps, simp add: b)
  then show ?thesis using bpe_merge_refines_spec [OF mr, of "[97, 98, 97]"] ld by (auto simp: c)
qed

subsection \<open>Encoding leaks nothing\<close>

definition holds_ids :: "heap \<Rightarrow> idbuf \<Rightarrow> block multiset \<Rightarrow> bool" where
  "holds_ids h ib M \<longleftrightarrow> owns h (add_mset (Host, ib_ptr ib) M)"

lemma push_id_holds:
  assumes "holds_ids h ib M" and "push_id x ib h = (r, h')"
  shows "holds_ids h' (case r of None \<Rightarrow> ib | Some ib' \<Rightarrow> ib') M"
proof (cases "ib_cap ib \<le> int (length (ib_ids ib))")
  case False
  then show ?thesis using assms by (auto simp: push_id_def holds_ids_def)
next
  case True
  obtain p h1 where v: "vv_alloc (of_int (ib_cap ib * 2 + 64) * 4) h = (p, h1)" by (metis surj_pair)
  have o: "owns h1 (case p of None \<Rightarrow> add_mset (Host, ib_ptr ib) M | Some a \<Rightarrow> add_mset (Host, a) (add_mset (Host, ib_ptr ib) M))"
    using vv_alloc_owns [OF _ v] assms(1) by (simp add: holds_ids_def)
  have e: "push_id x ib h = (case p of None \<Rightarrow> (None, h1)
      | Some np \<Rightarrow> (Some \<lparr>ib_ptr = np, ib_ids = ib_ids ib @ [x], ib_cap = ib_cap ib * 2 + 64\<rparr>, vv_free (Some (ib_ptr ib)) h1))"
    unfolding push_id_def Let_def v using True by (simp split: option.splits)
  show ?thesis
  proof (cases p)
    case None
    then show ?thesis using o e assms(2) by (auto simp: holds_ids_def)
  next
    case (Some a)
    then have "owns h1 (add_mset (Host, ib_ptr ib) (add_mset (Host, a) M))" using o by (simp add: add_mset_commute)
    then show ?thesis using Some e assms(2) by (auto simp: holds_ids_def)
  qed
qed

lemma emit_ids_holds: "emit_ids t ss ib h = Some (st, ib', h') \<Longrightarrow> holds_ids h ib M \<Longrightarrow> holds_ids h' ib' M"
proof (induction ss arbitrary: ib h)
  case Nil
  then show ?case by simp
next
  case (Cons s ss)
  obtain x where x: "vocab_get t s = Some x" using Cons.prems(1) by (auto split: option.splits)
  obtain r h1 where p: "push_id x ib h = (r, h1)" by (metis surj_pair)
  show ?case
  proof (cases "x < 0")
    case True
    then show ?thesis using Cons x by simp
  next
    case False
    then show ?thesis using Cons x p push_id_holds [OF Cons.prems(2) p] by (cases r) auto
  qed
qed

lemma scoped_holds:
  assumes "holds_ids h ib M" and "vv_alloc sz h = (Some a, h1)"
    and "\<And>N. holds_ids h1 ib N \<Longrightarrow> holds_ids h2 ib' N"
  shows "holds_ids (vv_free (Some a) h2) ib' M"
proof -
  have "owns h1 (add_mset (Host, a) (add_mset (Host, ib_ptr ib) M))"
    using vv_alloc_owns [OF _ assms(2)] assms(1) by (simp add: holds_ids_def)
  then have "holds_ids h1 ib (add_mset (Host, a) M)" by (simp add: holds_ids_def add_mset_commute)
  from assms(3) [OF this] have "owns h2 (add_mset (Host, a) (add_mset (Host, ib_ptr ib') M))"
    by (simp add: holds_ids_def add_mset_commute)
  then show ?thesis by (simp add: holds_ids_def)
qed

lemma alloc_fails_holds: "holds_ids h ib M \<Longrightarrow> vv_alloc sz h = (None, h') \<Longrightarrow> holds_ids h' ib M"
  unfolding holds_ids_def using vv_alloc_owns by fastforce

lemma bpe_piece_holds: "bpe_piece t buf ib h = Some (st, ib', h') \<Longrightarrow> holds_ids h ib M \<Longrightarrow> holds_ids h' ib' M"
  by (auto simp: bpe_piece_def split: prod.splits option.splits intro: alloc_fails_holds scoped_holds emit_ids_holds)

lemma run_pieces_holds: "run_pieces t s ib h = Some (st, ib', h') \<Longrightarrow> holds_ids h ib M \<Longrightarrow> holds_ids h' ib' M"
proof (induction t s ib h rule: run_pieces.induct)
  case (1 t s ib h)
  show ?case
  proof (cases "s = []")
    case True
    then show ?thesis using "1.prems" by (subst (asm) run_pieces.simps) simp
  next
    case False
    then obtain st1 ib1 h1 where b: "bpe_piece t (enc_bytes (take (piece_len s) s)) ib h = Some (st1, ib1, h1)"
      using "1.prems"(1) by (subst (asm) run_pieces.simps) (auto split: option.splits)
    note o = bpe_piece_holds [OF b "1.prems"(2)]
    show ?thesis
    proof (cases "st1 = VV_OK")
      case True
      have "run_pieces t (drop (piece_len s) s) ib1 h1 = Some (st, ib', h')"
        using "1.prems"(1) False b True by (subst (asm) run_pieces.simps) simp
      then show ?thesis using "1.IH" [OF False b refl refl] True o by simp
    next
      case False
      then show ?thesis using "1.prems"(1) \<open>s \<noteq> []\<close> b o by (subst (asm) run_pieces.simps) simp
    qed
  qed
qed

lemma encode_text_run_holds: "encode_text_run t s ib h = Some (st, ib', h') \<Longrightarrow> holds_ids h ib M \<Longrightarrow> holds_ids h' ib' M"
  by (auto simp: encode_text_run_def split: prod.splits option.splits intro: alloc_fails_holds scoped_holds run_pieces_holds)

lemma encode_loop_holds:
  assumes "encode_loop t text pos run_start ib h = Some (st, rs, ib', h')" and "holds_ids h ib M"
  shows "holds_ids h' ib' M"
proof -
  have "holds_ids h ib M \<longrightarrow> holds_ids (snd (snd (snd (st, rs, ib', h')))) (fst (snd (snd (st, rs, ib', h')))) M"
  proof (rule encode_loop.raw_induct [OF _ assms(1)], goal_cases)
    case (1 f t s pos run_start ib h y)
    show ?case
    proof
      assume o: "holds_ids h ib M"
      show "holds_ids (snd (snd (snd y))) (fst (snd (snd y))) M"
      proof (cases "pos < length s")
        case False
        then show ?thesis using 1(2) o by auto
      next
        case True
        let ?hit = "if s ! pos = 60 then special_hit (tk_sentry t) (drop pos s) else Some None"
        let ?run = "if run_start < pos then encode_text_run t (take (pos - run_start) (drop run_start s)) ib h else Some (VV_OK, ib, h)"
        show ?thesis
        proof (cases "?hit = Some None")
          case True
          then show ?thesis using 1 o \<open>pos < length s\<close> by simp
        next
          case False
          then obtain e where e: "?hit = Some (Some e)" using 1(2) True by (auto split: option.splits if_splits)
          then obtain st1 ib1 h1 where r: "?run = Some (st1, ib1, h1)" using 1(2) True by (auto split: option.splits)
          then have o1: "holds_ids h1 ib1 M" using o encode_text_run_holds by (auto split: if_splits)
          obtain p h2 where p: "push_id (ve_id e) ib1 h1 = (p, h2)" by (metis surj_pair)
          have "(if st1 \<noteq> VV_OK then Some (st1, run_start, ib1, h1)
               else (case p of None \<Rightarrow> Some (VV_ERR_OUT_OF_MEMORY, run_start, ib1, h2)
                 | Some ib \<Rightarrow> f t s (pos + length (ve_str e)) (pos + length (ve_str e)) ib h2)) = Some y"
            using 1(2) True unfolding e r by (auto simp: p split: if_splits)
          then show ?thesis using 1(1) o1 push_id_holds [OF o1 p] by (auto split: if_splits option.splits)
        qed
      qed
    qed
  qed
  then show ?thesis using assms(2) by simp
qed

text \<open>
  C30. Encoding leaks nothing. Whatever the text, the tokenizer and the allocations that fail, when
  \<^verbatim>\<open>vv_tokenizer_encode\<close> returns, either it reports an error and everything it allocated is free again, or the one block left is the
  buffer of ids it returns: the symbols, the encoded text and every outgrown buffer are gone.
\<close>

theorem encode_no_leak:
  assumes own: "owns h M" and ret: "vv_tokenizer_encode tk text h = Some (st, out, h')"
  shows "case out of None \<Rightarrow> st \<noteq> VV_OK \<and> owns h' M | Some (a, ids) \<Rightarrow> st = VV_OK \<and> owns h' (add_mset (Host, a) M)"
proof (cases "\<exists>t s. tk = Some t \<and> text = Some s")
  case False
  then show ?thesis using ret own by (auto simp: vv_tokenizer_encode_def split: option.splits)
next
  case True
  then obtain t s where ts: "tk = Some t" "text = Some s" by auto
  let ?cap = "int (length s) div 2 + 32"
  obtain p h1 where v: "vv_alloc (of_int ?cap * 4) h = (p, h1)" by (metis surj_pair)
  note o1 = vv_alloc_owns [OF own v]
  show ?thesis
  proof (cases p)
    case None
    then show ?thesis using ret ts v o1 by (auto simp: vv_tokenizer_encode_def Let_def)
  next
    case (Some a)
    let ?ib = "\<lparr>ib_ptr = a, ib_ids = [], ib_cap = ?cap\<rparr>"
    obtain st1 rs ib1 h2 where l: "encode_loop t s 0 0 ?ib h1 = Some (st1, rs, ib1, h2)"
      using ret ts v Some by (auto simp: vv_tokenizer_encode_def Let_def split: option.splits)
    have o2: "holds_ids h2 ib1 M" using encode_loop_holds [OF l] o1 Some by (simp add: holds_ids_def)
    show ?thesis
    proof (cases "st1 = VV_OK")
      case False
      then show ?thesis using ret ts v Some l o2 by (auto simp: vv_tokenizer_encode_def Let_def holds_ids_def)
    next
      case True
      let ?run = "if rs < length s then encode_text_run t (drop rs s) ib1 h2 else Some (VV_OK, ib1, h2)"
      obtain st2 ib2 h3 where r: "?run = Some (st2, ib2, h3)"
        using ret ts v Some l True by (auto simp: vv_tokenizer_encode_def Let_def split: option.splits)
      then have o3: "holds_ids h3 ib2 M" using o2 encode_text_run_holds by (auto split: if_splits)
      have "(if st2 \<noteq> VV_OK then (st2, None, vv_free (Some (ib_ptr ib2)) h3) else (VV_OK, Some (ib_ptr ib2, ib_ids ib2), h3)) = (st, out, h')"
        using ret ts v Some l True r by (simp add: vv_tokenizer_encode_def Let_def split: if_splits)
      then show ?thesis using o3 by (auto simp: holds_ids_def split: if_splits)
    qed
  qed
qed

subsection \<open>What encoding computes\<close>

lemma chars_enc: "chars (enc_bytes p) = map enc_byte p"
proof (induction p)
  case Nil
  then show ?case by (subst chars.simps) (simp add: enc_bytes_def)
next
  case (Cons b p)
  then show ?case by (subst chars.simps) (simp add: enc_bytes_def enc_byte_get)
qed

definition all_in :: "(bytes \<Rightarrow> bool) \<Rightarrow> bytes list \<Rightarrow> bool" where
  "all_in Q ss \<longleftrightarrow> (\<forall>s \<in> set ss. Q s)"

lemma join_at_all:
  assumes "all_in Q ss" and "best_merge rk ss = Some k" and "\<And>a b. Q a \<Longrightarrow> Q b \<Longrightarrow> 0 \<le> rk a b \<Longrightarrow> Q (a @ b)"
  shows "all_in Q (join_at k ss)"
proof -
  have k: "k + 1 < length ss" by (rule best_merge_less [OF assms(2)])
  have "0 \<le> rk (ss ! k) (ss ! (k + 1))" using assms(2) by (auto simp: best_merge_def find_Some_iff pair_rank_def)
  then have "Q (ss ! k @ ss ! (k + 1))" using assms k by (auto simp: all_in_def)
  then show ?thesis using assms(1) by (auto simp: all_in_def join_at_def dest: in_set_takeD in_set_dropD)
qed

lemma bpe_spec_all:
  assumes "\<And>a b. Q a \<Longrightarrow> Q b \<Longrightarrow> 0 \<le> rk a b \<Longrightarrow> Q (a @ b)"
  shows "all_in Q ss \<Longrightarrow> all_in Q (bpe_spec rk ss)"
proof (induction "length ss" arbitrary: ss rule: less_induct)
  case less
  show ?case
  proof (cases "best_merge rk ss")
    case None
    then show ?thesis using less.prems by (subst bpe_spec.simps) simp
  next
    case (Some k)
    have "length (join_at k ss) < length ss" using best_merge_less [OF Some] by (simp add: join_at_def)
    from less.hyps [OF this join_at_all [OF less.prems Some assms]] show ?thesis
      using Some by (subst bpe_spec.simps) simp
  qed
qed

lemma length_bpe_spec: "length (bpe_spec rk ss) \<le> length ss"
proof (induction "length ss" arbitrary: ss rule: less_induct)
  case less
  show ?case
  proof (cases "best_merge rk ss")
    case None
    then show ?thesis by (subst bpe_spec.simps) simp
  next
    case (Some k)
    have "length (join_at k ss) < length ss" using best_merge_less [OF Some] by (simp add: join_at_def)
    from less.hyps [OF this] show ?thesis using \<open>length (join_at k ss) < length ss\<close> Some by (subst bpe_spec.simps) simp
  qed
qed

text \<open>
  What the rest of the section asks of a tokenizer: both tables answer (\<open>vg\<close>, \<open>rk\<close>), every merge yields a
  token, ids of vocabulary tokens lead back to them, and added tokens are there, are not empty and have their own ids.
\<close>

definition tok_ok :: "tokenizer \<Rightarrow> (bytes \<Rightarrow> int) \<Rightarrow> (bytes \<Rightarrow> bytes \<Rightarrow> int) \<Rightarrow> bool" where
  "tok_ok t vg rk \<longleftrightarrow>
     (\<forall>s. vocab_get t s = Some (vg s)) \<and> (\<forall>a b. merge_rank t a b = Some (rk a b)) \<and>
     (\<forall>a b. 0 \<le> rk a b \<longrightarrow> 0 \<le> vg (a @ b)) \<and>
     (\<forall>s. 0 \<le> vg s \<longrightarrow> token_of t (vg s) = Some s \<and> added_flag t (vg s) = None) \<and>
     (\<forall>e \<in> set (tk_sentry t). ve_ptr e \<noteq> None \<and> ve_str e \<noteq> [] \<and> token_of t (ve_id e) = Some (ve_str e) \<and> added_flag t (ve_id e) \<noteq> None)"

definition piece_ids :: "(bytes \<Rightarrow> int) \<Rightarrow> (bytes \<Rightarrow> bytes \<Rightarrow> int) \<Rightarrow> bytes \<Rightarrow> int list" where
  "piece_ids vg rk p = map vg (bpe_spec rk (chars (enc_bytes p)))"

definition in_vocab :: "(bytes \<Rightarrow> int) \<Rightarrow> bytes \<Rightarrow> bool" where
  "in_vocab vg s \<longleftrightarrow> 0 \<le> vg s \<and> (\<exists>seg. s = enc_bytes seg)"

lemma piece_in_vocab:
  assumes ok: "tok_ok t vg rk" and bytes: "\<forall>b \<in> set p. 0 \<le> vg (enc_byte b)"
  shows "all_in (in_vocab vg) (bpe_spec rk (chars (enc_bytes p)))"
proof (rule bpe_spec_all)
  show "in_vocab vg (a @ b)" if "in_vocab vg a" "in_vocab vg b" "0 \<le> rk a b" for a b
  proof -
    obtain x y where "a = enc_bytes x" "b = enc_bytes y" using \<open>in_vocab vg a\<close> \<open>in_vocab vg b\<close> by (auto simp: in_vocab_def)
    then have "a @ b = enc_bytes (x @ y)" by (simp add: enc_bytes_def)
    moreover have "0 \<le> vg (a @ b)" using ok that(3) by (auto simp: tok_ok_def)
    ultimately show ?thesis unfolding in_vocab_def by blast
  qed
  show "all_in (in_vocab vg) (chars (enc_bytes p))"
    unfolding chars_enc all_in_def in_vocab_def using bytes by (auto simp: enc_bytes_def intro: exI [of _ "[_]"])
qed

lemma dec_concat: "all_in (in_vocab vg) ss \<Longrightarrow> concat (map dec_bytes ss) = dec_bytes (concat ss)"
proof -
  assume a: "all_in (in_vocab vg) ss"
  have "\<exists>seg. concat ss = enc_bytes seg \<and> concat (map dec_bytes ss) = seg"
    using a
  proof (induction ss)
    case Nil
    then show ?case by (simp add: enc_bytes_def)
  next
    case (Cons s ss)
    then obtain seg where seg: "concat ss = enc_bytes seg" "concat (map dec_bytes ss) = seg" by (auto simp: all_in_def)
    obtain x where x: "s = enc_bytes x" using Cons.prems by (auto simp: all_in_def in_vocab_def)
    have "s @ concat ss = enc_bytes (x @ seg)" using seg x by (simp add: enc_bytes_def)
    then show ?case using seg x by (simp add: dec_enc_bytes)
  qed
  then show ?thesis by (auto simp: dec_enc_bytes)
qed

lemma decode_piece_ids:
  assumes ok: "tok_ok t vg rk" and bytes: "\<forall>b \<in> set p. 0 \<le> vg (enc_byte b)"
  shows "decode_write t (piece_ids vg rk p) False = p"
proof -
  let ?ss = "bpe_spec rk (chars (enc_bytes p))"
  note inv = piece_in_vocab [OF ok bytes]
  have "decode_token t False (vg s) = dec_bytes s" if "s \<in> set ?ss" for s
    using inv that ok by (auto simp: all_in_def in_vocab_def tok_ok_def decode_token_def)
  then have "decode_write t (piece_ids vg rk p) False = concat (map dec_bytes ?ss)"
    by (simp add: decode_write_def piece_ids_def comp_def cong: map_cong)
  then show ?thesis using dec_concat [OF inv] by (simp add: concat_bpe_spec concat_chars dec_enc_bytes)
qed

lemma length_piece_ids: "length (piece_ids vg rk p) \<le> length p"
  using length_bpe_spec [of rk "chars (enc_bytes p)"] by (simp add: piece_ids_def chars_enc)

lemma piece_ids_nonneg: "tok_ok t vg rk \<Longrightarrow> \<forall>b \<in> set p. 0 \<le> vg (enc_byte b) \<Longrightarrow> x \<in> set (piece_ids vg rk p) \<Longrightarrow> 0 \<le> x"
  using piece_in_vocab [of t vg rk p] by (auto simp: piece_ids_def all_in_def in_vocab_def)

lemma decode_write_append [simp]: "decode_write t (xs @ ys) b = decode_write t xs b @ decode_write t ys b"
  by (simp add: decode_write_def)


subsection \<open>Encoding when there is memory\<close>

text \<open>The capacity never exceeds what \<open>N\<close> ids can ask for.\<close>

definition ib_ok :: "nat \<Rightarrow> idbuf \<Rightarrow> bool" where
  "ib_ok N ib \<longleftrightarrow> 0 \<le> ib_cap ib \<and> ib_cap ib \<le> 2 * int N + 64"

lemma host_free [simp]: "host_never_fails (vv_free p h) = host_never_fails h"
  by (auto simp: vv_free_def host_never_fails_def Let_def split: option.splits)

lemma push_id_calm:
  assumes "host_never_fails h" and "ib_ok N ib" and "length (ib_ids ib) \<le> N" and "N < 2 ^ 29"
  obtains ib' h' where "push_id x ib h = (Some ib', h')" "host_never_fails h'" "ib_ok N ib'" "ib_ids ib' = ib_ids ib @ [x]"
proof (cases "ib_cap ib \<le> int (length (ib_ids ib))")
  case False
  then show thesis using assms that [of "ib\<lparr>ib_ids := ib_ids ib @ [x]\<rparr>" h] by (simp add: push_id_def ib_ok_def)
next
  case True
  let ?nc = "ib_cap ib * 2 + 64"
  have nc: "0 < ?nc" "?nc < 2 ^ 31" using assms True by (auto simp: ib_ok_def)
  have nz: "of_int ?nc * 4 \<noteq> (0 :: u64)" using word_times_neq_0 [OF nc, of 4] by simp
  obtain a h1 where v: "vv_alloc (of_int ?nc * 4) h = (Some a, h1)" and c: "host_never_fails h1"
    using vv_alloc_succeeds [OF assms(1) nz] .
  let ?ib = "\<lparr>ib_ptr = a, ib_ids = ib_ids ib @ [x], ib_cap = ?nc\<rparr>"
  have e: "push_id x ib h = (Some ?ib, vv_free (Some (ib_ptr ib)) h1)" unfolding push_id_def Let_def v using True by simp
  have "ib_ok N ?ib" using assms True by (simp add: ib_ok_def)
  then show thesis using that [OF e] c by simp
qed

lemma emit_ids_calm:
  assumes "\<And>s. vocab_get t s = Some (vg s)" and "N < 2 ^ 29"
  shows "host_never_fails h \<Longrightarrow> ib_ok N ib \<Longrightarrow> length (ib_ids ib) + length ss \<le> N \<Longrightarrow> \<forall>s \<in> set ss. 0 \<le> vg s \<Longrightarrow>
    \<exists>ib' h'. emit_ids t ss ib h = Some (VV_OK, ib', h') \<and> host_never_fails h' \<and> ib_ok N ib' \<and> ib_ids ib' = ib_ids ib @ map vg ss"
proof (induction ss arbitrary: ib h)
  case Nil
  then show ?case by simp
next
  case (Cons s ss)
  obtain ib1 h1 where p: "push_id (vg s) ib h = (Some ib1, h1)" "host_never_fails h1" "ib_ok N ib1" "ib_ids ib1 = ib_ids ib @ [vg s]"
    using push_id_calm [OF Cons.prems(1,2) _ assms(2), of "vg s"] Cons.prems(3) by auto
  have "\<exists>ib' h'. emit_ids t ss ib1 h1 = Some (VV_OK, ib', h') \<and> host_never_fails h' \<and> ib_ok N ib' \<and> ib_ids ib' = ib_ids ib1 @ map vg ss"
    using Cons.prems p by (intro Cons.IH) auto
  then show ?case using assms(1) Cons.prems(4) p by auto
qed

lemma bpe_piece_calm:
  assumes ok: "tok_ok t vg rk" and bytes: "\<forall>b \<in> set p. 0 \<le> vg (enc_byte b)" and N: "N < 2 ^ 29" and p: "length p \<le> N"
    and h: "host_never_fails h" "ib_ok N ib" "length (ib_ids ib) + length p \<le> N"
  shows "\<exists>ib' h'. bpe_piece t (enc_bytes p) ib h = Some (VV_OK, ib', h') \<and> host_never_fails h' \<and> ib_ok N ib' \<and>
    ib_ids ib' = ib_ids ib @ piece_ids vg rk p"
proof -
  let ?buf = "enc_bytes p"
  have "length (enc_byte b) \<le> 4" for b by (simp add: enc_byte_def length_utf8_put)
  then have "length ?buf \<le> 4 * length p" by (induction p) (auto simp: enc_bytes_def intro: add_mono order_trans)
  then have l: "length ?buf + 1 < 2 ^ 32" using p N by simp
  have "of_nat (length ?buf + 1) * 8 \<noteq> (0 :: u64)"
  proof -
    have "unat (of_nat ((length ?buf + 1) * 8) :: u64) = (length ?buf + 1) * 8" using l by (simp only: unat_of_nat) simp
    then have "of_nat ((length ?buf + 1) * 8) \<noteq> (0 :: u64)" by fastforce
    then show ?thesis by (simp only: of_nat_mult of_nat_numeral) simp
  qed
  then have nz: "(of_nat (length ?buf) + 1) * 8 \<noteq> (0 :: u64)" by (simp add: add.commute)
  obtain a h1 where v: "vv_alloc ((of_nat (length ?buf) + 1) * 8) h = (Some a, h1)" and c1: "host_never_fails h1"
    using vv_alloc_succeeds [OF h(1) nz] .
  have mr: "\<And>a b. merge_rank t a b = Some (rk a b)" and vg: "\<And>s. vocab_get t s = Some (vg s)" using ok by (auto simp: tok_ok_def)
  obtain ys where ys: "bpe_merge t ?buf (first_syms ?buf 0) = Some ys" "map (sym_str ?buf) ys = bpe_spec rk (chars ?buf)"
    using bpe_merge_spec [OF mr, of 0 "first_syms ?buf 0" ?buf] first_syms_chars [of 0 ?buf] by auto
  have len: "length (bpe_spec rk (chars ?buf)) \<le> length p" using length_piece_ids [of vg rk p] by (simp add: piece_ids_def)
  have "\<exists>ib' h'. emit_ids t (bpe_spec rk (chars ?buf)) ib h1 = Some (VV_OK, ib', h') \<and> host_never_fails h' \<and> ib_ok N ib' \<and>
      ib_ids ib' = ib_ids ib @ map vg (bpe_spec rk (chars ?buf))"
    using piece_in_vocab [OF ok bytes] h len by (intro emit_ids_calm [OF vg N c1]) (auto simp: all_in_def in_vocab_def)
  then show ?thesis using v ys by (auto simp: bpe_piece_def piece_ids_def)
qed

definition run_ids :: "(bytes \<Rightarrow> int) \<Rightarrow> (bytes \<Rightarrow> bytes \<Rightarrow> int) \<Rightarrow> bytes \<Rightarrow> int list" where
  "run_ids vg rk s = concat (map (piece_ids vg rk) (pieces s))"

lemma run_ids_step:
  "s \<noteq> [] \<Longrightarrow> run_ids vg rk s = piece_ids vg rk (take (piece_len s) s) @ run_ids vg rk (drop (piece_len s) s)"
  by (simp add: run_ids_def pieces.simps [of s])

lemma run_ids_Nil [simp]: "run_ids vg rk [] = []"
  by (simp add: run_ids_def)

lemma length_run_ids: "length (run_ids vg rk s) \<le> length s"
proof (induction s rule: pieces.induct)
  case (1 s)
  then show ?case
    using length_piece_ids [of vg rk "take (piece_len s) s"] piece_len_bounds [of s] by (cases "s = []") (auto simp: run_ids_step)
qed

lemma decode_run_ids:
  assumes ok: "tok_ok t vg rk"
  shows "\<forall>b \<in> set s. 0 \<le> vg (enc_byte b) \<Longrightarrow> decode_write t (run_ids vg rk s) False = s"
proof (induction s rule: pieces.induct)
  case (1 s)
  show ?case
  proof (cases "s = []")
    case False
    have "decode_write t (piece_ids vg rk (take (piece_len s) s)) False = take (piece_len s) s"
      using 1(2) by (intro decode_piece_ids [OF ok]) (auto dest: in_set_takeD)
    moreover have "decode_write t (run_ids vg rk (drop (piece_len s) s)) False = drop (piece_len s) s"
      using 1 False by (auto dest: in_set_dropD)
    ultimately show ?thesis using False by (simp add: run_ids_step)
  qed (simp add: decode_write_def)
qed

lemma run_pieces_calm:
  assumes ok: "tok_ok t vg rk" and N: "N < 2 ^ 29"
  shows "\<forall>b \<in> set s. 0 \<le> vg (enc_byte b) \<Longrightarrow> host_never_fails h \<Longrightarrow> ib_ok N ib \<Longrightarrow> length (ib_ids ib) + length s \<le> N \<Longrightarrow>
    \<exists>ib' h'. run_pieces t s ib h = Some (VV_OK, ib', h') \<and> host_never_fails h' \<and> ib_ok N ib' \<and> ib_ids ib' = ib_ids ib @ run_ids vg rk s"
proof (induction s arbitrary: ib h rule: pieces.induct)
  case (1 s)
  show ?case
  proof (cases "s = []")
    case True
    then show ?thesis using 1(3,4) by (subst run_pieces.simps) simp
  next
    case False
    let ?p = "take (piece_len s) s" and ?r = "drop (piece_len s) s"
    have len: "length ?p + length ?r = length s" by simp
    obtain ib1 h1 where b: "bpe_piece t (enc_bytes ?p) ib h = Some (VV_OK, ib1, h1)" "host_never_fails h1" "ib_ok N ib1"
      "ib_ids ib1 = ib_ids ib @ piece_ids vg rk ?p"
      using bpe_piece_calm [OF ok _ N, of ?p h ib] 1(2-5) len by (auto dest: in_set_takeD)
    have "length (ib_ids ib1) + length ?r \<le> N" using b(4) length_piece_ids [of vg rk ?p] 1(5) len by (simp del: length_take length_drop)
    then obtain ib2 h2 where r: "run_pieces t ?r ib1 h1 = Some (VV_OK, ib2, h2)" "host_never_fails h2" "ib_ok N ib2"
      "ib_ids ib2 = ib_ids ib1 @ run_ids vg rk ?r"
      using 1(1) [OF False _ b(2,3)] 1(2) by (auto dest: in_set_dropD)
    then show ?thesis using False b by (subst run_pieces.simps) (simp add: run_ids_step)
  qed
qed

lemma encode_text_run_calm:
  assumes ok: "tok_ok t vg rk" and N: "N < 2 ^ 29" and s: "\<forall>b \<in> set s. 0 \<le> vg (enc_byte b)"
    and h: "host_never_fails h" "ib_ok N ib" "length (ib_ids ib) + length s \<le> N"
  shows "\<exists>ib' h'. encode_text_run t s ib h = Some (VV_OK, ib', h') \<and> host_never_fails h' \<and> ib_ok N ib' \<and>
    ib_ids ib' = ib_ids ib @ run_ids vg rk s"
proof -
  have "length s < 2 ^ 29" using h(3) N by simp
  then have "unat (of_nat (length s * 2 + 8) :: u64) = length s * 2 + 8" by (simp only: unat_of_nat) simp
  then have "of_nat (length s * 2 + 8) \<noteq> (0 :: u64)" by fastforce
  then have nz: "of_nat (length s) * 2 + 8 \<noteq> (0 :: u64)" by simp
  obtain a h1 where v: "vv_alloc (of_nat (length s) * 2 + 8) h = (Some a, h1)" and c1: "host_never_fails h1"
    using vv_alloc_succeeds [OF h(1) nz] .
  show ?thesis using run_pieces_calm [OF ok N s c1 h(2,3)] v by (auto simp: encode_text_run_def)
qed

lemma special_hit_ok:
  "\<forall>e \<in> set es. ve_ptr e \<noteq> None \<and> ve_str e \<noteq> [] \<Longrightarrow>
   special_hit es s = Some None \<or>
   (\<exists>e \<in> set es. special_hit es s = Some (Some e) \<and> length (ve_str e) \<le> length s \<and> take (length (ve_str e)) s = ve_str e)"
  by (induction es) auto

lemma encode_loop_calm:
  assumes ok: "tok_ok t vg rk" and N: "length s < 2 ^ 29" and bytes: "\<forall>b \<in> set s. 0 \<le> vg (enc_byte b)"
  shows "host_never_fails h \<Longrightarrow> ib_ok (length s) ib \<Longrightarrow> length (ib_ids ib) \<le> rs \<Longrightarrow> rs \<le> pos \<Longrightarrow> pos \<le> length s \<Longrightarrow>
    \<exists>rs' xs ib' h'. encode_loop t s pos rs ib h = Some (VV_OK, rs', ib', h') \<and> host_never_fails h' \<and> ib_ok (length s) ib' \<and>
      ib_ids ib' = ib_ids ib @ xs \<and> length (ib_ids ib') \<le> rs' \<and> rs \<le> rs' \<and> rs' \<le> length s \<and>
      decode_write t xs False = take (rs' - rs) (drop rs s)"
proof (induction "length s - pos" arbitrary: pos rs ib h rule: less_induct)
  case less
  let ?N = "length s"
  show ?case
  proof (cases "pos < ?N")
    case False
    then show ?thesis using less.prems by (subst encode_loop.simps) (simp add: decode_write_def)
  next
    case True
    let ?hit = "if s ! pos = 60 then special_hit (tk_sentry t) (drop pos s) else Some None"
    have sp: "\<forall>e \<in> set (tk_sentry t). ve_ptr e \<noteq> None \<and> ve_str e \<noteq> []" using ok by (auto simp: tok_ok_def)
    consider (none) "?hit = Some None" | (hit) e where "e \<in> set (tk_sentry t)" "?hit = Some (Some e)"
        "length (ve_str e) \<le> length (drop pos s)" "take (length (ve_str e)) (drop pos s) = ve_str e"
      using special_hit_ok [OF sp, of "drop pos s"] by (cases "s ! pos = 60") auto
    then show ?thesis
    proof cases
      case none
      have "encode_loop t s pos rs ib h = encode_loop t s (pos + 1) rs ib h" using True none by (subst encode_loop.simps) simp
      then show ?thesis using less.hyps [of "pos + 1" h ib rs] less.prems True by auto
    next
      case hit
      let ?w = "take (pos - rs) (drop rs s)" and ?n = "length (ve_str e)"
      let ?run = "if rs < pos then encode_text_run t ?w ib h else Some (VV_OK, ib, h)"
      have w: "\<forall>b \<in> set ?w. 0 \<le> vg (enc_byte b)" using bytes by (auto dest: in_set_takeD in_set_dropD)
      have wl: "length ?w = pos - rs" using less.prems by simp
      obtain ib1 h1 where r: "?run = Some (VV_OK, ib1, h1)" "host_never_fails h1" "ib_ok ?N ib1"
        "ib_ids ib1 = ib_ids ib @ run_ids vg rk ?w"
      proof (cases "rs < pos")
        case True
        have "length (ib_ids ib) + length ?w \<le> ?N" using wl less.prems(3-5) True by simp
        then show thesis using that encode_text_run_calm [OF ok N w less.prems(1,2)] True by auto
      next
        case False
        then show thesis using that [of ib h] less.prems(1,2,4) by simp
      qed
      have l1: "length (ib_ids ib1) \<le> pos" using r(4) length_run_ids [of vg rk ?w] wl less.prems by simp
      obtain ib2 h2 where p: "push_id (ve_id e) ib1 h1 = (Some ib2, h2)" "host_never_fails h2" "ib_ok ?N ib2"
        "ib_ids ib2 = ib_ids ib1 @ [ve_id e]"
        using push_id_calm [OF r(2,3) _ N, of "ve_id e"] l1 True by auto
      have n: "0 < ?n" "pos + ?n \<le> ?N" using sp hit True by auto
      have step: "encode_loop t s pos rs ib h = encode_loop t s (pos + ?n) (pos + ?n) ib2 h2"
        using True hit(2) r(1) p(1) by (subst encode_loop.simps) (simp split: if_splits)
      have m: "?N - (pos + ?n) < ?N - pos" using n True by linarith
      have "length (ib_ids ib2) \<le> pos + ?n" using p(4) l1 n by (simp del: length_greater_0_conv)
      then obtain rs' xs ib3 h3 where q: "encode_loop t s (pos + ?n) (pos + ?n) ib2 h2 = Some (VV_OK, rs', ib3, h3)"
        "host_never_fails h3" "ib_ok ?N ib3" "ib_ids ib3 = ib_ids ib2 @ xs" "length (ib_ids ib3) \<le> rs'" "pos + ?n \<le> rs'" "rs' \<le> ?N"
        "decode_write t xs False = take (rs' - (pos + ?n)) (drop (pos + ?n) s)"
        using less.hyps [OF m p(2,3) _ order_refl n(2)] by blast
      have tok: "decode_write t [ve_id e] False = ve_str e"
        using ok hit(1) by (auto simp: tok_ok_def decode_write_def decode_token_def)
      have "decode_write t (run_ids vg rk ?w @ [ve_id e] @ xs) False = ?w @ ve_str e @ take (rs' - (pos + ?n)) (drop (pos + ?n) s)"
        unfolding decode_write_append using decode_run_ids [OF ok w] tok q(8) by simp
      also have "\<dots> = take (rs' - rs) (drop rs s)"
      proof -
        have "take (rs' - rs) (drop rs s) = ?w @ take (rs' - pos) (drop pos s)"
          using take_add [of "pos - rs" "rs' - pos" "drop rs s"] less.prems q(6) n by (simp add: add.commute)
        moreover have "take (rs' - pos) (drop pos s) = take ?n (drop pos s) @ take (rs' - (pos + ?n)) (drop (pos + ?n) s)"
          using take_add [of ?n "rs' - (pos + ?n)" "drop pos s"] q(6) by (simp add: add.commute add.left_commute)
        ultimately show ?thesis using hit(4) by simp
      qed
      finally show ?thesis using step q(1-7) p(4) r(4) n less.prems
        by (intro exI [of _ rs'] exI [of _ "run_ids vg rk ?w @ [ve_id e] @ xs"] exI [of _ ib3] exI [of _ h3]) auto
    qed
  qed
qed


lemma encode_calm:
  assumes ok: "tok_ok t vg rk" and N: "length s < 2 ^ 29" and bytes: "\<forall>b \<in> set s. 0 \<le> vg (enc_byte b)" and h: "host_never_fails h"
  shows "\<exists>a ids h'. vv_tokenizer_encode (Some t) (Some s) h = Some (VV_OK, Some (a, ids), h') \<and> host_never_fails h' \<and>
    decode_write t ids False = s"
proof -
  let ?cap = "int (length s) div 2 + 32"
  have nz: "of_int ?cap * 4 \<noteq> (0 :: u64)" using word_times_neq_0 [of ?cap 4] N by simp
  obtain a h1 where v: "vv_alloc (of_int ?cap * 4) h = (Some a, h1)" and c1: "host_never_fails h1"
    using vv_alloc_succeeds [OF h nz] .
  let ?ib = "\<lparr>ib_ptr = a, ib_ids = [], ib_cap = ?cap\<rparr>"
  have "ib_ok (length s) ?ib" by (simp add: ib_ok_def)
  from encode_loop_calm [OF ok N bytes c1 this, of 0 0]
  obtain rs xs ib1 h2 where l: "encode_loop t s 0 0 ?ib h1 = Some (VV_OK, rs, ib1, h2)" "host_never_fails h2" "ib_ok (length s) ib1"
    "ib_ids ib1 = xs" "length (ib_ids ib1) \<le> rs" "rs \<le> length s" "decode_write t xs False = take rs s" by auto
  show ?thesis
  proof (cases "rs < length s")
    case True
    have "length (ib_ids ib1) + length (drop rs s) \<le> length s" using l(5,6) by simp
    from encode_text_run_calm [OF ok N _ l(2,3) this]
    obtain ib2 h3 where r: "encode_text_run t (drop rs s) ib1 h2 = Some (VV_OK, ib2, h3)" "host_never_fails h3"
      "ib_ids ib2 = ib_ids ib1 @ run_ids vg rk (drop rs s)" using bytes by (auto dest: in_set_dropD)
    have "decode_write t (run_ids vg rk (drop rs s)) False = drop rs s"
      by (rule decode_run_ids [OF ok]) (use bytes in \<open>auto dest: in_set_dropD\<close>)
    then have "decode_write t (ib_ids ib2) False = s" using r(3) l(4,7) by simp
    then show ?thesis using v l(1) r True by (simp add: vv_tokenizer_encode_def Let_def)
  next
    case False
    then have "rs = length s" using l(6) by simp
    then show ?thesis using v l by (simp add: vv_tokenizer_encode_def Let_def)
  qed
qed

subsection \<open>How long the decoded text can be\<close>

text \<open>A byte that \<^verbatim>\<open>utf8_get\<close> returns by itself, not as an ASCII character, is not valid UTF-8 there.\<close>

function utf8_ok :: "bytes \<Rightarrow> bool" where
  "utf8_ok s = (if s = [] then True
     else (fst (utf8_get s) = 1 \<longrightarrow> hd s < 0x80) \<and> utf8_ok (drop (fst (utf8_get s)) s))"
  by auto
termination
proof (relation "measure length", goal_cases)
  case (2 s)
  then show ?case using utf8_get_adv [of s] by auto
qed simp

declare utf8_ok.simps [simp del]

lemma high_bits_less: "(\<And>m. n \<le> m \<Longrightarrow> \<not> bit (x :: u32) m) \<Longrightarrow> n < 32 \<Longrightarrow> unat x < 2 ^ n"
proof -
  assume hi: "\<And>m. n \<le> m \<Longrightarrow> \<not> bit x m" and n: "n < 32"
  have "take_bit n x = x" by (rule bit_word_eqI) (metis bit_take_bit_iff hi linorder_not_less)
  then have "take_bit n (unat x) = unat x" by (metis unsigned_take_bit_eq)
  then show ?thesis by (metis take_bit_nat_less_exp)
qed

lemma utf8_get_bound:
  assumes "utf8_get s = (a, cp)" and "a = 1 \<longrightarrow> s ! 0 < 0x80"
  shows "length (utf8_put cp) \<le> a"
proof -
  have t6: "\<not> bit (ucast (b :: u8) AND 0x3F :: u32) m" if "6 \<le> m" for b m
  proof -
    have "ucast b AND 0x3F = (take_bit 6 (ucast b) :: u32)" by (simp add: take_bit_eq_mask mask_eq_exp_minus_1)
    then show ?thesis using that by (simp only: bit_take_bit_iff) simp
  qed
  have c5: "\<not> bit (ucast (b :: u8) AND 0x1F :: u32) m" if "5 \<le> m" for b m
  proof -
    have "ucast b AND 0x1F = (take_bit 5 (ucast b) :: u32)" by (simp add: take_bit_eq_mask mask_eq_exp_minus_1)
    then show ?thesis using that by (simp only: bit_take_bit_iff) simp
  qed
  have c4: "\<not> bit (ucast (b :: u8) AND 0x0F :: u32) m" if "4 \<le> m" for b m
  proof -
    have "ucast b AND 0x0F = (take_bit 4 (ucast b) :: u32)" by (simp add: take_bit_eq_mask mask_eq_exp_minus_1)
    then show ?thesis using that by (simp only: bit_take_bit_iff) simp
  qed
  consider (one) "a = 1" "cp = ucast (s ! 0)"
    | (two) "a = 2" "cp = push_bit 6 (ucast (s ! 0) AND 0x1F) OR (ucast (s ! 1) AND 0x3F)"
    | (three) "a = 3" "cp = push_bit 12 (ucast (s ! 0) AND 0x0F) OR push_bit 6 (ucast (s ! 1) AND 0x3F) OR (ucast (s ! 2) AND 0x3F)"
    | (four) "a = 4"
    using assms(1) unfolding utf8_get_def Let_def by (simp only: prod.inject split: if_splits)
  then show ?thesis
  proof cases
    case one
    then have "unat cp < 0x80" using assms(2) by (simp add: word_less_nat_alt unsigned_ucast_eq take_bit_nat_eq_self)
    then show ?thesis using one by (simp add: length_utf8_put word_less_nat_alt)
  next
    case two
    have "unat cp < 2 ^ 11" unfolding two(2)
  proof (rule high_bits_less)
    fix m :: nat assume "11 \<le> m"
    then have "5 \<le> m - 6" "6 \<le> m" by simp_all
    with c5 t6 show "\<not> bit (push_bit 6 (ucast (s ! 0) AND 0x1F) OR (ucast (s ! 1) AND 0x3F) :: u32) m"
      unfolding bit_or_iff bit_push_bit_iff by blast
  qed simp
    then show ?thesis using two(1) by (simp add: length_utf8_put word_less_nat_alt)
  next
    case three
    have "unat cp < 2 ^ 16" unfolding three(2)
  proof (rule high_bits_less)
    fix m :: nat assume "16 \<le> m"
    then have "4 \<le> m - 12" "6 \<le> m - 6" "6 \<le> m" by simp_all
    with c4 t6 show "\<not> bit (push_bit 12 (ucast (s ! 0) AND 0x0F) OR push_bit 6 (ucast (s ! 1) AND 0x3F) OR (ucast (s ! 2) AND 0x3F) :: u32) m"
      unfolding bit_or_iff bit_push_bit_iff by blast
  qed simp
    then show ?thesis using three(1) by (simp add: length_utf8_put word_less_nat_alt)
  next
    case four
    then show ?thesis by (simp add: length_utf8_put)
  qed
qed

lemma dec_bytes_length: "utf8_ok s \<Longrightarrow> length (dec_bytes s) \<le> length s"
proof (induction s rule: dec_bytes.induct)
  case (1 s)
  show ?case
  proof (cases "s = []")
    case False
    obtain a cp where ac: "utf8_get s = (a, cp)" by (cases "utf8_get s")
    have adv: "1 \<le> a" "a \<le> length s" using utf8_get_adv [OF False] ac by auto
    have ok: "a = 1 \<longrightarrow> s ! 0 < 0x80" "utf8_ok (drop a s)"
      using "1.prems" False ac by (subst (asm) utf8_ok.simps, simp add: hd_conv_nth)+
    have "length (dec_cp cp) \<le> a" using utf8_get_bound [OF ac ok(1)] adv by (simp add: dec_cp_def)
    moreover have "length (dec_bytes (drop a s)) \<le> length s - a" using "1.IH" [OF False ac [symmetric] refl ok(2)] by simp
    moreover have "dec_bytes s = dec_cp cp @ dec_bytes (drop a s)" using False ac by (subst dec_bytes.simps) simp
    ultimately show ?thesis using adv by simp
  qed simp
qed

text \<open>
  C31. Decoding writes no more than it reserved when the vocabulary is valid UTF-8: the bound computed from the token
  lengths covers what \<^verbatim>\<open>decode_write\<close> produces, so neither \<^verbatim>\<open>vv_tokenizer_decode_ex\<close> nor \<^verbatim>\<open>vv_tokenizer_decode_into\<close> writes past
  its buffer, for any ids.
\<close>

theorem decode_within_bound:
  assumes "\<And>i s. token_of t i = Some s \<Longrightarrow> added_flag t i = None \<Longrightarrow> utf8_ok s"
  shows "length (decode_write t ids skip) \<le> decode_bound t ids \<and>
    h_bad (snd (snd (vv_tokenizer_decode_ex (Some t) (Some ids) skip h))) = h_bad h \<and>
    h_bad (snd (snd (vv_tokenizer_decode_into (Some t) (Some ids) skip True cap h))) = h_bad h"
proof -
  have one: "length (decode_token t skip i) \<le> (case token_of t i of None \<Rightarrow> 0 | Some s \<Rightarrow> length s)" for i
    using assms [of i] by (auto simp: decode_token_def dec_bytes_length split: option.splits)
  have len: "length (decode_write t ids skip) \<le> decode_bound t ids"
    unfolding decode_write_def decode_bound_def by (induction ids) (auto intro: add_mono one)
  have "h_bad h' = h_bad h" if "vv_alloc sz h = (r, h')" for sz r h'
    using that by (auto simp: vv_alloc_def Let_def split: if_splits)
  then show ?thesis using len
    by (auto simp: vv_tokenizer_decode_ex_def vv_tokenizer_decode_into_def Let_def split: prod.splits option.splits)
qed

theorem decode_within_bound_witness:
  "length (decode_write ((empty_tokenizer 0)\<lparr>tk_id_to_token := [Some [97]]\<rparr>) [0, 5] False)
    \<le> decode_bound ((empty_tokenizer 0)\<lparr>tk_id_to_token := [Some [97]]\<rparr>) [0, 5]"
proof -
  let ?t = "(empty_tokenizer 0)\<lparr>tk_id_to_token := [Some [97]]\<rparr>"
  have ok: "utf8_ok [97]" by (simp add: utf8_ok.simps utf8_get_def)
  have "utf8_ok s" if "token_of ?t i = Some s" for i s
    using that ok by (cases "i = 0") (auto simp: token_of_def id_capacity_def split: if_splits)
  from decode_within_bound [where t = ?t and ids = "[0, 5]" and skip = False, OF this] show ?thesis by simp
qed

text \<open>
  C32. Otherwise it can overflow. A byte that is not valid UTF-8 and not in the byte alphabet is taken for a code point and
  written back as two bytes, although the comment on \<^verbatim>\<open>decode_bound\<close> says that no character gets longer: a
  vocabulary entry of three such bytes makes \<^verbatim>\<open>vv_tokenizer_decode_ex\<close> write past the block it allocated.
\<close>

theorem decode_overflows_on_invalid_utf8:
  assumes "token_of t i = Some [0x80, 0x80, 0x80]" and "added_flag t i = None" and "host_never_fails h"
  shows "h_bad (snd (snd (vv_tokenizer_decode_ex (Some t) (Some [i]) skip h)))"
proof -
  have no: "cp_to_byte ! 128 = - 1"
  proof (rule ccontr)
    assume "cp_to_byte ! 128 \<noteq> - 1"
    then obtain b where "b < 256" "alphabet_cp b = 128" using cp_to_byte_only [of 128] by auto
    then show False by (auto simp: alphabet_cp_def printable_def split: if_splits)
  qed
  have g: "utf8_get (0x80 # r) = (1, 0x80)" for r by (simp add: utf8_get_def)
  have d: "dec_cp 0x80 = [0xC2, 0x80]" using no by (simp add: dec_cp_def utf8_put_def)
  have "dec_bytes (0x80 # r) = [0xC2, 0x80] @ dec_bytes r" for r by (subst dec_bytes.simps) (simp add: g d)
  then have "length (decode_write t [i] skip) = 6" using assms by (simp add: decode_write_def decode_token_def)
  moreover have "decode_bound t [i] = 3" using assms by (simp add: decode_bound_def)
  moreover have nz: "(5 :: u64) \<noteq> 0" by simp
  obtain a h' where "vv_alloc 5 h = (Some a, h')" using vv_alloc_succeeds [OF assms(3) nz] .
  ultimately show ?thesis by (simp add: vv_tokenizer_decode_ex_def Let_def)
qed

theorem decode_overflows_on_invalid_utf8_witness:
  "h_bad (snd (snd (vv_tokenizer_decode_ex (Some ((empty_tokenizer 0)\<lparr>tk_id_to_token := [Some [0x80, 0x80, 0x80]]\<rparr>))
     (Some [0]) False demo_tok_heap)))"
  by (rule decode_overflows_on_invalid_utf8)
    (simp_all add: token_of_def id_capacity_def added_flag_def empty_tokenizer_def demo_tok_heap_ok)

subsection \<open>From a file to a text and back\<close>

text \<open>
  What the JSON has to promise for a text to survive: ids are not shared, every byte of the text has its token in the
  byte alphabet, every merge makes a token, and no added token is empty.
\<close>

definition closed_json :: "(string \<times> json) list \<Rightarrow> json list \<Rightarrow> json list \<Rightarrow> bytes \<Rightarrow> bool" where
  "closed_json kvs ms its s \<longleftrightarrow>
     distinct (map snd (vocab_pairs kvs) @ map (\<lambda>p. snd (fst p)) (added_pairs its)) \<and>
     (\<forall>b \<in> set s. enc_byte b \<in> fst ` set (vocab_pairs kvs)) \<and>
     (\<forall>p \<in> set (merge_pairs ms 0). fst (fst p) @ snd (fst p) \<in> fst ` set (vocab_pairs kvs)) \<and>
     (\<forall>p \<in> set (added_pairs its). fst (fst p) \<noteq> [])"

lemma or_minus1_nonneg: "0 \<le> or_minus1 r \<Longrightarrow> \<exists>i. r = Some i \<and> or_minus1 r = i"
  by (auto simp: or_minus1_def split: option.splits)

lemma map_of_nonneg:
  "\<forall>i \<in> snd ` set xs. 0 \<le> i \<Longrightarrow> k \<in> fst ` set xs \<Longrightarrow> 0 \<le> or_minus1 (map_of xs k)"
proof -
  assume nn: "\<forall>i \<in> snd ` set xs. 0 \<le> i" and "k \<in> fst ` set xs"
  then obtain i where "map_of xs k = Some i" by (metis map_of_eq_None_iff not_None_eq)
  then show ?thesis using nn by (force simp: or_minus1_def dest: map_of_SomeD)
qed

lemma zip_sentry: "zip (map fst xs) (map snd xs) = xs"
  by (induction xs) auto

lemma entries_of_pairs:
  "map entry_pair es = ps \<Longrightarrow> (k, i) \<in> set ps \<Longrightarrow> \<exists>e \<in> set es. ve_str e = k \<and> ve_id e = i"
  by (auto simp: entry_pair_def)

lemma loaded_tok_ok:
  assumes good: "good_json root kvs ms its" and closed: "closed_json kvs ms its s"
    and vget: "\<forall>s. vocab_get t s = Some (or_minus1 (map_of (vocab_pairs kvs) s))"
    and mget: "\<forall>a b. merge_rank t a b = Some (or_minus1 (map_of (merge_pairs ms 0) (a, b)))"
    and es: "map entry_pair es = vocab_pairs kvs" and se: "map (\<lambda>(e, f). (entry_pair e, f)) se = added_pairs its"
    and np: "\<forall>e \<in> set es \<union> fst ` set se. ve_ptr e \<noteq> None"
    and sent: "tk_sentry t = map fst (longest_first se)" "tk_s_is_special t = map snd (longest_first se)"
    and toks: "tk_id_to_token t = fold set_token (map fst (longest_first se)) (fold set_token es
      (replicate (nat (fold max (map (\<lambda>p. snd (fst p)) (added_pairs its)) (fold max (map snd (vocab_pairs kvs)) 0) + 1)) None))"
  shows "tok_ok t (\<lambda>s. or_minus1 (map_of (vocab_pairs kvs) s)) (\<lambda>a b. or_minus1 (map_of (merge_pairs ms 0) (a, b)))"
proof -
  let ?vg = "\<lambda>s. or_minus1 (map_of (vocab_pairs kvs) s)"
  let ?M = "fold max (map (\<lambda>p. snd (fst p)) (added_pairs its)) (fold max (map snd (vocab_pairs kvs)) 0)"
  let ?lf = "map fst (longest_first se)" and ?r = "replicate (nat (?M + 1)) None :: bytes option list"
  have nn: "\<forall>i \<in> snd ` set (vocab_pairs kvs). 0 \<le> i" "\<forall>p \<in> set (added_pairs its). 0 \<le> snd (fst p)"
    using good by (auto simp: good_json_def)
  have idv: "map ve_id es = map snd (vocab_pairs kvs)" unfolding es [symmetric] by (simp add: entry_pair_def)
  have ids: "map (\<lambda>x. ve_id (fst x)) se = map (\<lambda>p. snd (fst p)) (added_pairs its)"
    unfolding se [symmetric] by (simp add: entry_pair_def case_prod_beta)
  have lfset: "set ?lf = fst ` set se" using mset_longest_first [of se] by (metis set_mset_mset set_map)
  have dist: "distinct (map ve_id es)" "distinct (map ve_id ?lf)" "ve_id ` set es \<inter> ve_id ` set ?lf = {}"
  proof -
    have d: "distinct (map ve_id es @ map (\<lambda>x. ve_id (fst x)) se)" using closed unfolding idv ids by (simp add: closed_json_def)
    then show "distinct (map ve_id es)" by simp
    have "mset (map ve_id ?lf) = mset (map (\<lambda>x. ve_id (fst x)) se)"
      using mset_longest_first [of se] by (metis (no_types, lifting) comp_apply map_eq_conv map_map mset_map)
    then show "distinct (map ve_id ?lf)" using d by (metis distinct_append mset_eq_imp_distinct_iff)
    show "ve_id ` set es \<inter> ve_id ` set ?lf = {}" using d unfolding lfset by (auto simp: image_image)
  qed
  have max: "i \<le> ?M" if "i \<in> ve_id ` (set es \<union> set ?lf)" for i
  proof -
    have "i \<in> set (map snd (vocab_pairs kvs)) \<or> i \<in> set (map (\<lambda>p. snd (fst p)) (added_pairs its))"
      using that unfolding idv [symmetric] ids [symmetric] image_Un lfset by (auto simp: image_image)
    then show ?thesis
    proof
      assume "i \<in> set (map snd (vocab_pairs kvs))"
      from order_trans [OF fold_max_ge(2) [OF this] fold_max_ge(1)] show ?thesis .
    qed (rule fold_max_ge(2))
  qed
  have len: "int (length (tk_id_to_token t)) = ?M + 1" using order_trans [OF fold_max_ge(1) fold_max_ge(1), of 0] by (simp add: toks)
  have pos: "0 \<le> ve_id e" if "e \<in> set es \<union> set ?lf" for e
  proof -
    have "ve_id e \<in> snd ` set (vocab_pairs kvs) \<or> ve_id e \<in> (\<lambda>p. snd (fst p)) ` set (added_pairs its)"
      using that unfolding lfset es [symmetric] se [symmetric] by (auto simp: entry_pair_def image_iff) force+
    then show ?thesis using nn by auto
  qed
  have tv: "token_of t (ve_id e) = Some (ve_str e)" if e: "e \<in> set es" for e
  proof -
    have "ve_id e \<notin> ve_id ` set ?lf" using dist(3) e by auto
    then have "tk_id_to_token t ! nat (ve_id e) = fold set_token es ?r ! nat (ve_id e)"
      unfolding toks by (intro set_token_other) (use pos e in auto)
    also have "\<dots> = Some (ve_str e)" by (rule set_token_same) (use e dist(1) np pos max len toks in auto)
    finally show ?thesis using pos [of e] max [of "ve_id e"] e len by (simp add: token_of_def id_capacity_def)
  qed
  have ts: "token_of t (ve_id e) = Some (ve_str e)" if e: "e \<in> set ?lf" for e
  proof -
    have "tk_id_to_token t ! nat (ve_id e) = Some (ve_str e)"
      unfolding toks by (rule set_token_same) (use e dist(2) np pos max len toks lfset in auto)
    then show ?thesis using pos [of e] max [of "ve_id e"] e len by (simp add: token_of_def id_capacity_def)
  qed
  have fl: "added_flag t i = map_option snd (find (\<lambda>(e, f). ve_id e = i) (longest_first se))" for i
    unfolding added_flag_def sent zip_sentry ..
  have vok: "token_of t (?vg s) = Some s \<and> added_flag t (?vg s) = None" if v: "0 \<le> ?vg s" for s
  proof -
    obtain i where i: "map_of (vocab_pairs kvs) s = Some i" "?vg s = i" using or_minus1_nonneg [OF v] by auto
    obtain e where e: "e \<in> set es" "ve_str e = s" "ve_id e = i" using entries_of_pairs [OF es map_of_SomeD [OF i(1)]] by auto
    have "i \<notin> ve_id ` set ?lf" using dist(3) e by auto
    then have "find (\<lambda>(e, f). ve_id e = i) (longest_first se) = None" by (auto simp: find_None_iff image_iff)
    then show ?thesis using tv [OF e(1)] e i fl by simp
  qed
  have sok: "ve_ptr e \<noteq> None \<and> ve_str e \<noteq> [] \<and> token_of t (ve_id e) = Some (ve_str e) \<and> added_flag t (ve_id e) \<noteq> None"
    if e: "e \<in> set (tk_sentry t)" for e
  proof -
    have el: "e \<in> set ?lf" using e sent by simp
    then have "e \<in> fst ` set se" using lfset by simp
    then obtain f where f: "(e, f) \<in> set se" by auto
    then have "(entry_pair e, f) \<in> set (added_pairs its)" unfolding se [symmetric] by force
    then have "ve_str e \<noteq> []" using closed by (force simp: closed_json_def entry_pair_def)
    moreover have "find (\<lambda>(x, f). ve_id x = ve_id e) (longest_first se) \<noteq> None" using el by (auto simp: find_None_iff)
    ultimately show ?thesis using ts [OF el] np \<open>e \<in> fst ` set se\<close> by (auto simp: fl)
  qed
  have mok: "0 \<le> ?vg (a @ b)" if r: "0 \<le> or_minus1 (map_of (merge_pairs ms 0) (a, b))" for a b
  proof -
    obtain i where "map_of (merge_pairs ms 0) (a, b) = Some i" using or_minus1_nonneg [OF r] by auto
    then have m: "((a, b), i) \<in> set (merge_pairs ms 0)" by (rule map_of_SomeD)
    have "\<forall>p \<in> set (merge_pairs ms 0). fst (fst p) @ snd (fst p) \<in> fst ` set (vocab_pairs kvs)"
      using closed by (simp add: closed_json_def)
    from bspec [OF this m] have "a @ b \<in> fst ` set (vocab_pairs kvs)" by simp
    then show ?thesis by (rule map_of_nonneg [OF nn(1)])
  qed
  show ?thesis
    unfolding tok_ok_def
  proof (intro conjI)
    show "\<forall>a b. 0 \<le> or_minus1 (map_of (merge_pairs ms 0) (a, b)) \<longrightarrow> 0 \<le> ?vg (a @ b)" by (intro allI impI mok)
    show "\<forall>s. 0 \<le> ?vg s \<longrightarrow> token_of t (?vg s) = Some s \<and> added_flag t (?vg s) = None" by (intro allI impI vok)
    show "\<forall>e \<in> set (tk_sentry t). ve_ptr e \<noteq> None \<and> ve_str e \<noteq> [] \<and> token_of t (ve_id e) = Some (ve_str e) \<and>
        added_flag t (ve_id e) \<noteq> None" by (intro ballI sok)
  qed (rule vget, rule mget)
qed


text \<open>
  C5. What is encoded can be decoded. For a tokenizer loaded from a good and closed file, \<^verbatim>\<open>vv_tokenizer_encode\<close> returns
  for every text whose bytes the vocabulary covers, with or without added tokens in it, and \<^verbatim>\<open>vv_tokenizer_decode\<close> of
  the ids it returns is the text, byte by byte (or reports that it has no memory for it).
\<close>

theorem tokenizer_roundtrip:
  assumes host: "host_never_fails h" "sizes_ok h" "owns h M"
    and content: "fs (tokenizer_path d) = Some bs" "bs \<noteq> []" "length bs < 2 ^ 32" "json_parse bs = Some root"
    and good: "good_json root kvs ms its" and closed: "closed_json kvs ms its s" and len: "length s < 2 ^ 29"
  shows "\<exists>t h1 a ids h2. vv_tokenizer_load fs json_parse (Some d) h = Some (VV_OK, Some t, h1) \<and>
    vv_tokenizer_encode (Some t) (Some s) h1 = Some (VV_OK, Some (a, ids), h2) \<and>
    (\<exists>b h3. vv_tokenizer_decode (Some t) (Some ids) h2 \<in> {(VV_OK, Some (b, s), h3), (VV_ERR_OUT_OF_MEMORY, None, h3)})"
proof -
  obtain t es se h1 where ld: "vv_tokenizer_load fs json_parse (Some d) h = Some (VV_OK, Some t, h1)" "host_never_fails h1"
    and f: "\<forall>s. vocab_get t s = Some (or_minus1 (map_of (vocab_pairs kvs) s))"
      "\<forall>a b. merge_rank t a b = Some (or_minus1 (map_of (merge_pairs ms 0) (a, b)))"
      "map entry_pair es = vocab_pairs kvs" "map (\<lambda>(e, f). (entry_pair e, f)) se = added_pairs its"
      "\<forall>e \<in> set es \<union> fst ` set se. ve_ptr e \<noteq> None"
      "tk_sentry t = map fst (longest_first se)" "tk_s_is_special t = map snd (longest_first se)"
      "tk_id_to_token t = fold set_token (map fst (longest_first se)) (fold set_token es
        (replicate (nat (fold max (map (\<lambda>p. snd (fst p)) (added_pairs its)) (fold max (map snd (vocab_pairs kvs)) 0) + 1)) None))"
    using load_good [where M = M and fs = fs and json_parse = json_parse and d = d and bs = bs, OF host(1,2) content good]
    by (elim exE conjE) (rule that; assumption)
  note ok = loaded_tok_ok [OF good closed f]
  have "\<forall>i \<in> snd ` set (vocab_pairs kvs). 0 \<le> i" using good by (auto simp: good_json_def)
  then have "\<forall>b \<in> set s. 0 \<le> or_minus1 (map_of (vocab_pairs kvs) (enc_byte b))"
    using closed by (auto simp: closed_json_def intro: map_of_nonneg)
  from encode_calm [OF ok len this ld(2)]
  obtain a ids h2 where enc: "vv_tokenizer_encode (Some t) (Some s) h1 = Some (VV_OK, Some (a, ids), h2)"
    and dec: "decode_write t ids False = s" by blast
  have "\<exists>b h3. vv_tokenizer_decode (Some t) (Some ids) h2 \<in> {(VV_OK, Some (b, s), h3), (VV_ERR_OUT_OF_MEMORY, None, h3)}"
    using dec by (auto simp: vv_tokenizer_decode_def vv_tokenizer_decode_ex_def Let_def split: prod.splits option.splits)
  with ld(1) enc show ?thesis by blast
qed


lemma enc_byte_ascii: "33 \<le> unat b \<Longrightarrow> unat b \<le> 126 \<Longrightarrow> enc_byte b = [b]"
proof -
  assume b: "33 \<le> unat b" "unat b \<le> 126"
  then have "byte_to_cp ! unat b = of_nat (unat b)" using byte_to_cp_nth [of "unat b"] by (simp add: alphabet_cp_def printable_def)
  moreover have "(of_nat (unat b) :: u32) < 0x80" using b by (simp add: word_less_nat_alt unsigned_ucast_eq take_bit_nat_eq_self)
  moreover have "ucast (of_nat (unat b) :: u32) = b" by (rule bit_word_eqI) (simp add: bit_simps)
  ultimately show ?thesis by (simp add: enc_byte_def utf8_put_def)
qed

lemma demo_json_closed: "closed_json demo_vocab [JStr ''a b''] demo_added [97, 98, 97]"
  unfolding closed_json_def demo_pairs by (simp add: enc_byte_ascii)

theorem tokenizer_roundtrip_witness:
  "\<exists>t h1 a ids h2. vv_tokenizer_load demo_fs (\<lambda>_. Some demo_tok_json) (Some ''m'') demo_tok_heap = Some (VV_OK, Some t, h1) \<and>
    vv_tokenizer_encode (Some t) (Some [97, 98, 97]) h1 = Some (VV_OK, Some (a, ids), h2) \<and>
    (\<exists>b h3. vv_tokenizer_decode (Some t) (Some ids) h2 \<in> {(VV_OK, Some (b, [97, 98, 97]), h3), (VV_ERR_OUT_OF_MEMORY, None, h3)})"
  by (rule tokenizer_roundtrip [where fs = demo_fs and d = "''m''" and bs = "[123, 125]" and json_parse = "\<lambda>_. Some demo_tok_json",
      OF demo_tok_heap_ok demo_file _ _ refl demo_json_good demo_json_closed]) simp_all

lemma demo_encodes:
  "\<exists>t a ids h'. vv_tokenizer_encode (Some t) (Some [97, 98, 97]) demo_tok_heap = Some (VV_OK, Some (a, ids), h')"
proof -
  have len: "length [97, 98, 97 :: u8] < 2 ^ 29" by simp
  obtain t es se h1 where f: "\<forall>s. vocab_get t s = Some (or_minus1 (map_of (vocab_pairs demo_vocab) s))"
      "\<forall>a b. merge_rank t a b = Some (or_minus1 (map_of (merge_pairs [JStr ''a b''] 0) (a, b)))"
      "map entry_pair es = vocab_pairs demo_vocab" "map (\<lambda>(e, f). (entry_pair e, f)) se = added_pairs demo_added"
      "\<forall>e \<in> set es \<union> fst ` set se. ve_ptr e \<noteq> None"
      "tk_sentry t = map fst (longest_first se)" "tk_s_is_special t = map snd (longest_first se)"
      "tk_id_to_token t = fold set_token (map fst (longest_first se)) (fold set_token es
        (replicate (nat (fold max (map (\<lambda>p. snd (fst p)) (added_pairs demo_added)) (fold max (map snd (vocab_pairs demo_vocab)) 0) + 1)) None))"
    using load_tables_good [OF demo_tok_heap_ok(1,2) demo_json_good, of "empty_tokenizer 0"] by (elim exE conjE) (rule that; assumption)
  note ok = loaded_tok_ok [OF demo_json_good demo_json_closed f]
  have "\<forall>b \<in> set [97, 98, 97]. 0 \<le> or_minus1 (map_of (vocab_pairs demo_vocab) (enc_byte b))"
    unfolding demo_pairs by (simp add: enc_byte_ascii or_minus1_def)
  from encode_calm [OF ok len this demo_tok_heap_ok(1)] show ?thesis by blast
qed

theorem encode_no_leak_witness:
  "\<exists>t a ids h'. vv_tokenizer_encode (Some t) (Some [97, 98, 97]) demo_tok_heap = Some (VV_OK, Some (a, ids), h') \<and>
    owns h' {#(Host, a)#}"
  using demo_encodes encode_no_leak [OF demo_tok_heap_ok(3)] by fastforce

subsection \<open>An empty added token\<close>

text \<open>
  An added token with empty content matches at every \<^verbatim>\<open><\<close> and consumes nothing: encoding then pushes its id until the
  memory is used up, and never succeeds.
\<close>

lemma empty_added_never_ok:
  assumes s: "s ! pos = 60" "pos < length s" and e: "special_hit (tk_sentry t) (drop pos s) = Some (Some e)" "ve_str e = []"
    and ret: "encode_loop t s pos pos ib h = Some (st, rs, ib', h')"
  shows "st = VV_ERR_OUT_OF_MEMORY"
proof -
  have "t = t \<and> s = s \<and> pos = pos \<and> pos = pos \<longrightarrow> fst (st, rs, ib', h') = VV_ERR_OUT_OF_MEMORY"
  proof (rule encode_loop.raw_induct [where P = "\<lambda>t' s' p' r' ib h y. t' = t \<and> s' = s \<and> p' = pos \<and> r' = pos \<longrightarrow> fst y = VV_ERR_OUT_OF_MEMORY",
      OF _ ret], goal_cases)
    case (1 f t' s' p' r' ib h y)
    show ?case
    proof
      assume eq: "t' = t \<and> s' = s \<and> p' = pos \<and> r' = pos"
      obtain p h1 where p: "push_id (ve_id e) ib h = (p, h1)" by (metis surj_pair)
      show "fst y = VV_ERR_OUT_OF_MEMORY"
        using 1(2) 1(1) [of t s pos pos _ _ y] eq s e p by (cases p) auto
    qed
  qed
  then show ?thesis by simp
qed

end
