(* ===== verification/Gguf.thy ===== *)
theory Gguf
  imports Heap
begin

unbundle bit_operations_syntax

text \<open>
  The GGUF reader (\<^verbatim>\<open>src/model/gguf.c\<close>): type sizes, the bounds-checked cursor, the string arena, the metadata and
  tensor tables, opening and closing, and the accessors.

  The mapped file is a list of bytes and a pointer into it an offset. Numbers that come out of the file keep their
  width (\<open>u32\<close>, \<open>u64\<close>); positions in the file and in the arena, which the code has checked against the file's
  size, are naturals. The arena is the list of the bytes written to it so far, with the block and the capacity it has.
  What the code leaves to the platform is a parameter: the outcome of \<^verbatim>\<open>open\<close>, \<^verbatim>\<open>fstat\<close> and \<^verbatim>\<open>mmap\<close>, and the
  conversion of a \<^verbatim>\<open>float\<close> or an integer to a \<^verbatim>\<open>double\<close>, on bit patterns.
\<close>

definition GGUF_MAGIC :: u32 where [simp]: "GGUF_MAGIC = 0x46554747"
definition GGUF_DEFAULT_ALIGNMENT :: u32 where [simp]: "GGUF_DEFAULT_ALIGNMENT = 32"
definition GGUF_MAX_ARRAY_DEPTH :: nat where [simp]: "GGUF_MAX_ARRAY_DEPTH = 4"

subsection \<open>Type traits\<close>

definition VV_GGML_F32 :: u32 where [simp]: "VV_GGML_F32 = 0"
definition VV_GGML_F16 :: u32 where [simp]: "VV_GGML_F16 = 1"
definition VV_GGML_Q8_0 :: u32 where [simp]: "VV_GGML_Q8_0 = 8"
definition VV_GGML_Q6_K :: u32 where [simp]: "VV_GGML_Q6_K = 14"
definition VV_GGML_BF16 :: u32 where [simp]: "VV_GGML_BF16 = 30"
definition VV_GGML_I2_S :: u32 where [simp]: "VV_GGML_I2_S = 36"
definition VV_GGML_I8_S :: u32 where [simp]: "VV_GGML_I8_S = 37"

record ggml_traits =
  gt_type :: u32
  gt_name :: string
  gt_blck :: nat
  gt_size :: nat

definition k_traits :: "ggml_traits list" where
  "k_traits =
     map (\<lambda>(t, n, b, s). \<lparr>gt_type = t, gt_name = n, gt_blck = b, gt_size = s\<rparr>)
       [(0, ''f32'', 1, 4), (1, ''f16'', 1, 2), (2, ''q4_0'', 32, 18), (3, ''q4_1'', 32, 20),
        (6, ''q5_0'', 32, 22), (7, ''q5_1'', 32, 24), (8, ''q8_0'', 32, 34), (9, ''q8_1'', 32, 36),
        (10, ''q2_K'', 256, 84), (11, ''q3_K'', 256, 110), (12, ''q4_K'', 256, 144), (13, ''q5_K'', 256, 176),
        (14, ''q6_K'', 256, 210), (15, ''q8_K'', 256, 292), (24, ''i8'', 1, 1), (25, ''i16'', 1, 2),
        (26, ''i32'', 1, 4), (30, ''bf16'', 1, 2), (36, ''i2_s'', 1, 1), (37, ''i8_s'', 1, 1)]"

definition traits :: "u32 \<Rightarrow> ggml_traits option" where
  "traits ty = find (\<lambda>t. gt_type t = ty) k_traits"

definition vv_ggml_type_name :: "u32 \<Rightarrow> string" where
  "vv_ggml_type_name ty = (case traits ty of Some t \<Rightarrow> gt_name t | None \<Rightarrow> ''unknown'')"

text \<open>The product of the extents, \<open>None\<close> for one beyond \<open>2 ^ 62\<close>.\<close>

primrec ne_product :: "u64 list \<Rightarrow> u64 \<Rightarrow> u64 option" where
  "ne_product [] n = Some n"
| "ne_product (x # xs) n =
     (if x \<noteq> 0 \<and> n > 2 ^ 62 div x then None else ne_product xs (n * x))"

definition vv_ggml_nbytes :: "u32 \<Rightarrow> u64 list \<Rightarrow> u64" where
  "vv_ggml_nbytes ty ne =
     (case traits ty of
        None \<Rightarrow> 0
      | Some t \<Rightarrow>
          if \<exists>x \<in> set ne. sint x < 0 then 0
          else if unat (ne ! 0) mod gt_blck t \<noteq> 0 then 0
          else
            (case ne_product ne 1 of
               None \<Rightarrow> 0
             | Some n \<Rightarrow>
                 if ty = VV_GGML_I2_S then (if n mod 4 \<noteq> 0 then 0 else n div 4 + 32)
                 else if ty = VV_GGML_I8_S then n + 32
                 else n div of_nat (gt_blck t) * of_nat (gt_size t)))"

subsection \<open>The bounds-checked cursor\<close>

record cursor =
  cu_p :: nat
  cu_bad :: bool

definition cur_take :: "bytes \<Rightarrow> nat \<Rightarrow> cursor \<Rightarrow> bytes option \<times> cursor" where
  "cur_take img n c =
     (if cu_bad c \<or> length img - cu_p c < n then (None, c\<lparr>cu_bad := True\<rparr>)
      else (Some (take n (drop (cu_p c) img)), c\<lparr>cu_p := cu_p c + n\<rparr>))"

definition cur_u32 :: "bytes \<Rightarrow> cursor \<Rightarrow> u32 \<times> cursor" where
  "cur_u32 img c = (case cur_take img 4 c of (None, c) \<Rightarrow> (0, c) | (Some b, c) \<Rightarrow> (le32 b, c))"

definition cur_u64 :: "bytes \<Rightarrow> cursor \<Rightarrow> u64 \<times> cursor" where
  "cur_u64 img c = (case cur_take img 8 c of (None, c) \<Rightarrow> (0, c) | (Some b, c) \<Rightarrow> (le64 b, c))"

text \<open>Version 1 files have 32-bit counts and lengths.\<close>

definition cur_count :: "bytes \<Rightarrow> bool \<Rightarrow> cursor \<Rightarrow> u64 \<times> cursor" where
  "cur_count img v1 c = (if v1 then (case cur_u32 img c of (n, c) \<Rightarrow> (ucast n, c)) else cur_u64 img c)"

definition cur_left :: "bytes \<Rightarrow> cursor \<Rightarrow> nat" where
  "cur_left img c = length img - cu_p c"

subsection \<open>The handle\<close>

text \<open>
  A string is kept as an offset into the arena while the arena can still move (\<open>ArenaOff off\<close>, the integer
  \<open>off + 1\<close> in the code), then as a pointer into it; \<open>NoStr\<close> is the null pointer.
\<close>

datatype cstr = NoStr | ArenaOff nat | ArenaPtr nat

text \<open>The union of a metadata value is its 64 bits.\<close>

record gguf_kv =
  kv_key :: cstr
  kv_type :: u32
  kv_arr_type :: u32
  kv_arr_n :: u64
  kv_arr_data :: nat
  kv_v :: u64
  kv_str :: cstr

record gguf_tensor =
  tn_name :: cstr
  tn_n_dims :: nat
  tn_ne :: "u64 list"
  tn_type :: u32
  tn_offset :: u64
  tn_data :: "nat option"
  tn_nbytes :: u64

record gguf =
  gg_self :: nat
  gg_fd :: bool
  gg_owns_mapping :: bool
  gg_base :: bytes
  gg_version :: u32
  gg_alignment :: u32
  gg_data_offset :: nat
  gg_kvs_ptr :: "nat option"
  gg_kvs :: "gguf_kv list"
  gg_n_kv :: int
  gg_tensors_ptr :: "nat option"
  gg_tensors :: "gguf_tensor list"
  gg_n_tensors :: int
  gg_strings_ptr :: "nat option"
  gg_strings :: bytes
  gg_strings_cap :: nat

type_synonym gparse = "cursor \<times> gguf \<times> heap"

definition vv_gguf_nelements :: "gguf_tensor \<Rightarrow> u64" where
  "vv_gguf_nelements t = tn_ne t ! 0 * tn_ne t ! 1 * tn_ne t ! 2 * tn_ne t ! 3"

text \<open>The text a pointer into the arena shows: up to the first NUL.\<close>

definition cstr_text :: "gguf \<Rightarrow> cstr \<Rightarrow> bytes option" where
  "cstr_text g s = (case s of ArenaPtr off \<Rightarrow> Some (takeWhile (\<lambda>b. b \<noteq> 0) (drop off (gg_strings g))) | _ \<Rightarrow> None)"

function arena_cap :: "nat \<Rightarrow> nat \<Rightarrow> nat" where
  "arena_cap cap need = (if cap = 0 \<or> need \<le> cap then cap else arena_cap (cap * 2) need)"
  by auto
termination by (relation "measure (\<lambda>(cap, need). need - cap)") auto

declare arena_cap.simps [simp del]

definition arena_write :: "bytes \<Rightarrow> nat \<Rightarrow> gparse \<Rightarrow> cstr \<times> gparse" where
  "arena_write img len = (\<lambda>(c, g, h).
     (let off = length (gg_strings g);
          room = (case gg_strings_ptr g of None \<Rightarrow> False | Some a \<Rightarrow> off + len + 9 \<le> unat (h_raw h a))
      in (ArenaOff off,
          c\<lparr>cu_p := cu_p c + len\<rparr>,
          g\<lparr>gg_strings := gg_strings g @ take len (drop (cu_p c) img) @ [0]\<rparr>,
          if room then h else h\<lparr>h_bad := True\<rparr>)))"

definition cur_str :: "bytes \<Rightarrow> bool \<Rightarrow> gparse \<Rightarrow> cstr \<times> gparse" where
  "cur_str img v1 = (\<lambda>(c, g, h).
     (case cur_count img v1 c of
        (len, c) \<Rightarrow>
          if cu_bad c \<or> unat len > cur_left img c then (NoStr, c\<lparr>cu_bad := True\<rparr>, g, h)
          else
            let need = length (gg_strings g) + unat len + 1 in
            if need > gg_strings_cap g then
              let cap = arena_cap (if gg_strings_cap g \<noteq> 0 then gg_strings_cap g * 2 else 65536) need in
              (case vv_alloc (of_nat cap) h of
                 (None, h) \<Rightarrow> (NoStr, c\<lparr>cu_bad := True\<rparr>, g, h)
               | (Some grown, h) \<Rightarrow>
                   arena_write img (unat len)
                     (c, g\<lparr>gg_strings_ptr := Some grown, gg_strings_cap := cap\<rparr>, vv_free (gg_strings_ptr g) h))
            else arena_write img (unat len) (c, g, h)))"

definition resolve :: "cstr \<Rightarrow> cstr" where
  "resolve enc = (case enc of ArenaOff off \<Rightarrow> ArenaPtr off | _ \<Rightarrow> enc)"

subsection \<open>Metadata values\<close>

definition scalar_size :: "u32 \<Rightarrow> nat" where
  "scalar_size t =
     (if t = 0 \<or> t = 1 \<or> t = 7 then 1
      else if t = 2 \<or> t = 3 then 2
      else if t = 4 \<or> t = 5 \<or> t = 6 then 4
      else if t = 10 \<or> t = 11 \<or> t = 12 then 8
      else 0)"

definition VV_GGUF_STRING :: u32 where [simp]: "VV_GGUF_STRING = 8"
definition VV_GGUF_ARRAY :: u32 where [simp]: "VV_GGUF_ARRAY = 9"
definition VV_GGUF_U32 :: u32 where [simp]: "VV_GGUF_U32 = 4"
definition VV_GGUF_F32 :: u32 where [simp]: "VV_GGUF_F32 = 6"
definition VV_GGUF_F64 :: u32 where [simp]: "VV_GGUF_F64 = 12"

primrec repeat_ok :: "nat \<Rightarrow> (cursor \<Rightarrow> cursor) \<Rightarrow> cursor \<Rightarrow> cursor" where
  "repeat_ok 0 f c = c"
| "repeat_ok (Suc n) f c = (if cu_bad c then c else repeat_ok n f (f c))"

text \<open>A run of \<open>n\<close> scalars is stepped over at once.\<close>

definition skip_scalars :: "bytes \<Rightarrow> u64 \<Rightarrow> nat \<Rightarrow> cursor \<Rightarrow> cursor" where
  "skip_scalars img n esz c =
     (if cu_bad c \<or> unat n > cur_left img c div esz then c\<lparr>cu_bad := True\<rparr>
      else c\<lparr>cu_p := cu_p c + unat n * esz\<rparr>)"

text \<open>The argument \<open>d\<close> is the number of levels still allowed, \<^verbatim>\<open>GGUF_MAX_ARRAY_DEPTH + 1 - depth\<close>.\<close>

primrec skip_value :: "bytes \<Rightarrow> bool \<Rightarrow> nat \<Rightarrow> u32 \<Rightarrow> cursor \<Rightarrow> cursor" where
  "skip_value img v1 0 t c = c\<lparr>cu_bad := True\<rparr>"
| "skip_value img v1 (Suc d) t c =
     (if scalar_size t \<noteq> 0 then snd (cur_take img (scalar_size t) c)
      else if t = VV_GGUF_STRING then
        (case cur_count img v1 c of
           (len, c) \<Rightarrow>
             if cu_bad c \<or> unat len > cur_left img c then c\<lparr>cu_bad := True\<rparr>
             else c\<lparr>cu_p := cu_p c + unat len\<rparr>)
      else if t = VV_GGUF_ARRAY then
        (case cur_u32 img c of
           (et, c) \<Rightarrow>
             (case cur_count img v1 c of
                (n, c) \<Rightarrow>
                  if scalar_size et \<noteq> 0 then skip_scalars img n (scalar_size et) c
                  else repeat_ok (unat n) (skip_value img v1 d et) c))
      else c\<lparr>cu_bad := True\<rparr>)"

text \<open>
  The eight bytes of \<^verbatim>\<open>buf\<close> start as zeros, so a short value leaves zeros above it. \<open>f2d\<close> is the conversion from
  \<^verbatim>\<open>float\<close> to \<^verbatim>\<open>double\<close>.
\<close>

definition read_scalar :: "(u32 \<Rightarrow> u64) \<Rightarrow> bytes \<Rightarrow> u32 \<Rightarrow> cursor \<Rightarrow> u64 \<times> cursor" where
  "read_scalar f2d img t c =
     (case cur_take img (scalar_size t) c of
        (b, c) \<Rightarrow>
          let buf = le64 (case b of None \<Rightarrow> [] | Some b \<Rightarrow> b) in
          if t = 0 then (ucast (ucast buf :: u8), c)
          else if t = 7 then (if (ucast buf :: u8) \<noteq> 0 then 1 else 0, c)
          else if t = 1 then (scast (ucast buf :: u8), c)
          else if t = 2 then (ucast (ucast buf :: u16), c)
          else if t = 3 then (scast (ucast buf :: u16), c)
          else if t = 4 then (ucast (ucast buf :: u32), c)
          else if t = 5 then (scast (ucast buf :: u32), c)
          else if t = 6 then (f2d (ucast buf), c)
          else if t = 10 \<or> t = 11 \<or> t = 12 then (buf, c)
          else (0, c\<lparr>cu_bad := True\<rparr>))"

subsection \<open>Parsing\<close>

definition int_of_count :: "nat \<Rightarrow> int" where
  "int_of_count n = signed_take_bit 31 (int n)"

text \<open>One metadata entry. A \<^verbatim>\<open>break\<close> leaves \<open>n_kv\<close> as it is.\<close>

definition add_kv :: "gguf_kv \<Rightarrow> gguf \<Rightarrow> gguf" where
  "add_kv kv g = g\<lparr>gg_kvs := gg_kvs g @ [kv], gg_n_kv := int_of_count (length (gg_kvs g) + 1)\<rparr>"

definition no_kv :: gguf_kv where
  "no_kv = \<lparr>kv_key = NoStr, kv_type = 0, kv_arr_type = 0, kv_arr_n = 0, kv_arr_data = 0, kv_v = 0, kv_str = NoStr\<rparr>"

definition parse_array :: "bytes \<Rightarrow> bool \<Rightarrow> gguf_kv \<Rightarrow> gparse \<Rightarrow> gparse" where
  "parse_array img v1 kv = (\<lambda>(c, g, h).
     (case cur_u32 img c of
        (et, c) \<Rightarrow>
          (case cur_count img v1 c of
             (n, c) \<Rightarrow>
               let kv = kv\<lparr>kv_arr_type := et, kv_arr_n := n, kv_arr_data := cu_p c\<rparr>; esz = scalar_size et in
               if esz \<noteq> 0 then
                 if unat n > cur_left img c div esz then (c\<lparr>cu_bad := True\<rparr>, g, h)
                 else (c\<lparr>cu_p := cu_p c + unat n * esz\<rparr>, add_kv kv g, h)
               else (repeat_ok (unat n) (skip_value img v1 GGUF_MAX_ARRAY_DEPTH et) c, add_kv kv g, h))))"

definition parse_kv :: "(u32 \<Rightarrow> u64) \<Rightarrow> bytes \<Rightarrow> bool \<Rightarrow> gparse \<Rightarrow> gparse" where
  "parse_kv f2d img v1 s =
     (case cur_str img v1 s of
        (key, c, g, h) \<Rightarrow>
          (case cur_u32 img c of
             (ty, c) \<Rightarrow>
               let kv = no_kv\<lparr>kv_key := key, kv_type := ty\<rparr> in
               if cu_bad c then (c, g, h)
               else if ty = VV_GGUF_STRING then
                 (case cur_str img v1 (c, g, h) of (str, c, g, h) \<Rightarrow> (c, add_kv (kv\<lparr>kv_str := str\<rparr>) g, h))
               else if ty = VV_GGUF_ARRAY then parse_array img v1 kv (c, g, h)
               else if scalar_size ty \<noteq> 0 then
                 (case read_scalar f2d img ty c of (v, c) \<Rightarrow> (c, add_kv (kv\<lparr>kv_v := v\<rparr>) g, h))
               else (c\<lparr>cu_bad := True\<rparr>, add_kv kv g, h)))"

text \<open>A loop that stops when the cursor has gone bad.\<close>

primrec parse_loop :: "nat \<Rightarrow> (gparse \<Rightarrow> gparse) \<Rightarrow> gparse \<Rightarrow> gparse" where
  "parse_loop 0 f s = s"
| "parse_loop (Suc n) f s = (if cu_bad (fst s) then s else parse_loop n f (f s))"

text \<open>The extents: \<open>nd\<close> are read, the others are 1. Reading stops at one that is out of range.\<close>

primrec read_ne :: "bytes \<Rightarrow> bool \<Rightarrow> nat \<Rightarrow> u64 list \<Rightarrow> cursor \<Rightarrow> u64 list \<times> cursor" where
  "read_ne img v1 0 acc c = (acc, c)"
| "read_ne img v1 (Suc n) acc c =
     (case cur_count img v1 c of
        (ne, c) \<Rightarrow> if ne > 2 ^ 40 then (acc, c\<lparr>cu_bad := True\<rparr>) else read_ne img v1 n (acc @ [ne]) c)"

definition pad_ne :: "u64 list \<Rightarrow> u64 list" where
  "pad_ne ne = ne @ replicate (4 - length ne) 1"

definition add_tensor :: "gguf_tensor \<Rightarrow> gguf \<Rightarrow> gguf" where
  "add_tensor t g =
     g\<lparr>gg_tensors := gg_tensors g @ [t], gg_n_tensors := int_of_count (length (gg_tensors g) + 1)\<rparr>"

definition parse_tensor :: "bytes \<Rightarrow> bool \<Rightarrow> gparse \<Rightarrow> gparse" where
  "parse_tensor img v1 s =
     (case cur_str img v1 s of
        (name, c, g, h) \<Rightarrow>
          (case cur_u32 img c of
             (nd, c) \<Rightarrow>
               if cu_bad c \<or> nd < 1 \<or> nd > 4 then (c\<lparr>cu_bad := True\<rparr>, g, h)
               else
                 (case read_ne img v1 (unat nd) [] c of
                    (ne, c) \<Rightarrow>
                      (case cur_u32 img c of
                         (ty, c) \<Rightarrow>
                           (case cur_u64 img c of
                              (off, c) \<Rightarrow>
                                (c, add_tensor \<lparr>tn_name = name, tn_n_dims = unat nd, tn_ne = pad_ne ne, tn_type = ty,
                                      tn_offset = off, tn_data = None, tn_nbytes = 0\<rparr> g, h))))))"

text \<open>Names become pointers; a missing one is an error.\<close>

definition resolve_kvs :: "gguf \<Rightarrow> gguf" where
  "resolve_kvs g = g\<lparr>gg_kvs := map (\<lambda>kv. kv\<lparr>kv_key := resolve (kv_key kv), kv_str := resolve (kv_str kv)\<rparr>)
       (take (nat (gg_n_kv g)) (gg_kvs g)) @ drop (nat (gg_n_kv g)) (gg_kvs g)\<rparr>"

definition resolve_tensors :: "gguf \<Rightarrow> gguf" where
  "resolve_tensors g = g\<lparr>gg_tensors := map (\<lambda>t. t\<lparr>tn_name := resolve (tn_name t)\<rparr>)
       (take (nat (gg_n_tensors g)) (gg_tensors g)) @ drop (nat (gg_n_tensors g)) (gg_tensors g)\<rparr>"

definition names_ok :: "gguf \<Rightarrow> bool" where
  "names_ok g \<longleftrightarrow> list_all (\<lambda>kv. kv_key kv \<noteq> NoStr) (take (nat (gg_n_kv g)) (gg_kvs g)) \<and>
     list_all (\<lambda>t. tn_name t \<noteq> NoStr) (take (nat (gg_n_tensors g)) (gg_tensors g))"

definition vv_gguf_find_kv :: "gguf \<Rightarrow> bytes \<Rightarrow> gguf_kv option" where
  "vv_gguf_find_kv g key =
     find (\<lambda>kv. kv_key kv \<noteq> NoStr \<and> cstr_text g (kv_key kv) = Some key) (take (nat (gg_n_kv g)) (gg_kvs g))"

text \<open>\<^verbatim>\<open>general.alignment\<close>: a \<open>u32\<close>, a power of two, at most 65536. \<open>None\<close> is the error.\<close>

definition read_alignment :: "gguf \<Rightarrow> u32 option" where
  "read_alignment g =
     (case vv_gguf_find_kv g (ascii ''general.alignment'') of
        None \<Rightarrow> Some GGUF_DEFAULT_ALIGNMENT
      | Some al \<Rightarrow>
          let a = kv_v al in
          if kv_type al \<noteq> VV_GGUF_U32 \<or> a = 0 \<or> a AND (a - 1) \<noteq> 0 \<or> a > 65536 then None else Some (ucast a))"

text \<open>Where one tensor lies; \<open>None\<close> is the error.\<close>

definition place_tensor :: "gguf \<Rightarrow> gguf_tensor \<Rightarrow> gguf_tensor option" where
  "place_tensor g t =
     (let nb = vv_ggml_nbytes (tn_type t) (tn_ne t); data_size = length (gg_base g) - gg_data_offset g in
      if traits (tn_type t) = None then Some t
      else if nb = 0 \<and> vv_gguf_nelements t \<noteq> 0 then None
      else if unat (tn_offset t) mod unat (gg_alignment g) \<noteq> 0 \<or> unat (tn_offset t) > data_size \<or>
              unat nb > data_size - unat (tn_offset t) then None
      else Some (t\<lparr>tn_nbytes := nb, tn_data := Some (gg_data_offset g + unat (tn_offset t))\<rparr>))"

primrec place_tensors :: "gguf \<Rightarrow> gguf_tensor list \<Rightarrow> gguf_tensor list option" where
  "place_tensors g [] = Some []"
| "place_tensors g (t # ts) =
     (case place_tensor g t of
        None \<Rightarrow> None
      | Some t \<Rightarrow> (case place_tensors g ts of None \<Rightarrow> None | Some ts \<Rightarrow> Some (t # ts)))"

text \<open>From the filled tables on.\<close>

definition finish_parse :: "cursor \<Rightarrow> gguf \<Rightarrow> vv_status \<times> gguf" where
  "finish_parse c g =
     (let g = resolve_tensors (resolve_kvs g) in
      if \<not> names_ok g then (VV_ERR_PARSE, g)
      else
        (case read_alignment g of
           None \<Rightarrow> (VV_ERR_PARSE, g)
         | Some al \<Rightarrow>
             let g = g\<lparr>gg_alignment := al,
                       gg_data_offset := (cu_p c + unat al - 1) div unat al * unat al\<rparr> in
             if gg_data_offset g > length (gg_base g) then (VV_ERR_PARSE, g)
             else
               (case place_tensors g (take (nat (gg_n_tensors g)) (gg_tensors g)) of
                  None \<Rightarrow> (VV_ERR_PARSE, g)
                | Some ts \<Rightarrow> (VV_OK, g\<lparr>gg_tensors := ts @ drop (nat (gg_n_tensors g)) (gg_tensors g)\<rparr>))))"

definition parse_tables :: "(u32 \<Rightarrow> u64) \<Rightarrow> bool \<Rightarrow> nat \<Rightarrow> nat \<Rightarrow> gparse \<Rightarrow> vv_status \<times> gguf \<times> heap" where
  "parse_tables f2d v1 n_kv n_tensors = (\<lambda>(c, g, h).
     (case parse_loop n_kv (parse_kv f2d (gg_base g) v1) (c, g, h) of
        (c, g, h) \<Rightarrow>
          if cu_bad c then (VV_ERR_PARSE, g, h)
          else
            (case parse_loop n_tensors (parse_tensor (gg_base g) v1) (c, g, h) of
               (c, g, h) \<Rightarrow>
                 if cu_bad c then (VV_ERR_PARSE, g, h)
                 else (case finish_parse c g of (s, g) \<Rightarrow> (s, g, h)))))"

definition alloc_tables :: "u64 \<Rightarrow> u64 \<Rightarrow> gguf \<Rightarrow> heap \<Rightarrow> gguf \<times> heap" where
  "alloc_tables n_kv n_tensors g h =
     (case vv_alloc (h_sizeof h ''vv_gguf_kv_t'' * (if n_kv \<noteq> 0 then n_kv else 1)) h of
        (kvs, h) \<Rightarrow>
          (case vv_alloc (h_sizeof h ''vv_gguf_tensor_t'' * (if n_tensors \<noteq> 0 then n_tensors else 1)) h of
             (tensors, h) \<Rightarrow> (g\<lparr>gg_kvs_ptr := kvs, gg_tensors_ptr := tensors\<rparr>, h)))"

definition parse :: "(u32 \<Rightarrow> u64) \<Rightarrow> gguf \<Rightarrow> heap \<Rightarrow> vv_status \<times> gguf \<times> heap" where
  "parse f2d g h =
     (let img = gg_base g in
      case cur_u32 img \<lparr>cu_p = 0, cu_bad = False\<rparr> of
        (magic, c) \<Rightarrow>
          if cu_bad c \<or> magic \<noteq> GGUF_MAGIC then (VV_ERR_PARSE, g, h)
          else
            (case cur_u32 img c of
               (version, c) \<Rightarrow>
                 let g = g\<lparr>gg_version := version\<rparr>; v1 = (version = 1) in
                 if version < 1 \<or> version > 3 then (VV_ERR_MODEL_VERSION, g, h)
                 else
                   (case cur_count img v1 c of
                      (n_tensors, c) \<Rightarrow>
                        (case cur_count img v1 c of
                           (n_kv, c) \<Rightarrow>
                             if cu_bad c then (VV_ERR_PARSE, g, h)
                             else if unat n_kv > cur_left img c div 12 \<or> unat n_tensors > cur_left img c div 28 \<or>
                                     unat n_tensors > 2 ^ 20 then (VV_ERR_PARSE, g, h)
                             else
                               (case alloc_tables n_kv n_tensors g h of
                                  (g, h) \<Rightarrow>
                                    if gg_kvs_ptr g = None \<or> gg_tensors_ptr g = None
                                    then (VV_ERR_OUT_OF_MEMORY, g, h)
                                    else parse_tables f2d v1 (unat n_kv) (unat n_tensors)
                                           (c, g\<lparr>gg_alignment := GGUF_DEFAULT_ALIGNMENT\<rparr>, h))))))"

subsection \<open>Opening and closing\<close>

definition new_handle :: "heap \<Rightarrow> gguf option \<times> heap" where
  "new_handle h =
     (case vv_alloc (h_sizeof h ''vv_gguf_t'') h of
        (None, h) \<Rightarrow> (None, h)
      | (Some self, h) \<Rightarrow>
          (Some \<lparr>gg_self = self, gg_fd = False, gg_owns_mapping = False, gg_base = [], gg_version = 0, gg_alignment = 0,
             gg_data_offset = 0, gg_kvs_ptr = None, gg_kvs = [], gg_n_kv = 0, gg_tensors_ptr = None, gg_tensors = [],
             gg_n_tensors = 0, gg_strings_ptr = None, gg_strings = [], gg_strings_cap = 0\<rparr>, h))"

definition vv_gguf_close :: "gguf option \<Rightarrow> heap \<times> os \<Rightarrow> heap \<times> os" where
  "vv_gguf_close g = (\<lambda>(h, w).
     (case g of
        None \<Rightarrow> (h, w)
      | Some g \<Rightarrow>
          let w = (if gg_owns_mapping g then w\<lparr>os_maps := os_maps w - 1\<rparr> else w);
              w = (if gg_fd g then w\<lparr>os_fds := os_fds w - 1\<rparr> else w)
          in (vv_free (Some (gg_self g)) (vv_free (gg_strings_ptr g)
                (vv_free (gg_tensors_ptr g) (vv_free (gg_kvs_ptr g) h))), w)))"

type_synonym gguf_result = "vv_status \<times> gguf option \<times> heap \<times> os"

definition gguf_fail :: "vv_status \<Rightarrow> gguf \<Rightarrow> heap \<Rightarrow> os \<Rightarrow> gguf_result" where
  "gguf_fail s g h w = (case vv_gguf_close (Some g) (h, w) of (h, w) \<Rightarrow> (s, None, h, w))"

definition vv_gguf_open_memory :: "(u32 \<Rightarrow> u64) \<Rightarrow> bytes option \<Rightarrow> heap \<Rightarrow> os \<Rightarrow> gguf_result" where
  "vv_gguf_open_memory f2d data h w =
     (case data of
        None \<Rightarrow> (VV_ERR_NULL_PTR, None, h, w)
      | Some data \<Rightarrow>
          (case new_handle h of
             (None, h) \<Rightarrow> (VV_ERR_OUT_OF_MEMORY, None, h, w)
           | (Some g, h) \<Rightarrow>
               (case parse f2d (g\<lparr>gg_base := data\<rparr>) h of
                  (s, g, h) \<Rightarrow> if s \<noteq> VV_OK then gguf_fail s g h w else (VV_OK, Some g, h, w))))"

definition vv_gguf_open :: "(u32 \<Rightarrow> u64) \<Rightarrow> file_system option \<Rightarrow> heap \<Rightarrow> os \<Rightarrow> gguf_result" where
  "vv_gguf_open f2d path h w =
     (case path of
        None \<Rightarrow> (VV_ERR_NULL_PTR, None, h, w)
      | Some fs \<Rightarrow>
          (case new_handle h of
             (None, h) \<Rightarrow> (VV_ERR_OUT_OF_MEMORY, None, h, w)
           | (Some g, h) \<Rightarrow>
               (case fs of
                  NoFile \<Rightarrow> gguf_fail VV_ERR_IO g h w
                | NoSize \<Rightarrow> gguf_fail VV_ERR_IO (g\<lparr>gg_fd := True\<rparr>) h (w\<lparr>os_fds := os_fds w + 1\<rparr>)
                | NoMap \<Rightarrow> gguf_fail VV_ERR_IO (g\<lparr>gg_fd := True\<rparr>) h (w\<lparr>os_fds := os_fds w + 1\<rparr>)
                | Mapped data \<Rightarrow>
                    let w = w\<lparr>os_fds := os_fds w + 1, os_maps := os_maps w + 1\<rparr> in
                    (case parse f2d (g\<lparr>gg_fd := True, gg_base := data, gg_owns_mapping := True\<rparr>) h of
                       (s, g, h) \<Rightarrow> if s \<noteq> VV_OK then gguf_fail s g h w else (VV_OK, Some g, h, w)))))"

subsection \<open>Accessors\<close>

definition vv_gguf_version :: "gguf option \<Rightarrow> u32" where
  "vv_gguf_version g = (case g of Some g \<Rightarrow> gg_version g | None \<Rightarrow> 0)"

definition vv_gguf_alignment :: "gguf option \<Rightarrow> u32" where
  "vv_gguf_alignment g = (case g of Some g \<Rightarrow> gg_alignment g | None \<Rightarrow> 0)"

definition vv_gguf_data_offset :: "gguf option \<Rightarrow> nat" where
  "vv_gguf_data_offset g = (case g of Some g \<Rightarrow> gg_data_offset g | None \<Rightarrow> 0)"

definition vv_gguf_n_tensors :: "gguf option \<Rightarrow> int" where
  "vv_gguf_n_tensors g = (case g of Some g \<Rightarrow> gg_n_tensors g | None \<Rightarrow> 0)"

definition vv_gguf_n_kv :: "gguf option \<Rightarrow> int" where
  "vv_gguf_n_kv g = (case g of Some g \<Rightarrow> gg_n_kv g | None \<Rightarrow> 0)"

definition vv_gguf_tensor :: "gguf option \<Rightarrow> int \<Rightarrow> gguf_tensor option" where
  "vv_gguf_tensor g i =
     (case g of Some g \<Rightarrow> if 0 \<le> i \<and> i < gg_n_tensors g then Some (gg_tensors g ! nat i) else None | None \<Rightarrow> None)"

definition vv_gguf_kv :: "gguf option \<Rightarrow> int \<Rightarrow> gguf_kv option" where
  "vv_gguf_kv g i =
     (case g of Some g \<Rightarrow> if 0 \<le> i \<and> i < gg_n_kv g then Some (gg_kvs g ! nat i) else None | None \<Rightarrow> None)"

definition vv_gguf_find_tensor :: "gguf \<Rightarrow> bytes \<Rightarrow> gguf_tensor option" where
  "vv_gguf_find_tensor g name =
     find (\<lambda>t. cstr_text g (tn_name t) = Some name) (take (nat (gg_n_tensors g)) (gg_tensors g))"

definition vv_gguf_get_int :: "gguf \<Rightarrow> bytes \<Rightarrow> int \<Rightarrow> int" where
  "vv_gguf_get_int g key dflt =
     (case vv_gguf_find_kv g key of
        None \<Rightarrow> dflt
      | Some kv \<Rightarrow> if kv_type kv \<in> {0, 2, 4, 7, 10, 1, 3, 5, 11} then sint (kv_v kv) else dflt)"

text \<open>Doubles are bit patterns; \<open>i2d\<close> is the conversion of an integer.\<close>

definition vv_gguf_get_float :: "(int \<Rightarrow> u64) \<Rightarrow> gguf \<Rightarrow> bytes \<Rightarrow> u64 \<Rightarrow> u64" where
  "vv_gguf_get_float i2d g key dflt =
     (case vv_gguf_find_kv g key of
        None \<Rightarrow> dflt
      | Some kv \<Rightarrow>
          if kv_type kv = VV_GGUF_F32 \<or> kv_type kv = VV_GGUF_F64 then kv_v kv
          else
            let sentinel = - (2 ^ 63); i = vv_gguf_get_int g key sentinel in
            if i = sentinel then dflt else i2d i)"

definition vv_gguf_get_str :: "gguf \<Rightarrow> bytes \<Rightarrow> cstr" where
  "vv_gguf_get_str g key =
     (case vv_gguf_find_kv g key of
        Some kv \<Rightarrow> if kv_type kv = VV_GGUF_STRING then kv_str kv else NoStr
      | None \<Rightarrow> NoStr)"

text \<open>
  Element \<open>idx\<close> of a string array: its position and its length. The walk does not check anything again: \<open>Inl p\<close> is a
  read of a length beyond the end of the mapping, at \<open>p\<close>. The pointer is a 64-bit word.
\<close>

primrec arr_str_walk :: "bytes \<Rightarrow> nat \<Rightarrow> u64 \<Rightarrow> u64 + (u64 \<times> u64)" where
  "arr_str_walk img 0 p =
     (if unat p + 8 > length img then Inl p
      else Inr (p + 8, le64 (drop (unat p) img)))"
| "arr_str_walk img (Suc i) p =
     (if unat p + 8 > length img then Inl p
      else arr_str_walk img i (p + 8 + le64 (drop (unat p) img)))"

definition vv_gguf_arr_str :: "bytes \<Rightarrow> gguf_kv option \<Rightarrow> u64 \<Rightarrow> (u64 + (u64 \<times> u64)) option" where
  "vv_gguf_arr_str img kv idx =
     (case kv of
        None \<Rightarrow> None
      | Some kv \<Rightarrow>
          if kv_type kv \<noteq> VV_GGUF_ARRAY \<or> kv_arr_type kv \<noteq> VV_GGUF_STRING \<or> kv_arr_n kv \<le> idx then None
          else Some (arr_str_walk img (unat idx) (of_nat (kv_arr_data kv))))"

end
