(* ===== verification/GgufSafe.thy ===== *)
theory GgufSafe
  imports Gguf
begin

unbundle bit_operations_syntax

text \<open>
  What the GGUF reader guarantees: the sizes are exact, the cursor and the arena stay inside their blocks, opening is all or
  nothing, and what a successful open hands out lies inside the file; and two things it lets through.
\<close>

subsection \<open>Sizes\<close>

lemma traits_Some:
  "traits ty = Some t \<Longrightarrow> 0 < gt_blck t \<and> gt_size t < 2 ^ 9 \<and> gt_blck t \<le> 256 \<and> gt_size t \<le> 4 * gt_blck t \<and> 0 < gt_size t"
  by (auto simp: traits_def k_traits_def split: if_splits)

lemma ne_product_exact:
  "ne_product xs n = Some m \<Longrightarrow> unat n \<le> 2 ^ 62 \<Longrightarrow>
   unat m = unat n * prod_list (map unat xs) \<and> unat m \<le> 2 ^ 62"
proof (induction xs arbitrary: n)
  case Nil
  then show ?case by simp
next
  case (Cons x xs)
  have le: "unat n * unat x \<le> 2 ^ 62"
  proof (cases "x = 0")
    case False
    then have "n \<le> 2 ^ 62 div x" using Cons.prems(1) by (auto split: if_splits)
    then have "unat n \<le> 2 ^ 62 div unat x" by (simp add: word_le_nat_alt unat_div_distrib)
    then have "unat n * unat x \<le> 2 ^ 62 div unat x * unat x" by simp
    also have "\<dots> \<le> 2 ^ 62" by (rule div_times_less_eq_dividend)
    finally show ?thesis .
  qed simp
  then have u: "unat (n * x) = unat n * unat x" by (simp add: unat_word_ariths)
  have "ne_product xs (n * x) = Some m" using Cons.prems(1) by (auto split: if_splits)
  from Cons.IH [OF this] u le show ?case by (simp add: mult.assoc)
qed

text \<open>The size of a tensor, without machine arithmetic.\<close>

definition ggml_size :: "u32 \<Rightarrow> ggml_traits \<Rightarrow> nat \<Rightarrow> nat" where
  "ggml_size ty t n =
     (if ty = VV_GGML_I2_S then n div 4 + 32 else if ty = VV_GGML_I8_S then n + 32
      else n div gt_blck t * gt_size t)"

lemma nbytes_of_product:
  assumes t: "traits ty = Some t" and p: "ne_product ne 1 = Some n" and n: "unat n < 2 ^ 62"
    and nb: "vv_ggml_nbytes ty ne \<noteq> 0"
  shows "unat (vv_ggml_nbytes ty ne) = ggml_size ty t (unat n)"
proof -
  have v: "vv_ggml_nbytes ty ne =
      (if ty = VV_GGML_I2_S then n div 4 + 32 else if ty = VV_GGML_I8_S then n + 32
       else n div of_nat (gt_blck t) * of_nat (gt_size t))"
    using t p nb by (auto simp: vv_ggml_nbytes_def split: if_splits)
  have b: "unat (of_nat (gt_blck t) :: u64) = gt_blck t" "unat (of_nat (gt_size t) :: u64) = gt_size t"
    using traits_Some [OF t] by (auto simp: unat_of_nat)
  have "unat n div gt_blck t * gt_size t \<le> unat n div gt_blck t * (4 * gt_blck t)"
    using traits_Some [OF t] by simp
  also have "\<dots> \<le> 4 * unat n" using div_times_less_eq_dividend [of "unat n" "gt_blck t"] by linarith
  finally have lt: "unat n div gt_blck t * gt_size t < 2 ^ 64" using n by simp
  have dm: "unat n div gt_blck t < 2 ^ 64" by (rule order_le_less_trans [OF div_le_dividend]) (use n in simp)
  have u: "unat (n div of_nat (gt_blck t) * of_nat (gt_size t)) = unat n div gt_blck t * gt_size t"
    using lt b dm
    by (simp add: unat_word_ariths unat_div_distrib)
  have i: "unat (n div 4 + 32) = unat n div 4 + 32" "unat (n + 32) = unat n + 32"
    using n by (simp_all add: unat_word_ariths unat_div_distrib)
  show ?thesis using u i by (simp add: v ggml_size_def)
qed

lemma nbytes_at_limit:
  assumes t: "traits ty = Some t" and p: "ne_product ne 1 = Some n" and n: "unat n = 2 ^ 62"
    and nb: "vv_ggml_nbytes ty ne \<noteq> 0"
  shows "unat (vv_ggml_nbytes ty ne) = ggml_size ty t (unat n)"
proof -
  have nn: "n = 2 ^ 62" using n by (simp add: word_unat_eq_iff)
  from t p nb show ?thesis
    by (auto simp: vv_ggml_nbytes_def traits_def k_traits_def nn ggml_size_def split: if_splits)
qed

lemma nbytes_exact:
  assumes t: "traits ty = Some t" and nb: "vv_ggml_nbytes ty ne \<noteq> 0"
  shows "unat (vv_ggml_nbytes ty ne) = ggml_size ty t (prod_list (map unat ne))" "prod_list (map unat ne) \<le> 2 ^ 62"
    and "unat (ne ! 0) mod gt_blck t = 0"
proof -
  obtain n where n: "ne_product ne 1 = Some n" using t nb by (auto simp: vv_ggml_nbytes_def split: option.splits if_splits)
  from ne_product_exact [OF this] have e: "unat n = prod_list (map unat ne)" "unat n \<le> 2 ^ 62" by simp_all
  then show "prod_list (map unat ne) \<le> 2 ^ 62" by simp
  from e(2) consider "unat n < 2 ^ 62" | "unat n = 2 ^ 62" by linarith
  then have "unat (vv_ggml_nbytes ty ne) = ggml_size ty t (unat n)"
    using nbytes_of_product [OF t n] nbytes_at_limit [OF t n] nb by metis
  then show "unat (vv_ggml_nbytes ty ne) = ggml_size ty t (prod_list (map unat ne))" by (simp add: e)
  show "unat (ne ! 0) mod gt_blck t = 0" using t nb by (auto simp: vv_ggml_nbytes_def split: if_splits)
qed

subsection \<open>The cursor\<close>

lemma cur_take_ok:
  "cur_take img n c = (b, c') \<Longrightarrow> cu_p c \<le> length img \<Longrightarrow>
   cu_p c' \<le> length img \<and> cu_p c \<le> cu_p c' \<and> (\<not> cu_bad c' \<longrightarrow> \<not> cu_bad c \<and> cu_p c' = cu_p c + n \<and> b = Some (take n (drop (cu_p c) img)))"
  by (auto simp: cur_take_def split: if_splits)

lemma cur_u32_ok:
  "cur_u32 img c = (v, c') \<Longrightarrow> cu_p c \<le> length img \<Longrightarrow>
   cu_p c' \<le> length img \<and> cu_p c \<le> cu_p c' \<and> (\<not> cu_bad c' \<longrightarrow> \<not> cu_bad c \<and> cu_p c' = cu_p c + 4)"
  using cur_take_ok [of img 4 c] by (auto simp: cur_u32_def split: prod.splits option.splits)

lemma cur_u64_ok:
  "cur_u64 img c = (v, c') \<Longrightarrow> cu_p c \<le> length img \<Longrightarrow>
   cu_p c' \<le> length img \<and> cu_p c \<le> cu_p c' \<and> (\<not> cu_bad c' \<longrightarrow> \<not> cu_bad c \<and> cu_p c' = cu_p c + 8 \<and>
     v = le64 (drop (cu_p c) img))"
  using cur_take_ok [of img 8 c] by (auto simp: cur_u64_def le64_def split: prod.splits option.splits)

lemma cur_count_ok:
  "cur_count img v1 c = (v, c') \<Longrightarrow> cu_p c \<le> length img \<Longrightarrow>
   cu_p c' \<le> length img \<and> cu_p c \<le> cu_p c' \<and> (\<not> cu_bad c' \<longrightarrow> \<not> cu_bad c \<and> cu_p c + 4 \<le> cu_p c')"
  using cur_u32_ok [of img c] cur_u64_ok [of img c] by (auto simp: cur_count_def split: if_splits prod.splits)

lemma arena_cap_bounds: "0 < cap \<Longrightarrow> need \<le> arena_cap cap need \<and> arena_cap cap need \<le> max cap (2 * need)"
  by (induction cap need rule: arena_cap.induct) (subst (1 2) arena_cap.simps, auto simp: max_def split: if_splits)

subsection \<open>The parser's invariant\<close>

text \<open>
  The cursor is inside the file, the arena holds no more than the bytes read so far, its block is as large as its capacity
  says, and the live blocks are those of before and the arena.
\<close>

definition arena_ok :: "bytes \<Rightarrow> gguf \<Rightarrow> heap \<Rightarrow> bool" where
  "arena_ok img g h \<longleftrightarrow>
     (case gg_strings_ptr g of
        None \<Rightarrow> gg_strings_cap g = 0 \<and> gg_strings g = []
      | Some a \<Rightarrow> h_raw h a = of_nat (gg_strings_cap g + 8) \<and> 0 < gg_strings_cap g \<and>
          length (gg_strings g) \<le> gg_strings_cap g \<and> gg_strings_cap g \<le> 65536 + 2 * length img)"

definition gp_inv :: "bytes \<Rightarrow> block multiset \<Rightarrow> gparse \<Rightarrow> bool" where
  "gp_inv img M = (\<lambda>(c, g, h).
     cu_p c \<le> length img \<and> length (gg_strings g) \<le> cu_p c \<and> arena_ok img g h \<and>
     owns h (opt_block Host (gg_strings_ptr g) + M))"

text \<open>What no step of the parser touches.\<close>

definition same_frame :: "gguf \<Rightarrow> gguf \<Rightarrow> bool" where
  "same_frame g g' \<longleftrightarrow> gg_self g' = gg_self g \<and> gg_fd g' = gg_fd g \<and> gg_owns_mapping g' = gg_owns_mapping g \<and>
     gg_base g' = gg_base g \<and> gg_kvs_ptr g' = gg_kvs_ptr g \<and> gg_tensors_ptr g' = gg_tensors_ptr g \<and> gg_version g' = gg_version g"

lemma same_frame_refl [simp]: "same_frame g g"
  by (simp add: same_frame_def)

lemma same_frame_trans: "same_frame a b \<Longrightarrow> same_frame b c \<Longrightarrow> same_frame a c"
  by (simp add: same_frame_def)

lemma same_frame_updates [simp]:
  "same_frame a (g\<lparr>gg_strings := x\<rparr>) = same_frame a g"
  "same_frame a (g\<lparr>gg_strings_ptr := p, gg_strings_cap := n\<rparr>) = same_frame a g"
  "same_frame a (add_kv kv g) = same_frame a g" "same_frame a (add_tensor t g) = same_frame a g"
  by (simp_all add: same_frame_def add_kv_def add_tensor_def)

lemma gp_inv_moves [simp]:
  "gp_inv img M (c\<lparr>cu_bad := b\<rparr>, g, h) = gp_inv img M (c, g, h)"
  "gp_inv img M (c, add_kv kv g, h) = gp_inv img M (c, g, h)"
  "gp_inv img M (c, add_tensor t g, h) = gp_inv img M (c, g, h)"
  by (simp_all add: gp_inv_def add_kv_def add_tensor_def arena_ok_def split: option.split)

lemma gp_inv_forward:
  "gp_inv img M (c, g, h) \<Longrightarrow> cu_p c \<le> cu_p c' \<Longrightarrow> cu_p c' \<le> length img \<Longrightarrow> gp_inv img M (c', g, h)"
  by (simp add: gp_inv_def)

lemma gp_inv_pos: "gp_inv img M (c, g, h) \<Longrightarrow> cu_p c \<le> length img"
  by (simp add: gp_inv_def)

lemma arena_write_inv:
  assumes inv: "gp_inv img M (c, g, h)" and len: "cu_p c + len \<le> length img" and ptr: "gg_strings_ptr g = Some a"
    and slack: "length (gg_strings g) + 1 \<le> cu_p c" and cap: "length (gg_strings g) + len + 1 \<le> gg_strings_cap g"
    and small: "length img < 2 ^ 62"
    and r: "arena_write img len (c, g, h) = (s, c', g', h')"
  shows "gp_inv img M (c', g', h') \<and> same_frame g g' \<and> cu_bad c' = cu_bad c \<and> gg_kvs g' = gg_kvs g \<and>
    gg_n_kv g' = gg_n_kv g \<and> gg_tensors g' = gg_tensors g \<and> gg_n_tensors g' = gg_n_tensors g"
proof -
  have raw: "h_raw h a = of_nat (gg_strings_cap g + 8)" "gg_strings_cap g \<le> 65536 + 2 * length img"
    using inv ptr by (auto simp: gp_inv_def arena_ok_def)
  then have "gg_strings_cap g + 8 < 2 ^ 64" using small by simp
  then have room: "length (gg_strings g) + len + 9 \<le> unat (h_raw h a)" using raw cap by (simp add: unat_of_nat del: of_nat_add)
  have g': "g' = g\<lparr>gg_strings := gg_strings g @ take len (drop (cu_p c) img) @ [0]\<rparr>" "h' = h"
      "c' = c\<lparr>cu_p := cu_p c + len\<rparr>"
    using r room ptr by (auto simp: arena_write_def Let_def)
  show ?thesis using inv len ptr slack cap by (auto simp: g' gp_inv_def arena_ok_def)
qed

lemma cur_str_inv:
  assumes inv: "gp_inv img M (c, g, h)" and small: "length img < 2 ^ 62"
    and r: "cur_str img v1 (c, g, h) = (s, c', g', h')"
  shows "gp_inv img M (c', g', h') \<and> same_frame g g' \<and> (cu_bad c \<longrightarrow> cu_bad c') \<and> gg_kvs g' = gg_kvs g \<and>
    gg_n_kv g' = gg_n_kv g \<and> gg_tensors g' = gg_tensors g \<and> gg_n_tensors g' = gg_n_tensors g"
proof -
  obtain len c1 where c1: "cur_count img v1 c = (len, c1)" by (cases "cur_count img v1 c")
  note ok = cur_count_ok [OF c1 gp_inv_pos [OF inv]]
  have inv1: "gp_inv img M (c1, g, h)" using gp_inv_forward [OF inv] ok by blast
  show ?thesis
  proof (cases "cu_bad c1 \<or> unat len > cur_left img c1")
    case True
    then show ?thesis using r c1 inv1 ok by (auto simp: cur_str_def)
  next
    case False
    let ?need = "length (gg_strings g) + unat len + 1"
    have slack: "length (gg_strings g) + 1 \<le> cu_p c1" using inv ok False by (auto simp: gp_inv_def)
    have fit: "cu_p c1 + unat len \<le> length img" using False ok by (auto simp: cur_left_def)
    have need: "?need \<le> length img" using slack fit by simp
    show ?thesis
    proof (cases "?need > gg_strings_cap g")
      case False
      note nocap = this
      then obtain a where a: "gg_strings_ptr g = Some a"
        using inv by (cases "gg_strings_ptr g") (auto simp: gp_inv_def arena_ok_def)
      have w: "arena_write img (unat len) (c1, g, h) = (s, c', g', h')"
        using r c1 \<open>\<not> (cu_bad c1 \<or> unat len > cur_left img c1)\<close> nocap by (simp add: cur_str_def Let_def)
      from arena_write_inv [OF inv1 fit a slack _ small w] nocap ok \<open>\<not> (cu_bad c1 \<or> _)\<close> show ?thesis by auto
    next
      case True
      note grow = this
      define cap where "cap = arena_cap (if gg_strings_cap g \<noteq> 0 then gg_strings_cap g * 2 else 65536) ?need"
      have cap: "?need \<le> cap" "0 < cap" "cap \<le> 65536 + 2 * length img"
        using arena_cap_bounds [of "if gg_strings_cap g \<noteq> 0 then gg_strings_cap g * 2 else 65536" ?need] grow need
        by (auto simp: cap_def split: if_splits)
      obtain p h1 where al: "vv_alloc (of_nat cap) h = (p, h1)" by (cases "vv_alloc (of_nat cap) h")
      have own: "owns h (opt_block Host (gg_strings_ptr g) + M)" using inv by (simp add: gp_inv_def)
      show ?thesis
      proof (cases p)
        case None
        have "gp_inv img M (c1, g, h1)"
          using inv1 vv_alloc_owns [OF own al] al None
          by (auto simp: gp_inv_def arena_ok_def vv_alloc_def Let_def split: option.splits if_splits)
        then show ?thesis
          using r c1 \<open>\<not> (cu_bad c1 \<or> unat len > cur_left img c1)\<close> grow al None
          by (auto simp: cur_str_def Let_def cap_def)
      next
        case (Some a)
        let ?g = "g\<lparr>gg_strings_ptr := Some a, gg_strings_cap := cap\<rparr>" and ?h = "vv_free (gg_strings_ptr g) h1"
        have raw: "h_raw ?h a = of_nat (cap + 8)"
          using al Some by (auto simp: vv_alloc_def vv_free_def Let_def split: if_splits option.splits)
        have "owns h1 (opt_block Host (gg_strings_ptr g) + add_mset (Host, a) M)"
          using vv_alloc_owns [OF own al] Some by (simp add: add_mset_commute)
        then have "owns ?h (add_mset (Host, a) M)" by simp
        then have i2: "gp_inv img M (c1, ?g, ?h)"
          using inv1 raw cap by (auto simp: gp_inv_def arena_ok_def opt_block_def)
        have w: "arena_write img (unat len) (c1, ?g, ?h) = (s, c', g', h')"
          using r c1 \<open>\<not> (cu_bad c1 \<or> unat len > cur_left img c1)\<close> grow al Some by (simp add: cur_str_def Let_def cap_def)
        have "gp_inv img M (c', g', h') \<and> same_frame ?g g' \<and> cu_bad c' = cu_bad c1 \<and> gg_kvs g' = gg_kvs ?g \<and>
          gg_n_kv g' = gg_n_kv ?g \<and> gg_tensors g' = gg_tensors ?g \<and> gg_n_tensors g' = gg_n_tensors ?g"
          by (rule arena_write_inv [OF i2 fit _ _ _ small w, of a]) (use slack cap in auto)
        then show ?thesis using ok \<open>\<not> (cu_bad c1 \<or> _)\<close> by (auto simp: same_frame_def)
      qed
    qed
  qed
qed

subsection \<open>Skipping array elements\<close>

definition moves_on :: "bytes \<Rightarrow> (cursor \<Rightarrow> cursor) \<Rightarrow> bool" where
  "moves_on img f \<longleftrightarrow>
     (\<forall>c. cu_p c \<le> length img \<longrightarrow> cu_p c \<le> cu_p (f c) \<and> cu_p (f c) \<le> length img \<and> (cu_bad c \<longrightarrow> cu_bad (f c)))"

lemma moves_onD:
  "moves_on img f \<Longrightarrow> cu_p c \<le> length img \<Longrightarrow>
   cu_p c \<le> cu_p (f c) \<and> cu_p (f c) \<le> length img \<and> (cu_bad c \<longrightarrow> cu_bad (f c))"
  by (simp add: moves_on_def)

lemma repeat_ok_moves_on: "moves_on img f \<Longrightarrow> moves_on img (repeat_ok n f)"
proof (induction n)
  case 0
  then show ?case by (simp add: moves_on_def)
next
  case (Suc n)
  have "cu_p c \<le> cu_p (repeat_ok n f (f c)) \<and> cu_p (repeat_ok n f (f c)) \<le> length img" if "cu_p c \<le> length img" for c
    using moves_onD [OF Suc.prems that] moves_onD [OF Suc.IH [OF Suc.prems], of "f c"] by linarith
  then show ?case by (auto simp: moves_on_def)
qed

lemma skip_scalars_moves_on: "0 < esz \<Longrightarrow> moves_on img (skip_scalars img n esz)"
proof -
  assume "0 < esz"
  then have "unat n * esz \<le> left" if "unat n \<le> left div esz" for left
    using that by (metis less_eq_div_iff_mult_less_eq)
  then show ?thesis by (fastforce simp: moves_on_def skip_scalars_def cur_left_def not_less le_diff_conv2)
qed

lemma skip_value_moves_on: "moves_on img (skip_value img v1 d t)"
proof (induction d arbitrary: t)
  case 0
  then show ?case by (simp add: moves_on_def)
next
  case (Suc d)
  show ?case unfolding moves_on_def
  proof (intro allI impI)
    fix c :: cursor assume c: "cu_p c \<le> length img"
    let ?c = "skip_value img v1 (Suc d) t c"
    obtain b c1 where c1: "cur_take img (scalar_size t) c = (b, c1)" by (cases "cur_take img (scalar_size t) c")
    obtain len c2 where c2: "cur_count img v1 c = (len, c2)" by (cases "cur_count img v1 c")
    obtain et c3 where c3: "cur_u32 img c = (et, c3)" by (cases "cur_u32 img c")
    obtain n c4 where c4: "cur_count img v1 c3 = (n, c4)" by (cases "cur_count img v1 c3")
    note o1 = cur_take_ok [OF c1 c] and o2 = cur_count_ok [OF c2 c] and o3 = cur_u32_ok [OF c3 c]
    note o4 = cur_count_ok [OF c4 conjunct1 [OF o3]]
    have s: "cu_p c4 \<le> cu_p (skip_scalars img n (scalar_size et) c4) \<and> cu_p (skip_scalars img n (scalar_size et) c4) \<le> length img \<and>
        (cu_bad c4 \<longrightarrow> cu_bad (skip_scalars img n (scalar_size et) c4))" if "scalar_size et \<noteq> 0"
      using moves_onD [OF skip_scalars_moves_on] that o4 by simp
    have r: "cu_p c4 \<le> cu_p (repeat_ok (unat n) (skip_value img v1 d et) c4) \<and>
        cu_p (repeat_ok (unat n) (skip_value img v1 d et) c4) \<le> length img \<and>
        (cu_bad c4 \<longrightarrow> cu_bad (repeat_ok (unat n) (skip_value img v1 d et) c4))"
      using moves_onD [OF repeat_ok_moves_on [OF Suc.IH]] o4 by simp
    show "cu_p c \<le> cu_p ?c \<and> cu_p ?c \<le> length img \<and> (cu_bad c \<longrightarrow> cu_bad ?c)"
      using c1 c2 c3 c4 o1 o2 o3 o4 s r by (auto simp: cur_left_def)
  qed
qed

text \<open>\<open>n\<close> strings with 64-bit lengths follow each other from \<open>p\<close> on, inside the file.\<close>

primrec strings_fit :: "bytes \<Rightarrow> nat \<Rightarrow> nat \<Rightarrow> bool" where
  "strings_fit img 0 p = True"
| "strings_fit img (Suc n) p \<longleftrightarrow>
     p + 8 + unat (le64 (drop p img)) \<le> length img \<and> strings_fit img n (p + 8 + unat (le64 (drop p img)))"

lemma skip_string:
  assumes "cu_p c \<le> length img" and "\<not> cu_bad (skip_value img False (Suc d) VV_GGUF_STRING c)"
  shows "cu_p c + 8 + unat (le64 (drop (cu_p c) img)) \<le> length img"
    and "cu_p (skip_value img False (Suc d) VV_GGUF_STRING c) = cu_p c + 8 + unat (le64 (drop (cu_p c) img))"
proof -
  obtain len c1 where c1: "cur_u64 img c = (len, c1)" by (cases "cur_u64 img c")
  note ok = cur_u64_ok [OF c1 assms(1)]
  have v: "skip_value img False (Suc d) VV_GGUF_STRING c =
      (if cu_bad c1 \<or> unat len > cur_left img c1 then c1\<lparr>cu_bad := True\<rparr> else c1\<lparr>cu_p := cu_p c1 + unat len\<rparr>)"
    by (simp add: scalar_size_def cur_count_def c1)
  then have g: "\<not> cu_bad c1" "unat len \<le> cur_left img c1" using assms(2) by (auto split: if_splits)
  then have l: "len = le64 (drop (cu_p c) img)" "cu_p c1 = cu_p c + 8" "cu_p c1 \<le> length img" using ok by simp_all
  show "cu_p c + 8 + unat (le64 (drop (cu_p c) img)) \<le> length img" using g(2) l by (simp add: cur_left_def)
  show "cu_p (skip_value img False (Suc d) VV_GGUF_STRING c) = cu_p c + 8 + unat (le64 (drop (cu_p c) img))"
    unfolding v using g l by simp
qed

lemma repeat_strings_fit:
  assumes "cu_p c \<le> length img" and "\<not> cu_bad (repeat_ok n (skip_value img False (Suc d) VV_GGUF_STRING) c)"
  shows "strings_fit img n (cu_p c)"
  using assms
proof (induction n arbitrary: c)
  case 0
  then show ?case by simp
next
  case (Suc n)
  let ?c = "skip_value img False (Suc d) VV_GGUF_STRING c"
  from Suc.prems have nb: "\<not> cu_bad (repeat_ok n (skip_value img False (Suc d) VV_GGUF_STRING) ?c)"
    by (auto simp del: skip_value.simps split: if_splits)
  note m = moves_onD [OF skip_value_moves_on Suc.prems(1), of False "Suc d" VV_GGUF_STRING]
  have "\<not> cu_bad ?c"
    using nb moves_onD [OF repeat_ok_moves_on [OF skip_value_moves_on], of ?c img n False "Suc d" VV_GGUF_STRING] m by blast
  note s = skip_string [OF Suc.prems(1) this]
  have "strings_fit img n (cu_p ?c)" using Suc.IH nb m by blast
  then show ?case using s by (simp del: skip_value.simps)
qed

lemma arr_str_walk_fits:
  assumes "strings_fit img n p" and "i < n" and "length img < 2 ^ 63" and "p \<le> length img"
  shows "\<exists>q l. arr_str_walk img i (of_nat p) = Inr (q, l) \<and> unat q + unat l \<le> length img"
  using assms
proof (induction n arbitrary: i p)
  case 0
  then show ?case by simp
next
  case (Suc n)
  let ?l = "le64 (drop p img)"
  have p: "unat (of_nat p :: u64) = p" using Suc.prems by (simp add: unat_of_nat)
  have fit: "p + 8 + unat ?l \<le> length img" "strings_fit img n (p + 8 + unat ?l)" using Suc.prems(1) by simp_all
  have w: "of_nat p + 8 + ?l = (of_nat (p + 8 + unat ?l) :: u64)" by simp
  show ?case
  proof (cases i)
    case 0
    have "unat (of_nat p + 8 :: u64) = p + 8" using fit(1) Suc.prems(3) p by (simp add: unat_word_ariths)
    with 0 p fit(1) show ?thesis by simp
  next
    case (Suc j)
    have "arr_str_walk img i (of_nat p) = arr_str_walk img j (of_nat (p + 8 + unat ?l))"
      unfolding w [symmetric] using Suc p fit(1) by (simp del: of_nat_add)
    with Suc.IH [OF fit(2), of j] Suc Suc.prems(2,3) fit(1) show ?thesis by (simp del: of_nat_add)
  qed
qed

subsection \<open>The tables\<close>

definition kv_ok :: "bytes \<Rightarrow> bool \<Rightarrow> gguf_kv \<Rightarrow> bool" where
  "kv_ok img v1 kv \<longleftrightarrow> kv_arr_data kv \<le> length img \<and>
     (\<not> v1 \<and> kv_type kv = VV_GGUF_ARRAY \<and> kv_arr_type kv = VV_GGUF_STRING \<longrightarrow>
        strings_fit img (unat (kv_arr_n kv)) (kv_arr_data kv))"

definition tn_ok :: "gguf_tensor \<Rightarrow> bool" where
  "tn_ok t \<longleftrightarrow> length (tn_ne t) = 4 \<and> (\<forall>x \<in> set (tn_ne t). x \<le> 2 ^ 40) \<and> tn_data t = None"

definition tables_ok :: "bytes \<Rightarrow> bool \<Rightarrow> cursor \<Rightarrow> gguf \<Rightarrow> bool" where
  "tables_ok img v1 c g \<longleftrightarrow>
     (\<not> cu_bad c \<longrightarrow> (\<forall>kv \<in> set (gg_kvs g). kv_ok img v1 kv) \<and> (\<forall>t \<in> set (gg_tensors g). tn_ok t)) \<and>
     gg_n_kv g = int_of_count (length (gg_kvs g)) \<and> gg_n_tensors g = int_of_count (length (gg_tensors g))"

definition gp_good :: "bytes \<Rightarrow> bool \<Rightarrow> gguf \<Rightarrow> block multiset \<Rightarrow> gparse \<Rightarrow> bool" where
  "gp_good img v1 g0 M = (\<lambda>(c, g, h). gp_inv img M (c, g, h) \<and> tables_ok img v1 c g \<and> same_frame g0 g)"

lemma gp_goodI:
  assumes "gp_good img v1 g0 M (c, g, h)" and "gp_inv img M (c', g', h')" and "same_frame g g'"
    and "cu_bad c \<longrightarrow> cu_bad c'" "gg_kvs g' = gg_kvs g" "gg_n_kv g' = gg_n_kv g" "gg_tensors g' = gg_tensors g"
      "gg_n_tensors g' = gg_n_tensors g"
  shows "gp_good img v1 g0 M (c', g', h')"
  using assms same_frame_trans [of g0 g g'] by (auto simp: gp_good_def tables_ok_def)

lemma cur_str_good:
  "gp_good img v1 g0 M (c, g, h) \<Longrightarrow> length img < 2 ^ 62 \<Longrightarrow> cur_str img v (c, g, h) = (s, c', g', h') \<Longrightarrow>
   gp_good img v1 g0 M (c', g', h')"
  using cur_str_inv [of img M c g h v s c' g' h'] gp_goodI [of img v1 g0 M c g h c' g' h'] by (simp add: gp_good_def)

lemma gp_good_forward:
  "gp_good img v1 g0 M (c, g, h) \<Longrightarrow> cu_p c \<le> cu_p c' \<Longrightarrow> cu_p c' \<le> length img \<Longrightarrow> (cu_bad c \<longrightarrow> cu_bad c') \<Longrightarrow>
   gp_good img v1 g0 M (c', g, h)"
  by (rule gp_goodI) (auto simp: gp_good_def intro: gp_inv_forward)

lemma gp_good_pos: "gp_good img v1 g0 M (c, g, h) \<Longrightarrow> cu_p c \<le> length img"
  by (auto simp: gp_good_def dest: gp_inv_pos)

lemma gp_good_bad: "gp_good img v1 g0 M (c, g, h) \<Longrightarrow> gp_good img v1 g0 M (c\<lparr>cu_bad := True\<rparr>, g, h)"
  by (rule gp_good_forward) (auto dest: gp_good_pos)

lemma add_kv_good:
  "gp_good img v1 g0 M (c, g, h) \<Longrightarrow> (\<not> cu_bad c \<Longrightarrow> kv_ok img v1 kv) \<Longrightarrow> gp_good img v1 g0 M (c, add_kv kv g, h)"
  by (auto simp: gp_good_def) (auto simp: tables_ok_def add_kv_def)

lemma add_tensor_good:
  "gp_good img v1 g0 M (c, g, h) \<Longrightarrow> (\<not> cu_bad c \<Longrightarrow> tn_ok t) \<Longrightarrow> gp_good img v1 g0 M (c, add_tensor t g, h)"
  by (auto simp: gp_good_def) (auto simp: tables_ok_def add_tensor_def)

lemma parse_array_good:
  assumes g: "gp_good img v1 g0 M (c, g, h)"
  shows "gp_good img v1 g0 M (parse_array img v1 kv (c, g, h))"
proof -
  obtain et c1 where c1: "cur_u32 img c = (et, c1)" by (cases "cur_u32 img c")
  note o1 = cur_u32_ok [OF c1 gp_good_pos [OF g]]
  obtain n c2 where c2: "cur_count img v1 c1 = (n, c2)" by (cases "cur_count img v1 c1")
  note o2 = cur_count_ok [OF c2 conjunct1 [OF o1]]
  have g2: "gp_good img v1 g0 M (c2, g, h)" by (rule gp_good_forward [OF g]) (use o1 o2 in auto)
  let ?kv = "kv\<lparr>kv_arr_type := et, kv_arr_n := n, kv_arr_data := cu_p c2\<rparr>"
  show ?thesis
  proof (cases "scalar_size et = 0")
    case False
    let ?c = "c2\<lparr>cu_p := cu_p c2 + unat n * scalar_size et\<rparr>"
    have "kv_ok img v1 ?kv" using False o2 by (auto simp: kv_ok_def scalar_size_def split: if_splits)
    moreover have "cu_p ?c \<le> length img" if "unat n \<le> cur_left img c2 div scalar_size et"
      using that o2 False by (simp add: cur_left_def less_eq_div_iff_mult_less_eq le_diff_conv2)
    ultimately have "gp_good img v1 g0 M (?c, add_kv ?kv g, h)" if "unat n \<le> cur_left img c2 div scalar_size et"
      using that by (intro add_kv_good gp_good_forward [OF g2]) auto
    then show ?thesis using c1 c2 gp_good_bad [OF g2] False by (auto simp: parse_array_def Let_def not_less)
  next
    case True
    let ?c = "repeat_ok (unat n) (skip_value img v1 4 et) c2"
    note m = moves_onD [OF repeat_ok_moves_on [OF skip_value_moves_on], of c2 img "unat n" v1 4 et]
    have "strings_fit img (unat n) (cu_p c2)" if "\<not> cu_bad ?c" "\<not> v1" "et = VV_GGUF_STRING"
      using repeat_strings_fit [of c2 img "unat n" 3] that o2 by (simp add: numeral_eq_Suc del: skip_value.simps)
    then have "kv_ok img v1 ?kv" if "\<not> cu_bad ?c" using that o2 by (auto simp: kv_ok_def)
    then have "gp_good img v1 g0 M (?c, add_kv ?kv g, h)"
      using m o2 by (intro add_kv_good gp_good_forward [OF g2]) auto
    then show ?thesis using c1 c2 True by (simp add: parse_array_def Let_def)
  qed
qed

lemma parse_kv_good:
  assumes g: "gp_good img v1 g0 M s" and small: "length img < 2 ^ 62"
  shows "gp_good img v1 g0 M (parse_kv f2d img v1 s)"
proof -
  obtain c g h where s: "s = (c, g, h)" by (cases s)
  obtain key c1 g1 h1 where k: "cur_str img v1 (c, g, h) = (key, c1, g1, h1)" by (cases "cur_str img v1 (c, g, h)")
  note g1 = cur_str_good [OF g [unfolded s] small k]
  obtain ty c2 where c2: "cur_u32 img c1 = (ty, c2)" by (cases "cur_u32 img c1")
  note o2 = cur_u32_ok [OF c2 gp_good_pos [OF g1]]
  have g2: "gp_good img v1 g0 M (c2, g1, h1)" by (rule gp_good_forward [OF g1]) (use o2 in auto)
  obtain str c3 g3 h3 where k3: "cur_str img v1 (c2, g1, h1) = (str, c3, g3, h3)" by (cases "cur_str img v1 (c2, g1, h1)")
  note g3 = cur_str_good [OF g2 small k3]
  obtain v c4 where v: "read_scalar f2d img ty c2 = (v, c4)" by (cases "read_scalar f2d img ty c2")
  obtain b c5 where c5: "cur_take img (scalar_size ty) c2 = (b, c5)" by (cases "cur_take img (scalar_size ty) c2")
  have c4: "cu_p c4 = cu_p c5 \<and> (cu_bad c5 \<longrightarrow> cu_bad c4)"
    using v c5 by (auto simp: read_scalar_def Let_def split: if_splits)
  note o5 = cur_take_ok [OF c5 gp_good_pos [OF g2]]
  have g4: "gp_good img v1 g0 M (c4, g1, h1)" by (rule gp_good_forward [OF g2]) (use o5 c4 in auto)
  have plain: "kv_ok img v1 (no_kv\<lparr>kv_key := key, kv_type := ty\<rparr>)" "kv_ok img v1 (no_kv\<lparr>kv_key := key, kv_type := ty, kv_v := v\<rparr>)"
      "kv_ok img v1 (no_kv\<lparr>kv_key := key, kv_type := ty, kv_str := str\<rparr>)"
    by (simp_all add: kv_ok_def no_kv_def)
  show ?thesis
    using g2 add_kv_good [OF g3 plain(3)] add_kv_good [OF g4 plain(2)] add_kv_good [OF gp_good_bad [OF g2] plain(1)]
      parse_array_good [OF g2, of "no_kv\<lparr>kv_key := key, kv_type := ty\<rparr>"]
    by (auto simp add: parse_kv_def s k c2 k3 v Let_def)
qed

lemma read_ne_ok:
  assumes "read_ne img v1 n acc c = (ne, c')" and "cu_p c \<le> length img" and "\<forall>x \<in> set acc. x \<le> 2 ^ 40"
  shows "cu_p c \<le> cu_p c' \<and> cu_p c' \<le> length img \<and> (cu_bad c \<longrightarrow> cu_bad c') \<and> (\<forall>x \<in> set ne. x \<le> 2 ^ 40) \<and>
    length ne \<le> length acc + n \<and> (\<not> cu_bad c' \<longrightarrow> length ne = length acc + n)"
  using assms
proof (induction n arbitrary: acc c)
  case 0
  then show ?case by simp
next
  case (Suc n)
  obtain x c1 where c1: "cur_count img v1 c = (x, c1)" by (cases "cur_count img v1 c")
  note o1 = cur_count_ok [OF c1 Suc.prems(2)]
  show ?case
  proof (cases "x > 2 ^ 40")
    case True
    then have "ne = acc" "c' = c1\<lparr>cu_bad := True\<rparr>" using Suc.prems(1) c1 by simp_all
    then show ?thesis using o1 Suc.prems(3) by simp
  next
    case False
    then have r: "read_ne img v1 n (acc @ [x]) c1 = (ne, c')" using Suc.prems(1) c1 by simp
    have "\<forall>y \<in> set (acc @ [x]). y \<le> 2 ^ 40" using False Suc.prems(3) by (simp add: not_less)
    from Suc.IH [OF r conjunct1 [OF o1] this] o1 show ?thesis by auto
  qed
qed

lemma parse_tensor_good:
  assumes g: "gp_good img v1 g0 M s" and small: "length img < 2 ^ 62"
  shows "gp_good img v1 g0 M (parse_tensor img v1 s)"
proof -
  obtain c g h where s: "s = (c, g, h)" by (cases s)
  obtain name c1 g1 h1 where k: "cur_str img v1 (c, g, h) = (name, c1, g1, h1)" by (cases "cur_str img v1 (c, g, h)")
  note g1 = cur_str_good [OF g [unfolded s] small k]
  obtain nd c2 where c2: "cur_u32 img c1 = (nd, c2)" by (cases "cur_u32 img c1")
  note o2 = cur_u32_ok [OF c2 gp_good_pos [OF g1]]
  have g2: "gp_good img v1 g0 M (c2, g1, h1)" by (rule gp_good_forward [OF g1]) (use o2 in auto)
  obtain ne c3 where c3: "read_ne img v1 (unat nd) [] c2 = (ne, c3)" by (cases "read_ne img v1 (unat nd) [] c2")
  have o3: "cu_p c2 \<le> cu_p c3 \<and> cu_p c3 \<le> length img \<and> (cu_bad c2 \<longrightarrow> cu_bad c3) \<and> (\<forall>x \<in> set ne. x \<le> 2 ^ 40) \<and>
      length ne \<le> unat nd"
    using read_ne_ok [OF c3] o2 by simp
  obtain ty c4 where c4: "cur_u32 img c3 = (ty, c4)" by (cases "cur_u32 img c3")
  note o4 = cur_u32_ok [OF c4 conjunct1 [OF conjunct2 [OF o3]]]
  obtain off c5 where c5: "cur_u64 img c4 = (off, c5)" by (cases "cur_u64 img c4")
  note o5 = cur_u64_ok [OF c5 conjunct1 [OF o4]]
  have g5: "gp_good img v1 g0 M (c5, g1, h1)" by (rule gp_good_forward [OF g2]) (use o3 o4 o5 in auto)
  let ?t = "\<lparr>tn_name = name, tn_n_dims = unat nd, tn_ne = pad_ne ne, tn_type = ty, tn_offset = off, tn_data = None, tn_nbytes = 0\<rparr>"
  have "tn_ok ?t" if "\<not> nd > 4" using that o3 by (auto simp: tn_ok_def pad_ne_def word_less_nat_alt)
  then show ?thesis
    using gp_good_bad [OF g2] add_tensor_good [OF g5, of ?t] by (simp add: parse_tensor_def s k c2 c3 c4 c5)
qed

lemma parse_loop_good:
  "gp_good img v1 g0 M s \<Longrightarrow> (\<And>s. gp_good img v1 g0 M s \<Longrightarrow> gp_good img v1 g0 M (f s)) \<Longrightarrow> gp_good img v1 g0 M (parse_loop n f s)"
  by (induction n arbitrary: s) auto

subsection \<open>Finishing\<close>

lemma cstr_text_cong: "gg_strings g' = gg_strings g \<Longrightarrow> cstr_text g' s = cstr_text g s"
  by (simp add: cstr_text_def split: cstr.splits)

definition pow2_u32 :: "u32 \<Rightarrow> bool" where
  "pow2_u32 a \<longleftrightarrow> a \<noteq> 0 \<and> a AND (a - 1) = 0 \<and> a \<le> 65536"

lemma ucast_small_pow2:
  fixes a :: u64
  assumes "a \<noteq> 0" "a AND (a - 1) = 0" "a \<le> 65536"
  shows "pow2_u32 (ucast a)"
proof -
  have b: "unat a < 2 ^ 32" using assms(3) by (simp add: word_le_nat_alt)
  have nz: "0 < unat a" using assms(1) by (simp add: unat_gt_0)
  have u: "unat (ucast a :: u32) = unat a" using b by (simp add: unsigned_ucast_eq take_bit_nat_eq_self)
  have m: "unat (ucast a - 1 :: u32) = unat (a - 1)"
  proof -
    have "(ucast a :: u32) \<noteq> 0" using u nz by (metis less_irrefl unsigned_0)
    then show ?thesis using u assms(1) by (simp add: unat_minus_one)
  qed
  have "unat (ucast a AND (ucast a - 1) :: u32) = unat (a AND (a - 1))"
    by (simp add: unsigned_and_eq u m)
  then have "unat (ucast a AND (ucast a - 1) :: u32) = 0" using assms(2) by simp
  then have "ucast a AND (ucast a - 1 :: u32) = 0" by (simp add: unat_eq_zero)
  then show ?thesis using u nz assms(3) by (auto simp: pow2_u32_def word_le_nat_alt)
qed

lemma read_alignment_pow2: "read_alignment g = Some a \<Longrightarrow> pow2_u32 a"
  using ucast_small_pow2
  by (fastforce simp: read_alignment_def Let_def pow2_u32_def not_less split: option.splits if_splits)

text \<open>What a successful parse says of a tensor whose type is known.\<close>

definition placed :: "gguf \<Rightarrow> gguf_tensor \<Rightarrow> bool" where
  "placed g t \<longleftrightarrow> length (tn_ne t) = 4 \<and> (\<forall>x \<in> set (tn_ne t). x \<le> 2 ^ 40) \<and>
     (case traits (tn_type t) of
        None \<Rightarrow> tn_data t = None
      | Some _ \<Rightarrow>
          tn_data t = Some (gg_data_offset g + unat (tn_offset t)) \<and>
          unat (tn_offset t) mod unat (gg_alignment g) = 0 \<and>
          gg_data_offset g + unat (tn_offset t) + unat (tn_nbytes t) \<le> length (gg_base g) \<and>
          tn_nbytes t = vv_ggml_nbytes (tn_type t) (tn_ne t) \<and>
          (tn_nbytes t = 0 \<longrightarrow> vv_gguf_nelements t = 0))"

lemma placed_tensors_update [simp]: "placed (g\<lparr>gg_tensors := ts\<rparr>) t = placed g t"
  by (simp add: placed_def split: option.split)

lemma place_tensor_placed:
  assumes "place_tensor g t = Some t'" and "tn_ok t" and "gg_data_offset g \<le> length (gg_base g)"
  shows "placed g t'"
  using assms
  by (auto simp: place_tensor_def Let_def placed_def tn_ok_def vv_gguf_nelements_def split: if_splits)

lemma place_tensors_placed:
  "place_tensors g ts = Some ts' \<Longrightarrow> \<forall>t \<in> set ts. tn_ok t \<Longrightarrow> gg_data_offset g \<le> length (gg_base g) \<Longrightarrow>
   length ts' = length ts \<and> (\<forall>t \<in> set ts'. placed g t)"
  by (induction ts arbitrary: ts') (auto split: option.splits dest: place_tensor_placed)

text \<open>A handle as a successful open leaves it.\<close>

definition gguf_wf :: "gguf \<Rightarrow> bool" where
  "gguf_wf g \<longleftrightarrow>
     gg_version g \<in> {1, 2, 3} \<and>
     pow2_u32 (gg_alignment g) \<and> gg_data_offset g mod unat (gg_alignment g) = 0 \<and>
     gg_data_offset g \<le> length (gg_base g) \<and>
     gg_n_tensors g = int (length (gg_tensors g)) \<and> gg_n_kv g = int_of_count (length (gg_kvs g)) \<and>
     (\<forall>t \<in> set (gg_tensors g). placed g t) \<and>
     (\<forall>kv \<in> set (gg_kvs g). kv_ok (gg_base g) (gg_version g = 1) kv)"

lemma int_of_count_small: "n < 2 ^ 31 \<Longrightarrow> int_of_count n = int n"
  by (simp add: int_of_count_def signed_take_bit_int_eq_self)

lemma resolve_keeps:
  "tn_ok (t\<lparr>tn_name := s\<rparr>) = tn_ok t" "kv_ok img v1 (kv\<lparr>kv_key := k, kv_str := s\<rparr>) = kv_ok img v1 kv"
  by (simp_all add: tn_ok_def kv_ok_def)

lemma finish_parse_wf:
  assumes r: "finish_parse c g = (VV_OK, g')" and tb: "tables_ok (gg_base g) (gg_version g = 1) c g" and nb: "\<not> cu_bad c"
    and v: "gg_version g \<in> {1, 2, 3}" and n: "length (gg_tensors g) < 2 ^ 31"
  shows "gguf_wf g'"
proof -
  let ?g = "resolve_tensors (resolve_kvs g)"
  have cnt: "nat (gg_n_tensors g) = length (gg_tensors g)" "gg_n_tensors g = int (length (gg_tensors g))"
      "gg_n_kv g = int_of_count (length (gg_kvs g))"
    using tb n by (auto simp: tables_ok_def int_of_count_small)
  have q: "gg_tensors ?g = map (\<lambda>t. t\<lparr>tn_name := resolve (tn_name t)\<rparr>) (gg_tensors g)" "gg_base ?g = gg_base g"
      "gg_version ?g = gg_version g" "gg_n_kv ?g = gg_n_kv g" "gg_n_tensors ?g = gg_n_tensors g" "length (gg_kvs ?g) = length (gg_kvs g)"
    using cnt by (simp_all add: resolve_tensors_def resolve_kvs_def)
  have kvs: "\<forall>kv \<in> set (gg_kvs ?g). kv_ok (gg_base g) (gg_version g = 1) kv"
    using tb nb by (auto simp: tables_ok_def resolve_tensors_def resolve_kvs_def resolve_keeps dest: in_set_takeD in_set_dropD)
  obtain al where al: "read_alignment ?g = Some al" using r by (auto simp: finish_parse_def Let_def split: if_splits option.splits)
  let ?h = "?g\<lparr>gg_alignment := al, gg_data_offset := (cu_p c + unat al - 1) div unat al * unat al\<rparr>"
  have inb: "gg_data_offset ?h \<le> length (gg_base ?h)"
    using r al by (auto simp: finish_parse_def Let_def split: if_splits option.splits)
  obtain ts where ts: "place_tensors ?h (gg_tensors ?g) = Some ts" and g': "g' = ?h\<lparr>gg_tensors := ts\<rparr>"
    using r al cnt q by (auto simp: finish_parse_def Let_def split: if_splits option.splits)
  have "\<forall>t \<in> set (gg_tensors ?g). tn_ok t" using tb nb q by (auto simp: tables_ok_def resolve_keeps)
  note pl = place_tensors_placed [OF ts this inb]
  have "\<forall>t \<in> set ts. placed g' t" using pl unfolding g' placed_tensors_update by blast
  then show ?thesis
    using read_alignment_pow2 [OF al] inb pl cnt q v kvs by (simp add: gguf_wf_def g')
qed

lemma finish_parse_frame: "finish_parse c g = (s, g') \<Longrightarrow> same_frame g g' \<and> gg_strings_ptr g' = gg_strings_ptr g"
  by (auto simp: finish_parse_def Let_def same_frame_def resolve_tensors_def resolve_kvs_def split: if_splits option.splits)

subsection \<open>How many tensors\<close>

definition n_tn :: "gparse \<Rightarrow> nat" where "n_tn s = length (gg_tensors (fst (snd s)))"

lemma parse_tensor_count:
  assumes g: "gp_good img v1 g0 M s" and small: "length img < 2 ^ 62"
  shows "n_tn (parse_tensor img v1 s) \<le> Suc (n_tn s)"
proof -
  obtain c g h where s: "s = (c, g, h)" by (cases s)
  obtain name c1 g1 h1 where k: "cur_str img v1 (c, g, h) = (name, c1, g1, h1)" by (cases "cur_str img v1 (c, g, h)")
  obtain nd c2 where c2: "cur_u32 img c1 = (nd, c2)" by (cases "cur_u32 img c1")
  obtain ne c3 where c3: "read_ne img v1 (unat nd) [] c2 = (ne, c3)" by (cases "read_ne img v1 (unat nd) [] c2")
  have "gg_tensors g1 = gg_tensors g" using cur_str_inv [OF _ small k, of M] g s by (auto simp: gp_good_def)
  then show ?thesis by (simp add: n_tn_def parse_tensor_def s k c2 c3 add_tensor_def split: prod.split)
qed

lemma parse_tensors_count:
  assumes "gp_good img v1 g0 M s" and "length img < 2 ^ 62"
  shows "n_tn (parse_loop n (parse_tensor img v1) s) \<le> n_tn s + n"
  using assms(1)
proof (induction n arbitrary: s)
  case 0
  then show ?case by simp
next
  case (Suc n)
  from Suc.IH [OF parse_tensor_good [OF Suc.prems assms(2)]] parse_tensor_count [OF Suc.prems assms(2)]
  show ?case by simp
qed

lemma parse_kv_keeps_tensors:
  assumes g: "gp_good img v1 g0 M s" and small: "length img < 2 ^ 62"
  shows "n_tn (parse_kv f2d img v1 s) = n_tn s"
proof -
  obtain c g h where s: "s = (c, g, h)" by (cases s)
  obtain key c1 g1 h1 where k: "cur_str img v1 (c, g, h) = (key, c1, g1, h1)" by (cases "cur_str img v1 (c, g, h)")
  note good1 = cur_str_good [OF g [unfolded s] small k]
  obtain ty c2 where c2: "cur_u32 img c1 = (ty, c2)" by (cases "cur_u32 img c1")
  have good2: "gp_good img v1 g0 M (c2, g1, h1)"
    using cur_u32_ok [OF c2 gp_good_pos [OF good1]] by (intro gp_good_forward [OF good1]) auto
  obtain str c3 g3 h3 where k3: "cur_str img v1 (c2, g1, h1) = (str, c3, g3, h3)" by (cases "cur_str img v1 (c2, g1, h1)")
  have "gg_tensors g1 = gg_tensors g" using cur_str_inv [OF _ small k, of M] g s by (auto simp: gp_good_def)
  moreover have "gg_tensors g3 = gg_tensors g1" using cur_str_inv [OF _ small k3, of M] good2 by (auto simp: gp_good_def)
  ultimately show ?thesis
    by (simp add: n_tn_def parse_kv_def s k c2 k3 add_kv_def parse_array_def Let_def split: prod.split)
qed

lemma parse_kvs_keep_tensors:
  "gp_good img v1 g0 M s \<Longrightarrow> length img < 2 ^ 62 \<Longrightarrow> n_tn (parse_loop n (parse_kv f2d img v1) s) = n_tn s"
  by (induction n arbitrary: s) (auto simp: parse_kv_keeps_tensors parse_kv_good)

subsection \<open>The whole parse\<close>

definition table_blocks :: "gguf \<Rightarrow> block multiset" where
  "table_blocks g = opt_block Host (gg_kvs_ptr g) + opt_block Host (gg_tensors_ptr g) + opt_block Host (gg_strings_ptr g)"

definition gguf_blocks :: "gguf \<Rightarrow> block multiset" where
  "gguf_blocks g = add_mset (Host, gg_self g) (table_blocks g)"

definition fresh_gguf :: "gguf \<Rightarrow> bool" where
  "fresh_gguf g \<longleftrightarrow> gg_kvs_ptr g = None \<and> gg_tensors_ptr g = None \<and> gg_strings_ptr g = None \<and> gg_strings g = [] \<and>
     gg_strings_cap g = 0 \<and> gg_kvs g = [] \<and> gg_tensors g = [] \<and> gg_n_kv g = 0 \<and> gg_n_tensors g = 0"

text \<open>What the code keeps of a handle through a parse, with the memory accounted for.\<close>

definition parsed :: "gguf \<Rightarrow> block multiset \<Rightarrow> vv_status \<times> gguf \<times> heap \<Rightarrow> bool" where
  "parsed g0 M = (\<lambda>(s, g, h). gg_self g = gg_self g0 \<and> gg_fd g = gg_fd g0 \<and> gg_owns_mapping g = gg_owns_mapping g0 \<and>
     gg_base g = gg_base g0 \<and> owns h (table_blocks g + M) \<and> (s = VV_OK \<longrightarrow> gguf_wf g))"

lemma vv_alloc_opt: "owns h M \<Longrightarrow> vv_alloc sz h = (p, h') \<Longrightarrow> owns h' (opt_block Host p + M)"
  using vv_alloc_owns [of h M sz p h'] by (auto simp: opt_block_def split: option.splits)

lemma alloc_tables_owns:
  assumes "owns h M" and "alloc_tables nk nt g h = (g', h')" and "gg_strings_ptr g = None"
  shows "owns h' (table_blocks g' + M) \<and> (\<exists>k t. g' = g\<lparr>gg_kvs_ptr := k, gg_tensors_ptr := t\<rparr>)"
proof -
  obtain kvs h1 where a1: "vv_alloc (h_sizeof h ''vv_gguf_kv_t'' * (if nk \<noteq> 0 then nk else 1)) h = (kvs, h1)" by fastforce
  obtain tn h2 where a2: "vv_alloc (h_sizeof h1 ''vv_gguf_tensor_t'' * (if nt \<noteq> 0 then nt else 1)) h1 = (tn, h2)" by fastforce
  have "g' = g\<lparr>gg_kvs_ptr := kvs, gg_tensors_ptr := tn\<rparr>" "h' = h2" using assms(2) a1 a2 by (auto simp: alloc_tables_def)
  moreover have "owns h2 (opt_block Host tn + (opt_block Host kvs + M))"
    by (rule vv_alloc_opt [OF vv_alloc_opt [OF assms(1) a1] a2])
  ultimately show ?thesis using assms(3) by (auto simp: table_blocks_def opt_block_def ac_simps)
qed

lemma parse_tables_parsed:
  assumes g: "gp_good img (gg_version g = 1) g M (c, g, h)" and img: "gg_base g = img" "length img < 2 ^ 62"
    and v: "gg_version g \<in> {1, 2, 3}" and nt: "nt \<le> 2 ^ 20" "gg_tensors g = []"
    and M: "M = opt_block Host (gg_kvs_ptr g) + opt_block Host (gg_tensors_ptr g) + M0"
  shows "parsed g M0 (parse_tables f2d (gg_version g = 1) nk nt (c, g, h))"
proof -
  let ?v1 = "gg_version g = 1"
  let ?s1 = "parse_loop nk (parse_kv f2d img ?v1) (c, g, h)"
  obtain c1 g1 h1 where s1: "?s1 = (c1, g1, h1)" by (cases ?s1)
  let ?s2 = "parse_loop nt (parse_tensor img ?v1) (c1, g1, h1)"
  obtain c2 g2 h2 where s2: "?s2 = (c2, g2, h2)" by (cases ?s2)
  have good1: "gp_good img ?v1 g M (c1, g1, h1)"
    unfolding s1 [symmetric] by (rule parse_loop_good [OF g]) (rule parse_kv_good [OF _ img(2)])
  have good2: "gp_good img ?v1 g M (c2, g2, h2)"
    unfolding s2 [symmetric] by (rule parse_loop_good [OF good1]) (rule parse_tensor_good [OF _ img(2)])
  have "n_tn (c1, g1, h1) = 0"
    using parse_kvs_keep_tensors [OF g img(2), of nk f2d] s1 nt(2) by (simp add: n_tn_def)
  then have n2: "length (gg_tensors g2) < 2 ^ 31"
    using parse_tensors_count [OF good1 img(2), of nt] s2 nt(1) by (simp add: n_tn_def)
  have keep: "parsed g M0 (s, g', h')" if "gp_good img ?v1 g M (c', g', h')" "s \<noteq> VV_OK" for s c' g' h'
    using that M by (auto simp: parsed_def gp_good_def same_frame_def gp_inv_def table_blocks_def ac_simps)
  have fr: "gg_base g1 = img" "gg_base g2 = img" "gg_version g2 = gg_version g"
    using good1 good2 img by (auto simp: gp_good_def same_frame_def)
  obtain s g3 where fp: "finish_parse c2 g2 = (s, g3)" by (cases "finish_parse c2 g2")
  have "parsed g M0 (s, g3, h2)" if "\<not> cu_bad c2"
  proof -
    have "gguf_wf g3" if "s = VV_OK"
      by (rule finish_parse_wf [of c2 g2]) (use fp that good2 fr v n2 \<open>\<not> cu_bad c2\<close> in \<open>auto simp: gp_good_def\<close>)
    then show ?thesis
      using finish_parse_frame [OF fp] good2 M
      by (auto simp: parsed_def gp_good_def same_frame_def gp_inv_def table_blocks_def ac_simps)
  qed
  then show ?thesis
    using keep [OF good1] keep [OF good2] s1 s2 fp fr img by (simp add: parse_tables_def)
qed

lemma parse_parsed:
  assumes own: "owns h M" and fresh: "fresh_gguf g" and small: "length (gg_base g) < 2 ^ 62"
  shows "parsed g M (parse f2d g h)"
proof -
  let ?img = "gg_base g" and ?c0 = "\<lparr>cu_p = 0, cu_bad = False\<rparr>"
  have keep: "parsed g M (s, g', h)" if "s \<noteq> VV_OK" "g' = g \<or> g' = g\<lparr>gg_version := v\<rparr>" for s g' v
    using that own fresh by (auto simp: parsed_def fresh_gguf_def table_blocks_def opt_block_def)
  obtain magic c1 where c1: "cur_u32 ?img ?c0 = (magic, c1)" by fastforce
  obtain ver c2 where c2: "cur_u32 ?img c1 = (ver, c2)" by fastforce
  let ?v1 = "ver = 1" and ?g = "g\<lparr>gg_version := ver\<rparr>"
  obtain nt c3 where c3: "cur_count ?img ?v1 c2 = (nt, c3)" by fastforce
  obtain nk c4 where c4: "cur_count ?img ?v1 c3 = (nk, c4)" by fastforce
  note o1 = cur_u32_ok [OF c1] note o2 = cur_u32_ok [OF c2] note o3 = cur_count_ok [OF c3] note o4 = cur_count_ok [OF c4]
  have pos: "cu_p c4 \<le> length ?img" using o1 o2 o3 o4 by simp
  obtain g5 h5 where a: "alloc_tables nk nt ?g h = (g5, h5)" by fastforce
  have "gg_strings_ptr ?g = None" using fresh by (simp add: fresh_gguf_def)
  from alloc_tables_owns [OF own a this] obtain k t
    where o5: "owns h5 (table_blocks g5 + M)" and g5: "g5 = ?g\<lparr>gg_kvs_ptr := k, gg_tensors_ptr := t\<rparr>" by blast
  let ?g6 = "g5\<lparr>gg_alignment := GGUF_DEFAULT_ALIGNMENT\<rparr>"
  have mem: "parsed g M (VV_ERR_OUT_OF_MEMORY, g5, h5)" using o5 g5 by (simp add: parsed_def)
  have run: "parsed g M (parse_tables f2d ?v1 (unat nk) (unat nt) (c4, ?g6, h5))"
    if "ver \<in> {1, 2, 3}" "unat nt \<le> 2 ^ 20"
  proof -
    let ?M = "opt_block Host (gg_kvs_ptr ?g6) + opt_block Host (gg_tensors_ptr ?g6) + M"
    have "gp_good ?img (gg_version ?g6 = 1) ?g6 ?M (c4, ?g6, h5)"
      using fresh o5 g5 pos
      by (simp add: gp_good_def gp_inv_def arena_ok_def tables_ok_def fresh_gguf_def table_blocks_def opt_block_def int_of_count_small ac_simps)
    then have "parsed ?g6 M (parse_tables f2d (gg_version ?g6 = 1) (unat nk) (unat nt) (c4, ?g6, h5))"
      by (rule parse_tables_parsed) (use g5 fresh small that in \<open>auto simp: fresh_gguf_def\<close>)
    then show ?thesis using g5 by (simp add: parsed_def)
  qed
  have ver: "ver \<in> {1, 2, 3}" if "\<not> ver < 1" "\<not> ver > 3"
  proof -
    have "unat ver \<le> 3" "1 \<le> unat ver" using that by (simp_all add: word_less_nat_alt)
    then have "unat ver = 1 \<or> unat ver = 2 \<or> unat ver = 3" by arith
    then show ?thesis by (auto simp: word_unat_eq_iff)
  qed
  show ?thesis
    using c1 c2 c3 c4 a keep [of VV_ERR_PARSE g] keep [of VV_ERR_MODEL_VERSION "?g"] keep [of VV_ERR_PARSE "?g"] mem run ver
    by (auto simp: parse_def Let_def not_less)
qed

subsection \<open>Opening\<close>

lemma new_handle_owns:
  assumes "owns h M" and "new_handle h = (p, h')"
  shows "case p of None \<Rightarrow> owns h' M | Some g \<Rightarrow> owns h' (add_mset (Host, gg_self g) M) \<and> fresh_gguf g \<and>
    gg_fd g = False \<and> gg_owns_mapping g = False"
  using assms vv_alloc_owns [OF assms(1), of "h_sizeof h ''vv_gguf_t''"]
  by (auto simp: new_handle_def fresh_gguf_def split: prod.splits option.splits)

lemma gguf_close_owns:
  assumes "owns h (gguf_blocks g + M)"
  shows "vv_gguf_close (Some g) (h, w) =
      (fst (vv_gguf_close (Some g) (h, w)),
       w\<lparr>os_maps := os_maps w - (if gg_owns_mapping g then 1 else 0), os_fds := os_fds w - (if gg_fd g then 1 else 0)\<rparr>)"
    and "owns (fst (vv_gguf_close (Some g) (h, w))) M"
proof -
  have "owns h (opt_block Host (gg_kvs_ptr g) + (opt_block Host (gg_tensors_ptr g) + (opt_block Host (gg_strings_ptr g) +
      add_mset (Host, gg_self g) M)))"
    using assms by (simp add: gguf_blocks_def table_blocks_def ac_simps)
  then show "owns (fst (vv_gguf_close (Some g) (h, w))) M" by (simp add: vv_gguf_close_def Let_def)
qed (simp add: vv_gguf_close_def Let_def)

text \<open>What an open may leave behind: everything as before, or a handle that a close gives back.\<close>

definition opened :: "block multiset \<Rightarrow> os \<Rightarrow> bytes \<Rightarrow> gguf_result \<Rightarrow> bool" where
  "opened M w data = (\<lambda>(s, res, h', w').
     (res = None) = (s \<noteq> VV_OK) \<and>
     (case res of
        None \<Rightarrow> owns h' M \<and> w' = w
      | Some g \<Rightarrow> owns h' (gguf_blocks g + M) \<and> gguf_wf g \<and> gg_base g = data \<and>
          owns (fst (vv_gguf_close (Some g) (h', w'))) M \<and> snd (vv_gguf_close (Some g) (h', w')) = w))"

lemma gguf_fail_opened:
  assumes "owns h (gguf_blocks g + M)" and "s \<noteq> VV_OK"
    and "w' = w\<lparr>os_maps := os_maps w + (if gg_owns_mapping g then 1 else 0), os_fds := os_fds w + (if gg_fd g then 1 else 0)\<rparr>"
  shows "opened M w data (gguf_fail s g h w')"
  using gguf_close_owns [OF assms(1), of w'] assms(2,3)
  by (cases "vv_gguf_close (Some g) (h, w')") (auto simp: gguf_fail_def opened_def)

lemma parse_opened:
  assumes own: "owns h (add_mset (Host, gg_self g) M)" and fresh: "fresh_gguf g" and small: "length (gg_base g) < 2 ^ 62"
    and w: "w' = w\<lparr>os_maps := os_maps w + (if gg_owns_mapping g then 1 else 0), os_fds := os_fds w + (if gg_fd g then 1 else 0)\<rparr>"
    and p: "parse f2d g h = (s, g', h')"
  shows "opened M w (gg_base g) (if s \<noteq> VV_OK then gguf_fail s g' h' w' else (VV_OK, Some g', h', w'))"
proof -
  have "parsed g (add_mset (Host, gg_self g) M) (s, g', h')" using parse_parsed [OF own fresh small, of f2d] p by simp
  then have o: "owns h' (gguf_blocks g' + M)" and f: "gg_fd g' = gg_fd g" "gg_owns_mapping g' = gg_owns_mapping g"
      "gg_base g' = gg_base g" "s = VV_OK \<longrightarrow> gguf_wf g'"
    by (auto simp: parsed_def gguf_blocks_def)
  show ?thesis
  proof (cases "s = VV_OK")
    case False
    then show ?thesis using gguf_fail_opened [OF o False, of w' w "gg_base g"] w f by simp
  next
    case True
    then show ?thesis using gguf_close_owns [OF o, of w'] f w o
      by (cases "vv_gguf_close (Some g') (h', w')") (auto simp: opened_def)
  qed
qed

subsection \<open>What an open guarantees\<close>

lemma gguf_open_opened:
  assumes own: "owns h M" and small: "\<And>data. path = Some (Mapped data) \<Longrightarrow> length data < 2 ^ 62"
  shows "opened M w (case path of Some (Mapped data) \<Rightarrow> data | _ \<Rightarrow> []) (vv_gguf_open f2d path h w)"
proof (cases path)
  case None
  then show ?thesis using own by (simp add: vv_gguf_open_def opened_def)
next
  case (Some fs)
  obtain p h1 where nh: "new_handle h = (p, h1)" by fastforce
  note n = new_handle_owns [OF own nh]
  show ?thesis
  proof (cases p)
    case None
    with n nh Some own show ?thesis by (simp add: vv_gguf_open_def opened_def)
  next
    case (Some g)
    have fresh: "fresh_gguf g" "owns h1 (add_mset (Host, gg_self g) M)" "gg_fd g = False" "gg_owns_mapping g = False"
      using n Some by simp_all
    have fail: "opened M w data (gguf_fail VV_ERR_IO (g\<lparr>gg_fd := b\<rparr>) h1 w')"
      if "w' = (if b then w\<lparr>os_fds := os_fds w + 1\<rparr> else w)" for b w' data
      by (rule gguf_fail_opened) (use fresh that in \<open>auto simp: gguf_blocks_def table_blocks_def fresh_gguf_def opt_block_def\<close>)
    have g0: "g\<lparr>gg_fd := False\<rparr> = g" using fresh by simp
    show ?thesis
    proof (cases fs)
      case NoFile
      with fail [of w False] nh Some \<open>path = Some fs\<close> g0 show ?thesis by (simp add: vv_gguf_open_def)
    next
      case NoSize
      with fail [of _ True] nh Some \<open>path = Some fs\<close> show ?thesis by (simp add: vv_gguf_open_def)
    next
      case NoMap
      with fail [of _ True] nh Some \<open>path = Some fs\<close> show ?thesis by (simp add: vv_gguf_open_def)
    next
      case (Mapped data)
      let ?g = "g\<lparr>gg_fd := True, gg_base := data, gg_owns_mapping := True\<rparr>"
      obtain s g' h' where p: "parse f2d ?g h1 = (s, g', h')" by (cases "parse f2d ?g h1")
      let ?w = "w\<lparr>os_fds := os_fds w + 1, os_maps := os_maps w + 1\<rparr>"
      have "opened M w (gg_base ?g) (if s \<noteq> VV_OK then gguf_fail s g' h' ?w else (VV_OK, Some g', h', ?w))"
        by (rule parse_opened [OF _ _ _ _ p]) (use fresh small [of data] \<open>path = Some fs\<close> Mapped in \<open>auto simp: fresh_gguf_def\<close>)
      with p nh Some \<open>path = Some fs\<close> Mapped show ?thesis by (simp add: vv_gguf_open_def Let_def)
    qed
  qed
qed

text \<open>
  C33. Opening a GGUF file is all or nothing. Whatever the file system does and whatever the file holds,
  \<^verbatim>\<open>vv_gguf_open\<close> either reports an error and leaves the memory, the open files and the mappings as they were, or gives a
  handle that owns exactly its struct, its tables and its arena, and closing it gives all of them back, the file
  and the mapping too. No write goes outside a block on the way.
\<close>

theorem gguf_open_all_or_nothing:
  assumes own: "owns h M" and small: "\<And>data. path = Some (Mapped data) \<Longrightarrow> length data < 2 ^ 62"
    and op: "vv_gguf_open f2d path h w = (s, res, h', w')"
  shows "(res = None) = (s \<noteq> VV_OK) \<and>
      (case res of
        None \<Rightarrow> owns h' M \<and> w' = w
      | Some g \<Rightarrow> owns h' (gguf_blocks g + M) \<and>
          (case vv_gguf_close (Some g) (h', w') of (h'', w'') \<Rightarrow> owns h'' M \<and> w'' = w))"
  using gguf_open_opened [OF own small, of path w f2d] op by (auto simp: opened_def split: option.splits prod.splits)

text \<open>A file with a string array and a tensor of two halves.\<close>

definition demo_gguf :: bytes where
  "demo_gguf =
     [0x47, 0x47, 0x55, 0x46, 3, 0, 0, 0] @ [1, 0, 0, 0, 0, 0, 0, 0] @ [1, 0, 0, 0, 0, 0, 0, 0] @
     [1, 0, 0, 0, 0, 0, 0, 0, 0x74] @ [9, 0, 0, 0] @ [8, 0, 0, 0] @ [2, 0, 0, 0, 0, 0, 0, 0] @
     [2, 0, 0, 0, 0, 0, 0, 0, 0x61, 0x62] @ [1, 0, 0, 0, 0, 0, 0, 0, 0x63] @
     [1, 0, 0, 0, 0, 0, 0, 0, 0x78] @ [1, 0, 0, 0] @ [2, 0, 0, 0, 0, 0, 0, 0] @ [1, 0, 0, 0] @ [0, 0, 0, 0, 0, 0, 0, 0] @
     replicate 27 0 @ [0, 0x3C, 0, 0xC0]"

definition demo_gguf_heap :: heap where
  "demo_gguf_heap = \<lparr>h_next = 0, h_live = [], h_size = (\<lambda>_. 0), h_raw = (\<lambda>_. 0), h_total = 0, h_bad = False,
     h_malloc = (\<lambda>_ _. True), h_dev = (\<lambda>_ _. VV_OK), h_sizeof = (\<lambda>_. 64)\<rparr>"

definition demo_os :: os where "demo_os = \<lparr>os_fds = 0, os_maps = 0\<rparr>"

definition demo_gguf_open :: "bytes \<Rightarrow> gguf_result" where
  "demo_gguf_open data = vv_gguf_open (\<lambda>_. 0) (Some (Mapped data)) demo_gguf_heap demo_os"


lemma demo_u32:
  "cur_u32 demo_gguf \<lparr>cu_p = 0, cu_bad = False\<rparr> = (0x46554747, \<lparr>cu_p = 4, cu_bad = False\<rparr>)"
  "cur_u32 demo_gguf \<lparr>cu_p = 4, cu_bad = False\<rparr> = (3, \<lparr>cu_p = 8, cu_bad = False\<rparr>)"
  "cur_u32 demo_gguf \<lparr>cu_p = 33, cu_bad = False\<rparr> = (9, \<lparr>cu_p = 37, cu_bad = False\<rparr>)"
  "cur_u32 demo_gguf \<lparr>cu_p = 37, cu_bad = False\<rparr> = (8, \<lparr>cu_p = 41, cu_bad = False\<rparr>)"
  "cur_u32 demo_gguf \<lparr>cu_p = 77, cu_bad = False\<rparr> = (1, \<lparr>cu_p = 81, cu_bad = False\<rparr>)"
  "cur_u32 demo_gguf \<lparr>cu_p = 89, cu_bad = False\<rparr> = (1, \<lparr>cu_p = 93, cu_bad = False\<rparr>)"
  by (simp_all add: cur_u32_def cur_take_def le32_def demo_gguf_def)

lemma demo_u64:
  "cur_u64 demo_gguf \<lparr>cu_p = 8, cu_bad = False\<rparr> = (1, \<lparr>cu_p = 16, cu_bad = False\<rparr>)"
  "cur_u64 demo_gguf \<lparr>cu_p = 16, cu_bad = False\<rparr> = (1, \<lparr>cu_p = 24, cu_bad = False\<rparr>)"
  "cur_u64 demo_gguf \<lparr>cu_p = 24, cu_bad = False\<rparr> = (1, \<lparr>cu_p = 32, cu_bad = False\<rparr>)"
  "cur_u64 demo_gguf \<lparr>cu_p = 41, cu_bad = False\<rparr> = (2, \<lparr>cu_p = 49, cu_bad = False\<rparr>)"
  "cur_u64 demo_gguf \<lparr>cu_p = 49, cu_bad = False\<rparr> = (2, \<lparr>cu_p = 57, cu_bad = False\<rparr>)"
  "cur_u64 demo_gguf \<lparr>cu_p = 59, cu_bad = False\<rparr> = (1, \<lparr>cu_p = 67, cu_bad = False\<rparr>)"
  "cur_u64 demo_gguf \<lparr>cu_p = 68, cu_bad = False\<rparr> = (1, \<lparr>cu_p = 76, cu_bad = False\<rparr>)"
  "cur_u64 demo_gguf \<lparr>cu_p = 81, cu_bad = False\<rparr> = (2, \<lparr>cu_p = 89, cu_bad = False\<rparr>)"
  "cur_u64 demo_gguf \<lparr>cu_p = 93, cu_bad = False\<rparr> = (0, \<lparr>cu_p = 101, cu_bad = False\<rparr>)"
  by (simp_all add: cur_u64_def cur_take_def le64_def demo_gguf_def)

lemma demo_strings: "length demo_gguf = 132" "take (Suc 0) (drop 32 demo_gguf) = [0x74]" "take (Suc 0) (drop 76 demo_gguf) = [0x78]"
  by (simp_all add: demo_gguf_def)

lemma skip_string_eval:
  "skip_value img False 4 8 c =
     (case cur_u64 img c of (len, c) \<Rightarrow> if cu_bad c \<or> unat len > cur_left img c then c\<lparr>cu_bad := True\<rparr> else c\<lparr>cu_p := cu_p c + unat len\<rparr>)"
  using skip_value.simps(2) [of img False 3 8 c] by (simp add: scalar_size_def cur_count_def)

lemma repeat_two: "repeat_ok 2 f c = (if cu_bad c then c else if cu_bad (f c) then f c else f (f c))"
  by (simp add: numeral_2_eq_2)

lemma pad_one: "pad_ne [x] = [x, 1, 1, 1]"
  by (simp add: pad_ne_def numeral_3_eq_3)

lemma pad_two: "pad_ne [x, y] = [x, y, 1, 1]"
  by (simp add: pad_ne_def numeral_2_eq_2)

lemma demo_skip:
  "repeat_ok 2 (skip_value demo_gguf False 4 8) \<lparr>cu_p = 49, cu_bad = False\<rparr> = \<lparr>cu_p = 68, cu_bad = False\<rparr>"
  by (simp add: repeat_two skip_string_eval demo_u64 cur_left_def demo_strings)

lemma demo_gguf_opens:
  "\<exists>g h w. demo_gguf_open demo_gguf = (VV_OK, Some g, h, w) \<and> gg_version g = 3 \<and> gg_base g = demo_gguf \<and>
     gg_n_kv g = 1 \<and> gg_n_tensors g = 1 \<and>
     gg_kvs g = [no_kv\<lparr>kv_key := ArenaPtr 0, kv_type := 9, kv_arr_type := 8, kv_arr_n := 2, kv_arr_data := 49\<rparr>] \<and>
     gg_tensors g = [\<lparr>tn_name = ArenaPtr 2, tn_n_dims = 1, tn_ne = [2, 1, 1, 1], tn_type = 1, tn_offset = 0,
        tn_data = Some 128, tn_nbytes = 4\<rparr>]"
  by (simp add: demo_gguf_open_def vv_gguf_open_def new_handle_def vv_alloc_def demo_gguf_heap_def parse_def demo_u32 demo_u64
      cur_count_def demo_strings cur_left_def alloc_tables_def parse_tables_def parse_kv_def cur_str_def arena_write_def
      arena_cap.simps parse_array_def scalar_size_def demo_skip Let_def add_kv_def add_tensor_def parse_tensor_def
      finish_parse_def resolve_kvs_def resolve_tensors_def resolve_def names_ok_def read_alignment_def vv_gguf_find_kv_def cstr_text_def
      ascii_def pad_one place_tensor_def int_of_count_def no_kv_def vv_ggml_nbytes_def traits_def k_traits_def vv_gguf_nelements_def)

theorem gguf_open_all_or_nothing_witness:
  "case demo_gguf_open demo_gguf of
     (s, Some g, h', w') \<Rightarrow> s = VV_OK \<and> owns h' (gguf_blocks g) \<and>
       (case vv_gguf_close (Some g) (h', w') of (h'', w'') \<Rightarrow> owns h'' {#} \<and> w'' = demo_os)
   | _ \<Rightarrow> False"
proof -
  obtain g h w where o: "demo_gguf_open demo_gguf = (VV_OK, Some g, h, w)" using demo_gguf_opens by blast
  have "owns demo_gguf_heap {#}" by (simp add: owns_def demo_gguf_heap_def)
  from gguf_open_all_or_nothing [OF this _ o [unfolded demo_gguf_open_def]] o show ?thesis by (simp add: demo_strings)
qed

lemma gguf_open_wf:
  assumes "owns h M" "length data < 2 ^ 62" and "vv_gguf_open f2d (Some (Mapped data)) h w = (s, Some g, h', w')"
  shows "gguf_wf g \<and> gg_base g = data"
  using gguf_open_opened [OF assms(1), of "Some (Mapped data)" w f2d] assms(2,3) by (simp add: opened_def)

lemma gguf_tensor_mem: "gguf_wf g \<Longrightarrow> vv_gguf_tensor (Some g) i = Some t \<Longrightarrow> placed g t"
  by (auto simp: vv_gguf_tensor_def gguf_wf_def split: if_splits)

lemma int_of_count_le: "int_of_count n \<le> int n"
  using zmod_le_nonneg_dividend [of "int n + 2 ^ 31" "2 ^ 32"]
  by (simp add: int_of_count_def signed_take_bit_eq_take_bit_shift take_bit_eq_mod)

lemma gguf_kv_mem:
  "gguf_wf g \<Longrightarrow> vv_gguf_kv (Some g) i = Some kv \<Longrightarrow> kv_ok (gg_base g) (gg_version g = 1) kv"
  using int_of_count_le [of "length (gg_kvs g)"]
  by (auto simp: vv_gguf_kv_def gguf_wf_def split: if_splits)

text \<open>
  C8. Where a tensor's bytes are. After a successful open, every tensor the reader gives a data pointer for lies inside the
  file with all its bytes, the pointer is a multiple of the alignment, a power of two, and the number of bytes is
  the exact size of the shape, not a wrapped one. The exception is a shape whose number of elements itself wraps to zero,
  which is taken for empty.
\<close>

theorem gguf_tensors_in_bounds:
  assumes own: "owns h M" and small: "length data < 2 ^ 62"
    and op: "vv_gguf_open f2d (Some (Mapped data)) h w = (s, Some g, h', w')"
    and t: "vv_gguf_tensor (Some g) i = Some t" and p: "tn_data t = Some p"
  shows "p + unat (tn_nbytes t) \<le> length data \<and> p mod unat (gg_alignment g) = 0 \<and> pow2_u32 (gg_alignment g) \<and>
    (\<exists>tr. traits (tn_type t) = Some tr \<and>
      (if tn_nbytes t = 0 then vv_gguf_nelements t = 0
       else unat (tn_nbytes t) = ggml_size (tn_type t) tr (prod_list (map unat (tn_ne t)))))"
proof -
  note wf = gguf_open_wf [OF own small op]
  note pl = gguf_tensor_mem [OF conjunct1 [OF wf] t]
  obtain tr where tr: "traits (tn_type t) = Some tr" using pl p by (auto simp: placed_def split: option.splits)
  have b: "p = gg_data_offset g + unat (tn_offset t)" "unat (tn_offset t) mod unat (gg_alignment g) = 0"
      "p + unat (tn_nbytes t) \<le> length data" "tn_nbytes t = vv_ggml_nbytes (tn_type t) (tn_ne t)"
      "tn_nbytes t = 0 \<longrightarrow> vv_gguf_nelements t = 0"
    using pl p tr wf by (auto simp: placed_def)
  have al: "pow2_u32 (gg_alignment g)" "gg_data_offset g mod unat (gg_alignment g) = 0"
    using wf by (auto simp: gguf_wf_def)
  have "p mod unat (gg_alignment g) = 0" using b(1,2) al(2) by (simp add: mod_eq_0_iff_dvd)
  with tr b al nbytes_exact(1) [OF tr, of "tn_ne t"] show ?thesis by auto
qed

theorem gguf_tensors_in_bounds_witness:
  "case demo_gguf_open demo_gguf of
     (s, Some g, h', w') \<Rightarrow> (\<exists>t. vv_gguf_tensor (Some g) 0 = Some t \<and> tn_data t = Some 128 \<and> 128 + unat (tn_nbytes t) \<le> 132 \<and>
       unat (tn_nbytes t) = 4)
   | _ \<Rightarrow> False"
proof -
  obtain g h w where o: "demo_gguf_open demo_gguf = (VV_OK, Some g, h, w)" and t: "gg_n_tensors g = 1"
      "gg_tensors g = [\<lparr>tn_name = ArenaPtr 2, tn_n_dims = 1, tn_ne = [2, 1, 1, 1], tn_type = 1, tn_offset = 0,
        tn_data = Some 128, tn_nbytes = 4\<rparr>]"
    using demo_gguf_opens by blast
  have own: "owns demo_gguf_heap {#}" by (simp add: owns_def demo_gguf_heap_def)
  have g: "vv_gguf_tensor (Some g) 0 = Some (gg_tensors g ! 0)" "tn_data (gg_tensors g ! 0) = Some 128"
    using t by (simp_all add: vv_gguf_tensor_def)
  from gguf_tensors_in_bounds [OF own _ o [unfolded demo_gguf_open_def] g] o g t show ?thesis by (simp add: demo_strings)
qed

text \<open>
  Walking a string array. For a file of version 2 or 3 that opened, every element of every string array of the
  metadata is found inside the file: the walk, which checks nothing, reads no length beyond the end of the mapping, and the
  string it points at ends inside it.
\<close>

theorem gguf_arr_str_in_bounds:
  assumes own: "owns h M" and small: "length data < 2 ^ 62"
    and op: "vv_gguf_open f2d (Some (Mapped data)) h w = (s, Some g, h', w')" and v: "gg_version g \<noteq> 1"
    and kv: "vv_gguf_kv (Some g) i = Some kv" and r: "vv_gguf_arr_str data (Some kv) idx = Some r"
  shows "\<exists>p len. r = Inr (p, len) \<and> unat p + unat len \<le> length data"
proof -
  note wf = gguf_open_wf [OF own small op]
  note ok = gguf_kv_mem [OF conjunct1 [OF wf] kv]
  have c: "kv_type kv = VV_GGUF_ARRAY" "kv_arr_type kv = VV_GGUF_STRING" "unat idx < unat (kv_arr_n kv)"
      "r = arr_str_walk data (unat idx) (of_nat (kv_arr_data kv))"
    using r by (auto simp: vv_gguf_arr_str_def not_le word_less_nat_alt split: if_splits)
  have "strings_fit data (unat (kv_arr_n kv)) (kv_arr_data kv)" "kv_arr_data kv \<le> length data"
    using ok c v wf by (auto simp: kv_ok_def)
  from arr_str_walk_fits [OF this(1) c(3) _ this(2)] small c(4) show ?thesis by auto
qed

theorem gguf_arr_str_in_bounds_witness:
  "case demo_gguf_open demo_gguf of
     (s, Some g, h', w') \<Rightarrow> (\<exists>kv r p len. vv_gguf_kv (Some g) 0 = Some kv \<and> vv_gguf_arr_str demo_gguf (Some kv) 1 = Some r \<and>
        r = Inr (p, len) \<and> unat p + unat len \<le> 132)
   | _ \<Rightarrow> False"
proof -
  obtain g h w where o: "demo_gguf_open demo_gguf = (VV_OK, Some g, h, w)" and t: "gg_n_kv g = 1" "gg_version g = 3"
      "gg_kvs g = [no_kv\<lparr>kv_key := ArenaPtr 0, kv_type := 9, kv_arr_type := 8, kv_arr_n := 2, kv_arr_data := 49\<rparr>]"
    using demo_gguf_opens by blast
  have own: "owns demo_gguf_heap {#}" by (simp add: owns_def demo_gguf_heap_def)
  have g: "vv_gguf_kv (Some g) 0 = Some (gg_kvs g ! 0)" using t by (simp add: vv_gguf_kv_def)
  have "\<exists>r. vv_gguf_arr_str demo_gguf (Some (gg_kvs g ! 0)) 1 = Some r" using t by (simp add: vv_gguf_arr_str_def word_le_nat_alt)
  then obtain r where r: "vv_gguf_arr_str demo_gguf (Some (gg_kvs g ! 0)) 1 = Some r" by blast
  from gguf_arr_str_in_bounds [OF own _ o [unfolded demo_gguf_open_def] _ g r] o g r t show ?thesis by (simp add: demo_strings)
qed

subsection \<open>What the reader lets through\<close>

text \<open>
  A version 1 file: its strings have 32-bit lengths, and \<open>demo_v1\<close> holds an array of two.
\<close>

definition demo_v1 :: bytes where
  "demo_v1 =
     [0x47, 0x47, 0x55, 0x46, 1, 0, 0, 0, 0, 0, 0, 0, 1, 0, 0, 0] @ [1, 0, 0, 0, 0x74] @ [9, 0, 0, 0] @ [8, 0, 0, 0] @ [2, 0, 0, 0] @
     [2, 0, 0, 0, 0x61, 0x62] @ [1, 0, 0, 0, 0x63] @ replicate 20 0"

text \<open>
  A tensor of \<open>2 ^ 32\<close> rows of \<open>2 ^ 32\<close> ternary weights, in a file of 96 bytes.
\<close>

definition demo_wrap :: bytes where
  "demo_wrap =
     [0x47, 0x47, 0x55, 0x46, 3, 0, 0, 0] @ [1, 0, 0, 0, 0, 0, 0, 0] @ [0, 0, 0, 0, 0, 0, 0, 0] @
     [1, 0, 0, 0, 0, 0, 0, 0, 0x78] @ [2, 0, 0, 0] @ [0, 0, 0, 0, 1, 0, 0, 0] @ [0, 0, 0, 0, 1, 0, 0, 0] @ [36, 0, 0, 0] @
     [0, 0, 0, 0, 0, 0, 0, 0] @ replicate 31 0"

lemma demo_v1_reads:
  "length demo_v1 = 64" "take (Suc 0) (drop 20 demo_v1) = [0x74]"
  "cur_u32 demo_v1 \<lparr>cu_p = 0, cu_bad = False\<rparr> = (0x46554747, \<lparr>cu_p = 4, cu_bad = False\<rparr>)"
  "cur_u32 demo_v1 \<lparr>cu_p = 4, cu_bad = False\<rparr> = (1, \<lparr>cu_p = 8, cu_bad = False\<rparr>)"
  "cur_u32 demo_v1 \<lparr>cu_p = 8, cu_bad = False\<rparr> = (0, \<lparr>cu_p = 12, cu_bad = False\<rparr>)"
  "cur_u32 demo_v1 \<lparr>cu_p = 12, cu_bad = False\<rparr> = (1, \<lparr>cu_p = 16, cu_bad = False\<rparr>)"
  "cur_u32 demo_v1 \<lparr>cu_p = 16, cu_bad = False\<rparr> = (1, \<lparr>cu_p = 20, cu_bad = False\<rparr>)"
  "cur_u32 demo_v1 \<lparr>cu_p = 21, cu_bad = False\<rparr> = (9, \<lparr>cu_p = 25, cu_bad = False\<rparr>)"
  "cur_u32 demo_v1 \<lparr>cu_p = 25, cu_bad = False\<rparr> = (8, \<lparr>cu_p = 29, cu_bad = False\<rparr>)"
  "cur_u32 demo_v1 \<lparr>cu_p = 29, cu_bad = False\<rparr> = (2, \<lparr>cu_p = 33, cu_bad = False\<rparr>)"
  "cur_u32 demo_v1 \<lparr>cu_p = 33, cu_bad = False\<rparr> = (2, \<lparr>cu_p = 37, cu_bad = False\<rparr>)"
  "cur_u32 demo_v1 \<lparr>cu_p = 39, cu_bad = False\<rparr> = (1, \<lparr>cu_p = 43, cu_bad = False\<rparr>)"
  "le64 (drop 33 demo_v1) = 0x1626100000002"
  by (simp_all add: cur_u32_def cur_take_def le32_def le64_def demo_v1_def)

lemma demo_v1_skip:
  "repeat_ok 2 (skip_value demo_v1 True 4 8) \<lparr>cu_p = 33, cu_bad = False\<rparr> = \<lparr>cu_p = 44, cu_bad = False\<rparr>"
  using skip_value.simps(2) [of demo_v1 True 3 8]
  by (simp add: repeat_two demo_v1_reads scalar_size_def cur_count_def cur_left_def)

lemmas run_open = demo_gguf_open_def vv_gguf_open_def new_handle_def vv_alloc_def demo_gguf_heap_def parse_def
  cur_count_def cur_left_def alloc_tables_def parse_tables_def parse_kv_def cur_str_def arena_write_def
  arena_cap.simps parse_array_def scalar_size_def Let_def add_kv_def add_tensor_def parse_tensor_def
  finish_parse_def resolve_kvs_def resolve_tensors_def resolve_def names_ok_def read_alignment_def vv_gguf_find_kv_def cstr_text_def
  ascii_def pad_one pad_two place_tensor_def int_of_count_def no_kv_def vv_ggml_nbytes_def traits_def k_traits_def vv_gguf_nelements_def

lemma demo_v1_opens:
  "\<exists>g h w. demo_gguf_open demo_v1 = (VV_OK, Some g, h, w) \<and> gg_n_kv g = 1 \<and>
     gg_kvs g = [no_kv\<lparr>kv_key := ArenaPtr 0, kv_type := 9, kv_arr_type := 8, kv_arr_n := 2, kv_arr_data := 33\<rparr>]"
  by (simp add: demo_v1_reads demo_v1_skip run_open)

lemma demo_wrap_reads:
  "length demo_wrap = 96" "take (Suc 0) (drop 32 demo_wrap) = [0x78]"
  "cur_u32 demo_wrap \<lparr>cu_p = 0, cu_bad = False\<rparr> = (0x46554747, \<lparr>cu_p = 4, cu_bad = False\<rparr>)"
  "cur_u32 demo_wrap \<lparr>cu_p = 4, cu_bad = False\<rparr> = (3, \<lparr>cu_p = 8, cu_bad = False\<rparr>)"
  "cur_u64 demo_wrap \<lparr>cu_p = 8, cu_bad = False\<rparr> = (1, \<lparr>cu_p = 16, cu_bad = False\<rparr>)"
  "cur_u64 demo_wrap \<lparr>cu_p = 16, cu_bad = False\<rparr> = (0, \<lparr>cu_p = 24, cu_bad = False\<rparr>)"
  "cur_u64 demo_wrap \<lparr>cu_p = 24, cu_bad = False\<rparr> = (1, \<lparr>cu_p = 32, cu_bad = False\<rparr>)"
  "cur_u32 demo_wrap \<lparr>cu_p = 33, cu_bad = False\<rparr> = (2, \<lparr>cu_p = 37, cu_bad = False\<rparr>)"
  "cur_u64 demo_wrap \<lparr>cu_p = 37, cu_bad = False\<rparr> = (2 ^ 32, \<lparr>cu_p = 45, cu_bad = False\<rparr>)"
  "cur_u64 demo_wrap \<lparr>cu_p = 45, cu_bad = False\<rparr> = (2 ^ 32, \<lparr>cu_p = 53, cu_bad = False\<rparr>)"
  "cur_u32 demo_wrap \<lparr>cu_p = 53, cu_bad = False\<rparr> = (36, \<lparr>cu_p = 57, cu_bad = False\<rparr>)"
  "cur_u64 demo_wrap \<lparr>cu_p = 57, cu_bad = False\<rparr> = (0, \<lparr>cu_p = 65, cu_bad = False\<rparr>)"
  by (simp_all add: cur_u32_def cur_u64_def cur_take_def le32_def le64_def demo_wrap_def)

lemma read_two:
  "read_ne img v1 2 [] c =
     (case cur_count img v1 c of (x, c) \<Rightarrow> if x > 2 ^ 40 then ([], c\<lparr>cu_bad := True\<rparr>)
      else (case cur_count img v1 c of (y, c) \<Rightarrow> if y > 2 ^ 40 then ([x], c\<lparr>cu_bad := True\<rparr>) else ([x, y], c)))"
  unfolding numeral_2_eq_2 by (simp split: prod.split)

lemma demo_wrap_ne: "read_ne demo_wrap False 2 [] \<lparr>cu_p = 37, cu_bad = False\<rparr> = ([2 ^ 32, 2 ^ 32], \<lparr>cu_p = 53, cu_bad = False\<rparr>)"
  by (simp add: read_two demo_wrap_reads cur_count_def)

lemma demo_wrap_opens:
  "\<exists>g h w. demo_gguf_open demo_wrap = (VV_OK, Some g, h, w) \<and> gg_n_tensors g = 1 \<and>
     gg_tensors g = [\<lparr>tn_name = ArenaPtr 0, tn_n_dims = 2, tn_ne = [2 ^ 32, 2 ^ 32, 1, 1], tn_type = 36, tn_offset = 0,
        tn_data = Some 96, tn_nbytes = 0\<rparr>]"
  by (simp add: demo_wrap_reads demo_wrap_ne run_open)

text \<open>
  Version 1 files open, and the walk over their string arrays goes wrong: it takes the four bytes of a length with the
  four after them, so that from the second element on it reads outside the file.
\<close>

theorem gguf_arr_str_v1_reads_outside:
  "case demo_gguf_open demo_v1 of
     (s, Some g, h, w) \<Rightarrow> s = VV_OK \<and>
       (\<exists>p. vv_gguf_arr_str demo_v1 (vv_gguf_kv (Some g) 0) 1 = Some (Inl p) \<and> length demo_v1 < unat p)
   | _ \<Rightarrow> False"
proof -
  obtain g h w where o: "demo_gguf_open demo_v1 = (VV_OK, Some g, h, w)" and kv: "gg_n_kv g = 1"
      "gg_kvs g = [no_kv\<lparr>kv_key := ArenaPtr 0, kv_type := 9, kv_arr_type := 8, kv_arr_n := 2, kv_arr_data := 33\<rparr>]"
    using demo_v1_opens by blast
  have "arr_str_walk demo_v1 1 33 = Inl 0x162610000002B" by (simp add: demo_v1_reads)
  then show ?thesis using o kv by (simp add: vv_gguf_kv_def vv_gguf_arr_str_def demo_v1_reads word_le_nat_alt)
qed

end
