(* ===== verification/Half.thy ===== *)
theory Half
  imports Prelude
begin

unbundle bit_operations_syntax

text \<open>
  The conversions between half precision, \<^verbatim>\<open>bfloat16\<close> and \<^verbatim>\<open>float\<close> of \<^verbatim>\<open>include/vibevoice/types.h\<close>, on the bit patterns the
  unions of the code go through.
\<close>

text \<open>
  The loop that normalises a subnormal: the mantissa is shifted left until its implicit bit appears. The first argument
  bounds the number of turns; a mantissa that is not zero needs at most ten.
\<close>

primrec normalise :: "nat \<Rightarrow> u32 \<Rightarrow> u32 \<Rightarrow> u32 \<times> u32" where
  "normalise 0 exp man = (exp, man)"
| "normalise (Suc n) exp man =
     (if man AND 0x400 \<noteq> 0 then (exp, man) else normalise n (exp - 1) (push_bit 1 man))"

definition vv_half_to_float :: "u16 \<Rightarrow> u32" where
  "vv_half_to_float h =
     (let sign = push_bit 16 (ucast h AND 0x8000);
          exp = drop_bit 10 (ucast h) AND 0x1F;
          man = ucast h AND 0x3FF
      in if exp = 0 then
           if man = 0 then sign
           else
             (case normalise 10 1 man of
                (exp, man) \<Rightarrow> sign OR push_bit 23 (exp + 127 - 15) OR push_bit 13 (man AND 0x3FF))
         else if exp = 31 then sign OR 0x7F800000 OR push_bit 13 man
         else sign OR push_bit 23 (exp + 127 - 15) OR push_bit 13 man)"

definition vv_float_to_half :: "u32 \<Rightarrow> u16" where
  "vv_float_to_half f =
     (let sign = drop_bit 16 f AND 0x8000;
          exp = uint (drop_bit 23 f AND 0xFF) - 127 + 15;
          man = f AND 0x7FFFFF
      in if exp \<le> 0 then
           if exp < - 10 then ucast sign
           else
             let man = man OR 0x800000; shift = nat (14 - exp);
                 round = drop_bit (shift - 1) man AND 1
             in ucast (sign OR (drop_bit shift man + round))
         else if exp \<ge> 31 then ucast (sign OR 0x7C00)
         else
           let round = drop_bit 12 man AND 1; man = drop_bit 13 man + round;
               (man, exp) = (if man AND 0x400 \<noteq> 0 then (0, exp + 1) else (man, exp))
           in if exp \<ge> 31 then ucast (sign OR 0x7C00)
              else ucast (sign OR push_bit 10 (of_int exp) OR man))"

definition vv_float_to_half_rne :: "u32 \<Rightarrow> u16" where
  "vv_float_to_half_rne f =
     (let sign = drop_bit 16 f AND 0x8000; absu = f AND 0x7FFFFFFF in
      if absu \<ge> 0x7F800000 then ucast (sign OR 0x7C00 OR (if absu > 0x7F800000 then 0x200 else 0))
      else if absu \<ge> 0x477FF000 then ucast (sign OR 0x7C00)
      else if absu < 0x38800000 then
        if absu < 0x33000001 then ucast sign
        else
          let e = drop_bit 23 absu; m = (absu AND 0x7FFFFF) OR 0x800000; shift = unat (126 - e);
              h = drop_bit shift m; rest = m AND (push_bit shift 1 - 1); half = push_bit (shift - 1) 1
          in ucast (sign OR (if rest > half \<or> (rest = half \<and> h AND 1 \<noteq> 0) then h + 1 else h))
      else
        let h = drop_bit 13 absu - push_bit 10 112; rest = absu AND 0x1FFF
        in ucast (sign OR (if rest > 0x1000 \<or> (rest = 0x1000 \<and> h AND 1 \<noteq> 0) then h + 1 else h)))"

definition vv_bf16_to_float :: "u16 \<Rightarrow> u32" where
  "vv_bf16_to_float b = push_bit 16 (ucast b)"

subsection \<open>The numbers the bits stand for\<close>

text \<open>
  Magnitudes, from the code without its sign: of a half in units of \<open>2 ^ - 24\<close>, of a float in units of \<open>2 ^ - 149\<close>.
  The code \<open>0x7C00\<close>, infinity, gets the value the next power of two would have.
\<close>

definition half_mag :: "nat \<Rightarrow> nat" where
  "half_mag x = (if x < 1024 then x else (1024 + x mod 1024) * 2 ^ (x div 1024 - 1))"

definition float_mag :: "nat \<Rightarrow> nat" where
  "float_mag y = (if y < 2 ^ 23 then y else (2 ^ 23 + y mod 2 ^ 23) * 2 ^ (y div 2 ^ 23 - 1))"

definition half_code :: "u16 \<Rightarrow> nat" where "half_code h = unat (take_bit 15 h)"
definition float_code :: "u32 \<Rightarrow> nat" where "float_code f = unat (take_bit 31 f)"

text \<open>The same unit for both.\<close>

definition half_value :: "nat \<Rightarrow> nat" where "half_value x = half_mag x * 2 ^ 125"

lemma half_mag_Suc: "half_mag (Suc x) = half_mag x + 2 ^ (x div 1024 - 1)"
proof (cases "x < 1023")
  case True
  then show ?thesis by (simp add: half_mag_def)
next
  case False
  show ?thesis
  proof (cases "Suc x mod 1024 = 0")
    case True
    then obtain k where k: "Suc x = 1024 * k" by (metis mod_eq_0_iff_dvd dvdE)
    then have "0 < k" by (cases k) auto
    then have x: "x = 1024 * (k - 1) + 1023" using k by (cases k) auto
    then have d: "x div 1024 = k - 1" "x mod 1024 = 1023" by simp_all
    have "2 ^ (k - 1) = 2 * (2 ^ (k - 1 - 1) :: nat)" if "1 < k" using that by (cases "k - 1") auto
    then show ?thesis using False k d x by (cases "k = 1") (auto simp: half_mag_def)
  next
    case mid: False
    then have "Suc x mod 1024 = Suc (x mod 1024)" "Suc x div 1024 = x div 1024"
      by (simp_all add: mod_Suc div_Suc split: if_splits)
    then show ?thesis using False mid by (auto simp: half_mag_def algebra_simps split: if_splits)
  qed
qed

lemma half_value_Suc: "half_value (Suc x) = half_value x + 2 ^ (x div 1024 - 1) * 2 ^ 125"
  by (simp add: half_value_def half_mag_Suc distrib_right)

lemma half_value_less: "half_value x < half_value (Suc x)"
  unfolding half_value_Suc by simp

lemma half_value_strict: "x < y \<Longrightarrow> half_value x < half_value y"
  by (rule lift_Suc_mono_less [of half_value]) (simp_all add: half_value_less)

lemma half_value_mono: "x \<le> y \<Longrightarrow> half_value x \<le> half_value y"
  using half_value_strict [of x y] by (cases "x = y") auto

lemma half_value_inj: "half_value x = half_value y \<Longrightarrow> x = y"
  using half_value_strict by (metis less_irrefl linorder_neqE_nat)

subsection \<open>Rounding to nearest\<close>

text \<open>
  \<open>nearest F x\<close>: no half is nearer to \<open>F\<close> than \<open>x\<close>. At a tie \<open>tie\<close> says which of the two neighbours it is.
\<close>

definition dist :: "nat \<Rightarrow> nat \<Rightarrow> nat" where
  "dist a b = (if a \<le> b then b - a else a - b)"

definition nearest :: "(nat \<Rightarrow> nat \<Rightarrow> bool) \<Rightarrow> nat \<Rightarrow> nat \<Rightarrow> bool" where
  "nearest tie F x \<longleftrightarrow> x \<le> 0x7C00 \<and>
     (\<forall>y \<le> 0x7C00. y \<noteq> x \<longrightarrow>
        dist F (half_value x) < dist F (half_value y) \<or> dist F (half_value x) = dist F (half_value y) \<and> tie x y)"

definition to_even :: "nat \<Rightarrow> nat \<Rightarrow> bool" where "to_even x y \<longleftrightarrow> even x"
definition away :: "nat \<Rightarrow> nat \<Rightarrow> bool" where "away x y \<longleftrightarrow> y < x"

lemma nearest_between:
  assumes F: "half_value x \<le> F" "F \<le> half_value (Suc x)" and x: "Suc x \<le> 0x7C00" and z: "z = x \<or> z = Suc x"
    and near: "\<And>w. w = x \<or> w = Suc x \<Longrightarrow> w \<noteq> z \<Longrightarrow>
      dist F (half_value z) < dist F (half_value w) \<or> dist F (half_value z) = dist F (half_value w) \<and> tie z w"
  shows "nearest tie F z"
  unfolding nearest_def
proof (intro conjI allI impI)
  show "z \<le> 0x7C00" using z x by auto
next
  fix y assume y: "y \<le> 0x7C00" "y \<noteq> z"
  have le: "dist F (half_value z) \<le> dist F (half_value w)" if "w = x \<or> w = Suc x" for w
    using near [OF that] by (cases "w = z") auto
  consider "y = x \<or> y = Suc x" | "y < x" | "Suc x < y" by linarith
  then show "dist F (half_value z) < dist F (half_value y) \<or> dist F (half_value z) = dist F (half_value y) \<and> tie z y"
  proof cases
    case 1
    with near y show ?thesis by blast
  next
    case 2
    then have "dist F (half_value x) < dist F (half_value y)"
      using half_value_strict [OF 2] F by (simp add: dist_def, linarith)
    with le [of x] show ?thesis by simp
  next
    case 3
    then have "dist F (half_value (Suc x)) < dist F (half_value y)"
      using half_value_strict [OF 3] F by (simp add: dist_def)
    with le [of "Suc x"] show ?thesis by simp
  qed
qed

text \<open>A value \<open>r\<close> units above \<open>x\<close>, where the next half is \<open>2 * g\<close> units above.\<close>

lemma nearest_step:
  assumes F: "F = half_value x + r * u" and nxt: "half_value (Suc x) = half_value x + 2 * g * u"
    and r: "r < 2 * g" and x: "Suc x \<le> 0x7C00"
  shows "nearest to_even F (if r > g \<or> (r = g \<and> odd x) then Suc x else x)"
    and "nearest away F (if r \<ge> g then Suc x else x)"
proof -
  have u: "0 < u" using half_value_less [of x] nxt by (cases u) auto
  have d0: "dist F (half_value x) = r * u" using F by (simp add: dist_def)
  have "r * u \<le> 2 * g * u" using r by simp
  then have d1: "dist F (half_value (Suc x)) = (2 * g - r) * u" using F nxt by (auto simp: dist_def diff_mult_distrib)
  have c: "(r * u < (2 * g - r) * u) = (r < g)" "(r * u = (2 * g - r) * u) = (r = g)" "((2 * g - r) * u < r * u) = (g < r)"
    using u r by auto
  have b: "half_value x \<le> F" "F \<le> half_value (Suc x)" using F nxt \<open>r * u \<le> 2 * g * u\<close> by simp_all
  note n = nearest_between [OF b x]
  show "nearest to_even F (if r > g \<or> (r = g \<and> odd x) then Suc x else x)"
    by (rule n) (use d0 d1 c in \<open>auto simp: to_even_def\<close>)
  show "nearest away F (if r \<ge> g then Suc x else x)"
    by (rule n) (use d0 d1 c in \<open>auto simp: away_def\<close>)
qed

subsection \<open>Reading the words\<close>

lemma and_low [simp]:
  "unat (f AND 0x7FFFFFFF :: u32) = unat f mod 2 ^ 31" "unat (f AND 0x7FFFFF) = unat f mod 2 ^ 23"
  "unat (f AND 0x1FFF) = unat f mod 2 ^ 13"
proof -
  have m: "f AND mask n = take_bit n f" for n by (simp add: take_bit_eq_mask)
  have e: "(0x7FFFFFFF :: u32) = mask 31" "(0x7FFFFF :: u32) = mask 23" "(0x1FFF :: u32) = mask 13" by (simp_all add: mask_numeral)
  show "unat (f AND 0x7FFFFFFF :: u32) = unat f mod 2 ^ 31" "unat (f AND 0x7FFFFF) = unat f mod 2 ^ 23"
      "unat (f AND 0x1FFF) = unat f mod 2 ^ 13"
    unfolding e m by (simp_all only: unsigned_take_bit_eq take_bit_nat_def)
qed

lemma float_code_mod: "float_code f = unat f mod 2 ^ 31"
  unfolding float_code_def by (simp only: unsigned_take_bit_eq take_bit_nat_def)

lemma half_code_mod: "half_code f = unat f mod 2 ^ 15"
  unfolding half_code_def by (simp only: unsigned_take_bit_eq take_bit_nat_def)

lemma bit_8000: "bit (0x8000 :: u32) n = (n = 15)"
proof -
  have "(0x8000 :: u32) = push_bit 15 1" by (simp add: push_bit_eq_mult)
  show ?thesis unfolding \<open>0x8000 = push_bit 15 1\<close> bit_push_bit_iff bit_1_iff by auto
qed

lemma low_bits: "unat (w :: u32) < 2 ^ k \<Longrightarrow> k \<le> n \<Longrightarrow> \<not> bit w n"
proof -
  assume "unat w < 2 ^ k" "k \<le> n"
  then have "unat w < 2 ^ n" by (meson less_le_trans one_le_numeral power_increasing)
  then have "\<not> bit (unat w) n" by (simp add: bit_iff_odd)
  then show ?thesis by (simp add: bit_unsigned_iff possible_bit_def)
qed

lemma sign_or:
  fixes w :: u32
  assumes "unat w < 2 ^ 15"
  shows "half_code (ucast ((drop_bit 16 f AND 0x8000) OR w)) = unat w"
    and "bit (ucast ((drop_bit 16 f AND 0x8000) OR w) :: u16) 15 = bit f 31"
proof -
  note hi = low_bits [OF assms]
  have "take_bit 15 (ucast ((drop_bit 16 f AND 0x8000) OR w) :: u16) = ucast w"
  proof (rule bit_word_eqI)
    fix n assume "n < LENGTH(16)"
    show "bit (take_bit 15 (ucast ((drop_bit 16 f AND 0x8000) OR w) :: u16)) n = bit (ucast w :: u16) n"
    proof (cases "n < 15")
      case True
      then have "\<not> bit (0x8000 :: u32) n" unfolding bit_8000 by simp
      with True show ?thesis by (simp add: bit_take_bit_iff bit_ucast_iff bit_or_iff bit_and_iff)
    next
      case False
      with hi [of n] show ?thesis by (simp add: bit_take_bit_iff bit_ucast_iff)
    qed
  qed
  then have "half_code (ucast ((drop_bit 16 f AND 0x8000) OR w)) = unat (ucast w :: u16)" by (simp add: half_code_def)
  also have "\<dots> = unat w" using assms by (simp add: unsigned_ucast_eq take_bit_nat_eq_self)
  finally show "half_code (ucast ((drop_bit 16 f AND 0x8000) OR w)) = unat w" .
  show "bit (ucast ((drop_bit 16 f AND 0x8000) OR w) :: u16) 15 = bit f 31"
    using hi [of 15] by (simp add: bit_ucast_iff bit_or_iff bit_and_iff bit_8000 bit_drop_bit_eq)
qed

lemma sign_only:
  "half_code (ucast (drop_bit 16 f AND 0x8000 :: u32)) = 0" "bit (ucast (drop_bit 16 f AND 0x8000 :: u32) :: u16) 15 = bit f 31"
  using sign_or [of 0 f] by simp_all

lemma odd_word: "(h AND 1 \<noteq> 0) = odd (unat (h :: u32))"
proof -
  have "bit h 0 = bit (unat h) 0" by (simp add: bit_unsigned_iff)
  then show ?thesis by (simp add: and_one_eq bit_0 odd_iff_mod_2_eq_one)
qed

lemma unat_drop_bit: "unat (drop_bit n (w :: u32)) = unat w div 2 ^ n"
proof -
  have "unat w < 2 ^ LENGTH(32)" by (rule unsigned_less)
  then show ?thesis by (simp add: unsigned_drop_bit_eq drop_bit_nat_def take_bit_nat_eq_self)
qed

subsection \<open>Values of floats near a half\<close>

text \<open>A normal half: the codes between two neighbours are equally spaced.\<close>

lemma float_mag_normal:
  assumes "1024 \<le> x" and "r \<le> 2 ^ 13"
  shows "float_mag ((x + 112 * 1024) * 2 ^ 13 + r) = half_value x + r * 2 ^ (x div 1024 + 111)"
proof (cases "r = 2 ^ 13 \<and> Suc x mod 1024 = 0")
  case False
  let ?y = "(x + 112 * 1024) * 2 ^ 13 + r" and ?e = "x div 1024" and ?m = "x mod 1024"
  obtain e m where em: "x = e * 1024 + m" "?e = e" "?m = m" by (metis div_mult_mod_eq)
  have m: "?m * 2 ^ 13 + r < 2 ^ 23"
  proof (cases "r = 2 ^ 13")
    case True
    then have "?m \<noteq> 1023" using False by (auto simp: mod_Suc)
    then have "?m \<le> 1022" using mod_less_divisor [of 1024 x] by linarith
    then show ?thesis using True by simp
  next
    case False
    moreover have "?m \<le> 1023" using mod_less_divisor [of 1024 x] by linarith
    ultimately show ?thesis using assms(2) by simp
  qed
  have y: "?y = (?e + 112) * 2 ^ 23 + (?m * 2 ^ 13 + r)" unfolding em(2,3) by (simp add: em(1) algebra_simps)
  have split: "(E * 2 ^ 23 + R) div 2 ^ 23 = E" "(E * 2 ^ 23 + R) mod 2 ^ 23 = R" if "R < 2 ^ 23" for E R :: nat
    using that by simp_all
  have d: "?y div 2 ^ 23 = ?e + 112" "?y mod 2 ^ 23 = ?m * 2 ^ 13 + r" unfolding y by (rule split [OF m])+
  have e: "1 \<le> ?e" using assms(1) by (simp add: less_eq_div_iff_mult_less_eq)
  have "float_mag ?y = (2 ^ 23 + (?m * 2 ^ 13 + r)) * 2 ^ (?e + 111)"
    unfolding float_mag_def d using y by simp
  also have "\<dots> = (1024 + ?m) * (2 ^ 13 * 2 ^ (?e + 111)) + r * 2 ^ (?e + 111)" by (simp add: algebra_simps)
  also have "2 ^ 13 * 2 ^ (?e + 111) = (2 ^ (?e - 1) * 2 ^ 125 :: nat)"
    using e by (cases "x div 1024") (simp_all add: power_add)
  finally show ?thesis using assms(1) by (simp add: half_value_def half_mag_def mult.assoc)
next
  case True
  obtain k where k: "Suc x = 1024 * k" using True by (metis mod_eq_0_iff_dvd dvdE)
  have k2: "2 \<le> k" using k assms(1) by linarith
  have x: "x = 1024 * (k - 1) + 1023" using k k2 by (cases k) auto
  then have d: "x div 1024 = k - 1" by simp
  have y: "(x + 112 * 1024) * 2 ^ 13 + r = (k + 112) * 2 ^ 23" using True k by simp
  have "float_mag ((k + 112) * 2 ^ 23) = 2 ^ 23 * 2 ^ (k + 111)" by (simp add: float_mag_def)
  also have "\<dots> = half_value (Suc x)"
    using k k2 by (cases k) (simp_all add: half_value_def half_mag_def power_add)
  also have "\<dots> = half_value x + 2 ^ (k - 1 - 1) * 2 ^ 125" by (simp add: half_value_Suc d)
  also have "2 ^ (k - 1 - 1) * 2 ^ 125 = r * (2 ^ (x div 1024 + 111) :: nat)"
  proof -
    obtain j where "k = Suc (Suc j)" using k2 by (metis add_2_eq_Suc le_Suc_ex)
    then show ?thesis using True d by (simp add: power_add)
  qed
  finally show ?thesis by (simp only: y)
qed

lemma half_value_normal_Suc: "1024 \<le> x \<Longrightarrow> half_value (Suc x) = half_value x + 2 * 2 ^ 12 * 2 ^ (x div 1024 + 111)"
proof -
  assume "1024 \<le> x"
  then have "1 \<le> x div 1024" by (simp add: less_eq_div_iff_mult_less_eq)
  then have "(2 ^ (x div 1024 - 1) * 2 ^ 125 :: nat) = 2 ^ 13 * 2 ^ (x div 1024 + 111)"
    by (cases "x div 1024") (simp_all add: power_add)
  then show ?thesis by (simp add: half_value_Suc)
qed

text \<open>A float below the normal halves, with exponent \<open>e\<close> and significand \<open>m\<close>.\<close>

lemma float_mag_subnormal:
  assumes "102 \<le> e" "e \<le> 112" "m < 2 ^ 23"
  shows "float_mag (e * 2 ^ 23 + m) =
    half_value ((2 ^ 23 + m) div 2 ^ (126 - e)) + ((2 ^ 23 + m) mod 2 ^ (126 - e)) * 2 ^ (e - 1)"
    and "(2 ^ 23 + m) div 2 ^ (126 - e) < 1024"
proof -
  let ?M = "2 ^ 23 + m" and ?s = "126 - e"
  have "(e * 2 ^ 23 + m) div 2 ^ 23 = e" "(e * 2 ^ 23 + m) mod 2 ^ 23 = m" using assms(3) by simp_all
  then have f: "float_mag (e * 2 ^ 23 + m) = ?M * 2 ^ (e - 1)" using assms(1) by (simp add: float_mag_def)
  have "?M < 1024 * 2 ^ 14" using assms(3) by simp
  also have "\<dots> \<le> 1024 * 2 ^ ?s" using assms(2) by (intro mult_left_mono power_increasing) auto
  finally show lt: "?M div 2 ^ ?s < 1024" by (simp add: div_less_iff_less_mult)
  have "?M * 2 ^ (e - 1) = (?M div 2 ^ ?s * 2 ^ ?s + ?M mod 2 ^ ?s) * 2 ^ (e - 1)" by (simp only: div_mult_mod_eq)
  also have "\<dots> = ?M div 2 ^ ?s * (2 ^ ?s * 2 ^ (e - 1)) + ?M mod 2 ^ ?s * 2 ^ (e - 1)" by (simp only: distrib_right mult.assoc)
  also have "2 ^ ?s * 2 ^ (e - 1) = (2 ^ 125 :: nat)" using assms(1,2) by (simp flip: power_add)
  finally show "float_mag (e * 2 ^ 23 + m) = half_value (?M div 2 ^ ?s) + ?M mod 2 ^ ?s * 2 ^ (e - 1)"
    using f lt by (simp add: half_value_def half_mag_def)
qed

lemma half_value_subnormal_Suc:
  assumes "102 \<le> e" "e \<le> 112" "x < 1024"
  shows "half_value (Suc x) = half_value x + 2 * 2 ^ (125 - e) * 2 ^ (e - 1)"
proof -
  have "(2 * 2 ^ (125 - e) * 2 ^ (e - 1) :: nat) = 2 ^ (Suc (125 - e) + (e - 1))" by (simp only: power_Suc power_add)
  also have "Suc (125 - e) + (e - 1) = 125" using assms(1,2) by simp
  finally show ?thesis using assms(3) by (simp add: half_value_Suc)
qed

subsection \<open>Rounding to nearest, ties to even\<close>

lemma float_mag_mono: "y \<le> z \<Longrightarrow> float_mag y \<le> float_mag z"
proof (rule lift_Suc_mono_le [of float_mag])
  fix y
  show "float_mag y \<le> float_mag (Suc y)"
  proof (cases "Suc y < 2 ^ 23")
    case True
    then show ?thesis by (simp add: float_mag_def)
  next
    case False
    show ?thesis
    proof (cases "Suc y mod 2 ^ 23 = 0")
      case True
      then obtain k where k: "Suc y = 2 ^ 23 * k" by (metis mod_eq_0_iff_dvd dvdE)
      then obtain j where j: "k = Suc j" by (cases k) auto
      have y: "y = j * 2 ^ 23 + (2 ^ 23 - 1)" using k j by simp
      then have d: "y div 2 ^ 23 = j" "y mod 2 ^ 23 = 2 ^ 23 - 1" by simp_all
      have "float_mag y \<le> 2 ^ 24 * 2 ^ (j - 1)" using y d by (cases "j = 0") (auto simp: float_mag_def)
      also have "\<dots> = 2 ^ 23 * (2 * 2 ^ (j - 1))" by simp
      also have "float_mag (Suc y) = 2 ^ 23 * 2 ^ j" using k j by (simp add: float_mag_def)
      ultimately show ?thesis using y d j k by (cases j) (auto simp: float_mag_def)
    next
      case mid: False
      then have "Suc y mod 2 ^ 23 = Suc (y mod 2 ^ 23)" "Suc y div 2 ^ 23 = y div 2 ^ 23" by (simp_all add: mod_Suc div_Suc split: if_splits)
      then show ?thesis using False mid by (auto simp: float_mag_def split: if_splits)
    qed
  qed
qed

lemma rne_underflow:
  assumes "a \<le> 0x33000000"
  shows "nearest to_even (float_mag a) 0"
proof -
  have "float_mag a \<le> float_mag 0x33000000" by (rule float_mag_mono [OF assms])
  also have "float_mag 0x33000000 = 2 ^ 124" by (simp add: float_mag_def)
  finally have F: "float_mag a \<le> 2 ^ 124" .
  have v: "half_value 0 = 0" "half_value (Suc 0) = 2 ^ 125" by (simp_all add: half_value_def half_mag_def)
  show ?thesis
    by (rule nearest_between [of 0]) (use F v in \<open>auto simp: dist_def to_even_def\<close>)
qed

lemma overflow:
  assumes a: "0x477FF000 \<le> a" and tie: "\<And>y. y < 0x7C00 \<Longrightarrow> tie 0x7C00 y"
  shows "nearest tie (float_mag a) 0x7C00"
proof -
  have F: "float_mag 0x477FF000 \<le> float_mag a" by (rule float_mag_mono [OF a])
  have f: "float_mag 0x477FF000 = 0x7FF800 * 2 ^ 142" by (simp add: float_mag_def)
  have v: "half_value 0x7C00 = 2 ^ 165" "half_value 0x7BFF = 0x7FF * 2 ^ 154" by (simp_all add: half_value_def half_mag_def)
  show ?thesis unfolding nearest_def
  proof (intro conjI allI impI)
    fix y :: nat assume y: "y \<le> 0x7C00" "y \<noteq> 0x7C00"
    then have "half_value y \<le> half_value 0x7BFF" by (intro half_value_mono) simp
    then have "dist (float_mag a) (half_value 0x7C00) \<le> dist (float_mag a) (half_value y)"
      using F f v by (simp add: dist_def) (intro conjI impI; linarith)
    then show "dist (float_mag a) (half_value 0x7C00) < dist (float_mag a) (half_value y) \<or>
        dist (float_mag a) (half_value 0x7C00) = dist (float_mag a) (half_value y) \<and> tie 0x7C00 y"
      using y tie by fastforce
  qed simp
qed

lemma rne_round_word:
  fixes h rest half :: u32
  assumes "unat h < 2 ^ 31"
  shows "unat (if rest > half \<or> (rest = half \<and> h AND 1 \<noteq> 0) then h + 1 else h) =
    (if unat rest > unat half \<or> (unat rest = unat half \<and> odd (unat h)) then Suc (unat h) else unat h)"
proof -
  have "unat (h + 1) = Suc (unat h)" using assms by (simp add: unat_word_ariths)
  then show ?thesis unfolding odd_word by (simp add: word_less_nat_alt word_unat_eq_iff)
qed

lemma rne_normal:
  fixes f :: u32
  defines "a \<equiv> float_code f"
  assumes a: "0x38800000 \<le> a" "a < 0x477FF000"
  shows "nearest to_even (float_mag a) (half_code (vv_float_to_half_rne f)) \<and> bit (vv_float_to_half_rne f) 15 = bit f 31"
proof -
  let ?u = "f AND 0x7FFFFFFF" and ?x = "a div 2 ^ 13 - 112 * 1024" and ?r = "a mod 2 ^ 13"
  have u: "unat ?u = a" by (simp add: a_def float_code_mod)
  let ?h = "drop_bit 13 ?u - push_bit 10 112"
  have "unat (drop_bit 13 ?u) = a div 2 ^ 13" using u by (simp only: unat_drop_bit)
  moreover have "115712 \<le> a div 2 ^ 13" using a(1) by simp
  ultimately have h: "unat ?h = ?x" by (subst unat_sub) (simp_all add: word_le_nat_alt push_bit_eq_mult)
  have x: "1024 \<le> ?x" "Suc ?x \<le> 0x7C00"
  proof -
    have "115712 \<le> a div 2 ^ 13" "a div 2 ^ 13 < 146432" using a by (simp_all add: div_less_iff_less_mult)
    then show "1024 \<le> ?x" "Suc ?x \<le> 0x7C00" by simp_all
  qed
  have as: "a = (?x + 112 * 1024) * 2 ^ 13 + ?r" using \<open>115712 \<le> a div 2 ^ 13\<close> by simp
  have rest: "unat (?u AND 0x1FFF) = ?r" using u by simp
  let ?w = "if ?u AND 0x1FFF > 0x1000 \<or> (?u AND 0x1FFF = 0x1000 \<and> ?h AND 1 \<noteq> 0) then ?h + 1 else ?h"
  have "unat ?h < 2 ^ 31" using h x by simp
  note rw = rne_round_word [OF this, of "0x1000" "?u AND 0x1FFF", unfolded h rest]
  then have w: "unat ?w = (if ?r > 2 ^ 12 \<or> (?r = 2 ^ 12 \<and> odd ?x) then Suc ?x else ?x)" by simp
  then have "unat ?w < 2 ^ 15" using x by simp
  note s = sign_or [OF this, of f]
  have v: "vv_float_to_half_rne f = ucast ((drop_bit 16 f AND 0x8000) OR ?w)"
    using a u by (simp add: vv_float_to_half_rne_def Let_def word_le_nat_alt word_less_nat_alt)
  have "float_mag a = half_value ?x + ?r * 2 ^ (?x div 1024 + 111)"
    by (subst as) (rule float_mag_normal [OF x(1)], simp)
  from nearest_step(1) [OF this half_value_normal_Suc [OF x(1)] _ x(2)]
  have "nearest to_even (float_mag a) (unat ?w)" unfolding w by simp
  with s show ?thesis unfolding v by simp
qed

lemma rne_subnormal:
  fixes f :: u32
  defines "a \<equiv> float_code f"
  assumes a: "0x33000001 \<le> a" "a < 0x38800000"
  shows "nearest to_even (float_mag a) (half_code (vv_float_to_half_rne f)) \<and> bit (vv_float_to_half_rne f) 15 = bit f 31"
proof -
  let ?u = "f AND 0x7FFFFFFF" and ?e = "a div 2 ^ 23" and ?m = "a mod 2 ^ 23"
  let ?M = "2 ^ 23 + ?m" and ?s = "126 - a div 2 ^ 23"
  have u: "unat ?u = a" by (simp add: a_def float_code_mod)
  have e: "102 \<le> ?e" "?e \<le> 112"
  proof -
    have "102 \<le> a div 2 ^ 23" "a div 2 ^ 23 < 113" using a by (simp_all add: div_less_iff_less_mult less_eq_div_iff_mult_less_eq)
    then show "102 \<le> ?e" "?e \<le> 112" by simp_all
  qed
  have mlt: "?m < 2 ^ 23" by simp
  let ?mw = "(?u AND 0x7FFFFF) OR 0x800000"
  have "(?u AND 0x7FFFFF) AND 0x800000 = 0" by (simp add: and.assoc)
  then have "?mw = (?u AND 0x7FFFFF) + 0x800000" using word_plus_and_or [of "?u AND 0x7FFFFF" "0x800000"] by (metis add_0)
  moreover have "unat (?u AND 0x7FFFFF) = ?m" using u by simp
  ultimately have m: "unat ?mw = ?M" by (simp add: unat_word_ariths)
  have ew: "unat (drop_bit 23 ?u) = ?e" using u by (simp only: unat_drop_bit)
  have sh: "unat (126 - drop_bit 23 ?u) = ?s" by (subst unat_sub) (use ew e in \<open>simp_all add: word_le_nat_alt\<close>)
  let ?h = "drop_bit ?s ?mw" and ?rest = "?mw AND (push_bit ?s 1 - 1)" and ?half = "push_bit (?s - 1) 1 :: u32"
  have h: "unat ?h = ?M div 2 ^ ?s" by (simp only: unat_drop_bit m)
  have "push_bit ?s 1 - 1 = (mask ?s :: u32)" by (simp add: mask_eq_exp_minus_1 push_bit_eq_mult)
  then have "?rest = take_bit ?s ?mw" by (simp only: take_bit_eq_mask)
  then have rest: "unat ?rest = ?M mod 2 ^ ?s"
    by (simp only: unsigned_take_bit_eq take_bit_nat_def m)
  have "(2::nat) ^ (?s - 1) < 2 ^ 32" using e by (intro power_strict_increasing) auto
  moreover have "?half = of_nat (2 ^ (?s - 1))" by (simp add: push_bit_eq_mult)
  ultimately have half: "unat ?half = 2 ^ (125 - ?e)" by (simp only: unat_of_nat) simp
  note fm = float_mag_subnormal [OF e mlt]
  let ?x = "?M div 2 ^ ?s" and ?r = "?M mod 2 ^ ?s"
  let ?w = "if ?rest > ?half \<or> (?rest = ?half \<and> ?h AND 1 \<noteq> 0) then ?h + 1 else ?h"
  have "unat ?h < 2 ^ 31" using fm(2) h by simp
  note rw = rne_round_word [OF this, of ?half ?rest, unfolded h rest half]
  then have "unat ?w < 2 ^ 15" using fm(2) by simp
  note s = sign_or [OF this, of f]
  have c: "(0x7F800000 \<le> ?u) = False" "(0x477FF000 \<le> ?u) = False" "(?u < 0x38800000) = True" "(?u < 0x33000001) = False"
    unfolding word_le_nat_alt word_less_nat_alt u using a by simp_all
  have v: "vv_float_to_half_rne f = ucast ((drop_bit 16 f AND 0x8000) OR ?w)"
    by (simp only: vv_float_to_half_rne_def Let_def c sh if_True if_False)
  have s2: "?r < 2 * 2 ^ (125 - ?e)"
  proof -
    have "2 * 2 ^ (125 - ?e) = (2 ^ ?s :: nat)" using e by (simp flip: power_Suc add: Suc_diff_le)
    then show ?thesis by simp
  qed
  have F: "float_mag a = half_value ?x + ?r * 2 ^ (?e - 1)" using fm(1) by simp
  have "nearest to_even (float_mag a) (unat ?w)"
    unfolding rw by (rule nearest_step(1) [OF F half_value_subnormal_Suc [OF e fm(2)] s2]) (use fm(2) in simp)
  with s show ?thesis unfolding v by simp
qed

lemma float_to_half_rne_correct:
  "bit (vv_float_to_half_rne f) 15 = bit f 31 \<and>
   (if float_code f < 0x7F800000 then nearest to_even (float_mag (float_code f)) (half_code (vv_float_to_half_rne f))
    else if float_code f = 0x7F800000 then half_code (vv_float_to_half_rne f) = 0x7C00
    else half_code (vv_float_to_half_rne f) = 0x7E00)"
proof -
  have u: "unat (f AND 0x7FFFFFFF) = float_code f" by (simp add: float_code_mod)
  consider "0x7F800000 < float_code f" | "float_code f = 0x7F800000" | "0x477FF000 \<le> float_code f" "float_code f < 0x7F800000"
    | "0x38800000 \<le> float_code f" "float_code f < 0x477FF000" | "0x33000001 \<le> float_code f" "float_code f < 0x38800000"
    | "float_code f \<le> 0x33000000" by linarith
  then show ?thesis
  proof cases
    case 1
    then have "vv_float_to_half_rne f = ucast ((drop_bit 16 f AND 0x8000) OR 0x7E00)"
      using u by (simp add: vv_float_to_half_rne_def Let_def word_le_nat_alt word_less_nat_alt or.assoc)
    with 1 sign_or [of "0x7E00" f] show ?thesis by simp
  next
    case 2
    then have "vv_float_to_half_rne f = ucast ((drop_bit 16 f AND 0x8000) OR 0x7C00)"
      using u by (simp add: vv_float_to_half_rne_def Let_def word_le_nat_alt word_less_nat_alt)
    with 2 sign_or [of "0x7C00" f] show ?thesis by simp
  next
    case 3
    then have "vv_float_to_half_rne f = ucast ((drop_bit 16 f AND 0x8000) OR 0x7C00)"
      using u by (simp add: vv_float_to_half_rne_def Let_def word_le_nat_alt word_less_nat_alt)
    with 3 sign_or [of "0x7C00" f] overflow [OF 3(1), of to_even] show ?thesis by (simp add: to_even_def)
  next
    case 4
    with rne_normal show ?thesis by simp
  next
    case 5
    with rne_subnormal show ?thesis by simp
  next
    case 6
    then have "vv_float_to_half_rne f = ucast (drop_bit 16 f AND 0x8000)"
      using u by (simp add: vv_float_to_half_rne_def Let_def word_le_nat_alt word_less_nat_alt)
    with 6 sign_only [of f] rne_underflow [OF 6] show ?thesis by simp
  qed
qed

subsection \<open>Widening is exact\<close>

lemma bit_400: "unat (m :: u32) < 2 ^ 11 \<Longrightarrow> (m AND 0x400 \<noteq> 0) = (2 ^ 10 \<le> unat m)"
proof -
  assume lt: "unat m < 2 ^ 11"
  have "(0x400 :: u32) = push_bit 10 1" by (simp add: push_bit_eq_mult)
  then have "(m AND 0x400 \<noteq> 0) = bit m 10" by (metis and_exp_eq_0_iff_not_bit push_bit_of_1)
  also have "\<dots> = bit (unat m) 10" by (simp add: bit_unsigned_iff)
  also have "\<dots> = odd (unat m div 2 ^ 10)" by (simp only: bit_iff_odd)
  also have "unat m div 2 ^ 10 < 2" using lt by (simp add: div_less_iff_less_mult)
  then have "odd (unat m div 2 ^ 10) = (unat m div 2 ^ 10 = 1)" by (cases "unat m div 2 ^ 10 = 0") auto
  also have "\<dots> = (2 ^ 10 \<le> unat m)" using lt \<open>unat m div 2 ^ 10 < 2\<close> by (auto simp: div_eq_0_iff not_less)
  finally show ?thesis .
qed

lemma normalise_value:
  assumes "0 < unat man" "unat man < 2 ^ 11" "2 ^ 10 \<le> unat man * 2 ^ n" "n \<le> unat (exp + 112)"
  shows "\<exists>j. case normalise n exp man of (exp', man') \<Rightarrow>
    unat (exp' + 112) + j = unat (exp + 112) \<and> j \<le> n \<and> unat man' = unat man * 2 ^ j \<and> 2 ^ 10 \<le> unat man' \<and> unat man' < 2 ^ 11"
  using assms
proof (induction n arbitrary: exp man)
  case 0
  then show ?case by simp
next
  case (Suc n)
  show ?case
  proof (cases "2 ^ 10 \<le> unat man")
    case True
    with Suc.prems bit_400 [of man] show ?thesis by (auto intro: exI [of _ 0])
  next
    case False
    have m: "unat (push_bit 1 man) = 2 * unat man" using False by (simp add: push_bit_eq_mult unat_word_ariths)
    have e: "unat (exp - 1 + 112) = unat (exp + 112) - 1"
    proof -
      have "exp + 112 \<noteq> 0" using Suc.prems(4) by auto
      then show ?thesis using unat_minus_one [of "exp + 112"] by (simp add: algebra_simps)
    qed
    have "n \<le> unat (exp - 1 + 112)" using e Suc.prems(4) by simp
    from Suc.IH [of "push_bit 1 man" "exp - 1", OF _ _ _ this] m False Suc.prems
    obtain j where j: "case normalise n (exp - 1) (push_bit 1 man) of (exp', man') \<Rightarrow>
        unat (exp' + 112) + j = unat (exp - 1 + 112) \<and> j \<le> n \<and> unat man' = unat (push_bit 1 man) * 2 ^ j \<and> 2 ^ 10 \<le> unat man' \<and> unat man' < 2 ^ 11"
      by auto
    have nb: "\<not> man AND 0x400 \<noteq> 0" using bit_400 [of man] False Suc.prems(2) by simp
    from j e m nb Suc.prems(4) show ?thesis
      by (intro exI [of _ "Suc j"]) (auto split: prod.splits)
  qed
qed

text \<open>Putting the fields of a float together.\<close>

lemma float_fields:
  fixes s :: u32
  assumes s: "s = 0 \<or> s = 0x8000" and e: "unat e < 2 ^ 8" and m: "unat m < 2 ^ 10"
  defines "f \<equiv> push_bit 16 s OR push_bit 23 e OR push_bit 13 m"
  shows "float_code f = unat e * 2 ^ 23 + unat m * 2 ^ 13" and "bit f 31 = (s = 0x8000)"
proof -
  note hi = low_bits [OF e] low_bits [OF m]
  have sb: "bit (push_bit 16 s) n = (n = 31 \<and> s = 0x8000)" for n
    using s by (auto simp only: bit_push_bit_iff bit_8000) (simp_all add: bit_push_bit_iff)
  have em: "push_bit 23 e AND push_bit 13 m = 0"
  proof (rule bit_word_eqI)
    fix n show "bit (push_bit 23 e AND push_bit 13 m) n = bit (0 :: u32) n"
      using hi(2) [of "n - 13"] by (simp add: bit_and_iff bit_push_bit_iff)
  qed
  have "take_bit 31 f = push_bit 23 e OR push_bit 13 m"
  proof (rule bit_word_eqI)
    fix n assume "n < LENGTH(32)"
    then show "bit (take_bit 31 f) n = bit (push_bit 23 e OR push_bit 13 m) n"
      using hi(1) [of "n - 23"] hi(2) [of "n - 13"] sb [of n]
      by (auto simp: f_def bit_take_bit_iff bit_or_iff) (simp_all add: bit_push_bit_iff)
  qed
  also have "\<dots> = push_bit 23 e + push_bit 13 m" using word_plus_and_or [of "push_bit 23 e" "push_bit 13 m"] em by simp
  finally have "float_code f = unat (push_bit 23 e + push_bit 13 m)" by (simp only: float_code_def)
  also have "\<dots> = unat e * 2 ^ 23 + unat m * 2 ^ 13"
    using e m by (simp add: push_bit_eq_mult unat_word_ariths)
  finally show "float_code f = unat e * 2 ^ 23 + unat m * 2 ^ 13" .
  show "bit f 31 = (s = 0x8000)"
    using hi(1) [of 8] hi(2) [of 18] sb [of 31] by (simp add: f_def bit_or_iff bit_push_bit_iff)
qed

text \<open>
  C19. \<^verbatim>\<open>vv_float_to_half_rne\<close> rounds correctly. The sign is kept; of a finite float the result is the nearest half, and of
  the two nearest the even one, where from 65520 on the nearest is infinity; infinity stays infinity and a NaN a NaN.
\<close>

theorem float_to_half_rne_nearest:
  "bit (vv_float_to_half_rne f) 15 = bit f 31 \<and>
   (if float_code f < 0x7F800000 then nearest to_even (float_mag (float_code f)) (half_code (vv_float_to_half_rne f))
    else if float_code f = 0x7F800000 then half_code (vv_float_to_half_rne f) = 0x7C00
    else half_code (vv_float_to_half_rne f) = 0x7E00)"
  by (rule float_to_half_rne_correct)

lemma half_fields:
  fixes h :: u16
  defines "e \<equiv> drop_bit 10 (ucast h) AND 0x1F :: u32" and "m \<equiv> ucast h AND 0x3FF :: u32"
  shows "unat m = half_code h mod 1024" and "unat e = half_code h div 1024"
    and "(ucast h AND 0x8000 :: u32) = 0 \<or> (ucast h AND 0x8000 :: u32) = 0x8000"
    and "((ucast h AND 0x8000 :: u32) = 0x8000) = bit h 15"
proof -
  have lt: "unat h < 2 ^ LENGTH(16)" by (rule unsigned_less)
  have u: "unat (ucast h :: u32) = unat h" using lt by (simp add: unsigned_ucast_eq take_bit_nat_eq_self)
  have m: "f AND mask n = take_bit n f" for f :: u32 and n by (simp add: take_bit_eq_mask)
  have k: "(0x3FF :: u32) = mask 10" "(0x1F :: u32) = mask 5" by (simp_all add: mask_numeral)
  show "unat m = half_code h mod 1024"
    unfolding m_def k m unsigned_take_bit_eq take_bit_nat_def u half_code_mod by (simp add: mod_mod_cancel)
  have "unat e = unat h div 2 ^ 10 mod 2 ^ 5"
    unfolding e_def k m unsigned_take_bit_eq take_bit_nat_def unat_drop_bit u ..
  also have "\<dots> = unat h mod 2 ^ 15 div 1024" using mod_mult2_eq [of "unat h" 1024 32] by simp
  finally show "unat e = half_code h div 1024" by (simp only: half_code_mod)
  have b: "(ucast h AND 0x8000 :: u32) = (if bit h 15 then 0x8000 else 0)"
  proof (rule bit_word_eqI)
    fix n show "bit (ucast h AND 0x8000 :: u32) n = bit (if bit h 15 then 0x8000 else 0 :: u32) n"
    proof (cases "bit h 15")
      case True
      then show ?thesis unfolding if_P [OF True] bit_and_iff bit_8000 by (auto simp: bit_ucast_iff)
    next
      case False
      then show ?thesis unfolding if_not_P [OF False] bit_and_iff bit_8000 by (auto simp: bit_ucast_iff)
    qed
  qed
  show "(ucast h AND 0x8000 :: u32) = 0 \<or> (ucast h AND 0x8000 :: u32) = 0x8000"
    "((ucast h AND 0x8000 :: u32) = 0x8000) = bit h 15"
    unfolding b by simp_all
qed

lemma half_to_float_fields:
  assumes x: "half_code h < 0x7C00"
  shows "float_mag (float_code (vv_half_to_float h)) = half_value (half_code h)"
    and "bit (vv_half_to_float h) 31 = bit h 15"
proof -
  let ?x = "half_code h" and ?s = "ucast h AND 0x8000 :: u32"
  let ?e = "drop_bit 10 (ucast h) AND 0x1F :: u32" and ?m = "ucast h AND 0x3FF :: u32"
  note f = half_fields [of h]
  have xe: "?x = ?x div 1024 * 1024 + ?x mod 1024" by simp
  have e31: "?x div 1024 < 31" using x by (simp add: div_less_iff_less_mult)
  then have en: "?e \<noteq> 31" using f(2) by (auto simp: word_unat_eq_iff)
  have bias: "unat (E + 127 - 15) = unat E + 112" if "unat E < 31" for E :: u32
    using that by (subst unat_sub) (simp_all add: word_le_nat_alt unat_word_ariths)
  have "float_mag (float_code (vv_half_to_float h)) = half_value ?x \<and> bit (vv_half_to_float h) 31 = bit h 15"
  proof (cases "?e = 0")
    case False
    then have e1: "1 \<le> ?x div 1024" using f(2) by (simp add: word_unat_eq_iff)
    have v: "vv_half_to_float h = push_bit 16 ?s OR push_bit 23 (?e + 127 - 15) OR push_bit 13 ?m"
      using False en by (simp only: vv_half_to_float_def Let_def if_False if_True)
    have b: "unat (?e + 127 - 15) = ?x div 1024 + 112" using bias [of ?e] f(2) e31 by simp
    have "unat (?e + 127 - 15) < 2 ^ 8" "unat ?m < 2 ^ 10" using b e31 f(1) by simp_all
    note ff = float_fields [OF f(3) this, folded v]
    have "float_code (vv_half_to_float h) = (?x + 112 * 1024) * 2 ^ 13 + 0"
      unfolding ff(1) b f(1) by (simp add: algebra_simps) (use xe in linarith)
    moreover have "1024 \<le> ?x" using e1 by (simp add: less_eq_div_iff_mult_less_eq)
    ultimately show ?thesis using float_mag_normal [of ?x 0] ff(2) f(4) by simp
  next
    case True
    then have e0: "?x < 1024" using f(2) by (simp add: div_eq_0_iff)
    then have m: "unat ?m = ?x" using f(1) by simp
    show ?thesis
    proof (cases "?x = 0")
      case True
      then have "?m = 0" using m by (simp add: word_unat_eq_iff)
      with \<open>?e = 0\<close> have v: "vv_half_to_float h = push_bit 16 ?s" by (simp only: vv_half_to_float_def Let_def simp_thms if_True)
      have "vv_half_to_float h = push_bit 16 ?s OR push_bit 23 0 OR push_bit 13 0" using v by simp
      from float_fields [OF f(3), of 0 0, folded this] True f(4)
      show ?thesis by (simp add: float_mag_def half_value_def half_mag_def)
    next
      case False
      then have mn: "?m \<noteq> 0" using m by auto
      obtain e' m' where n: "normalise 10 1 ?m = (e', m')" by fastforce
      have "2 ^ 10 \<le> unat ?m * 2 ^ 10" using False m by simp
      from normalise_value [of ?m 10 1] m False e0 n this obtain j
        where j: "unat (e' + 112) + j = 113" "j \<le> 10" "unat m' = ?x * 2 ^ j" "2 ^ 10 \<le> unat m'" "unat m' < 2 ^ 11" by auto
      have v: "vv_half_to_float h = push_bit 16 ?s OR push_bit 23 (e' + 112) OR push_bit 13 (m' AND 0x3FF)"
        using \<open>?e = 0\<close> mn n by (simp add: vv_half_to_float_def Let_def add.commute)
      have "(0x3FF :: u32) = mask 10" by (simp add: mask_numeral)
      then have m10: "unat (m' AND 0x3FF) = unat m' mod 2 ^ 10"
        by (simp only: take_bit_eq_mask [symmetric] unsigned_take_bit_eq take_bit_nat_def)
      then have mm: "unat (m' AND 0x3FF) = unat m' - 1024" using j(4,5) by (simp add: mod_if)
      have "unat (e' + 112) < 2 ^ 8" "unat (m' AND 0x3FF) < 2 ^ 10" using j(1) m10 by simp_all
      note ff = float_fields [OF f(3) this, folded v]
      let ?E = "113 - j"
      have c: "float_code (vv_half_to_float h) = ?E * 2 ^ 23 + (unat m' - 1024) * 2 ^ 13"
        using ff(1) mm j(1) by (metis diff_add_inverse2)
      have lt: "(unat m' - 1024) * 2 ^ 13 < 2 ^ 23" using j(5) by simp
      have split: "(E * 2 ^ 23 + R) div 2 ^ 23 = E" "(E * 2 ^ 23 + R) mod 2 ^ 23 = R" if "R < 2 ^ 23" for E R :: nat
        using that by simp_all
      have "\<not> ?E * 2 ^ 23 + (unat m' - 1024) * 2 ^ 13 < 2 ^ 23" using j(2) by simp
      then have "float_mag (float_code (vv_half_to_float h)) = (2 ^ 23 + (unat m' - 1024) * 2 ^ 13) * 2 ^ (?E - 1)"
        unfolding c float_mag_def split [OF lt] by simp
      also have "2 ^ 23 + (unat m' - 1024) * 2 ^ 13 = unat m' * 2 ^ 13" using j(4) by (simp add: diff_mult_distrib)
      also have "unat m' * 2 ^ 13 * 2 ^ (?E - 1) = ?x * (2 ^ j * 2 ^ 13 * 2 ^ (?E - 1))" by (simp add: j(3))
      also have "2 ^ j * 2 ^ 13 * 2 ^ (?E - 1) = (2 ^ 125 :: nat)" using j(2) by (simp flip: power_add)
      finally show ?thesis using e0 ff(2) f(4) by (simp add: half_value_def half_mag_def)
    qed
  qed
  then show "float_mag (float_code (vv_half_to_float h)) = half_value (half_code h)" "bit (vv_half_to_float h) 31 = bit h 15"
    by simp_all
qed

lemma half_to_float_special:
  assumes x: "0x7C00 \<le> half_code h"
  shows "float_code (vv_half_to_float h) = 0x7F800000 + (half_code h - 0x7C00) * 2 ^ 13" and "bit (vv_half_to_float h) 31 = bit h 15"
proof -
  let ?x = "half_code h" and ?s = "ucast h AND 0x8000 :: u32"
  let ?e = "drop_bit 10 (ucast h) AND 0x1F :: u32" and ?m = "ucast h AND 0x3FF :: u32"
  note f = half_fields [of h]
  have "?x < 2 ^ 15" by (simp add: half_code_mod)
  then have "?x div 1024 < 32" "31 \<le> ?x div 1024" using x by (simp_all add: div_less_iff_less_mult less_eq_div_iff_mult_less_eq)
  then have d: "?x div 1024 = 31" by simp
  then have e: "?e = 31" using f(2) by (simp add: word_unat_eq_iff)
  have "(0x7F800000 :: u32) = push_bit 23 255" by (simp add: push_bit_eq_mult)
  then have v: "vv_half_to_float h = push_bit 16 ?s OR push_bit 23 255 OR push_bit 13 ?m"
    using e by (simp add: vv_half_to_float_def Let_def)
  have "unat ?m < 2 ^ 10" using f(1) by simp
  note ff = float_fields [OF f(3) _ this, of 255, folded v]
  have "?x mod 1024 = ?x - 0x7C00" using d by (simp add: minus_div_mult_eq_mod [symmetric])
  then show "float_code (vv_half_to_float h) = 0x7F800000 + (?x - 0x7C00) * 2 ^ 13" using ff(1) f(1) by simp
  show "bit (vv_half_to_float h) 31 = bit h 15" using ff(2) f(4) by simp
qed

lemma half_eqI: "half_code a = half_code b \<Longrightarrow> bit a 15 = bit b 15 \<Longrightarrow> a = b"
proof (rule bit_word_eqI)
  fix n assume h: "half_code a = half_code b" "bit a 15 = bit b 15" and n: "n < LENGTH(16)"
  from h(1) have "take_bit 15 a = take_bit 15 b" by (simp add: half_code_def word_unat_eq_iff)
  then have "bit (take_bit 15 a) n = bit (take_bit 15 b) n" by simp
  with h(2) n show "bit a n = bit b n" by (cases "n < 15") (auto simp: bit_take_bit_iff less_Suc_eq numeral_eq_Suc)
qed

lemma nearest_exact:
  assumes "nearest tie (half_value x) z" and "x \<le> 0x7C00"
  shows "z = x"
proof (rule ccontr)
  assume "z \<noteq> x"
  then have "dist (half_value x) (half_value z) \<le> dist (half_value x) (half_value x)"
    using assms unfolding nearest_def by fastforce
  then have "half_value x = half_value z" by (auto simp: dist_def split: if_splits)
  with \<open>z \<noteq> x\<close> show False using half_value_inj by blast
qed

lemma finite_half_code: "half_code h < 0x7C00 \<Longrightarrow> float_code (vv_half_to_float h) < 0x7F800000"
proof (rule ccontr)
  assume x: "half_code h < 0x7C00" and "\<not> float_code (vv_half_to_float h) < 0x7F800000"
  then have "float_mag 0x7F800000 \<le> half_value (half_code h)"
    using float_mag_mono [of "0x7F800000" "float_code (vv_half_to_float h)"] half_to_float_fields(1) [OF x] by simp
  also have "\<dots> < half_value 0x7C00" by (rule half_value_strict [OF x])
  finally show False by (simp add: float_mag_def half_value_def half_mag_def)
qed

lemma quiet_nan:
  fixes h :: u16
  shows "half_code ((h AND 0x8000) OR 0x7E00) = 0x7E00" and "bit ((h AND 0x8000) OR 0x7E00) 15 = bit h 15"
proof -
  have lit: "bit (0x8000 :: u16) n = (n = 15)" for n
  proof -
    have "(0x8000 :: u16) = push_bit 15 1" by (simp add: push_bit_eq_mult)
    show ?thesis unfolding \<open>0x8000 = push_bit 15 1\<close> bit_push_bit_iff bit_1_iff by auto
  qed
  have "take_bit 15 ((h AND 0x8000) OR 0x7E00) = (0x7E00 :: u16)"
  proof (rule bit_word_eqI)
    fix n assume "n < LENGTH(16)"
    have "take_bit 15 (0x7E00 :: u16) = 0x7E00" by simp
    then have "bit (0x7E00 :: u16) n = (n < 15 \<and> bit (0x7E00 :: u16) n)" by (metis bit_take_bit_iff)
    then show "bit (take_bit 15 ((h AND 0x8000) OR 0x7E00)) n = bit (0x7E00 :: u16) n"
      unfolding bit_take_bit_iff bit_or_iff bit_and_iff lit by auto
  qed
  then show "half_code ((h AND 0x8000) OR 0x7E00) = 0x7E00" by (simp add: half_code_def)
  have "\<not> bit (0x7E00 :: u16) 15" by simp
  then show "bit ((h AND 0x8000) OR 0x7E00) 15 = bit h 15" unfolding bit_or_iff bit_and_iff lit by simp
qed

text \<open>
  Widening a half to a float is exact, and rounding it back gives the same half: all 63490 that are not NaN come back
  bit for bit, and a NaN comes back as the quiet NaN of its sign.
\<close>

theorem half_float_roundtrip:
  "vv_float_to_half_rne (vv_half_to_float h) = (if half_code h \<le> 0x7C00 then h else (h AND 0x8000) OR 0x7E00) \<and>
   (if half_code h < 0x7C00 then float_mag (float_code (vv_half_to_float h)) = half_value (half_code h)
    else 0x7F800000 \<le> float_code (vv_half_to_float h))"
proof -
  let ?f = "vv_half_to_float h"
  note r = float_to_half_rne_correct [of ?f]
  consider "half_code h < 0x7C00" | "half_code h = 0x7C00" | "0x7C00 < half_code h" by linarith
  then show ?thesis
  proof cases
    case 1
    note f = half_to_float_fields [OF 1]
    have "nearest to_even (half_value (half_code h)) (half_code (vv_float_to_half_rne ?f))"
      using r finite_half_code [OF 1] f(1) by simp
    then have "half_code (vv_float_to_half_rne ?f) = half_code h" by (rule nearest_exact) (use 1 in simp)
    with r f 1 show ?thesis by (auto intro: half_eqI)
  next
    case 2
    with half_to_float_special [of h] r show ?thesis by (auto intro!: half_eqI)
  next
    case 3
    then have "0x7F800000 < float_code ?f" using half_to_float_special [of h] by simp
    with half_to_float_special [of h] r 3 show ?thesis by (auto intro!: half_eqI simp: quiet_nan)
  qed
qed

subsection \<open>Rounding to nearest, ties away from zero\<close>

lemma low_float:
  fixes f :: u32
  shows "unat (drop_bit 23 f AND 0xFF) = float_code f div 2 ^ 23" and "unat (f AND 0x7FFFFF) = float_code f mod 2 ^ 23"
proof -
  have "(0xFF :: u32) = mask 8" by (simp add: mask_numeral)
  then have "unat (drop_bit 23 f AND 0xFF) = unat f div 2 ^ 23 mod 2 ^ 8"
    by (simp only: take_bit_eq_mask [symmetric] unsigned_take_bit_eq take_bit_nat_def unat_drop_bit)
  also have "\<dots> = unat f mod 2 ^ 31 div 2 ^ 23" using mod_mult2_eq [of "unat f" "2 ^ 23" "2 ^ 8"] by simp
  finally show "unat (drop_bit 23 f AND 0xFF) = float_code f div 2 ^ 23" by (simp only: float_code_mod)
  show "unat (f AND 0x7FFFFF) = float_code f mod 2 ^ 23" by (simp add: float_code_mod mod_mod_cancel)
qed

lemma round_bit: "0 < s \<Longrightarrow> unat (drop_bit (s - 1) m AND 1 :: u32) = (if 2 ^ (s - 1) \<le> unat m mod 2 ^ s then 1 else 0)"
proof -
  assume s: "0 < s"
  then obtain k where k: "s = Suc k" by (cases s) auto
  have "unat (drop_bit k m AND 1) = unat m div 2 ^ k mod 2"
    by (simp add: and_one_eq unat_mod_distrib unat_drop_bit)
  moreover have split: "unat m mod 2 ^ Suc k = 2 ^ k * (unat m div 2 ^ k mod 2) + unat m mod 2 ^ k"
    using mod_mult2_eq [of "unat m" "2 ^ k" 2] by (simp add: mult.commute [of 2])
  moreover have "(2 ^ k \<le> 2 ^ k * q + r) = (q = 1)" if "r < 2 ^ k" "q < 2" for q r :: nat
  proof -
    have "q = 0 \<or> q = 1" using that(2) by linarith
    then show ?thesis using that(1) by auto
  qed
  ultimately have "(2 ^ k \<le> unat m mod 2 ^ Suc k) = (unat m div 2 ^ k mod 2 = 1)"
    unfolding split by simp
  with \<open>unat (drop_bit k m AND 1) = unat m div 2 ^ k mod 2\<close> show ?thesis unfolding k by auto
qed

lemma uint_of_unat: "unat (x :: u32) = n \<Longrightarrow> uint x = int n"
  by (simp add: uint_nat)

lemma unat_add_small: "unat (x :: u32) + unat y < 2 ^ 32 \<Longrightarrow> unat (x + y) = unat x + unat y"
  by (simp add: unat_word_ariths)

lemma unat_shift10: "unat (w :: u32) < 2 ^ 21 \<Longrightarrow> unat (push_bit 10 w) = unat w * 1024"
  by (simp add: push_bit_eq_mult unat_word_ariths)

lemma unat_of_int_diff: "c \<le> n \<Longrightarrow> n < 2 ^ 31 \<Longrightarrow> unat (of_int (int n - int c) :: u32) = n - c"
  by (simp only: of_nat_diff [symmetric] of_int_of_nat_eq unat_of_nat) simp

lemma away_normal:
  fixes f :: u32
  defines "a \<equiv> float_code f"
  assumes a: "0x38800000 \<le> a" "a < 0x47800000"
  shows "nearest away (float_mag a) (half_code (vv_float_to_half f)) \<and> bit (vv_float_to_half f) 15 = bit f 31"
proof -
  let ?e = "a div 2 ^ 23" and ?m = "a mod 2 ^ 23" and ?x = "a div 2 ^ 13 - 112 * 1024" and ?r = "a mod 2 ^ 13"
  have e: "113 \<le> ?e" "?e < 143" using a by (simp_all add: less_eq_div_iff_mult_less_eq div_less_iff_less_mult)
  have exp: "uint (drop_bit 23 f AND 0xFF) - 127 + 15 = int ?e - 112"
    using uint_of_unat [OF low_float(1) [of f]] by (simp add: a_def)
  have am: "a div 2 ^ 13 = ?e * 1024 + ?m div 2 ^ 13" "?m mod 2 ^ 13 = ?r"
  proof -
    have "a = ?e * 2 ^ 23 + ?m" by simp
    then have "a = 2 ^ 13 * (?e * 1024) + ?m" by simp
    then show "a div 2 ^ 13 = ?e * 1024 + ?m div 2 ^ 13" by (metis div_mult_self4 zero_neq_numeral power_eq_0_iff)
    show "?m mod 2 ^ 13 = ?r" by (simp add: mod_mod_cancel)
  qed
  have md: "?m div 2 ^ 13 < 1024" by (simp add: div_less_iff_less_mult)
  have x: "1024 \<le> ?x" "Suc ?x \<le> 0x7C00" "?x = (?e - 112) * 1024 + ?m div 2 ^ 13"
  proof -
    have le: "115712 \<le> ?e * 1024" "?e * 1024 \<le> 145408" using e by simp_all
    show "1024 \<le> ?x" "Suc ?x \<le> 0x7C00" using le md unfolding am(1) by linarith+
    show "?x = (?e - 112) * 1024 + ?m div 2 ^ 13" using le unfolding am(1) by (simp add: diff_mult_distrib)
  qed
  let ?man = "f AND 0x7FFFFF"
  let ?r1 = "drop_bit 12 ?man AND 1" and ?m1 = "drop_bit 13 ?man"
  have man: "unat ?man = ?m" using low_float(2) [of f] by (simp add: a_def)
  have r1: "unat ?r1 = (if 2 ^ 12 \<le> ?r then 1 else 0)"
    using round_bit [of 13 ?man] man am(2) by simp
  have m1: "unat ?m1 = ?m div 2 ^ 13" by (simp only: unat_drop_bit man)
  have w: "unat (?m1 + ?r1) = ?m div 2 ^ 13 + (if 2 ^ 12 \<le> ?r then 1 else 0)"
    using r1 m1 md by (simp add: unat_word_ariths)
  let ?z = "if ?r \<ge> 2 ^ 12 then Suc ?x else ?x"
  have z: "?z = (?e - 112) * 1024 + unat (?m1 + ?r1)" unfolding w using x(3) by simp
  have "float_mag a = half_value ?x + ?r * 2 ^ (?x div 1024 + 111)"
  proof -
    have "?x + 112 * 1024 = a div 2 ^ 13" using x(1) by linarith
    then have as: "a = (?x + 112 * 1024) * 2 ^ 13 + ?r" by (simp only: div_mult_mod_eq)
    show ?thesis by (subst as) (rule float_mag_normal [OF x(1)], simp)
  qed
  from nearest_step(2) [OF this half_value_normal_Suc [OF x(1)] _ x(2)]
  have near: "nearest away (float_mag a) ?z" by simp
  have lt: "unat (?m1 + ?r1) < 2 ^ 11" using w md by simp
  have "half_code (vv_float_to_half f) = ?z \<and> bit (vv_float_to_half f) 15 = bit f 31"
  proof (cases "(?m1 + ?r1) AND 0x400 \<noteq> 0")
    case True
    then have full: "unat (?m1 + ?r1) = 1024" using bit_400 [OF lt] w md by (auto split: if_splits)
    show ?thesis
    proof (cases "?e = 142")
      case True
      then have v: "vv_float_to_half f = ucast ((drop_bit 16 f AND 0x8000) OR 0x7C00)"
        using \<open>(?m1 + ?r1) AND 0x400 \<noteq> 0\<close> exp by (simp add: vv_float_to_half_def Let_def)
      show ?thesis using sign_or [of "0x7C00" f] z full True unfolding v by simp
    next
      case False
      then have c: "\<not> int ?e - 112 \<le> 0" "\<not> 31 \<le> int ?e - 112" "\<not> 31 \<le> int ?e - 112 + 1" using e by linarith+
      have v: "vv_float_to_half f = ucast ((drop_bit 16 f AND 0x8000) OR push_bit 10 (of_int (int ?e - 112 + 1)) OR 0)"
        using True c by (simp only: vv_float_to_half_def Let_def exp if_True if_False simp_thms prod.case)
      have "int ?e - 112 + 1 = int ?e - int 111" by simp
      then have "unat (of_int (int ?e - 112 + 1) :: u32) = ?e - 111" using unat_of_int_diff [of 111 ?e] e by (simp only:) simp
      then have "unat (push_bit 10 (of_int (int ?e - 112 + 1)) :: u32) = (?e - 111) * 1024"
        using unat_shift10 [of "of_int (int ?e - 112 + 1)"] e by (simp only:) simp
      moreover have "(?e - 111) * 1024 < 2 ^ 15" using e False by simp
      ultimately have W: "unat (push_bit 10 (of_int (int ?e - 112 + 1)) :: u32) = (?e - 111) * 1024"
          "unat (push_bit 10 (of_int (int ?e - 112 + 1)) :: u32) < 2 ^ 15" by (simp_all only:)
      have ez: "(?e - 111) * 1024 = ?z" unfolding z full using e by (simp only: diff_mult_distrib)
      show ?thesis using sign_or [OF W(2), of f] unfolding v or.right_neutral W(1) ez by blast
    qed
  next
    case False
    then have part: "unat (?m1 + ?r1) < 1024" using bit_400 [OF lt] by simp
    have c: "\<not> int ?e - 112 \<le> 0" "\<not> 31 \<le> int ?e - 112" using e by linarith+
    let ?E = "push_bit 10 (of_int (int ?e - 112)) :: u32"
    have v: "vv_float_to_half f = ucast ((drop_bit 16 f AND 0x8000) OR ?E OR (?m1 + ?r1))"
      using False c by (simp only: vv_float_to_half_def Let_def exp if_True if_False simp_thms prod.case)
    have "int ?e - 112 = int ?e - int 112" by simp
    then have "unat (of_int (int ?e - 112) :: u32) = ?e - 112" using unat_of_int_diff [of 112 ?e] e by (simp only:) simp
    then have E: "unat ?E = (?e - 112) * 1024" using unat_shift10 [of "of_int (int ?e - 112)"] e by (simp only:) simp
    have "?E AND (?m1 + ?r1) = 0"
    proof (rule bit_word_eqI)
      fix n show "bit (?E AND (?m1 + ?r1)) n = bit (0 :: u32) n"
        using low_bits [of "?m1 + ?r1" 10 n] part by (simp add: bit_and_iff bit_push_bit_iff)
    qed
    then have "?E OR (?m1 + ?r1) = ?E + (?m1 + ?r1)" using word_plus_and_or [of ?E "?m1 + ?r1"] by (metis add_0)
    moreover have "unat ?E + unat (?m1 + ?r1) < 2 ^ 32" using E part e by simp
    ultimately have u: "unat (?E OR (?m1 + ?r1)) = ?z" unfolding z using E unat_add_small by (simp only:)
    moreover have "?z < 2 ^ 15" using x(2) by simp
    ultimately show ?thesis using sign_or [of "?E OR (?m1 + ?r1)" f] unfolding v by (simp add: or.assoc)
  qed
  with near show ?thesis by simp
qed

lemma away_subnormal:
  fixes f :: u32
  defines "a \<equiv> float_code f"
  assumes a: "0x33000000 \<le> a" "a < 0x38800000"
  shows "nearest away (float_mag a) (half_code (vv_float_to_half f)) \<and> bit (vv_float_to_half f) 15 = bit f 31"
proof -
  let ?e = "a div 2 ^ 23" and ?m = "a mod 2 ^ 23"
  let ?M = "2 ^ 23 + ?m" and ?s = "126 - a div 2 ^ 23"
  have e: "102 \<le> ?e" "?e \<le> 112"
  proof -
    have "102 \<le> a div 2 ^ 23" "a div 2 ^ 23 < 113" using a by (simp_all add: div_less_iff_less_mult less_eq_div_iff_mult_less_eq)
    then show "102 \<le> ?e" "?e \<le> 112" by simp_all
  qed
  have mlt: "?m < 2 ^ 23" by simp
  have exp: "uint (drop_bit 23 f AND 0xFF) - 127 + 15 = int ?e - 112"
    using uint_of_unat [OF low_float(1) [of f]] by (simp add: a_def)
  let ?mw = "(f AND 0x7FFFFF) OR 0x800000"
  have "(f AND 0x7FFFFF) AND 0x800000 = 0" by (simp add: and.assoc)
  then have "?mw = (f AND 0x7FFFFF) + 0x800000" using word_plus_and_or [of "f AND 0x7FFFFF" "0x800000"] by (metis add_0)
  moreover have "unat (f AND 0x7FFFFF) = ?m" using low_float(2) [of f] by (simp add: a_def)
  ultimately have m: "unat ?mw = ?M" using unat_add_small [of "f AND 0x7FFFFF" "0x800000"] mlt by simp
  have sh: "nat (14 - (int ?e - 112)) = ?s" using e by simp
  let ?x = "?M div 2 ^ ?s" and ?r = "?M mod 2 ^ ?s"
  note fm = float_mag_subnormal [OF e mlt]
  have sp: "?s - 1 = 125 - ?e" "0 < ?s" using e by simp_all
  let ?w = "drop_bit ?s ?mw + (drop_bit (?s - 1) ?mw AND 1)"
  have r1: "unat (drop_bit (?s - 1) ?mw AND 1) = (if 2 ^ (?s - 1) \<le> ?r then 1 else 0)"
    using round_bit [OF sp(2), of ?mw] unfolding m .
  have x1: "unat (drop_bit ?s ?mw) = ?x" by (simp only: unat_drop_bit m)
  have w: "unat ?w = (if ?r \<ge> 2 ^ (?s - 1) then Suc ?x else ?x)"
    using unat_add_small [of "drop_bit ?s ?mw" "drop_bit (?s - 1) ?mw AND 1"] fm(2) unfolding x1 r1 by simp
  have "unat ?w < 2 ^ 15" unfolding w using fm(2) by simp
  note s = sign_or [OF this, of f]
  have c: "(int ?e - 112 \<le> 0) = True" "(int ?e - 112 < - 10) = False" using e by auto
  have v: "vv_float_to_half f = ucast ((drop_bit 16 f AND 0x8000) OR ?w)"
    by (simp only: vv_float_to_half_def Let_def exp c sh if_True if_False)
  have s2: "?r < 2 * 2 ^ (125 - ?e)"
  proof -
    have "2 * 2 ^ (125 - ?e) = (2 ^ ?s :: nat)" using e by (simp flip: power_Suc add: Suc_diff_le)
    then show ?thesis by simp
  qed
  have F: "float_mag a = half_value ?x + ?r * 2 ^ (?e - 1)" using fm(1) by simp
  have "nearest away (float_mag a) (unat ?w)"
    unfolding w unfolding sp(1) by (rule nearest_step(2) [OF F half_value_subnormal_Suc [OF e fm(2)] s2]) (use fm(2) in simp)
  then show ?thesis unfolding v s(1) using s(2) by blast
qed

text \<open>
  \<^verbatim>\<open>vv_float_to_half\<close>, the older conversion, rounds to the nearest half too, a tie going away from zero as its
  comment says, and keeps the sign; infinity and every NaN become infinity.
\<close>

theorem float_to_half_nearest:
  "bit (vv_float_to_half f) 15 = bit f 31 \<and>
   (if float_code f < 0x7F800000 then nearest away (float_mag (float_code f)) (half_code (vv_float_to_half f))
    else half_code (vv_float_to_half f) = 0x7C00)"
proof -
  let ?e = "float_code f div 2 ^ 23"
  have exp: "uint (drop_bit 23 f AND 0xFF) - 127 + 15 = int ?e - 112"
    using uint_of_unat [OF low_float(1) [of f]] by simp
  consider "0x47800000 \<le> float_code f" | "0x38800000 \<le> float_code f" "float_code f < 0x47800000"
    | "0x33000000 \<le> float_code f" "float_code f < 0x38800000" | "float_code f < 0x33000000" by linarith
  then show ?thesis
  proof cases
    case 1
    then have "143 \<le> ?e" by (simp add: less_eq_div_iff_mult_less_eq)
    then have v: "vv_float_to_half f = ucast ((drop_bit 16 f AND 0x8000) OR 0x7C00)"
      using exp by (simp add: vv_float_to_half_def Let_def)
    have "nearest away (float_mag (float_code f)) 0x7C00" by (rule overflow) (use 1 in \<open>simp_all add: away_def\<close>)
    with sign_or [of "0x7C00" f] show ?thesis unfolding v by simp
  next
    case 2
    with away_normal show ?thesis by simp
  next
    case 3
    with away_subnormal show ?thesis by simp
  next
    case 4
    then have "?e < 102" by (simp add: div_less_iff_less_mult)
    then have v: "vv_float_to_half f = ucast (drop_bit 16 f AND 0x8000)"
      using exp by (simp add: vv_float_to_half_def Let_def)
    have "float_mag (float_code f) < float_mag 0x33000000"
    proof -
      have "float_mag (float_code f) \<le> float_mag 0x32FFFFFF" by (rule float_mag_mono) (use 4 in simp)
      also have "\<dots> < float_mag 0x33000000" by (simp add: float_mag_def)
      finally show ?thesis .
    qed
    then have F: "float_mag (float_code f) < 2 ^ 124" by (simp add: float_mag_def)
    have hv: "half_value 0 = 0" "half_value (Suc 0) = 2 ^ 125" by (simp_all add: half_value_def half_mag_def)
    have "nearest away (float_mag (float_code f)) 0"
      by (rule nearest_between [of 0]) (use F hv in \<open>auto simp: dist_def\<close>)
    with 4 sign_only [of f] show ?thesis unfolding v by simp
  qed
qed

end
