(* ===== verification/GgufDequant.thy ===== *)
theory GgufDequant
  imports GgufSafe Half HashTable
begin

unbundle bit_operations_syntax

text \<open>
  Decoding GGUF tensors (\<^verbatim>\<open>src/model/gguf.c\<close>, from \<^verbatim>\<open>vv_gguf_i2s_view\<close> on). A \<^verbatim>\<open>float\<close> is its bits; the two operations on
  floats the code uses, the product and the conversion of an integer, are a parameter (\<open>fops\<close>), half precision is
  widened by \<open>vv_half_to_float\<close>. A read outside the mapping, or a write outside the caller's buffer, is \<open>None\<close>.
\<close>

record fops =
  fo_mul :: "u32 \<Rightarrow> u32 \<Rightarrow> u32"
  fo_of_int :: "int \<Rightarrow> u32"

subsection \<open>Memory\<close>

definition mem_read :: "bytes \<Rightarrow> int \<Rightarrow> nat \<Rightarrow> bytes option" where
  "mem_read img p n =
     (if 0 \<le> p \<and> p + int n \<le> int (length img) then Some (take n (drop (nat p) img)) else None)"

definition read_u8 :: "bytes \<Rightarrow> int \<Rightarrow> u8 option" where
  "read_u8 img p = map_option (\<lambda>b. b ! 0) (mem_read img p 1)"

definition read_u16 :: "bytes \<Rightarrow> int \<Rightarrow> u16 option" where
  "read_u16 img p = map_option le16 (mem_read img p 2)"

definition read_u32 :: "bytes \<Rightarrow> int \<Rightarrow> u32 option" where
  "read_u32 img p = map_option le32 (mem_read img p 4)"

text \<open>One store into the caller's buffer, of a value that may have faulted; and a sequence of them.\<close>

definition put :: "(int \<times> u32 option) \<Rightarrow> u32 list \<Rightarrow> u32 list option" where
  "put w y =
     (case w of (i, v) \<Rightarrow>
        (case v of None \<Rightarrow> None | Some v \<Rightarrow> if 0 \<le> i \<and> i < int (length y) then Some (y[nat i := v]) else None))"

definition put_all :: "(int \<times> u32 option) list \<Rightarrow> u32 list \<Rightarrow> u32 list option" where
  "put_all ws y = fold_opt put ws y"

text \<open>A C loop \<^verbatim>\<open>for (i = 0; i < n; i++)\<close> that stores.\<close>

definition for_to :: "int \<Rightarrow> (int \<Rightarrow> (int \<times> u32 option) list) \<Rightarrow> (int \<times> u32 option) list" where
  "for_to n body = concat (map (\<lambda>i. body (int i)) [0..<nat n])"

subsection \<open>Views\<close>

text \<open>\<^verbatim>\<open>vv_gguf_nelements\<close> as the signed number the code divides.\<close>

definition nelements :: "gguf_tensor \<Rightarrow> int" where
  "nelements t = sint (vv_gguf_nelements t)"

text \<open>The view of a ternary tensor: the data pointer and the scale after the codes.\<close>

definition vv_gguf_i2s_view :: "bytes \<Rightarrow> gguf_tensor option \<Rightarrow> (vv_status + int \<times> u32) option" where
  "vv_gguf_i2s_view img t =
     (case t of
        None \<Rightarrow> Some (Inl VV_ERR_NULL_PTR)
      | Some t \<Rightarrow>
          (case tn_data t of
             None \<Rightarrow> Some (Inl VV_ERR_INVALID_ARG)
           | Some data \<Rightarrow>
               if tn_type t \<noteq> VV_GGML_I2_S then Some (Inl VV_ERR_INVALID_ARG)
               else map_option (\<lambda>s. Inr (int data, s)) (read_u32 img (int data + nelements t sdiv 4))))"

definition vv_gguf_i8s_view :: "bytes \<Rightarrow> gguf_tensor option \<Rightarrow> (vv_status + int \<times> u32) option" where
  "vv_gguf_i8s_view img t =
     (case t of
        None \<Rightarrow> Some (Inl VV_ERR_NULL_PTR)
      | Some t \<Rightarrow>
          (case tn_data t of
             None \<Rightarrow> Some (Inl VV_ERR_INVALID_ARG)
           | Some data \<Rightarrow>
               if tn_type t \<noteq> VV_GGML_I8_S then Some (Inl VV_ERR_INVALID_ARG)
               else map_option (\<lambda>s. Inr (int data, s)) (read_u32 img (int data + nelements t))))"

subsection \<open>Rows\<close>

definition bf16_to_f32 :: "u16 \<Rightarrow> u32" where
  "bf16_to_f32 b = push_bit 16 (ucast b)"

definition i8 :: "u8 \<Rightarrow> int" where "i8 b = sint b"

text \<open>
  One Q6_K code: four bits of \<open>ql\<close> and two of \<open>qh\<close>, less 32. The cast to \<^verbatim>\<open>int8_t\<close> before the subtraction changes nothing,
  the six bits being at most 63.
\<close>

definition q6_code :: "u8 \<Rightarrow> u8 \<Rightarrow> int" where
  "q6_code lo hi = i8 (lo OR push_bit 4 hi) - 32"

definition q6_value :: "fops \<Rightarrow> u16 \<Rightarrow> u8 \<Rightarrow> int \<Rightarrow> u32" where
  "q6_value F dh sc q = fo_mul F (fo_mul F (vv_half_to_float dh) (fo_of_int F (i8 sc))) (fo_of_int F q)"

text \<open>The stores of the innermost loop, of half \<open>n\<close> of block \<open>i\<close>, at \<open>l\<close>; \<open>b\<close> is the block's address and \<open>y\<close> the index
  of the half's first value.\<close>

definition q6k_stores :: "fops \<Rightarrow> bytes \<Rightarrow> int \<Rightarrow> int \<Rightarrow> int \<Rightarrow> int \<Rightarrow> (int \<times> u32 option) list" where
  "q6k_stores F img b n y l =
     (let ql = b + 64 * n; qh = b + 128 + 32 * n; sc = b + 192 + 8 * n; is = l div 16;
          store = (\<lambda>dst lo_at code scale.
            (y + dst,
             case read_u16 img (b + 208) of None \<Rightarrow> None | Some dh \<Rightarrow>
             (case read_u8 img (ql + lo_at) of None \<Rightarrow> None | Some lo \<Rightarrow>
             (case read_u8 img (qh + l) of None \<Rightarrow> None | Some hi \<Rightarrow>
             (case read_u8 img (sc + is + scale) of None \<Rightarrow> None | Some s \<Rightarrow> Some (q6_value F dh s (code lo hi))))))) in
        [store l l (\<lambda>lo hi. q6_code (lo AND 0xF) (hi AND 3)) 0,
         store (l + 32) (l + 32) (\<lambda>lo hi. q6_code (lo AND 0xF) (drop_bit 2 hi AND 3)) 2,
         store (l + 64) l (\<lambda>lo hi. q6_code (drop_bit 4 lo) (drop_bit 4 hi AND 3)) 4,
         store (l + 96) (l + 32) (\<lambda>lo hi. q6_code (drop_bit 4 lo) (drop_bit 6 hi AND 3)) 6])"

definition q6k_row :: "fops \<Rightarrow> bytes \<Rightarrow> int \<Rightarrow> int \<Rightarrow> int \<Rightarrow> (int \<times> u32 option) list" where
  "q6k_row F img blocks y k =
     for_to (k div 256) (\<lambda>i. for_to 2 (\<lambda>n. for_to 32 (q6k_stores F img (blocks + i * 210) n (y + i * 256 + n * 128))))"

definition vv_q6k_dequant_row :: "fops \<Rightarrow> bytes \<Rightarrow> int \<Rightarrow> u32 list \<Rightarrow> int \<Rightarrow> u32 list option" where
  "vv_q6k_dequant_row F img blocks y k = put_all (q6k_row F img blocks 0 k) y"

definition q8_row :: "fops \<Rightarrow> bytes \<Rightarrow> int \<Rightarrow> int \<Rightarrow> int \<Rightarrow> (int \<times> u32 option) list" where
  "q8_row F img b y bpr =
     for_to bpr (\<lambda>j. for_to 32 (\<lambda>l.
       [(y + j * 32 + l,
         case read_u16 img (b + j * 34) of None \<Rightarrow> None | Some dh \<Rightarrow>
         (case read_u8 img (b + j * 34 + 2 + l) of None \<Rightarrow> None | Some q \<Rightarrow>
            Some (fo_mul F (fo_of_int F (i8 q)) (vv_half_to_float dh))))]))"

text \<open>The bits of \<open>-1.0\<close>, \<open>0.0\<close>, \<open>1.0\<close> and \<open>0.0\<close>.\<close>

definition map2bit :: "u8 \<Rightarrow> u32" where
  "map2bit c = (if c = 0 then 0xBF800000 else if c = 2 then 0x3F800000 else 0)"

definition i2s_row :: "fops \<Rightarrow> bytes \<Rightarrow> u32 \<Rightarrow> int \<Rightarrow> int \<Rightarrow> int \<Rightarrow> (int \<times> u32 option) list" where
  "i2s_row F img s rb y k =
     for_to (k div 128) (\<lambda>blk. for_to 32 (\<lambda>j.
       (let v = (\<lambda>sh. map_option (\<lambda>b. fo_mul F s (map2bit (drop_bit sh b AND 3))) (read_u8 img (rb + blk * 32 + j))) in
        [(y + blk * 128 + j, v 6), (y + blk * 128 + j + 32, v 4), (y + blk * 128 + j + 64, v 2), (y + blk * 128 + j + 96, v 0)])))"

text \<open>The loops, by type; \<open>d\<close> is the data pointer and \<open>k\<close> the length of a row.\<close>

definition dequant_switch ::
  "fops \<Rightarrow> bytes \<Rightarrow> gguf_tensor \<Rightarrow> int \<Rightarrow> int \<Rightarrow> int \<Rightarrow> int \<Rightarrow> u32 list \<Rightarrow> (vv_status \<times> u32 list) option" where
  "dequant_switch F img t d k row0 nrows out =
     (let ok = (\<lambda>ws. map_option (\<lambda>out. (VV_OK, out)) (put_all ws out)) in
      if tn_type t = VV_GGML_F32 then
        ok (for_to (nrows * k) (\<lambda>i. [(i, read_u32 img (d + row0 * k * 4 + i * 4))]))
      else if tn_type t = VV_GGML_F16 then
        ok (for_to (nrows * k) (\<lambda>i. [(i, map_option vv_half_to_float (read_u16 img (d + row0 * k * 2 + i * 2)))]))
      else if tn_type t = VV_GGML_BF16 then
        ok (for_to (nrows * k) (\<lambda>i. [(i, map_option bf16_to_f32 (read_u16 img (d + row0 * k * 2 + i * 2)))]))
      else if tn_type t = VV_GGML_Q8_0 then
        ok (for_to nrows (\<lambda>r. q8_row F img (d + (row0 + r) * (k div 32) * 34) (r * k) (k div 32)))
      else if tn_type t = VV_GGML_Q6_K then
        ok (for_to nrows (\<lambda>r. q6k_row F img (d + (row0 + r) * (k div 256) * 210) (r * k) k))
      else if tn_type t = VV_GGML_I8_S then
        (case vv_gguf_i8s_view img (Some t) of
           Some (Inr (q, s)) \<Rightarrow>
             ok (for_to (nrows * k) (\<lambda>i.
               [(i, map_option (\<lambda>c. fo_mul F (fo_of_int F (i8 c)) s) (read_u8 img (q + row0 * k + i)))]))
         | _ \<Rightarrow> None)
      else if tn_type t = VV_GGML_I2_S then
        if k mod 128 \<noteq> 0 then Some (VV_ERR_UNSUPPORTED, out)
        else
          (case vv_gguf_i2s_view img (Some t) of
             Some (Inr (codes, s)) \<Rightarrow>
               ok (for_to nrows (\<lambda>r. i2s_row F img s (codes + (row0 + r) * (k div 4)) (r * k) k))
           | _ \<Rightarrow> None)
      else Some (VV_ERR_UNSUPPORTED, out))"

text \<open>
  The rows \<open>row0\<close> to \<open>row0 + nrows\<close> of a tensor, into \<open>out\<close>. The element counts and the row numbers are 64-bit signed; the sum
  of the guard wraps. Below the guard the rows asked for are rows of the tensor, and the products of the code are the mathematical ones.
\<close>

definition vv_gguf_dequant_rows_f32 ::
  "fops \<Rightarrow> bytes \<Rightarrow> gguf_tensor option \<Rightarrow> int \<Rightarrow> int \<Rightarrow> u32 list \<Rightarrow> (vv_status \<times> u32 list) option" where
  "vv_gguf_dequant_rows_f32 F img t row0 nrows out =
     (case t of
        None \<Rightarrow> Some (VV_ERR_NULL_PTR, out)
      | Some t \<Rightarrow>
          (case tn_data t of
             None \<Rightarrow> Some (VV_ERR_UNSUPPORTED, out)
           | Some data \<Rightarrow>
               let k = sint (tn_ne t ! 0); rows = nelements t sdiv (if k \<noteq> 0 then k else 1) in
               if row0 < 0 \<or> nrows < 0 \<or> signed_take_bit 63 (row0 + nrows) > rows then Some (VV_ERR_INVALID_ARG, out)
               else dequant_switch F img t (int data) k row0 nrows out))"

subsection \<open>Rows as halves\<close>

text \<open>
  The rows one by one through a buffer of floats, on the stack or from the heap, each value rounded by
  \<open>vv_float_to_half\<close>. The first argument counts the rows to go.
\<close>

primrec deq16_rows ::
  "nat \<Rightarrow> fops \<Rightarrow> bytes \<Rightarrow> gguf_tensor \<Rightarrow> int \<Rightarrow> u32 list \<Rightarrow> u16 list \<Rightarrow> (vv_status \<times> u16 list) option" where
  "deq16_rows 0 F img t row buf done = Some (VV_OK, done)"
| "deq16_rows (Suc n) F img t row buf done =
     (case vv_gguf_dequant_rows_f32 F img (Some t) row 1 buf of
        None \<Rightarrow> None
      | Some (s, buf) \<Rightarrow>
          if s \<noteq> VV_OK then Some (s, done)
          else deq16_rows n F img t (row + 1) buf (done @ map vv_float_to_half (take (nat (sint (tn_ne t ! 0))) buf)))"

definition vv_gguf_dequant_rows_f16 ::
  "fops \<Rightarrow> bytes \<Rightarrow> gguf_tensor option \<Rightarrow> int \<Rightarrow> int \<Rightarrow> heap \<Rightarrow> (vv_status \<times> u16 list) option \<times> heap" where
  "vv_gguf_dequant_rows_f16 F img t row0 nrows h =
     (case t of
        None \<Rightarrow> (Some (VV_ERR_NULL_PTR, []), h)
      | Some t \<Rightarrow>
          let k = sint (tn_ne t ! 0) in
          if tn_type t = VV_GGML_F16 then
            let rows = nelements t sdiv (if k \<noteq> 0 then k else 1) in
            if row0 < 0 \<or> nrows < 0 \<or> signed_take_bit 63 (row0 + nrows) > rows then (Some (VV_ERR_INVALID_ARG, []), h)
            else
              (case tn_data t of
                 None \<Rightarrow> (None, h)
               | Some data \<Rightarrow>
                   (map_option (\<lambda>b. (VV_OK, map (\<lambda>i. le16 (drop (2 * i) b)) [0..<nat (nrows * k)]))
                      (mem_read img (int data + row0 * k * 2) (2 * nat (nrows * k))), h))
          else if k \<le> 4096 then (deq16_rows (nat nrows) F img t row0 (replicate (nat k) 0) [], h)
          else
            (case vv_alloc (of_int k * 4) h of
               (None, h) \<Rightarrow> (Some (VV_ERR_OUT_OF_MEMORY, []), h)
             | (Some a, h) \<Rightarrow> (deq16_rows (nat nrows) F img t row0 (replicate (nat k) 0) [], vv_free (Some a) h)))"

subsection \<open>Stores\<close>

text \<open>The stores \<open>ws\<close> fill the \<open>N\<close> cells from \<open>y\<close> on with the values of \<open>g\<close>, and no others.\<close>

definition stores :: "(int \<times> u32 option) list \<Rightarrow> int \<Rightarrow> nat \<Rightarrow> (nat \<Rightarrow> u32) \<Rightarrow> bool" where
  "stores ws y N g \<longleftrightarrow>
     (\<forall>w \<in> set ws. \<exists>m < N. w = (y + int m, Some (g m))) \<and> (\<forall>m < N. \<exists>w \<in> set ws. fst w = y + int m)"

lemma set_for_to: "set (for_to (int n) body) = (\<Union>i < n. set (body (int i)))"
  by (auto simp: for_to_def)

lemma stores_for_to:
  assumes "\<And>i. i < n \<Longrightarrow> stores (body (int i)) (y + int i * int c) c (\<lambda>m. g (i * c + m))"
  shows "stores (for_to (int n) body) y (n * c) g"
  unfolding stores_def
proof (intro conjI ballI allI impI)
  fix w assume "w \<in> set (for_to (int n) body)"
  then obtain i where i: "i < n" "w \<in> set (body (int i))" by (auto simp: set_for_to)
  from assms [OF i(1)] i(2) have "\<exists>m < c. w = (y + int i * int c + int m, Some (g (i * c + m)))"
    unfolding stores_def by blast
  then obtain m where m: "m < c" "w = (y + int i * int c + int m, Some (g (i * c + m)))" by blast
  have "i * c + m < Suc i * c" using m by simp
  also have "\<dots> \<le> n * c" using i by (intro mult_right_mono) auto
  finally show "\<exists>m < n * c. w = (y + int m, Some (g m))" using m(2) by (intro exI [of _ "i * c + m"]) auto
next
  fix m assume "m < n * c"
  then have "m div c < n" "m mod c < c" by (auto simp: less_mult_imp_div_less) (metis mod_less_divisor mult_0_right not_gr_zero not_less_zero)
  from assms [OF this(1)] this(2) obtain w where w: "w \<in> set (body (int (m div c)))" "fst w = y + int (m div c) * int c + int (m mod c)"
    unfolding stores_def by blast
  have "int (m div c) * int c + int (m mod c) = int m" by (metis div_mult_mod_eq of_nat_add of_nat_mult)
  with w \<open>m div c < n\<close> show "\<exists>w \<in> set (for_to (int n) body). fst w = y + int m"
    by (intro bexI [of _ w]) (auto simp: set_for_to)
qed

lemma stores_single: "body = (\<lambda>i. [(i + y, Some (g (nat i)))]) \<Longrightarrow> stores (for_to (int n) body) y n g"
  using stores_for_to [of n body y 1 g] by (auto simp: stores_def)

lemma stores_quarters:
  assumes "\<And>l. l < 32 \<Longrightarrow> body (int l) =
    [(y + int l, Some (g l)), (y + int l + 32, Some (g (l + 32))), (y + int l + 64, Some (g (l + 64))), (y + int l + 96, Some (g (l + 96)))]"
  shows "stores (for_to 32 body) y 128 g"
  unfolding stores_def
proof (intro conjI ballI allI impI)
  fix w assume "w \<in> set (for_to 32 body)"
  then obtain l where l: "l < 32" "w \<in> set (body (int l))" using set_for_to [of 32 body] by auto
  from l(2) consider "w = (y + int l, Some (g l))" | "w = (y + int (l + 32), Some (g (l + 32)))"
    | "w = (y + int (l + 64), Some (g (l + 64)))" | "w = (y + int (l + 96), Some (g (l + 96)))"
    unfolding assms [OF l(1)] by auto
  then show "\<exists>m < 128. w = (y + int m, Some (g m))"
  proof cases
    case 1
    then show ?thesis using l(1) by (intro exI [of _ l]) simp
  next
    case 2
    then show ?thesis using l(1) by (intro exI [of _ "l + 32"]) simp
  next
    case 3
    then show ?thesis using l(1) by (intro exI [of _ "l + 64"]) simp
  next
    case 4
    then show ?thesis using l(1) by (intro exI [of _ "l + 96"]) simp
  qed
next
  fix m :: nat assume m: "m < 128"
  define l where "l = m mod 32"
  define q where "q = m div 32"
  have "q < 4" "m = 32 * q + l" using m by (simp_all add: q_def l_def div_less_iff_less_mult)
  moreover from this(1) have "q = 0 \<or> q = 1 \<or> q = 2 \<or> q = 3" by arith
  ultimately have l: "l < 32" "m = l \<or> m = l + 32 \<or> m = l + 64 \<or> m = l + 96" by (auto simp: l_def)
  then have "int l = int m \<or> int l + 32 = int m \<or> int l + 64 = int m \<or> int l + 96 = int m" by linarith
  then have "\<exists>w \<in> set (body (int l)). fst w = y + int m" unfolding assms [OF l(1)] by auto
  then show "\<exists>w \<in> set (for_to 32 body). fst w = y + int m" proof -
    have "set (body (int l)) \<subseteq> set (for_to 32 body)" using l(1) set_for_to [of 32 body] by (simp only: of_nat_numeral) blast
    then show ?thesis using \<open>\<exists>w \<in> set (body (int l)). fst w = y + int m\<close> by blast
  qed
qed

lemma put_all_spec:
  assumes "\<forall>w \<in> set ws. \<exists>m < N. w = (int m, Some (g m))" and "length out = N"
  shows "\<exists>y. put_all ws out = Some y \<and> length y = N \<and>
    (\<forall>m < N. y ! m = (if \<exists>w \<in> set ws. fst w = int m then g m else out ! m))"
  using assms
proof (induction ws arbitrary: out)
  case Nil
  then show ?case by (simp add: put_all_def)
next
  case (Cons w ws)
  then obtain m where m: "m < N" "w = (int m, Some (g m))" by auto
  let ?out = "out [m := g m]"
  have "length ?out = N" using Cons.prems by simp
  with Cons.IH [of ?out] Cons.prems obtain y where y: "put_all ws ?out = Some y" "length y = N"
      "\<forall>i < N. y ! i = (if \<exists>w \<in> set ws. fst w = int i then g i else ?out ! i)" by auto
  have "put_all (w # ws) out = Some y" using y(1) m Cons.prems(2) by (simp add: put_all_def put_def)
  moreover have "y ! i = (if \<exists>v \<in> set (w # ws). fst v = int i then g i else out ! i)" if "i < N" for i
    using y(3) that m Cons.prems(2) by (auto simp: nth_list_update)
  ultimately show ?case using y(2) by blast
qed

lemma put_all_stores:
  assumes "stores ws 0 N g" and "length out = N"
  shows "put_all ws out = Some (map g [0..<N])"
proof -
  have "\<forall>w \<in> set ws. \<exists>m < N. w = (int m, Some (g m))" "\<forall>m < N. \<exists>w \<in> set ws. fst w = int m"
    using assms(1) by (auto simp: stores_def)
  with put_all_spec [OF this(1) assms(2)] obtain y where y: "put_all ws out = Some y" "length y = N" "\<forall>m < N. y ! m = g m"
    by auto
  have "y = map g [0..<N]" by (rule nth_equalityI) (use y in simp_all)
  with y(1) show ?thesis by simp
qed

subsection \<open>Reading inside a tensor\<close>

lemma mem_read_inside:
  assumes "d + nb \<le> length img" and "x + n \<le> nb"
  shows "mem_read img (int d + int x) n = Some (take n (drop x (take nb (drop d img))))"
proof -
  have "nat (int d + int x) = x + d" by simp
  then show ?thesis using assms by (simp add: mem_read_def drop_take min_def)
qed

lemma read_inside:
  assumes "d + nb \<le> length img" and D: "D = take nb (drop d img)"
  shows "x < nb \<Longrightarrow> read_u8 img (int d + int x) = Some (D ! x)"
    and "x + 2 \<le> nb \<Longrightarrow> read_u16 img (int d + int x) = Some (le16 (drop x D))"
    and "x + 4 \<le> nb \<Longrightarrow> read_u32 img (int d + int x) = Some (le32 (drop x D))"
  using mem_read_inside [OF assms(1), of x 1] mem_read_inside [OF assms(1), of x 2] mem_read_inside [OF assms(1), of x 4] assms
  by (auto simp: read_u8_def read_u16_def read_u32_def le16_def le32_def)

subsection \<open>What an element is worth\<close>

text \<open>
  The reference: the value of one element from the bytes of its block, by division and remainder. \<open>q6_ref\<close> is element \<open>e\<close> of
  a Q6_K block of 210 bytes: 128 bytes of low halves, 64 of high pairs of bits, 16 scales and the factor.
\<close>

definition q6_ref :: "fops \<Rightarrow> bytes \<Rightarrow> nat \<Rightarrow> u32" where
  "q6_ref F B e =
     (let half = e div 128; q = e mod 128 div 32; l = e mod 32;
          lo = B ! (64 * half + q mod 2 * 32 + l);
          low = (if q < 2 then unat lo mod 16 else unat lo div 16);
          high = unat (B ! (128 + 32 * half + l)) div 4 ^ q mod 4
      in q6_value F (le16 (drop 208 B)) (B ! (192 + 8 * half + l div 16 + 2 * q)) (int (low + 16 * high) - 32))"

definition q8_ref :: "fops \<Rightarrow> bytes \<Rightarrow> nat \<Rightarrow> u32" where
  "q8_ref F B e = fo_mul F (fo_of_int F (sint (B ! (2 + e)))) (vv_half_to_float (le16 B))"

definition i2s_ref :: "fops \<Rightarrow> u32 \<Rightarrow> bytes \<Rightarrow> nat \<Rightarrow> u32" where
  "i2s_ref F s D e =
     fo_mul F s (map2bit (drop_bit (6 - 2 * (e mod 128 div 32)) (D ! (e div 128 * 32 + e mod 32)) AND 3))"

definition element :: "fops \<Rightarrow> u32 \<Rightarrow> nat \<Rightarrow> bytes \<Rightarrow> nat \<Rightarrow> u32" where
  "element F ty n D e =
     (if ty = VV_GGML_F32 then le32 (drop (4 * e) D)
      else if ty = VV_GGML_F16 then vv_half_to_float (le16 (drop (2 * e) D))
      else if ty = VV_GGML_BF16 then bf16_to_f32 (le16 (drop (2 * e) D))
      else if ty = VV_GGML_Q8_0 then q8_ref F (drop (34 * (e div 32)) D) (e mod 32)
      else if ty = VV_GGML_Q6_K then q6_ref F (drop (210 * (e div 256)) D) (e mod 256)
      else if ty = VV_GGML_I8_S then fo_mul F (fo_of_int F (sint (D ! e))) (le32 (drop n D))
      else i2s_ref F (le32 (drop (n div 4) D)) D e)"

subsection \<open>Codes of six bits\<close>

lemma unat_and_3: "unat (b AND 3 :: u8) = unat b mod 4"
proof -
  have "(3 :: u8) = mask 2" by (simp add: mask_numeral)
  then have "b AND 3 = take_bit 2 b" by (simp only: take_bit_eq_mask)
  then show ?thesis by (simp only: unsigned_take_bit_eq take_bit_nat_def) simp
qed

lemma unat_and_15: "unat (b AND 0xF :: u8) = unat b mod 16"
proof -
  have "(0xF :: u8) = mask 4" by (simp add: mask_numeral)
  then have "b AND 0xF = take_bit 4 b" by (simp only: take_bit_eq_mask)
  then show ?thesis by (simp only: unsigned_take_bit_eq take_bit_nat_def) simp
qed

lemma unat_drop_u8: "unat (drop_bit n (b :: u8)) = unat b div 2 ^ n"
proof -
  have "unat b < 2 ^ LENGTH(8)" by (rule unsigned_less)
  then show ?thesis by (simp add: unsigned_drop_bit_eq drop_bit_nat_def take_bit_nat_eq_self)
qed

lemma q6_code_value:
  assumes lo: "unat lo < 16" and hi: "unat hi < 4"
  shows "q6_code lo hi = int (unat lo + 16 * unat hi) - 32"
proof -
  have p: "unat (push_bit 4 hi :: u8) = 16 * unat hi" using hi by (simp add: push_bit_eq_mult unat_word_ariths)
  have "lo AND push_bit 4 hi = 0"
  proof (rule bit_word_eqI)
    fix n assume "n < LENGTH(8)"
    show "bit (lo AND push_bit 4 hi) n = bit (0 :: u8) n"
    proof (cases "4 \<le> n")
      case True
      then have "(16 :: nat) \<le> 2 ^ n" using power_increasing [of 4 n "2 :: nat"] by simp
      then have "\<not> bit (unat lo) n" using lo by (simp add: bit_iff_odd)
      then have "\<not> bit lo n" by (simp add: bit_unsigned_iff possible_bit_def)
      then show ?thesis by (simp add: bit_and_iff)
    next
      case False
      then show ?thesis by (simp add: bit_and_iff bit_push_bit_iff)
    qed
  qed
  then have "lo OR push_bit 4 hi = lo + push_bit 4 hi" using word_plus_and_or [of lo "push_bit 4 hi"] by simp
  then have u: "unat (lo OR push_bit 4 hi) = unat lo + 16 * unat hi" using lo hi p by (simp add: unat_word_ariths)
  have small: "sint w = int (unat w)" if "unat w < 128" for w :: u8
  proof -
    have "uint w < 128" using that by (metis of_nat_less_iff of_nat_numeral uint_nat)
    moreover have "- 128 \<le> uint w" using uint_ge_0 [of w] by linarith
    ultimately show ?thesis by (simp add: sint_uint signed_take_bit_int_eq_self)
  qed
  have "unat (lo OR push_bit 4 hi) < 128" unfolding u using lo hi by simp
  from small [OF this] show ?thesis unfolding q6_code_def i8_def u by simp
qed

subsection \<open>Rows against the reference\<close>

lemma quarter_index:
  fixes n q l :: nat
  assumes "q < 4" "l < 32"
  shows "(n * 128 + (q * 32 + l)) div 128 = n" "(n * 128 + (q * 32 + l)) mod 128 div 32 = q" "(n * 128 + (q * 32 + l)) mod 32 = l"
proof -
  have lt: "q * 32 + l < 128" using assms by simp
  show "(n * 128 + (q * 32 + l)) div 128 = n" using lt by simp
  have "(n * 128 + (q * 32 + l)) mod 128 = q * 32 + l" using lt by simp
  then show "(n * 128 + (q * 32 + l)) mod 128 div 32 = q" using assms by simp
  have "n * 128 + (q * 32 + l) = (n * 4 + q) * 32 + l" by simp
  then show "(n * 128 + (q * 32 + l)) mod 32 = l" using assms(2) by (metis mod_less mod_mult_self3)
qed

lemma q6_half_stores:
  assumes inb: "d + nb \<le> length img" and D: "D = take nb (drop d img)" and o: "off + 210 \<le> nb" and n: "n < 2"
  shows "stores (for_to 32 (q6k_stores F img (int d + int off) (int n) y)) y 128 (\<lambda>m. q6_ref F (drop off D) (n * 128 + m))"
proof (rule stores_quarters)
  fix l :: nat assume l: "l < 32"
  note r = read_inside [OF inb D]
  have len: "length D = nb" using inb D by simp
  have at: "drop off D ! x = D ! (off + x)" "drop 208 (drop off D) = drop (off + 208) D" for x
    using o len by (simp_all add: add.commute)
  have dh: "read_u16 img (int d + int off + 208) = Some (le16 (drop (off + 208) D))" using r(2) [of "off + 208"] o by (simp add: add.assoc)
  have lo: "read_u8 img (int d + int off + 64 * int n + int l) = Some (D ! (off + (64 * n + l)))"
      "read_u8 img (int d + int off + 64 * int n + (int l + 32)) = Some (D ! (off + (64 * n + 32 + l)))"
    using r(1) [of "off + (64 * n + l)"] r(1) [of "off + (64 * n + 32 + l)"] o n l by (simp_all add: algebra_simps)
  have hi: "read_u8 img (int d + int off + 128 + 32 * int n + int l) = Some (D ! (off + (128 + 32 * n + l)))"
    using r(1) [of "off + (128 + 32 * n + l)"] o n l by (simp add: algebra_simps)
  have sc: "read_u8 img (int d + int off + 192 + 8 * int n + int l div 16 + int s) = Some (D ! (off + (192 + 8 * n + l div 16 + s)))" if "s \<le> 6" for s
  proof -
    have "l div 16 \<le> 1" using l by simp
    then have "off + (192 + 8 * n + l div 16 + s) < nb" using o n that by linarith
    from r(1) [OF this] show ?thesis by (simp add: algebra_simps of_nat_div)
  qed
  have le: "(0 :: nat) \<le> 6" "(2 :: nat) \<le> 6" "(4 :: nat) \<le> 6" "(6 :: nat) \<le> 6" by simp_all
  have sc0: "read_u8 img (int d + int off + 192 + 8 * int n + int l div 16) = Some (D ! (off + (192 + 8 * n + l div 16)))"
    using sc [OF le(1)] by simp
  note sc' = sc0 sc [OF le(2), unfolded of_nat_numeral]
    sc [OF le(3), unfolded of_nat_numeral] sc [OF le(4), unfolded of_nat_numeral]
  have ref: "q6_ref F (drop off D) (n * 128 + (q * 32 + l)) =
      q6_value F (le16 (drop (off + 208) D)) (D ! (off + (192 + 8 * n + l div 16 + 2 * q)))
        (int ((if q < 2 then unat (D ! (off + (64 * n + q mod 2 * 32 + l))) mod 16 else unat (D ! (off + (64 * n + q mod 2 * 32 + l))) div 16) +
           16 * (unat (D ! (off + (128 + 32 * n + l))) div 4 ^ q mod 4)) - 32)" if "q < 4" for q
    unfolding q6_ref_def Let_def quarter_index [OF that l] at ..
  have ref4: "q6_ref F (drop off D) (n * 128 + l) = q6_value F (le16 (drop (off + 208) D)) (D ! (off + (192 + 8 * n + l div 16)))
        (q6_code (D ! (off + (64 * n + l)) AND 0xF) (D ! (off + (128 + 32 * n + l)) AND 3))"
      "q6_ref F (drop off D) (n * 128 + (l + 32)) = q6_value F (le16 (drop (off + 208) D)) (D ! (off + (192 + 8 * n + l div 16 + 2)))
        (q6_code (D ! (off + (64 * n + 32 + l)) AND 0xF) (drop_bit 2 (D ! (off + (128 + 32 * n + l))) AND 3))"
      "q6_ref F (drop off D) (n * 128 + (l + 64)) = q6_value F (le16 (drop (off + 208) D)) (D ! (off + (192 + 8 * n + l div 16 + 4)))
        (q6_code (drop_bit 4 (D ! (off + (64 * n + l)))) (drop_bit 4 (D ! (off + (128 + 32 * n + l))) AND 3))"
      "q6_ref F (drop off D) (n * 128 + (l + 96)) = q6_value F (le16 (drop (off + 208) D)) (D ! (off + (192 + 8 * n + l div 16 + 6)))
        (q6_code (drop_bit 4 (D ! (off + (64 * n + 32 + l)))) (drop_bit 6 (D ! (off + (128 + 32 * n + l))) AND 3))"
  proof -
    have nib: "unat b div 16 < 16" for b :: u8
    proof -
      have "unat b < 2 ^ LENGTH(8)" by (rule unsigned_less)
      then show ?thesis by (simp add: div_less_iff_less_mult)
    qed
    have c: "q6_code (a AND 0xF) (b AND 3) = int (unat a mod 16 + 16 * (unat b mod 4)) - 32" for a b :: u8
      by (subst q6_code_value) (simp_all add: unat_and_15 unat_and_3)
    have c': "q6_code (drop_bit 4 a) (b AND 3) = int (unat a div 16 + 16 * (unat b mod 4)) - 32" for a b :: u8
      by (subst q6_code_value) (simp_all add: unat_drop_u8 unat_and_3 nib)
    show "q6_ref F (drop off D) (n * 128 + l) = q6_value F (le16 (drop (off + 208) D)) (D ! (off + (192 + 8 * n + l div 16)))
        (q6_code (D ! (off + (64 * n + l)) AND 0xF) (D ! (off + (128 + 32 * n + l)) AND 3))"
      using ref [of 0] by (simp add: c)
    show "q6_ref F (drop off D) (n * 128 + (l + 32)) = q6_value F (le16 (drop (off + 208) D)) (D ! (off + (192 + 8 * n + l div 16 + 2)))
        (q6_code (D ! (off + (64 * n + 32 + l)) AND 0xF) (drop_bit 2 (D ! (off + (128 + 32 * n + l))) AND 3))"
      using ref [of 1] by (simp add: c unat_drop_u8 add.commute [of l])
    show "q6_ref F (drop off D) (n * 128 + (l + 64)) = q6_value F (le16 (drop (off + 208) D)) (D ! (off + (192 + 8 * n + l div 16 + 4)))
        (q6_code (drop_bit 4 (D ! (off + (64 * n + l)))) (drop_bit 4 (D ! (off + (128 + 32 * n + l))) AND 3))"
      using ref [of 2] by (simp add: c' unat_drop_u8 add.commute [of l])
    show "q6_ref F (drop off D) (n * 128 + (l + 96)) = q6_value F (le16 (drop (off + 208) D)) (D ! (off + (192 + 8 * n + l div 16 + 6)))
        (q6_code (drop_bit 4 (D ! (off + (64 * n + 32 + l)))) (drop_bit 6 (D ! (off + (128 + 32 * n + l))) AND 3))"
      using ref [of 3] by (simp add: c' unat_drop_u8 add.commute [of l])
  qed
  show "q6k_stores F img (int d + int off) (int n) y (int l) =
      [(y + int l, Some (q6_ref F (drop off D) (n * 128 + l))), (y + int l + 32, Some (q6_ref F (drop off D) (n * 128 + (l + 32)))),
       (y + int l + 64, Some (q6_ref F (drop off D) (n * 128 + (l + 64)))), (y + int l + 96, Some (q6_ref F (drop off D) (n * 128 + (l + 96))))]"
    unfolding ref4 by (simp only: q6k_stores_def Let_def dh lo hi sc' option.case add_0_right) simp
qed

lemma stores_cong: "stores ws y N g \<Longrightarrow> (\<And>m. m < N \<Longrightarrow> g m = g' m) \<Longrightarrow> stores ws y N g'"
  unfolding stores_def by metis

lemma q6k_row_stores:
  assumes inb: "d + nb \<le> length img" and D: "D = take nb (drop d img)" and o: "off + 210 * kb \<le> nb"
  shows "stores (q6k_row F img (int d + int off) y (int (256 * kb))) y (256 * kb)
    (\<lambda>e. q6_ref F (drop (off + 210 * (e div 256)) D) (e mod 256))"
proof -
  have len: "length D = nb" using inb D by simp
  have block: "stores (for_to 2 (\<lambda>n. for_to 32 (q6k_stores F img (int d + int off + int i * 210) n (y + int i * 256 + n * 128))))
      (y + int i * int 256) 256 (\<lambda>m. q6_ref F (drop (off + 210 * ((i * 256 + m) div 256)) D) ((i * 256 + m) mod 256))" if i: "i < kb" for i
  proof -
    have "210 * i + 210 \<le> 210 * kb" using i by simp
    then have fit: "off + 210 * i + 210 \<le> nb" using o by simp
    have "stores (for_to (int 2) (\<lambda>n. for_to 32 (q6k_stores F img (int d + int off + int i * 210) n (y + int i * 256 + n * 128))))
        (y + int i * int 256) (2 * 128) (q6_ref F (drop (off + 210 * i) D))"
    proof (rule stores_for_to)
      fix n :: nat assume "n < 2"
      from q6_half_stores [OF inb D fit this, of F "y + int i * 256 + int n * 128"]
      show "stores (for_to 32 (q6k_stores F img (int d + int off + int i * 210) (int n) (y + int i * 256 + int n * 128)))
          (y + int i * int 256 + int n * int 128) 128 (\<lambda>m. q6_ref F (drop (off + 210 * i) D) (n * 128 + m))"
        by (simp add: algebra_simps)
    qed
    then have "stores (for_to 2 (\<lambda>n. for_to 32 (q6k_stores F img (int d + int off + int i * 210) n (y + int i * 256 + n * 128))))
        (y + int i * int 256) 256 (q6_ref F (drop (off + 210 * i) D))" by simp
    then show ?thesis by (rule stores_cong) simp
  qed
  have "stores (for_to (int kb) (\<lambda>i. for_to 2 (\<lambda>n. for_to 32 (q6k_stores F img (int d + int off + i * 210) n (y + i * 256 + n * 128)))))
      y (kb * 256) (\<lambda>e. q6_ref F (drop (off + 210 * (e div 256)) D) (e mod 256))"
    by (rule stores_for_to) (rule block)
  then show ?thesis by (simp add: q6k_row_def mult.commute)
qed

lemma q8_row_stores:
  assumes inb: "d + nb \<le> length img" and D: "D = take nb (drop d img)" and o: "off + 34 * kb \<le> nb"
  shows "stores (q8_row F img (int d + int off) y (int kb)) y (32 * kb) (\<lambda>e. q8_ref F (drop (off + 34 * (e div 32)) D) (e mod 32))"
proof -
  have len: "length D = nb" using inb D by simp
  note r = read_inside [OF inb D]
  have block: "stores (for_to 32 (\<lambda>l. [(y + int j * 32 + l, case read_u16 img (int d + int off + int j * 34) of None \<Rightarrow> None | Some dh \<Rightarrow>
         (case read_u8 img (int d + int off + int j * 34 + 2 + l) of None \<Rightarrow> None | Some q \<Rightarrow>
            Some (fo_mul F (fo_of_int F (i8 q)) (vv_half_to_float dh))))]))
      (y + int j * int 32) 32 (\<lambda>m. q8_ref F (drop (off + 34 * ((j * 32 + m) div 32)) D) ((j * 32 + m) mod 32))" if j: "j < kb" for j
  proof -
    have "34 * j + 34 \<le> 34 * kb" using j by simp
    then have fit: "off + 34 * j + 34 \<le> nb" using o by simp
    have dh: "read_u16 img (int d + int off + int j * 34) = Some (le16 (drop (off + 34 * j) D))"
      using r(2) [of "off + 34 * j"] fit by (simp add: algebra_simps)
    have q: "read_u8 img (int d + int off + int j * 34 + 2 + int l) = Some (D ! (off + 34 * j + (2 + l)))" if "l < 32" for l
      using r(1) [of "off + 34 * j + (2 + l)"] fit that by (simp add: algebra_simps)
    have "stores (for_to (int 32) (\<lambda>l. [(y + int j * 32 + l, case read_u16 img (int d + int off + int j * 34) of None \<Rightarrow> None | Some dh \<Rightarrow>
         (case read_u8 img (int d + int off + int j * 34 + 2 + l) of None \<Rightarrow> None | Some q \<Rightarrow>
            Some (fo_mul F (fo_of_int F (i8 q)) (vv_half_to_float dh))))]))
        (y + int j * int 32) (32 * 1) (\<lambda>m. q8_ref F (drop (off + 34 * ((j * 32 + m) div 32)) D) ((j * 32 + m) mod 32))"
    proof (rule stores_for_to)
      fix l :: nat assume l: "l < 32"
      have i: "(j * 32 + (l * 1 + m)) div 32 = j" "(j * 32 + (l * 1 + m)) mod 32 = l" if "m < 1" for m using l that by simp_all
      have ref: "q8_ref F (drop (off + 34 * j) D) l =
          fo_mul F (fo_of_int F (i8 (D ! (off + 34 * j + (2 + l))))) (vv_half_to_float (le16 (drop (off + 34 * j) D)))"
        using fit len l by (simp add: q8_ref_def i8_def add.assoc)
      show "stores [(y + int j * 32 + int l, case read_u16 img (int d + int off + int j * 34) of None \<Rightarrow> None | Some dh \<Rightarrow>
         (case read_u8 img (int d + int off + int j * 34 + 2 + int l) of None \<Rightarrow> None | Some q \<Rightarrow>
            Some (fo_mul F (fo_of_int F (i8 q)) (vv_half_to_float dh))))]
        (y + int j * int 32 + int l * int 1) 1 (\<lambda>m. q8_ref F (drop (off + 34 * ((j * 32 + (l * 1 + m)) div 32)) D) ((j * 32 + (l * 1 + m)) mod 32))"
        unfolding stores_def using i by (simp add: dh q [OF l] ref)
    qed
    then show ?thesis by simp
  qed
  have "stores (q8_row F img (int d + int off) y (int kb)) y (kb * 32) (\<lambda>e. q8_ref F (drop (off + 34 * (e div 32)) D) (e mod 32))"
    unfolding q8_row_def by (rule stores_for_to) (rule block)
  then show ?thesis by (simp add: mult.commute)
qed

lemma i2s_row_stores:
  assumes inb: "d + nb \<le> length img" and D: "D = take nb (drop d img)" and o: "off + 32 * kb \<le> nb"
  shows "stores (i2s_row F img s (int d + int off) y (int (128 * kb))) y (128 * kb) (i2s_ref F s (drop off D))"
proof -
  have len: "length D = nb" using inb D by simp
  note r = read_inside [OF inb D]
  have kb: "int (128 * kb) div 128 = int kb" by simp
  have "stores (i2s_row F img s (int d + int off) y (int (128 * kb))) y (kb * 128) (i2s_ref F s (drop off D))"
    unfolding i2s_row_def Let_def kb
  proof (rule stores_for_to, unfold of_nat_numeral, rule stores_quarters)
    fix i l :: nat assume i: "i < kb" and l: "l < 32"
    have "32 * i + 32 \<le> 32 * kb" using i by simp
    then have fit: "off + 32 * i + l < nb" using o l by simp
    have b: "read_u8 img (int d + int off + int i * 32 + int l) = Some (D ! (off + (i * 32 + l)))"
      using r(1) [of "off + (i * 32 + l)"] fit by (simp add: algebra_simps)
    have at: "drop off D ! x = D ! (off + x)" for x using fit len by simp
    have idx: "(i * 128 + (q * 32 + l)) div 128 = i \<and> (i * 128 + (q * 32 + l)) mod 128 div 32 = q \<and> (i * 128 + (q * 32 + l)) mod 32 = l" if "q < 4" for q
      using quarter_index [OF that l] by blast
    have ref: "i2s_ref F s (drop off D) (i * 128 + (q * 32 + l)) = fo_mul F s (map2bit (drop_bit (6 - 2 * q) (D ! (off + (i * 32 + l))) AND 3))" if "q < 4" for q
      using idx [OF that] by (simp only: i2s_ref_def at)
    show "[(y + int i * 128 + int l, map_option (\<lambda>b. fo_mul F s (map2bit (drop_bit 6 b AND 3))) (read_u8 img (int d + int off + int i * 32 + int l))),
         (y + int i * 128 + int l + 32, map_option (\<lambda>b. fo_mul F s (map2bit (drop_bit 4 b AND 3))) (read_u8 img (int d + int off + int i * 32 + int l))),
         (y + int i * 128 + int l + 64, map_option (\<lambda>b. fo_mul F s (map2bit (drop_bit 2 b AND 3))) (read_u8 img (int d + int off + int i * 32 + int l))),
         (y + int i * 128 + int l + 96, map_option (\<lambda>b. fo_mul F s (map2bit (drop_bit 0 b AND 3))) (read_u8 img (int d + int off + int i * 32 + int l)))] =
        [(y + int i * 128 + int l, Some (i2s_ref F s (drop off D) (i * 128 + l))), (y + int i * 128 + int l + 32, Some (i2s_ref F s (drop off D) (i * 128 + (l + 32)))),
         (y + int i * 128 + int l + 64, Some (i2s_ref F s (drop off D) (i * 128 + (l + 64)))), (y + int i * 128 + int l + 96, Some (i2s_ref F s (drop off D) (i * 128 + (l + 96))))]"
      using ref [of 0] ref [of 1] ref [of 2] ref [of 3] by (simp add: b add.commute [of l])
  qed
  then show ?thesis by (simp add: mult.commute)
qed

subsection \<open>All rows of a tensor\<close>

lemma sdiv_nat: "int a sdiv int b = int (a div b)"
  by (cases "b = 0") (auto simp: signed_divide_int_def sgn_if zdiv_int)

lemma sint_small: "unat (x :: u64) < 2 ^ 63 \<Longrightarrow> sint x = int (unat x)"
proof -
  assume "unat x < 2 ^ 63"
  then have "uint x < 2 ^ 63" by (metis of_nat_less_iff of_nat_numeral of_nat_power uint_nat)
  moreover have "- (2 ^ 63) \<le> uint x" by (rule order_trans [OF _ uint_ge_0]) simp
  ultimately show ?thesis by (simp add: sint_uint signed_take_bit_int_eq_self)
qed

lemma list4: "length xs = 4 \<Longrightarrow> \<exists>a b c d. xs = [a, b, c, d]"
  by (auto simp: numeral_eq_Suc length_Suc_conv)

text \<open>A tensor with bytes: its counts do not wrap.\<close>

lemma tensor_counts:
  assumes pl: "placed g t" and nb: "tn_nbytes t \<noteq> 0" and tr: "traits (tn_type t) = Some tr"
  defines "N \<equiv> prod_list (map unat (tn_ne t))" and "K \<equiv> unat (tn_ne t ! 0)"
  shows "unat (tn_nbytes t) = ggml_size (tn_type t) tr N" and "nelements t = int N" and "sint (tn_ne t ! 0) = int K"
    and "N = N div K * K" and "K mod gt_blck tr = 0" and "N \<le> 2 ^ 62"
proof -
  have b: "tn_nbytes t = vv_ggml_nbytes (tn_type t) (tn_ne t)" and ne: "length (tn_ne t) = 4" "\<forall>x \<in> set (tn_ne t). x \<le> 2 ^ 40"
    using pl tr by (auto simp: placed_def)
  have nb': "vv_ggml_nbytes (tn_type t) (tn_ne t) \<noteq> 0" using nb b by simp
  note e = nbytes_exact [OF tr nb', folded N_def K_def]
  show "unat (tn_nbytes t) = ggml_size (tn_type t) tr N" using e(1) b by simp
  show "K mod gt_blck tr = 0" "N \<le> 2 ^ 62" using e(2,3) by simp_all
  obtain x y z w where x: "tn_ne t = [x, y, z, w]" using list4 [OF ne(1)] by blast
  have N: "N = unat x * unat y * unat z * unat w" by (simp add: N_def x mult.assoc)
  have "vv_gguf_nelements t = of_nat N"
    by (simp add: vv_gguf_nelements_def x N numeral_2_eq_2 numeral_3_eq_3)
  then have u: "unat (vv_gguf_nelements t) = N" using \<open>N \<le> 2 ^ 62\<close> by (simp add: unat_of_nat)
  then show "nelements t = int N" using sint_small [of "vv_gguf_nelements t"] \<open>N \<le> 2 ^ 62\<close> by (simp add: nelements_def)
  have "unat x \<le> 2 ^ 40" using ne(2) x by (simp add: word_le_nat_alt)
  then show "sint (tn_ne t ! 0) = int K" using sint_small [of x] by (simp add: x K_def)
  have "K dvd N" by (simp add: K_def x N mult.assoc)
  then show "N = N div K * K" by simp
qed

lemma stores_plain:
  "(\<And>i. i < n \<Longrightarrow> v (int i) = Some (g i)) \<Longrightarrow> stores (for_to (int n) (\<lambda>i. [(i, v i)])) 0 n g"
  using stores_for_to [of n "\<lambda>i. [(i, v i)]" 0 1 g] by (simp add: stores_def)

lemma stores_rows:
  "(\<And>r. r < n \<Longrightarrow> stores (body (int r)) (int r * int k) k (\<lambda>m. g (r * k + m))) \<Longrightarrow> stores (for_to (int n) body) 0 (n * k) g"
  using stores_for_to [of n body 0 k g] by simp

lemma row_fits: "row0 + n \<le> R \<Longrightarrow> r < n \<Longrightarrow> (row0 + r) * c + c \<le> R * (c :: nat)"
proof -
  assume "row0 + n \<le> R" "r < n"
  then have "Suc (row0 + r) \<le> R" by simp
  then have "Suc (row0 + r) * c \<le> R * c" by (rule mult_right_mono) simp
  then show ?thesis by simp
qed

lemma element_fits: "row0 + n \<le> R \<Longrightarrow> i < n * k \<Longrightarrow> row0 * k + i < R * (k :: nat)"
proof -
  assume "row0 + n \<le> R" "i < n * k"
  then have "row0 * k + i < (row0 + n) * k" by (simp add: distrib_right)
  also have "\<dots> \<le> R * k" using \<open>row0 + n \<le> R\<close> by (rule mult_right_mono) simp
  finally show ?thesis .
qed

text \<open>The seven types, with the size of a tensor of each.\<close>

definition decodable :: "u32 \<Rightarrow> bool" where
  "decodable ty \<longleftrightarrow> ty \<in> {VV_GGML_F32, VV_GGML_F16, VV_GGML_BF16, VV_GGML_Q8_0, VV_GGML_Q6_K, VV_GGML_I8_S, VV_GGML_I2_S}"

lemma decodable_sizes:
  assumes "traits ty = Some tr"
  shows "ty = VV_GGML_F32 \<Longrightarrow> ggml_size ty tr N = N * 4" and "ty = VV_GGML_F16 \<Longrightarrow> ggml_size ty tr N = N * 2"
    and "ty = VV_GGML_BF16 \<Longrightarrow> ggml_size ty tr N = N * 2" and "ty = VV_GGML_Q8_0 \<Longrightarrow> ggml_size ty tr N = N div 32 * 34 \<and> gt_blck tr = 32"
    and "ty = VV_GGML_Q6_K \<Longrightarrow> ggml_size ty tr N = N div 256 * 210 \<and> gt_blck tr = 256" and "ty = VV_GGML_I8_S \<Longrightarrow> ggml_size ty tr N = N + 32"
    and "ty = VV_GGML_I2_S \<Longrightarrow> ggml_size ty tr N = N div 4 + 32"
  using assms by (auto simp: traits_def k_traits_def ggml_size_def)

text \<open>What the loops are about: a tensor in bounds, and rows it has.\<close>

definition rows_of :: "bytes \<Rightarrow> gguf_tensor \<Rightarrow> nat \<Rightarrow> nat \<Rightarrow> nat \<Rightarrow> nat \<Rightarrow> nat \<Rightarrow> nat \<Rightarrow> nat \<Rightarrow> bytes \<Rightarrow> bool" where
  "rows_of img t d nb N K row0 n R D \<longleftrightarrow>
     tn_data t = Some d \<and> d + nb \<le> length img \<and> D = take nb (drop d img) \<and> nelements t = int N \<and> sint (tn_ne t ! 0) = int K \<and>
     N = R * K \<and> R = N div (if K = 0 then 1 else K) \<and> row0 + n \<le> R \<and> N \<le> 2 ^ 62"

lemma rows_ofD:
  assumes "rows_of img t d nb N K row0 n R D"
  shows "tn_data t = Some d" "d + nb \<le> length img" "D = take nb (drop d img)" "nelements t = int N" "sint (tn_ne t ! 0) = int K"
    "N = R * K" "R = N div (if K = 0 then 1 else K)" "row0 + n \<le> R" "N \<le> 2 ^ 62"
  using assms unfolding rows_of_def by blast+

lemma rows_switch:
  assumes w: "rows_of img t d nb N K row0 n R D"
  shows "vv_gguf_dequant_rows_f32 F img (Some t) (int row0) (int n) out = dequant_switch F img t (int d) (int K) (int row0) (int n) out"
proof -
  note o = rows_ofD [OF w]
  have "R \<le> N" unfolding o(7) by (rule div_le_dividend)
  then have le: "row0 + n \<le> 2 ^ 62" using o(8,9) by simp
  have s: "signed_take_bit 63 (int row0 + int n) = int row0 + int n"
    by (rule signed_take_bit_int_eq_self) (use le in auto)
  have "int N sdiv (if int K \<noteq> 0 then int K else 1) = int R"
    unfolding o(7) using sdiv_nat [of N K] sdiv_nat [of N 1] by simp
  then show ?thesis using o(1,4,5,8) s by (simp add: vv_gguf_dequant_rows_f32_def Let_def)
qed

lemma plain_rows:
  assumes w: "rows_of img t d nb N K row0 n R D" and nb: "N * c \<le> nb" and len: "length out = n * K"
    and rd: "\<And>x. x + c \<le> nb \<Longrightarrow> rd (int d + int x) = Some (val (drop x D))"
  shows "put_all (for_to (int n * int K) (\<lambda>i. [(i, rd (int d + int row0 * int K * int c + i * int c))])) out =
    Some (map (\<lambda>i. val (drop (c * (row0 * K + i)) D)) [0..<n * K])"
proof -
  note o = rows_ofD [OF w]
  have "stores (for_to (int (n * K)) (\<lambda>i. [(i, rd (int d + int row0 * int K * int c + i * int c))])) 0 (n * K)
      (\<lambda>i. val (drop (c * (row0 * K + i)) D))"
  proof (rule stores_plain)
    fix i assume "i < n * K"
    from element_fits [OF o(8) this] have "row0 * K + i < N" by (simp only: o(6) [symmetric])
    then have "Suc (row0 * K + i) * c \<le> N * c" by (intro mult_right_mono) auto
    then have "c * (row0 * K + i) + c \<le> nb" using nb by (simp add: algebra_simps)
    from rd [OF this] show "rd (int d + int row0 * int K * int c + int i * int c) = Some (val (drop (c * (row0 * K + i)) D))"
      by (simp add: algebra_simps)
  qed
  from put_all_stores [OF this len] show ?thesis by simp
qed

lemma dequant_plain:
  assumes w: "rows_of img t d nb N K row0 n R D" and len: "length out = n * K"
  shows "tn_type t = VV_GGML_F32 \<Longrightarrow> N * 4 \<le> nb \<Longrightarrow> dequant_switch F img t (int d) (int K) (int row0) (int n) out =
      Some (VV_OK, map (\<lambda>i. le32 (drop (4 * (row0 * K + i)) D)) [0..<n * K])"
    and "tn_type t = VV_GGML_F16 \<Longrightarrow> N * 2 \<le> nb \<Longrightarrow> dequant_switch F img t (int d) (int K) (int row0) (int n) out =
      Some (VV_OK, map (\<lambda>i. vv_half_to_float (le16 (drop (2 * (row0 * K + i)) D))) [0..<n * K])"
    and "tn_type t = VV_GGML_BF16 \<Longrightarrow> N * 2 \<le> nb \<Longrightarrow> dequant_switch F img t (int d) (int K) (int row0) (int n) out =
      Some (VV_OK, map (\<lambda>i. bf16_to_f32 (le16 (drop (2 * (row0 * K + i)) D))) [0..<n * K])"
proof -
  note r = read_inside [OF rows_ofD(2,3) [OF w]]
  note p32 = plain_rows [OF w _ len, where c = 4 and rd = "\<lambda>p. read_u32 img p" and val = le32, unfolded of_nat_numeral]
    and p16 = plain_rows [OF w _ len, where c = 2, unfolded of_nat_numeral]
  show "dequant_switch F img t (int d) (int K) (int row0) (int n) out =
      Some (VV_OK, map (\<lambda>i. le32 (drop (4 * (row0 * K + i)) D)) [0..<n * K])" if "tn_type t = VV_GGML_F32" "N * 4 \<le> nb"
    using p32 [OF that(2) r(3)] that(1) by (simp add: dequant_switch_def)
  show "dequant_switch F img t (int d) (int K) (int row0) (int n) out =
      Some (VV_OK, map (\<lambda>i. vv_half_to_float (le16 (drop (2 * (row0 * K + i)) D))) [0..<n * K])" if "tn_type t = VV_GGML_F16" "N * 2 \<le> nb"
    using p16 [OF that(2), of "\<lambda>p. map_option vv_half_to_float (read_u16 img p)" "\<lambda>b. vv_half_to_float (le16 b)"] r(2) that(1) by (simp add: dequant_switch_def)
  show "dequant_switch F img t (int d) (int K) (int row0) (int n) out =
      Some (VV_OK, map (\<lambda>i. bf16_to_f32 (le16 (drop (2 * (row0 * K + i)) D))) [0..<n * K])" if "tn_type t = VV_GGML_BF16" "N * 2 \<le> nb"
    using p16 [OF that(2), of "\<lambda>p. map_option bf16_to_f32 (read_u16 img p)" "\<lambda>b. bf16_to_f32 (le16 b)"] r(2) that(1) by (simp add: dequant_switch_def)
qed

text \<open>Rows made of whole blocks of \<open>c\<close> elements and \<open>sz\<close> bytes.\<close>

lemma block_element:
  fixes r K c e :: nat
  assumes "K = c * kb" "0 < c"
  shows "(r * K + e) div c = r * kb + e div c" and "(r * K + e) mod c = e mod c"
proof -
  have "r * K + e = c * (r * kb) + e" using assms(1) by (simp add: algebra_simps)
  then show "(r * K + e) div c = r * kb + e div c" "(r * K + e) mod c = e mod c"
    unfolding \<open>r * K + e = c * (r * kb) + e\<close> using assms(2) by simp_all
qed

lemma block_rows:
  assumes w: "rows_of img t d nb N K row0 n R D" and K: "K = c * kb" and c: "0 < c" and nb: "N div c * sz \<le> nb" and len: "length out = n * K"
    and row: "\<And>off y. off + sz * kb \<le> nb \<Longrightarrow> stores (body (int d + int off) y) y (c * kb) (\<lambda>e. val (drop (off + sz * (e div c)) D) (e mod c))"
  shows "put_all (for_to (int n) (\<lambda>r. body (int d + (int row0 + r) * int kb * int sz) (r * int K))) out =
    Some (map (\<lambda>e. val (drop (sz * ((row0 * K + e) div c)) D) ((row0 * K + e) mod c)) [0..<n * K])"
proof (rule put_all_stores [OF stores_rows len])
  fix r assume r: "r < n"
  note o = rows_ofD [OF w]
  have "N div c = R * kb" using o(6) K c by (simp add: mult.left_commute)
  then have nb': "R * (kb * sz) \<le> nb" using nb by (simp add: mult.assoc)
  have "(row0 + r) * (kb * sz) + kb * sz \<le> nb" using row_fits [OF o(8) r, of "kb * sz"] nb' by simp
  then have fit: "(row0 + r) * (kb * sz) + sz * kb \<le> nb" by (simp add: mult.commute)
  have "stores (body (int d + int ((row0 + r) * (kb * sz))) (int r * int K)) (int r * int K) K
      (\<lambda>e. val (drop ((row0 + r) * (kb * sz) + sz * (e div c)) D) (e mod c))"
    unfolding K by (rule row [OF fit, unfolded K])
  moreover have "(row0 + r) * (kb * sz) + sz * (m div c) = sz * ((row0 * K + (r * K + m)) div c)" for m
    using block_element(1) [OF K c, of "row0 + r" m] by (simp add: algebra_simps)
  moreover have "(row0 * K + (r * K + m)) mod c = m mod c" for m
    using block_element(2) [OF K c, of "row0 + r" m] by (simp add: algebra_simps)
  moreover have "int d + (int row0 + int r) * int kb * int sz = int d + int ((row0 + r) * (kb * sz))" by simp
  ultimately show "stores (body (int d + (int row0 + int r) * int kb * int sz) (int r * int K)) (int r * int K) K
      (\<lambda>m. val (drop (sz * ((row0 * K + (r * K + m)) div c)) D) ((row0 * K + (r * K + m)) mod c))"
    by (simp only:)
qed

lemma dequant_blocks:
  assumes w: "rows_of img t d nb N K row0 n R D" and len: "length out = n * K"
  shows "tn_type t = VV_GGML_Q8_0 \<Longrightarrow> K mod 32 = 0 \<Longrightarrow> N div 32 * 34 \<le> nb \<Longrightarrow> dequant_switch F img t (int d) (int K) (int row0) (int n) out =
      Some (VV_OK, map (\<lambda>e. q8_ref F (drop (34 * ((row0 * K + e) div 32)) D) ((row0 * K + e) mod 32)) [0..<n * K])"
    and "tn_type t = VV_GGML_Q6_K \<Longrightarrow> K mod 256 = 0 \<Longrightarrow> N div 256 * 210 \<le> nb \<Longrightarrow> dequant_switch F img t (int d) (int K) (int row0) (int n) out =
      Some (VV_OK, map (\<lambda>e. q6_ref F (drop (210 * ((row0 * K + e) div 256)) D) ((row0 * K + e) mod 256)) [0..<n * K])"
proof -
  note inb = rows_ofD(2,3) [OF w]
  show "dequant_switch F img t (int d) (int K) (int row0) (int n) out =
      Some (VV_OK, map (\<lambda>e. q8_ref F (drop (34 * ((row0 * K + e) div 32)) D) ((row0 * K + e) mod 32)) [0..<n * K])"
    if t: "tn_type t = VV_GGML_Q8_0" "K mod 32 = 0" "N div 32 * 34 \<le> nb"
  proof -
    define kb where "kb = K div 32"
    have K: "K = 32 * kb" using t(2) by (simp add: kb_def minus_mod_eq_mult_div [symmetric])
    then have dk: "int K div 32 = int kb" by simp
    note b = block_rows [OF w K _ t(3) len, where body = "\<lambda>p y. q8_row F img p y (int kb)" and val = "q8_ref F", OF _ q8_row_stores [OF inb]]
    show ?thesis using b t(1) by (simp add: dequant_switch_def dk)
  qed
  show "dequant_switch F img t (int d) (int K) (int row0) (int n) out =
      Some (VV_OK, map (\<lambda>e. q6_ref F (drop (210 * ((row0 * K + e) div 256)) D) ((row0 * K + e) mod 256)) [0..<n * K])"
    if t: "tn_type t = VV_GGML_Q6_K" "K mod 256 = 0" "N div 256 * 210 \<le> nb"
  proof -
    define kb where "kb = K div 256"
    have K: "K = 256 * kb" using t(2) by (simp add: kb_def minus_mod_eq_mult_div [symmetric])
    then have dk: "int K div 256 = int kb" by simp
    note b = block_rows [OF w K _ t(3) len, where body = "\<lambda>p y. q6k_row F img p y (int (256 * kb))" and val = "q6_ref F",
        OF _ q6k_row_stores [OF inb]]
    show ?thesis using b [folded K] t(1) by (simp add: dequant_switch_def dk)
  qed
qed

lemma i2s_ref_row:
  assumes "off = r * (32 * kb)" and "off \<le> length D"
  shows "i2s_ref F s (drop off D) e = i2s_ref F s D (r * (128 * kb) + e)"
proof -
  have K: "128 * kb = 128 * kb" "128 * kb = 32 * (4 * kb)" by simp_all
  have d: "(r * (128 * kb) + e) div 128 = r * kb + e div 128" "(r * (128 * kb) + e) mod 128 = e mod 128"
    using block_element [OF K(1), of r e] by simp_all
  have m: "(r * (128 * kb) + e) mod 32 = e mod 32" using block_element(2) [OF K(2), of r e] by simp
  have "drop off D ! (e div 128 * 32 + e mod 32) = D ! ((r * kb + e div 128) * 32 + e mod 32)"
    using assms by (simp add: algebra_simps)
  then show ?thesis by (simp only: i2s_ref_def d m)
qed

lemma dequant_i2s:
  assumes w: "rows_of img t d nb N K row0 n R D" and len: "length out = n * K"
    and t: "tn_type t = VV_GGML_I2_S" and K: "K mod 128 = 0" and nb: "N div 4 + 32 \<le> nb"
  shows "dequant_switch F img t (int d) (int K) (int row0) (int n) out =
    Some (VV_OK, map (\<lambda>e. i2s_ref F (le32 (drop (N div 4) D)) D (row0 * K + e)) [0..<n * K])"
proof -
  note o = rows_ofD [OF w]
  note inb = o(2,3)
  define kb where "kb = K div 128"
  have Kb: "K = 128 * kb" using K by (simp add: kb_def minus_mod_eq_mult_div [symmetric])
  define s where "s = le32 (drop (N div 4) D)"
  have "read_u32 img (int d + int (N div 4)) = Some s" unfolding s_def by (rule read_inside(3) [OF inb]) (use nb in simp)
  then have view: "vv_gguf_i2s_view img (Some t) = Some (Inr (int d, s))"
    using o(1,4) t sdiv_nat [of N 4] by (simp add: vv_gguf_i2s_view_def)
  have "stores (for_to (int n) (\<lambda>r. i2s_row F img s (int d + (int row0 + r) * (int K div 4)) (r * int K) (int K))) 0 (n * K)
      (\<lambda>e. i2s_ref F s D (row0 * K + e))"
  proof (rule stores_rows)
    fix r assume r: "r < n"
    have "N div 4 = R * (32 * kb)" using o(6) Kb by simp
    then have fit: "(row0 + r) * (32 * kb) + 32 * kb \<le> nb" using row_fits [OF o(8) r, of "32 * kb"] nb by simp
    have "(row0 + r) * (32 * kb) \<le> length D" using fit inb by simp
    note ref = i2s_ref_row [OF refl this]
    have e: "row0 * K + (r * K + m) = (row0 + r) * (128 * kb) + m" for m unfolding Kb by (simp add: algebra_simps)
    have "stores (i2s_row F img s (int d + int ((row0 + r) * (32 * kb))) (int r * int K) (int (128 * kb))) (int r * int K) (128 * kb)
        (i2s_ref F s (drop ((row0 + r) * (32 * kb)) D))"
      by (rule i2s_row_stores [OF inb fit])
    moreover have "int d + (int row0 + int r) * (int K div 4) = int d + int ((row0 + r) * (32 * kb))" using Kb by simp
    ultimately have "stores (i2s_row F img s (int d + (int row0 + int r) * (int K div 4)) (int r * int K) (int K)) (int r * int K) K
        (i2s_ref F s (drop ((row0 + r) * (32 * kb)) D))" using Kb by (simp only:)
    then show "stores (i2s_row F img s (int d + (int row0 + int r) * (int K div 4)) (int r * int K) (int K)) (int r * int K) K
        (\<lambda>m. i2s_ref F s D (row0 * K + (r * K + m)))"
      unfolding e by (rule stores_cong) (rule ref)
  qed
  note put = put_all_stores [OF this len]
  have "\<not> int K mod 128 \<noteq> 0" using Kb by simp
  with put show ?thesis using t view by (simp add: dequant_switch_def s_def)
qed

lemma dequant_i8s:
  assumes w: "rows_of img t d nb N K row0 n R D" and len: "length out = n * K"
    and t: "tn_type t = VV_GGML_I8_S" and nb: "N + 32 \<le> nb"
  shows "dequant_switch F img t (int d) (int K) (int row0) (int n) out =
    Some (VV_OK, map (\<lambda>e. fo_mul F (fo_of_int F (sint (D ! (row0 * K + e)))) (le32 (drop N D))) [0..<n * K])"
proof -
  note o = rows_ofD [OF w]
  note inb = o(2,3)
  have "read_u32 img (int d + int N) = Some (le32 (drop N D))" by (rule read_inside(3) [OF inb]) (use nb in simp)
  then have view: "vv_gguf_i8s_view img (Some t) = Some (Inr (int d, le32 (drop N D)))"
    using o(1,4) t by (simp add: vv_gguf_i8s_view_def)
  have "stores (for_to (int (n * K)) (\<lambda>i. [(i, map_option (\<lambda>c. fo_mul F (fo_of_int F (i8 c)) (le32 (drop N D))) (read_u8 img (int d + int row0 * int K + i)))]))
      0 (n * K) (\<lambda>e. fo_mul F (fo_of_int F (sint (D ! (row0 * K + e)))) (le32 (drop N D)))"
  proof (rule stores_plain)
    fix i assume "i < n * K"
    from element_fits [OF o(8) this] have "row0 * K + i < N" by (simp only: o(6) [symmetric])
    then have "read_u8 img (int d + int (row0 * K + i)) = Some (D ! (row0 * K + i))" by (intro read_inside(1) [OF inb]) (use nb in simp)
    then show "map_option (\<lambda>c. fo_mul F (fo_of_int F (i8 c)) (le32 (drop N D))) (read_u8 img (int d + int row0 * int K + int i)) =
        Some (fo_mul F (fo_of_int F (sint (D ! (row0 * K + i)))) (le32 (drop N D)))"
      by (simp add: i8_def add.assoc)
  qed
  from put_all_stores [OF this len] show ?thesis using t view by (simp add: dequant_switch_def)
qed

lemma dequant_element:
  assumes w: "rows_of img t d nb N K row0 n R D" and len: "length out = n * K" and ty: "decodable (tn_type t)"
    and tr: "traits (tn_type t) = Some tr" and nb: "nb = ggml_size (tn_type t) tr N" and K: "K mod gt_blck tr = 0"
    and i2: "tn_type t = VV_GGML_I2_S \<Longrightarrow> K mod 128 = 0"
  shows "dequant_switch F img t (int d) (int K) (int row0) (int n) out =
    Some (VV_OK, map (element F (tn_type t) N D) [row0 * K..<row0 * K + n * K])"
proof -
  note sz = decodable_sizes [OF tr, of N]
  note p = dequant_plain [OF w len] and b = dequant_blocks [OF w len]
  have sh: "map (element F (tn_type t) N D) [row0 * K..<row0 * K + n * K] = map (\<lambda>e. element F (tn_type t) N D (row0 * K + e)) [0..<n * K]"
    by (rule nth_equalityI) simp_all
  from ty consider "tn_type t = VV_GGML_F32" | "tn_type t = VV_GGML_F16" | "tn_type t = VV_GGML_BF16" | "tn_type t = VV_GGML_Q8_0"
    | "tn_type t = VV_GGML_Q6_K" | "tn_type t = VV_GGML_I8_S" | "tn_type t = VV_GGML_I2_S"
    unfolding decodable_def by blast
  then have "dequant_switch F img t (int d) (int K) (int row0) (int n) out =
      Some (VV_OK, map (\<lambda>e. element F (tn_type t) N D (row0 * K + e)) [0..<n * K])"
  proof cases
    case 1
    then show ?thesis using p(1) [of F] sz(1) nb by (simp add: element_def)
  next
    case 2
    then show ?thesis using p(2) [of F] sz(2) nb by (simp add: element_def)
  next
    case 3
    then show ?thesis using p(3) [of F] sz(3) nb by (simp add: element_def)
  next
    case 4
    then show ?thesis using b(1) [of F] sz(4) nb K by (simp add: element_def)
  next
    case 5
    then show ?thesis using b(2) [of F] sz(5) nb K by (simp add: element_def)
  next
    case 6
    then show ?thesis using dequant_i8s [OF w len 6, of F] sz(6) nb by (simp add: element_def)
  next
    case 7
    then show ?thesis using dequant_i2s [OF w len 7 i2 [OF 7], of F] sz(7) nb by (simp add: element_def)
  qed
  with sh show ?thesis by simp
qed

text \<open>
  C7. Decoding is right and stays inside the file. For a tensor with bytes of a file that opened, of any of the seven types the reader
  decodes, and any rows it has, \<^verbatim>\<open>vv_gguf_dequant_rows_f32\<close> succeeds, no read or write leaves the mapping or the buffer, and
  every value is the one the reference gives for the element: the loops over blocks, halves, quarters and nibbles
  address exactly the bits that belong to it.
\<close>

theorem gguf_dequant_correct:
  assumes own: "owns h M" and small: "length data < 2 ^ 62"
    and op: "vv_gguf_open f2d (Some (Mapped data)) h w = (s, Some g, h', w')"
    and t: "vv_gguf_tensor (Some g) i = Some t" and nz: "tn_nbytes t \<noteq> 0" and ty: "decodable (tn_type t)"
    and i2: "tn_type t = VV_GGML_I2_S \<Longrightarrow> unat (tn_ne t ! 0) mod 128 = 0"
    and rows: "row0 + n \<le> prod_list (map unat (tn_ne t)) div (if tn_ne t ! 0 = 0 then 1 else unat (tn_ne t ! 0))"
    and len: "length out = n * unat (tn_ne t ! 0)"
  shows "\<exists>p. tn_data t = Some p \<and>
    vv_gguf_dequant_rows_f32 F data (Some t) (int row0) (int n) out =
      Some (VV_OK, map (element F (tn_type t) (prod_list (map unat (tn_ne t))) (take (unat (tn_nbytes t)) (drop p data)))
        [row0 * unat (tn_ne t ! 0)..<row0 * unat (tn_ne t ! 0) + n * unat (tn_ne t ! 0)])"
proof -
  let ?N = "prod_list (map unat (tn_ne t))" and ?K = "unat (tn_ne t ! 0)"
  let ?R = "?N div (if ?K = 0 then 1 else ?K)"
  note wf = gguf_open_wf [OF own small op]
  note pl = gguf_tensor_mem [OF conjunct1 [OF wf] t]
  have "traits (tn_type t) \<noteq> None" using ty by (auto simp: decodable_def traits_def k_traits_def)
  then obtain tr where tr: "traits (tn_type t) = Some tr" by blast
  note c = tensor_counts [OF pl nz tr]
  obtain p where p: "tn_data t = Some p" "p + unat (tn_nbytes t) \<le> length data" using pl tr wf by (auto simp: placed_def)
  let ?D = "take (unat (tn_nbytes t)) (drop p data)"
  have K0: "(tn_ne t ! 0 = 0) = (?K = 0)" by (simp add: unat_eq_0)
  have NR: "?N = ?R * ?K" using c(4) by (cases "?K = 0") auto
  have wr: "rows_of data t p (unat (tn_nbytes t)) ?N ?K row0 n ?R ?D"
    unfolding rows_of_def using p c(2,3,6) NR rows unfolding K0 by blast
  have "vv_gguf_dequant_rows_f32 F data (Some t) (int row0) (int n) out =
      Some (VV_OK, map (element F (tn_type t) ?N ?D) [row0 * ?K..<row0 * ?K + n * ?K])"
    unfolding rows_switch [OF wr] by (rule dequant_element [OF wr len ty tr c(1) c(5) i2])
  with p show ?thesis by blast
qed

definition demo_fops :: fops where
  "demo_fops = \<lparr>fo_mul = (*), fo_of_int = of_int\<rparr>"

theorem gguf_dequant_correct_witness:
  "case demo_gguf_open demo_gguf of
     (s, Some g, h', w') \<Rightarrow>
       vv_gguf_dequant_rows_f32 demo_fops demo_gguf (vv_gguf_tensor (Some g) 0) 0 1 [0, 0] = Some (VV_OK, [0x3F800000, 0xC0000000])
   | _ \<Rightarrow> False"
proof -
  let ?t = "\<lparr>tn_name = ArenaPtr 2, tn_n_dims = 1, tn_ne = [2, 1, 1, 1], tn_type = 1, tn_offset = 0, tn_data = Some 128, tn_nbytes = 4\<rparr>"
  obtain g h w where o: "demo_gguf_open demo_gguf = (VV_OK, Some g, h, w)" and t: "gg_n_tensors g = 1" "gg_tensors g = [?t]"
    using demo_gguf_opens by blast
  have own: "owns demo_gguf_heap {#}" by (simp add: owns_def demo_gguf_heap_def)
  have g: "vv_gguf_tensor (Some g) 0 = Some ?t" using t by (simp add: vv_gguf_tensor_def)
  have e: "element demo_fops 1 2 (drop 128 demo_gguf) 0 = 0x3F800000" "element demo_fops 1 2 (drop 128 demo_gguf) (Suc 0) = 0xC0000000"
    by (simp_all add: element_def vv_half_to_float_def le16_def demo_gguf_def)
  from gguf_dequant_correct [OF own _ o [unfolded demo_gguf_open_def] g, of 0 1 "[0, 0]" demo_fops]
  have "vv_gguf_dequant_rows_f32 demo_fops demo_gguf (Some ?t) 0 1 [0, 0] =
      Some (VV_OK, [element demo_fops 1 2 (drop 128 demo_gguf) 0, element demo_fops 1 2 (drop 128 demo_gguf) (Suc 0)])"
    by (simp add: demo_strings decodable_def)
  with o g e show ?thesis by simp
qed

text \<open>
  The exception of the bounds matters. A file of 96 bytes with one ternary tensor of \<open>2 ^ 32\<close> by \<open>2 ^ 32\<close>
  weights opens, because the product of the shape wraps to zero in the size and in the element count; \<^verbatim>\<open>vv_gguf_i2s_view\<close> of that tensor
  then reads its scale beyond the end of the mapping.
\<close>

theorem gguf_wrapped_shape_reads_outside:
  "case demo_gguf_open demo_wrap of
     (s, Some g, h, w) \<Rightarrow> s = VV_OK \<and> vv_gguf_tensor (Some g) 0 \<noteq> None \<and> vv_gguf_i2s_view demo_wrap (vv_gguf_tensor (Some g) 0) = None
   | _ \<Rightarrow> False"
proof -
  obtain g h w where o: "demo_gguf_open demo_wrap = (VV_OK, Some g, h, w)" and t: "gg_n_tensors g = 1"
      "gg_tensors g = [\<lparr>tn_name = ArenaPtr 0, tn_n_dims = 2, tn_ne = [2 ^ 32, 2 ^ 32, 1, 1], tn_type = 36, tn_offset = 0,
        tn_data = Some 96, tn_nbytes = 0\<rparr>]"
    using demo_wrap_opens by blast
  then show ?thesis
    by (simp add: vv_gguf_tensor_def vv_gguf_i2s_view_def nelements_def vv_gguf_nelements_def read_u32_def mem_read_def
        demo_wrap_reads signed_divide_int_def)
qed

end
