(* ===== verification/Http.thy ===== *)
theory Http
  imports WebSocket Heap
begin

text \<open>
  The HTTP server's parsing (\<^verbatim>\<open>src/server/http.c\<close>, \<^verbatim>\<open>vv_http.h\<close>): request heads, header look-up, multipart
  bodies, the error envelope and the WebSocket upgrade. A C string is the list of its bytes without the terminator;
  a pointer into a buffer is an offset, or the suffix of the buffer it points at. The socket is the list of the chunks
  its \<^verbatim>\<open>recv\<close> calls can deliver, so that a theorem over all lists covers every way the network cuts the bytes.
\<close>

unbundle bit_operations_syntax

subsection \<open>Helpers\<close>

text \<open>What a string function sees of a buffer: the bytes before the first NUL.\<close>

definition c_str :: "bytes \<Rightarrow> bytes" where
  "c_str bs = takeWhile (\<lambda>c. c \<noteq> 0) bs"

definition lower8 :: "u8 \<Rightarrow> u8" where
  "lower8 c = (if 65 \<le> c \<and> c \<le> 90 then c + 32 else c)"

text \<open>\<^verbatim>\<open>ci_equal\<close> on two places that have \<open>n\<close> bytes; its callers check that they do.\<close>

fun ci_equal :: "bytes \<Rightarrow> bytes \<Rightarrow> nat \<Rightarrow> bool" where
  "ci_equal (a # as) (b # bs) (Suc n) =
     (let ca = lower8 a; cb = lower8 b in
      if ca \<noteq> cb then False else if ca = 0 then True else ci_equal as bs n)"
| "ci_equal _ _ n = (n = 0)"

definition mem_find :: "bytes \<Rightarrow> bytes \<Rightarrow> nat option" where
  "mem_find hay needle =
     (if length needle = 0 \<or> length hay < length needle then None
      else find (\<lambda>i. take (length needle) (drop i hay) = needle) [0..<length hay - length needle + 1])"

record http_req =
  rq_method :: bytes
  rq_path :: bytes
  rq_query :: bytes
  rq_headers :: "(bytes \<times> bytes) list"
  rq_body :: bytes

definition VV_HTTP_MAX_HEADERS :: nat where "VV_HTTP_MAX_HEADERS = 48"

definition VV_HTTP_MAX_PARTS :: nat where "VV_HTTP_MAX_PARTS = 16"

definition vv_http_header :: "http_req \<Rightarrow> bytes \<Rightarrow> bytes option" where
  "vv_http_header r name =
     map_option snd (find (\<lambda>h. length (fst h) = length name \<and> ci_equal (fst h) name (length name)) (rq_headers r))"

subsection \<open>Multipart bodies\<close>

text \<open>A part's \<^verbatim>\<open>data\<close> is its offset in the body.\<close>

record http_part =
  pt_name :: bytes
  pt_filename :: bytes
  pt_data :: nat
  pt_size :: nat

definition multipart_boundary :: "bytes option \<Rightarrow> bytes option" where
  "multipart_boundary content_type =
     (case content_type of
        None \<Rightarrow> None
      | Some ct \<Rightarrow>
          (case mem_find ct (ascii ''boundary='') of
             None \<Rightarrow> None
           | Some i \<Rightarrow>
               let r = drop (i + length ''boundary='') ct;
                   b = (case r of
                          c # r' \<Rightarrow>
                            if c = 34 then take 255 (takeWhile (\<lambda>c. c \<noteq> 34) r')
                            else take 255 (takeWhile (\<lambda>c. c \<noteq> 59 \<and> c \<noteq> 32 \<and> c \<noteq> 13) r)
                        | [] \<Rightarrow> [])
               in if b = [] then None else Some b))"

text \<open>\<^verbatim>\<open>key\<close> and the text up to the next quote, of which \<open>cap\<close> bytes fit.\<close>

definition quoted_after :: "bytes \<Rightarrow> bytes \<Rightarrow> nat \<Rightarrow> bytes" where
  "quoted_after hdr key cap =
     (case mem_find hdr key of
        None \<Rightarrow> []
      | Some i \<Rightarrow> take cap (takeWhile (\<lambda>c. c \<noteq> 34) (drop (i + length key) hdr)))"

text \<open>The two bytes at \<open>p\<close>, when the body has them.\<close>

definition two_at :: "bytes \<Rightarrow> nat \<Rightarrow> u8 \<Rightarrow> u8 \<Rightarrow> bool" where
  "two_at body p a b \<longleftrightarrow> p + 2 \<le> length body \<and> body ! p = a \<and> body ! (p + 1) = b"

text \<open>Where the data ends: before the next boundary and the line break in front of it.\<close>

definition part_end :: "bytes \<Rightarrow> nat \<Rightarrow> nat option \<Rightarrow> nat" where
  "part_end body data nxt =
     (let e = (case nxt of Some i \<Rightarrow> i | None \<Rightarrow> length body) in
      if e - data \<ge> 2 \<and> body ! (e - 2) = 13 \<and> body ! (e - 1) = 10 then e - 2 else e)"

text \<open>The part whose header starts at \<open>p\<close>, and the next boundary; \<open>None\<close> where the loop breaks.\<close>

definition multipart_part :: "bytes \<Rightarrow> bytes \<Rightarrow> nat \<Rightarrow> (http_part \<times> nat option) option" where
  "multipart_part body sep p =
     (case mem_find (drop p body) [13, 10, 13, 10] of
        None \<Rightarrow> None
      | Some hlen \<Rightarrow>
          let hdr = take hlen (drop p body);
              data = p + hlen + 4;
              nxt = map_option (\<lambda>i. data + i) (mem_find (drop data body) sep)
          in Some (\<lparr>pt_name = quoted_after hdr (ascii ''name='' @ [34]) 127,
                    pt_filename = quoted_after hdr (ascii ''filename='' @ [34]) 255,
                    pt_data = data, pt_size = part_end body data nxt - data\<rparr>, nxt))"

text \<open>One turn of the loop, at the boundary \<open>p\<close>.\<close>

definition multipart_turn :: "bytes \<Rightarrow> bytes \<Rightarrow> nat \<Rightarrow> (http_part \<times> nat option) option" where
  "multipart_turn body sep p =
     (let p = p + length sep in
      if two_at body p 45 45 then None
      else multipart_part body sep (if two_at body p 13 10 then p + 2 else p))"

text \<open>The loop, for the \<open>k\<close> places left in \<^verbatim>\<open>parts\<close>.\<close>

primrec multipart_loop :: "nat \<Rightarrow> bytes \<Rightarrow> bytes \<Rightarrow> nat option \<Rightarrow> http_part list" where
  "multipart_loop 0 body sep p = []"
| "multipart_loop (Suc k) body sep p =
     (case p of
        None \<Rightarrow> []
      | Some p \<Rightarrow>
          (case multipart_turn body sep p of
             None \<Rightarrow> []
           | Some (part, nxt) \<Rightarrow> part # multipart_loop k body sep nxt))"

definition vv_http_parse_multipart :: "bytes \<Rightarrow> bytes option \<Rightarrow> nat \<Rightarrow> http_part list" where
  "vv_http_parse_multipart body content_type max_parts =
     (case multipart_boundary content_type of
        None \<Rightarrow> []
      | Some boundary \<Rightarrow>
          let sep = [45, 45] @ boundary in multipart_loop max_parts body sep (mem_find body sep))"

definition vv_http_part :: "http_part list \<Rightarrow> bytes \<Rightarrow> http_part option" where
  "vv_http_part parts name = find (\<lambda>p. c_str (pt_name p) = name) parts"

subsection \<open>Responses\<close>

definition http_reason :: "int \<Rightarrow> bytes" where
  "http_reason status =
     ascii (case map_of [(200, ''OK''), (400, ''Bad Request''), (401, ''Unauthorized''), (404, ''Not Found''),
                        (405, ''Method Not Allowed''), (413, ''Payload Too Large''), (415, ''Unsupported Media Type''),
                        (500, ''Internal Server Error''), (503, ''Service Unavailable'')] status of
              Some r \<Rightarrow> r | None \<Rightarrow> ''OK'')"

text \<open>\<^verbatim>\<open>%d\<close> and \<^verbatim>\<open>%zu\<close>.\<close>

fun dec_nat :: "nat \<Rightarrow> bytes" where
  "dec_nat n = (if n < 10 then [48 + of_nat n] else dec_nat (n div 10) @ [48 + of_nat (n mod 10)])"

declare dec_nat.simps [simp del]

definition dec_int :: "int \<Rightarrow> bytes" where
  "dec_int n = (if n < 0 then 45 # dec_nat (nat (- n)) else dec_nat (nat n))"

text \<open>A place of \<open>cap\<close> bytes, filled by \<^verbatim>\<open>snprintf\<close>: the string it holds.\<close>

definition snprintf_to :: "nat \<Rightarrow> bytes \<Rightarrow> bytes" where
  "snprintf_to cap s = take (cap - 1) s"

definition crlf :: bytes where "crlf = [13, 10]"

text \<open>
  What \<^verbatim>\<open>snprintf\<close> would write as the head, its length being what \<^verbatim>\<open>send_all\<close> is told to send: \<open>None\<close> when it is
  longer than the 512 bytes of \<^verbatim>\<open>head\<close>, and bytes past the array are sent.
\<close>

definition vv_http_respond :: "int \<Rightarrow> bytes \<Rightarrow> bytes \<Rightarrow> bytes option" where
  "vv_http_respond status content_type body =
     (let head = ascii ''HTTP/1.1 '' @ dec_int status @ [32] @ http_reason status @ crlf @
            ascii ''Content-Type: '' @ content_type @ crlf @
            ascii ''Content-Length: '' @ dec_nat (length body) @ crlf @
            ascii ''Access-Control-Allow-Origin: *'' @ crlf @
            ascii ''Access-Control-Allow-Headers: *'' @ crlf @
            ascii ''Access-Control-Allow-Methods: GET, POST, OPTIONS'' @ crlf @
            ascii ''Connection: close'' @ crlf @ crlf
      in if length head \<le> 512 then Some (head @ body) else None)"

definition vv_http_respond_json :: "int \<Rightarrow> bytes \<Rightarrow> bytes option" where
  "vv_http_respond_json status json = vv_http_respond status (ascii ''application/json'') json"

definition hex_digit :: "u8 \<Rightarrow> u8" where
  "hex_digit d = (if d < 10 then 48 + d else 87 + d)"

definition json_piece :: "u8 \<Rightarrow> bytes" where
  "json_piece c =
     (if c = 34 then [92, 34]
      else if c = 92 then [92, 92]
      else if c < 0x20 then [92, 117, 48, 48, hex_digit (drop_bit 4 c), hex_digit (c AND 15)]
      else [c])"

text \<open>The loop of \<^verbatim>\<open>json_escape_into\<close>, with \<open>out\<close> written so far.\<close>

fun json_escape_loop :: "nat \<Rightarrow> bytes \<Rightarrow> bytes \<Rightarrow> bytes" where
  "json_escape_loop cap out (c # cs) =
     (let piece = json_piece c in
      if length out + length piece + 1 > cap then out else json_escape_loop cap (out @ piece) cs)"
| "json_escape_loop cap out [] = out"

definition json_escape_into :: "nat \<Rightarrow> bytes option \<Rightarrow> bytes" where
  "json_escape_into cap s = json_escape_loop cap [] (case s of None \<Rightarrow> [] | Some s \<Rightarrow> s)"

text \<open>The envelope as printed, before the 1024 bytes of \<^verbatim>\<open>buf\<close> cut it, and what is sent.\<close>

definition error_envelope :: "int \<Rightarrow> bytes option \<Rightarrow> bytes option \<Rightarrow> bytes" where
  "error_envelope status kind message =
     ascii ''{'' @ [34] @ ascii ''error'' @ [34] @ ascii '':{'' @ [34] @ ascii ''message'' @ [34, 58, 34] @
     json_escape_into 512 message @ [34, 44, 34] @ ascii ''type'' @ [34, 58, 34] @ json_escape_into 64 kind @
     [34, 44, 34] @ ascii ''code'' @ [34, 58] @ dec_int status @ ascii ''}}''"

definition vv_http_error :: "int \<Rightarrow> bytes option \<Rightarrow> bytes option \<Rightarrow> bytes option" where
  "vv_http_error status kind message =
     vv_http_respond_json status (snprintf_to 1024 (error_envelope status kind message))"

subsection \<open>Request heads\<close>

definition is_blank :: "u8 \<Rightarrow> bool" where
  "is_blank c \<longleftrightarrow> c = 32 \<or> c = 9"

text \<open>The digits of a length, with the test of the running value: \<open>None\<close> is the overflow.\<close>

fun digits_value :: "u64 \<Rightarrow> bytes \<Rightarrow> (u64 \<times> bytes) option" where
  "digits_value v (c # cs) =
     (if 48 \<le> c \<and> c \<le> 57 then
        if v > (- 1 - 9) div 10 then None else digits_value (v * 10 + ucast (c - 48)) cs
      else Some (v, c # cs))"
| "digits_value v [] = Some (v, [])"

text \<open>One header line: \<open>None\<close> refuses the head, otherwise the length seen so far.\<close>

definition content_length_line :: "bytes \<Rightarrow> u64 option \<Rightarrow> u64 option option" where
  "content_length_line line seen =
     (let n = length line in
      if n \<ge> 17 \<and> ci_equal line (ascii ''transfer-encoding'') 17 then None
      else if n \<ge> 15 \<and> ci_equal line (ascii ''content-length:'') 15 then
        let v = dropWhile is_blank (drop 15 line) in
        (case digits_value 0 v of
           None \<Rightarrow> None
         | Some (value, d) \<Rightarrow>
             if d = v then None
             else if dropWhile (\<lambda>c. is_blank c \<or> c = 13) d \<noteq> [] then None
             else if seen \<noteq> None \<and> seen \<noteq> Some value then None
             else Some (Some value))
      else Some seen)"

text \<open>The lines after the first: \<open>rest\<close> is what follows a newline.\<close>

function content_length_lines :: "bytes \<Rightarrow> u64 option \<Rightarrow> u64 option option" where
  "content_length_lines rest seen =
     (if rest = [] then Some seen
      else
        (case content_length_line (takeWhile (\<lambda>c. c \<noteq> 10) rest) seen of
           None \<Rightarrow> None
         | Some seen \<Rightarrow>
             (case dropWhile (\<lambda>c. c \<noteq> 10) rest of
                [] \<Rightarrow> Some seen
              | nl # rest \<Rightarrow> content_length_lines rest seen)))"
  by auto
termination
proof (relation "measure (\<lambda>(rest, seen). length rest)", goal_cases)
  case 1
  show ?case by simp
next
  case (2 rest seen s nl r)
  have "length (dropWhile (\<lambda>c. c \<noteq> 10) rest) \<le> length rest" by (rule length_dropWhile_le)
  then show ?case using 2(3) by simp
qed

declare content_length_lines.simps [simp del]

text \<open>\<open>None\<close> is -1; otherwise the length and whether one was seen.\<close>

definition head_content_length :: "bytes \<Rightarrow> (u64 \<times> bool) option" where
  "head_content_length head =
     (case dropWhile (\<lambda>c. c \<noteq> 10) head of
        [] \<Rightarrow> Some (0, False)
      | nl # rest \<Rightarrow>
          (case content_length_lines rest None of
             None \<Rightarrow> None
           | Some None \<Rightarrow> Some (0, False)
           | Some (Some w) \<Rightarrow> Some (w, True)))"

text \<open>
  The reading loop. A chunk of the stream is the bytes one \<^verbatim>\<open>recv\<close> has at hand and whether the deadline has passed
  when it returns; what the buffer has no room for stays for the next \<^verbatim>\<open>recv\<close>; the end of the list, or an empty chunk,
  is a \<^verbatim>\<open>recv\<close> that returns 0 or an error. \<open>rd_head_end\<close> is 0 until the blank line is found. \<^verbatim>\<open>max_body\<close> is below a
  gigabyte, so that the casts to \<^verbatim>\<open>int\<close> and the sums of the code do not wrap.
\<close>

record reader =
  rd_ptr :: nat
  rd_cap :: nat
  rd_buf :: bytes
  rd_head_end :: nat
  rd_want :: u64

definition read_room :: "nat \<Rightarrow> reader \<Rightarrow> heap \<Rightarrow> reader option \<times> heap" where
  "read_room max_body r h =
     (if length (rd_buf r) = rd_cap r then
        if rd_cap r \<ge> max_body + 2 ^ 20 then (None, vv_free (Some (rd_ptr r)) h)
        else
          let ncap = rd_cap r * 2 in
          (case vv_alloc (of_nat ncap + 1) h of
             (None, h) \<Rightarrow> (None, vv_free (Some (rd_ptr r)) h)
           | (Some nb, h) \<Rightarrow> (Some (r\<lparr>rd_ptr := nb, rd_cap := ncap\<rparr>), vv_free (Some (rd_ptr r)) h))
      else (Some r, h))"

definition read_bytes :: "nat \<Rightarrow> bytes \<Rightarrow> bool \<Rightarrow> reader \<Rightarrow> heap \<Rightarrow> reader option \<times> heap" where
  "read_bytes max_body got late r h =
     (let buf = rd_buf r @ got; r = r\<lparr>rd_buf := buf\<rparr> in
      if rd_head_end r \<noteq> 0 then (Some r, h)
      else
        (case mem_find buf [13, 10, 13, 10] of
           Some e \<Rightarrow>
             (case head_content_length (take (e + 4) buf) of
                None \<Rightarrow> (None, vv_free (Some (rd_ptr r)) h)
              | Some (want, seen) \<Rightarrow>
                  if unat want > max_body then (None, vv_free (Some (rd_ptr r)) h)
                  else (Some (r\<lparr>rd_head_end := e + 4, rd_want := want\<rparr>), h))
         | None \<Rightarrow>
             if late \<or> length buf > 64 * 1024 then (None, vv_free (Some (rd_ptr r)) h) else (Some r, h)))"

type_synonym chunks = "(bytes \<times> bool) list"

text \<open>What one turn leaves: freed and refused, out of the loop, or the next turn.\<close>

datatype read_turn = ReadFail heap | ReadBreak reader heap | ReadNext chunks reader heap

definition read_turn :: "nat \<Rightarrow> chunks \<Rightarrow> reader \<Rightarrow> heap \<Rightarrow> read_turn" where
  "read_turn max_body chunks r h =
     (case read_room max_body r h of
        (None, h) \<Rightarrow> ReadFail h
      | (Some r, h) \<Rightarrow>
          (case chunks of
             [] \<Rightarrow> ReadBreak r h
           | (bs, late) # rest \<Rightarrow>
               let n = rd_cap r - length (rd_buf r); got = take n bs;
                   left = (if length bs \<le> n then rest else (drop n bs, late) # rest)
               in if got = [] then ReadBreak r h
                  else
                    (case read_bytes max_body got late r h of
                       (None, h) \<Rightarrow> ReadFail h
                     | (Some r, h) \<Rightarrow>
                         if rd_head_end r \<noteq> 0 \<and> length (rd_buf r) \<ge> rd_head_end r + unat (rd_want r)
                         then ReadBreak r h
                         else ReadNext left r h)))"

lemma read_turn_less:
  assumes "read_turn max_body chunks r h = ReadNext left r' h'"
  shows "sum_list (map (length \<circ> fst) left) < sum_list (map (length \<circ> fst) chunks)"
proof -
  obtain r1 h1 where room: "read_room max_body r h = (Some r1, h1)"
    using assms by (auto simp: read_turn_def split: option.splits prod.splits)
  obtain bs late rest where c: "chunks = (bs, late) # rest"
    using assms room by (cases chunks) (auto simp: read_turn_def)
  let ?n = "rd_cap r1 - length (rd_buf r1)"
  have "left = (if length bs \<le> ?n then rest else (drop ?n bs, late) # rest) \<and> take ?n bs \<noteq> []"
    using assms by (simp add: read_turn_def room c Let_def split: option.splits prod.splits if_splits)
  then show ?thesis by (auto simp: c)
qed

function read_loop :: "nat \<Rightarrow> chunks \<Rightarrow> reader \<Rightarrow> heap \<Rightarrow> reader option \<times> heap" where
  "read_loop max_body chunks r h =
     (case read_turn max_body chunks r h of
        ReadFail h \<Rightarrow> (None, h)
      | ReadBreak r h \<Rightarrow> (Some r, h)
      | ReadNext chunks r h \<Rightarrow> read_loop max_body chunks r h)"
  by auto
termination
proof (relation "measure (\<lambda>(m, chunks, r, h). sum_list (map (length \<circ> fst) chunks))", goal_cases)
  case 1
  show ?case by simp
next
  case 2
  from read_turn_less [OF 2] show ?case by simp
qed

declare read_loop.simps [simp del]

text \<open>The header lines: \<open>rest\<close> follows a newline, \<open>k\<close> places are left.\<close>

definition strip_right :: "bytes \<Rightarrow> bytes" where
  "strip_right s = rev (dropWhile (\<lambda>c. is_blank c \<or> c = 13) (rev s))"

primrec header_lines :: "nat \<Rightarrow> bytes \<Rightarrow> (bytes \<times> bytes) list" where
  "header_lines 0 rest = []"
| "header_lines (Suc k) rest =
     (let line = takeWhile (\<lambda>c. c \<noteq> 10) rest in
      if rest = [] \<or> hd rest = 13 \<or> hd rest = 10 then []
      else if 58 \<notin> set line then []
      else
        (snprintf_to 64 (takeWhile (\<lambda>c. c \<noteq> 58) line),
         snprintf_to 512 (strip_right (dropWhile is_blank (tl (dropWhile (\<lambda>c. c \<noteq> 58) line)))))
        # (case dropWhile (\<lambda>c. c \<noteq> 10) rest of [] \<Rightarrow> [] | nl # rest \<Rightarrow> header_lines k rest))"

text \<open>The head, its blank line ended by a NUL, and the body.\<close>

definition parse_request :: "bytes \<Rightarrow> nat \<Rightarrow> http_req option" where
  "parse_request buf head_end =
     (let head = take (head_end - 2) buf @ [0, 10] in
      case dropWhile (\<lambda>c. c \<noteq> 32) head of
        [] \<Rightarrow> None
      | sp1 # r1 \<Rightarrow>
          (case dropWhile (\<lambda>c. c \<noteq> 32) r1 of
             [] \<Rightarrow> None
           | sp2 # r2 \<Rightarrow>
               let target = snprintf_to 512 (c_str (takeWhile (\<lambda>c. c \<noteq> 32) r1)) in
               Some \<lparr>rq_method = snprintf_to 8 (c_str (takeWhile (\<lambda>c. c \<noteq> 32) head)),
                     rq_path = takeWhile (\<lambda>c. c \<noteq> 63) target,
                     rq_query = (case dropWhile (\<lambda>c. c \<noteq> 63) target of [] \<Rightarrow> [] | q # query \<Rightarrow> snprintf_to 512 query),
                     rq_headers = (case dropWhile (\<lambda>c. c \<noteq> 10) (c_str r2) of
                                     [] \<Rightarrow> [] | nl # rest \<Rightarrow> header_lines VV_HTTP_MAX_HEADERS rest),
                     rq_body = drop head_end buf\<rparr>))"

definition reader_start :: "nat \<Rightarrow> reader" where
  "reader_start ptr = \<lparr>rd_ptr = ptr, rd_cap = 64 * 1024, rd_buf = [], rd_head_end = 0, rd_want = 0\<rparr>"

text \<open>The request, and the buffer that holds its body.\<close>

definition read_request :: "nat \<Rightarrow> chunks \<Rightarrow> heap \<Rightarrow> (http_req \<times> nat) option \<times> heap" where
  "read_request max_body chunks h =
     (case vv_alloc (64 * 1024 + 1) h of
        (None, h) \<Rightarrow> (None, h)
      | (Some ptr, h) \<Rightarrow>
          (case read_loop max_body chunks (reader_start ptr) h of
             (None, h) \<Rightarrow> (None, h)
           | (Some r, h) \<Rightarrow>
               if rd_head_end r = 0 then (None, vv_free (Some (rd_ptr r)) h)
               else
                 (case parse_request (rd_buf r) (rd_head_end r) of
                    None \<Rightarrow> (None, vv_free (Some (rd_ptr r)) h)
                  | Some req \<Rightarrow> (Some (req, rd_ptr r), h))))"

subsection \<open>The WebSocket upgrade\<close>

text \<open>One entry of the list is up to the next comma; \<open>ci_equal\<close> is asked on what remains of the string.\<close>

definition strip_spaces_right :: "bytes \<Rightarrow> bytes" where
  "strip_spaces_right s = rev (dropWhile (\<lambda>c. c = 32) (rev s))"

lemma token_rest_less:
  fixes value' :: bytes
  assumes "value' \<noteq> []"
  shows "length (dropWhile (\<lambda>c. c \<noteq> 44) (dropWhile (\<lambda>c. c = 32 \<or> c = 44) value')) < length value'"
proof (cases value')
  case (Cons c cs)
  have 1: "length (dropWhile P xs) \<le> length xs" for P and xs :: bytes by (rule length_dropWhile_le)
  show ?thesis
  proof (cases "c = 32 \<or> c = 44")
    case True
    then have "dropWhile (\<lambda>c. c = 32 \<or> c = 44) value' = dropWhile (\<lambda>c. c = 32 \<or> c = 44) cs" by (simp add: Cons)
    then show ?thesis using 1 [of "\<lambda>c. c \<noteq> 44" "dropWhile (\<lambda>c. c = 32 \<or> c = 44) cs"] 1 [of "\<lambda>c. c = 32 \<or> c = 44" cs] Cons by simp
  next
    case False
    then have "dropWhile (\<lambda>c. c \<noteq> 44) (dropWhile (\<lambda>c. c = 32 \<or> c = 44) value') = dropWhile (\<lambda>c. c \<noteq> 44) cs" by (simp add: Cons)
    then show ?thesis using 1 [of "\<lambda>c. c \<noteq> 44" cs] Cons by simp
  qed
qed (use assms in simp)

function header_has_token :: "bytes \<Rightarrow> bytes \<Rightarrow> bool" where
  "header_has_token value' token =
     (if value' = [] then False
      else
        let p = dropWhile (\<lambda>c. c = 32 \<or> c = 44) value';
            t = strip_spaces_right (takeWhile (\<lambda>c. c \<noteq> 44) p)
        in if length t = length token \<and> ci_equal p token (length token) then True
           else header_has_token (dropWhile (\<lambda>c. c \<noteq> 44) p) token)"
  by pat_completeness auto
termination by (relation "measure (\<lambda>(v, t). length v)") (simp_all add: token_rest_less)

declare header_has_token.simps [simp del]

definition of_bytes :: "bytes \<Rightarrow> string" where
  "of_bytes bs = map (\<lambda>b. char_of (unat b)) bs"

text \<open>Whether the connection is upgraded, and the bytes sent; \<open>sent\<close> is \<^verbatim>\<open>res->sent\<close>.\<close>

definition vv_http_ws_accept :: "http_req \<Rightarrow> bool \<Rightarrow> bool \<times> bytes option" where
  "vv_http_ws_accept req sent =
     (let up = vv_http_header req (ascii ''Upgrade''); conn = vv_http_header req (ascii ''Connection'');
          ver = vv_http_header req (ascii ''Sec-WebSocket-Version''); key = vv_http_header req (ascii ''Sec-WebSocket-Key'');
          refuse = (False, vv_http_error 400 (Some (ascii ''invalid_request_error''))
                             (Some (ascii ''expected a WebSocket upgrade (version 13)'')))
      in if sent then (False, None)
         else if rq_method req \<noteq> ascii ''GET'' then refuse
         else
           (case (up, conn, ver) of
              (Some up, Some conn, Some ver) \<Rightarrow>
                if \<not> header_has_token up (ascii ''websocket'') \<or> \<not> header_has_token conn (ascii ''upgrade'') \<or>
                   ver \<noteq> ascii ''13'' then refuse
                else
                  (case vv_ws_accept_key (map_option of_bytes key) of
                     None \<Rightarrow> refuse
                   | Some accept \<Rightarrow>
                       (True, Some (ascii ''HTTP/1.1 101 Switching Protocols'' @ crlf @ ascii ''Upgrade: websocket'' @ crlf @
                          ascii ''Connection: Upgrade'' @ crlf @ ascii ''Sec-WebSocket-Accept: '' @ ascii accept @ crlf @ crlf)))
            | _ \<Rightarrow> refuse))"

end
