(* ===== verification/HttpSafe.thy ===== *)
theory HttpSafe
  imports Http
begin

text \<open>
  What the HTTP parsing guarantees: the reader's buffer and memory, the round trip of a request head over every way
  the network cuts it, multipart bodies and the error envelope.
\<close>

unbundle bit_operations_syntax

subsection \<open>Searching\<close>

lemma find_map: "find P (map f xs) = map_option f (find (P \<circ> f) xs)"
  by (induction xs) simp_all

lemma mem_find_Nil [simp]: "needle \<noteq> [] \<Longrightarrow> mem_find [] needle = None"
  by (simp add: mem_find_def)

lemma mem_find_Cons:
  assumes "needle \<noteq> []"
  shows "mem_find (c # hay) needle =
    (if take (length needle) (c # hay) = needle then Some 0 else map_option Suc (mem_find hay needle))"
proof (cases "length (c # hay) < length needle")
  case True
  then have "length (take (length needle) (c # hay)) \<noteq> length needle" by simp
  then have "take (length needle) (c # hay) \<noteq> needle" by metis
  then show ?thesis using True by (simp add: mem_find_def)
next
  case False
  show ?thesis
  proof (cases "length needle = Suc (length hay)")
    case True
    then show ?thesis using assms by (simp add: mem_find_def)
  next
    case neq: False
    let ?m = "length hay - length needle + 1"
    have le: "length needle \<le> length hay" using False neq by simp
    have m: "length (c # hay) - length needle + 1 = Suc ?m" using le by simp
    have "[0..<Suc ?m] = 0 # map Suc [0..<?m]" by (simp add: map_Suc_upt upt_conv_Cons del: upt_Suc)
    then show ?thesis
      using assms False le unfolding mem_find_def m by (simp add: find_map comp_def del: upt_Suc) 
  qed
qed

lemma mem_find_Some:
  assumes "needle \<noteq> []"
  shows "mem_find hay needle = Some i \<longleftrightarrow>
    i + length needle \<le> length hay \<and> take (length needle) (drop i hay) = needle \<and>
    (\<forall>j<i. take (length needle) (drop j hay) \<noteq> needle)"
proof (induction hay arbitrary: i)
  case Nil
  then show ?case using assms by simp
next
  case (Cons c hay)
  show ?case
  proof (cases i)
    case 0
    have "length needle \<le> length (c # hay)" if "take (length needle) (c # hay) = needle"
      using arg_cong [OF that, of length] by simp
    then show ?thesis by (auto simp: mem_find_Cons [OF assms] 0)
  next
    case (Suc k)
    show ?thesis unfolding Suc by (auto simp: mem_find_Cons [OF assms] Cons.IH less_Suc_eq_0_disj)
  qed
qed

lemma mem_find_None:
  assumes "needle \<noteq> []"
  shows "mem_find hay needle = None \<longleftrightarrow> (\<forall>i. take (length needle) (drop i hay) \<noteq> needle)"
proof (induction hay)
  case Nil
  then show ?case using assms by simp
next
  case (Cons c hay)
  have "(\<forall>i. P i) \<longleftrightarrow> P 0 \<and> (\<forall>i. P (Suc i))" for P by (metis not0_implies_Suc)
  from this [of "\<lambda>i. take (length needle) (drop i (c # hay)) \<noteq> needle"]
  show ?case by (simp add: mem_find_Cons [OF assms] Cons.IH)
qed

lemma mem_find_le: "needle \<noteq> [] \<Longrightarrow> mem_find hay needle = Some i \<Longrightarrow> i + length needle \<le> length hay"
  by (simp add: mem_find_Some)

text \<open>A text without the needle's first byte is skipped.\<close>

lemma mem_find_skip:
  "hd needle \<notin> set u \<Longrightarrow> needle \<noteq> [] \<Longrightarrow> mem_find (u @ hay) needle = map_option (\<lambda>i. length u + i) (mem_find hay needle)"
proof (induction u)
  case Nil
  show ?case by (cases "mem_find hay needle") simp_all
next
  case (Cons c u)
  then obtain d needle' where n: "needle = d # needle'" and d: "d \<noteq> c" by (cases needle) auto
  show ?case using Cons d by (cases "mem_find hay needle") (simp_all add: mem_find_Cons n)
qed

text \<open>A first occurrence stays the first when more bytes arrive.\<close>

lemma mem_find_append:
  assumes "needle \<noteq> []" "mem_find hay needle = Some i"
  shows "mem_find (hay @ rest) needle = Some i"
proof -
  have i: "i + length needle \<le> length hay" "take (length needle) (drop i hay) = needle"
    and first: "\<And>j. j < i \<Longrightarrow> take (length needle) (drop j hay) \<noteq> needle"
    using assms by (auto simp: mem_find_Some)
  have "take (length needle) (drop j (hay @ rest)) = take (length needle) (drop j hay)" if "j \<le> i" for j
    using i(1) that by simp
  then show ?thesis using assms(1) i first by (auto simp: mem_find_Some)
qed

lemma mem_find_prefix:
  assumes "needle \<noteq> []" "mem_find (hay @ rest) needle = Some i" "i + length needle \<le> length hay"
  shows "mem_find hay needle = Some i"
proof -
  have "take (length needle) (drop j (hay @ rest)) = take (length needle) (drop j hay)" if "j \<le> i" for j
    using assms(3) that by simp
  then show ?thesis using assms by (auto simp: mem_find_Some)
qed

text \<open>A needle without the byte \<open>x\<close> is not found across it.\<close>

lemma mem_find_across:
  assumes "needle \<noteq> []" "x \<notin> set needle" "mem_find d needle = None"
  shows "mem_find (d @ x # r) needle = map_option (\<lambda>i. length d + 1 + i) (mem_find r needle)"
  using assms(3)
proof (induction d)
  case Nil
  have "take (length needle) (x # r) \<noteq> needle" using assms(1,2) by (cases needle) auto
  then show ?case using assms(1) by (cases "mem_find r needle") (simp_all add: mem_find_Cons)
next
  case (Cons c d)
  have no: "take (length needle) (c # d) \<noteq> needle" and IH: "mem_find d needle = None"
    using Cons.prems by (auto simp: mem_find_Cons [OF assms(1)] split: if_splits)
  have "take (length needle) ((c # d) @ x # r) \<noteq> needle"
  proof (cases "length needle \<le> length (c # d)")
    case True
    then have "take (length needle) ((c # d) @ x # r) = take (length needle) (c # d)" by (cases "length needle") simp_all
    then show ?thesis using no by argo
  next
    case False
    have "x \<in> set (take (length needle) ((c # d) @ x # r))" using False assms(1) by (simp add: take_Cons')
    then show ?thesis using assms(2) by auto
  qed
  then show ?case using Cons.IH [OF IH] by (cases "mem_find r needle") (simp_all add: mem_find_Cons [OF assms(1)])
qed

subsection \<open>Multipart bodies stay inside the buffer\<close>

lemma multipart_part_bounds:
  assumes t: "multipart_part body sep p = Some (part, nxt)" and sep: "sep \<noteq> []" and p: "p \<le> length body"
  shows "p + 4 \<le> pt_data part" "pt_data part + pt_size part \<le> length body"
    "\<And>q. nxt = Some q \<Longrightarrow> pt_data part + pt_size part \<le> q \<and> q + length sep \<le> length body"
    "length (pt_name part) \<le> 127" "length (pt_filename part) \<le> 255"
proof -
  obtain hlen where f: "mem_find (drop p body) [13, 10, 13, 10] = Some hlen"
    using t by (cases "mem_find (drop p body) [13, 10, 13, 10]") (simp_all add: multipart_part_def)
  define data where "data = p + hlen + 4"
  define nx where "nx = map_option (\<lambda>i. data + i) (mem_find (drop data body) sep)"
  have r: "pt_data part = data" "pt_size part = part_end body data nx - data" "nxt = nx"
    "length (pt_name part) \<le> 127" "length (pt_filename part) \<le> 255"
    using t by (auto simp: multipart_part_def f Let_def data_def nx_def quoted_after_def split: option.splits)
  have data: "data \<le> length body" using mem_find_le [OF _ f] p by (simp add: data_def)
  have nx: "data \<le> q \<and> q + length sep \<le> length body" if "nx = Some q" for q
    using that mem_find_le [OF sep, of "drop data body"] data by (fastforce simp: nx_def)
  define e0 where "e0 = (case nx of Some i \<Rightarrow> i | None \<Rightarrow> length body)"
  have e0: "data \<le> e0" "e0 \<le> length body" using nx data by (auto simp: e0_def split: option.splits)
  have e: "data \<le> part_end body data nx" "part_end body data nx \<le> e0"
    using e0(1) by (auto simp: part_end_def e0_def [symmetric] Let_def)
  show "p + 4 \<le> pt_data part" using r by (simp add: data_def)
  show "pt_data part + pt_size part \<le> length body" using r e e0 by simp
  show "length (pt_name part) \<le> 127" "length (pt_filename part) \<le> 255" by fact+
  fix q assume q: "nxt = Some q"
  then have "e0 = q" using r by (simp add: e0_def)
  then show "pt_data part + pt_size part \<le> q \<and> q + length sep \<le> length body" using nx [of q] q r e by simp
qed

lemma multipart_turn_bounds:
  assumes t: "multipart_turn body sep p = Some (part, nxt)" and sep: "sep \<noteq> []" and p: "p + length sep \<le> length body"
  shows "p \<le> pt_data part" "pt_data part + pt_size part \<le> length body"
    "\<And>q. nxt = Some q \<Longrightarrow> pt_data part + pt_size part \<le> q \<and> q + length sep \<le> length body"
    "length (pt_name part) \<le> 127" "length (pt_filename part) \<le> 255"
proof -
  define p2 where "p2 = (if two_at body (p + length sep) 13 10 then p + length sep + 2 else p + length sep)"
  have t2: "multipart_part body sep p2 = Some (part, nxt)"
    using t by (simp add: multipart_turn_def p2_def Let_def split: if_splits)
  have p2: "p \<le> p2" "p2 \<le> length body" using p by (auto simp: p2_def two_at_def)
  note b = multipart_part_bounds [OF t2 sep p2(2)]
  show "p \<le> pt_data part" using b(1) p2(1) by simp
  show "pt_data part + pt_size part \<le> length body" "length (pt_name part) \<le> 127" "length (pt_filename part) \<le> 255"
    using b by auto
  show "pt_data part + pt_size part \<le> q \<and> q + length sep \<le> length body" if "nxt = Some q" for q using b(3) that by blast
qed

definition part_fits :: "bytes \<Rightarrow> http_part \<Rightarrow> bool" where
  "part_fits body pt \<longleftrightarrow> pt_data pt + pt_size pt \<le> length body \<and> length (pt_name pt) \<le> 127 \<and> length (pt_filename pt) \<le> 255"

lemma multipart_loop_bounds:
  assumes "sep \<noteq> []" "\<And>q. p = Some q \<Longrightarrow> lo \<le> q \<and> q + length sep \<le> length body"
  shows "length (multipart_loop k body sep p) \<le> k \<and> (\<forall>pt \<in> set (multipart_loop k body sep p). lo \<le> pt_data pt \<and> part_fits body pt) \<and>
    sorted_wrt (\<lambda>a b. pt_data a + pt_size a \<le> pt_data b) (multipart_loop k body sep p)"
  using assms(2)
proof (induction k arbitrary: p lo)
  case 0
  then show ?case by simp
next
  case (Suc k)
  show ?case
  proof (cases "\<exists>q part nxt. p = Some q \<and> multipart_turn body sep q = Some (part, nxt)")
    case False
    then have "multipart_loop (Suc k) body sep p = []" by (auto split: option.splits prod.splits)
    then show ?thesis by simp
  next
    case True
    then obtain q part nxt where p: "p = Some q" and t: "multipart_turn body sep q = Some (part, nxt)" by blast
    have q: "lo \<le> q" "q + length sep \<le> length body" using Suc.prems p by auto
    note b = multipart_turn_bounds [OF t assms(1) q(2)]
    have IH: "length (multipart_loop k body sep nxt) \<le> k"
      "\<forall>pt \<in> set (multipart_loop k body sep nxt). pt_data part + pt_size part \<le> pt_data pt \<and> part_fits body pt"
      "sorted_wrt (\<lambda>a b. pt_data a + pt_size a \<le> pt_data b) (multipart_loop k body sep nxt)"
      using Suc.IH [of nxt "pt_data part + pt_size part"] b(3) by blast+
    have loop: "multipart_loop (Suc k) body sep p = part # multipart_loop k body sep nxt" by (simp add: p t)
    have "lo \<le> pt_data part" "part_fits body part" using q b(1,2,4,5) by (auto simp: part_fits_def)
    then show ?thesis unfolding loop using IH by force
  qed
qed

text \<open>
  Whatever the body and the content type, every part lies inside the body, the parts do not overlap and come in order,
  there are never more than the array has places for, and the names fit their arrays.
\<close>

theorem multipart_in_bounds:
  "length (vv_http_parse_multipart body content_type max_parts) \<le> max_parts \<and>
   list_all (part_fits body) (vv_http_parse_multipart body content_type max_parts) \<and>
   sorted_wrt (\<lambda>a b. pt_data a + pt_size a \<le> pt_data b) (vv_http_parse_multipart body content_type max_parts)"
proof (cases "multipart_boundary content_type")
  case None
  then show ?thesis by (simp add: vv_http_parse_multipart_def)
next
  case (Some b)
  let ?sep = "[45, 45] @ b"
  have "0 \<le> q \<and> q + length ?sep \<le> length body" if "mem_find body ?sep = Some q" for q
    using mem_find_le [OF _ that] by simp
  from multipart_loop_bounds [OF _ this, where k = max_parts] show ?thesis
    by (auto simp: vv_http_parse_multipart_def Some list_all_iff Let_def)
qed

subsection \<open>The reader's buffer\<close>

text \<open>
  The buffer is the one block the reader holds, it has room for what it holds and never grows past twice the limit.
\<close>

definition reader_ok :: "nat \<Rightarrow> reader \<Rightarrow> bool" where
  "reader_ok m r \<longleftrightarrow> length (rd_buf r) \<le> rd_cap r \<and> 0 < rd_cap r \<and> rd_cap r \<le> 2 * (m + 2 ^ 20) \<and>
     rd_head_end r \<le> length (rd_buf r) \<and> unat (rd_want r) \<le> m"

lemma read_room_ok:
  assumes "read_room m r h = (r', h')" "owns h (add_mset (Host, rd_ptr r) M)" "reader_ok m r"
  shows "case r' of None \<Rightarrow> owns h' M
     | Some s \<Rightarrow> owns h' (add_mset (Host, rd_ptr s) M) \<and> reader_ok m s \<and> rd_buf s = rd_buf r \<and>
         length (rd_buf s) < rd_cap s \<and> rd_head_end s = rd_head_end r \<and> rd_want s = rd_want r"
proof (cases "length (rd_buf r) = rd_cap r \<and> rd_cap r < m + 2 ^ 20")
  case False
  then show ?thesis using assms by (auto simp: read_room_def reader_ok_def split: if_splits)
next
  case True
  obtain p h1 where al: "vv_alloc (of_nat (rd_cap r * 2) + 1) h = (p, h1)" by fastforce
  note o = vv_alloc_owns [OF assms(2) al]
  show ?thesis
  proof (cases p)
    case None
    then show ?thesis using assms(1) True al o by (auto simp: read_room_def Let_def)
  next
    case (Some nb)
    then have "owns h1 (add_mset (Host, rd_ptr r) (add_mset (Host, nb) M))" using o by (simp add: add_mset_commute)
    then show ?thesis using assms True al Some by (auto simp: read_room_def Let_def reader_ok_def)
  qed
qed

lemma read_bytes_ok:
  assumes "read_bytes m got late r h = (r', h')" "owns h (add_mset (Host, rd_ptr r) M)" "reader_ok m r"
    and "length (rd_buf r) + length got \<le> rd_cap r"
  shows "case r' of None \<Rightarrow> owns h' M
     | Some s \<Rightarrow> h' = h \<and> rd_ptr s = rd_ptr r \<and> reader_ok m s \<and> rd_buf s = rd_buf r @ got \<and> rd_cap s = rd_cap r"
proof -
  have le: "e + 4 \<le> length b" if "mem_find b [13, 10, 13, 10] = Some e" for b e using mem_find_le [OF _ that] by simp
  show ?thesis
    using assms by (auto simp: read_bytes_def Let_def reader_ok_def dest!: le split: option.splits prod.splits if_splits)
qed

lemma read_turn_ok:
  assumes "owns h (add_mset (Host, rd_ptr r) M)" "reader_ok m r"
  shows "case read_turn m chunks r h of
       ReadFail h' \<Rightarrow> owns h' M
     | ReadBreak s h' \<Rightarrow> owns h' (add_mset (Host, rd_ptr s) M) \<and> reader_ok m s
     | ReadNext left s h' \<Rightarrow> owns h' (add_mset (Host, rd_ptr s) M) \<and> reader_ok m s"
proof -
  obtain r1 h1 where room: "read_room m r h = (r1, h1)" by fastforce
  note ro = read_room_ok [OF room assms]
  show ?thesis
  proof (cases r1)
    case None
    then show ?thesis using ro room by (simp add: read_turn_def)
  next
    case (Some s)
    then have s: "owns h1 (add_mset (Host, rd_ptr s) M)" "reader_ok m s" using ro by auto
    show ?thesis
    proof (cases chunks)
      case Nil
      then show ?thesis using s room Some by (simp add: read_turn_def)
    next
      case (Cons c rest)
      obtain bs late where c: "c = (bs, late)" by fastforce
      let ?got = "take (rd_cap s - length (rd_buf s)) bs"
      obtain r2 h2 where rb: "read_bytes m ?got late s h1 = (r2, h2)" by fastforce
      have "length (rd_buf s) + length ?got \<le> rd_cap s" using s(2) unfolding reader_ok_def length_take by linarith
      note b = read_bytes_ok [OF rb s this]
      show ?thesis
      proof (cases "?got = []")
        case True
        then show ?thesis using s room Some by (simp add: read_turn_def Cons c Let_def)
      next
        case False
        then show ?thesis using b s room Some by (auto simp: read_turn_def Cons c Let_def rb split: option.splits)
      qed
    qed
  qed
qed

lemma read_loop_ok:
  assumes "owns h (add_mset (Host, rd_ptr r) M)" "reader_ok m r"
  shows "case read_loop m chunks r h of
       (None, h') \<Rightarrow> owns h' M
     | (Some s, h') \<Rightarrow> owns h' (add_mset (Host, rd_ptr s) M) \<and> reader_ok m s"
  using assms
proof (induction m chunks r h rule: read_loop.induct)
  case (1 m chunks r h)
  note ok = read_turn_ok [OF 1(2,3), of chunks]
  show ?case
  proof (cases "read_turn m chunks r h")
    case (ReadNext left s h')
    then show ?thesis using 1(1) [OF ReadNext] ok by (simp add: read_loop.simps [of m chunks])
  qed (use ok in \<open>simp_all add: read_loop.simps [of m chunks]\<close>)
qed

text \<open>
  Whatever the client sends, however the network cuts it and whichever allocation fails, \<^verbatim>\<open>read_request\<close> either refuses
  the request with all its memory given back, or returns a request with its buffer the one block left. The body then lies
  in the buffer, which never grew past twice the limit and a megabyte, and there are at most 48 headers.
\<close>

theorem read_request_memory:
  assumes "owns h M"
  shows "case read_request max_body chunks h of
       (None, h') \<Rightarrow> owns h' M
     | (Some (req, ptr), h') \<Rightarrow> owns h' (add_mset (Host, ptr) M) \<and> length (rq_body req) \<le> 2 * (max_body + 2 ^ 20) \<and>
         length (rq_headers req) \<le> VV_HTTP_MAX_HEADERS"
proof -
  obtain p h1 where al: "vv_alloc (64 * 1024 + 1) h = (p, h1)" by fastforce
  note o = vv_alloc_owns [OF assms al]
  show ?thesis
  proof (cases p)
    case None
    then show ?thesis using al o by (simp add: read_request_def)
  next
    case (Some ptr)
    have ok0: "reader_ok max_body (reader_start ptr)" "rd_ptr (reader_start ptr) = ptr"
      by (simp_all add: reader_ok_def reader_start_def)
    obtain r h2 where lp: "read_loop max_body chunks (reader_start ptr) h1 = (r, h2)" by fastforce
    have l: "case r of None \<Rightarrow> owns h2 M | Some s \<Rightarrow> owns h2 (add_mset (Host, rd_ptr s) M) \<and> reader_ok max_body s"
      using read_loop_ok [of h1 "reader_start ptr" M max_body chunks] ok0 o Some lp by (auto split: option.splits)
    have hl: "length (header_lines k rest) \<le> k" for k rest
      by (induction k arbitrary: rest) (auto simp: Let_def split: list.splits)
    show ?thesis
    proof (cases r)
      case None
      then show ?thesis using al Some lp l by (simp add: read_request_def Let_def)
    next
      case (Some s)
      then have s: "owns h2 (add_mset (Host, rd_ptr s) M)" "reader_ok max_body s" using l by auto
      show ?thesis
      proof (cases "rd_head_end s = 0 \<or> parse_request (rd_buf s) (rd_head_end s) = None")
        case True
        then show ?thesis using al \<open>p = Some ptr\<close> lp s Some by (auto simp: read_request_def Let_def)
      next
        case False
        then obtain req where req: "parse_request (rd_buf s) (rd_head_end s) = Some req" by auto
        then have "rq_body req = drop (rd_head_end s) (rd_buf s)" "length (rq_headers req) \<le> VV_HTTP_MAX_HEADERS"
          using hl by (auto simp: parse_request_def Let_def split: list.splits)
        then show ?thesis using al \<open>p = Some ptr\<close> lp s Some False req
          by (auto simp: read_request_def Let_def reader_ok_def)
      qed
    qed
  qed
qed

subsection \<open>Every way of cutting the bytes is read alike\<close>

definition blank_line :: bytes where "blank_line = [13, 10, 13, 10]"

lemma blank_line_ne: "blank_line \<noteq> []" and length_blank_line [simp]: "length blank_line = 4"
  by (simp_all add: blank_line_def)

lemma alloc_succeeds: "host_never_fails h \<Longrightarrow> s \<noteq> 0 \<Longrightarrow> \<exists>p h'. vv_alloc s h = (Some p, h') \<and> host_never_fails h'"
  by (simp add: vv_alloc_def host_never_fails_def Let_def)

text \<open>The chunks carry the bytes, none of them empty and none late.\<close>

definition carries :: "chunks \<Rightarrow> bytes \<Rightarrow> bool" where
  "carries chunks bs \<longleftrightarrow> concat (map fst chunks) = bs \<and> (\<forall>c \<in> set chunks. fst c \<noteq> [] \<and> \<not> snd c)"

lemma carries_Nil: "carries [] bs \<longleftrightarrow> bs = []"
  by (auto simp: carries_def)

lemma carries_Cons:
  assumes "carries ((bs, late) # rest) whole" "0 < n"
  shows "\<not> late" "take n bs \<noteq> []"
    "\<exists>more'. whole = take n bs @ more' \<and> carries (if length bs \<le> n then rest else (drop n bs, late) # rest) more'"
proof -
  show "\<not> late" "take n bs \<noteq> []" using assms by (auto simp: carries_def)
  show "\<exists>more'. whole = take n bs @ more' \<and> carries (if length bs \<le> n then rest else (drop n bs, late) # rest) more'"
  proof (cases "length bs \<le> n")
    case True
    then show ?thesis using assms by (auto simp: carries_def)
  next
    case False
    then show ?thesis using assms
      by (intro exI [of _ "drop n bs @ concat (map fst rest)"]) (auto simp: carries_def append_assoc [symmetric] simp del: append_assoc)
  qed
qed

text \<open>What the reader knows of \<open>whole\<close> while it has not read all that \<open>want\<close> asks for.\<close>

definition reading :: "bytes \<Rightarrow> nat \<Rightarrow> u64 \<Rightarrow> reader \<Rightarrow> bool" where
  "reading whole e w r \<longleftrightarrow>
     (if rd_head_end r = 0 then mem_find (rd_buf r) blank_line = None
      else rd_head_end r = e + 4 \<and> rd_want r = w) \<and>
     length (rd_buf r) < e + 4 + unat w"

lemma read_room_succeeds:
  assumes "reading whole e w r" "e + 4 \<le> 65536" "unat w \<le> m" "m < 2 ^ 30" "host_never_fails h" "reader_ok m r"
  shows "\<exists>s h'. read_room m r h = (Some s, h') \<and> host_never_fails h' \<and> length (rd_buf s) < rd_cap s \<and> rd_buf s = rd_buf r \<and>
    rd_head_end s = rd_head_end r \<and> rd_want s = rd_want r \<and> reader_ok m s"
proof (cases "length (rd_buf r) = rd_cap r")
  case False
  then show ?thesis using assms by (auto simp: read_room_def reader_ok_def)
next
  case True
  have c: "rd_cap r < m + 2 ^ 20" using assms True by (simp add: reading_def)
  have "unat (of_nat (rd_cap r * 2) + 1 :: u64) = rd_cap r * 2 + 1"
  proof -
    have "rd_cap r * 2 + 1 < 2 ^ 64" using c assms(4) by simp
    then have "unat (of_nat (rd_cap r * 2 + 1) :: u64) = rd_cap r * 2 + 1" unfolding unsigned_of_nat of_nat_id by (intro take_bit_nat_eq_self) simp
    moreover have "(of_nat (rd_cap r * 2) + 1 :: u64) = of_nat (rd_cap r * 2 + 1)" by (simp only: of_nat_add of_nat_1)
    ultimately show ?thesis by argo
  qed
  then have "(of_nat (rd_cap r * 2) + 1 :: u64) \<noteq> 0" by (metis Suc_eq_plus1 nat.simps(3) unsigned_0)
  from alloc_succeeds [OF assms(5) this] obtain p h' where "vv_alloc (of_nat (rd_cap r * 2) + 1) h = (Some p, h')" "host_never_fails h'" by blast
  then show ?thesis using True c assms(6) by (auto simp: read_room_def Let_def reader_ok_def)
qed

lemma read_bytes_succeeds:
  assumes r: "reading whole e w r" and e: "e + 4 \<le> 65536" and w: "unat w \<le> m" and ok: "reader_ok m r"
    and room: "length (rd_buf r) + length got \<le> rd_cap r"
    and whole: "whole = rd_buf r @ got @ rest" and find: "mem_find whole blank_line = Some e"
    and hcl: "head_content_length (take (e + 4) whole) = Some (w, seen)"
  shows "\<exists>s. read_bytes m got False r h = (Some s, h) \<and> rd_buf s = rd_buf r @ got \<and> reader_ok m s \<and>
    (if rd_head_end s = 0 then mem_find (rd_buf s) blank_line = None \<and> length (rd_buf s) < e + 4
     else rd_head_end s = e + 4 \<and> rd_want s = w)"
proof (cases "rd_head_end r = 0")
  case False
  then show ?thesis using r ok room by (simp add: read_bytes_def Let_def reading_def reader_ok_def)
next
  case True
  let ?b = "rd_buf r @ got"
  have whole: "whole = ?b @ rest" using whole by simp
  show ?thesis
  proof (cases "mem_find ?b blank_line")
    case None
    have "length ?b < e + 4"
      using mem_find_prefix [OF blank_line_ne, of ?b rest e] find whole None by fastforce
    then show ?thesis using True e None ok room by (simp add: read_bytes_def Let_def blank_line_def [symmetric] reader_ok_def)
  next
    case (Some i)
    have ie: "i = e" using mem_find_append [OF blank_line_ne Some, of rest] find whole by simp
    have le: "e + 4 \<le> length ?b" using mem_find_le [OF blank_line_ne Some] ie by simp
    then have "take (e + 4) ?b = take (e + 4) whole" using whole by simp
    then show ?thesis using True Some ie hcl w le ok room
      by (simp add: read_bytes_def Let_def blank_line_def [symmetric] reader_ok_def)
  qed
qed

lemma read_loop_delivers:
  assumes e: "e + 4 \<le> 65536" and w: "unat w \<le> m" and m: "m < 2 ^ 30" and find: "mem_find whole blank_line = Some e"
    and hcl: "head_content_length (take (e + 4) whole) = Some (w, seen)"
  shows "reading whole e w r \<Longrightarrow> host_never_fails h \<Longrightarrow> reader_ok m r \<Longrightarrow> whole = rd_buf r @ left \<Longrightarrow> carries chunks left \<Longrightarrow>
    \<exists>k s h'. read_loop m chunks r h = (Some s, h') \<and> rd_buf s = take k whole \<and> rd_head_end s = e + 4 \<and>
      k \<le> length whole \<and> min (e + 4 + unat w) (length whole) \<le> k"
proof (induction "length left" arbitrary: left chunks r h rule: less_induct)
  case less
  obtain s h1 where room: "read_room m r h = (Some s, h1)" and s: "host_never_fails h1" "length (rd_buf s) < rd_cap s"
    "rd_buf s = rd_buf r" "rd_head_end s = rd_head_end r" "rd_want s = rd_want r" "reader_ok m s"
    using read_room_succeeds [OF less.prems(1) e w m less.prems(2,3)] by blast
  have sr: "reading whole e w s" using less.prems(1) s by (simp add: reading_def)
  show ?case
  proof (cases chunks)
    case Nil
    then have "whole = rd_buf s" using less.prems(4,5) s by (simp add: carries_Nil)
    moreover then have "rd_head_end s = e + 4" using sr find by (auto simp: reading_def split: if_splits)
    moreover have "read_loop m chunks r h = (Some s, h1)" by (subst read_loop.simps) (simp add: read_turn_def room Nil)
    ultimately show ?thesis by (intro exI [of _ "length whole"]) auto
  next
    case (Cons c rest)
    obtain bs late where c: "c = (bs, late)" by fastforce
    let ?n = "rd_cap s - length (rd_buf s)"
    let ?got = "take ?n bs" and ?left = "if length bs \<le> ?n then rest else (drop ?n bs, late) # rest"
    have n: "0 < ?n" using s(2) by simp
    have cc: "carries ((bs, late) # rest) left" using less.prems(5) Cons c by simp
    obtain left' where l: "left = ?got @ left'" "carries ?left left'" and late: "\<not> late" and got: "?got \<noteq> []"
      using carries_Cons [OF cc n] by blast
    have wh: "whole = rd_buf s @ ?got @ left'" using less.prems(4) s l by simp
    have fits: "length (rd_buf s) + length ?got \<le> rd_cap s" using s(2) unfolding length_take by linarith
    obtain t where rb: "read_bytes m ?got False s h1 = (Some t, h1)" and t: "rd_buf t = rd_buf s @ ?got" "reader_ok m t"
      "if rd_head_end t = 0 then mem_find (rd_buf t) blank_line = None \<and> length (rd_buf t) < e + 4
       else rd_head_end t = e + 4 \<and> rd_want t = w"
      using read_bytes_succeeds [OF sr e w s(6) fits wh find hcl, of h1] by blast
    have wt: "whole = rd_buf t @ left'" using wh t by simp
    show ?thesis
    proof (cases "rd_head_end t \<noteq> 0 \<and> length (rd_buf t) \<ge> rd_head_end t + unat (rd_want t)")
      case True
      then have "read_turn m chunks r h = ReadBreak t h1" using got late rb by (simp add: read_turn_def room Cons c Let_def)
      then have "read_loop m chunks r h = (Some t, h1)" by (simp add: read_loop.simps [of m chunks])
      moreover have "rd_buf t = take (length (rd_buf t)) whole" using wt by simp
      ultimately show ?thesis using True t(3) wt by (intro exI [of _ "length (rd_buf t)"]) auto
    next
      case False
      then have "read_turn m chunks r h = ReadNext ?left t h1" using got late rb by (simp add: read_turn_def room Cons c Let_def)
      then have lp: "read_loop m chunks r h = read_loop m ?left t h1" by (simp add: read_loop.simps [of m chunks])
      have "reading whole e w t" using False t(3) by (auto simp: reading_def split: if_splits)
      moreover have "length left' < length left" using l(1) got by (metis length_append length_greater_0_conv less_add_same_cancel2)
      ultimately show ?thesis unfolding lp using less.hyps [of left' t h1 ?left] s(1) t(2) wt l(2) by blast
    qed
  qed
qed

text \<open>So a request whose head is acceptable is parsed from the head and some prefix of what follows.\<close>

lemma read_request_delivers:
  assumes e: "e + 4 \<le> 65536" and w: "unat w \<le> m" and m: "m < 2 ^ 30" and find: "mem_find whole blank_line = Some e"
    and hcl: "head_content_length (take (e + 4) whole) = Some (w, seen)" and h: "host_never_fails h" and c: "carries chunks whole"
    and p: "\<And>k. e + 4 \<le> k \<Longrightarrow> k \<le> length whole \<Longrightarrow> parse_request (take k whole) (e + 4) = Some (req k)"
  shows "\<exists>k ptr h'. read_request m chunks h = (Some (req k, ptr), h') \<and> min (e + 4 + unat w) (length whole) \<le> k \<and> k \<le> length whole"
proof -
  obtain ptr h1 where al: "vv_alloc (64 * 1024 + 1) h = (Some ptr, h1)" and h1: "host_never_fails h1"
    using alloc_succeeds [OF h, of "64 * 1024 + 1"] by auto
  have "reading whole e w (reader_start ptr)" by (simp add: reading_def reader_start_def mem_find_Nil [OF blank_line_ne])
  moreover have "reader_ok m (reader_start ptr)" "whole = rd_buf (reader_start ptr) @ whole"
    by (simp_all add: reader_ok_def reader_start_def)
  ultimately obtain k s h' where l: "read_loop m chunks (reader_start ptr) h1 = (Some s, h')" "rd_buf s = take k whole"
    "rd_head_end s = e + 4" "k \<le> length whole" "min (e + 4 + unat w) (length whole) \<le> k"
    using read_loop_delivers [OF e w m find hcl _ h1 _ _ c] by blast
  have "e + 4 \<le> length whole" using mem_find_le [OF blank_line_ne find] by simp
  then have "e + 4 \<le> k" using l(5) by simp
  then show ?thesis using al l p [of k] by (auto simp: read_request_def)
qed

subsection \<open>A request as a client writes it\<close>

definition header_text :: "bytes \<times> bytes \<Rightarrow> bytes" where
  "header_text h = fst h @ [58, 32] @ snd h"

definition with_length :: "(bytes \<times> bytes) list \<Rightarrow> nat \<Rightarrow> (bytes \<times> bytes) list" where
  "with_length headers n = headers @ [(ascii ''Content-Length'', dec_nat n)]"

definition text_lines :: "bytes list \<Rightarrow> bytes" where
  "text_lines ls = concat (map (\<lambda>l. l @ crlf) ls)"

definition request_line :: "bytes \<Rightarrow> bytes \<Rightarrow> bytes" where
  "request_line method target = method @ [32] @ target @ [32] @ ascii ''HTTP/1.1''"

definition request_head :: "bytes \<Rightarrow> bytes \<Rightarrow> (bytes \<times> bytes) list \<Rightarrow> nat \<Rightarrow> bytes" where
  "request_head method target headers n =
     text_lines (request_line method target # map header_text (with_length headers n)) @ crlf"

definition clean :: "bytes \<Rightarrow> bool" where
  "clean s \<longleftrightarrow> 0 \<notin> set s \<and> 10 \<notin> set s \<and> 13 \<notin> set s"

definition header_ok :: "bytes \<times> bytes \<Rightarrow> bool" where
  "header_ok h \<longleftrightarrow> clean (fst h) \<and> clean (snd h) \<and> 58 \<notin> set (fst h) \<and> length (fst h) \<le> 63 \<and> length (snd h) \<le> 511 \<and>
     (snd h = [] \<or> \<not> is_blank (hd (snd h)) \<and> \<not> is_blank (last (snd h)))"

definition plain_header :: "bytes \<times> bytes \<Rightarrow> bool" where
  "plain_header h \<longleftrightarrow> header_ok h \<and> map lower8 (fst h) \<noteq> ascii ''content-length'' \<and>
     take 17 (map lower8 (fst h)) \<noteq> ascii ''transfer-encoding''"

definition request_ok :: "bytes \<Rightarrow> bytes \<Rightarrow> (bytes \<times> bytes) list \<Rightarrow> nat \<Rightarrow> bool" where
  "request_ok method target headers n \<longleftrightarrow>
     clean method \<and> 32 \<notin> set method \<and> length method \<le> 7 \<and> clean target \<and> 32 \<notin> set target \<and> length target \<le> 511 \<and>
     list_all plain_header headers \<and> length headers \<le> 47 \<and> length (request_head method target headers n) \<le> 65536"

lemma text_lines_simps [simp]: "text_lines [] = []" "text_lines (l # ls) = l @ crlf @ text_lines ls"
  by (simp_all add: text_lines_def)

lemma takeWhile_upto: "x \<notin> set l \<Longrightarrow> takeWhile (\<lambda>c. c \<noteq> x) (l @ x # r) = l"
  by (induction l) auto

lemma dropWhile_upto: "x \<notin> set l \<Longrightarrow> dropWhile (\<lambda>c. c \<noteq> x) (l @ x # r) = x # r"
  by (induction l) auto

lemma takeWhile_none: "x \<notin> set l \<Longrightarrow> takeWhile (\<lambda>c. c \<noteq> x) l = l"
  by (induction l) auto

lemma dropWhile_none: "x \<notin> set l \<Longrightarrow> dropWhile (\<lambda>c. c \<noteq> x) l = []"
  by (induction l) auto

text \<open>Where the blank line is.\<close>

lemma one_break:
  "c \<noteq> 13 \<Longrightarrow> mem_find (13 # 10 # c # r) blank_line = map_option (\<lambda>i. 2 + i) (mem_find (c # r) blank_line)"
  by (cases "mem_find r blank_line") (simp_all add: blank_line_def mem_find_Cons)

lemma blank_line_after_lines:
  assumes "ls \<noteq> []" "\<forall>l \<in> set ls. clean l \<and> l \<noteq> []"
  shows "mem_find (text_lines ls @ crlf @ rest) blank_line = Some (length (text_lines ls) - 2)"
  using assms
proof (induction ls)
  case Nil
  then show ?case by simp
next
  case (Cons l ls)
  have l: "13 \<notin> set l" using Cons.prems by (simp add: clean_def)
  have skip: "mem_find (l @ R) blank_line = map_option (\<lambda>i. length l + i) (mem_find R blank_line)" for R
    by (rule mem_find_skip) (use l in \<open>simp_all add: blank_line_def\<close>)
  show ?case
  proof (cases ls)
    case Nil
    have "mem_find (13 # 10 # 13 # 10 # rest) blank_line = Some 0" by (simp add: blank_line_def mem_find_Cons)
    then show ?thesis using skip [of "13 # 10 # 13 # 10 # rest"] by (simp add: Nil crlf_def)
  next
    case (Cons l2 ls2)
    obtain c l2' where l2: "l2 = c # l2'" and c: "c \<noteq> 13" using Cons.prems Cons by (cases l2) (auto simp: clean_def)
    let ?R = "text_lines ls @ crlf @ rest"
    have hd: "?R = c # tl ?R" by (simp add: Cons l2)
    have IH: "mem_find ?R blank_line = Some (length (text_lines ls) - 2)" using Cons.IH Cons.prems Cons by simp
    have "mem_find (13 # 10 # ?R) blank_line = map_option (\<lambda>i. 2 + i) (mem_find ?R blank_line)"
      unfolding arg_cong [OF hd, of "\<lambda>r. mem_find (13 # 10 # r) blank_line"] using one_break [OF c, of "tl ?R"] hd by argo
    moreover have "length (text_lines ls) \<ge> 2" by (simp add: Cons crlf_def)
    ultimately show ?thesis using skip [of "13 # 10 # ?R"] IH by (simp add: crlf_def)
  qed
qed

text \<open>The decimal digits of a length.\<close>

lemma dec_nat_digits: "\<forall>c \<in> set (dec_nat n). 48 \<le> c \<and> c \<le> 57" and dec_nat_ne [simp]: "dec_nat n \<noteq> []"
proof -
  have d: "48 \<le> (48 + of_nat k :: u8) \<and> 48 + of_nat k \<le> (57 :: u8)" if "k < 10" for k :: nat
  proof -
    have "k \<in> set [0..<10]" using that by simp
    then show ?thesis by (simp add: upt_rec) auto
  qed
  show "\<forall>c \<in> set (dec_nat n). 48 \<le> c \<and> c \<le> 57"
    by (induction n rule: dec_nat.induct) (subst dec_nat.simps, use d in auto)
  show "dec_nat n \<noteq> []" by (subst dec_nat.simps) simp
qed

definition digits_nat :: "bytes \<Rightarrow> nat" where
  "digits_nat ds = fold (\<lambda>c v. v * 10 + unat (c - 48)) ds 0"

lemma fold_digits_append: "fold (\<lambda>c v. v * 10 + unat (c - 48)) (xs @ [d]) 0 = digits_nat xs * 10 + unat (d - (48 :: u8))"
  by (simp add: digits_nat_def)

lemma digits_nat_dec: "digits_nat (dec_nat n) = n"
proof (induction n rule: dec_nat.induct)
  case (1 n)
  have u: "unat (of_nat k :: u8) = k" if "k < 10" for k :: nat
    using that unfolding unsigned_of_nat of_nat_id by (intro take_bit_nat_eq_self) simp
  show ?case
  proof (cases "n < 10")
    case True
    then show ?thesis by (subst dec_nat.simps) (simp add: digits_nat_def u)
  next
    case False
    have "digits_nat (dec_nat n) = digits_nat (dec_nat (n div 10)) * 10 + unat (of_nat (n mod 10) :: u8)"
      using False by (subst dec_nat.simps) (simp add: digits_nat_def)
    also have "\<dots> = n" using 1 False by (simp add: u)
    finally show ?thesis .
  qed
qed

lemma length_limit: "(- 1 - 9 :: u64) div 10 = 1844674407370955160"
  by simp

lemma fold_digits_mono: "v \<le> fold (\<lambda>c v. v * 10 + unat (c - (48 :: u8))) ds v"
proof (induction ds arbitrary: v)
  case (Cons c ds)
  have "v \<le> v * 10 + unat (c - 48)" by simp
  also have "\<dots> \<le> fold (\<lambda>c v. v * 10 + unat (c - 48)) ds (v * 10 + unat (c - 48))" by (rule Cons.IH)
  finally show ?case by simp
qed simp

lemma digits_value_digits:
  assumes "\<forall>c \<in> set ds. 48 \<le> c \<and> c \<le> 57" "fold (\<lambda>c v. v * 10 + unat (c - (48 :: u8))) ds (unat v) \<le> 2 ^ 60"
  shows "digits_value v (ds @ 13 # r) = Some (of_nat (fold (\<lambda>c v. v * 10 + unat (c - 48)) ds (unat v)), 13 # r)"
  using assms
proof (induction ds arbitrary: v)
  case Nil
  then show ?case by simp
next
  case (Cons c ds)
  let ?v = "v * 10 + ucast (c - 48)"
  have "unat v * 10 + unat (c - 48) \<le> 2 ^ 60"
    using Cons.prems(2) fold_digits_mono [of "unat v * 10 + unat (c - 48)" ds] by simp
  then have nat: "unat ?v = unat v * 10 + unat (c - 48)" and small: "unat v \<le> 2 ^ 60"
  proof -
    assume b: "unat v * 10 + unat (c - 48) \<le> 2 ^ 60"
    have "?v = of_nat (unat v * 10 + unat (c - 48))" by simp
    also have "unat \<dots> = unat v * 10 + unat (c - 48)"
      unfolding unsigned_of_nat of_nat_id by (intro take_bit_nat_eq_self) (use b in simp)
    finally show "unat ?v = unat v * 10 + unat (c - 48)" .
    show "unat v \<le> 2 ^ 60" using b by simp
  qed
  have "\<not> v > (- 1 - 9) div 10" unfolding length_limit word_less_nat_alt using small by simp
  then show ?case using Cons nat by simp
qed

lemma ci_equal_iff:
  "n \<le> length a \<Longrightarrow> n \<le> length b \<Longrightarrow> 0 \<notin> set (take n (map lower8 b)) \<Longrightarrow>
   ci_equal a b n \<longleftrightarrow> map lower8 (take n a) = map lower8 (take n b)"
  by (induction a b n rule: ci_equal.induct) (auto simp: Let_def)

lemma lower8_colon [simp]: "lower8 c = 58 \<longleftrightarrow> c = 58"
proof
  assume "lower8 c = 58"
  then show "c = 58"
  proof (cases "65 \<le> c \<and> c \<le> 90")
    case True
    then have "c + 32 = 58" using \<open>lower8 c = 58\<close> by (simp add: lower8_def)
    then have "c = 58 - 32" by (simp add: eq_diff_eq)
    then show ?thesis using True by simp
  qed (simp add: lower8_def)
qed (simp add: lower8_def)

definition te_name :: bytes where "te_name = ascii ''transfer-encoding''"
definition cl_name :: bytes where "cl_name = ascii ''content-length''"

lemma names_facts:
  "length te_name = 17" "length cl_name = 14" "58 \<notin> set te_name" "58 \<notin> set cl_name" "0 \<notin> set te_name" "0 \<notin> set cl_name"
  "map lower8 te_name = te_name" "map lower8 cl_name = cl_name" "ascii ''content-length:'' = cl_name @ [58]"
  by (simp_all add: te_name_def cl_name_def ascii_def lower8_def)

subsection \<open>The length of the body\<close>

lemma header_text_eq: "header_text h = fst h @ 58 # 32 # snd h"
  by (simp add: header_text_def)

lemma no_ci_prefix:
  assumes "58 \<notin> set p" "0 \<notin> set p" "map lower8 p = p" "k = length p" "58 \<notin> set (fst h)" "take k (map lower8 (fst h)) \<noteq> p"
    and "k \<le> length (header_text h @ [13])"
  shows "\<not> ci_equal (header_text h @ [13]) p k"
proof
  assume c: "ci_equal (header_text h @ [13]) p k"
  have eq: "map lower8 (take k (header_text h @ [13])) = p"
    using c assms(2,3,4,7) by (subst (asm) ci_equal_iff) simp_all
  show False
  proof (cases "k \<le> length (fst h)")
    case True
    then show False using eq assms(6) by (simp add: header_text_eq take_map)
  next
    case False
    then have "58 \<in> set (take k (header_text h @ [13]))" by (simp add: header_text_eq take_Cons')
    then have "lower8 58 \<in> set p" using eq by (metis image_eqI set_map)
    then show False using assms(1) by (simp add: lower8_def)
  qed
qed

lemma content_length_line_plain:
  assumes "plain_header h"
  shows "content_length_line (header_text h @ [13]) seen = Some seen"
proof -
  let ?l = "header_text h @ [13]"
  have c58: "58 \<notin> set (fst h)" using assms by (simp add: plain_header_def header_ok_def)
  have te: "\<not> ci_equal ?l te_name 17" if "17 \<le> length ?l"
    using no_ci_prefix [of te_name 17 h] names_facts c58 assms that by (auto simp: plain_header_def te_name_def)
  have cl: "\<not> ci_equal ?l (cl_name @ [58]) 15" if n: "15 \<le> length ?l"
  proof
    assume c: "ci_equal ?l (cl_name @ [58]) 15"
    have eq: "map lower8 (take 15 ?l) = cl_name @ [58]"
      using c n names_facts by (subst (asm) ci_equal_iff) (simp_all add: lower8_def)
    consider "length (fst h) = 14" | "length (fst h) < 14" | "14 < length (fst h)" by linarith
    then show False
    proof cases
      case 1
      then have "map lower8 (fst h) = cl_name" using eq by (simp add: header_text_eq lower8_def)
      then show False using assms by (simp add: plain_header_def cl_name_def)
    next
      case 2
      then have "map lower8 (take 15 ?l) ! length (fst h) = 58" by (simp add: header_text_eq nth_append lower8_def)
      then have "cl_name ! length (fst h) = 58" unfolding eq using 2 names_facts by (simp add: nth_append)
      then show False using 2 names_facts(2,4) nth_mem by metis
    next
      case 3
      then have "map lower8 (take 15 ?l) ! 14 = lower8 (fst h ! 14)" by (simp add: header_text_eq nth_append)
      then have "fst h ! 14 = 58" unfolding eq using names_facts by (simp add: nth_append)
      then show False using 3 c58 nth_mem by metis
    qed
  qed
  show ?thesis using te cl unfolding content_length_line_def te_name_def [symmetric] names_facts(9) by (auto simp: Let_def)
qed

lemma content_length_line_length:
  assumes "n \<le> 2 ^ 60"
  shows "content_length_line (header_text (ascii ''Content-Length'', dec_nat n) @ [13]) None = Some (Some (of_nat n))"
proof -
  let ?h = "(ascii ''Content-Length'', dec_nat n)"
  let ?l = "header_text ?h @ [13]"
  have name: "map lower8 (ascii ''Content-Length'') = cl_name" "length (ascii ''Content-Length'') = 14"
    by (simp_all add: ascii_def lower8_def cl_name_def)
  have len: "17 \<le> length ?l" using dec_nat_ne [of n] by (cases "dec_nat n") (simp_all add: header_text_eq name)
  have te: "\<not> ci_equal ?l te_name 17"
  proof (rule no_ci_prefix)
    show "58 \<notin> set (fst ?h)" by (simp add: ascii_def)
    have "length (take 17 (map lower8 (fst ?h))) \<noteq> length te_name" using names_facts(1) name(2) by simp
    then show "take 17 (map lower8 (fst ?h)) \<noteq> te_name" by metis
  qed (use len names_facts in auto)
  have cl: "ci_equal ?l (cl_name @ [58]) 15"
    using len names_facts name by (subst ci_equal_iff) (simp_all add: header_text_eq lower8_def)
  obtain c cs where d: "dec_nat n = c # cs" by (cases "dec_nat n") auto
  then have c: "\<not> is_blank c" using dec_nat_digits [of n] by (auto simp: is_blank_def)
  have rest: "drop 15 ?l = 32 # dec_nat n @ [13]" by (simp add: header_text_eq name)
  then have v: "dropWhile is_blank (drop 15 ?l) = dec_nat n @ [13]" using c by (simp add: d is_blank_def)
  have "digits_value 0 (dec_nat n @ [13]) = Some (of_nat n, [13])"
    using digits_value_digits [of "dec_nat n" 0 "[]"] dec_nat_digits [of n] digits_nat_dec [of n] assms by (simp add: digits_nat_def)
  then show ?thesis using te cl len v d
    unfolding content_length_line_def te_name_def [symmetric] names_facts(9) by (auto simp: Let_def)
qed

lemma content_length_lines_step:
  assumes "10 \<notin> set l"
  shows "content_length_lines (l @ crlf @ rest) seen =
    (case content_length_line (l @ [13]) seen of None \<Rightarrow> None | Some seen \<Rightarrow> content_length_lines rest seen)"
proof -
  have eq: "l @ crlf @ rest = (l @ [13]) @ 10 # rest" and n: "10 \<notin> set (l @ [13])" using assms by (simp_all add: crlf_def)
  have ne: "(l @ [13]) @ 10 # rest \<noteq> []" by simp
  show ?thesis unfolding eq
    by (subst content_length_lines.simps) (simp only: takeWhile_upto [OF n] dropWhile_upto [OF n] ne if_False list.case)
qed

lemma content_length_lines_headers:
  assumes "list_all plain_header hs" "n \<le> 2 ^ 60"
  shows "content_length_lines (text_lines (map header_text (with_length hs n)) @ crlf) None = Some (Some (of_nat n))"
  using assms(1)
proof (induction hs)
  case Nil
  have "10 \<notin> set (header_text (ascii ''Content-Length'', dec_nat n))"
    using dec_nat_digits [of n] by (auto simp: header_text_eq ascii_def)
  moreover have "content_length_lines [13, 10] seen = Some seen" for seen
    using content_length_lines_step [of "[]" "[]" seen]
    by (simp add: crlf_def content_length_line_def content_length_lines.simps [of "[]"])
  ultimately show ?case
    using content_length_line_length [OF assms(2)] by (simp add: with_length_def content_length_lines_step) (simp add: crlf_def)
next
  case (Cons h hs)
  then have h: "plain_header h" by simp
  then have "10 \<notin> set (header_text h)" by (simp add: plain_header_def header_ok_def clean_def header_text_eq)
  then show ?case using Cons content_length_line_plain [OF h] by (simp add: with_length_def content_length_lines_step)
qed

lemma head_content_length_head:
  assumes "request_ok method target headers n" "n \<le> 2 ^ 60"
  shows "head_content_length (request_head method target headers n) = Some (of_nat n, True)"
proof -
  let ?l = "request_line method target"
  let ?R = "text_lines (map header_text (with_length headers n)) @ crlf"
  have "10 \<notin> set (?l @ [13])" using assms by (simp add: request_ok_def request_line_def clean_def ascii_def)
  moreover have "request_head method target headers n = (?l @ [13]) @ 10 # ?R" by (simp add: request_head_def crlf_def)
  ultimately have "dropWhile (\<lambda>c. c \<noteq> 10) (request_head method target headers n) = 10 # ?R"
    using dropWhile_upto by metis
  then show ?thesis
    using content_length_lines_headers [of headers n] assms by (simp add: head_content_length_def request_ok_def)
qed

subsection \<open>The round trip of a request\<close>

lemma c_str_stop: "0 \<notin> set s \<Longrightarrow> c_str (s @ 0 # r) = s"
  by (simp add: c_str_def takeWhile_upto)

lemma c_str_none: "0 \<notin> set s \<Longrightarrow> c_str s = s"
  by (simp add: c_str_def takeWhile_none)

lemma strip_value:
  assumes "v = [] \<or> \<not> is_blank (hd v) \<and> \<not> is_blank (last v)" "13 \<notin> set v"
  shows "strip_right (dropWhile is_blank (32 # v @ [13])) = v"
proof (cases v)
  case Nil
  then show ?thesis by (simp add: strip_right_def is_blank_def)
next
  case (Cons c cs)
  then have hd: "\<not> is_blank c" and last: "\<not> is_blank (last v)" using assms by auto
  obtain w x where v: "v = w @ [x]" using Cons by (metis append_butlast_last_id list.distinct(1))
  have "dropWhile (\<lambda>c. is_blank c \<or> c = 13) (rev v) = rev v" using last assms(2) by (auto simp: v)
  moreover have "dropWhile is_blank (32 # v @ [13]) = v @ [13]" using hd Cons by (simp add: is_blank_def)
  ultimately show ?thesis by (simp add: strip_right_def)
qed

lemma header_lines_headers:
  assumes "list_all header_ok hs" "length hs \<le> k"
  shows "header_lines k (text_lines (map header_text hs)) = hs"
  using assms
proof (induction hs arbitrary: k)
  case Nil
  then show ?case by (cases k) simp_all
next
  case (Cons h hs)
  obtain k' where k: "k = Suc k'" and len: "length hs \<le> k'" using Cons.prems by (cases k) auto
  have h: "header_ok h" using Cons.prems by simp
  let ?l = "header_text h @ [13]"
  let ?T = "text_lines (map header_text hs)"
  have l10: "10 \<notin> set ?l" using h by (simp add: header_ok_def clean_def header_text_eq)
  have T: "text_lines (map header_text (h # hs)) = ?l @ 10 # ?T" by (simp add: crlf_def)
  have hd: "hd (?l @ 10 # ?T) \<noteq> 13" "hd (?l @ 10 # ?T) \<noteq> 10"
    using h by (cases "fst h"; auto simp: header_ok_def clean_def header_text_eq)+
  have f58: "58 \<notin> set (fst h)" using h by (simp add: header_ok_def)
  have line: "?l = fst h @ 58 # 32 # snd h @ [13]" by (simp add: header_text_eq)
  have name: "takeWhile (\<lambda>c. c \<noteq> 58) ?l = fst h" unfolding line by (rule takeWhile_upto [OF f58])
  have val: "tl (dropWhile (\<lambda>c. c \<noteq> 58) ?l) = 32 # snd h @ [13]" unfolding line dropWhile_upto [OF f58] by simp
  have strip: "strip_right (dropWhile is_blank (32 # snd h @ [13])) = snd h"
    by (rule strip_value) (use h in \<open>auto simp: header_ok_def clean_def\<close>)
  have s: "snprintf_to 64 (fst h) = fst h" "snprintf_to 512 (snd h) = snd h" using h by (auto simp: snprintf_to_def header_ok_def)
  have in58: "58 \<in> set ?l" by (simp add: line)
  have "header_lines k (?l @ 10 # ?T) = (fst h, snd h) # header_lines k' ?T"
    unfolding k header_lines.simps Let_def takeWhile_upto [OF l10] dropWhile_upto [OF l10] name val strip s
    using hd in58 by (simp del: append_assoc)
  then show ?case unfolding T using Cons.IH [of k'] Cons.prems len by simp
qed

lemma plain_header_ok: "plain_header h \<Longrightarrow> header_ok h"
  by (simp add: plain_header_def)

lemma length_header_ok: "length (dec_nat n) \<le> 511 \<Longrightarrow> header_ok (ascii ''Content-Length'', dec_nat n)"
proof -
  assume "length (dec_nat n) \<le> 511"
  moreover have "\<not> is_blank c \<and> c \<noteq> 0 \<and> c \<noteq> 10 \<and> c \<noteq> 13" if "c \<in> set (dec_nat n)" for c
    using dec_nat_digits [of n] that by (auto simp: is_blank_def)
  ultimately show ?thesis using hd_in_set [OF dec_nat_ne [of n]] last_in_set [OF dec_nat_ne [of n]]
    by (auto simp: header_ok_def clean_def ascii_def)
qed

definition parsed_request :: "bytes \<Rightarrow> bytes \<Rightarrow> (bytes \<times> bytes) list \<Rightarrow> bytes \<Rightarrow> http_req" where
  "parsed_request method target headers body =
     \<lparr>rq_method = method, rq_path = takeWhile (\<lambda>c. c \<noteq> 63) target, rq_query = drop 1 (dropWhile (\<lambda>c. c \<noteq> 63) target),
      rq_headers = headers, rq_body = body\<rparr>"

lemma take_before_crlf: "take (length (x @ crlf) - 2) ((x @ crlf) @ b) = x"
  by (simp add: crlf_def)

lemma query_fits: "length d \<le> 511 \<Longrightarrow> (case d of [] \<Rightarrow> [] | q # query \<Rightarrow> snprintf_to 512 query) = drop 1 d"
  by (cases d) (simp_all add: snprintf_to_def)

lemma parse_request_head:
  assumes ok: "request_ok method target headers n" and n: "length (dec_nat n) \<le> 511"
  shows "parse_request (request_head method target headers n @ body) (length (request_head method target headers n)) =
    Some (parsed_request method target (with_length headers n) body)"
proof -
  let ?H = "request_head method target headers n"
  let ?L = "text_lines (map header_text (with_length headers n))"
  let ?v = "ascii ''HTTP/1.1'' @ [13]"
  have m32: "32 \<notin> set method" and t32: "32 \<notin> set target" and lens: "length method \<le> 7" "length target \<le> 511"
    and m0: "0 \<notin> set method" "0 \<notin> set target"
    using ok by (simp_all add: request_ok_def clean_def)
  have hs: "list_all header_ok (with_length headers n)" "length (with_length headers n) \<le> VV_HTTP_MAX_HEADERS"
    using ok plain_header_ok length_header_ok [OF n]
    by (auto simp: request_ok_def with_length_def list_all_iff VV_HTTP_MAX_HEADERS_def)
  have H: "?H = (method @ 32 # target @ 32 # ?v @ 10 # ?L) @ crlf"
    by (simp add: request_head_def request_line_def crlf_def)
  let ?r2 = "?v @ 10 # ?L @ [0, 10]"
  have head: "take (length ?H - 2) (?H @ body) @ [0, 10] = method @ 32 # target @ 32 # ?r2"
    unfolding H take_before_crlf by simp
  have L0: "0 \<notin> set ?L"
  proof -
    have "0 \<notin> set (text_lines (map header_text hs))" if "list_all header_ok hs" for hs
      using that by (induction hs) (auto simp: header_ok_def clean_def header_text_eq crlf_def)
    then show ?thesis using hs by blast
  qed
  have v0: "0 \<notin> set (?v @ 10 # ?L)" "10 \<notin> set ?v" using L0 by (simp_all add: ascii_def)
  have c2: "c_str ?r2 = ?v @ 10 # ?L" using c_str_stop [OF v0(1), of "[10]"] by simp
  have s: "snprintf_to 8 (c_str method) = method" "snprintf_to 512 (c_str target) = target"
    using lens m0 by (simp_all add: c_str_none snprintf_to_def)
  have q: "(case dropWhile (\<lambda>c. c \<noteq> 63) target of [] \<Rightarrow> [] | q # query \<Rightarrow> snprintf_to 512 query) = drop 1 (dropWhile (\<lambda>c. c \<noteq> 63) target)"
    by (rule query_fits) (rule order.trans [OF length_dropWhile_le lens(2)])
  show ?thesis
    unfolding parse_request_def Let_def head dropWhile_upto [OF m32] takeWhile_upto [OF m32] list.case
      dropWhile_upto [OF t32] takeWhile_upto [OF t32] s q c2 dropWhile_upto [OF v0(2)] header_lines_headers [OF hs]
    by (simp add: parsed_request_def)
qed

lemma length_dec_nat: "n < 10 ^ k \<Longrightarrow> 0 < k \<Longrightarrow> length (dec_nat n) \<le> k"
proof (induction n arbitrary: k rule: dec_nat.induct)
  case (1 n)
  show ?case
  proof (cases "n < 10")
    case True
    then show ?thesis using 1 by (subst dec_nat.simps) simp
  next
    case False
    then obtain k' where k: "k = Suc k'" "0 < k'" using 1(2) by (cases k; cases "k - 1") auto
    have "length (dec_nat (n div 10)) \<le> k'" by (rule "1.IH") (use False 1(2) k in auto)
    then show ?thesis using False k by (subst dec_nat.simps) simp
  qed
qed

lemma request_read:
  assumes ok: "request_ok method target headers n" and n: "n \<le> max_body" "max_body < 2 ^ 30" and h: "host_never_fails h"
    and c: "carries chunks (request_head method target headers n @ rest)"
  shows "\<exists>k ptr h'. read_request max_body chunks h =
      (Some (parsed_request method target (with_length headers n) (take k rest), ptr), h') \<and> min n (length rest) \<le> k"
proof -
  let ?H = "request_head method target headers n"
  let ?ls = "request_line method target # map header_text (with_length headers n)"
  let ?e = "length (text_lines ?ls) - 2"
  have dig: "length (dec_nat n) \<le> 511" using length_dec_nat [of n 10] n by simp
  have "list_all header_ok (with_length headers n)"
    using ok plain_header_ok length_header_ok [OF dig] by (auto simp: request_ok_def with_length_def list_all_iff)
  then have ls: "\<forall>l \<in> set ?ls. clean l \<and> l \<noteq> []"
    using ok by (auto simp: list_all_iff header_ok_def clean_def header_text_eq request_ok_def request_line_def ascii_def)
  have H: "?H = text_lines ?ls @ crlf" and len: "?e + 4 = length ?H" by (simp_all add: request_head_def crlf_def)
  have find: "mem_find (?H @ rest) blank_line = Some ?e"
    using blank_line_after_lines [OF _ ls, of rest] unfolding H by simp
  have u: "unat (of_nat n :: u64) = n"
    unfolding unsigned_of_nat of_nat_id by (intro take_bit_nat_eq_self) (use n in simp)
  have "\<exists>k ptr h'. read_request max_body chunks h =
      (Some (parsed_request method target (with_length headers n) (take (k - length ?H) rest), ptr), h') \<and>
      min (?e + 4 + unat (of_nat n :: u64)) (length (?H @ rest)) \<le> k \<and> k \<le> length (?H @ rest)"
  proof (rule read_request_delivers [OF _ _ n(2) find _ h c])
    show "?e + 4 \<le> 65536" using ok unfolding len by (simp add: request_ok_def)
    show "unat (of_nat n :: u64) \<le> max_body" using n u by simp
    show "head_content_length (take (?e + 4) (?H @ rest)) = Some (of_nat n, True)"
      unfolding len using head_content_length_head [OF ok] n by simp
    show "parse_request (take k (?H @ rest)) (?e + 4) =
        Some (parsed_request method target (with_length headers n) (take (k - length ?H) rest))" if "?e + 4 \<le> k" for k
      using that unfolding len by (simp add: parse_request_head [OF ok dig])
  qed
  then obtain k ptr h' where k: "read_request max_body chunks h =
      (Some (parsed_request method target (with_length headers n) (take (k - length ?H) rest), ptr), h')"
    "min (length ?H + n) (length (?H @ rest)) \<le> k" unfolding len u by blast
  have "min n (length rest) \<le> k - length ?H" using k(2) by auto
  then show ?thesis using k(1) by blast
qed

text \<open>
  C9. A request written by a client that keeps to the limits comes out as it was: method, path, query, every header in order
  with the length, and a body that starts with the content; after it stands some part of what the client sent next (the
  first WebSocket frames). It is so for every way of cutting the bytes into reads.
\<close>

theorem request_roundtrip:
  assumes "request_ok method target headers (length content)" "length content \<le> max_body" "max_body < 2 ^ 30" "host_never_fails h"
    and "carries chunks (request_head method target headers (length content) @ content @ extra)"
  shows "\<exists>k ptr h'. read_request max_body chunks h =
    (Some (parsed_request method target (with_length headers (length content)) (content @ take k extra), ptr), h')"
  using request_read [OF assms] by (auto simp: min_absorb1)

text \<open>
  A client that goes away, or falls silent until the socket's timeout, in the middle of its body is not refused: the
  handler gets the request with the bytes that came as the whole body.
\<close>

theorem request_cut_short_is_served:
  assumes "request_ok method target headers n" "n \<le> max_body" "max_body < 2 ^ 30" "host_never_fails h"
    and "length part < n" "carries chunks (request_head method target headers n @ part)"
  shows "\<exists>ptr h'. read_request max_body chunks h =
    (Some (parsed_request method target (with_length headers n) part, ptr), h')"
  using request_read [OF assms(1-4,6)] assms(5) by (auto simp: min_def)

definition demo_headers :: "(bytes \<times> bytes) list" where
  "demo_headers = [(ascii ''Host'', ascii ''a''), (ascii ''Content-Type'', ascii ''text/plain'')]"

lemma demo_request_ok: "n \<le> 9 \<Longrightarrow> request_ok (ascii ''POST'') (ascii ''/v1?x=1'') demo_headers n"
  by (simp add: request_ok_def demo_headers_def plain_header_def header_ok_def clean_def ascii_def is_blank_def lower8_def
      request_head_def request_line_def with_length_def header_text_def crlf_def dec_nat.simps)

lemma carries_cut: "b \<noteq> [] \<Longrightarrow> a \<noteq> [] \<Longrightarrow> carries [(a, False), (b, False)] (a @ b)"
  by (simp add: carries_def)

theorem request_roundtrip_witness:
  "\<exists>k ptr h'. read_request 100 
      [(take 7 (request_head (ascii ''POST'') (ascii ''/v1?x=1'') demo_headers 2), False),
       (drop 7 (request_head (ascii ''POST'') (ascii ''/v1?x=1'') demo_headers 2) @ [104, 105] @ [7], False)] demo_heap =
    (Some (parsed_request (ascii ''POST'') (ascii ''/v1?x=1'') (with_length demo_headers 2) ([104, 105] @ take k [7]), ptr), h')"
proof -
  let ?H = "request_head (ascii ''POST'') (ascii ''/v1?x=1'') demo_headers 2"
  have "take 7 ?H \<noteq> []" by (simp add: request_head_def request_line_def crlf_def)
  then have "carries [(take 7 ?H, False), (drop 7 ?H @ [104, 105] @ [7], False)] (take 7 ?H @ drop 7 ?H @ [104, 105] @ [7])"
    by (intro carries_cut) simp_all
  then have c: "carries [(take 7 ?H, False), (drop 7 ?H @ [104, 105] @ [7], False)] (?H @ [104, 105] @ [7])"
    by (simp only: append_assoc [symmetric] append_take_drop_id)
  have l: "length [104 :: u8, 105] = 2" by simp
  have ok: "request_ok (ascii ''POST'') (ascii ''/v1?x=1'') demo_headers (length [104 :: u8, 105])"
    unfolding l by (rule demo_request_ok) simp
  show ?thesis using request_roundtrip [OF ok, of 100 demo_heap, unfolded l, OF _ _ demo_heap_host c] by simp
qed

theorem request_cut_short_is_served_witness:
  "\<exists>ptr h'. read_request 100 [(request_head (ascii ''POST'') (ascii ''/v1?x=1'') demo_headers 5, False), ([104, 105], False)] demo_heap =
    (Some (parsed_request (ascii ''POST'') (ascii ''/v1?x=1'') (with_length demo_headers 5) [104, 105], ptr), h')"
proof -
  let ?H = "request_head (ascii ''POST'') (ascii ''/v1?x=1'') demo_headers 5"
  have "?H \<noteq> []" by (simp add: request_head_def crlf_def)
  then have c: "carries [(?H, False), ([104, 105], False)] (?H @ [104, 105])" by (intro carries_cut) simp_all
  show ?thesis by (rule request_cut_short_is_served [OF demo_request_ok _ _ demo_heap_host _ c]) simp_all
qed

theorem read_request_memory_witness:
  "case read_request 100 [(request_head (ascii ''POST'') (ascii ''/v1?x=1'') demo_headers 0, False)] demo_heap of
     (None, h') \<Rightarrow> owns h' {#}
   | (Some (req, ptr), h') \<Rightarrow> owns h' (add_mset (Host, ptr) {#}) \<and> length (rq_body req) \<le> 2 * (100 + 2 ^ 20) \<and>
       length (rq_headers req) \<le> VV_HTTP_MAX_HEADERS"
  by (rule read_request_memory [OF demo_heap_owns])

subsection \<open>A multipart body as a client writes it\<close>

text \<open>A field: its name, the file name and content type it may have, its data.\<close>

type_synonym field = "bytes \<times> bytes option \<times> bytes option \<times> bytes"

definition disposition :: "bytes \<Rightarrow> bytes option \<Rightarrow> bytes" where
  "disposition nm fn = ascii ''Content-Disposition: form-data; name='' @ [34] @ nm @ [34] @
     (case fn of None \<Rightarrow> [] | Some f \<Rightarrow> ascii ''; filename='' @ [34] @ f @ [34])"

definition field_lines :: "field \<Rightarrow> bytes list" where
  "field_lines = (\<lambda>(nm, fn, ct, d). disposition nm fn # (case ct of None \<Rightarrow> [] | Some t \<Rightarrow> [ascii ''Content-Type: '' @ t]))"

definition field_text :: "bytes \<Rightarrow> field \<Rightarrow> bytes" where
  "field_text sep = (\<lambda>(nm, fn, ct, d). sep @ crlf @ text_lines (field_lines (nm, fn, ct, d)) @ crlf @ d @ crlf)"

definition multipart_text :: "bytes \<Rightarrow> field list \<Rightarrow> bytes" where
  "multipart_text sep fs = concat (map (field_text sep) fs) @ sep @ [45, 45] @ crlf"

definition field_ok :: "bytes \<Rightarrow> field \<Rightarrow> bool" where
  "field_ok sep = (\<lambda>(nm, fn, ct, d). clean nm \<and> 34 \<notin> set nm \<and> 61 \<notin> set nm \<and> length nm \<le> 127 \<and>
     (case fn of None \<Rightarrow> True | Some f \<Rightarrow> clean f \<and> 34 \<notin> set f \<and> length f \<le> 255) \<and>
     (case ct of None \<Rightarrow> True | Some t \<Rightarrow> clean t \<and> 34 \<notin> set t) \<and> mem_find d sep = None)"

lemma mem_find_absent: "needle \<noteq> [] \<Longrightarrow> x \<in> set needle \<Longrightarrow> x \<notin> set hay \<Longrightarrow> mem_find hay needle = None"
  by (metis in_set_dropD in_set_takeD mem_find_None)

lemma mem_find_shift:
  assumes "needle \<noteq> []"
  shows "\<forall>j < length u. take (length needle) (drop j (u @ hay)) \<noteq> needle \<Longrightarrow>
    mem_find (u @ hay) needle = map_option (\<lambda>i. length u + i) (mem_find hay needle)"
proof (induction u)
  case Nil
  show ?case by (cases "mem_find hay needle") simp_all
next
  case (Cons c u)
  have "take (length needle) (drop 0 ((c # u) @ hay)) \<noteq> needle" using Cons.prems by blast
  moreover have "\<forall>j < length u. take (length needle) (drop j (u @ hay)) \<noteq> needle" using Cons.prems by (metis Suc_less_eq append_Cons drop_Suc_Cons length_Cons)
  ultimately show ?case using Cons.IH by (cases "mem_find hay needle") (simp_all add: mem_find_Cons [OF assms])
qed

lemma mem_find_prefix_self: "needle \<noteq> [] \<Longrightarrow> mem_find (needle @ r) needle = Some 0"
  by (simp add: mem_find_Some)

definition name_key :: bytes where "name_key = ascii ''name='' @ [34]"
definition filename_key :: bytes where "filename_key = ascii ''filename='' @ [34]"

lemma find_name: "mem_find (ascii ''Content-Disposition: form-data; name='' @ 34 # r) name_key = Some 32"
  by (simp add: ascii_def name_key_def mem_find_Cons)

lemma skip_to_name:
  "mem_find (ascii ''Content-Disposition: form-data; name='' @ 34 # r) filename_key = map_option (\<lambda>i. 38 + i) (mem_find r filename_key)"
  by (cases "mem_find r filename_key") (simp_all add: ascii_def filename_key_def mem_find_Cons)

lemma skip_name:
  assumes "34 \<notin> set nm" "61 \<notin> set nm"
  shows "mem_find (nm @ 34 # r) filename_key = map_option (\<lambda>i. length nm + 1 + i) (mem_find r filename_key)"
proof -
  let ?p = "ascii ''filename=''"
  have p: "34 \<notin> set ?p" "length ?p = 9" "?p ! 8 = 61" by (simp_all add: ascii_def)
  have no34: "?p ! i \<noteq> 34" if "i < 9" for i using p nth_mem [of i ?p] that by metis
  have k: "length filename_key = 10" "filename_key ! 8 = 61" "filename_key \<noteq> []" "filename_key ! 9 = 34"
    "\<And>i. i < 9 \<Longrightarrow> filename_key ! i \<noteq> 34"
    using p by (simp_all add: filename_key_def nth_append no34)
  have "take 10 (drop j ((nm @ [34]) @ r)) \<noteq> filename_key" if j: "j < length (nm @ [34])" for j
  proof
    assume m: "take 10 (drop j ((nm @ [34]) @ r)) = filename_key"
    then have at: "((nm @ [34]) @ r) ! (j + i) = filename_key ! i" if "i < 10" for i
    proof -
      have "length (take 10 (drop j ((nm @ [34]) @ r))) = 10" using m k(1) by simp
      then have "j + 10 \<le> length ((nm @ [34]) @ r)" by simp
      then have "j \<le> length ((nm @ [34]) @ r)" by linarith
      then show ?thesis unfolding m [symmetric] nth_take [OF that] by (rule nth_drop [symmetric])
    qed
    show False
    proof (cases "j + 9 < length nm")
      case True
      then have "nm ! (j + 9) = 34" using at [of 9] k(4) by (simp add: nth_append)
      then show False using assms(1) True nth_mem by metis
    next
      case False
      then have i: "length nm - j < 10" and le: "j \<le> length nm" using j by auto
      have "((nm @ [34]) @ r) ! (j + (length nm - j)) = 34" using le by (simp add: nth_append)
      then have "filename_key ! (length nm - j) = 34" using at [OF i] by simp
      then have "length nm - j = 9" using k(5) [of "length nm - j"] i by linarith
      then have l: "j + 8 < length nm" by linarith
      then have "nm ! (j + 8) = 61" using at [of 8] k(2) by (simp add: nth_append)
      then show False using assms(2) l nth_mem by metis
    qed
  qed
  then show ?thesis using mem_find_shift [OF k(3), of "nm @ [34]" r] k(1) by simp
qed

lemma find_filename: "mem_find (ascii ''; filename='' @ 34 # r) filename_key = Some 2"
  by (simp add: ascii_def filename_key_def mem_find_Cons)

definition field_header :: "field \<Rightarrow> bytes" where
  "field_header = (\<lambda>(nm, fn, ct, d). disposition nm fn @ (case ct of None \<Rightarrow> [] | Some t \<Rightarrow> crlf @ ascii ''Content-Type: '' @ t))"

lemma field_lines_header: "text_lines (field_lines f) = field_header f @ crlf"
  by (cases f) (auto simp: field_lines_def field_header_def split: option.splits)

lemma field_lines_clean:
  "field_ok sep f \<Longrightarrow> \<forall>l \<in> set (field_lines f). clean l \<and> l \<noteq> []"
  by (cases f) (auto simp: field_lines_def field_ok_def disposition_def clean_def ascii_def split: option.splits)

lemma field_name:
  assumes "field_ok sep (nm, fn, ct, d)"
  shows "quoted_after (field_header (nm, fn, ct, d)) name_key 127 = nm"
proof -
  let ?key = "ascii ''Content-Disposition: form-data; name=''"
  obtain r where h: "field_header (nm, fn, ct, d) = ?key @ 34 # nm @ 34 # r"
    by (simp add: field_header_def disposition_def)
  have l: "length ?key + 1 = 32 + length name_key" by (simp add: name_key_def ascii_def)
  have "?key @ 34 # nm @ 34 # r = (?key @ [34]) @ nm @ 34 # r" by simp
  moreover have "length (?key @ [34]) = 32 + length name_key" using l by simp
  ultimately have "drop (32 + length name_key) (?key @ 34 # nm @ 34 # r) = nm @ 34 # r" by simp
  then show ?thesis using assms by (simp add: quoted_after_def h find_name takeWhile_upto field_ok_def)
qed

lemma field_filename:
  assumes "field_ok sep (nm, fn, ct, d)"
  shows "quoted_after (field_header (nm, fn, ct, d)) filename_key 255 = (case fn of None \<Rightarrow> [] | Some f \<Rightarrow> f)"
proof -
  let ?key = "ascii ''Content-Disposition: form-data; name=''"
  define tl where "tl = (case ct of None \<Rightarrow> [] | Some t \<Rightarrow> crlf @ ascii ''Content-Type: '' @ t)"
  define r where "r = (case fn of None \<Rightarrow> [] | Some f \<Rightarrow> ascii ''; filename='' @ [34] @ f @ [34]) @ tl"
  have h: "field_header (nm, fn, ct, d) = ?key @ 34 # nm @ 34 # r"
    by (simp add: field_header_def disposition_def r_def tl_def)
  have f: "mem_find (field_header (nm, fn, ct, d)) filename_key = map_option (\<lambda>i. 38 + (length nm + 1 + i)) (mem_find r filename_key)"
    using skip_name [of nm r] assms unfolding h skip_to_name by (simp add: field_ok_def option.map_comp comp_def)
  show ?thesis
  proof (cases fn)
    case None
    have "34 \<notin> set tl" using assms by (auto simp: tl_def crlf_def ascii_def field_ok_def split: option.splits)
    then have "mem_find r filename_key = None" using None by (intro mem_find_absent [where x = 34]) (simp_all add: r_def filename_key_def)
    then show ?thesis using f None by (simp add: quoted_after_def)
  next
    case (Some g)
    have r: "r = ascii ''; filename='' @ 34 # g @ 34 # tl" by (simp add: r_def Some)
    have m: "mem_find (field_header (nm, fn, ct, d)) filename_key = Some (41 + length nm)" using f find_filename [of "g @ 34 # tl"] by (simp add: r)
    have "field_header (nm, fn, ct, d) = (?key @ 34 # nm @ 34 # ascii ''; filename='' @ [34]) @ g @ 34 # tl" by (simp add: h r)
    moreover have "length (?key @ 34 # nm @ 34 # ascii ''; filename='' @ [34]) = 41 + length nm + length filename_key"
      by (simp add: ascii_def filename_key_def)
    ultimately have "drop (41 + length nm + length filename_key) (field_header (nm, fn, ct, d)) = g @ 34 # tl"
      by (metis append_eq_conv_conj)
    then show ?thesis using m assms by (simp add: quoted_after_def Some takeWhile_upto field_ok_def)
  qed
qed

text \<open>The separator has none of the bytes of a line break.\<close>

definition sep_ok :: "bytes \<Rightarrow> bool" where
  "sep_ok sep \<longleftrightarrow> sep \<noteq> [] \<and> 13 \<notin> set sep \<and> 10 \<notin> set sep"

lemma find_next_sep:
  assumes "sep_ok sep" "mem_find d sep = None"
  shows "mem_find (d @ crlf @ sep @ r) sep = Some (length d + 2)"
proof -
  have s: "sep \<noteq> []" "13 \<notin> set sep" "10 \<notin> set sep" using assms(1) by (auto simp: sep_ok_def)
  have "mem_find (10 # sep @ r) sep = Some 1"
    using mem_find_across [OF s(1,3), of "[]" "sep @ r"] mem_find_prefix_self [OF s(1), of r] by (simp add: mem_find_Nil [OF s(1)])
  then show ?thesis using mem_find_across [OF s(1,2) assms(2), of "10 # sep @ r"] by (simp add: crlf_def)
qed

lemma multipart_turn_field:
  assumes ok: "field_ok sep (nm, fn, ct, d)" and sep: "sep_ok sep"
    and body: "body = pre @ field_text sep (nm, fn, ct, d) @ sep @ r"
  shows "\<exists>pt. multipart_turn body sep (length pre) = Some (pt, Some (length pre + length (field_text sep (nm, fn, ct, d)))) \<and>
    pt_name pt = nm \<and> pt_filename pt = (case fn of None \<Rightarrow> [] | Some f \<Rightarrow> f) \<and> take (pt_size pt) (drop (pt_data pt) body) = d"
proof -
  let ?f = "(nm, fn, ct, d)"
  let ?h = "field_header ?f"
  let ?p = "length pre + length sep"
  have ft: "field_text sep ?f = sep @ crlf @ ?h @ crlf @ crlf @ d @ crlf"
    by (simp add: field_text_def field_lines_header)
  have b0: "body = (pre @ sep) @ 13 # 10 # ?h @ crlf @ crlf @ d @ crlf @ sep @ r" by (simp add: body ft crlf_def)
  have t13: "two_at body ?p 13 10" and t45: "\<not> two_at body ?p 45 45"
    unfolding b0 two_at_def by (simp_all add: nth_append)
  have d2: "drop (?p + 2) body = ?h @ crlf @ crlf @ d @ crlf @ sep @ r" unfolding b0 by simp
  have hl: "mem_find (drop (?p + 2) body) [13, 10, 13, 10] = Some (length ?h)"
    using blank_line_after_lines [OF _ field_lines_clean [OF ok], of "d @ crlf @ sep @ r"]
    unfolding d2 field_lines_header blank_line_def by (cases "field_lines ?f") (simp_all add: field_lines_def crlf_def)
  define dat where "dat = ?p + 2 + length ?h + 4"
  have b1: "body = (pre @ sep @ crlf @ ?h @ crlf @ crlf) @ d @ crlf @ sep @ r" by (simp add: body ft)
  have l1: "length (pre @ sep @ crlf @ ?h @ crlf @ crlf) = dat" by (simp add: dat_def crlf_def)
  have dd: "drop dat body = d @ crlf @ sep @ r" unfolding b1 l1 [symmetric] by simp
  have nx: "mem_find (drop dat body) sep = Some (length d + 2)"
    unfolding dd by (rule find_next_sep [OF sep]) (use ok in \<open>simp add: field_ok_def\<close>)
  let ?e = "dat + (length d + 2)"
  have at: "body ! (dat + i) = (d @ crlf @ sep @ r) ! i" for i
    unfolding b1 using l1 by (metis nth_append_length_plus)
  have "body ! (dat + length d) = 13" "body ! (dat + (length d + 1)) = 10"
    unfolding at by (simp_all add: nth_append crlf_def)
  then have pe: "part_end body dat (Some ?e) = dat + length d"
    by (simp add: part_end_def Let_def)
  have hdr: "take (length ?h) (drop (?p + 2) body) = ?h" unfolding d2 by simp
  have "multipart_part body sep (?p + 2) = Some (\<lparr>pt_name = nm, pt_filename = (case fn of None \<Rightarrow> [] | Some f \<Rightarrow> f),
     pt_data = dat, pt_size = length d\<rparr>, Some ?e)"
    unfolding multipart_part_def hl option.case Let_def hdr dat_def [symmetric] nx option.map pe
      name_key_def [symmetric] filename_key_def [symmetric] field_name [OF ok] field_filename [OF ok] by simp
  then have "multipart_turn body sep (length pre) = Some (\<lparr>pt_name = nm, pt_filename = (case fn of None \<Rightarrow> [] | Some f \<Rightarrow> f),
     pt_data = dat, pt_size = length d\<rparr>, Some ?e)"
    unfolding multipart_turn_def Let_def using t13 t45 by simp
  moreover have "?e = length pre + length (field_text sep ?f)" by (simp add: dat_def ft crlf_def)
  ultimately show ?thesis using dd by simp
qed

lemma multipart_loop_fields:
  assumes sep: "sep_ok sep" "sep = 45 # 45 # b"
  shows "list_all (field_ok sep) fs \<Longrightarrow> length fs \<le> k \<Longrightarrow> body = pre @ multipart_text sep fs \<Longrightarrow>
    map (\<lambda>pt. (pt_name pt, pt_filename pt, take (pt_size pt) (drop (pt_data pt) body))) (multipart_loop k body sep (Some (length pre))) =
    map (\<lambda>(nm, fn, ct, d). (nm, (case fn of None \<Rightarrow> [] | Some f \<Rightarrow> f), d)) fs"
proof (induction fs arbitrary: k pre)
  case Nil
  have "two_at body (length pre + length sep) 45 45"
    using Nil.prems by (simp add: multipart_text_def two_at_def nth_append)
  then have "multipart_turn body sep (length pre) = None" by (simp add: multipart_turn_def Let_def)
  then show ?case by (cases k) simp_all
next
  case (Cons f fs)
  obtain nm fn ct d where f: "f = (nm, fn, ct, d)" by (cases f) auto
  obtain k' where k: "k = Suc k'" and len: "length fs \<le> k'" using Cons.prems by (cases k) auto
  obtain r where r: "multipart_text sep fs = sep @ r"
    by (cases fs) (auto simp: multipart_text_def field_text_def)
  have body: "body = pre @ field_text sep f @ multipart_text sep fs" using Cons.prems(3) by (simp add: multipart_text_def)
  obtain pt where t: "multipart_turn body sep (length pre) = Some (pt, Some (length pre + length (field_text sep f)))"
    "pt_name pt = nm" "pt_filename pt = (case fn of None \<Rightarrow> [] | Some f \<Rightarrow> f)" "take (pt_size pt) (drop (pt_data pt) body) = d"
    using multipart_turn_field [of sep nm fn ct d body pre r] Cons.prems(1) body sep(1) r f by auto
  have "map (\<lambda>pt. (pt_name pt, pt_filename pt, take (pt_size pt) (drop (pt_data pt) body)))
      (multipart_loop k' body sep (Some (length (pre @ field_text sep f)))) =
    map (\<lambda>(nm, fn, ct, d). (nm, (case fn of None \<Rightarrow> [] | Some f \<Rightarrow> f), d)) fs"
    by (rule Cons.IH) (use Cons.prems(1) len body in simp_all)
  then show ?case using t by (simp add: k f)
qed

definition boundary_ok :: "bytes \<Rightarrow> bool" where
  "boundary_ok b \<longleftrightarrow> b \<noteq> [] \<and> length b \<le> 255 \<and> clean b \<and> 34 \<notin> set b \<and> 59 \<notin> set b \<and> 32 \<notin> set b"

text \<open>The content type a client sends, with the boundary quoted or not.\<close>

definition multipart_type :: "bool \<Rightarrow> bytes \<Rightarrow> bytes" where
  "multipart_type quoted b = ascii ''multipart/form-data; boundary='' @ (if quoted then 34 # b @ [34] else b)"

lemma takeWhile_all: "(\<And>x. x \<in> set xs \<Longrightarrow> P x) \<Longrightarrow> takeWhile P xs = xs"
  by (induction xs) auto

lemma boundary_found:
  assumes "boundary_ok b"
  shows "multipart_boundary (Some (multipart_type quoted b)) = Some b"
proof -
  let ?r = "if quoted then 34 # b @ [34] else b"
  have f: "mem_find (multipart_type quoted b) (ascii ''boundary='') = Some 21"
    by (simp add: multipart_type_def ascii_def mem_find_Cons)
  have d: "drop (21 + length ''boundary='') (multipart_type quoted b) = ?r"
    by (simp add: multipart_type_def ascii_def)
  obtain c cs where b: "b = c # cs" using assms by (cases b) (auto simp: boundary_ok_def)
  have plain: "takeWhile (\<lambda>c. c \<noteq> 59 \<and> c \<noteq> 32 \<and> c \<noteq> 13) b = b"
    by (rule takeWhile_all) (use assms in \<open>auto simp: boundary_ok_def clean_def\<close>)
  have q: "takeWhile (\<lambda>c. c \<noteq> 34) (b @ [34]) = b" using assms by (simp add: takeWhile_upto boundary_ok_def)
  have c: "c \<noteq> 34" "length b \<le> 255" using assms by (auto simp: boundary_ok_def b)
  show ?thesis unfolding multipart_boundary_def option.case f Let_def d
    using plain q c by (cases quoted) (simp_all add: b)
qed

text \<open>
  C10. What a client puts into a form comes out of the body: every field in order, its name, its file name, its data byte for
  byte, as long as the names carry no quote and no line break, and the data does not contain the boundary.
\<close>

theorem multipart_roundtrip:
  assumes "boundary_ok b" "list_all (field_ok ([45, 45] @ b)) fs" "length fs \<le> max_parts"
  shows "map (\<lambda>pt. (pt_name pt, pt_filename pt, take (pt_size pt) (drop (pt_data pt) (multipart_text ([45, 45] @ b) fs))))
      (vv_http_parse_multipart (multipart_text ([45, 45] @ b) fs) (Some (multipart_type quoted b)) max_parts) =
    map (\<lambda>(nm, fn, ct, d). (nm, (case fn of None \<Rightarrow> [] | Some f \<Rightarrow> f), d)) fs"
proof -
  let ?sep = "[45, 45] @ b"
  let ?body = "multipart_text ?sep fs"
  have sep: "sep_ok ?sep" "?sep = 45 # 45 # b" using assms(1) by (auto simp: sep_ok_def boundary_ok_def clean_def)
  obtain r where r: "?body = ?sep @ r" by (cases fs) (auto simp: multipart_text_def field_text_def split: prod.splits)
  have "mem_find ?body ?sep = Some 0" unfolding r by (rule mem_find_prefix_self) simp
  then have "vv_http_parse_multipart ?body (Some (multipart_type quoted b)) max_parts = multipart_loop max_parts ?body ?sep (Some (length ([] :: bytes)))"
    unfolding vv_http_parse_multipart_def boundary_found [OF assms(1)] by (simp add: Let_def)
  then show ?thesis using multipart_loop_fields [OF sep assms(2,3), of ?body "[]"] by (simp only: append_Nil)
qed

text \<open>
  A part that names its file first is taken for a field of that name: the search for \<^verbatim>\<open>name="\<close> also matches the end of
  \<^verbatim>\<open>filename="\<close>.
\<close>

theorem multipart_filename_first_misnamed:
  "map (\<lambda>pt. (pt_name pt, pt_filename pt))
     (vv_http_parse_multipart
        (ascii ''--b'' @ crlf @ ascii ''Content-Disposition: form-data; filename='' @ [34] @ ascii ''a.wav'' @ [34] @
         ascii ''; name='' @ [34] @ ascii ''file'' @ [34] @ crlf @ crlf @ [1, 2, 3] @ crlf @ ascii ''--b--'' @ crlf)
        (Some (ascii ''multipart/form-data; boundary=b'')) VV_HTTP_MAX_PARTS) =
   [(ascii ''a.wav'', ascii ''a.wav'')]"
  by code_simp

definition demo_fields :: "field list" where
  "demo_fields = [(ascii ''model'', None, None, [49]), (ascii ''file'', Some (ascii ''a.wav''), Some (ascii ''audio/wav''), [13, 10, 45, 45])]"

theorem multipart_roundtrip_witness:
  "map (\<lambda>pt. (pt_name pt, pt_filename pt, take (pt_size pt) (drop (pt_data pt) (multipart_text ([45, 45] @ [88]) demo_fields))))
      (vv_http_parse_multipart (multipart_text ([45, 45] @ [88]) demo_fields) (Some (multipart_type True [88])) 16) =
    map (\<lambda>(nm, fn, ct, d). (nm, (case fn of None \<Rightarrow> [] | Some f \<Rightarrow> f), d)) demo_fields"
  by (rule multipart_roundtrip)
    (simp_all add: boundary_ok_def clean_def demo_fields_def field_ok_def ascii_def mem_find_Cons)

subsection \<open>The error envelope\<close>

definition hex_value :: "u8 \<Rightarrow> u8" where
  "hex_value c = (if c \<le> 57 then c - 48 else c - 87)"

text \<open>A reader of JSON strings, for the escapes the server writes; a bare quote or control character is an error.\<close>

fun json_unescape :: "bytes \<Rightarrow> bytes option" where
  "json_unescape [] = Some []"
| "json_unescape (c # cs) =
     (if c = 92 then
        (case cs of
           d # r \<Rightarrow>
             if d = 34 \<or> d = 92 then map_option ((#) d) (json_unescape r)
             else
               (case r of
                  z0 # z1 # a # b # r \<Rightarrow>
                    if d = 117 \<and> z0 = 48 \<and> z1 = 48 then map_option ((#) (16 * hex_value a + hex_value b)) (json_unescape r)
                    else None
                | _ \<Rightarrow> None)
         | [] \<Rightarrow> None)
      else if c = 34 \<or> c < 0x20 then None
      else map_option ((#) c) (json_unescape cs))"

lemma hex_digits_value:
  assumes "c < 0x20"
  shows "16 * hex_value (hex_digit (drop_bit 4 c)) + hex_value (hex_digit (c AND 15)) = c"
proof -
  have "unat c \<in> set [0..<32]" using assms by (simp add: word_less_nat_alt)
  moreover have "\<forall>k \<in> set [0..<32]. 16 * hex_value (hex_digit (drop_bit 4 (of_nat k))) + hex_value (hex_digit (of_nat k AND 15)) = (of_nat k :: u8)"
    by code_simp
  ultimately have "16 * hex_value (hex_digit (drop_bit 4 (of_nat (unat c)))) + hex_value (hex_digit (of_nat (unat c) AND 15)) = (of_nat (unat c) :: u8)"
    by blast
  then show ?thesis by simp
qed

lemma json_unescape_piece: "json_unescape (json_piece c @ r) = map_option ((#) c) (json_unescape r)"
  using hex_digits_value [of c] by (auto simp: json_piece_def)

lemma json_unescape_pieces: "json_unescape (concat (map json_piece cs)) = Some cs"
  by (induction cs) (simp_all add: json_unescape_piece)

lemma json_escape_loop_eq:
  "\<exists>k. json_escape_loop cap out cs = out @ concat (map json_piece (take k cs)) \<and>
     (length out + length (concat (map json_piece cs)) < cap \<longrightarrow> take k cs = cs)"
proof (induction cs arbitrary: out)
  case Nil
  show ?case by simp
next
  case (Cons c cs)
  show ?case
  proof (cases "length out + length (json_piece c) + 1 > cap")
    case True
    then show ?thesis by (intro exI [of _ 0]) (auto simp: Let_def)
  next
    case False
    obtain k where k: "json_escape_loop cap (out @ json_piece c) cs = (out @ json_piece c) @ concat (map json_piece (take k cs))"
      "length (out @ json_piece c) + length (concat (map json_piece cs)) < cap \<longrightarrow> take k cs = cs" using Cons.IH by blast
    then show ?thesis using False by (intro exI [of _ "Suc k"]) (auto simp: Let_def)
  qed
qed

lemma json_escape_loop_length: "length out < cap \<Longrightarrow> length (json_escape_loop cap out cs) < cap"
  by (induction cs arbitrary: out) (auto simp: Let_def)

text \<open>
  Whatever text comes from outside, the place holds an escaped prefix of it: read back it is that prefix, the whole text
  when there was room, and never runs past the place or ends the string it sits in.
\<close>

lemma json_escape_into_prefix:
  assumes "0 < cap"
  shows "\<exists>k. json_unescape (json_escape_into cap (Some s)) = Some (take k s) \<and> length (json_escape_into cap (Some s)) < cap \<and>
    (length (concat (map json_piece s)) < cap \<longrightarrow> take k s = s)"
proof -
  obtain k where "json_escape_loop cap [] s = concat (map json_piece (take k s))"
    "length (concat (map json_piece s)) < cap \<longrightarrow> take k s = s" using json_escape_loop_eq [of cap "[]" s] by auto
  then show ?thesis using json_escape_loop_length [of "[]" cap s] assms
    by (intro exI [of _ k]) (auto simp: json_escape_into_def json_unescape_pieces)
qed

lemma length_dec_int: "0 \<le> n \<Longrightarrow> n < 1000 \<Longrightarrow> length (dec_int n) \<le> 3"
  using length_dec_nat [of "nat n" 3] by (simp add: dec_int_def nat_less_iff)

text \<open>
  An error response is never cut: for every HTTP status the envelope fits its buffer, the head fits its own, and the
  message and type in it read back as prefixes of the texts given, whatever bytes those contain.
\<close>

theorem error_response_complete:
  assumes "0 \<le> status" "status < 1000"
  shows "\<exists>head j k. vv_http_error status (Some kind) (Some message) = Some (head @ error_envelope status (Some kind) (Some message)) \<and>
    json_unescape (json_escape_into 512 (Some message)) = Some (take j message) \<and>
    json_unescape (json_escape_into 64 (Some kind)) = Some (take k kind)"
proof -
  let ?E = "error_envelope status (Some kind) (Some message)"
  obtain j k where j: "json_unescape (json_escape_into 512 (Some message)) = Some (take j message)"
      "length (json_escape_into 512 (Some message)) < 512"
    and k: "json_unescape (json_escape_into 64 (Some kind)) = Some (take k kind)" "length (json_escape_into 64 (Some kind)) < 64"
    using json_escape_into_prefix [of 512 message] json_escape_into_prefix [of 64 kind] by auto
  have E: "length ?E < 1024"
    using j(2) k(2) length_dec_int [OF assms] by (simp add: error_envelope_def ascii_def)
  then have s: "snprintf_to 1024 ?E = ?E" by (simp add: snprintf_to_def)
  have dn: "length (dec_nat (length ?E)) \<le> 4" using length_dec_nat [of "length ?E" 4] E by simp
  have reason: "length (http_reason status) \<le> 30" by (simp add: http_reason_def ascii_def)
  obtain head where "vv_http_respond_json status ?E = Some (head @ ?E)"
    using dn reason length_dec_int [OF assms]
    by (simp add: vv_http_respond_json_def vv_http_respond_def Let_def ascii_def crlf_def)
  then show ?thesis using j k by (auto simp: vv_http_error_def s)
qed

theorem error_response_complete_witness:
  "\<exists>head j k. vv_http_error 400 (Some [34]) (Some [10, 92]) = Some (head @ error_envelope 400 (Some [34]) (Some [10, 92])) \<and>
    json_unescape (json_escape_into 512 (Some [10, 92])) = Some (take j [10, 92]) \<and>
    json_unescape (json_escape_into 64 (Some [34])) = Some (take k [34])"
  by (rule error_response_complete) simp_all

end
