(* ===== verification/HttpServe.thy ===== *)
theory HttpServe
  imports HttpSafe WsParser
begin

text \<open>
  The connections of the HTTP server (\<^verbatim>\<open>src/server/http.c\<close>): how bytes are sent, streamed responses, server-sent events and
  WebSocket frames, what one connection's thread does, and the life of the server object, which the accepting thread,
  the connections' threads and the thread that stops the server share. The results of \<^verbatim>\<open>send\<close>, \<^verbatim>\<open>recv\<close> and \<^verbatim>\<open>poll\<close> are
  arguments.
\<close>

subsection \<open>Sending\<close>

text \<open>
  \<^verbatim>\<open>send_all_ok\<close>: \<open>outs\<close> is what the calls of \<^verbatim>\<open>send\<close> return, 0 for a failure, never more than they were asked for. The
  verdict, the bytes that went out, and the results not used. A list that ends is a failure.
\<close>

function send_all_ok :: "bytes \<Rightarrow> nat list \<Rightarrow> bool \<times> bytes \<times> nat list" where
  "send_all_ok bs outs =
     (if bs = [] then (True, [], outs)
      else case outs of
             [] \<Rightarrow> (False, [], [])
           | n # outs \<Rightarrow>
               if n = 0 then (False, [], outs)
               else (case send_all_ok (drop n bs) outs of (ok, w, outs) \<Rightarrow> (ok, take n bs @ w, outs)))"
  by pat_completeness auto
termination by (relation "measure (\<lambda>(bs, outs). length outs)") auto

declare send_all_ok.simps [simp del]

text \<open>A response that is being streamed: \<^verbatim>\<open>sent\<close>, the bytes that went out, and the results \<^verbatim>\<open>send\<close> will return.\<close>

record http_res =
  rs_sent :: bool
  rs_out :: bytes
  rs_net :: "nat list"

definition res_send :: "bytes \<Rightarrow> http_res \<Rightarrow> bool \<times> http_res" where
  "res_send bs res =
     (case send_all_ok bs (rs_net res) of (ok, w, net) \<Rightarrow> (ok, res\<lparr>rs_out := rs_out res @ w, rs_net := net\<rparr>))"

definition stream_head :: "int \<Rightarrow> bytes \<Rightarrow> bytes" where
  "stream_head status content_type =
     ascii ''HTTP/1.1 '' @ dec_int status @ [32] @ ascii (if status = 200 then ''OK'' else ''Error'') @ crlf @
     ascii ''Content-Type: '' @ content_type @ crlf @
     ascii ''Cache-Control: no-cache'' @ crlf @
     ascii ''X-Accel-Buffering: no'' @ crlf @
     ascii ''Access-Control-Allow-Origin: *'' @ crlf @
     ascii ''Connection: close'' @ crlf @ crlf"

text \<open>\<open>None\<close> where the head does not fit the 512 bytes of \<^verbatim>\<open>head\<close> and bytes past the array are sent.\<close>

definition vv_http_respond_begin :: "http_res option \<Rightarrow> int \<Rightarrow> bytes \<Rightarrow> (bool \<times> http_res option) option" where
  "vv_http_respond_begin res status content_type =
     (case res of
        None \<Rightarrow> Some (False, None)
      | Some r \<Rightarrow>
          if rs_sent r then Some (False, Some r)
          else if length (stream_head status content_type) > 512 then None
          else (case res_send (stream_head status content_type) (r\<lparr>rs_sent := True\<rparr>) of (ok, r) \<Rightarrow> Some (ok, Some r)))"

definition vv_http_write :: "http_res option \<Rightarrow> bytes \<Rightarrow> bool \<times> http_res option" where
  "vv_http_write res buf =
     (case res of
        None \<Rightarrow> (False, None)
      | Some r \<Rightarrow>
          if \<not> rs_sent r then (False, Some r)
          else if buf = [] then (True, Some r)
          else (case res_send buf r of (ok, r) \<Rightarrow> (ok, Some r)))"

definition vv_http_sse_send :: "http_res option \<Rightarrow> string option \<Rightarrow> string option \<Rightarrow> heap \<Rightarrow> bool \<times> http_res option \<times> heap" where
  "vv_http_sse_send res event data h =
     (let need = snd (vv_sse_format event data None) in
      case (if need < 1024 then (True, None, h)
            else (case vv_alloc (of_nat need + 1) h of (None, h) \<Rightarrow> (False, None, h) | (Some p, h) \<Rightarrow> (True, Some p, h))) of
        (False, p, h) \<Rightarrow> (False, res, h)
      | (True, p, h) \<Rightarrow>
          let buf = fst (vv_sse_format event data (Some (need + 1))) in
          (case vv_http_write res (ascii (take need buf)) of (ok, res) \<Rightarrow> (ok, res, vv_free p h)))"

definition vv_http_ws_send :: "http_res option \<Rightarrow> u32 \<Rightarrow> bytes \<Rightarrow> bool \<times> http_res option" where
  "vv_http_ws_send res opcode data =
     (case vv_http_write res (vv_ws_frame_header opcode True (of_nat (length data))) of
        (True, res) \<Rightarrow> vv_http_write res data
      | (False, res) \<Rightarrow> (False, res))"

subsection \<open>Reading after the request\<close>

text \<open>\<^verbatim>\<open>wait_readable\<close>: the results of \<^verbatim>\<open>poll\<close>, each the return value, whether \<^verbatim>\<open>errno\<close> is \<^verbatim>\<open>EINTR\<close>, and \<^verbatim>\<open>POLLNVAL\<close>. \<open>None\<close>: interrupted for ever.\<close>

fun wait_readable :: "(int \<times> bool \<times> bool) list \<Rightarrow> int option" where
  "wait_readable [] = None"
| "wait_readable ((r, intr, nval) # rs) =
     (if r < 0 \<and> intr then wait_readable rs
      else if r < 0 then Some (-1) else if r = 0 then Some 0 else if nval then Some (-1) else Some 1)"

text \<open>\<open>got\<close> is what \<^verbatim>\<open>recv\<close> returns when it is asked for so many bytes.\<close>

definition vv_http_read ::
  "bool \<Rightarrow> nat \<Rightarrow> int \<Rightarrow> (int \<times> bool \<times> bool) list \<Rightarrow> (nat \<Rightarrow> int) \<Rightarrow> int option" where
  "vv_http_read given cap timeout_ms polls got =
     (if \<not> given \<or> cap = 0 then Some (-1)
      else
        let rd = (let want = (if cap > 2 ^ 30 then 2 ^ 30 else cap); n = got want in if n < 0 then -1 else n) in
        if timeout_ms \<ge> 0 then
          map_option (\<lambda>r. if r = 0 then -2 else if r < 0 then -1 else rd) (wait_readable polls)
        else Some rd)"

definition vv_http_peer_gone :: "bool \<Rightarrow> (int \<times> bool \<times> bool) list \<Rightarrow> int \<Rightarrow> bool option" where
  "vv_http_peer_gone given polls peek =
     (if \<not> given then Some True
      else map_option (\<lambda>r. if r = 0 then False else if r < 0 then True else peek \<le> 0) (wait_readable polls))"

subsection \<open>One connection\<close>

text \<open>
  What \<^verbatim>\<open>conn_thread\<close> does between its first and its last line: the argument is freed, the request is read, answered and
  its buffer freed. The handler is a parameter; it returns whether it answered and what it sent. The result is what was
  sent; \<open>None\<close> inside it is a response past its array.
\<close>

definition serve_request ::
  "(http_req \<Rightarrow> heap \<Rightarrow> bool \<times> bytes option \<times> heap) \<Rightarrow> http_req \<Rightarrow> heap \<Rightarrow> bytes option \<times> heap" where
  "serve_request handler req h =
     (if c_str (rq_method req) = ascii ''OPTIONS'' then (vv_http_respond 200 (ascii ''text/plain'') [], h)
      else
        (case handler req h of (sent, out, h) \<Rightarrow>
           if \<not> sent then
             (case (out, vv_http_error 500 (Some (ascii ''internal_error'')) (Some (ascii ''no response''))) of
                (Some o1, Some o2) \<Rightarrow> (Some (o1 @ o2), h) | _ \<Rightarrow> (None, h))
           else (out, h)))"

definition conn_thread ::
  "nat \<Rightarrow> (http_req \<Rightarrow> heap \<Rightarrow> bool \<times> bytes option \<times> heap) \<Rightarrow> nat \<Rightarrow> chunks \<Rightarrow> heap \<Rightarrow> bytes option \<times> heap" where
  "conn_thread max_body handler ca chunks h =
     (case read_request max_body chunks (vv_free (Some ca) h) of
        (None, h) \<Rightarrow> (Some [], h)
      | (Some (req, buf), h) \<Rightarrow> (case serve_request handler req h of (out, h) \<Rightarrow> (out, vv_free (Some buf) h)))"

subsection \<open>The server object\<close>

text \<open>
  Where the accepting thread stands: at the test of the loop; inside \<^verbatim>\<open>accept\<close>; with a connection it has not counted; with
  a counted one whose thread it starts; about to test \<^verbatim>\<open>n_conns\<close> under the lock; asleep on \<^verbatim>\<open>conn_done\<close>; past the lock,
  about to close and free; gone. The stopping thread stands before the four calls of \<^verbatim>\<open>vv_http_shutdown\<close> or at its end.
\<close>

datatype serve_pc = Looping | Accepting | Accepted | Starting | Draining | Asleep | Closing | Gone

datatype stop_pc = NotStopped | StopShutdown | StopClose | StopWake | Stopped

record server =
  sv_running :: bool
  sv_n_conns :: int
  sv_max :: int
  sv_conns :: nat
  sv_serve :: serve_pc
  sv_woken :: bool
  sv_stop :: stop_pc
  sv_shut :: bool
  sv_closed :: bool
  sv_freed :: bool
  sv_late_use :: bool
  sv_double_close :: bool

text \<open>A thread other than the accepting one uses the object.\<close>

definition touch :: "server \<Rightarrow> server" where
  "touch s = (if sv_freed s then s\<lparr>sv_late_use := True\<rparr> else s)"

definition close_listen :: "server \<Rightarrow> server" where
  "close_listen s = (if sv_closed s then s\<lparr>sv_double_close := True\<rparr> else s\<lparr>sv_closed := True\<rparr>)"

definition signal_done :: "server \<Rightarrow> server" where
  "signal_done s = (if sv_serve s = Asleep then s\<lparr>sv_woken := True\<rparr> else s)"

definition vv_http_new :: "int \<Rightarrow> server" where
  "vv_http_new max_conns =
     \<lparr>sv_running = True, sv_n_conns = 0, sv_max = (if max_conns > 0 then max_conns else 8), sv_conns = 0, sv_serve = Looping,
      sv_woken = False, sv_stop = NotStopped, sv_shut = False, sv_closed = False, sv_freed = False, sv_late_use = False,
      sv_double_close = False\<rparr>"

text \<open>
  The start of \<^verbatim>\<open>vv_http_serve\<close>: \<open>given\<close> tells whether a handler and a place for the object were given; \<open>sock\<close>, \<open>bound\<close> and
  \<open>listens\<close> whether the three socket calls worked. The block of the object, the object, and the heap, or the error.
\<close>

definition vv_http_open :: "bool \<Rightarrow> int \<Rightarrow> bool \<Rightarrow> bool \<Rightarrow> bool \<Rightarrow> heap \<Rightarrow> vv_status \<times> (nat \<times> server) option \<times> heap" where
  "vv_http_open given max_conns sock bound listens h =
     (if \<not> given then (VV_ERR_NULL_PTR, None, h)
      else
        (case vv_alloc (h_sizeof h ''vv_http_t'') h of
           (None, h) \<Rightarrow> (VV_ERR_OUT_OF_MEMORY, None, h)
         | (Some p, h) \<Rightarrow>
             if sock \<and> bound \<and> listens then (VV_OK, Some (p, vv_http_new max_conns), h)
             else (VV_ERR_IO, None, vv_free (Some p) h)))"

definition serve_loop_test :: "server \<Rightarrow> server" where
  "serve_loop_test s = s\<lparr>sv_serve := if sv_running s then Accepting else Draining\<rparr>"

definition serve_accept_failed :: "server \<Rightarrow> server" where
  "serve_accept_failed s = s\<lparr>sv_serve := if \<not> sv_running s then Draining else Looping\<rparr>"

text \<open>Under the lock: refuse with 503, or count.\<close>

definition serve_admit :: "server \<Rightarrow> server" where
  "serve_admit s =
     (if sv_n_conns s \<ge> sv_max s \<or> \<not> sv_running s then s\<lparr>sv_serve := Looping\<rparr>
      else s\<lparr>sv_n_conns := sv_n_conns s + 1, sv_serve := Starting\<rparr>)"

text \<open>\<open>started\<close>: the argument could be allocated and the thread started.\<close>

definition serve_start :: "bool \<Rightarrow> server \<Rightarrow> server" where
  "serve_start started s =
     (if started then s\<lparr>sv_conns := sv_conns s + 1, sv_serve := Looping\<rparr>
      else s\<lparr>sv_n_conns := sv_n_conns s - 1, sv_serve := Looping\<rparr>)"

definition serve_drain :: "server \<Rightarrow> server" where
  "serve_drain s = s\<lparr>sv_serve := if sv_n_conns s > 0 then Asleep else Closing, sv_woken := False\<rparr>"

definition serve_finish :: "server \<Rightarrow> server" where
  "serve_finish s = (close_listen s)\<lparr>sv_serve := Gone, sv_freed := True\<rparr>"

definition conn_done :: "server \<Rightarrow> server" where
  "conn_done s = signal_done ((touch s)\<lparr>sv_n_conns := sv_n_conns s - 1, sv_conns := sv_conns s - 1\<rparr>)"

definition vv_http_shutdown :: "server \<Rightarrow> server" where
  "vv_http_shutdown s =
     (case sv_stop s of
        NotStopped \<Rightarrow> (touch s)\<lparr>sv_running := False, sv_stop := StopShutdown\<rparr>
      | StopShutdown \<Rightarrow> (touch s)\<lparr>sv_shut := True, sv_stop := StopClose\<rparr>
      | StopClose \<Rightarrow> (close_listen (touch s))\<lparr>sv_stop := StopWake\<rparr>
      | StopWake \<Rightarrow> (signal_done (touch s))\<lparr>sv_stop := Stopped\<rparr>
      | Stopped \<Rightarrow> s)"

text \<open>
  The steps of the accepting thread, of the connections' threads, and of the stopping thread, which gets the object from
  \<^verbatim>\<open>vv_http_serve\<close> and calls on one that is not gone. \<^verbatim>\<open>accept\<close> returns a connection only while the socket is neither shut
  nor closed; it may fail at any time.
\<close>

inductive serve_step :: "server \<Rightarrow> server \<Rightarrow> bool" where
  sv_test: "sv_serve s = Looping \<Longrightarrow> serve_step s (serve_loop_test s)"
| sv_accept: "sv_serve s = Accepting \<Longrightarrow> \<not> sv_shut s \<Longrightarrow> \<not> sv_closed s \<Longrightarrow> serve_step s (s\<lparr>sv_serve := Accepted\<rparr>)"
| sv_failed: "sv_serve s = Accepting \<Longrightarrow> serve_step s (serve_accept_failed s)"
| sv_admit: "sv_serve s = Accepted \<Longrightarrow> serve_step s (serve_admit s)"
| sv_start: "sv_serve s = Starting \<Longrightarrow> serve_step s (serve_start started s)"
| sv_drain: "sv_serve s = Draining \<Longrightarrow> serve_step s (serve_drain s)"
| sv_wake: "sv_serve s = Asleep \<Longrightarrow> sv_woken s \<Longrightarrow> serve_step s (serve_drain s)"
| sv_finish: "sv_serve s = Closing \<Longrightarrow> serve_step s (serve_finish s)"
| sv_conn: "0 < sv_conns s \<Longrightarrow> serve_step s (conn_done s)"

inductive server_step :: "server \<Rightarrow> server \<Rightarrow> bool" where
  srv_serve: "serve_step s t \<Longrightarrow> server_step s t"
| srv_spurious: "sv_serve s = Asleep \<Longrightarrow> server_step s (serve_drain s)"
| srv_stop: "sv_stop s = NotStopped \<longrightarrow> \<not> sv_freed s \<Longrightarrow> server_step s (vv_http_shutdown s)"

definition server_init :: "server \<Rightarrow> bool" where
  "server_init s \<longleftrightarrow> (\<exists>max_conns. s = vv_http_new max_conns)"

subsection \<open>Connections are counted, bounded, and gone before the server is\<close>

definition server_inv :: "server \<Rightarrow> bool" where
  "server_inv s \<longleftrightarrow>
     0 < sv_max s \<and> sv_n_conns s = int (sv_conns s) + (if sv_serve s = Starting then 1 else 0) \<and> sv_n_conns s \<le> sv_max s \<and>
     (sv_freed s \<longleftrightarrow> sv_serve s = Gone) \<and> (sv_serve s \<in> {Closing, Gone} \<longrightarrow> sv_conns s = 0) \<and>
     (sv_running s \<longleftrightarrow> sv_stop s = NotStopped) \<and> (sv_serve s \<in> {Draining, Asleep, Closing, Gone} \<longrightarrow> \<not> sv_running s) \<and>
     (sv_serve s = Asleep \<longrightarrow> sv_woken s \<or> 0 < sv_conns s) \<and>
     (sv_shut s \<longleftrightarrow> sv_stop s \<in> {StopClose, StopWake, Stopped}) \<and>
     (sv_closed s \<longleftrightarrow> sv_freed s \<or> sv_stop s \<in> {StopWake, Stopped}) \<and>
     (sv_late_use s \<longrightarrow> sv_freed s \<and> sv_stop s \<in> {StopClose, StopWake, Stopped}) \<and>
     (sv_double_close s \<longleftrightarrow> sv_freed s \<and> sv_stop s \<in> {StopWake, Stopped})"

lemmas server_defs = touch_def close_listen_def signal_done_def serve_loop_test_def serve_accept_failed_def serve_admit_def
  serve_start_def serve_drain_def serve_finish_def conn_done_def vv_http_shutdown_def

lemma server_inv_init: "server_init s \<Longrightarrow> server_inv s"
  by (auto simp: server_init_def vv_http_new_def server_inv_def)

lemma server_inv_serve: "server_inv s \<Longrightarrow> serve_step s t \<Longrightarrow> server_inv t"
proof (erule serve_step.cases, goal_cases)
  case (8 s')
  then show ?case by (auto simp: server_inv_def server_defs split: if_splits)
next
  case (9 s')
  then show ?case by (cases "sv_serve s'") (auto simp: server_inv_def server_defs split: if_splits)
qed (auto simp: server_inv_def server_defs split: if_splits)

lemma server_inv_step: "server_inv s \<Longrightarrow> server_step s t \<Longrightarrow> server_inv t"
proof (erule server_step.cases, goal_cases)
  case (1 s' t')
  then show ?case by (auto intro: server_inv_serve)
next
  case (2 s')
  then show ?case by (auto simp: server_inv_def server_defs)
next
  case (3 s')
  then have inv: "server_inv s'" and t: "t = vv_http_shutdown s'" by simp_all
  show ?case
  proof (cases "sv_stop s'")
    case NotStopped
    with inv have "\<not> sv_freed s'" by (auto simp: server_inv_def)
    with NotStopped inv show ?thesis by (simp add: t server_inv_def server_defs)
  next
    case StopShutdown
    with inv show ?thesis by (simp add: t server_inv_def server_defs)
  next
    case StopClose
    with inv show ?thesis by (auto simp: t server_inv_def server_defs)
  next
    case StopWake
    with inv show ?thesis by (auto simp: t server_inv_def server_defs)
  next
    case Stopped
    with inv show ?thesis by (simp add: t vv_http_shutdown_def)
  qed
qed

interpretation http_server: transition_system server_init server_step server_inv
  by unfold_locales (blast intro: server_inv_init server_inv_step)+

text \<open>
  C14. However connections arrive, end and fail to start, and whenever the server is stopped: the count is exact, there are never
  more connections' threads than \<^verbatim>\<open>max_conns\<close>, none is left when the server object is freed, and nothing but the stopping
  thread, after its first store, ever uses the object after that.
\<close>

theorem server_conns_drained:
  assumes "reaches server_init server_step s"
  shows "sv_n_conns s = int (sv_conns s) + (if sv_serve s = Starting then 1 else 0) \<and> int (sv_conns s) \<le> sv_max s \<and>
    (sv_freed s \<longrightarrow> sv_conns s = 0) \<and> (sv_late_use s \<longrightarrow> sv_freed s \<and> sv_stop s \<in> {StopClose, StopWake, Stopped})"
proof -
  have "server_inv s" using assms by (rule http_server.reaches_inv)
  then show ?thesis by (auto simp: server_inv_def split: if_splits)
qed

text \<open>Runs given by the operations they consist of.\<close>

fun run_from :: "server \<Rightarrow> (server \<Rightarrow> server) list \<Rightarrow> server" where
  "run_from s [] = s"
| "run_from s (f # fs) = run_from (f s) fs"

lemma run_from_reaches:
  "reaches server_init server_step s \<Longrightarrow> server_step s (f s) \<Longrightarrow> reaches server_init server_step (f s)"
  by (rule reaches.intros)

lemma new_reaches: "reaches server_init server_step (vv_http_new n)"
  by (rule reaches.intros) (auto simp: server_init_def)

definition one_conn :: server where
  "one_conn = run_from (vv_http_new 1) [serve_loop_test, \<lambda>s. s\<lparr>sv_serve := Accepted\<rparr>, serve_admit, serve_start True]"

lemma one_conn_reaches: "reaches server_init server_step one_conn"
proof -
  let ?s1 = "serve_loop_test (vv_http_new 1)"
  let ?s2 = "?s1\<lparr>sv_serve := Accepted\<rparr>"
  let ?s3 = "serve_admit ?s2"
  have 1: "reaches server_init server_step ?s1"
    by (rule run_from_reaches [OF new_reaches], rule srv_serve, rule sv_test) code_simp
  have "sv_serve ?s1 = Accepting" "\<not> sv_shut ?s1" "\<not> sv_closed ?s1" "sv_serve ?s2 = Accepted" "sv_serve ?s3 = Starting"
    by code_simp+
  then have "server_step ?s1 ?s2" "server_step ?s2 ?s3" "server_step ?s3 (serve_start True ?s3)"
    by (blast intro: srv_serve sv_accept sv_admit sv_start)+
  with 1 have "reaches server_init server_step (serve_start True ?s3)" by (metis reaches.intros(2))
  then show ?thesis by (simp add: one_conn_def)
qed

theorem server_conns_drained_witness:
  "sv_n_conns one_conn = 1 \<and> sv_conns one_conn = 1 \<and> int (sv_conns one_conn) \<le> sv_max one_conn"
proof -
  have "sv_conns one_conn = 1" "sv_serve one_conn = Looping" by code_simp+
  with server_conns_drained [OF one_conn_reaches] show ?thesis by simp
qed

subsection \<open>Stopping ends\<close>

fun serve_rank :: "serve_pc \<Rightarrow> nat" where
  "serve_rank Starting = 7"
| "serve_rank Accepted = 5"
| "serve_rank Looping = 4"
| "serve_rank Accepting = 4"
| "serve_rank Draining = 3"
| "serve_rank Asleep = 2"
| "serve_rank Closing = 1"
| "serve_rank Gone = 0"

definition stop_measure :: "server \<Rightarrow> nat" where
  "stop_measure s = 2 * sv_conns s + (if sv_serve s = Asleep \<and> sv_woken s then 1 else 0) + serve_rank (sv_serve s)"

text \<open>
  C13. Once \<^verbatim>\<open>vv_http_shutdown\<close> has shut the socket, the accepting thread and the connections, as long as the object is not
  freed, can always take a step, and every step they take brings the end nearer: no wake-up is lost and the loop
  does not go round for ever. Only spurious wake-ups and the stopping thread itself are left out.
\<close>

theorem server_stop_ends:
  assumes "reaches server_init server_step s" and "sv_shut s" and "\<not> sv_freed s"
  shows "(\<exists>t. serve_step s t) \<and> (\<forall>t. serve_step s t \<longrightarrow> stop_measure t < stop_measure s \<and> sv_shut t)"
proof -
  have inv: "server_inv s" using assms(1) by (rule http_server.reaches_inv)
  have run: "\<not> sv_running s" using inv assms(2) by (auto simp: server_inv_def)
  have "\<exists>t. serve_step s t"
  proof (cases "sv_serve s")
    case Asleep
    with inv have "sv_woken s \<or> 0 < sv_conns s" by (simp add: server_inv_def)
    with Asleep show ?thesis by (auto intro: serve_step.intros)
  next
    case Gone
    with inv assms(3) show ?thesis by (simp add: server_inv_def)
  qed (auto intro: serve_step.intros)
  moreover have "stop_measure t < stop_measure s \<and> sv_shut t" if "serve_step s t" for t
    using that run assms(2,3) inv
    by (cases rule: serve_step.cases) (auto simp: stop_measure_def server_defs server_inv_def)
  ultimately show ?thesis by blast
qed

text \<open>The run in which the server is stopped while it waits for a connection, up to the \<open>shutdown\<close> of the socket.\<close>

definition stopping :: server where
  "stopping = run_from (vv_http_new 1) [serve_loop_test, vv_http_shutdown, vv_http_shutdown]"

lemma stopping_reaches: "reaches server_init server_step stopping"
proof -
  let ?s1 = "serve_loop_test (vv_http_new 1)"
  let ?s2 = "vv_http_shutdown ?s1"
  have 1: "reaches server_init server_step ?s1"
    by (rule run_from_reaches [OF new_reaches], rule srv_serve, rule sv_test) code_simp
  have "\<not> sv_freed ?s1" "\<not> sv_freed ?s2" by code_simp+
  then have "server_step ?s1 ?s2" "server_step ?s2 (vv_http_shutdown ?s2)" by (blast intro: srv_stop)+
  with 1 have "reaches server_init server_step (vv_http_shutdown ?s2)" by (metis reaches.intros(2))
  then show ?thesis by (simp add: stopping_def)
qed

theorem server_stop_ends_witness:
  "(\<exists>t. serve_step stopping t) \<and> stop_measure (serve_accept_failed stopping) < stop_measure stopping"
proof -
  have "sv_shut stopping" "\<not> sv_freed stopping" by code_simp+
  note s = server_stop_ends [OF stopping_reaches this]
  have "sv_serve stopping = Accepting" by code_simp
  then have "serve_step stopping (serve_accept_failed stopping)" by (rule sv_failed)
  with s show ?thesis by blast
qed

text \<open>
  C36. Stopping closes the listening descriptor twice, always: once in \<^verbatim>\<open>vv_http_shutdown\<close> and once when the accepting
  thread ends. In between the number can belong to a file or a connection opened by a request still in flight. And
  \<^verbatim>\<open>vv_http_shutdown\<close> can outlive its object: the accepting thread may leave \<^verbatim>\<open>accept\<close>, find no connection and free
  it between two of the calls, which then use freed memory.
\<close>

theorem shutdown_closes_twice:
  "(reaches server_init server_step s \<longrightarrow> sv_freed s \<longrightarrow> sv_stop s = Stopped \<longrightarrow> sv_double_close s) \<and>
   (\<exists>s. reaches server_init server_step s \<and> sv_freed s \<and> sv_stop s = Stopped \<and> sv_late_use s)"
proof (rule conjI)
  show "reaches server_init server_step s \<longrightarrow> sv_freed s \<longrightarrow> sv_stop s = Stopped \<longrightarrow> sv_double_close s"
    using http_server.reaches_inv by (auto simp: server_inv_def)
next
  let ?s1 = "serve_accept_failed stopping"
  let ?s2 = "serve_drain ?s1"
  let ?s3 = "serve_finish ?s2"
  let ?s4 = "vv_http_shutdown ?s3"
  let ?s5 = "vv_http_shutdown ?s4"
  have "sv_serve stopping = Accepting" "sv_serve ?s1 = Draining" "sv_serve ?s2 = Closing" by code_simp+
  then have 1: "server_step stopping ?s1" "server_step ?s1 ?s2" "server_step ?s2 ?s3"
    by (blast intro: srv_serve sv_failed sv_drain sv_finish)+
  have "sv_stop ?s3 \<noteq> NotStopped" "sv_stop ?s4 \<noteq> NotStopped" by code_simp+
  then have 2: "server_step ?s3 ?s4" "server_step ?s4 ?s5" by (blast intro: srv_stop)+
  have 3: "sv_freed ?s5" "sv_stop ?s5 = Stopped" "sv_late_use ?s5" by code_simp+
  have "reaches server_init server_step ?s3" using stopping_reaches 1 by (metis reaches.intros(2))
  with 2 have "reaches server_init server_step ?s5" by (metis reaches.intros(2))
  with 3 show "\<exists>s. reaches server_init server_step s \<and> sv_freed s \<and> sv_stop s = Stopped \<and> sv_late_use s" by blast
qed

theorem shutdown_closes_twice_witness:
  "\<exists>s. reaches server_init server_step s \<and> sv_freed s \<and> sv_stop s = Stopped \<and> sv_double_close s"
  using shutdown_closes_twice by blast

subsection \<open>What is sent arrives\<close>

lemma send_all_ok_sends:
  "send_all_ok bs outs = (ok, w, outs') \<Longrightarrow> (ok \<longrightarrow> w = bs) \<and> (\<exists>v. bs = w @ v)"
proof (induction bs outs arbitrary: ok w outs' rule: send_all_ok.induct)
  case (1 bs outs)
  show ?case
  proof (cases "bs = []")
    case True
    then show ?thesis using 1(2) by (simp add: send_all_ok.simps [of "[]"])
  next
    case False
    show ?thesis
    proof (cases outs)
      case Nil
      then show ?thesis using 1(2) False by (simp add: send_all_ok.simps [of bs])
    next
      case (Cons n ns)
      show ?thesis
      proof (cases "n = 0")
        case True
        then show ?thesis using 1(2) False Cons by (simp add: send_all_ok.simps [of bs])
      next
        case pos: False
        obtain k v o2 where r: "send_all_ok (drop n bs) ns = (k, v, o2)" by (rule prod_cases3)
        have e: "ok = k" "w = take n bs @ v" using 1(2) False Cons pos r by (simp_all add: send_all_ok.simps [of bs])
        from 1(1) [OF False Cons pos r] e show ?thesis by (metis append_assoc append_take_drop_id)
      qed
    qed
  qed
qed

lemma res_send_sends:
  "res_send bs r = (True, r') \<Longrightarrow> rs_out r' = rs_out r @ bs \<and> rs_sent r' = rs_sent r"
  by (auto simp: res_send_def split: prod.splits dest: send_all_ok_sends)

lemma vv_http_write_sends:
  "vv_http_write (Some r) bs = (True, res) \<Longrightarrow>
   rs_sent r \<and> (\<exists>r'. res = Some r' \<and> rs_sent r' \<and> rs_out r' = rs_out r @ bs)"
  by (auto simp: vv_http_write_def split: if_splits prod.splits dest: res_send_sends)

text \<open>An RFC 6455 frame as a client reads it: final, no extension bits, not masked.\<close>

definition read_frame :: "bytes \<Rightarrow> (nat \<times> bytes \<times> bytes) option" where
  "read_frame bs =
     (case bs of
        b0 # b1 # r \<Rightarrow>
          if b0 AND 0x80 = 0 \<or> b0 AND 0x70 \<noteq> 0 \<or> b1 AND 0x80 \<noteq> 0 then None
          else
            let (n, r) = (if b1 = 126 then (unat (be_len (take 2 r)), drop 2 r)
                          else if b1 = 127 then (unat (be_len (take 8 r)), drop 8 r) else (unat b1, r))
            in if length r < n then None else Some (unat (b0 AND 0x0F), take n r, drop n r)
      | _ \<Rightarrow> None)"

fun read_frames :: "nat \<Rightarrow> bytes \<Rightarrow> (nat \<times> bytes) list option" where
  "read_frames 0 bs = (if bs = [] then Some [] else None)"
| "read_frames (Suc k) bs =
     (case read_frame bs of None \<Rightarrow> None | Some (op, payload, rest) \<Rightarrow> map_option ((#) (op, payload)) (read_frames k rest))"

lemma and_top_bit: "take_bit 7 (w :: u8) AND 0x80 = 0"
proof -
  have "take_bit 7 w AND push_bit 7 v = 0" for v by (intro bit_word_eqI) (auto simp: bit_simps)
  from this [of 1] show ?thesis by simp
qed

lemma read_frame_header:
  assumes "op \<le> 15" and "length payload < 2 ^ 64"
  shows "read_frame (vv_ws_frame_header (of_nat op) True (of_nat (length payload)) @ payload @ rest) = Some (op, payload, rest)"
proof -
  let ?L = "length payload" and ?len = "of_nat (length payload) :: u64"
  let ?b0 = "(if True then 0x80 else 0) OR (ucast (of_nat op :: u32) AND 0x0F) :: u8"
  have u: "unat ?len = ?L" unfolding unsigned_of_nat of_nat_id using assms(2) by (intro take_bit_nat_eq_self) simp
  note b0 = header_byte0 [OF assms(1), of True]
  have b0': "?b0 AND 0x80 \<noteq> 0" "?b0 AND 0x70 = 0" "unat (?b0 AND 0x0F) = op" using b0 by blast+
  consider (small) "?L < 126" | (mid) "126 \<le> ?L" "?L \<le> 0xFFFF" | (long) "0xFFFF < ?L" by linarith
  then show ?thesis
  proof cases
    case small
    then have l: "?len < 126" by (simp add: word_less_nat_alt u)
    have ub: "unat (of_nat ?L :: u8) = ?L" unfolding unsigned_of_nat of_nat_id using small by (intro take_bit_nat_eq_self) simp
    have "(of_nat ?L :: u8) AND 0x80 = 0"
    proof -
      have "unat (take_bit 7 (of_nat ?L :: u8)) = ?L" by (subst unsigned_take_bit_eq, subst ub, rule take_bit_nat_eq_self) (use small in simp)
      with ub have "take_bit 7 (of_nat ?L :: u8) = of_nat ?L" by (metis word_unat_eq_iff)
      with and_top_bit [of "of_nat ?L"] show ?thesis by metis
    qed
    moreover have "(of_nat ?L :: u8) \<noteq> 126" "(of_nat ?L :: u8) \<noteq> 127" using ub small by (auto dest: arg_cong [of _ _ unat])
    ultimately show ?thesis using b0' ub
      by (simp add: vv_ws_frame_header_def Let_def l read_frame_def ucast_of_nat_byte)
  next
    case mid
    then have l: "\<not> ?len < 126" "?len \<le> 0xFFFF" by (simp_all add: word_less_nat_alt word_le_nat_alt u)
    show ?thesis using b0' be_len_16 [OF l(2)] u
      by (simp add: vv_ws_frame_header_def Let_def l read_frame_def)
  next
    case long
    then have l: "\<not> ?len < 126" "\<not> ?len \<le> 0xFFFF" by (simp_all add: word_less_nat_alt word_le_nat_alt u)
    have h: "vv_ws_frame_header (of_nat op) True ?len = ?b0 # 127 # be64 ?len"
      unfolding vv_ws_frame_header_def Let_def if_not_P [OF l(1)] if_not_P [OF l(2)] be64_def by (rule refl)
    show ?thesis unfolding h using b0' be_len_be64 [of ?len] u by (simp add: read_frame_def)
  qed
qed

text \<open>The messages a handler sends one after the other, until one fails.\<close>

fun ws_send_all :: "http_res option \<Rightarrow> (nat \<times> bytes) list \<Rightarrow> bool \<times> http_res option" where
  "ws_send_all res [] = (True, res)"
| "ws_send_all res ((op, payload) # ms) =
     (case vv_http_ws_send res (of_nat op) payload of (ok, res) \<Rightarrow> if ok then ws_send_all res ms else (False, res))"

lemma ws_send_sends:
  assumes "vv_http_ws_send (Some r) opc payload = (True, res)"
  shows "\<exists>r'. res = Some r' \<and> rs_out r' = rs_out r @ vv_ws_frame_header opc True (of_nat (length payload)) @ payload"
proof -
  obtain ok x where w: "vv_http_write (Some r) (vv_ws_frame_header opc True (of_nat (length payload))) = (ok, x)" by fastforce
  have ok: "ok" using assms w by (cases ok) (auto simp: vv_http_ws_send_def)
  obtain r1 where r1: "x = Some r1" "rs_out r1 = rs_out r @ vv_ws_frame_header opc True (of_nat (length payload))"
    using vv_http_write_sends [OF w [unfolded eqTrueI [OF ok]]] by auto
  have "vv_http_write (Some r1) payload = (True, res)" using assms w ok r1 by (simp add: vv_http_ws_send_def)
  from vv_http_write_sends [OF this] r1(2) show ?thesis by auto
qed

text \<open>
  C12. Whatever sequence of messages a handler sends, as long as each call reports success, what went over the connection after
  the earlier bytes is read by an RFC 6455 client as exactly those messages, opcodes and payloads, in order, however \<^verbatim>\<open>send\<close> cut them.
\<close>

theorem ws_messages_read_back:
  assumes "ws_send_all (Some r) ms = (True, Some r')" and "\<forall>(op, payload) \<in> set ms. op \<le> 15 \<and> length payload < 2 ^ 64"
  shows "\<exists>out. rs_out r' = rs_out r @ out \<and> read_frames (length ms) out = Some ms"
  using assms
proof (induction ms arbitrary: r)
  case Nil
  then show ?case by simp
next
  case (Cons m ms)
  obtain opc payload where m: "m = (opc, payload)" by fastforce
  obtain ok x where s: "vv_http_ws_send (Some r) (of_nat opc) payload = (ok, x)" by fastforce
  have ok: "ok" using Cons.prems(1) m s by (cases ok) auto
  with s have s': "vv_http_ws_send (Some r) (of_nat opc) payload = (True, x)" by simp
  then obtain r1 where r1: "x = Some r1" "rs_out r1 = rs_out r @ vv_ws_frame_header (of_nat opc) True (of_nat (length payload)) @ payload"
    using ws_send_sends by blast
  have "ws_send_all (Some r1) ms = (True, Some r')" using Cons.prems(1) m s' r1(1) by simp
  then obtain out where out: "rs_out r' = rs_out r1 @ out" "read_frames (length ms) out = Some ms"
    using Cons.IH Cons.prems(2) by auto
  have "opc \<le> 15" "length payload < 2 ^ 64" using Cons.prems(2) m by auto
  from read_frame_header [OF this, of out] out show ?case
    by (intro exI [of _ "vv_ws_frame_header (of_nat opc) True (of_nat (length payload)) @ payload @ out"]) (simp add: r1(2) m)
qed

definition demo_res :: http_res where
  "demo_res = \<lparr>rs_sent = True, rs_out = [], rs_net = [1, 1, 2, 1, 1, 3]\<rparr>"

theorem ws_messages_read_back_witness:
  "\<exists>out. rs_out (the (snd (ws_send_all (Some demo_res) [(1, [104, 105]), (2, [1, 2, 3])]))) = [] @ out \<and>
     read_frames 2 out = Some [(1, [104, 105]), (2, [1, 2, 3])]"
proof -
  have s: "fst (ws_send_all (Some demo_res) [(1, [104, 105]), (2, [1, 2, 3])])" "snd (ws_send_all (Some demo_res) [(1, [104, 105]), (2, [1, 2, 3])]) \<noteq> None"
    by code_simp+
  obtain ok x where e: "ws_send_all (Some demo_res) [(1, [104, 105]), (2, [1, 2, 3])] = (ok, x)" by (rule prod.exhaust)
  then obtain r' where x: "x = Some r'" "ok = True" using s by auto
  note r' = e [unfolded x]
  have len: "length [(1 :: nat, [104, 105]), (2, [1, 2, 3 :: u8])] = 2" by simp
  have "rs_out demo_res = []" by (simp add: demo_res_def)
  with ws_messages_read_back [OF r'] show ?thesis unfolding r' snd_conv option.sel len by simp
qed

text \<open>A server-sent event goes out whole, and the buffer it may need is given back.\<close>

lemma sse_send_whole:
  assumes "owns h M" and "vv_http_sse_send (Some r) event data h = (ok, res, h')"
    and "length (sse_event event (case data of None \<Rightarrow> [] | Some d \<Rightarrow> d)) < 2 ^ 62"
  shows "owns h' M \<and>
    (ok \<longrightarrow> (\<exists>r'. res = Some r' \<and> rs_out r' = rs_out r @ ascii (sse_event event (case data of None \<Rightarrow> [] | Some d \<Rightarrow> d))))"
proof -
  let ?e = "sse_event event (case data of None \<Rightarrow> [] | Some d \<Rightarrow> d)"
  let ?need = "length ?e"
  have f: "snd (vv_sse_format event data None) = ?need" "fst (vv_sse_format event data (Some (?need + 1))) = ?e"
    by (simp_all add: sse_format_snprintf)
  obtain go p h1 where a: "(if ?need < 1024 then (True, None, h)
      else (case vv_alloc (of_nat ?need + 1) h of (None, h) \<Rightarrow> (False, None, h) | (Some p, h) \<Rightarrow> (True, Some p, h))) = (go, p, h1)"
    by (rule prod_cases3)
  have o: "owns h1 (opt_block Host p + M)"
    using a assms(1) vv_alloc_owns [OF assms(1), of "of_nat ?need + 1"]
    by (fastforce simp: opt_block_def split: if_splits prod.splits option.splits)
  show ?thesis
  proof (cases go)
    case False
    then have "p = None" using a by (auto split: if_splits prod.splits option.splits)
    then have "owns h1 M" using o by (simp add: opt_block_def)
    moreover have "ok = False" "h' = h1" using assms(2) a False unfolding vv_http_sse_send_def f Let_def by auto
    ultimately show ?thesis by simp
  next
    case True
    obtain k x where w: "vv_http_write (Some r) (ascii ?e) = (k, x)" by fastforce
    have e: "ok = k" "res = x" "h' = vv_free p h1"
      using assms(2) a True w unfolding vv_http_sse_send_def f Let_def by auto
    have "owns h' M" using o e(3) by simp
    moreover have "k \<longrightarrow> (\<exists>r'. x = Some r' \<and> rs_out r' = rs_out r @ ascii ?e)" using w vv_http_write_sends [of r "ascii ?e" x] by (cases k) auto
    ultimately show ?thesis using e by simp
  qed
qed

text \<open>
  C37. A connection's thread gives back its argument and the request's buffer, whatever the client sends, whichever allocation
  fails and whatever the handler answers, as long as the handler keeps nothing itself.
\<close>

theorem conn_thread_no_leak:
  assumes "owns h (add_mset (Host, ca) M)" and "\<forall>req g N. owns g N \<longrightarrow> owns (snd (snd (handler req g))) N"
  shows "owns (snd (conn_thread max_body handler ca chunks h)) M"
proof -
  have o: "owns (vv_free (Some ca) h) M" using assms(1) by simp
  note rr = read_request_memory [OF o, of max_body chunks]
  have sr: "owns (snd (serve_request handler req g)) N" if "owns g N" for req g N
  proof -
    obtain sent out g' where hd: "handler req g = (sent, out, g')" by (rule prod_cases3)
    have "owns g' N" using assms(2) that hd by (metis snd_conv)
    then show ?thesis using that hd by (auto simp: serve_request_def split: option.splits)
  qed
  obtain x h1 where r: "read_request max_body chunks (vv_free (Some ca) h) = (x, h1)" by fastforce
  show ?thesis
  proof (cases x)
    case None
    then show ?thesis using rr r by (simp add: conn_thread_def)
  next
    case (Some y)
    obtain req buf where y: "y = (req, buf)" by fastforce
    have "owns h1 (add_mset (Host, buf) M)" using rr r Some y by simp
    from sr [OF this, of req] r Some y show ?thesis by (auto simp: conn_thread_def split: prod.splits)
  qed
qed

theorem conn_thread_no_leak_witness:
  "owns (snd (conn_thread 100 (\<lambda>req g. (False, Some [], g)) 0 [(request_head (ascii ''POST'') (ascii ''/v1?x=1'') demo_headers 0, False)]
     (snd (vv_alloc 16 demo_heap)))) {#}"
proof -
  have "fst (vv_alloc 16 demo_heap) = Some 0" by code_simp
  then have "owns (snd (vv_alloc 16 demo_heap)) (add_mset (Host, 0) {#})"
    using vv_alloc_owns [OF demo_heap_owns, of 16] by (metis option.simps(5) prod.collapse)
  from conn_thread_no_leak [OF this, of "\<lambda>req g. (False, Some [], g)"] show ?thesis by simp
qed

end
