(* ===== verification/CJson.thy ===== *)
theory CJson
  imports Prelude
begin

text \<open>
  The tree the vendored cJSON returns, with its numbers left as the doubles they are (a type variable), and the accessors
  the request parser and the post-processor call. Parsing is a parameter wherever it is used. Keys are compared exactly
  here, as \<^verbatim>\<open>cJSON_GetObjectItemCaseSensitive\<close> does; the theory \<open>Json\<close> holds the accessors of the file loaders.
\<close>

datatype 'd cjson = CNull | CBool bool | CNumber 'd | CString string | CArray "'d cjson list" | CObject "(string \<times> 'd cjson) list"

text \<open>Only the children of an object carry a key; the first that matches is taken.\<close>

definition cj_get :: "string \<Rightarrow> 'd cjson \<Rightarrow> 'd cjson option" where
  "cj_get k j = (case j of CObject kvs \<Rightarrow> map_of kvs k | _ \<Rightarrow> None)"

text \<open>What \<^verbatim>\<open>cJSON_ArrayForEach\<close> and \<^verbatim>\<open>cJSON_GetArrayItem\<close> walk: the children of an array or of an object.\<close>

definition cj_children :: "'d cjson \<Rightarrow> 'd cjson list" where
  "cj_children j = (case j of CArray xs \<Rightarrow> xs | CObject kvs \<Rightarrow> map snd kvs | _ \<Rightarrow> [])"

fun cj_string :: "'d cjson option \<Rightarrow> string option" where
  "cj_string (Some (CString s)) = Some s"
| "cj_string _ = None"

fun cj_number :: "'d cjson option \<Rightarrow> 'd option" where
  "cj_number (Some (CNumber d)) = Some d"
| "cj_number _ = None"

fun cj_is_array :: "'d cjson option \<Rightarrow> bool" where
  "cj_is_array (Some (CArray _)) = True"
| "cj_is_array _ = False"

fun cj_is_object :: "'d cjson option \<Rightarrow> bool" where
  "cj_is_object (Some (CObject _)) = True"
| "cj_is_object _ = False"

end
