(* ===== verification/ChatPrompt.thy ===== *)
theory ChatPrompt
  imports CJson Heap
begin

text \<open>
  The chat endpoint's request (\<^verbatim>\<open>src/src/server/chat_prompt.c\<close>): the OpenAI request body, already parsed into a tree by
  cJSON (the parameter \<open>parse\<close>), becomes the ChatML prompt and the sampling options. A C string that lives in a block of
  the heap is the pair of its block and its text. The conversions of a double to an int and to a float are the parameter
  \<open>num_ops\<close>; floats are their bits.
\<close>

subsection \<open>The growing buffer\<close>

text \<open>\<^verbatim>\<open>n\<close> is the length of the text, which is always followed by its NUL. Sizes are naturals: no text in memory comes near \<open>2 ^ 63\<close> bytes.\<close>

record buf =
  bf_s :: "nat option"
  bf_text :: string
  bf_cap :: nat

definition empty_buf :: buf where
  "empty_buf = \<lparr>bf_s = None, bf_text = [], bf_cap = 0\<rparr>"

function grow_cap :: "nat \<Rightarrow> nat \<Rightarrow> nat" where
  "grow_cap cap need = (if 0 < cap \<and> cap < need then grow_cap (cap * 2) need else cap)"
  by pat_completeness auto
termination by (relation "measure (\<lambda>(cap, need). need - cap)") auto

declare grow_cap.simps [simp del]

text \<open>The test of the loop in C is only \<^verbatim>\<open>cap < need\<close>; a capacity is never zero there (it starts at 512 or at twice one that is not).\<close>

definition buf_add :: "string \<Rightarrow> buf \<Rightarrow> heap \<Rightarrow> bool \<times> buf \<times> heap" where
  "buf_add s b h =
     (let need = length (bf_text b) + length s + 1 in
      if need > bf_cap b then
        let cap = grow_cap (if bf_cap b \<noteq> 0 then bf_cap b * 2 else 512) need in
        (case vv_realloc (bf_s b) (of_nat cap) h of
           (None, h) \<Rightarrow> (False, b, h)
         | (Some p, h) \<Rightarrow> (True, \<lparr>bf_s = Some p, bf_text = bf_text b @ s, bf_cap = cap\<rparr>, h))
      else (True, b\<lparr>bf_text := bf_text b @ s\<rparr>, h))"

text \<open>\<^verbatim>\<open>&&\<close> over operations on the buffer: the next one runs only if the ones before succeeded.\<close>

fun buf_all :: "(buf \<Rightarrow> heap \<Rightarrow> bool \<times> buf \<times> heap) list \<Rightarrow> buf \<Rightarrow> heap \<Rightarrow> bool \<times> buf \<times> heap" where
  "buf_all [] b h = (True, b, h)"
| "buf_all (f # fs) b h = (case f b h of (ok, b, h) \<Rightarrow> if ok then buf_all fs b h else (False, b, h))"

definition TURN_OPEN :: string where
  "TURN_OPEN = ''<|im_start|>''"

definition TURN_CLOSE :: string where
  "TURN_CLOSE = ''<|im_end|>'' @ [CHR 0x0A]"

definition append_content :: "'d cjson option \<Rightarrow> buf \<Rightarrow> heap \<Rightarrow> bool \<times> buf \<times> heap" where
  "append_content content b h =
     (case content of
        Some (CString s) \<Rightarrow> buf_add s b h
      | Some (CArray parts) \<Rightarrow>
          buf_all (map (\<lambda>part. case cj_string (cj_get ''text'' part) of Some s \<Rightarrow> buf_add s | None \<Rightarrow> (\<lambda>b h. (True, b, h))) parts) b h
      | _ \<Rightarrow> (True, b, h))"

definition dup_string :: "string \<Rightarrow> heap \<Rightarrow> (nat \<times> string) option \<times> heap" where
  "dup_string s h = (case vv_alloc (of_nat (length s + 1)) h of (p, h) \<Rightarrow> (map_option (\<lambda>a. (a, s)) p, h))"

subsection \<open>The request\<close>

record 'd num_ops =
  no_int :: "'d \<Rightarrow> int"
  no_float :: "'d \<Rightarrow> u32"

definition number_or :: "'d num_ops \<Rightarrow> 'd cjson \<Rightarrow> string \<Rightarrow> u32 \<Rightarrow> u32" where
  "number_or F obj key fallback = (case cj_number (cj_get key obj) of Some d \<Rightarrow> no_float F d | None \<Rightarrow> fallback)"

definition int_or :: "'d num_ops \<Rightarrow> 'd cjson \<Rightarrow> string \<Rightarrow> int \<Rightarrow> int" where
  "int_or F obj key fallback = (case cj_number (cj_get key obj) of Some d \<Rightarrow> no_int F d | None \<Rightarrow> fallback)"

text \<open>\<^verbatim>\<open>stop\<close> and \<^verbatim>\<open>n_stop\<close> are one list: only entries that were copied are counted.\<close>

record chat_request =
  cr_prompt :: "(nat \<times> string) option"
  cr_model :: "(nat \<times> string) option"
  cr_max_tokens :: int
  cr_temperature :: u32
  cr_top_p :: u32
  cr_top_k :: int
  cr_seed :: u64
  cr_stream :: bool
  cr_stop :: "(nat \<times> string) list"

definition zero_request :: chat_request where
  "zero_request = \<lparr>cr_prompt = None, cr_model = None, cr_max_tokens = 0, cr_temperature = 0, cr_top_p = 0, cr_top_k = 0,
     cr_seed = 0, cr_stream = False, cr_stop = []\<rparr>"

definition f32_one :: u32 where
  "f32_one = 0x3F800000"

definition vv_chat_request_free :: "chat_request option \<Rightarrow> heap \<Rightarrow> chat_request option \<times> heap" where
  "vv_chat_request_free req h =
     (case req of
        None \<Rightarrow> (None, h)
      | Some r \<Rightarrow>
          let h = vv_free (map_option fst (cr_prompt r)) h;
              h = vv_free (map_option fst (cr_model r)) h;
              h = fold (\<lambda>s. vv_free (Some (fst s))) (cr_stop r) h
          in (Some zero_request, h))"

definition message_role :: "'d cjson \<Rightarrow> string" where
  "message_role m = (case cj_string (cj_get ''role'' m) of Some r \<Rightarrow> r | None \<Rightarrow> ''user'')"

definition append_message :: "'d cjson \<Rightarrow> buf \<Rightarrow> heap \<Rightarrow> bool \<times> buf \<times> heap" where
  "append_message m = buf_all [buf_add TURN_OPEN, buf_add (message_role m), buf_add [CHR 0x0A],
     append_content (cj_get ''content'' m), buf_add TURN_CLOSE]"

text \<open>The loop over the messages, with \<^verbatim>\<open>ok\<close>, \<^verbatim>\<open>have_system\<close> and the buffer.\<close>

fun append_messages :: "'d cjson list \<Rightarrow> bool \<Rightarrow> buf \<Rightarrow> heap \<Rightarrow> bool \<times> bool \<times> buf \<times> heap" where
  "append_messages [] sys b h = (True, sys, b, h)"
| "append_messages (m # ms) sys b h =
     (let sys = (sys \<or> message_role m = ''system'') in
      case append_message m b h of (ok, b, h) \<Rightarrow> if ok then append_messages ms sys b h else (False, sys, b, h))"

definition default_system :: string where
  "default_system = TURN_OPEN @ ''system'' @ [CHR 0x0A] @ ''You are a helpful assistant.'' @ TURN_CLOSE"

definition chat_prompt :: "'d cjson list \<Rightarrow> heap \<Rightarrow> bool \<times> buf \<times> heap" where
  "chat_prompt messages h =
     (case append_messages messages False empty_buf h of (ok, sys, b, h) \<Rightarrow>
      case (if ok \<and> \<not> sys then
              (case buf_all [buf_add default_system, buf_add (bf_text b)] empty_buf h of
                 (True, head, h) \<Rightarrow> (True, head, vv_free (bf_s b) h)
               | (False, head, h) \<Rightarrow> (False, b, vv_free (bf_s head) h))
            else (ok, b, h)) of (ok, b, h) \<Rightarrow>
      case (if ok then buf_add (TURN_OPEN @ ''assistant'' @ [CHR 0x0A]) b h else (False, b, h)) of (ok, b, h) \<Rightarrow>
      if ok then (True, b, h) else (False, b, vv_free (bf_s b) h))"

definition add_stop :: "string \<Rightarrow> (nat \<times> string) list \<Rightarrow> heap \<Rightarrow> (nat \<times> string) list \<times> heap" where
  "add_stop s stops h = (case dup_string s h of (None, h) \<Rightarrow> (stops, h) | (Some x, h) \<Rightarrow> (stops @ [x], h))"

fun stop_loop :: "'d cjson list \<Rightarrow> (nat \<times> string) list \<Rightarrow> heap \<Rightarrow> (nat \<times> string) list \<times> heap" where
  "stop_loop [] stops h = (stops, h)"
| "stop_loop (it # its) stops h =
     (if length stops \<ge> 4 then (stops, h)
      else case cj_string (Some it) of
             None \<Rightarrow> stop_loop its stops h
           | Some s \<Rightarrow> (case add_stop s stops h of (stops, h) \<Rightarrow> stop_loop its stops h))"

definition read_stops :: "'d cjson option \<Rightarrow> heap \<Rightarrow> (nat \<times> string) list \<times> heap" where
  "read_stops stop h =
     (case stop of
        Some (CString s) \<Rightarrow> add_stop s [] h
      | Some (CArray its) \<Rightarrow> stop_loop its [] h
      | _ \<Rightarrow> ([], h))"

text \<open>What is read from the root once the prompt stands.\<close>

definition chat_options :: "'d num_ops \<Rightarrow> 'd cjson \<Rightarrow> chat_request \<Rightarrow> heap \<Rightarrow> chat_request \<times> heap" where
  "chat_options F root r h =
     (case (case cj_string (cj_get ''model'' root) of Some s \<Rightarrow> dup_string s h | None \<Rightarrow> (None, h)) of (mdl, h) \<Rightarrow>
      let max_tokens = int_or F root ''max_completion_tokens'' (int_or F root ''max_tokens'' 512);
          max_tokens = (if max_tokens \<le> 0 then 512 else max_tokens);
          r = r\<lparr>cr_model := mdl, cr_max_tokens := max_tokens,
                cr_temperature := number_or F root ''temperature'' 0,
                cr_top_p := number_or F root ''top_p'' f32_one,
                cr_top_k := int_or F root ''top_k'' 64,
                cr_seed := of_int (int_or F root ''seed'' 0),
                cr_stream := (cj_get ''stream'' root = Some (CBool True))\<rparr>
      in case read_stops (cj_get ''stop'' root) h of (stops, h) \<Rightarrow> (r\<lparr>cr_stop := stops\<rparr>, h))"

text \<open>The status, what \<^verbatim>\<open>*out\<close> and \<^verbatim>\<open>*err\<close> hold afterwards, and the heap; \<open>room\<close> tells whether \<^verbatim>\<open>out\<close> was given.\<close>

definition vv_chat_request_parse ::
  "(string \<Rightarrow> 'd cjson option) \<Rightarrow> 'd num_ops \<Rightarrow> string option \<Rightarrow> bool \<Rightarrow> heap \<Rightarrow>
   vv_status \<times> chat_request option \<times> string option \<times> heap" where
  "vv_chat_request_parse parse F body room h =
     (case body of
        None \<Rightarrow> (VV_ERR_NULL_PTR, None, None, h)
      | Some s \<Rightarrow>
          if \<not> room then (VV_ERR_NULL_PTR, None, None, h)
          else
            let r = zero_request\<lparr>cr_max_tokens := 512, cr_top_p := f32_one, cr_top_k := 64\<rparr> in
            (case parse s of
               None \<Rightarrow> (VV_ERR_PARSE, Some r, Some ''body is not JSON'', h)
             | Some root \<Rightarrow>
                 (case cj_get ''messages'' root of
                    Some (CArray (m # ms)) \<Rightarrow>
                      if int_or F root ''n'' 1 \<noteq> 1 then (VV_ERR_UNSUPPORTED, Some r, Some '''n' must be 1'', h)
                      else
                        (case chat_prompt (m # ms) h of
                           (False, b, h) \<Rightarrow> (VV_ERR_OUT_OF_MEMORY, Some r, Some ''out of memory'', h)
                         | (True, b, h) \<Rightarrow>
                             (case chat_options F root (r\<lparr>cr_prompt := map_option (\<lambda>p. (p, bf_text b)) (bf_s b)\<rparr>) h of
                                (r, h) \<Rightarrow> (VV_OK, Some r, None, h)))
                  | _ \<Rightarrow> (VV_ERR_INVALID_ARG, Some r, Some '''messages' must be a non-empty array'', h))))"

subsection \<open>What the buffer operations do\<close>

definition buf_ok :: "buf \<Rightarrow> bool" where
  "buf_ok b \<longleftrightarrow> (if bf_s b = None then bf_text b = [] \<and> bf_cap b = 0 else length (bf_text b) < bf_cap b)"

text \<open>
  \<open>appends f s\<close>: on a good buffer that stays below \<open>2 ^ 62\<close> bytes \<open>f\<close> appends exactly \<open>s\<close> or reports a failure; either way
  the buffer is good and its block is the only thing of it on the heap. With a host that never fails it does not fail.
\<close>

definition appends :: "(buf \<Rightarrow> heap \<Rightarrow> bool \<times> buf \<times> heap) \<Rightarrow> string \<Rightarrow> bool" where
  "appends f s \<longleftrightarrow>
     (\<forall>b h M. buf_ok b \<longrightarrow> length (bf_text b) + length s < 2 ^ 62 \<longrightarrow> owns h (opt_block Host (bf_s b) + M) \<longrightarrow>
        (case f b h of (ok, b', h') \<Rightarrow>
           buf_ok b' \<and> owns h' (opt_block Host (bf_s b') + M) \<and> (ok \<longrightarrow> bf_text b' = bf_text b @ s) \<and>
           (host_never_fails h \<longrightarrow> ok \<and> host_never_fails h')))"

lemma appendsD:
  assumes "appends f s" and "buf_ok b" and "length (bf_text b) + length s < 2 ^ 62"
    and "owns h (opt_block Host (bf_s b) + M)" and "f b h = (ok, b', h')"
  shows "buf_ok b' \<and> owns h' (opt_block Host (bf_s b') + M) \<and> (ok \<longrightarrow> bf_text b' = bf_text b @ s) \<and>
    (host_never_fails h \<longrightarrow> ok \<and> host_never_fails h')"
  using assms unfolding appends_def by fastforce

lemma grow_cap_bounds:
  "0 < cap \<Longrightarrow> need \<le> grow_cap cap need \<and> cap \<le> grow_cap cap need \<and> grow_cap cap need \<le> max cap (2 * need)"
proof (induction cap need rule: grow_cap.induct)
  case (1 cap need)
  show ?case
  proof (cases "cap < need")
    case True
    then show ?thesis using 1 by (subst (1 2 3) grow_cap.simps) auto
  next
    case False
    then show ?thesis by (subst (1 2 3) grow_cap.simps) auto
  qed
qed

lemma vv_realloc_owns:
  assumes "owns h (opt_block Host p + M)" and "sz \<noteq> 0" and "vv_realloc p sz h = (q, h')"
  shows "owns h' (opt_block Host (if q = None then p else q) + M) \<and>
    (host_never_fails h \<longrightarrow> q \<noteq> None \<and> host_never_fails h')"
proof (cases p)
  case None
  then have va: "vv_alloc sz h = (q, h')" and o: "owns h M" using assms by (simp_all add: vv_realloc_def opt_block_def)
  from vv_alloc_owns [OF o va] vv_alloc_never_fails [OF _ assms(2) va] show ?thesis
    using None by (cases q) (auto simp: opt_block_def)
next
  case (Some a)
  then have live: "(Host, a) \<in> set (h_live h)" and mset_eq: "mset (h_live h) = add_mset (Host, a) M" and nb: "\<not> h_bad h"
    using assms(1) by (auto simp: owns_def opt_block_def simp flip: set_mset_mset)
  show ?thesis using assms(2,3) Some live mset_eq nb
    by (auto simp: vv_realloc_def Let_def owns_def opt_block_def host_never_fails_def split: if_splits)
qed

lemma buf_add_appends: "appends (buf_add s) s"
  unfolding appends_def
proof (intro allI impI)
  fix b :: buf and h :: heap and M
  assume ok: "buf_ok b" and len: "length (bf_text b) + length s < 2 ^ 62"
    and ow: "owns h (opt_block Host (bf_s b) + M)"
  let ?need = "length (bf_text b) + length s + 1"
  show "case buf_add s b h of (ok, b', h') \<Rightarrow>
      buf_ok b' \<and> owns h' (opt_block Host (bf_s b') + M) \<and> (ok \<longrightarrow> bf_text b' = bf_text b @ s) \<and>
      (host_never_fails h \<longrightarrow> ok \<and> host_never_fails h')"
  proof (cases "?need > bf_cap b")
    case False
    then show ?thesis using ok ow by (auto simp: buf_add_def buf_ok_def Let_def split: if_splits)
  next
    case True
    define cap where "cap = grow_cap (if bf_cap b \<noteq> 0 then bf_cap b * 2 else 512) ?need"
    have b: "?need \<le> cap" "cap \<le> max 512 (2 * ?need)" "0 < cap"
      using grow_cap_bounds [of "if bf_cap b \<noteq> 0 then bf_cap b * 2 else 512" ?need] True by (auto simp: cap_def)
    have "cap < 2 ^ 64" using b(2) len by simp
    then have "unat (of_nat cap :: u64) = cap" unfolding unsigned_of_nat of_nat_id by (intro take_bit_nat_eq_self) simp
    then have "(of_nat cap :: u64) \<noteq> 0" using b(3) by fastforce
    obtain q h1 where re: "vv_realloc (bf_s b) (of_nat cap) h = (q, h1)" by fastforce
    note r = vv_realloc_owns [OF ow \<open>of_nat cap \<noteq> 0\<close> re]
    have "buf_add s b h = (case q of None \<Rightarrow> (False, b, h1)
        | Some p \<Rightarrow> (True, \<lparr>bf_s = Some p, bf_text = bf_text b @ s, bf_cap = cap\<rparr>, h1))"
      using re by (simp only: buf_add_def Let_def cap_def [symmetric] True if_True prod.case split: option.split)
    then show ?thesis using r ok b(1) by (cases q) (auto simp: buf_ok_def)
  qed
qed

lemma appends_skip: "appends (\<lambda>b h. (True, b, h)) []"
  by (auto simp: appends_def)

lemma appends_all:
  "list_all2 appends fs ss \<Longrightarrow> appends (buf_all fs) (concat ss)"
proof (induction fs ss rule: list_all2_induct)
  case Nil
  then show ?case by (simp add: appends_def)
next
  case (Cons f fs s ss)
  show ?case unfolding appends_def
  proof (intro allI impI)
    fix b :: buf and h :: heap and M
    assume ok: "buf_ok b" and len: "length (bf_text b) + length (concat (s # ss)) < 2 ^ 62"
      and ow: "owns h (opt_block Host (bf_s b) + M)"
    obtain k b1 h1 where f: "f b h = (k, b1, h1)" by (cases "f b h")
    have "length (bf_text b) + length s < 2 ^ 62" using len by simp
    note 1 = appendsD [OF Cons(1) ok this ow f]
    obtain k2 b2 h2 where g: "buf_all fs b1 h1 = (k2, b2, h2)" by (cases "buf_all fs b1 h1")
    have "length (bf_text b1) + length (concat ss) < 2 ^ 62" if k using 1 that len by simp
    then have "k \<Longrightarrow> buf_ok b2 \<and> owns h2 (opt_block Host (bf_s b2) + M) \<and> (k2 \<longrightarrow> bf_text b2 = bf_text b1 @ concat ss) \<and>
        (host_never_fails h1 \<longrightarrow> k2 \<and> host_never_fails h2)"
      using appendsD [OF Cons(3) _ _ _ g, of M] 1 by blast
    then show "case buf_all (f # fs) b h of (ok, b', h') \<Rightarrow>
        buf_ok b' \<and> owns h' (opt_block Host (bf_s b') + M) \<and> (ok \<longrightarrow> bf_text b' = bf_text b @ concat (s # ss)) \<and>
        (host_never_fails h \<longrightarrow> ok \<and> host_never_fails h')"
      using 1 f g by (cases k) auto
  qed
qed

subsection \<open>The prompt as a function of the messages\<close>

definition part_text :: "'d cjson \<Rightarrow> string" where
  "part_text part = (case cj_string (cj_get ''text'' part) of Some s \<Rightarrow> s | None \<Rightarrow> [])"

definition content_text :: "'d cjson option \<Rightarrow> string" where
  "content_text content = (case content of Some (CString s) \<Rightarrow> s | Some (CArray parts) \<Rightarrow> concat (map part_text parts) | _ \<Rightarrow> [])"

definition turn_text :: "string \<Rightarrow> string \<Rightarrow> string" where
  "turn_text role s = ''<|im_start|>'' @ role @ [CHR 0x0A] @ s @ ''<|im_end|>'' @ [CHR 0x0A]"

definition chat_ml :: "'d cjson list \<Rightarrow> string" where
  "chat_ml ms =
     (if \<exists>m \<in> set ms. message_role m = ''system'' then [] else turn_text ''system'' ''You are a helpful assistant.'') @
     concat (map (\<lambda>m. turn_text (message_role m) (content_text (cj_get ''content'' m))) ms) @
     ''<|im_start|>assistant'' @ [CHR 0x0A]"

lemma append_content_appends: "appends (append_content c) (content_text c)"
proof (cases c)
  case None
  then show ?thesis using appends_skip by (simp add: append_content_def [abs_def] content_text_def)
next
  case (Some j)
  show ?thesis
  proof (cases j)
    case (CArray parts)
    define fs where "fs = map (\<lambda>part. case cj_string (cj_get ''text'' part) of
        Some s \<Rightarrow> buf_add s | None \<Rightarrow> (\<lambda>b h. (True, b, h))) parts"
    have "list_all2 appends fs (map part_text parts)"
      by (auto simp: fs_def list_all2_map1 list_all2_map2 part_text_def intro!: list.rel_refl_strong buf_add_appends appends_skip
          split: option.splits)
    from appends_all [OF this] show ?thesis using Some CArray
      by (simp add: append_content_def [abs_def] content_text_def fs_def)
  qed (use Some appends_skip buf_add_appends in \<open>auto simp: append_content_def [abs_def] content_text_def\<close>)
qed

lemma append_message_appends:
  "appends (append_message m) (turn_text (message_role m) (content_text (cj_get ''content'' m)))"
proof -
  have "list_all2 appends [buf_add TURN_OPEN, buf_add (message_role m), buf_add [CHR 0x0A],
      append_content (cj_get ''content'' m), buf_add TURN_CLOSE]
    [TURN_OPEN, message_role m, [CHR 0x0A], content_text (cj_get ''content'' m), TURN_CLOSE]"
    by (simp add: buf_add_appends append_content_appends)
  from appends_all [OF this] show ?thesis
    by (simp add: append_message_def turn_text_def TURN_OPEN_def TURN_CLOSE_def)
qed

lemma empty_buf_ok [simp]: "buf_ok empty_buf" "bf_s empty_buf = None" "bf_text empty_buf = []"
  by (simp_all add: empty_buf_def buf_ok_def)

definition turns :: "'d cjson list \<Rightarrow> string" where
  "turns ms = concat (map (\<lambda>m. turn_text (message_role m) (content_text (cj_get ''content'' m))) ms)"

lemma append_messages_appends:
  assumes "append_messages ms sys b h = (ok, sys', b', h')"
    and "buf_ok b" and "length (bf_text b) + length (turns ms) < 2 ^ 62" and "owns h (opt_block Host (bf_s b) + M)"
  shows "buf_ok b' \<and> owns h' (opt_block Host (bf_s b') + M) \<and>
    (ok \<longrightarrow> bf_text b' = bf_text b @ turns ms \<and> sys' = (sys \<or> (\<exists>m \<in> set ms. message_role m = ''system''))) \<and>
    (host_never_fails h \<longrightarrow> ok \<and> host_never_fails h')"
  using assms
proof (induction ms arbitrary: sys b h)
  case Nil
  then show ?case by (auto simp: turns_def)
next
  case (Cons m ms)
  obtain k b1 h1 where a: "append_message m b h = (k, b1, h1)" by (cases "append_message m b h")
  have "length (bf_text b) + length (turn_text (message_role m) (content_text (cj_get ''content'' m))) < 2 ^ 62"
    using Cons.prems(3) by (simp add: turns_def)
  note 1 = appendsD [OF append_message_appends Cons.prems(2) this Cons.prems(4) a]
  show ?case
  proof (cases k)
    case False
    then show ?thesis using Cons.prems(1) 1 a by (auto simp: Let_def)
  next
    case True
    have r: "append_messages ms (sys \<or> message_role m = ''system'') b1 h1 = (ok, sys', b', h')"
      using Cons.prems(1) a True by (simp add: Let_def)
    have "length (bf_text b1) + length (turns ms) < 2 ^ 62" using Cons.prems(3) 1 True by (simp add: turns_def)
    from Cons.IH [OF r _ this] 1 True show ?thesis by (auto simp: turns_def)
  qed
qed

lemma chat_prompt_correct:
  assumes p: "chat_prompt ms h = (ok, b, h')" and len: "length (chat_ml ms) < 2 ^ 62" and ow: "owns h M"
  shows "(if ok then bf_text b = chat_ml ms \<and> (\<exists>p. bf_s b = Some p \<and> owns h' (add_mset (Host, p) M)) else owns h' M) \<and>
    (host_never_fails h \<longrightarrow> ok \<and> host_never_fails h')"
proof -
  let ?sys = "\<exists>m \<in> set ms. message_role m = ''system''"
  let ?asst = "TURN_OPEN @ ''assistant'' @ [CHR 0x0A]"
  have ml: "chat_ml ms = (if ?sys then [] else default_system) @ turns ms @ ?asst"
    by (simp add: chat_ml_def turns_def default_system_def turn_text_def TURN_OPEN_def TURN_CLOSE_def)
  obtain k1 sys b1 h1 where a: "append_messages ms False empty_buf h = (k1, sys, b1, h1)"
    by (cases "append_messages ms False empty_buf h")
  have l1: "length (bf_text empty_buf) + length (turns ms) < 2 ^ 62" using len ml by simp
  have o1: "owns h (opt_block Host (bf_s empty_buf) + M)" using ow by (simp add: opt_block_def)
  note 1 = append_messages_appends [OF a empty_buf_ok(1) l1 o1]
  obtain k2 b2 h2 where c: "(if k1 \<and> \<not> sys then
       (case buf_all [buf_add default_system, buf_add (bf_text b1)] empty_buf h1 of
          (True, head, h) \<Rightarrow> (True, head, vv_free (bf_s b1) h)
        | (False, head, h) \<Rightarrow> (False, b1, vv_free (bf_s head) h))
      else (k1, b1, h1)) = (k2, b2, h2)"
    by (rule prod_cases3)
  have 2: "buf_ok b2 \<and> owns h2 (opt_block Host (bf_s b2) + M) \<and>
      (k2 \<longrightarrow> bf_text b2 = (if ?sys then [] else default_system) @ turns ms) \<and> (host_never_fails h \<longrightarrow> k2 \<and> host_never_fails h2)"
  proof (cases "k1 \<and> \<not> sys")
    case False
    then show ?thesis using c 1 by auto
  next
    case True
    obtain k3 hb h3 where d: "buf_all [buf_add default_system, buf_add (bf_text b1)] empty_buf h1 = (k3, hb, h3)"
      by (rule prod_cases3)
    have t1: "bf_text b1 = turns ms" "\<not> ?sys" using 1 True by auto
    have "list_all2 appends [buf_add default_system, buf_add (bf_text b1)] [default_system, turns ms]"
      using t1 by (simp add: buf_add_appends)
    note ap = appends_all [OF this]
    have l3: "length (bf_text empty_buf) + length (concat [default_system, turns ms]) < 2 ^ 62" using len ml t1 by simp
    have o3: "owns h1 (opt_block Host (bf_s empty_buf) + (opt_block Host (bf_s b1) + M))" using 1 by (simp add: opt_block_def)
    note 3 = appendsD [OF ap empty_buf_ok(1) l3 o3 d]
    have o4: "owns (vv_free (bf_s b1) h3) (opt_block Host (bf_s hb) + M)" using 3 by (simp add: add.left_commute)
    have o5: "owns (vv_free (bf_s hb) h3) (opt_block Host (bf_s b1) + M)" using 3 by simp
    have hn: "host_never_fails (vv_free q g)" if "host_never_fails g" for q g
      using that by (auto simp: host_never_fails_def vv_free_def Let_def split: option.splits)
    show ?thesis
    proof (cases k3)
      case True
      then have e: "k2" "b2 = hb" "h2 = vv_free (bf_s b1) h3" using c d \<open>k1 \<and> \<not> sys\<close> by simp_all
      show ?thesis unfolding e using 3 1 o4 t1 hn True e by simp
    next
      case False
      then have e: "\<not> k2" "b2 = b1" "h2 = vv_free (bf_s hb) h3" using c d \<open>k1 \<and> \<not> sys\<close> by simp_all
      show ?thesis using 3 1 o5 e False by simp
    qed
  qed
  obtain k4 b4 h4 where f: "(if k2 then buf_add ?asst b2 h2 else (False, b2, h2)) = (k4, b4, h4)" by (rule prod_cases3)
  have 4: "buf_ok b4 \<and> owns h4 (opt_block Host (bf_s b4) + M) \<and> (k4 \<longrightarrow> bf_text b4 = chat_ml ms) \<and>
      (host_never_fails h \<longrightarrow> k4 \<and> host_never_fails h4)"
  proof (cases k2)
    case False
    then show ?thesis using f 2 by auto
  next
    case True
    then have f': "buf_add ?asst b2 h2 = (k4, b4, h4)" using f by simp
    have l: "length (bf_text b2) + length ?asst < 2 ^ 62" using len ml 2 True by simp
    from appendsD [OF buf_add_appends _ l _ f'] 2 ml True show ?thesis by auto
  qed
  have e: "chat_prompt ms h = (if k4 then (True, b4, h4) else (False, b4, vv_free (bf_s b4) h4))"
    unfolding chat_prompt_def a prod.case c f by simp
  have ne: "chat_ml ms \<noteq> []" by (simp add: chat_ml_def)
  show ?thesis
  proof (cases k4)
    case False
    then show ?thesis using e p 4 by auto
  next
    case True
    then have "b = b4" "h' = h4" "ok" using e p by auto
    moreover have "bf_s b4 \<noteq> None" using 4 ne True by (cases "bf_s b4") (auto simp: buf_ok_def)
    ultimately show ?thesis using 4 True by (auto simp: opt_block_def)
  qed
qed

subsection \<open>The options\<close>

definition text_block :: "(nat \<times> string) option \<Rightarrow> block multiset" where
  "text_block x = opt_block Host (map_option fst x)"

definition stop_blocks :: "(nat \<times> string) list \<Rightarrow> block multiset" where
  "stop_blocks stops = mset (map (\<lambda>s. (Host, fst s)) stops)"

definition request_blocks :: "chat_request \<Rightarrow> block multiset" where
  "request_blocks r = text_block (cr_prompt r) + text_block (cr_model r) + stop_blocks (cr_stop r)"

lemma dup_string_owns:
  assumes "dup_string s h = (x, h')" and "owns h M" and "length s < 2 ^ 62"
  shows "owns h' (text_block x + M) \<and> (x \<noteq> None \<longrightarrow> map_option snd x = Some s) \<and> (host_never_fails h \<longrightarrow> x \<noteq> None \<and> host_never_fails h')"
proof -
  obtain p h1 where va: "vv_alloc (of_nat (length s + 1)) h = (p, h1)" by fastforce
  have "unat (of_nat (length s + 1) :: u64) = length s + 1"
    unfolding unsigned_of_nat of_nat_id using assms(3) by (intro take_bit_nat_eq_self) simp
  then have "(of_nat (length s + 1) :: u64) \<noteq> 0" by fastforce
  from vv_alloc_owns [OF assms(2) va] vv_alloc_never_fails [OF _ this va] assms(1) va show ?thesis
    by (cases p) (auto simp: dup_string_def text_block_def opt_block_def simp del: of_nat_add of_nat_Suc)
qed

lemma add_stop_owns:
  assumes "add_stop s stops h = (stops', h')" and "owns h (stop_blocks stops + M)" and "length s < 2 ^ 62"
  shows "owns h' (stop_blocks stops' + M) \<and> length stops' \<le> length stops + 1 \<and> set (map snd stops') \<subseteq> insert s (set (map snd stops)) \<and>
    (host_never_fails h \<longrightarrow> map snd stops' = map snd stops @ [s] \<and> host_never_fails h')"
proof -
  obtain x h1 where d: "dup_string s h = (x, h1)" by fastforce
  from dup_string_owns [OF d assms(2,3)] assms(1) d show ?thesis
    by (cases x) (auto simp: add_stop_def stop_blocks_def text_block_def opt_block_def)
qed

definition stop_strings :: "'d cjson list \<Rightarrow> string list" where
  "stop_strings its = List.map_filter (\<lambda>it. cj_string (Some it)) its"

lemma stop_loop_owns:
  assumes "stop_loop its stops h = (stops', h')" and "owns h (stop_blocks stops + M)" and "length stops \<le> 4"
    and "\<forall>s \<in> set (stop_strings its). length s < 2 ^ 62"
  shows "owns h' (stop_blocks stops' + M) \<and> length stops' \<le> 4 \<and>
    (host_never_fails h \<longrightarrow> map snd stops' = take 4 (map snd stops @ stop_strings its) \<and> host_never_fails h')"
  using assms
proof (induction its arbitrary: stops h)
  case Nil
  then show ?case by (auto simp: stop_strings_def List.map_filter_def)
next
  case (Cons it its)
  show ?case
  proof (cases "length stops \<ge> 4")
    case True
    then show ?thesis using Cons.prems by auto
  next
    case False
    show ?thesis
    proof (cases "cj_string (Some it)")
      case None
      then have "stop_strings (it # its) = stop_strings its" by (simp add: stop_strings_def List.map_filter_simps)
      then show ?thesis using Cons.prems Cons.IH [of stops h] False None by simp
    next
      case (Some s)
      then have ss: "stop_strings (it # its) = s # stop_strings its" by (simp add: stop_strings_def List.map_filter_simps)
      obtain st1 h1 where a: "add_stop s stops h = (st1, h1)" by fastforce
      have "length s < 2 ^ 62" using Cons.prems(4) ss by simp
      note 1 = add_stop_owns [OF a Cons.prems(2) this]
      have r: "stop_loop its st1 h1 = (stops', h')" using Cons.prems(1) False Some a by simp
      have "owns h' (stop_blocks stops' + M) \<and> length stops' \<le> 4 \<and>
          (host_never_fails h1 \<longrightarrow> map snd stops' = take 4 (map snd st1 @ stop_strings its) \<and> host_never_fails h')"
        using Cons.IH [OF r] 1 False Cons.prems(4) ss by auto
      moreover have "map snd stops @ stop_strings (it # its) = (map snd stops @ [s]) @ stop_strings its" using ss by simp
      ultimately show ?thesis using 1 by (metis (no_types, lifting))
    qed
  qed
qed

lemma read_stops_owns:
  assumes "read_stops stop h = (stops, h')" and "owns h M"
    and "\<forall>s \<in> set (stop_strings (case stop of Some (CArray its) \<Rightarrow> its | Some j \<Rightarrow> [j] | None \<Rightarrow> [])). length s < 2 ^ 62"
  shows "owns h' (stop_blocks stops + M) \<and> length stops \<le> 4 \<and>
    (host_never_fails h \<longrightarrow> map snd stops =
       take 4 (stop_strings (case stop of Some (CArray its) \<Rightarrow> its | Some j \<Rightarrow> [j] | None \<Rightarrow> [])) \<and> host_never_fails h')"
proof -
  have o: "owns h (stop_blocks [] + M)" using assms(2) by (simp add: stop_blocks_def)
  have none: ?thesis if "read_stops stop h = ([], h)"
    "stop_strings (case stop of Some (CArray its) \<Rightarrow> its | Some j \<Rightarrow> [j] | None \<Rightarrow> []) = []"
    using that assms o by auto
  show ?thesis
  proof (cases stop)
    case None
    show ?thesis by (rule none) (simp_all add: None read_stops_def stop_strings_def List.map_filter_simps)
  next
    case (Some j)
    show ?thesis
    proof (cases j)
      case (CString s)
      have a: "add_stop s [] h = (stops, h')" using assms(1) Some CString by (simp add: read_stops_def)
      have "length s < 2 ^ 62" using assms(3) Some CString by (simp add: stop_strings_def List.map_filter_simps)
      from add_stop_owns [OF a o this] Some CString show ?thesis
        by (auto simp: stop_strings_def List.map_filter_simps)
    next
      case (CArray its)
      have a: "stop_loop its [] h = (stops, h')" using assms(1) Some CArray by (simp add: read_stops_def)
      from stop_loop_owns [OF a o] assms(3) Some CArray show ?thesis by auto
    next
      case CNull
      show ?thesis by (rule none) (simp_all add: Some CNull read_stops_def stop_strings_def List.map_filter_simps)
    next
      case (CBool x)
      show ?thesis by (rule none) (simp_all add: Some CBool read_stops_def stop_strings_def List.map_filter_simps)
    next
      case (CNumber x)
      show ?thesis by (rule none) (simp_all add: Some CNumber read_stops_def stop_strings_def List.map_filter_simps)
    next
      case (CObject x)
      show ?thesis by (rule none) (simp_all add: Some CObject read_stops_def stop_strings_def List.map_filter_simps)
    qed
  qed
qed

text \<open>
  The sizes the theorems ask for: no text the request makes is as long as \<open>2 ^ 62\<close> bytes. Every body in memory meets them.
\<close>

definition request_messages :: "'d cjson \<Rightarrow> 'd cjson list" where
  "request_messages root = (case cj_get ''messages'' root of Some (CArray ms) \<Rightarrow> ms | _ \<Rightarrow> [])"

definition request_stops :: "'d cjson \<Rightarrow> string list" where
  "request_stops root =
     stop_strings (case cj_get ''stop'' root of Some (CArray its) \<Rightarrow> its | Some j \<Rightarrow> [j] | None \<Rightarrow> [])"

definition request_fits :: "'d cjson \<Rightarrow> bool" where
  "request_fits root \<longleftrightarrow> length (chat_ml (request_messages root)) < 2 ^ 62 \<and>
     list_all (\<lambda>s. length s < 2 ^ 62) (request_stops root) \<and>
     (case cj_string (cj_get ''model'' root) of Some s \<Rightarrow> length s < 2 ^ 62 | None \<Rightarrow> True)"

lemma chat_options_owns:
  assumes c: "chat_options F root r h = (r', h')" and f: "request_fits root" and o: "owns h M"
  shows "owns h' (text_block (cr_model r') + stop_blocks (cr_stop r') + M) \<and> cr_prompt r' = cr_prompt r \<and>
    length (cr_stop r') \<le> 4 \<and> 0 < cr_max_tokens r' \<and>
    (host_never_fails h \<longrightarrow> map_option snd (cr_model r') = cj_string (cj_get ''model'' root) \<and>
       map snd (cr_stop r') = take 4 (request_stops root))"
proof -
  obtain mdl h1 where m: "(case cj_string (cj_get ''model'' root) of Some s \<Rightarrow> dup_string s h | None \<Rightarrow> (None, h)) = (mdl, h1)"
    by fastforce
  obtain stops h2 where s: "read_stops (cj_get ''stop'' root) h1 = (stops, h2)" by fastforce
  have 1: "owns h1 (text_block mdl + M) \<and>
      (host_never_fails h \<longrightarrow> map_option snd mdl = cj_string (cj_get ''model'' root) \<and> host_never_fails h1)"
  proof (cases "cj_string (cj_get ''model'' root)")
    case None
    then show ?thesis using m o by (auto simp: text_block_def opt_block_def)
  next
    case (Some s)
    then have d: "dup_string s h = (mdl, h1)" and l: "length s < 2 ^ 62" using m f by (auto simp: request_fits_def)
    from dup_string_owns [OF d o l] Some show ?thesis by auto
  qed
  have fits: "\<forall>s \<in> set (stop_strings (case cj_get ''stop'' root of Some (CArray its) \<Rightarrow> its | Some j \<Rightarrow> [j] | None \<Rightarrow> [])).
      length s < 2 ^ 62"
    using f by (simp add: request_fits_def request_stops_def list_all_iff)
  have o1: "owns h1 (text_block mdl + M)" using 1 by simp
  note 2 = read_stops_owns [OF s o1 fits]
  have e: "cr_model r' = mdl" "cr_stop r' = stops" "h' = h2" "cr_prompt r' = cr_prompt r" "0 < cr_max_tokens r'"
    using c unfolding chat_options_def m prod.case Let_def s by auto
  show ?thesis unfolding e using 1 2 e(5) by (auto simp: request_stops_def ac_simps)
qed

lemma free_stops_owns:
  "owns h (stop_blocks stops + M) \<Longrightarrow> owns (fold (\<lambda>s. vv_free (Some (fst s))) stops h) M"
  by (induction stops arbitrary: h) (auto simp: stop_blocks_def)

lemma free_request_owns:
  assumes "owns h (request_blocks r + M)"
  shows "owns (snd (vv_chat_request_free (Some r) h)) M"
proof -
  have 1: "owns (vv_free (map_option fst (cr_prompt r)) h) (text_block (cr_model r) + (stop_blocks (cr_stop r) + M))"
    by (rule owns_free_opt) (use assms in \<open>simp add: request_blocks_def text_block_def ac_simps\<close>)
  have 2: "owns (vv_free (map_option fst (cr_model r)) (vv_free (map_option fst (cr_prompt r)) h)) (stop_blocks (cr_stop r) + M)"
    by (rule owns_free_opt) (use 1 in \<open>simp only: text_block_def\<close>)
  show ?thesis using free_stops_owns [OF 2] by (simp add: vv_chat_request_free_def)
qed

lemma chat_request_parse_shape:
  assumes p: "vv_chat_request_parse parse F (Some s) True h = (st, out, err, h')" and st: "st = VV_OK \<or> st = VV_ERR_OUT_OF_MEMORY"
  shows "\<exists>root m ms. parse s = Some root \<and> cj_get ''messages'' root = Some (CArray (m # ms)) \<and> int_or F root ''n'' 1 = 1"
  using assms unfolding vv_chat_request_parse_def Let_def
  by (auto split: option.splits cjson.splits list.splits if_splits)

lemma chat_request_parse_ok:
  assumes "parse s = Some root" and "cj_get ''messages'' root = Some (CArray (m # ms))" and "int_or F root ''n'' 1 = 1"
    and "chat_prompt (m # ms) h = (ok, b, h1)"
  shows "vv_chat_request_parse parse F (Some s) True h =
    (let r = zero_request\<lparr>cr_max_tokens := 512, cr_top_p := f32_one, cr_top_k := 64\<rparr> in
     if ok then (case chat_options F root (r\<lparr>cr_prompt := map_option (\<lambda>p. (p, bf_text b)) (bf_s b)\<rparr>) h1 of
        (r, h) \<Rightarrow> (VV_OK, Some r, None, h))
     else (VV_ERR_OUT_OF_MEMORY, Some r, Some ''out of memory'', h1))"
  using assms by (simp add: vv_chat_request_parse_def Let_def)

text \<open>
  C15. Whatever the body, the doubles and the failing allocations: a request that is accepted carries exactly the ChatML text of
  its messages, at most four stop strings and a positive token limit, its blocks are all it took, and free gives them back;
  a request that is not accepted leaves nothing on the heap.
\<close>

theorem chat_request_rendered:
  assumes "owns h M" and "\<forall>root. parse s = Some root \<longrightarrow> request_fits root"
    and "vv_chat_request_parse parse F (Some s) True h = (st, Some r, err, h')"
  shows "owns h' (request_blocks r + M) \<and> owns (snd (vv_chat_request_free (Some r) h')) M \<and>
    (if st = VV_OK then \<exists>root p. parse s = Some root \<and> cr_prompt r = Some (p, chat_ml (request_messages root)) \<and>
         length (cr_stop r) \<le> 4 \<and> 0 < cr_max_tokens r
     else request_blocks r = {#} \<and> err \<noteq> None)"
proof (cases "st = VV_OK \<or> st = VV_ERR_OUT_OF_MEMORY")
  case False
  then have "h' = h \<and> request_blocks r = {#} \<and> err \<noteq> None"
    using assms(3) unfolding vv_chat_request_parse_def Let_def
    by (auto simp: request_blocks_def zero_request_def text_block_def opt_block_def stop_blocks_def
        split: option.splits cjson.splits list.splits if_splits bool.splits prod.splits)
  with assms(1) False free_request_owns [of h' r M] show ?thesis by auto
next
  case True
  from chat_request_parse_shape [OF assms(3) True] obtain root m ms
    where r: "parse s = Some root" "cj_get ''messages'' root = Some (CArray (m # ms))" "int_or F root ''n'' 1 = 1" by auto
  have rm: "request_messages root = m # ms" using r(2) by (simp add: request_messages_def)
  have fits: "request_fits root" using assms(2) r(1) by simp
  then have len: "length (chat_ml (m # ms)) < 2 ^ 62" by (simp add: request_fits_def rm)
  obtain ok b h1 where cp: "chat_prompt (m # ms) h = (ok, b, h1)" by (rule prod_cases3)
  note 1 = chat_prompt_correct [OF cp len assms(1)]
  note e = assms(3) [unfolded chat_request_parse_ok [where parse = parse, OF r cp] Let_def]
  show ?thesis
  proof (cases ok)
    case False
    then have "h' = h1" "st = VV_ERR_OUT_OF_MEMORY" "request_blocks r = {#}" "err \<noteq> None"
      using e by (auto simp: request_blocks_def zero_request_def text_block_def opt_block_def stop_blocks_def)
    with 1 False free_request_owns [of h' r M] show ?thesis by auto
  next
    case True
    obtain p where p: "bf_s b = Some p" "bf_text b = chat_ml (m # ms)" "owns h1 (add_mset (Host, p) M)" using 1 True by auto
    let ?r0 = "zero_request\<lparr>cr_max_tokens := 512, cr_top_p := f32_one, cr_top_k := 64,
      cr_prompt := Some (p, chat_ml (m # ms))\<rparr>"
    have c: "chat_options F root ?r0 h1 = (r, h')" and st: "st = VV_OK" using e True p by (auto split: prod.splits)
    note 2 = chat_options_owns [OF c fits p(3)]
    have pr: "cr_prompt r = Some (p, chat_ml (m # ms))" using 2 by simp
    then have o: "owns h' (request_blocks r + M)" using 2
      by (simp add: request_blocks_def text_block_def opt_block_def ac_simps)
    show ?thesis using o free_request_owns [OF o] pr 2 st r(1) rm by auto
  qed
qed

text \<open>A request body for the examples: one user turn with two content parts, no system turn, five stop strings.\<close>

definition demo_body :: "int cjson" where
  "demo_body = CObject
     [(''model'', CString ''vv''), (''n'', CNumber 1),
      (''messages'', CArray [CObject [(''role'', CString ''user''),
         (''content'', CArray [CObject [(''type'', CString ''text''), (''text'', CString ''Hello'')],
                               CObject [(''type'', CString ''image_url'')],
                               CObject [(''type'', CString ''text''), (''text'', CString '' there'')]])]]),
      (''stop'', CArray [CString ''a'', CNumber 3, CString ''b'', CString ''c'', CString ''d'', CString ''e''])]"

definition demo_ops :: "int num_ops" where
  "demo_ops = \<lparr>no_int = (\<lambda>d. d), no_float = (\<lambda>d. 0)\<rparr>"

lemma demo_body_parts:
  "request_messages demo_body = [CObject [(''role'', CString ''user''),
         (''content'', CArray [CObject [(''type'', CString ''text''), (''text'', CString ''Hello'')],
                               CObject [(''type'', CString ''image_url'')],
                               CObject [(''type'', CString ''text''), (''text'', CString '' there'')]])]]"
  "request_stops demo_body = [''a'', ''b'', ''c'', ''d'', ''e'']" "cj_string (cj_get ''model'' demo_body) = Some ''vv''"
  "int_or demo_ops demo_body ''n'' 1 = 1"
  by (simp_all add: request_messages_def request_stops_def stop_strings_def List.map_filter_simps demo_body_def cj_get_def
      int_or_def demo_ops_def)

lemma demo_body_text:
  "chat_ml (request_messages demo_body) =
     ''<|im_start|>system'' @ [CHR 0x0A] @ ''You are a helpful assistant.<|im_end|>'' @ [CHR 0x0A] @
     ''<|im_start|>user'' @ [CHR 0x0A] @ ''Hello there<|im_end|>'' @ [CHR 0x0A] @ ''<|im_start|>assistant'' @ [CHR 0x0A]"
  unfolding demo_body_parts
  by (simp add: chat_ml_def turn_text_def message_role_def content_text_def part_text_def cj_get_def)

lemma demo_body_fits: "request_fits demo_body"
proof -
  have "length (chat_ml (request_messages demo_body)) < 2 ^ 62" unfolding demo_body_text by simp
  then show ?thesis unfolding request_fits_def by (simp only: demo_body_parts(2,3)) simp
qed

theorem chat_request_rendered_witness:
  "(case vv_chat_request_parse (\<lambda>_. Some demo_body) demo_ops (Some ''{}'') True demo_heap of
      (st, Some r, err, h') \<Rightarrow> owns h' (request_blocks r) \<and> owns (snd (vv_chat_request_free (Some r) h')) {#} \<and>
        (if st = VV_OK then map_option snd (cr_prompt r) = Some (chat_ml (request_messages demo_body))
         else request_blocks r = {#})
    | _ \<Rightarrow> False)"
proof -
  obtain st x err h' where p: "vv_chat_request_parse (\<lambda>_. Some demo_body) demo_ops (Some ''{}'') True demo_heap = (st, x, err, h')"
    by (rule prod_cases4)
  obtain r where x: "x = Some r"
    using p unfolding vv_chat_request_parse_def Let_def
    by (auto split: option.splits cjson.splits list.splits if_splits bool.splits prod.splits)
  have f: "\<forall>root. (\<lambda>_ :: string. Some demo_body) ''{}'' = Some root \<longrightarrow> request_fits root" using demo_body_fits by simp
  show ?thesis using chat_request_rendered [OF demo_heap_owns f p [unfolded x]] p x by (auto split: if_splits)
qed

text \<open>
  Conversely, when memory lasts, exactly the bodies with a non-empty array of messages and one choice are accepted; the
  model asked for and the first four stop strings, in order, are kept.
\<close>

theorem chat_request_accepted:
  assumes "owns h M" and "host_never_fails h" and "\<forall>root. parse s = Some root \<longrightarrow> request_fits root"
    and "vv_chat_request_parse parse F (Some s) True h = (st, Some r, err, h')"
  shows "(st = VV_OK \<longleftrightarrow> (\<exists>root. parse s = Some root \<and> request_messages root \<noteq> [] \<and> int_or F root ''n'' 1 = 1)) \<and>
    (st = VV_OK \<longrightarrow> map_option snd (cr_model r) = cj_string (cj_get ''model'' (the (parse s))) \<and>
       map snd (cr_stop r) = take 4 (request_stops (the (parse s))))"
proof (cases "\<exists>root. parse s = Some root \<and> request_messages root \<noteq> [] \<and> int_or F root ''n'' 1 = 1")
  case False
  have "st \<noteq> VV_OK"
  proof
    assume "st = VV_OK"
    with chat_request_parse_shape [OF assms(4)] False show False by (force simp: request_messages_def)
  qed
  with False show ?thesis by blast
next
  case True
  then obtain root where r: "parse s = Some root" "request_messages root \<noteq> []" "int_or F root ''n'' 1 = 1" by blast
  then obtain m ms where r2: "cj_get ''messages'' root = Some (CArray (m # ms))" and rm: "request_messages root = m # ms"
    by (auto simp: request_messages_def split: option.splits cjson.splits) (metis neq_Nil_conv)
  have fits: "request_fits root" using assms(3) r(1) by simp
  then have len: "length (chat_ml (m # ms)) < 2 ^ 62" by (simp add: request_fits_def rm)
  obtain ok b h1 where cp: "chat_prompt (m # ms) h = (ok, b, h1)" by (rule prod_cases3)
  note 1 = chat_prompt_correct [OF cp len assms(1)]
  obtain p where p: "ok" "bf_s b = Some p" "bf_text b = chat_ml (m # ms)" "owns h1 (add_mset (Host, p) M)" "host_never_fails h1"
    using 1 assms(2) by auto
  note e = assms(4) [unfolded chat_request_parse_ok [where parse = parse, OF r(1) r2 r(3) cp] Let_def]
  let ?r0 = "zero_request\<lparr>cr_max_tokens := 512, cr_top_p := f32_one, cr_top_k := 64,
    cr_prompt := Some (p, chat_ml (m # ms))\<rparr>"
  have c: "chat_options F root ?r0 h1 = (r, h')" and st: "st = VV_OK" using e p by (auto split: prod.splits)
  from chat_options_owns [OF c fits p(4)] p(5) st r show ?thesis by auto
qed

theorem chat_request_accepted_witness:
  "(case vv_chat_request_parse (\<lambda>_. Some demo_body) demo_ops (Some ''{}'') True demo_heap of
      (st, Some r, err, h') \<Rightarrow> st = VV_OK \<and> map snd (cr_stop r) = [''a'', ''b'', ''c'', ''d'']
    | _ \<Rightarrow> False)"
proof -
  obtain st x err h' where p: "vv_chat_request_parse (\<lambda>_. Some demo_body) demo_ops (Some ''{}'') True demo_heap = (st, x, err, h')"
    by (rule prod_cases4)
  obtain r where x: "x = Some r"
    using p unfolding vv_chat_request_parse_def Let_def
    by (auto split: option.splits cjson.splits list.splits if_splits bool.splits prod.splits)
  have f: "\<forall>root. (\<lambda>_ :: string. Some demo_body) ''{}'' = Some root \<longrightarrow> request_fits root" using demo_body_fits by simp
  from chat_request_accepted [OF demo_heap_owns demo_heap_host f p [unfolded x]] p x
  show ?thesis by (simp add: demo_body_parts)
qed

end
