(* ===== verification/GpuSelect.thy ===== *)
theory GpuSelect
  imports Prelude
begin

text \<open>
  Which devices to use and how much of each (\<^verbatim>\<open>src/core/gpu_select.c\<close>): the parsers of \<^verbatim>\<open>--gpus\<close> and \<^verbatim>\<open>--gpu-memory\<close>,
  the translation of \<^verbatim>\<open>CUDA_VISIBLE_DEVICES\<close>, the check against the machine and the budgets. A C string is a
  \<open>string\<close>, a pointer into it the suffix it points at. \<^verbatim>\<open>strtol\<close> is modelled for base ten; \<^verbatim>\<open>strtod\<close> and the double
  arithmetic behind a cap are a parameter (\<open>cap_ops\<close>), and so is what the device layer answers (\<open>devices\<close>).
\<close>

definition isspace :: "char \<Rightarrow> bool" where
  "isspace c \<longleftrightarrow> c \<in> {CHR '' '', CHR 0x09, CHR 0x0A, CHR 0x0B, CHR 0x0C, CHR 0x0D}"

definition isdigit :: "char \<Rightarrow> bool" where
  "isdigit c \<longleftrightarrow> 48 \<le> (of_char c :: int) \<and> (of_char c :: int) \<le> 57"

definition digit_value :: "char \<Rightarrow> int" where
  "digit_value c = of_char c - 48"

definition toupper :: "char \<Rightarrow> char" where
  "toupper c = (if 97 \<le> (of_char c :: nat) \<and> (of_char c :: nat) \<le> 122 then char_of ((of_char c :: nat) - 32) else c)"

definition digits_int :: "string \<Rightarrow> int" where
  "digits_int ds = fold (\<lambda>c v. v * 10 + digit_value c) ds 0"

text \<open>The value, held to the range of \<^verbatim>\<open>long\<close>, and the rest; without a digit the rest is the whole text.\<close>

definition strtol :: "string \<Rightarrow> int \<times> string" where
  "strtol s =
     (let t = dropWhile isspace s;
          neg = (t \<noteq> [] \<and> hd t = CHR ''-'');
          u = (if t \<noteq> [] \<and> (hd t = CHR ''-'' \<or> hd t = CHR ''+'') then tl t else t);
          ds = takeWhile isdigit u;
          v = (if neg then - digits_int ds else digits_int ds)
      in if ds = [] then (0, s) else (max (- (2 ^ 63)) (min (2 ^ 63 - 1) v), dropWhile isdigit u))"

text \<open>The cast of a \<^verbatim>\<open>long\<close> to \<^verbatim>\<open>int\<close>.\<close>

definition to_int :: "int \<Rightarrow> int" where
  "to_int v = (v + 2 ^ 31) mod 2 ^ 32 - 2 ^ 31"

definition VV_MAX_GPUS :: nat where "VV_MAX_GPUS = 16"

record mem_cap =
  mc_bytes :: u64
  mc_frac :: u32

record gpu_set =
  gs_id :: "int list"
  gs_cap :: "mem_cap list"

definition uncapped :: mem_cap where
  "uncapped = \<lparr>mc_bytes = 0, mc_frac = 0\<rparr>"

text \<open>
  The arrays' used part is \<open>gs_id\<close> (its length is \<^verbatim>\<open>n\<close>); \<open>gs_cap\<close> is the whole array of caps. What a cap's text and the
  budget need of doubles: reading one, the tests against 0 and 100, the fraction, the product as a size; a size times a
  float fraction, and whether a float is positive.
\<close>

record 'd cap_ops =
  co_strtod :: "string \<Rightarrow> 'd \<times> string"
  co_neg :: "'d \<Rightarrow> bool"
  co_above_100 :: "'d \<Rightarrow> bool"
  co_percent :: "'d \<Rightarrow> u32"
  co_scaled :: "'d \<Rightarrow> nat \<Rightarrow> u64"
  co_share :: "u64 \<Rightarrow> u32 \<Rightarrow> u64"
  co_positive :: "u32 \<Rightarrow> bool"

record devices =
  dv_count :: int
  dv_info :: "int \<Rightarrow> (u64 \<times> u64) option"

subsection \<open>One cap\<close>

definition skip_char :: "char \<Rightarrow> string \<Rightarrow> string" where
  "skip_char c s = (if s \<noteq> [] \<and> toupper (hd s) = c then tl s else s)"

text \<open>The suffix: the power of 1024 and the rest, \<open>None\<close> for a letter that is none.\<close>

definition cap_suffix :: "string \<Rightarrow> (nat \<times> string) option" where
  "cap_suffix s =
     (case s of
        [] \<Rightarrow> Some (0, s)
      | c # cs \<Rightarrow>
          if toupper c = CHR ''K'' then Some (1, cs)
          else if toupper c = CHR ''M'' then Some (2, cs)
          else if toupper c = CHR ''G'' then Some (3, cs)
          else if toupper c = CHR ''T'' then Some (4, cs)
          else if toupper c = CHR ''B'' then Some (0, s)
          else None)"

definition vv_parse_mem_cap :: "'d cap_ops \<Rightarrow> string option \<Rightarrow> vv_status \<times> mem_cap option" where
  "vv_parse_mem_cap F txt =
     (case txt of
        None \<Rightarrow> (VV_ERR_NULL_PTR, None)
      | Some t \<Rightarrow>
          let t = dropWhile isspace t in
          (case co_strtod F t of
             (v, e) \<Rightarrow>
               if e = t \<or> co_neg F v then (VV_ERR_INVALID_ARG, None)
               else
                 let e = dropWhile isspace e;
                     finish = (\<lambda>cap e. if dropWhile isspace e = [] then (VV_OK, Some cap) else (VV_ERR_INVALID_ARG, Some cap))
                 in if e \<noteq> [] \<and> hd e = CHR ''%'' then
                      if co_above_100 F v then (VV_ERR_INVALID_ARG, Some uncapped)
                      else finish \<lparr>mc_bytes = 0, mc_frac = co_percent F v\<rparr> (tl e)
                    else
                      (case cap_suffix e of
                         None \<Rightarrow> (VV_ERR_INVALID_ARG, Some uncapped)
                       | Some (p, e) \<Rightarrow>
                           let e = skip_char (CHR ''B'') (skip_char (CHR ''I'') e); bytes = co_scaled F v (1024 ^ p) in
                           if bytes = 0 then (VV_ERR_INVALID_ARG, Some uncapped)
                           else finish \<lparr>mc_bytes = bytes, mc_frac = 0\<rparr> e)))"

definition vv_mem_cap_bytes :: "'d cap_ops \<Rightarrow> mem_cap option \<Rightarrow> u64 \<Rightarrow> u64" where
  "vv_mem_cap_bytes F cap whole =
     (case cap of
        None \<Rightarrow> 0
      | Some c \<Rightarrow>
          if mc_bytes c \<noteq> 0 then mc_bytes c
          else if co_positive F (mc_frac c) then co_share F whole (mc_frac c)
          else 0)"

subsection \<open>The device list\<close>

definition skip_seps :: "string \<Rightarrow> string" where
  "skip_seps s = dropWhile (\<lambda>c. c = CHR '','' \<or> isspace c) s"

lemma length_strtol: "length (snd (strtol s)) \<le> length s" and
  strtol_less: "snd (strtol s) \<noteq> s \<Longrightarrow> length (snd (strtol s)) < length s"
proof -
  define t where "t = dropWhile isspace s"
  define u where "u = (if t \<noteq> [] \<and> (hd t = CHR ''-'' \<or> hd t = CHR ''+'') then tl t else t)"
  have t: "length t \<le> length s" unfolding t_def by (rule length_dropWhile_le)
  have u: "length u \<le> length t" by (simp add: u_def)
  have d: "length (takeWhile isdigit u) + length (dropWhile isdigit u) = length u"
    by (metis length_append takeWhile_dropWhile_id)
  have r: "snd (strtol s) = (if takeWhile isdigit u = [] then s else dropWhile isdigit u)"
    by (simp add: strtol_def Let_def t_def [symmetric] u_def [symmetric])
  show "length (snd (strtol s)) \<le> length s" using t u d unfolding r by simp
  show "length (snd (strtol s)) < length s" if "snd (strtol s) \<noteq> s"
  proof -
    have ne: "takeWhile isdigit u \<noteq> []" using that r by auto
    then have "0 < length (takeWhile isdigit u)" by simp
    then show ?thesis using t u d ne unfolding r if_not_P [OF ne] by linarith
  qed
qed

text \<open>The loop of \<^verbatim>\<open>vv_gpu_set_parse\<close> with the ids so far; \<open>None\<close> is \<^verbatim>\<open>VV_ERR_INVALID_ARG\<close>.\<close>

function gpu_list_loop :: "string \<Rightarrow> int list \<Rightarrow> int list option" where
  "gpu_list_loop p ids =
     (if p = [] then Some ids
      else
        let q = skip_seps p in
        if q = [] then Some ids
        else
          let (v, e) = strtol q in
          if e = q \<or> v < 0 then None
          else if to_int v \<in> set ids then None
          else if length ids \<ge> VV_MAX_GPUS then None
          else
            let r = dropWhile isspace e in
            if r \<noteq> [] \<and> hd r \<noteq> CHR '','' then None else gpu_list_loop r (ids @ [to_int v]))"
  by pat_completeness auto
termination
proof (relation "measure (\<lambda>(p, ids). length p)", goal_cases)
  case 1
  show ?case by simp
next
  case (2 p ids q x v e r)
  have "length q \<le> length p" unfolding 2(2) skip_seps_def by (rule length_dropWhile_le)
  moreover have "length e < length q" using strtol_less [of q] 2(4,5,6) by (simp add: prod_eq_iff)
  moreover have "length r \<le> length e" unfolding 2(9) by (rule length_dropWhile_le)
  ultimately show ?case by simp
qed

declare gpu_list_loop.simps [simp del]

definition vv_gpu_set_parse :: "devices \<Rightarrow> string option \<Rightarrow> vv_status \<times> gpu_set" where
  "vv_gpu_set_parse D txt =
     (let set0 = \<lparr>gs_id = [], gs_cap = replicate VV_MAX_GPUS uncapped\<rparr> in
      case txt of
        None \<Rightarrow> (VV_ERR_NULL_PTR, set0)
      | Some t \<Rightarrow>
          if t = ''all'' then
            if dv_count D \<le> 0 then (VV_ERR_NOT_FOUND, set0)
            else (VV_OK, set0\<lparr>gs_id := map int [0..<min (nat (dv_count D)) VV_MAX_GPUS]\<rparr>)
          else
            (case gpu_list_loop t [] of
               None \<Rightarrow> (VV_ERR_INVALID_ARG, set0)
             | Some ids \<Rightarrow>
                 if ids = [] then (VV_ERR_INVALID_ARG, set0) else (VV_OK, set0\<lparr>gs_id := ids\<rparr>)))"

text \<open>The loop over the caps, with those read so far.\<close>

function cap_list_loop :: "'d cap_ops \<Rightarrow> string \<Rightarrow> mem_cap list \<Rightarrow> vv_status + mem_cap list" where
  "cap_list_loop F p caps =
     (if p = [] \<or> length caps \<ge> VV_MAX_GPUS then Inr caps
      else
        let item = takeWhile (\<lambda>c. c \<noteq> CHR '','') p; rest = dropWhile (\<lambda>c. c \<noteq> CHR '','') p in
        if item = [] \<or> length item \<ge> 64 then Inl VV_ERR_INVALID_ARG
        else
          (case vv_parse_mem_cap F (Some item) of
             (VV_OK, Some cap) \<Rightarrow> (case rest of [] \<Rightarrow> Inr (caps @ [cap]) | c # p \<Rightarrow> cap_list_loop F p (caps @ [cap]))
           | (s, _) \<Rightarrow> Inl s))"
  by pat_completeness auto
termination
proof (relation "measure (\<lambda>(F, p, caps). length p)", goal_cases)
  case 1
  show ?case by simp
next
  case (2 F p caps item rest x y cap c q)
  have "length rest \<le> length p" unfolding 2(3) by (rule length_dropWhile_le)
  moreover have "rest = c # q" using 2 by blast
  ultimately show ?case by simp
qed

declare cap_list_loop.simps [simp del]

definition vv_gpu_set_caps :: "'d cap_ops \<Rightarrow> string option \<Rightarrow> gpu_set \<Rightarrow> vv_status \<times> gpu_set" where
  "vv_gpu_set_caps F txt st =
     (case txt of
        None \<Rightarrow> (VV_ERR_NULL_PTR, st)
      | Some t \<Rightarrow>
          (case cap_list_loop F t [] of
             Inl s \<Rightarrow> (s, st)
           | Inr caps \<Rightarrow>
               if caps = [] then (VV_ERR_INVALID_ARG, st)
               else
                 let n = length caps; devices = (if gs_id st \<noteq> [] then length (gs_id st) else 1) in
                 if n = 1 then (VV_OK, st\<lparr>gs_cap := replicate VV_MAX_GPUS (caps ! 0)\<rparr>)
                 else if n \<noteq> devices then (VV_ERR_INVALID_ARG, st)
                 else (VV_OK, st\<lparr>gs_cap := caps @ drop n (gs_cap st)\<rparr>)))"

text \<open>What follows the check is logging.\<close>

definition vv_gpu_set_resolve :: "devices \<Rightarrow> gpu_set option \<Rightarrow> int \<Rightarrow> bool \<Rightarrow> vv_status \<times> gpu_set option" where
  "vv_gpu_set_resolve D st fallback_id cpu_only =
     (case st of
        None \<Rightarrow> (VV_ERR_NULL_PTR, None)
      | Some st \<Rightarrow>
          let st = (if gs_id st = [] then st\<lparr>gs_id := [fallback_id]\<rparr> else st) in
          if cpu_only then (VV_OK, Some st)
          else if dv_count D \<le> 0 then (VV_OK, Some st)
          else if \<exists>i \<in> set (gs_id st). i \<ge> dv_count D then (VV_ERR_NOT_FOUND, Some st)
          else (VV_OK, Some st))"

text \<open>The status, the primary id and the set.\<close>

definition vv_gpu_set_from_flags ::
  "'d cap_ops \<Rightarrow> devices \<Rightarrow> string option \<Rightarrow> string option \<Rightarrow> bool \<Rightarrow> int \<Rightarrow> gpu_set \<Rightarrow> vv_status \<times> int \<times> gpu_set" where
  "vv_gpu_set_from_flags F D gpus gpu_memory cpu_only gpu_id st =
     (let resolve = (\<lambda>cpu gpu_id st. case vv_gpu_set_resolve D (Some st) gpu_id cpu of (s, r) \<Rightarrow> (s, gpu_id, the r)) in
      if cpu_only then resolve True gpu_id st
      else
        (case (case gpus of None \<Rightarrow> (VV_OK, st) | Some _ \<Rightarrow> vv_gpu_set_parse D gpus) of
           (s, st) \<Rightarrow>
             if s \<noteq> VV_OK then (s, gpu_id, st)
             else
               (case (case gpu_memory of None \<Rightarrow> (VV_OK, st) | Some _ \<Rightarrow> vv_gpu_set_caps F gpu_memory st) of
                  (s, st) \<Rightarrow>
                    if s \<noteq> VV_OK then (s, gpu_id, st)
                    else resolve False (if gs_id st \<noteq> [] then gs_id st ! 0 else gpu_id) st)))"

subsection \<open>CUDA_VISIBLE_DEVICES\<close>

fun dec_string :: "nat \<Rightarrow> string" where
  "dec_string n = (if n < 10 then [''0123456789'' ! n] else dec_string (n div 10) @ [''0123456789'' ! (n mod 10)])"

declare dec_string.simps [simp del]

text \<open>The position of a node, the first that matches.\<close>

fun node_position :: "int list \<Rightarrow> int \<Rightarrow> nat option" where
  "node_position [] v = None"
| "node_position (x # xs) v = (if x = v then Some 0 else map_option Suc (node_position xs v))"

text \<open>The loop, with what \<^verbatim>\<open>out\<close> holds; it is empty exactly until the first entry is mapped.\<close>

function visible_loop :: "int list \<Rightarrow> nat \<Rightarrow> string \<Rightarrow> string \<Rightarrow> vv_status \<times> string" where
  "visible_loop nodes out_size p out =
     (let finish = (if out = [] then (VV_ERR_UNSUPPORTED, out) else (VV_OK, out)) in
      if p = [] then finish
      else
        let q = skip_seps p in
        if q = [] then finish
        else
          let (v, e) = strtol q in
          if e = q then (VV_ERR_UNSUPPORTED, out)
          else
            (case node_position nodes (to_int v) of
               None \<Rightarrow> (VV_ERR_NOT_FOUND, out)
             | Some pos \<Rightarrow>
                 let piece = (if out \<noteq> [] then '','' else []) @ dec_string pos in
                 if length piece \<ge> out_size - length out
                 then (VV_ERR_INVALID_ARG, out @ take (out_size - length out - 1) piece)
                 else visible_loop nodes out_size e (out @ piece)))"
  by pat_completeness auto
termination
proof (relation "measure (\<lambda>(nodes, sz, p, out). length p)", goal_cases)
  case 1
  show ?case by simp
next
  case (2 nodes sz p out finish q x v e pos piece)
  have q: "q = skip_seps p" and x: "x = strtol q" "(v, e) = x" and ne: "e \<noteq> q" using 2 by blast+
  have "length q \<le> length p" unfolding q skip_seps_def by (rule length_dropWhile_le)
  moreover have "length e < length q" using strtol_less [of q] x ne by (metis snd_conv)
  ultimately show ?case by simp
qed

declare visible_loop.simps [simp del]

definition vv_cuda_visible_map :: "string option \<Rightarrow> int list option \<Rightarrow> nat \<Rightarrow> vv_status \<times> string" where
  "vv_cuda_visible_map txt nodes out_size =
     (if out_size = 0 then (VV_ERR_NULL_PTR, [])
      else
        (case (txt, nodes) of
           (Some t, Some ns) \<Rightarrow>
             if ns = [] then (VV_ERR_UNSUPPORTED, [])
             else if \<exists>c \<in> set t. \<not> isdigit c \<and> c \<noteq> CHR '','' \<and> \<not> isspace c then (VV_ERR_UNSUPPORTED, [])
             else visible_loop ns out_size t []
         | _ \<Rightarrow> (VV_ERR_UNSUPPORTED, [])))"

text \<open>The numbers of the nodes \<^verbatim>\<open>/dev/nvidiaN\<close> among the names of a directory, at most \<^verbatim>\<open>VV_MAX_GPUS\<close>.\<close>

definition node_number :: "string \<Rightarrow> int option" where
  "node_number name =
     (if take 6 name = ''nvidia'' \<and> drop 6 name \<noteq> [] \<and> isdigit (name ! 6) then
        (case strtol (drop 6 name) of (v, e) \<Rightarrow> if e = [] then Some (to_int v) else None)
      else None)"

definition dev_nodes :: "string list \<Rightarrow> int list" where
  "dev_nodes names = take VV_MAX_GPUS (List.map_filter node_number names)"

text \<open>One turn of the insertion sort: the sorted front is searched from its end.\<close>

definition insert_node :: "int list \<Rightarrow> int \<Rightarrow> int list" where
  "insert_node xs v = rev (dropWhile (\<lambda>x. x > v) (rev xs)) @ v # rev (takeWhile (\<lambda>x. x > v) (rev xs))"

definition sort_nodes :: "int list \<Rightarrow> int list" where
  "sort_nodes ns = foldl insert_node [] ns"

datatype env_change = EnvKeep | EnvUnset | EnvSet string

definition fix_visible_devices :: "string option \<Rightarrow> string option \<Rightarrow> string list option \<Rightarrow> env_change" where
  "fix_visible_devices keep cvd dir =
     (if (case keep of Some (c # cs) \<Rightarrow> c \<noteq> CHR ''0'' | _ \<Rightarrow> False) then EnvKeep
      else
        (case (cvd, dir) of
           (Some (c # cs), Some names) \<Rightarrow>
             (case vv_cuda_visible_map cvd (Some (sort_nodes (dev_nodes names))) 256 of
                (s, fixed) \<Rightarrow>
                  if s = VV_ERR_NOT_FOUND then EnvUnset
                  else if s = VV_OK \<and> Some fixed \<noteq> cvd then EnvSet fixed
                  else EnvKeep)
         | _ \<Rightarrow> EnvKeep))"

subsection \<open>Budgets\<close>

definition vv_gpu_reserved :: "'d cap_ops \<Rightarrow> devices \<Rightarrow> gpu_set option \<Rightarrow> int \<Rightarrow> u64" where
  "vv_gpu_reserved F D st index =
     (case st of
        None \<Rightarrow> 0
      | Some st \<Rightarrow>
          if index < 0 \<or> index \<ge> int (length (gs_id st)) then 0
          else
            (case dv_info D (gs_id st ! nat index) of
               None \<Rightarrow> 0
             | Some (whole, freem) \<Rightarrow>
                 if vv_mem_cap_bytes F (Some (gs_cap st ! nat index)) whole = 0 then 0
                 else if whole > freem then whole - freem else 0))"

definition vv_gpu_budget_reclaim :: "'d cap_ops \<Rightarrow> devices \<Rightarrow> gpu_set option \<Rightarrow> int \<Rightarrow> u32 \<Rightarrow> u64 \<Rightarrow> u64" where
  "vv_gpu_budget_reclaim F D st index vram_budget reclaimable =
     (case st of
        None \<Rightarrow> 0
      | Some st \<Rightarrow>
          if index < 0 \<or> index \<ge> int (length (gs_id st)) then 0
          else
            (case dv_info D (gs_id st ! nat index) of
               None \<Rightarrow> 0
             | Some (whole, freem) \<Rightarrow>
                 let budget = co_share F freem vram_budget;
                     ceiling = co_share F whole vram_budget;
                     budget = (if reclaimable > ceiling - budget then ceiling else budget + reclaimable);
                     cap = vv_mem_cap_bytes F (Some (gs_cap st ! nat index)) whole
                 in if cap \<noteq> 0 \<and> cap < budget then cap else budget))"

definition vv_gpu_budget :: "'d cap_ops \<Rightarrow> devices \<Rightarrow> gpu_set option \<Rightarrow> int \<Rightarrow> u32 \<Rightarrow> u64" where
  "vv_gpu_budget F D st index vram_budget =
     (case st of
        None \<Rightarrow> 0
      | Some st \<Rightarrow>
          if index < 0 \<or> index \<ge> int (length (gs_id st)) then 0
          else
            (case dv_info D (gs_id st ! nat index) of
               None \<Rightarrow> 0
             | Some (whole, freem) \<Rightarrow>
                 let budget = co_share F freem vram_budget;
                     cap = vv_mem_cap_bytes F (Some (gs_cap st ! nat index)) whole
                 in if cap \<noteq> 0 \<and> cap < budget then cap else budget))"

subsection \<open>Numbers and lists as text\<close>

lemma digit_char:
  assumes "d < (10 :: nat)"
  shows "isdigit (''0123456789'' ! d)" "digit_value (''0123456789'' ! d) = int d" "\<not> isspace (''0123456789'' ! d)"
    "(''0123456789'' ! d) \<noteq> CHR '',''" "(''0123456789'' ! d) \<noteq> CHR ''-''" "(''0123456789'' ! d) \<noteq> CHR ''+''"
    "(''0123456789'' ! d) \<noteq> CHR ''a''"
proof -
  have "d = 0 \<or> d = 1 \<or> d = 2 \<or> d = 3 \<or> d = 4 \<or> d = 5 \<or> d = 6 \<or> d = 7 \<or> d = 8 \<or> d = 9" using assms by auto
  then show "isdigit (''0123456789'' ! d)" "digit_value (''0123456789'' ! d) = int d" "\<not> isspace (''0123456789'' ! d)"
    "(''0123456789'' ! d) \<noteq> CHR '',''" "(''0123456789'' ! d) \<noteq> CHR ''-''" "(''0123456789'' ! d) \<noteq> CHR ''+''"
    "(''0123456789'' ! d) \<noteq> CHR ''a''"
    by (elim disjE; simp add: isdigit_def digit_value_def isspace_def)+
qed

lemma dec_string_digits: "\<forall>c \<in> set (dec_string n). \<exists>d < (10 :: nat). c = ''0123456789'' ! d" and dec_string_ne [simp]: "dec_string n \<noteq> []"
proof -
  show "\<forall>c \<in> set (dec_string n). \<exists>d < (10 :: nat). c = ''0123456789'' ! d"
  proof (induction n rule: dec_string.induct)
    case (1 n)
    then show ?case by (subst dec_string.simps) (auto intro: exI [of _ n] exI [of _ "n mod 10"])
  qed
  show "dec_string n \<noteq> []" by (subst dec_string.simps) simp
qed

lemma digits_int_dec: "digits_int (dec_string n) = int n"
proof (induction n rule: dec_string.induct)
  case (1 n)
  show ?case
  proof (cases "n < 10")
    case True
    then show ?thesis by (subst dec_string.simps) (simp add: digits_int_def digit_char)
  next
    case False
    have "digits_int (dec_string n) = digits_int (dec_string (n div 10)) * 10 + int (n mod 10)"
      using False by (subst dec_string.simps) (simp add: digits_int_def digit_char)
    also have "\<dots> = int (n div 10 * 10 + n mod 10)" unfolding 1 [OF False] by (simp only: of_nat_add of_nat_mult of_nat_numeral)
    finally show ?thesis by (simp only: div_mult_mod_eq)
  qed
qed

text \<open>\<open>strtol\<close> reads a number that a non-digit ends.\<close>

lemma strtol_dec:
  assumes "n < 2 ^ 63" "r = [] \<or> \<not> isdigit (hd r)"
  shows "strtol (dec_string n @ r) = (int n, r)"
proof -
  obtain c cs where d: "dec_string n = c # cs" by (cases "dec_string n") auto
  have c: "\<not> isspace c" "c \<noteq> CHR ''-''" "c \<noteq> CHR ''+''" using dec_string_digits [of n] digit_char d by auto
  have all: "\<forall>x \<in> set (dec_string n). isdigit x" using dec_string_digits [of n] digit_char by auto
  have "takeWhile isdigit (dec_string n @ r) = dec_string n" "dropWhile isdigit (dec_string n @ r) = r"
    using all assms(2) by (simp_all add: takeWhile_append dropWhile_append) (cases r; simp)+
  then show ?thesis using c assms(1) digits_int_dec [of n] unfolding strtol_def Let_def by (simp add: d)
qed

lemma to_int_small: "0 \<le> v \<Longrightarrow> v < 2 ^ 31 \<Longrightarrow> to_int v = v"
  by (simp add: to_int_def)

text \<open>Numbers separated by commas.\<close>

fun commas :: "nat list \<Rightarrow> string" where
  "commas [] = []"
| "commas [n] = dec_string n"
| "commas (n # ns) = dec_string n @ '','' @ commas ns"

lemma commas_Cons: "commas (n # ns) = dec_string n @ (if ns = [] then [] else '','' @ commas ns)"
  by (cases ns) simp_all

lemma dec_string_start: "dec_string n = c # cs \<Longrightarrow> isdigit c \<and> \<not> isspace c \<and> c \<noteq> CHR '','' \<and> c \<noteq> CHR ''a''"
  using dec_string_digits [of n] digit_char by auto

lemma skip_seps_dec [simp]: "skip_seps (dec_string n @ r) = dec_string n @ r" "skip_seps (CHR '','' # dec_string n @ r) = dec_string n @ r"
  by (cases "dec_string n"; use dec_string_start in \<open>fastforce simp: skip_seps_def\<close>)+

lemma isdigit_comma [simp]: "\<not> isdigit (CHR '','')" "\<not> isspace (CHR '','')"
  by (simp_all add: isdigit_def isspace_def)

lemma gpu_list_loop_step:
  assumes "p = dec_string n @ r \<or> p = CHR '','' # dec_string n @ r" "r = [] \<or> hd r = CHR '',''"
    "n < 2 ^ 31" "int n \<notin> set ids" "length ids < VV_MAX_GPUS"
  shows "gpu_list_loop p ids = gpu_list_loop r (ids @ [int n])"
proof -
  have s: "skip_seps p = dec_string n @ r" using assms(1) by auto
  have t: "strtol (dec_string n @ r) = (int n, r)" by (rule strtol_dec) (use assms in auto)
  have ne: "p \<noteq> []" "dec_string n @ r \<noteq> []" "r \<noteq> dec_string n @ r" using assms(1) by auto
  have w: "dropWhile isspace r = r" using assms(2) by (cases r) auto
  have v: "to_int (int n) = int n" using assms(3) by (simp add: to_int_small)
  show ?thesis
    by (subst gpu_list_loop.simps) (use ne v w assms(2,4,5) in \<open>auto simp add: s t Let_def\<close>)
qed

lemma gpu_list_loop_commas:
  "ns \<noteq> [] \<Longrightarrow> \<forall>n \<in> set ns. n < 2 ^ 31 \<Longrightarrow> distinct (ids @ map int ns) \<Longrightarrow> length ids + length ns \<le> VV_MAX_GPUS \<Longrightarrow>
   p = commas ns \<or> p = CHR '','' # commas ns \<Longrightarrow> gpu_list_loop p ids = Some (ids @ map int ns)"
proof (induction ns arbitrary: ids p)
  case Nil
  then show ?case by simp
next
  case (Cons n ns)
  let ?r = "if ns = [] then [] else CHR '','' # commas ns"
  have "gpu_list_loop p ids = gpu_list_loop ?r (ids @ [int n])"
    by (rule gpu_list_loop_step) (use Cons.prems in \<open>auto simp: commas_Cons\<close>)
  then show ?case
  proof (cases "ns = []")
    case True
    then show ?thesis using \<open>gpu_list_loop p ids = _\<close> by (simp add: gpu_list_loop.simps [of "[]"])
  next
    case False
    have "gpu_list_loop (CHR '','' # commas ns) (ids @ [int n]) = Some ((ids @ [int n]) @ map int ns)"
      by (rule Cons.IH) (use Cons.prems False in auto)
    then show ?thesis using \<open>gpu_list_loop p ids = _\<close> False by simp
  qed
qed

text \<open>
  A list of at most sixteen different device numbers is read as those devices in that order, all uncapped.
\<close>

theorem gpu_list_roundtrip:
  assumes "ns \<noteq> []" "\<forall>n \<in> set ns. n < 2 ^ 31" "distinct ns" "length ns \<le> VV_MAX_GPUS"
  shows "vv_gpu_set_parse D (Some (commas ns)) = (VV_OK, \<lparr>gs_id = map int ns, gs_cap = replicate VV_MAX_GPUS uncapped\<rparr>)"
proof -
  have "gpu_list_loop (commas ns) [] = Some ([] @ map int ns)"
    by (rule gpu_list_loop_commas) (use assms in \<open>auto simp: distinct_map\<close>)
  moreover obtain n ns' where "ns = n # ns'" using assms(1) by (cases ns) auto
  moreover then have "commas ns \<noteq> ''all''"
    using dec_string_start [of n] by (cases "dec_string n") (auto simp: commas_Cons)
  ultimately show ?thesis by (simp add: vv_gpu_set_parse_def Let_def)
qed

theorem gpu_list_roundtrip_witness:
  "vv_gpu_set_parse \<lparr>dv_count = 2, dv_info = (\<lambda>_. None)\<rparr> (Some (commas [10, 0])) =
    (VV_OK, \<lparr>gs_id = map int [10, 0], gs_cap = replicate VV_MAX_GPUS uncapped\<rparr>)"
  by (rule gpu_list_roundtrip) (simp_all add: VV_MAX_GPUS_def)

text \<open>
  The cast to \<^verbatim>\<open>int\<close> comes after the test for a negative number: device 2147483648 becomes device -2147483648, and the
  check against the machine, which only looks for numbers that are too large, lets it through.
\<close>

theorem gpu_id_wraps_negative:
  "vv_gpu_set_from_flags F D (Some ''2147483648'') None False 0 st =
    (VV_OK, - 2147483648, \<lparr>gs_id = [- 2147483648], gs_cap = replicate VV_MAX_GPUS uncapped\<rparr>)"
proof -
  have d: "''2147483648'' = dec_string 2147483648 @ []" by (simp add: dec_string.simps)
  have t: "strtol ''2147483648'' = (2147483648, [])" unfolding d by (subst strtol_dec) simp_all
  have "gpu_list_loop ''2147483648'' [] = Some [- 2147483648]"
    by (subst gpu_list_loop.simps)
      (simp add: skip_seps_def isspace_def t to_int_def VV_MAX_GPUS_def gpu_list_loop.simps [of "[]"])
  then have "vv_gpu_set_parse D (Some ''2147483648'') = (VV_OK, \<lparr>gs_id = [- 2147483648], gs_cap = replicate VV_MAX_GPUS uncapped\<rparr>)"
    by (simp add: vv_gpu_set_parse_def Let_def)
  then show ?thesis by (simp add: vv_gpu_set_from_flags_def vv_gpu_set_resolve_def Let_def)
qed

text \<open>Parsing the list of devices throws away the caps that were set before it.\<close>

lemma gpu_set_parse_resets_caps: "gs_cap (snd (vv_gpu_set_parse D txt)) = replicate VV_MAX_GPUS uncapped"
  by (auto simp: vv_gpu_set_parse_def Let_def split: option.splits)

subsection \<open>The container's numbering\<close>

lemma node_position_nth:
  "distinct nodes \<Longrightarrow> p < length nodes \<Longrightarrow> node_position nodes (nodes ! p) = Some p"
proof (induction nodes arbitrary: p)
  case (Cons x xs)
  then show ?case by (cases p) auto
qed simp

lemma visible_loop_step:
  assumes "p = dec_string n @ r \<or> p = CHR '','' # dec_string n @ r" "r = [] \<or> hd r = CHR '',''" "n < 2 ^ 31"
    "node_position nodes (int n) = Some pos"
    "length out + length ((if out \<noteq> [] then '','' else []) @ dec_string pos) < out_size"
  shows "visible_loop nodes out_size p out = visible_loop nodes out_size r (out @ (if out \<noteq> [] then '','' else []) @ dec_string pos)"
proof -
  have s: "skip_seps p = dec_string n @ r" using assms(1) by auto
  have t: "strtol (dec_string n @ r) = (int n, r)" by (rule strtol_dec) (use assms in auto)
  have ne: "p \<noteq> []" "dec_string n @ r \<noteq> []" "r \<noteq> dec_string n @ r" using assms(1) by auto
  have v: "to_int (int n) = int n" using assms(3) by (simp add: to_int_small)
  define piece where "piece = (if out \<noteq> [] then '','' else []) @ dec_string pos"
  have f: "\<not> length piece \<ge> out_size - length out" using assms(5) by (auto simp: piece_def)
  show ?thesis
    by (subst visible_loop.simps) (use ne v f assms(4) in \<open>simp add: s t Let_def piece_def [symmetric] del: length_append\<close>)
qed

lemma visible_loop_commas:
  assumes nodes: "distinct nodes" "\<forall>x \<in> set nodes. 0 \<le> x \<and> x < 2 ^ 31"
  shows "ps \<noteq> [] \<Longrightarrow> \<forall>p \<in> set ps. p < length nodes \<Longrightarrow>
    t = commas (map (\<lambda>p. nat (nodes ! p)) ps) \<or> t = CHR '','' # commas (map (\<lambda>p. nat (nodes ! p)) ps) \<Longrightarrow>
    length (out @ (if out \<noteq> [] then '','' else []) @ commas ps) < out_size \<Longrightarrow>
    visible_loop nodes out_size t out = (VV_OK, out @ (if out \<noteq> [] then '','' else []) @ commas ps)"
proof (induction ps arbitrary: t out)
  case Nil
  then show ?case by simp
next
  case (Cons p ps)
  let ?ns = "map (\<lambda>p. nat (nodes ! p)) ps"
  let ?r = "if ps = [] then [] else CHR '','' # commas ?ns"
  let ?o = "out @ (if out \<noteq> [] then '','' else []) @ dec_string p"
  have np: "int (nat (nodes ! p)) = nodes ! p" "nodes ! p < 2 ^ 31" using nodes(2) Cons.prems(2) by auto
  have fit: "length out + length ((if out \<noteq> [] then '','' else []) @ dec_string p) < out_size"
    using Cons.prems(4) by (cases "ps = []") (auto simp: commas_Cons)
  have "visible_loop nodes out_size t out = visible_loop nodes out_size ?r ?o"
    by (rule visible_loop_step [OF _ _ _ _ fit]) (use Cons.prems np node_position_nth [OF nodes(1)] in \<open>auto simp: commas_Cons\<close>)
  also have "\<dots> = (VV_OK, out @ (if out \<noteq> [] then '','' else []) @ commas (p # ps))"
  proof (cases "ps = []")
    case True
    then show ?thesis by (subst visible_loop.simps) (simp add: Let_def)
  next
    case False
    have "visible_loop nodes out_size (CHR '','' # commas ?ns) ?o = (VV_OK, ?o @ (if ?o \<noteq> [] then '','' else []) @ commas ps)"
      by (rule Cons.IH) (use Cons.prems False in \<open>auto simp: commas_Cons\<close>)
    then show ?thesis using False by (simp add: commas_Cons)
  qed
  finally show ?case .
qed

lemma commas_chars: "c \<in> set (commas ns) \<Longrightarrow> isdigit c \<or> c = CHR '',''"
  by (induction ns) (use dec_string_digits digit_char in \<open>fastforce simp: commas_Cons split: if_splits\<close>)+

text \<open>
  C34. A list that names nodes the container holds, in the host's numbers, is translated to their positions, in the same
  order; so where the two numberings agree (the nodes are 0, 1, ...) nothing changes.
\<close>

theorem visible_map_translates:
  assumes "distinct nodes" "\<forall>x \<in> set nodes. 0 \<le> x \<and> x < 2 ^ 31" "ps \<noteq> []" "\<forall>p \<in> set ps. p < length nodes"
    and "length (commas ps) < out_size"
  shows "vv_cuda_visible_map (Some (commas (map (\<lambda>p. nat (nodes ! p)) ps))) (Some nodes) out_size = (VV_OK, commas ps)"
proof -
  let ?t = "commas (map (\<lambda>p. nat (nodes ! p)) ps)"
  have "visible_loop nodes out_size ?t [] = (VV_OK, [] @ (if ([] :: string) \<noteq> [] then '','' else []) @ commas ps)"
    by (rule visible_loop_commas [OF assms(1,2)]) (use assms in auto)
  moreover have "\<not> (\<exists>c \<in> set ?t. \<not> isdigit c \<and> c \<noteq> CHR '','' \<and> \<not> isspace c)" using commas_chars by blast
  moreover have "nodes \<noteq> []" "out_size \<noteq> 0" using assms by (cases ps; auto)+
  ultimately show ?thesis by (simp add: vv_cuda_visible_map_def)
qed

theorem visible_map_translates_witness:
  "vv_cuda_visible_map (Some (commas (map (\<lambda>p. nat ([1, 5, 12 :: int] ! p)) [2, 0]))) (Some [1, 5, 12]) 256 = (VV_OK, commas [2, 0])"
  by (rule visible_map_translates) (simp_all add: dec_string.simps)

subsection \<open>Budgets stay within the device and the cap\<close>

text \<open>
  C35. With a share of a size that grows with the size, and no more free than there is: giving the reclaimable bytes back
  never takes the budget past the device's share nor past the operator's cap, never wraps, and never lowers it.
\<close>

theorem budget_within_limits:
  assumes "0 \<le> index" "index < int (length (gs_id st))" "dv_info D (gs_id st ! nat index) = Some (whole, freem)" "freem \<le> whole"
    and mono: "\<And>a b. a \<le> b \<Longrightarrow> co_share F a vram_budget \<le> co_share F b vram_budget"
  shows "vv_gpu_budget_reclaim F D (Some st) index vram_budget reclaimable \<le> co_share F whole vram_budget \<and>
    vv_gpu_budget F D (Some st) index vram_budget \<le> vv_gpu_budget_reclaim F D (Some st) index vram_budget reclaimable \<and>
    (vv_mem_cap_bytes F (Some (gs_cap st ! nat index)) whole = 0 \<or>
     vv_gpu_budget_reclaim F D (Some st) index vram_budget reclaimable \<le> vv_mem_cap_bytes F (Some (gs_cap st ! nat index)) whole)"
proof -
  define b where "b = co_share F freem vram_budget"
  define c where "c = co_share F whole vram_budget"
  define cap where "cap = vv_mem_cap_bytes F (Some (gs_cap st ! nat index)) whole"
  define r where "r = (if reclaimable > c - b then c else b + reclaimable)"
  have bc: "b \<le> c" using mono [OF assms(4)] by (simp add: b_def c_def)
  have r: "r \<le> c \<and> b \<le> r"
  proof (cases "reclaimable > c - b")
    case True
    then show ?thesis using bc by (simp add: r_def)
  next
    case False
    have cl: "unat c < 2 ^ LENGTH(64)" by (rule unsigned_less)
    have "unat reclaimable \<le> unat c - unat b" using False bc by (simp add: word_le_nat_alt not_less unat_sub)
    then have le: "unat b + unat reclaimable \<le> unat c" using bc by (simp add: word_le_nat_alt)
    then have "unat (b + reclaimable) = unat b + unat reclaimable"
      using cl by (intro unat_add_lem [THEN iffD1]) simp
    then show ?thesis using False le by (simp add: r_def word_le_nat_alt)
  qed
  have R: "vv_gpu_budget_reclaim F D (Some st) index vram_budget reclaimable = (if cap \<noteq> 0 \<and> cap < r then cap else r)"
    and B: "vv_gpu_budget F D (Some st) index vram_budget = (if cap \<noteq> 0 \<and> cap < b then cap else b)"
    using assms(1-3) by (simp_all add: vv_gpu_budget_reclaim_def vv_gpu_budget_def Let_def b_def c_def cap_def r_def)
  show ?thesis using r unfolding R B c_def [symmetric] cap_def [symmetric] by auto
qed

definition demo_caps :: "u32 cap_ops" where
  "demo_caps = \<lparr>co_strtod = (\<lambda>s. (0, s)), co_neg = (\<lambda>_. False), co_above_100 = (\<lambda>_. False), co_percent = id,
     co_scaled = (\<lambda>d n. ucast d), co_share = (\<lambda>s f. s), co_positive = (\<lambda>f. f > 0)\<rparr>"

theorem budget_within_limits_witness:
  "let D = \<lparr>dv_count = 1, dv_info = (\<lambda>_. Some (100, 60))\<rparr>; st = \<lparr>gs_id = [0], gs_cap = [\<lparr>mc_bytes = 45, mc_frac = 0\<rparr>]\<rparr> in
    vv_gpu_budget_reclaim demo_caps D (Some st) 0 0x3F000000 70 \<le> co_share demo_caps 100 0x3F000000 \<and>
    vv_gpu_budget demo_caps D (Some st) 0 0x3F000000 \<le> vv_gpu_budget_reclaim demo_caps D (Some st) 0 0x3F000000 70 \<and>
    (vv_mem_cap_bytes demo_caps (Some (gs_cap st ! nat 0)) 100 = 0 \<or>
     vv_gpu_budget_reclaim demo_caps D (Some st) 0 0x3F000000 70 \<le> vv_mem_cap_bytes demo_caps (Some (gs_cap st ! nat 0)) 100)"
  unfolding Let_def
  by (rule budget_within_limits [where freem = 60]) (simp_all add: demo_caps_def)

lemma sorted_insert_node: "sorted xs \<Longrightarrow> sorted (insert_node xs v) \<and> set (insert_node xs v) = insert v (set xs)"
proof (induction xs rule: rev_induct)
  case Nil
  show ?case by (simp add: insert_node_def)
next
  case (snoc x xs)
  have st: "set (insert_node ys v) = insert v (set ys)" for ys
  proof -
    have "set (dropWhile (\<lambda>x. x > v) (rev ys)) \<union> set (takeWhile (\<lambda>x. x > v) (rev ys)) = set ys"
      by (metis set_append set_rev sup_commute takeWhile_dropWhile_id)
    then show ?thesis by (auto simp: insert_node_def)
  qed
  show ?case
  proof (cases "x > v")
    case True
    then have "insert_node (xs @ [x]) v = insert_node xs v @ [x]" by (simp add: insert_node_def)
    then show ?thesis using snoc True st [of xs] st [of "xs @ [x]"] by (auto simp: sorted_append)
  next
    case False
    then have "insert_node (xs @ [x]) v = (xs @ [x]) @ [v]" by (simp add: insert_node_def)
    then show ?thesis using snoc.prems False st [of "xs @ [x]"] by (auto simp: sorted_append intro: order_trans)
  qed
qed

lemma sort_nodes_sorted: "sorted (sort_nodes ns) \<and> set (sort_nodes ns) = set ns"
proof -
  have "sorted acc \<Longrightarrow> sorted (foldl insert_node acc ns) \<and> set (foldl insert_node acc ns) = set acc \<union> set ns" for acc
    by (induction ns arbitrary: acc) (simp_all add: sorted_insert_node)
  from this [of "[]"] show ?thesis by (simp add: sort_nodes_def)
qed

end
