(* ===== verification/Postprocess.thy ===== *)
theory Postprocess
  imports ChatPrompt GpuSelect
begin

text \<open>
  From the model's answer to a transcription (\<^verbatim>\<open>src/src/inference/postprocess.c\<close>): finding the JSON in the text, reading it
  through cJSON (the parameter \<open>parse\<close>), the tolerant reader for answers cJSON refuses, the JSON output, and the memory all of it
  takes. A C string is its characters without the NUL, a pointer into one the suffix it points at; a string on the heap is
  its block and what was stored in it, which may hold a NUL after \<^verbatim>\<open>\u0000\<close>: \<open>c_text\<close> is what string functions see of it.
  \<^verbatim>\<open>atof\<close> and the casts between doubles, floats and ints are a parameter.
\<close>

unbundle bit_operations_syntax

subsection \<open>Helpers\<close>

type_synonym heap_str = "(nat \<times> string) option"

definition c_text :: "string \<Rightarrow> string" where
  "c_text s = takeWhile (\<lambda>c. c \<noteq> CHR 0x00) s"

record 'd pp_ops = "'d num_ops" +
  po_atof :: "string \<Rightarrow> u32"
  po_double :: "u32 \<Rightarrow> 'd"

definition dup_cstr :: "string \<Rightarrow> heap \<Rightarrow> heap_str \<times> heap" where
  "dup_cstr s h = (case vv_alloc (of_nat (length s + 1)) h of (p, h) \<Rightarrow> (map_option (\<lambda>a. (a, s)) p, h))"

fun pick :: "'d cjson \<Rightarrow> string list \<Rightarrow> 'd cjson option" where
  "pick obj [] = None"
| "pick obj (k # ks) = (case cj_get k obj of Some v \<Rightarrow> Some v | None \<Rightarrow> pick obj ks)"

definition as_float :: "'d pp_ops \<Rightarrow> 'd cjson option \<Rightarrow> u32 \<Rightarrow> u32" where
  "as_float F v dflt =
     (case v of
        Some (CNumber d) \<Rightarrow> no_float F d
      | Some (CString s) \<Rightarrow> po_atof F s
      | _ \<Rightarrow> dflt)"

text \<open>\<^verbatim>\<open>strstr\<close>: the suffix that starts with the needle.\<close>

fun strstr :: "string \<Rightarrow> string \<Rightarrow> string option" where
  "strstr [] needle = (if needle = [] then Some [] else None)"
| "strstr (c # cs) needle = (if take (length needle) (c # cs) = needle then Some (c # cs) else strstr cs needle)"

subsection \<open>The JSON inside the answer\<close>

text \<open>The loop over the brackets: how many characters it goes over, and the depth it ends with.\<close>

fun json_scan :: "int \<Rightarrow> bool \<Rightarrow> bool \<Rightarrow> string \<Rightarrow> nat \<times> int" where
  "json_scan depth in_str esc [] = (0, depth)"
| "json_scan depth in_str esc (c # cs) =
     (if esc then map_prod Suc id (json_scan depth in_str False cs)
      else if c = CHR 0x5C then map_prod Suc id (json_scan depth in_str True cs)
      else if c = CHR 0x22 then map_prod Suc id (json_scan depth (\<not> in_str) False cs)
      else if in_str then map_prod Suc id (json_scan depth in_str False cs)
      else if c = CHR ''['' \<or> c = CHR ''{'' then map_prod Suc id (json_scan (depth + 1) in_str False cs)
      else if c = CHR '']'' \<or> c = CHR ''}'' then
        if depth - 1 = 0 then (1, 0) else map_prod Suc id (json_scan (depth - 1) in_str False cs)
      else map_prod Suc id (json_scan depth in_str False cs))"

definition is_open :: "char \<Rightarrow> bool" where
  "is_open c \<longleftrightarrow> c = CHR ''['' \<or> c = CHR ''{''"

definition extract_json :: "string \<Rightarrow> heap \<Rightarrow> heap_str \<times> heap" where
  "extract_json s h =
     (let start = (case strstr s ''```json'' of Some r \<Rightarrow> drop 7 r | None \<Rightarrow> s);
          opn = dropWhile (\<lambda>c. \<not> is_open c) start
      in if opn = [] then (None, h)
         else
           (case json_scan 0 False False opn of (len, depth) \<Rightarrow>
              if depth = 0 then dup_cstr (take len opn) h
              else
                let kept = rev (dropWhile (\<lambda>c. c \<noteq> CHR ''}'') (rev (take len opn))) in
                if kept = [] then (None, h)
                else
                  (case vv_alloc (of_nat (length kept + 8)) h of
                     (None, h) \<Rightarrow> (None, h)
                   | (Some p, h) \<Rightarrow> (Some (p, kept @ (if hd opn = CHR ''['' then '']'' else [])), h))))"

subsection \<open>Reading a malformed answer\<close>

text \<open>The value of a hexadecimal digit as \<^verbatim>\<open>unsigned\<close>; \<^verbatim>\<open>char\<close> is signed.\<close>

definition hex_value :: "char \<Rightarrow> u32" where
  "hex_value c =
     (let b = of_char c :: u8 in
      if isdigit c then scast b - 48 else scast (b OR 32) - 97 + 10)"

fun hex4 :: "nat \<Rightarrow> u32 \<Rightarrow> string \<Rightarrow> u32 \<times> string" where
  "hex4 (Suc k) v (c # cs) = hex4 k (v * 16 + hex_value c) cs"
| "hex4 k v cs = (v, cs)"

text \<open>One character of the string, at a place that is neither its end nor a quote, and what follows it.\<close>

definition json_char :: "char \<Rightarrow> string \<Rightarrow> char \<times> string" where
  "json_char c p =
     (if c = CHR 0x5C \<and> p \<noteq> [] then
        let e = hd p; p = tl p in
        if e = CHR ''n'' then (CHR 0x0A, p)
        else if e = CHR ''t'' then (CHR 0x09, p)
        else if e = CHR ''r'' then (CHR 0x0D, p)
        else if e = CHR ''u'' then (case hex4 4 0 p of (v, p) \<Rightarrow> (char_of (unat (v AND 0xFF)), p))
        else (e, p)
      else (c, p))"

lemma hex4_less: "length (snd (hex4 k v p)) \<le> length p"
  by (induction k v p rule: hex4.induct) auto

lemma json_char_less: "length (snd (json_char c p)) \<le> length p"
proof (cases p)
  case (Cons e cs)
  have "length (snd (hex4 4 0 cs)) \<le> length cs" by (rule hex4_less)
  then show ?thesis by (auto simp: json_char_def Cons Let_def split: prod.splits)
qed (simp add: json_char_def)

text \<open>The loop with the block, what is in it, and its capacity; the string read, what follows, and the heap.\<close>

function json_str_loop :: "string \<Rightarrow> nat \<Rightarrow> string \<Rightarrow> nat \<Rightarrow> heap \<Rightarrow> (nat \<times> string \<times> string) option \<times> heap" where
  "json_str_loop p a out cap h =
     (case p of
        [] \<Rightarrow> (Some (a, out, []), h)
      | c # p \<Rightarrow>
          if c = CHR 0x22 then (Some (a, out, p), h)
          else
            (case json_char c p of (c, p) \<Rightarrow>
               if length out + 2 > cap then
                 (case vv_realloc (Some a) (of_nat (cap * 2)) h of
                    (None, h) \<Rightarrow> (None, vv_free (Some a) h)
                  | (Some b, h) \<Rightarrow> json_str_loop p b (out @ [c]) (cap * 2) h)
               else json_str_loop p a (out @ [c]) cap h))"
  by pat_completeness auto
termination
  by (relation "measure (\<lambda>(p, a, out, cap, h). length p)")
    (auto simp: less_Suc_eq_le, (metis json_char_less snd_conv)+)

declare json_str_loop.simps [simp del]

text \<open>The string, and where \<^verbatim>\<open>*pp\<close> stands afterwards.\<close>

definition read_json_string :: "string \<Rightarrow> heap \<Rightarrow> heap_str \<times> string \<times> heap" where
  "read_json_string p h =
     (if p = [] \<or> hd p \<noteq> CHR 0x22 then (None, p, h)
      else
        (case vv_alloc 128 h of
           (None, h) \<Rightarrow> (None, p, h)
         | (Some a, h) \<Rightarrow>
             (case json_str_loop (tl p) a [] 128 h of
                (None, h) \<Rightarrow> (None, p, h)
              | (Some (a, out, left), h) \<Rightarrow> (Some (a, out), left, h))))"

text \<open>
  The value of the first spelling found in the first \<open>n\<close> characters of \<open>p\<close>; the suffix returned runs on to the end of the text,
  as the pointer does.
\<close>

definition key_pattern :: "string \<Rightarrow> string" where
  "key_pattern key = take 31 (CHR 0x22 # key @ [CHR 0x22])"

fun find_key :: "string \<Rightarrow> nat \<Rightarrow> string list \<Rightarrow> string option" where
  "find_key p n [] = None"
| "find_key p n (key # keys) =
     (let pat = key_pattern key; plen = length pat in
      case find (\<lambda>i. take plen (drop i p) = pat) [0..<n + 1 - plen] of
        None \<Rightarrow> find_key p n keys
      | Some i \<Rightarrow>
          let j = i + plen; skip = length (takeWhile (\<lambda>c. c = CHR '' '' \<or> c = CHR '':'') (take (n - j) (drop j p)))
          in Some (drop (j + skip) p))"

definition K_START :: "string list" where "K_START = [''Start time'', ''Start'', ''start_time'', ''start'']"

definition K_END :: "string list" where "K_END = [''End time'', ''End'', ''end_time'', ''end'']"

definition K_SPK :: "string list" where "K_SPK = [''Speaker ID'', ''Speaker'', ''speaker_id'', ''speaker'']"

definition K_TXT :: "string list" where "K_TXT = [''Content'', ''Text'', ''content'', ''text'']"

subsection \<open>The transcription\<close>

record segment =
  sg_start :: u32
  sg_end :: u32
  sg_speaker :: heap_str
  sg_text :: heap_str

text \<open>
  \<^verbatim>\<open>segments\<close> is the block of the array, the number of places it has, and the places in use (\<^verbatim>\<open>num_segments\<close> of them). The
  number of places times the size of a segment does not wrap: it is at most the length of a text in memory, times 24.
\<close>

record transcription =
  tr_ptr :: nat
  tr_segments :: "(nat \<times> nat \<times> segment list) option"
  tr_full_text :: heap_str
  tr_duration :: u32
  tr_language :: string

definition atoi :: "string \<Rightarrow> int" where
  "atoi s = to_int (fst (strtol s))"

definition speaker_number :: "int \<Rightarrow> string" where
  "speaker_number n = ''Speaker '' @ (if n < 0 then CHR ''-'' # dec_string (nat (- n)) else dec_string (nat n))"

text \<open>The name, in its 64 bytes, of a segment that is read without cJSON.\<close>

definition recover_name :: "string option \<Rightarrow> heap \<Rightarrow> string \<times> heap" where
  "recover_name kv h =
     (case kv of
        None \<Rightarrow> (''Speaker 0'', h)
      | Some v \<Rightarrow>
          if v \<noteq> [] \<and> hd v = CHR 0x22 then
            (case read_json_string v h of (sp, _, h) \<Rightarrow>
               (take 63 (case sp of Some (_, s) \<Rightarrow> c_text s | None \<Rightarrow> ''Speaker 0''), vv_free (map_option fst sp) h))
          else (take 63 (speaker_number (atoi v)), h))"

text \<open>
  The full text: its block, its characters and its capacity. \<open>add_text\<close> appends a segment's text, with a space between two;
  \<open>False\<close> is a failed \<^verbatim>\<open>realloc\<close>.
\<close>

definition add_text :: "string \<Rightarrow> nat \<times> string \<times> nat \<Rightarrow> heap \<Rightarrow> bool \<times> (nat \<times> string \<times> nat) \<times> heap" where
  "add_text body full h =
     (case full of (a, txt, cap) \<Rightarrow>
        if body = [] then (True, full, h)
        else
          let out = txt @ (if txt \<noteq> [] then '' '' else []) @ body; need = length txt + length body + 2 in
          if need > cap then
            (case vv_realloc (Some a) (of_nat (need * 2)) h of
               (None, h) \<Rightarrow> (False, full, h)
             | (Some b, h) \<Rightarrow> (True, (b, out, need * 2), h))
          else (True, (a, out, cap), h))"

text \<open>The place of the next segment, \<^verbatim>\<open>&segments[num_segments]\<close>, is written; past the end of the array it is memory that is not its own.\<close>

definition next_place :: "nat \<times> nat \<times> segment list \<Rightarrow> heap \<Rightarrow> heap" where
  "next_place segs h = (case segs of (a, room, sgs) \<Rightarrow> if length sgs < room then h else h\<lparr>h_bad := True\<rparr>)"

definition keep_segment :: "segment \<Rightarrow> nat \<times> nat \<times> segment list \<Rightarrow> nat \<times> nat \<times> segment list" where
  "keep_segment seg segs = (case segs of (a, room, sgs) \<Rightarrow> (a, room, sgs @ [seg]))"

text \<open>
  The walk over the pieces between opening braces; a turn leaves the loop or goes on at a later place. A failed
  \<^verbatim>\<open>realloc\<close> leaves the loop before the segment is counted, and its two strings are lost.
\<close>

type_synonym recovered = "(nat \<times> nat \<times> segment list) \<times> (nat \<times> string \<times> nat) \<times> heap"

definition recover_time :: "'d pp_ops \<Rightarrow> string option \<Rightarrow> u32" where
  "recover_time F v = (case v of Some v \<Rightarrow> po_atof F v | None \<Rightarrow> 0)"

text \<open>The segment of the piece \<open>p\<close> of \<open>n\<close> characters, whose content has been read; \<open>nxt\<close> is the next piece.\<close>

definition recover_piece ::
  "'d pp_ops \<Rightarrow> string \<Rightarrow> nat \<Rightarrow> string \<Rightarrow> nat \<times> string \<Rightarrow> (nat \<times> nat \<times> segment list) \<Rightarrow> (nat \<times> string \<times> nat) \<Rightarrow> heap \<Rightarrow>
   string option \<times> recovered" where
  "recover_piece F p n nxt body segs full h =
     (case recover_name (find_key p n K_SPK) (next_place segs h) of (name, h) \<Rightarrow>
      case dup_cstr name h of (speaker, h) \<Rightarrow>
      case add_text (c_text (snd body)) full h of (kept, full, h) \<Rightarrow>
      if \<not> kept then (None, segs, full, h)
      else
        (if nxt = [] then None else Some nxt,
         keep_segment \<lparr>sg_start = recover_time F (find_key p n K_START), sg_end = recover_time F (find_key p n K_END),
                       sg_speaker = speaker, sg_text = Some body\<rparr> segs, full, h))"

text \<open>One turn at a brace, \<open>rest\<close> being what follows it: where the next turn looks, or \<open>None\<close> at the end.\<close>

definition recover_turn ::
  "'d pp_ops \<Rightarrow> string \<Rightarrow> (nat \<times> nat \<times> segment list) \<Rightarrow> (nat \<times> string \<times> nat) \<Rightarrow> heap \<Rightarrow> string option \<times> recovered" where
  "recover_turn F rest segs full h =
     (let p = CHR ''{'' # rest; nxt = dropWhile (\<lambda>c. c \<noteq> CHR ''{'') rest; n = length p - length nxt in
      case find_key p n K_TXT of
        None \<Rightarrow> (Some rest, segs, full, h)
      | Some tv \<Rightarrow>
          if tv = [] \<or> hd tv \<noteq> CHR 0x22 then (Some rest, segs, full, h)
          else
            (case read_json_string tv h of
               (None, _, h) \<Rightarrow> (Some rest, segs, full, h)
             | (Some body, _, h) \<Rightarrow> recover_piece F p n nxt body segs full h))"

lemma recover_turn_less:
  assumes "recover_turn F rest segs full h = (Some p, st)"
  shows "length p \<le> length rest"
proof -
  have "length (dropWhile (\<lambda>c. c \<noteq> CHR ''{'') rest) \<le> length rest" by (rule length_dropWhile_le)
  then show ?thesis using assms
    by (auto simp: recover_turn_def recover_piece_def Let_def split: option.splits prod.splits if_splits)
qed

function recover_loop ::
  "'d pp_ops \<Rightarrow> string \<Rightarrow> (nat \<times> nat \<times> segment list) \<Rightarrow> (nat \<times> string \<times> nat) \<Rightarrow> heap \<Rightarrow> recovered" where
  "recover_loop F p segs full h =
     (case dropWhile (\<lambda>c. c \<noteq> CHR ''{'') p of
        [] \<Rightarrow> (segs, full, h)
      | brace # rest \<Rightarrow>
          (case recover_turn F rest segs full h of
             (None, segs, full, h) \<Rightarrow> (segs, full, h)
           | (Some p, segs, full, h) \<Rightarrow> recover_loop F p segs full h))"
  by pat_completeness auto
termination
proof (relation "measure (\<lambda>(F, p, segs, full, h). length p)", goal_cases)
  case 1
  show ?case by simp
next
  case (2 F p segs full h b rest)
  then have "length rest < length p" using length_dropWhile_le [of "\<lambda>c. c \<noteq> CHR ''{''" p] by simp
  with 2 show ?case by (auto dest!: recover_turn_less [OF sym])
qed

declare recover_loop.simps [simp del]

text \<open>The transcription afterwards, and the full text when a segment was recovered; \<open>None\<close> is the return value 0.\<close>

definition recover_segments :: "'d pp_ops \<Rightarrow> string \<Rightarrow> transcription \<Rightarrow> heap \<Rightarrow> heap_str \<times> transcription \<times> heap" where
  "recover_segments F s tr h =
     (let count = length (filter (\<lambda>c. c = CHR ''{'') s) in
      if count = 0 then (None, tr, h)
      else
        (case vv_alloc (of_nat count * h_sizeof h ''vv_segment_t'') h of
           (None, h) \<Rightarrow> (None, tr\<lparr>tr_segments := None\<rparr>, h)
         | (Some a, h) \<Rightarrow>
             (case vv_alloc 1024 h of
                (None, h) \<Rightarrow> (None, tr\<lparr>tr_segments := Some (a, count, [])\<rparr>, h)
              | (Some b, h) \<Rightarrow>
                  (case recover_loop F s (a, count, []) (b, [], 1024) h of
                     (segs, (b, txt, cap), h) \<Rightarrow>
                       if snd (snd segs) = [] then (None, tr\<lparr>tr_segments := Some segs\<rparr>, vv_free (Some b) h)
                       else (Some (b, txt), tr\<lparr>tr_segments := Some segs\<rparr>, h)))))"

subsection \<open>The entry points\<close>

definition json_name :: "'d pp_ops \<Rightarrow> 'd cjson option \<Rightarrow> string" where
  "json_name F spk =
     take 63 (case spk of
                Some (CString s) \<Rightarrow> s
              | Some (CNumber d) \<Rightarrow> speaker_number (no_int F d)
              | _ \<Rightarrow> ''Speaker 0'')"

definition json_body :: "'d cjson option \<Rightarrow> string" where
  "json_body txt = (case cj_string txt of Some s \<Rightarrow> s | None \<Rightarrow> [])"

fun json_items ::
  "'d pp_ops \<Rightarrow> 'd cjson list \<Rightarrow> nat \<times> nat \<times> segment list \<Rightarrow> nat \<times> string \<times> nat \<Rightarrow> heap \<Rightarrow>
   (nat \<times> nat \<times> segment list) \<times> (nat \<times> string \<times> nat) \<times> heap" where
  "json_items F [] segs full h = (segs, full, h)"
| "json_items F (item # items) segs full h =
     (if \<not> cj_is_object (Some item) then json_items F items segs full h
      else
        let h = next_place segs h; t0 = as_float F (pick item K_START) 0; t1 = as_float F (pick item K_END) 0;
            body = json_body (pick item K_TXT)
        in case dup_cstr (json_name F (pick item K_SPK)) h of (speaker, h) \<Rightarrow>
           case dup_cstr body h of (words, h) \<Rightarrow>
           case add_text body full h of (kept, full, h) \<Rightarrow>
           if \<not> kept then (segs, full, h)
           else json_items F items (keep_segment \<lparr>sg_start = t0, sg_end = t1, sg_speaker = speaker, sg_text = words\<rparr> segs) full h)"

definition skip_framing :: "string \<Rightarrow> string" where
  "skip_framing s =
     (case strstr s ''<|im_start|>assistant'' of
        None \<Rightarrow> s
      | Some r \<Rightarrow> dropWhile (\<lambda>c. c = CHR 0x0A \<or> c = CHR 0x0D \<or> c = CHR '' '') (drop 21 r))"

text \<open>The answer cJSON could not read: the tolerant reader, then the text without the chat framing.\<close>

definition transcribe_raw :: "'d pp_ops \<Rightarrow> string \<Rightarrow> transcription \<Rightarrow> heap \<Rightarrow> vv_status \<times> transcription option \<times> heap" where
  "transcribe_raw F s tr h =
     (case recover_segments F s tr h of
        (Some full, tr, h) \<Rightarrow> (VV_OK, Some (tr\<lparr>tr_full_text := Some full\<rparr>), h)
      | (None, tr, h) \<Rightarrow>
          (case dup_cstr (skip_framing s) h of (full, h) \<Rightarrow> (VV_OK, Some (tr\<lparr>tr_full_text := full\<rparr>), h)))"

text \<open>The answer cJSON read.\<close>

definition answer_items :: "'d cjson \<Rightarrow> 'd cjson list" where
  "answer_items root = (if cj_is_array (Some root) then cj_children root else [root])"

definition transcribe_json :: "'d pp_ops \<Rightarrow> 'd cjson \<Rightarrow> transcription \<Rightarrow> heap \<Rightarrow> vv_status \<times> transcription option \<times> heap" where
  "transcribe_json F root tr h =
     (let items = answer_items root; room = (if length items > 0 then length items else 1) in
      case vv_alloc (of_nat room * h_sizeof h ''vv_segment_t'') h of
        (None, h) \<Rightarrow> (VV_ERR_OUT_OF_MEMORY, None, vv_free (Some (tr_ptr tr)) h)
      | (Some a, h) \<Rightarrow>
          (case vv_alloc 1024 h of
             (None, h) \<Rightarrow> (VV_ERR_OUT_OF_MEMORY, None, vv_free (Some (tr_ptr tr)) (vv_free (Some a) h))
           | (Some b, h) \<Rightarrow>
               (case json_items F items (a, room, []) (b, [], 1024) h of
                  (segs, (b, txt, cap), h) \<Rightarrow>
                    (VV_OK, Some (tr\<lparr>tr_segments := Some segs, tr_full_text := Some (b, txt)\<rparr>), h))))"

definition fresh_transcription :: "nat \<Rightarrow> u32 \<Rightarrow> transcription" where
  "fresh_transcription t duration =
     \<lparr>tr_ptr = t, tr_segments = None, tr_full_text = None, tr_duration = duration, tr_language = ''unknown''\<rparr>"

definition vv_postprocess_text ::
  "(string \<Rightarrow> 'd cjson option) \<Rightarrow> 'd pp_ops \<Rightarrow> string option \<Rightarrow> bool \<Rightarrow> u32 \<Rightarrow> heap \<Rightarrow>
   vv_status \<times> transcription option \<times> heap" where
  "vv_postprocess_text parse F answer room duration h =
     (case answer of
        None \<Rightarrow> (VV_ERR_NULL_PTR, None, h)
      | Some s \<Rightarrow>
          if \<not> room then (VV_ERR_NULL_PTR, None, h)
          else
            (case vv_alloc (h_sizeof h ''vv_transcription_t'') h of
               (None, h) \<Rightarrow> (VV_ERR_OUT_OF_MEMORY, None, h)
             | (Some t, h) \<Rightarrow>
                 (case extract_json s h of (js, h) \<Rightarrow>
                    let root = (case js of None \<Rightarrow> None | Some (_, j) \<Rightarrow> parse j); h = vv_free (map_option fst js) h;
                        tr = fresh_transcription t duration
                    in (case root of None \<Rightarrow> transcribe_raw F s tr h | Some root \<Rightarrow> transcribe_json F root tr h))))"

text \<open>The tokens that are not NULL, joined.\<close>

definition vv_postprocess_tokens ::
  "(string \<Rightarrow> 'd cjson option) \<Rightarrow> 'd pp_ops \<Rightarrow> string option list option \<Rightarrow> bool \<Rightarrow> heap \<Rightarrow>
   vv_status \<times> transcription option \<times> heap" where
  "vv_postprocess_tokens parse F tokens room h =
     (case tokens of
        None \<Rightarrow> (VV_ERR_NULL_PTR, None, h)
      | Some ts \<Rightarrow>
          if \<not> room then (VV_ERR_NULL_PTR, None, h)
          else
            let joined = concat (List.map_filter id ts) in
            (case vv_alloc (of_nat (length joined + 1)) h of
               (None, h) \<Rightarrow> (VV_ERR_OUT_OF_MEMORY, None, h)
             | (Some j, h) \<Rightarrow>
                 (case vv_postprocess_text parse F (Some joined) True 0 h of
                    (st, res, h) \<Rightarrow> (st, res, vv_free (Some j) h))))"

definition tr_segment_list :: "transcription \<Rightarrow> segment list" where
  "tr_segment_list tr = (case tr_segments tr of None \<Rightarrow> [] | Some (_, _, sgs) \<Rightarrow> sgs)"

definition or_else :: "heap_str \<Rightarrow> string \<Rightarrow> string" where
  "or_else s d = (case s of Some (_, x) \<Rightarrow> c_text x | None \<Rightarrow> d)"

text \<open>The tree \<^verbatim>\<open>vv_transcription_to_json\<close> builds and has cJSON print.\<close>

definition segment_json :: "'d pp_ops \<Rightarrow> segment \<Rightarrow> 'd cjson" where
  "segment_json F sg =
     CObject [(''speaker'', CString (or_else (sg_speaker sg) ''Unknown'')), (''start'', CNumber (po_double F (sg_start sg))),
              (''end'', CNumber (po_double F (sg_end sg))), (''text'', CString (or_else (sg_text sg) []))]"

definition vv_transcription_to_json ::
  "('d cjson \<Rightarrow> string option) \<Rightarrow> 'd pp_ops \<Rightarrow> transcription option \<Rightarrow> bool \<Rightarrow> vv_status \<times> string option" where
  "vv_transcription_to_json print F tr room =
     (case tr of
        None \<Rightarrow> (VV_ERR_NULL_PTR, None)
      | Some tr \<Rightarrow>
          if \<not> room then (VV_ERR_NULL_PTR, None)
          else (VV_OK, print (CObject
            [(''text'', CString (or_else (tr_full_text tr) [])), (''duration'', CNumber (po_double F (tr_duration tr))),
             (''language'', CString (tr_language tr)), (''segments'', CArray (map (segment_json F) (tr_segment_list tr)))])))"

definition free_segment :: "segment \<Rightarrow> heap \<Rightarrow> heap" where
  "free_segment sg h = vv_free (map_option fst (sg_text sg)) (vv_free (map_option fst (sg_speaker sg)) h)"

definition vv_transcription_free :: "transcription option \<Rightarrow> heap \<Rightarrow> vv_status \<times> heap" where
  "vv_transcription_free tr h =
     (case tr of
        None \<Rightarrow> (VV_ERR_NULL_PTR, h)
      | Some tr \<Rightarrow>
          let h = (case tr_segments tr of None \<Rightarrow> h | Some (a, _, sgs) \<Rightarrow> vv_free (Some a) (fold free_segment sgs h));
              h = vv_free (map_option fst (tr_full_text tr)) h
          in (VV_OK, vv_free (Some (tr_ptr tr)) h))"

subsection \<open>What the helpers keep\<close>

lemma dup_cstr_owns:
  assumes "dup_cstr s h = (x, h')" and "owns h M" and "length s < 2 ^ 62"
  shows "owns h' (text_block x + M) \<and> (x \<noteq> None \<longrightarrow> map_option snd x = Some s) \<and>
    (host_never_fails h \<longrightarrow> map_option snd x = Some s \<and> host_never_fails h')"
  using dup_string_owns [of s h x h' M] assms by (auto simp: dup_cstr_def dup_string_def)

lemma json_char_le: "json_char c p = (d, q) \<Longrightarrow> length q \<le> length p"
  using json_char_less [of c p] by simp

lemma json_str_loop_owns:
  assumes "json_str_loop p a out cap h = (res, h')" and "owns h (add_mset (Host, a) M)"
    and "0 < cap" "cap \<le> 2 * length out + 128" "length out + length p < 2 ^ 60"
  shows "(case res of
        None \<Rightarrow> owns h' M
      | Some (b, out', left) \<Rightarrow> owns h' (add_mset (Host, b) M) \<and> length out' \<le> length out + length p \<and> length left \<le> length p) \<and>
    (host_never_fails h \<longrightarrow> res \<noteq> None \<and> host_never_fails h')"
  using assms
proof (induction p a out cap h rule: json_str_loop.induct)
  case (1 p a out cap h)
  show ?case
  proof (cases p)
    case Nil
    then show ?thesis using 1(3,4) by (auto simp: json_str_loop.simps [of "[]"])
  next
    case (Cons c cs)
    obtain d q where jc: "json_char c cs = (d, q)" by fastforce
    have q: "length q \<le> length cs" using json_char_le [OF jc] .
    consider (quote) "c = CHR 0x22" | (grow) "c \<noteq> CHR 0x22" "length out + 2 > cap" | (room) "c \<noteq> CHR 0x22" "\<not> length out + 2 > cap" by blast
    then show ?thesis
    proof cases
      case quote
      then show ?thesis using 1(3,4) Cons by (auto simp: json_str_loop.simps [of "CHR 0x22 # cs"])
    next
      case room
      have r: "json_str_loop q a (out @ [d]) cap h = (res, h')"
        using 1(3) Cons room jc by (simp add: json_str_loop.simps [of "c # cs"])
      have "cap \<le> 2 * length (out @ [d]) + 128" "length (out @ [d]) + length q < 2 ^ 60" using 1(6,7) q Cons by auto
      from 1(2) [OF Cons room(1) jc [symmetric] room(2) r 1(4,5) this] q Cons show ?thesis by (auto split: option.splits)
    next
      case grow
      obtain x h1 where re: "vv_realloc (Some a) (of_nat (cap * 2)) h = (x, h1)" by fastforce
      have "cap * 2 < 2 ^ 64" using 1(6,7) by simp
      then have nz: "(of_nat (cap * 2) :: u64) \<noteq> 0" using 1(5) by (intro of_nat_neq_0) auto
      have o: "owns h (opt_block Host (Some a) + M)" using 1(4) by (simp add: opt_block_def)
      note rr = vv_realloc_owns [OF o nz re]
      show ?thesis
      proof (cases x)
        case None
        then have e: "res = None" "h' = vv_free (Some a) h1" using 1(3) Cons grow jc re
          by (simp_all add: json_str_loop.simps [of "c # cs"])
        have "owns h1 (add_mset (Host, a) M)" using rr None by (simp add: opt_block_def)
        then have "owns h' M" using e by simp
        then show ?thesis using e rr None by auto
      next
        case (Some b)
        have r: "json_str_loop q b (out @ [d]) (cap * 2) h1 = (res, h')"
          using 1(3) Cons grow jc re Some by (simp add: json_str_loop.simps [of "c # cs"])
        have o1: "owns h1 (add_mset (Host, b) M)" using rr Some by (simp add: opt_block_def)
        have "0 < cap * 2" "cap * 2 \<le> 2 * length (out @ [d]) + 128" "length (out @ [d]) + length q < 2 ^ 60"
          using 1(5-7) q Cons grow by auto
        from 1(1) [OF Cons grow(1) jc [symmetric] grow(2) re [symmetric] Some r o1 this] q Cons rr Some show ?thesis
          by (auto split: option.splits)
      qed
    qed
  qed
qed

lemma read_json_string_owns:
  assumes "read_json_string p h = (res, q, h')" and "owns h M" and "length p < 2 ^ 60"
  shows "owns h' (text_block res + M) \<and> (res \<noteq> None \<longrightarrow> length (snd (the res)) \<le> length p) \<and>
    (host_never_fails h \<longrightarrow> host_never_fails h' \<and> (p \<noteq> [] \<and> hd p = CHR 0x22 \<longrightarrow> res \<noteq> None))"
proof (cases "p = [] \<or> hd p \<noteq> CHR 0x22")
  case True
  then show ?thesis using assms by (auto simp: read_json_string_def text_block_def opt_block_def)
next
  case False
  obtain a h1 where va: "vv_alloc 128 h = (a, h1)" by fastforce
  note o = vv_alloc_owns [OF assms(2) va]
  have nf: "host_never_fails h \<longrightarrow> a \<noteq> None \<and> host_never_fails h1" using vv_alloc_never_fails [OF _ _ va] by simp
  show ?thesis
  proof (cases a)
    case None
    then show ?thesis using assms(1) False va o nf by (auto simp: read_json_string_def text_block_def opt_block_def)
  next
    case (Some b)
    obtain r h2 where l: "json_str_loop (tl p) b [] 128 h1 = (r, h2)" by fastforce
    have len: "length ([] :: string) + length (tl p) < 2 ^ 60" using assms(3) by simp
    have "owns h1 (add_mset (Host, b) M)" using o Some by simp
    from json_str_loop_owns [OF l this _ _ len] show ?thesis
      using assms(1) False va l Some nf
      by (cases r) (auto simp: read_json_string_def text_block_def opt_block_def)
  qed
qed

lemma add_text_owns:
  assumes "add_text body (a, txt, cap) h = (kept, (b, txt', cap'), h')" and "owns h (add_mset (Host, a) M)"
    and "length txt + length body < 2 ^ 62"
  shows "owns h' (add_mset (Host, b) M) \<and> (host_never_fails h \<longrightarrow> kept \<and> host_never_fails h') \<and>
    txt' = (if kept \<and> body \<noteq> [] then txt @ (if txt \<noteq> [] then '' '' else []) @ body else txt)"
proof (cases "body = []")
  case True
  then show ?thesis using assms by (simp add: add_text_def)
next
  case False
  let ?need = "length txt + length body + 2"
  show ?thesis
  proof (cases "?need > cap")
    case room: False
    then show ?thesis using assms(1,2) False by (auto simp: add_text_def Let_def split: if_splits)
  next
    case True
    obtain x h1 where re: "vv_realloc (Some a) (of_nat (?need * 2)) h = (x, h1)" by fastforce
    have nz: "(of_nat (?need * 2) :: u64) \<noteq> 0" using assms(3) by (intro of_nat_neq_0) auto
    have o: "owns h (opt_block Host (Some a) + M)" using assms(2) by (simp add: opt_block_def)
    have e: "(kept, (b, txt', cap'), h') = (case x of None \<Rightarrow> (False, (a, txt, cap), h1)
        | Some b \<Rightarrow> (True, (b, txt @ (if txt \<noteq> [] then '' '' else []) @ body, ?need * 2), h1))"
      using assms(1) unfolding add_text_def prod.case if_not_P [OF False] Let_def if_P [OF True] re by metis
    show ?thesis using vv_realloc_owns [OF o nz re] e False
      by (cases x) (auto simp: opt_block_def)
  qed
qed

lemma recover_name_owns:
  assumes "recover_name kv h = (name, h')" and "owns h M" and "\<forall>v. kv = Some v \<longrightarrow> length v < 2 ^ 60"
  shows "owns h' M \<and> length name \<le> 63 \<and> (host_never_fails h \<longrightarrow> host_never_fails h')"
proof (cases "\<exists>v. kv = Some v \<and> v \<noteq> [] \<and> hd v = CHR 0x22")
  case False
  then show ?thesis using assms by (auto simp: recover_name_def split: option.splits)
next
  case True
  then obtain v where v: "kv = Some v" "v \<noteq> []" "hd v = CHR 0x22" by blast
  obtain sp q h1 where r: "read_json_string v h = (sp, q, h1)" by (rule prod_cases3)
  have "length v < 2 ^ 60" using assms(3) v by simp
  note rr = read_json_string_owns [OF r assms(2) this]
  have e: "h' = vv_free (map_option fst sp) h1" "length name \<le> 63" using assms(1) v r by (auto simp: recover_name_def)
  have "owns h' M" unfolding e(1) by (rule owns_free_opt) (use rr in \<open>simp only: text_block_def\<close>)
  with rr e show ?thesis by simp
qed

subsection \<open>The segments and their memory\<close>

definition seg_blocks :: "segment \<Rightarrow> block multiset" where
  "seg_blocks sg = text_block (sg_speaker sg) + text_block (sg_text sg)"

definition segs_blocks :: "nat \<times> nat \<times> segment list \<Rightarrow> block multiset" where
  "segs_blocks segs = (case segs of (a, room, sgs) \<Rightarrow> add_mset (Host, a) (\<Sum>sg \<leftarrow> sgs. seg_blocks sg))"

definition tr_blocks :: "transcription \<Rightarrow> block multiset" where
  "tr_blocks tr = add_mset (Host, tr_ptr tr)
     ((case tr_segments tr of None \<Rightarrow> {#} | Some segs \<Rightarrow> segs_blocks segs) + text_block (tr_full_text tr))"

lemma segs_blocks_keep: "segs_blocks (keep_segment sg segs) = seg_blocks sg + segs_blocks segs"
  by (cases segs) (simp add: keep_segment_def segs_blocks_def)

lemma find_key_len: "find_key p n keys = Some v \<Longrightarrow> length v \<le> length p"
  by (induction p n keys rule: find_key.induct) (auto simp: Let_def split: option.splits)

definition braces :: "string \<Rightarrow> nat" where
  "braces s = length (filter (\<lambda>c. c = CHR ''{'') s)"

lemma braces_skip: "braces (dropWhile (\<lambda>c. c \<noteq> CHR ''{'') p) = braces p"
  by (induction p) (auto simp: braces_def)

text \<open>
  What the loops keep: \<open>room_ok k\<close> says that \<open>k\<close> more segments fit the array; \<open>holds\<close> says that the array, the full text
  and the \<open>lost\<close> strings are all that is on the heap beside \<open>M\<close>, and nothing is lost when the host does not fail.
\<close>

definition holds :: "bool \<Rightarrow> heap \<Rightarrow> (nat \<times> nat \<times> segment list) \<Rightarrow> (nat \<times> string \<times> nat) \<Rightarrow> block multiset \<Rightarrow> bool" where
  "holds nf h segs full M \<longleftrightarrow>
     (\<exists>lost. owns h (add_mset (Host, fst full) (segs_blocks segs + lost + M)) \<and> size lost \<le> 2 \<and>
        (nf \<longrightarrow> lost = {#} \<and> host_never_fails h))"

definition whole :: "bool \<Rightarrow> heap \<Rightarrow> (nat \<times> nat \<times> segment list) \<Rightarrow> (nat \<times> string \<times> nat) \<Rightarrow> block multiset \<Rightarrow> bool" where
  "whole nf h segs full M \<longleftrightarrow>
     owns h (add_mset (Host, fst full) (segs_blocks segs + M)) \<and> (nf \<longrightarrow> host_never_fails h)"

definition room_ok :: "nat \<Rightarrow> (nat \<times> nat \<times> segment list) \<Rightarrow> bool" where
  "room_ok k segs \<longleftrightarrow> length (snd (snd segs)) + k \<le> fst (snd segs)"

lemma whole_holds: "whole nf h segs full M \<Longrightarrow> holds nf h segs full M"
  unfolding whole_def holds_def by (intro exI [of _ "{#}"]) simp

lemma text_block_size: "size (text_block x) \<le> 1"
  by (auto simp: text_block_def opt_block_def split: option.splits)

lemma next_place_room: "room_ok (Suc k) segs \<Longrightarrow> next_place segs h = h"
  by (auto simp: room_ok_def next_place_def split: prod.splits)

text \<open>A segment's two strings and its text in the full text: stored, or lost with a failed \<^verbatim>\<open>realloc\<close>.\<close>

lemma segment_step:
  assumes ow: "owns h (text_block x + text_block y + add_mset (Host, fst full) (segs_blocks segs + M))"
    and ad: "add_text body full h = (kept, full', h')" and len: "length (fst (snd full)) + length body < 2 ^ 62"
    and nf: "nf \<longrightarrow> host_never_fails h" and seg: "sg_speaker sg = x" "sg_text sg = y"
  shows "(if kept then whole nf h' (keep_segment sg segs) full' M else holds nf h' segs full' M) \<and> (nf \<longrightarrow> kept) \<and>
    fst (snd full') = (if kept \<and> body \<noteq> [] then fst (snd full) @ (if fst (snd full) \<noteq> [] then '' '' else []) @ body else fst (snd full))"
proof -
  obtain a tx cap where f: "full = (a, tx, cap)" by (rule prod_cases3)
  obtain b tx' cap' where f': "full' = (b, tx', cap')" by (rule prod_cases3)
  have o: "owns h (add_mset (Host, a) (text_block x + text_block y + segs_blocks segs + M))" using ow f by (simp add: ac_simps)
  have l: "length tx + length body < 2 ^ 62" using len f by simp
  note r = add_text_owns [OF ad [unfolded f f'] o l]
  have "size (text_block x + text_block y) \<le> 2" using text_block_size [of x] text_block_size [of y] by simp
  moreover have "owns h' (add_mset (Host, b) (segs_blocks segs + (text_block x + text_block y) + M))" using r by (simp add: ac_simps)
  ultimately have "\<not> kept \<Longrightarrow> holds nf h' segs full' M"
    unfolding holds_def f' fst_conv using r nf by (intro exI [of _ "text_block x + text_block y"]) auto
  moreover have "kept \<Longrightarrow> whole nf h' (keep_segment sg segs) full' M"
    unfolding whole_def f' fst_conv segs_blocks_keep seg_blocks_def seg using r nf by (simp add: ac_simps)
  ultimately show ?thesis using r nf f f' by auto
qed

lemma keep_room: "room_ok (Suc k) segs \<Longrightarrow> room_ok k (keep_segment sg segs)"
  by (cases segs) (simp add: room_ok_def keep_segment_def)

lemma recover_piece_keeps:
  assumes e: "recover_piece F p n nxt body segs full h = (nx, segs', full', h')"
    and ow: "owns h (text_block (Some body) + add_mset (Host, fst full) (segs_blocks segs + M))" and nf: "nf \<longrightarrow> host_never_fails h"
    and room: "room_ok (Suc k) segs" and len: "length (fst (snd full)) + length (snd body) < 2 ^ 61" "length p < 2 ^ 60"
  shows "holds nf h' segs' full' M \<and> (nx \<noteq> None \<longrightarrow> whole nf h' segs' full' M \<and> nx = Some nxt \<and> room_ok k segs') \<and>
    length (fst (snd full')) \<le> length (fst (snd full)) + length (snd body) + 1"
proof -
  obtain name h1 where n: "recover_name (find_key p n K_SPK) h = (name, h1)" by fastforce
  have np: "next_place segs h = h" using room by (rule next_place_room)
  have "\<forall>v. find_key p n K_SPK = Some v \<longrightarrow> length v < 2 ^ 60" using find_key_len [of p n K_SPK] len(2) by fastforce
  note rn = recover_name_owns [OF n ow this]
  obtain sp h2 where d: "dup_cstr name h1 = (sp, h2)" by fastforce
  have "length name < 2 ^ 62" using rn by simp
  note rd = dup_cstr_owns [OF d conjunct1 [OF rn] this]
  obtain kept full2 h3 where a: "add_text (c_text (snd body)) full h2 = (kept, full2, h3)" by (rule prod_cases3)
  have cl: "length (c_text (snd body)) \<le> length (snd body)" unfolding c_text_def by (rule length_takeWhile_le)
  let ?sg = "\<lparr>sg_start = recover_time F (find_key p n K_START), sg_end = recover_time F (find_key p n K_END),
                       sg_speaker = sp, sg_text = Some body\<rparr>"
  have o2: "owns h2 (text_block sp + text_block (Some body) + add_mset (Host, fst full) (segs_blocks segs + M))"
    using rd by (simp add: ac_simps)
  have l2: "length (fst (snd full)) + length (c_text (snd body)) < 2 ^ 62" using len(1) cl by simp
  have nf2: "nf \<longrightarrow> host_never_fails h2" using nf rn rd by simp
  note st = segment_step [OF o2 a l2 nf2, of ?sg, simplified]
  have out: "(nx, segs', full', h') = (if \<not> kept then (None, segs, full2, h3)
      else (if nxt = [] then None else Some nxt, keep_segment ?sg segs, full2, h3))"
    using e unfolding recover_piece_def np n prod.case d a by (rule sym)
  have tl: "length (fst (snd full2)) \<le> length (fst (snd full)) + length (snd body) + 1" using st cl by auto
  show ?thesis
  proof (cases kept)
    case False
    then show ?thesis using out st tl by auto
  next
    case True
    then show ?thesis using out st tl whole_holds keep_room [OF room] by auto
  qed
qed

lemma recover_turn_keeps:
  assumes e: "recover_turn F rest segs full h = (nx, segs', full', h')"
    and w: "whole nf h segs full M" and room: "room_ok (Suc (braces rest)) segs"
    and len: "length (fst (snd full)) + length rest + 2 < 2 ^ 60"
  shows "holds nf h' segs' full' M \<and>
    (nx \<noteq> None \<longrightarrow> whole nf h' segs' full' M \<and> room_ok (braces (the nx)) segs' \<and> length (the nx) \<le> length rest) \<and>
    length (fst (snd full')) \<le> length (fst (snd full)) + length rest + 2"
proof -
  let ?p = "CHR ''{'' # rest" and ?nxt = "dropWhile (\<lambda>c. c \<noteq> CHR ''{'') rest"
  let ?n = "length ?p - length ?nxt"
  have room': "room_ok (braces rest) segs" using room by (simp add: room_ok_def)
  have stay: ?thesis if "nx = Some rest" "segs' = segs" "full' = full" "whole nf h' segs full M"
    using that room' whole_holds by simp
  show ?thesis
  proof (cases "find_key ?p ?n K_TXT")
    case None
    then show ?thesis using e w by (intro stay) (simp_all add: recover_turn_def Let_def)
  next
    case (Some tv)
    have tl: "length tv \<le> Suc (length rest)" using find_key_len [OF Some] by simp
    show ?thesis
    proof (cases "tv = [] \<or> hd tv \<noteq> CHR 0x22")
      case True
      then show ?thesis using e w Some by (intro stay) (auto simp: recover_turn_def Let_def)
    next
      case False
      obtain res q h1 where r: "read_json_string tv h = (res, q, h1)" by (rule prod_cases3)
      have o: "owns h (add_mset (Host, fst full) (segs_blocks segs + M))" and nf: "nf \<longrightarrow> host_never_fails h"
        using w by (auto simp: whole_def)
      have "length tv < 2 ^ 60" using tl len by simp
      note rr = read_json_string_owns [OF r o this]
      have eq: "recover_turn F rest segs full h = (case res of None \<Rightarrow> (Some rest, segs, full, h1)
          | Some body \<Rightarrow> recover_piece F ?p ?n ?nxt body segs full h1)"
        unfolding recover_turn_def Let_def Some option.case if_not_P [OF False] r prod.case by (rule refl)
      show ?thesis
      proof (cases res)
        case None
        have "whole nf h1 segs full M" unfolding whole_def using rr None nf by (simp add: text_block_def opt_block_def)
        then show ?thesis using e eq None by (intro stay) simp_all
      next
        case (Some body)
        have pc: "recover_piece F ?p ?n ?nxt body segs full h1 = (nx, segs', full', h')" using e eq Some by simp
        have o1: "owns h1 (text_block (Some body) + add_mset (Host, fst full) (segs_blocks segs + M))"
          and n1: "nf \<longrightarrow> host_never_fails h1" and bl: "length (snd body) \<le> Suc (length rest)"
          using rr Some nf tl by auto
        have l1: "length (fst (snd full)) + length (snd body) < 2 ^ 61" and l2: "length ?p < 2 ^ 60"
          using len bl by simp_all
        have nl: "length ?nxt \<le> length rest" by (rule length_dropWhile_le)
        from recover_piece_keeps [OF pc o1 n1 room l1 l2] bl nl show ?thesis by (auto simp: braces_skip)
      qed
    qed
  qed
qed

lemma recover_loop_keeps:
  assumes "recover_loop F p segs full h = (segs', full', h')" and "whole nf h segs full M" and "room_ok (braces p) segs"
    and "length (fst (snd full)) + length p * (N + 2) \<le> N * (N + 2)" and "length p \<le> N" and "N < 2 ^ 28"
  shows "holds nf h' segs' full' M"
  using assms
proof (induction F p segs full h rule: recover_loop.induct)
  case (1 F p segs full h)
  show ?case
  proof (cases "dropWhile (\<lambda>c. c \<noteq> CHR ''{'') p")
    case Nil
    have "(segs', full', h') = (segs, full, h)" using 1(2) unfolding recover_loop.simps [of F p] Nil by simp
    then show ?thesis using 1(3) whole_holds by simp
  next
    case (Cons b rest)
    have b: "b = CHR ''{''" using hd_dropWhile [of "\<lambda>c. c \<noteq> CHR ''{''" p] Cons by auto
    have br: "braces p = Suc (braces rest)" using braces_skip [of p] Cons b by (simp add: braces_def)
    have lr: "Suc (length rest) \<le> length p" using length_dropWhile_le [of "\<lambda>c. c \<noteq> CHR ''{''" p] Cons by simp
    obtain nx segs1 full1 h1 where t: "recover_turn F rest segs full h = (nx, segs1, full1, h1)" by (rule prod_cases4)
    have mono: "Suc (length rest) * (N + 2) \<le> length p * (N + 2)" using lr by (rule mult_le_mono1)
    have big: "N * (N + 2) < 2 ^ 58"
    proof -
      have "N * (N + 2) \<le> 2 ^ 28 * (2 ^ 28 + 2)" using 1(7) by (intro mult_le_mono) simp_all
      then show ?thesis by simp
    qed
    have len: "length (fst (snd full)) + length rest + 2 < 2 ^ 60"
      using 1(5) mono big lr 1(6,7) by simp
    note r = recover_turn_keeps [OF t 1(3) 1(4) [unfolded br] len]
    show ?thesis
    proof (cases nx)
      case None
      then show ?thesis using 1(2) Cons t r by (simp add: recover_loop.simps [of F p])
    next
      case (Some q)
      have l: "recover_loop F q segs1 full1 h1 = (segs', full', h')" using 1(2) Cons t Some by (simp add: recover_loop.simps [of F p])
      have w1: "whole nf h1 segs1 full1 M" "room_ok (braces q) segs1" and lq: "length q \<le> length rest"
        and fl: "length (fst (snd full1)) \<le> length (fst (snd full)) + length rest + 2" using r Some by auto
      have "length q * (N + 2) \<le> length rest * (N + 2)" using lq by (rule mult_le_mono1)
      then have "length (fst (snd full1)) + length q * (N + 2) \<le> N * (N + 2)" "length q \<le> N"
        using fl mono 1(5,6) lr lq by simp_all
      from 1(1) [OF Cons t [symmetric] Some refl refl l w1 this 1(7)] show ?thesis .
    qed
  qed
qed

definition segs_of :: "transcription \<Rightarrow> block multiset" where
  "segs_of tr = (case tr_segments tr of None \<Rightarrow> {#} | Some segs \<Rightarrow> segs_blocks segs)"

lemma recover_segments_keeps:
  assumes e: "recover_segments F s tr h = (full, tr', h')" and ow: "owns h M" and tr: "tr_segments tr = None" and len: "length s < 2 ^ 28"
  shows "\<exists>lost. owns h' (text_block full + segs_of tr' + lost + M) \<and> size lost \<le> 2 \<and> (host_never_fails h \<longrightarrow> lost = {#}) \<and>
    tr' = tr\<lparr>tr_segments := tr_segments tr'\<rparr> \<and> (host_never_fails h \<longrightarrow> host_never_fails h')"
proof -
  define count where "count = length (filter (\<lambda>c. c = CHR ''{'') s)"
  define nf where "nf = host_never_fails h"
  show ?thesis
  proof (cases "count = 0")
    case True
    then show ?thesis using e ow tr
      by (intro exI [of _ "{#}"]) (auto simp: recover_segments_def Let_def count_def [symmetric] text_block_def opt_block_def segs_of_def)
  next
    case False
    obtain x h1 where a1: "vv_alloc (of_nat count * h_sizeof h ''vv_segment_t'') h = (x, h1)" by fastforce
    note o1 = vv_alloc_owns [OF ow a1]
    have n1: "host_never_fails h \<Longrightarrow> host_never_fails h1"
      using a1 by (auto simp: vv_alloc_def host_never_fails_def Let_def split: if_splits)
    show ?thesis
    proof (cases x)
      case None
      then show ?thesis using e a1 False o1 tr n1
        by (intro exI [of _ "{#}"]) (auto simp: recover_segments_def Let_def count_def [symmetric] text_block_def opt_block_def segs_of_def)
    next
      case (Some a)
      obtain y h2 where a2: "vv_alloc 1024 h1 = (y, h2)" by fastforce
      have o1': "owns h1 (add_mset (Host, a) M)" using o1 Some by simp
      note o2 = vv_alloc_owns [OF o1' a2]
      have n2: "host_never_fails h \<Longrightarrow> host_never_fails h2"
        using a2 n1 by (auto simp: vv_alloc_def host_never_fails_def Let_def split: if_splits)
      show ?thesis
      proof (cases y)
        case None
        then show ?thesis using e a1 a2 False Some o2 tr n2
          by (intro exI [of _ "{#}"]) (auto simp: recover_segments_def Let_def count_def [symmetric] text_block_def opt_block_def
              segs_of_def segs_blocks_def)
      next
        case (Some b)
        obtain segs' b' tx cp h3 where l: "recover_loop F s (a, count, []) (b, [], 1024) h2 = (segs', (b', tx, cp), h3)"
          by (metis prod.collapse)
        have w: "whole nf h2 (a, count, []) (b, [], 1024) M"
          using o2 Some n2 by (auto simp: whole_def segs_blocks_def nf_def add_mset_commute)
        have rm: "room_ok (braces s) (a, count, [])" by (simp add: room_ok_def braces_def count_def)
        from recover_loop_keeps [OF l w rm, of "length s"] len
        obtain lost where lost: "owns h3 (add_mset (Host, b') (segs_blocks segs' + lost + M))" "size lost \<le> 2"
          "nf \<longrightarrow> lost = {#} \<and> host_never_fails h3" by (auto simp: holds_def)
        have out: "(full, tr', h') = (if snd (snd segs') = [] then (None, tr\<lparr>tr_segments := Some segs'\<rparr>, vv_free (Some b') h3)
            else (Some (b', tx), tr\<lparr>tr_segments := Some segs'\<rparr>, h3))"
          using e a1 a2 False \<open>x = Some a\<close> Some l by (simp add: recover_segments_def Let_def count_def [symmetric])
        show ?thesis
        proof (cases "snd (snd segs') = []")
          case True
          then have o: "full = None" "tr' = tr\<lparr>tr_segments := Some segs'\<rparr>" "h' = vv_free (Some b') h3" using out by simp_all
          have "owns h' (segs_blocks segs' + lost + M)" using lost(1) unfolding o(3) by simp
          then show ?thesis using o lost(2,3) by (intro exI [of _ lost]) (simp add: text_block_def opt_block_def segs_of_def nf_def)
        next
          case False
          then have o: "full = Some (b', tx)" "tr' = tr\<lparr>tr_segments := Some segs'\<rparr>" "h' = h3" using out by simp_all
          then show ?thesis using lost by (intro exI [of _ lost]) (simp add: text_block_def opt_block_def segs_of_def nf_def)
        qed
      qed
    qed
  qed
qed

definition item_text :: "'d cjson \<Rightarrow> string" where
  "item_text item = json_body (pick item K_TXT)"

text \<open>What a segment says, and what the object it is read from says.\<close>

definition seg_view :: "segment \<Rightarrow> u32 \<times> u32 \<times> string option \<times> string option" where
  "seg_view sg = (sg_start sg, sg_end sg, map_option snd (sg_speaker sg), map_option snd (sg_text sg))"

definition item_view :: "'d pp_ops \<Rightarrow> 'd cjson \<Rightarrow> u32 \<times> u32 \<times> string option \<times> string option" where
  "item_view F item = (as_float F (pick item K_START) 0, as_float F (pick item K_END) 0,
     Some (json_name F (pick item K_SPK)), Some (item_text item))"

definition item_objects :: "'d cjson list \<Rightarrow> 'd cjson list" where
  "item_objects items = filter (\<lambda>item. cj_is_object (Some item)) items"

fun spaced :: "string \<Rightarrow> string list \<Rightarrow> string" where
  "spaced acc [] = acc"
| "spaced acc (w # ws) = spaced (if w = [] then acc else acc @ (if acc \<noteq> [] then '' '' else []) @ w) ws"

lemma json_items_keeps:
  assumes "json_items F items segs full h = (segs', full', h')" and "whole nf h segs full M" and "room_ok (length items) segs"
    and "length (fst (snd full)) + (\<Sum>item \<leftarrow> items. length (item_text item) + 1) < 2 ^ 61"
  shows "holds nf h' segs' full' M \<and> (nf \<longrightarrow>
    map seg_view (snd (snd segs')) = map seg_view (snd (snd segs)) @ map (item_view F) (item_objects items) \<and>
    fst (snd full') = spaced (fst (snd full)) (map item_text (item_objects items)))"
  using assms
proof (induction F items segs full h rule: json_items.induct)
  case (1 F segs full h)
  then show ?case using whole_holds by (auto simp: item_objects_def)
next
  case (2 F item items segs full h)
  show ?case
  proof (cases "cj_is_object (Some item)")
    case False
    have "room_ok (length items) segs" using 2(5) by (simp add: room_ok_def)
    with 2(1) [OF False _ 2(4)] 2(3,6) False show ?thesis by (simp add: item_objects_def)
  next
    case True
    obtain sp h1 where d1: "dup_cstr (json_name F (pick item K_SPK)) h = (sp, h1)" by fastforce
    obtain wd h2 where d2: "dup_cstr (item_text item) h1 = (wd, h2)" by fastforce
    obtain kept full2 h3 where ad: "add_text (item_text item) full h2 = (kept, full2, h3)" by (rule prod_cases3)
    have room: "room_ok (Suc (length items)) segs" using 2(5) by simp
    have np: "next_place segs h = h" using room by (rule next_place_room)
    have o: "owns h (add_mset (Host, fst full) (segs_blocks segs + M))" and nf: "nf \<longrightarrow> host_never_fails h"
      using 2(4) by (auto simp: whole_def)
    have "length (json_name F (pick item K_SPK)) < 2 ^ 62" by (simp add: json_name_def)
    note r1 = dup_cstr_owns [OF d1 o this]
    have "length (item_text item) < 2 ^ 62" using 2(6) by simp
    note r2 = dup_cstr_owns [OF d2 conjunct1 [OF r1] this]
    let ?sg = "\<lparr>sg_start = as_float F (pick item K_START) 0, sg_end = as_float F (pick item K_END) 0, sg_speaker = sp, sg_text = wd\<rparr>"
    have o2: "owns h2 (text_block sp + text_block wd + add_mset (Host, fst full) (segs_blocks segs + M))"
      using r2 by (simp add: ac_simps)
    have l2: "length (fst (snd full)) + length (item_text item) < 2 ^ 62" using 2(6) by simp
    have nf2: "nf \<longrightarrow> host_never_fails h2" using nf r1 r2 by simp
    note st = segment_step [OF o2 ad l2 nf2, of ?sg, simplified]
    have eq: "json_items F (item # items) segs full h =
        (if \<not> kept then (segs, full2, h3) else json_items F items (keep_segment ?sg segs) full2 h3)"
      using True d1 d2 ad by (simp add: np item_text_def)
    show ?thesis
    proof (cases kept)
      case False
      with st have "\<not> nf" by simp
      with False show ?thesis using st eq 2(3) by auto
    next
      case kept: True
      have j: "json_items F items (keep_segment ?sg segs) full2 h3 = (segs', full', h')" using eq 2(3) kept by simp
      have w: "whole nf h3 (keep_segment ?sg segs) full2 M" using st kept by simp
      have "length (fst (snd full2)) + (\<Sum>item \<leftarrow> items. length (item_text item) + 1) < 2 ^ 61" using st 2(6) kept by auto
      with 2(2) [OF _ refl refl refl refl, unfolded np] j w keep_room [OF room] True d1 d2 ad kept
      have ih: "holds nf h' segs' full' M \<and> (nf \<longrightarrow>
          map seg_view (snd (snd segs')) = map seg_view (snd (snd (keep_segment ?sg segs))) @ map (item_view F) (item_objects items) \<and>
          fst (snd full') = spaced (fst (snd full2)) (map item_text (item_objects items)))" unfolding item_text_def by auto
      have sv: "map seg_view (snd (snd (keep_segment ?sg segs))) = map seg_view (snd (snd segs)) @ [item_view F item]" if nf
      proof -
        have "host_never_fails h" "host_never_fails h1" using that nf r1 by simp_all
        then have "map_option snd sp = Some (json_name F (pick item K_SPK))" "map_option snd wd = Some (item_text item)" using r1 r2 by simp_all
        then show ?thesis by (cases segs) (simp add: keep_segment_def seg_view_def item_view_def)
      qed
      have "item_objects (item # items) = item # item_objects items" using True by (simp add: item_objects_def)
      then show ?thesis using ih sv st kept by auto
    qed
  qed
qed

subsection \<open>The memory of a transcription\<close>

lemma extract_json_owns:
  assumes e: "extract_json s h = (js, h')" and ow: "owns h M" and len: "length s < 2 ^ 60"
  shows "owns h' (text_block js + M) \<and> (host_never_fails h \<longrightarrow> host_never_fails h')"
proof -
  define start where "start = (case strstr s ''```json'' of Some r \<Rightarrow> drop 7 r | None \<Rightarrow> s)"
  define opn where "opn = dropWhile (\<lambda>c. \<not> is_open c) start"
  have st: "strstr u v = Some r \<Longrightarrow> length r \<le> length u" for u v r
    by (induction u v rule: strstr.induct) (auto split: if_splits)
  have "length start \<le> length s" using st by (fastforce simp: start_def split: option.splits)
  then have lo: "length opn \<le> length s" using length_dropWhile_le [of "\<lambda>c. \<not> is_open c" start] by (simp add: opn_def)
  obtain len' depth where sc: "json_scan 0 False False opn = (len', depth)" by fastforce
  define kept where "kept = rev (dropWhile (\<lambda>c. c \<noteq> CHR ''}'') (rev (take len' opn)))"
  have eq: "extract_json s h = (if opn = [] then (None, h) else if depth = 0 then dup_cstr (take len' opn) h
      else if kept = [] then (None, h)
      else (case vv_alloc (of_nat (length kept + 8)) h of (None, h) \<Rightarrow> (None, h)
            | (Some p, h) \<Rightarrow> (Some (p, kept @ (if hd opn = CHR ''['' then '']'' else [])), h)))"
    unfolding extract_json_def start_def [symmetric] Let_def opn_def [symmetric] sc prod.case kept_def by (rule refl)
  consider (none) "opn = []" | (whole) "opn \<noteq> []" "depth = 0" | (empty) "opn \<noteq> []" "depth \<noteq> 0" "kept = []"
    | (cut) "opn \<noteq> []" "depth \<noteq> 0" "kept \<noteq> []" by blast
  then show ?thesis
  proof cases
    case whole
    then have d: "dup_cstr (take len' opn) h = (js, h')" using e eq by simp
    have "length (take len' opn) < 2 ^ 62" using lo len by simp
    from dup_cstr_owns [OF d ow this] show ?thesis by simp
  next
    case cut
    obtain p h1 where a: "vv_alloc (of_nat (length kept + 8)) h = (p, h1)" by fastforce
    from vv_alloc_owns [OF ow a] alloc_keeps_never_fails [OF _ a] e eq a cut show ?thesis
      by (cases p) (auto simp: text_block_def opt_block_def simp del: of_nat_add)
  qed (use e eq ow in \<open>auto simp: text_block_def opt_block_def\<close>)
qed

lemma free_segments_owns:
  "owns h ((\<Sum>sg \<leftarrow> sgs. seg_blocks sg) + M) \<Longrightarrow> owns (fold free_segment sgs h) M"
proof (rule owns_fold [where B = seg_blocks])
  fix sg :: segment and h M
  assume o: "owns h (seg_blocks sg + M)"
  have "owns (vv_free (map_option fst (sg_speaker sg)) h) (text_block (sg_text sg) + M)"
    by (rule owns_free_opt) (use o in \<open>simp add: seg_blocks_def text_block_def add.assoc\<close>)
  then show "owns (free_segment sg h) M" unfolding free_segment_def text_block_def by (rule owns_free_opt)
qed

lemma transcription_free_owns:
  assumes "owns h (tr_blocks tr + M)"
  shows "fst (vv_transcription_free (Some tr) h) = VV_OK \<and> owns (snd (vv_transcription_free (Some tr) h)) M"
proof -
  define h1 where "h1 = (case tr_segments tr of None \<Rightarrow> h | Some (a, _, sgs) \<Rightarrow> vv_free (Some a) (fold free_segment sgs h))"
  have 1: "owns h1 (text_block (tr_full_text tr) + add_mset (Host, tr_ptr tr) M)"
  proof (cases "tr_segments tr")
    case None
    then show ?thesis using assms by (simp add: h1_def tr_blocks_def ac_simps)
  next
    case (Some x)
    obtain a room sgs where x: "x = (a, room, sgs)" by (rule prod_cases3)
    have "owns h ((\<Sum>sg \<leftarrow> sgs. seg_blocks sg) + add_mset (Host, a) (text_block (tr_full_text tr) + add_mset (Host, tr_ptr tr) M))"
      using assms Some x by (simp add: tr_blocks_def segs_blocks_def ac_simps add_mset_commute)
    from free_segments_owns [OF this] show ?thesis by (simp add: h1_def Some x)
  qed
  have "owns (vv_free (map_option fst (tr_full_text tr)) h1) (add_mset (Host, tr_ptr tr) M)"
    by (rule owns_free_opt) (use 1 in \<open>simp only: text_block_def\<close>)
  then show ?thesis by (simp add: vv_transcription_free_def h1_def Let_def)
qed

definition result_ok :: "bool \<Rightarrow> vv_status \<times> transcription option \<times> heap \<Rightarrow> block multiset \<Rightarrow> bool" where
  "result_ok nf result M \<longleftrightarrow>
     (case result of (st, res, h) \<Rightarrow>
        (case res of
           None \<Rightarrow> st = VV_ERR_OUT_OF_MEMORY \<and> owns h M
         | Some tr \<Rightarrow> st = VV_OK \<and> (\<exists>lost. owns h (tr_blocks tr + lost + M) \<and> size lost \<le> 2 \<and> (nf \<longrightarrow> lost = {#}))))"

lemma strstr_len: "strstr u v = Some r \<Longrightarrow> length r \<le> length u"
  by (induction u v rule: strstr.induct) (auto split: if_splits)

lemma skip_framing_len: "length (skip_framing s) \<le> length s"
proof -
  have "length (dropWhile P (drop 21 r)) \<le> length r" for P and r :: string
    using length_dropWhile_le [of P "drop 21 r"] by simp
  then show ?thesis unfolding skip_framing_def
    by (cases "strstr s ''<|im_start|>assistant''") (auto dest: strstr_len intro: le_trans)
qed

lemma transcribe_raw_ok:
  assumes ow: "owns h (add_mset (Host, t) M)" and len: "length s < 2 ^ 28" and nf: "nf \<longrightarrow> host_never_fails h"
  shows "result_ok nf (transcribe_raw F s (fresh_transcription t d) h) M"
proof -
  let ?tr = "fresh_transcription t d"
  obtain full tr1 h4 where rc: "recover_segments F s ?tr h = (full, tr1, h4)" by (rule prod_cases3)
  have "tr_segments ?tr = None" by (simp add: fresh_transcription_def)
  then obtain lost where l: "owns h4 (text_block full + segs_of tr1 + lost + add_mset (Host, t) M)" "size lost \<le> 2"
    "host_never_fails h \<longrightarrow> lost = {#}" "tr1 = ?tr\<lparr>tr_segments := tr_segments tr1\<rparr>"
    using recover_segments_keeps [OF rc ow _ len] by blast
  have trb: "tr_blocks (tr1\<lparr>tr_full_text := v\<rparr>) = add_mset (Host, t) (segs_of tr1 + text_block v)" for v
    by (subst l(4)) (simp add: tr_blocks_def segs_of_def fresh_transcription_def)
  show ?thesis
  proof (cases full)
    case (Some y)
    then show ?thesis using rc l nf
      by (auto simp: transcribe_raw_def result_ok_def trb ac_simps intro!: exI [of _ lost])
  next
    case None
    obtain y h5 where dd: "dup_cstr (skip_framing s) h4 = (y, h5)" by fastforce
    have "length (skip_framing s) < 2 ^ 62" using skip_framing_len [of s] len by simp
    note r5 = dup_cstr_owns [OF dd l(1) this]
    have "owns h5 (tr_blocks (tr1\<lparr>tr_full_text := y\<rparr>) + lost + M)"
      using r5 None by (simp add: trb text_block_def opt_block_def ac_simps)
    then show ?thesis using rc None dd l(2,3) nf by (auto simp: transcribe_raw_def result_ok_def intro!: exI [of _ lost])
  qed
qed

definition answer_fits :: "'d cjson \<Rightarrow> bool" where
  "answer_fits root \<longleftrightarrow> (\<Sum>item \<leftarrow> answer_items root. length (item_text item) + 1) < 2 ^ 58"

text \<open>The segments a tree gives; what they say is stated for a host that does not fail.\<close>

lemma transcribe_json_ok:
  assumes ow: "owns h (add_mset (Host, t) M)" and fits: "answer_fits root" and nf: "nf \<longrightarrow> host_never_fails h"
    and e: "transcribe_json F root (fresh_transcription t d) h = (st, res, h')"
  shows "result_ok nf (st, res, h') M \<and> (nf \<longrightarrow> (\<forall>tr. res = Some tr \<longrightarrow>
    map seg_view (tr_segment_list tr) = map (item_view F) (item_objects (answer_items root)) \<and>
    map_option snd (tr_full_text tr) = Some (spaced [] (map item_text (item_objects (answer_items root)))) \<and> tr_duration tr = d))"
proof -
  define items where "items = answer_items root"
  define room where "room = (if length items > 0 then length items else 1)"
  note eq = e [unfolded transcribe_json_def items_def [symmetric] Let_def room_def [symmetric]]
  obtain y h4 where a2: "vv_alloc (of_nat room * h_sizeof h ''vv_segment_t'') h = (y, h4)" by fastforce
  note o4 = vv_alloc_owns [OF ow a2]
  show ?thesis
  proof (cases y)
    case None
    then have "st = VV_ERR_OUT_OF_MEMORY" "res = None" "h' = vv_free (Some t) h4" using eq a2 by (auto simp: fresh_transcription_def)
    then show ?thesis using o4 None by (simp add: result_ok_def)
  next
    case a: (Some a)
    obtain z h5 where a3: "vv_alloc 1024 h4 = (z, h5)" by fastforce
    have o4': "owns h4 (add_mset (Host, a) (add_mset (Host, t) M))" using o4 a by simp
    note o5 = vv_alloc_owns [OF o4' a3]
    show ?thesis
    proof (cases z)
      case None
      then have "st = VV_ERR_OUT_OF_MEMORY" "res = None" "h' = vv_free (Some t) (vv_free (Some a) h5)"
        using eq a2 a a3 by (auto simp: fresh_transcription_def)
      then show ?thesis using o5 None by (simp add: result_ok_def)
    next
      case b: (Some b)
      obtain segs' b' tx cp h6 where ji: "json_items F items (a, room, []) (b, [], 1024) h5 = (segs', (b', tx, cp), h6)"
        by (metis prod.collapse)
      have w: "whole nf h5 (a, room, []) (b, [], 1024) (add_mset (Host, t) M)"
        using o5 b nf alloc_keeps_never_fails [OF _ a2] alloc_keeps_never_fails [OF _ a3]
        by (auto simp: whole_def segs_blocks_def add_mset_commute)
      have rm: "room_ok (length items) (a, room, [])" by (simp add: room_ok_def room_def)
      have "length (fst (snd (b, [] :: string, 1024 :: nat))) + (\<Sum>item \<leftarrow> items. length (item_text item) + 1) < 2 ^ 61"
        using fits by (simp add: answer_fits_def items_def)
      note r = json_items_keeps [OF ji w rm this]
      obtain lost where l: "owns h6 (add_mset (Host, b') (segs_blocks segs' + lost + add_mset (Host, t) M))" "size lost \<le> 2"
        "nf \<longrightarrow> lost = {#}" using conjunct1 [OF r] by (auto simp: holds_def)
      let ?tr = "(fresh_transcription t d)\<lparr>tr_segments := Some segs', tr_full_text := Some (b', tx)\<rparr>"
      have out: "st = VV_OK" "res = Some ?tr" "h' = h6" using eq a2 a a3 b ji by auto
      have "owns h6 (tr_blocks ?tr + lost + M)" using l(1)
        by (simp add: tr_blocks_def fresh_transcription_def text_block_def opt_block_def ac_simps add_mset_commute)
      moreover have "tr_segment_list ?tr = snd (snd segs')" by (simp add: tr_segment_list_def split: prod.split)
      ultimately show ?thesis using l(2,3) r out
        by (auto simp: result_ok_def items_def fresh_transcription_def intro!: exI [of _ lost])
    qed
  qed
qed

text \<open>
  C38. Whatever the model answered and whichever allocation fails: an error leaves nothing allocated; a result is freed by
  \<^verbatim>\<open>vv_transcription_free\<close> down to the two strings of at most one segment, and those are lost only when memory ran out. No
  segment is written outside its array.
\<close>

theorem postprocess_memory:
  assumes e: "vv_postprocess_text parse F (Some s) True d h = (st, res, h')" and ow: "owns h M"
    and len: "length s < 2 ^ 28" and fits: "\<forall>j root. parse j = Some root \<longrightarrow> answer_fits root"
  shows "case res of
      None \<Rightarrow> st = VV_ERR_OUT_OF_MEMORY \<and> owns h' M
    | Some tr \<Rightarrow> st = VV_OK \<and>
        (\<exists>lost. owns h' (tr_blocks tr + lost + M) \<and> owns (snd (vv_transcription_free (Some tr) h')) (lost + M) \<and>
           size lost \<le> 2 \<and> (host_never_fails h \<longrightarrow> lost = {#}))"
proof -
  have fin: ?thesis if "result_ok (host_never_fails h) (st, res, h') M"
    using that transcription_free_owns [of h'] by (fastforce simp: result_ok_def add.assoc split: option.splits)
  obtain x h1 where a1: "vv_alloc (h_sizeof h ''vv_transcription_t'') h = (x, h1)" by fastforce
  note o1 = vv_alloc_owns [OF ow a1]
  show ?thesis
  proof (cases x)
    case None
    then show ?thesis using e a1 o1 by (auto simp: vv_postprocess_text_def)
  next
    case (Some t)
    have o1': "owns h1 (add_mset (Host, t) M)" using o1 Some by simp
    obtain js h2 where x: "extract_json s h1 = (js, h2)" by fastforce
    have "length s < 2 ^ 60" using len by simp
    note r2 = extract_json_owns [OF x o1' this]
    define root where "root = (case js of None \<Rightarrow> None | Some (_, j) \<Rightarrow> parse j)"
    define h3 where "h3 = vv_free (map_option fst js) h2"
    have o3: "owns h3 (add_mset (Host, t) M)" unfolding h3_def by (rule owns_free_opt) (use r2 in \<open>simp only: text_block_def\<close>)
    have n3: "host_never_fails h \<longrightarrow> host_never_fails h3"
      using alloc_keeps_never_fails [OF _ a1] r2 by (simp add: h3_def)
    note eq = e [unfolded vv_postprocess_text_def option.case not_True_eq_False if_False a1 Some prod.case Let_def
        x root_def [symmetric] h3_def [symmetric]]
    show ?thesis
    proof (cases root)
      case None
      then show ?thesis using fin transcribe_raw_ok [OF o3 len n3, of F d] eq by simp
    next
      case (Some rt)
      then have "answer_fits rt" using fits by (auto simp: root_def split: option.splits)
      from transcribe_json_ok [OF o3 this n3] eq Some fin show ?thesis by auto
    qed
  qed
qed

subsection \<open>A printed answer is found\<close>

text \<open>JSON as a printer writes it: characters below 32, quotes and backslashes escaped; numbers by the printer's own function.\<close>

definition hex_char :: "nat \<Rightarrow> char" where
  "hex_char n = ''0123456789abcdef'' ! n"

definition esc_char :: "char \<Rightarrow> string" where
  "esc_char c =
     (if c = CHR 0x22 \<or> c = CHR 0x5C then [CHR 0x5C, c]
      else if c = CHR 0x0A then [CHR 0x5C, CHR ''n'']
      else if c = CHR 0x09 then [CHR 0x5C, CHR ''t'']
      else if c = CHR 0x0D then [CHR 0x5C, CHR ''r'']
      else if (of_char c :: nat) < 32 then
        [CHR 0x5C, CHR ''u'', CHR ''0'', CHR ''0'', hex_char (of_char c div 16), hex_char (of_char c mod 16)]
      else [c])"

definition quoted :: "string \<Rightarrow> string" where
  "quoted s = CHR 0x22 # concat (map esc_char s) @ [CHR 0x22]"

fun json_commas :: "string list \<Rightarrow> string" where
  "json_commas [] = []"
| "json_commas [s] = s"
| "json_commas (s # t # ts) = s @ '','' @ json_commas (t # ts)"

fun json_text :: "('d \<Rightarrow> string) \<Rightarrow> 'd cjson \<Rightarrow> string" where
  "json_text num CNull = ''null''"
| "json_text num (CBool b) = (if b then ''true'' else ''false'')"
| "json_text num (CNumber d) = num d"
| "json_text num (CString s) = quoted s"
| "json_text num (CArray xs) = ''['' @ json_commas (map (json_text num) xs) @ '']''"
| "json_text num (CObject kvs) = ''{'' @ json_commas (map (\<lambda>kv. quoted (fst kv) @ '':'' @ json_text num (snd kv)) kvs) @ ''}''"

text \<open>\<open>passes s\<close>: inside an open bracket the scan goes over \<open>s\<close> and comes out as it went in.\<close>

definition passes :: "string \<Rightarrow> bool" where
  "passes s \<longleftrightarrow> (\<forall>d r. 1 \<le> d \<longrightarrow> json_scan d False False (s @ r) = map_prod ((+) (length s)) id (json_scan d False False r))"

definition plain_char :: "char \<Rightarrow> bool" where
  "plain_char c \<longleftrightarrow> c \<notin> {CHR 0x22, CHR 0x5C, CHR ''['', CHR '']'', CHR ''{'', CHR ''}''}"

lemma passes_Nil: "passes []"
  by (simp add: passes_def map_prod_def prod_eq_iff split: prod.splits)

lemma passes_append: "passes s \<Longrightarrow> passes t \<Longrightarrow> passes (s @ t)"
  by (simp add: passes_def map_prod_def split: prod.splits)

lemma passes_plain: "list_all plain_char s \<Longrightarrow> passes s"
proof (induction s)
  case Nil
  show ?case by (rule passes_Nil)
next
  case (Cons c s)
  have "passes [c]" using Cons.prems by (auto simp: passes_def plain_char_def map_prod_def split: prod.splits)
  from passes_append [OF this] Cons show ?case by simp
qed

text \<open>Inside a string nothing but its end counts.\<close>

lemma scan_escaped:
  "json_scan d True False (esc_char c @ r) = map_prod ((+) (length (esc_char c))) id (json_scan d True False r)"
proof -
  have hc: "hex_char n \<noteq> CHR 0x22 \<and> hex_char n \<noteq> CHR 0x5C" if "n < 16" for n
  proof -
    have "n \<in> set [0..<16]" using that by simp
    then show ?thesis by (auto simp: hex_char_def upt_rec)
  qed
  have d: "(of_char c :: nat) < 32 \<Longrightarrow> (of_char c :: nat) div 16 < 16" and m: "(of_char c :: nat) mod 16 < 16" by simp_all
  show ?thesis
  proof (cases "(of_char c :: nat) < 32")
    case True
    with hc [OF d] hc [OF m] show ?thesis by (auto simp: esc_char_def prod_eq_iff)
  next
    case False
    then show ?thesis by (auto simp: esc_char_def prod_eq_iff)
  qed
qed

lemma scan_string:
  "json_scan d True False (concat (map esc_char s) @ CHR 0x22 # r) =
   map_prod ((+) (length (concat (map esc_char s)) + 1)) id (json_scan d False False r)"
proof (induction s)
  case Nil
  then show ?case by (simp add: prod_eq_iff)
next
  case (Cons c s)
  then show ?case by (simp add: scan_escaped prod_eq_iff)
qed

lemma passes_quoted: "passes (quoted s)"
  by (simp add: passes_def quoted_def scan_string prod_eq_iff)

lemma passes_json_commas: "(\<And>s. s \<in> set ss \<Longrightarrow> passes s) \<Longrightarrow> passes (json_commas ss)"
proof (induction ss rule: json_commas.induct)
  case (3 s t ts)
  have "passes '',''" by (rule passes_plain) (simp add: plain_char_def)
  with 3 show ?case by (auto intro!: passes_append simp del: append_Cons append.simps(2))
qed (auto intro: passes_Nil)

lemma scan_open:
  "c = CHR ''['' \<or> c = CHR ''{'' \<Longrightarrow> json_scan d False False (c # r) = map_prod Suc id (json_scan (d + 1) False False r)"
  by auto

lemma scan_close:
  "c = CHR '']'' \<or> c = CHR ''}'' \<Longrightarrow> json_scan d False False (c # r) =
     (if d = 1 then (1, 0) else map_prod Suc id (json_scan (d - 1) False False r))"
  by auto

lemma scan_nest:
  assumes "passes s" and "opn = CHR ''['' \<or> opn = CHR ''{''" and "cls = CHR '']'' \<or> cls = CHR ''}''" and "0 \<le> d"
  shows "json_scan d False False (opn # s @ cls # r) =
    (if d = 0 then (length s + 2, 0) else map_prod ((+) (length s + 2)) id (json_scan d False False r))"
proof -
  have "json_scan (d + 1) False False (s @ cls # r) = map_prod ((+) (length s)) id (json_scan (d + 1) False False (cls # r))"
    using assms(1,4) by (simp add: passes_def)
  then show ?thesis using assms by (simp only: scan_open [OF assms(2)] scan_close [OF assms(3)]) (auto simp: prod_eq_iff)
qed

lemma passes_nest: "passes s \<Longrightarrow> opn = CHR ''['' \<or> opn = CHR ''{'' \<Longrightarrow> cls = CHR '']'' \<or> cls = CHR ''}'' \<Longrightarrow> passes (opn # s @ [cls])"
  unfolding passes_def [of "opn # s @ [cls]"] by (auto simp del: json_scan.simps simp add: scan_nest)

lemma passes_json: "\<forall>x. list_all plain_char (num x) \<Longrightarrow> passes (json_text num v)"
proof (induction num v rule: json_text.induct)
  case (5 num xs)
  have "passes (json_commas (map (json_text num) xs))" using 5 by (intro passes_json_commas) auto
  from passes_nest [OF this, of "CHR ''[''" "CHR '']''"] show ?case by simp
next
  case (6 num kvs)
  have c: "passes '':''" by (rule passes_plain) (simp add: plain_char_def)
  have "passes (json_commas (map (\<lambda>kv. quoted (fst kv) @ '':'' @ json_text num (snd kv)) kvs))"
    using 6 c passes_quoted by (intro passes_json_commas) (auto intro!: passes_append simp del: append_Cons append.simps(2))
  from passes_nest [OF this, of "CHR ''{''" "CHR ''}''"] show ?case by simp
qed (auto intro: passes_plain passes_quoted simp: plain_char_def)

definition answer_value :: "'d cjson \<Rightarrow> bool" where
  "answer_value v \<longleftrightarrow> cj_is_array (Some v) \<or> cj_is_object (Some v)"

lemma scan_answer:
  assumes "answer_value v" and "\<forall>x. list_all plain_char (num x)"
  shows "json_scan 0 False False (json_text num v @ r) = (length (json_text num v), 0) \<and>
    json_text num v \<noteq> [] \<and> is_open (hd (json_text num v))"
proof (cases v)
  case (CArray xs)
  have "passes (json_commas (map (json_text num) xs))" using passes_json [OF assms(2)] by (intro passes_json_commas) auto
  from scan_nest [OF this, of "CHR ''[''" "CHR '']''" 0 r] show ?thesis by (simp add: CArray is_open_def)
next
  case (CObject kvs)
  have c: "passes '':''" by (rule passes_plain) (simp add: plain_char_def)
  have "passes (json_commas (map (\<lambda>kv. quoted (fst kv) @ '':'' @ json_text num (snd kv)) kvs))"
    using passes_json [OF assms(2)] c passes_quoted
    by (intro passes_json_commas) (auto intro!: passes_append simp del: append_Cons append.simps(2))
  from scan_nest [OF this, of "CHR ''{''" "CHR ''}''" 0 r] show ?thesis by (simp add: CObject is_open_def)
qed (use assms(1) in \<open>simp_all add: answer_value_def\<close>)

text \<open>An answer: words, perhaps the start of a fenced block, the JSON, and whatever follows.\<close>

definition answer_text :: "string option \<Rightarrow> string \<Rightarrow> string \<Rightarrow> string \<Rightarrow> string" where
  "answer_text fence lead js tail = (case fence of Some w \<Rightarrow> w @ ''```json'' | None \<Rightarrow> []) @ lead @ js @ tail"

definition answer_ok :: "string option \<Rightarrow> string \<Rightarrow> string \<Rightarrow> string \<Rightarrow> bool" where
  "answer_ok fence lead js tail \<longleftrightarrow> list_all (\<lambda>c. \<not> is_open c) lead \<and>
     (case fence of Some w \<Rightarrow> CHR 0x60 \<notin> set w | None \<Rightarrow> strstr (lead @ js @ tail) ''```json'' = None)"

lemma strstr_fence: "CHR 0x60 \<notin> set w \<Longrightarrow> strstr (w @ ''```json'' @ r) ''```json'' = Some (''```json'' @ r)"
  by (induction w) auto

lemma extract_json_answer:
  assumes "answer_value v" and "\<forall>x. list_all plain_char (num x)" and "answer_ok fence lead (json_text num v) tail"
  shows "extract_json (answer_text fence lead (json_text num v) tail) h = dup_cstr (json_text num v) h"
proof -
  let ?j = "json_text num v"
  have start: "(case strstr (answer_text fence lead ?j tail) ''```json'' of
      Some r \<Rightarrow> drop 7 r | None \<Rightarrow> answer_text fence lead ?j tail) = lead @ ?j @ tail"
  proof (cases fence)
    case None
    then show ?thesis using assms(3) by (simp add: answer_ok_def answer_text_def)
  next
    case (Some w)
    then have "CHR 0x60 \<notin> set w" using assms(3) by (simp add: answer_ok_def)
    from strstr_fence [OF this, of "lead @ ?j @ tail"] Some show ?thesis by (simp add: answer_text_def)
  qed
  note sc = scan_answer [OF assms(1,2), of tail]
  have ld: "dropWhile (\<lambda>c. \<not> is_open c) (lead @ r) = dropWhile (\<lambda>c. \<not> is_open c) r" for r
    using assms(3) by (intro dropWhile_append2) (auto simp: answer_ok_def list_all_iff)
  have "dropWhile (\<lambda>c. \<not> is_open c) (lead @ ?j @ tail) = ?j @ tail"
    unfolding ld using sc by (cases ?j) auto
  with start sc show ?thesis unfolding extract_json_def Let_def start by simp
qed

subsection \<open>A printed answer becomes its transcription\<close>

fun join_words :: "string list \<Rightarrow> string" where
  "join_words [] = []"
| "join_words [w] = w"
| "join_words (w # v # ws) = w @ '' '' @ join_words (v # ws)"

lemma join_words_snoc: "join_words (us @ [w]) = (if us = [] then w else join_words us @ '' '' @ w)"
  by (induction us rule: join_words.induct) auto

lemma join_words_nonempty: "us \<noteq> [] \<Longrightarrow> \<forall>u \<in> set us. u \<noteq> [] \<Longrightarrow> join_words us \<noteq> []"
  by (cases us rule: join_words.cases) auto

lemma spaced_join:
  "\<forall>u \<in> set us. u \<noteq> [] \<Longrightarrow> spaced (join_words us) ws = join_words (us @ filter (\<lambda>w. w \<noteq> []) ws)"
proof (induction ws arbitrary: us)
  case Nil
  then show ?case by simp
next
  case (Cons w ws)
  show ?case
  proof (cases "w = []")
    case True
    then show ?thesis using Cons by simp
  next
    case False
    have "join_words us @ (if join_words us \<noteq> [] then '' '' else []) @ w = join_words (us @ [w])"
      using join_words_nonempty [of us] Cons.prems by (cases "us = []") (auto simp: join_words_snoc)
    with Cons.IH [of "us @ [w]"] Cons.prems False show ?thesis by simp
  qed
qed

lemma dup_cstr_sizeof: "dup_cstr s h = (x, h') \<Longrightarrow> h_sizeof h' = h_sizeof h"
  by (auto simp: dup_cstr_def alloc_sizeof split: prod.splits)

lemma transcribe_json_succeeds:
  assumes "transcribe_json F v tr h = (st, res, h')" and "host_never_fails h" and "h_sizeof h ''vv_segment_t'' = 24"
    and "length (answer_items v) < 2 ^ 58"
  shows "st = VV_OK \<and> res \<noteq> None"
proof -
  define room where "room = (if length (answer_items v) > 0 then length (answer_items v) else 1)"
  have "(of_nat (room * 24) :: u64) \<noteq> 0" using assms(4) by (intro of_nat_neq_0) (auto simp: room_def)
  then have nz: "of_nat room * h_sizeof h ''vv_segment_t'' \<noteq> 0" by (simp add: assms(3))
  obtain a h4 where a2: "vv_alloc (of_nat room * h_sizeof h ''vv_segment_t'') h = (Some a, h4)" and n4: "host_never_fails h4"
    by (rule vv_alloc_succeeds [OF assms(2) nz])
  obtain b h5 where a3: "vv_alloc 1024 h4 = (Some b, h5)" by (rule vv_alloc_succeeds [OF n4, of 1024]) simp_all
  show ?thesis using assms(1) unfolding transcribe_json_def Let_def room_def [symmetric] a2 prod.case option.case a3
    by (auto split: prod.splits)
qed

text \<open>
  C16. An answer in the form asked for, a printed array or object with words around it or in a fenced block, gives one segment
  per object, in order, with its times, its speaker's name cut to 63 characters and its text; the full text is the
  texts that are not empty with a space between two. The parser only has to give back what was printed.
\<close>

theorem postprocess_reads_answer:
  assumes ow: "owns h M" and nf: "host_never_fails h"
    and sz: "h_sizeof h ''vv_transcription_t'' \<noteq> 0" "h_sizeof h ''vv_segment_t'' = 24"
    and v: "answer_value v" "\<forall>x. list_all plain_char (num x)" "answer_ok fence lead (json_text num v) tail"
    and len: "length (json_text num v) < 2 ^ 60" and p: "parse (json_text num v) = Some v" and fits: "answer_fits v"
  shows "\<exists>tr h'. vv_postprocess_text parse F (Some (answer_text fence lead (json_text num v) tail)) True d h = (VV_OK, Some tr, h') \<and>
    map seg_view (tr_segment_list tr) = map (item_view F) (item_objects (answer_items v)) \<and>
    map_option snd (tr_full_text tr) =
      Some (join_words (filter (\<lambda>w. w \<noteq> []) (map item_text (item_objects (answer_items v))))) \<and>
    tr_duration tr = d"
proof -
  let ?s = "answer_text fence lead (json_text num v) tail"
  obtain t h1 where a1: "vv_alloc (h_sizeof h ''vv_transcription_t'') h = (Some t, h1)" and n1: "host_never_fails h1"
    by (rule vv_alloc_succeeds [OF nf sz(1)])
  have o1: "owns h1 (add_mset (Host, t) M)" using vv_alloc_owns [OF ow a1] by simp
  obtain js h2 where x: "extract_json ?s h1 = (js, h2)" by fastforce
  have dd: "dup_cstr (json_text num v) h1 = (js, h2)" using x extract_json_answer [OF v] by simp
  have "length (json_text num v) < 2 ^ 62" using len by simp
  note r2 = dup_cstr_owns [OF dd o1 this]
  obtain jb where js: "js = Some (jb, json_text num v)" using r2 n1 by (cases js) auto
  define h3 where "h3 = vv_free (Some jb) h2"
  have o3: "owns h3 (add_mset (Host, t) M)" using r2 unfolding h3_def js by (simp add: text_block_def opt_block_def)
  have n3: "host_never_fails h3" using r2 n1 by (simp add: h3_def)
  have li: "length (answer_items v) < 2 ^ 58"
  proof -
    have "length items \<le> (\<Sum>item \<leftarrow> items. length (item_text item) + 1)" for items :: "'a cjson list" by (induction items) auto
    then show ?thesis using fits by (auto simp: answer_fits_def intro: le_less_trans)
  qed
  have sz3: "h_sizeof h3 ''vv_segment_t'' = 24"
    using sz(2) alloc_sizeof [OF a1] dup_cstr_sizeof [OF dd] by (simp add: h3_def)
  obtain st res h' where j: "transcribe_json F v (fresh_transcription t d) h3 = (st, res, h')" by (rule prod_cases3)
  have out: "vv_postprocess_text parse F (Some ?s) True d h = (st, res, h')"
    using a1 x js p j by (simp add: vv_postprocess_text_def h3_def)
  have "st = VV_OK \<and> res \<noteq> None" by (rule transcribe_json_succeeds [OF j n3 sz3 li])
  with transcribe_json_ok [OF o3 fits _ j, of True] n3 out spaced_join [of "[]" "map item_text (item_objects (answer_items v))"]
  show ?thesis by auto
qed

definition pp_demo_ops :: "nat pp_ops" where
  "pp_demo_ops = \<lparr>no_int = int, no_float = of_nat, po_atof = (\<lambda>_. 0), po_double = unat\<rparr>"

definition demo_answer :: "nat cjson" where
  "demo_answer = CArray [CObject [(''Start'', CNumber 0), (''End'', CNumber 7), (''Speaker'', CNumber 1), (''Content'', CString ''Hi ]'')],
     CNull, CObject [(''Content'', CString [])], CObject [(''Speaker'', CString ''Bo''), (''Content'', CString ''there'')]]"

definition demo_num :: "nat \<Rightarrow> string" where
  "demo_num n = replicate n (CHR ''1'')"

theorem postprocess_reads_answer_witness:
  "\<exists>tr h'. vv_postprocess_text (\<lambda>_. Some demo_answer) pp_demo_ops
       (Some (answer_text None ''Sure: '' (json_text demo_num demo_answer) ''.'')) True 5 (demo_heap\<lparr>h_sizeof := \<lambda>s. if s = ''vv_segment_t'' then 24 else 40\<rparr>) = (VV_OK, Some tr, h') \<and>
     map seg_view (tr_segment_list tr) =
       [(0, 7, Some ''Speaker 1'', Some ''Hi ]''), (0, 0, Some ''Speaker 0'', Some []), (0, 0, Some ''Bo'', Some ''there'')] \<and>
     map_option snd (tr_full_text tr) = Some ''Hi ] there''"
proof -
  have o: "owns (demo_heap\<lparr>h_sizeof := \<lambda>s. if s = ''vv_segment_t'' then 24 else 40\<rparr>) {#}" "host_never_fails (demo_heap\<lparr>h_sizeof := \<lambda>s. if s = ''vv_segment_t'' then 24 else 40\<rparr>)"
    by (simp_all add: owns_def demo_heap_def host_never_fails_def)
  have n: "\<forall>x. list_all plain_char (demo_num x)" by (simp add: demo_num_def plain_char_def list_all_iff)
  have a1: "answer_value demo_answer" "answer_ok None ''Sure: '' (json_text demo_num demo_answer) ''.''"
    "length (json_text demo_num demo_answer) < 300" "(\<Sum>item \<leftarrow> answer_items demo_answer. length (item_text item) + 1) < 300"
    by code_simp+
  have a: "answer_value demo_answer" "answer_ok None ''Sure: '' (json_text demo_num demo_answer) ''.''"
    "length (json_text demo_num demo_answer) < 2 ^ 60" "answer_fits demo_answer"
    unfolding answer_fits_def using a1 by (blast, blast, simp_all)
  have e: "map (item_view pp_demo_ops) (item_objects (answer_items demo_answer)) =
      [(0, 7, Some ''Speaker 1'', Some ''Hi ]''), (0, 0, Some ''Speaker 0'', Some []), (0, 0, Some ''Bo'', Some ''there'')]"
    "join_words (filter (\<lambda>w. w \<noteq> []) (map item_text (item_objects (answer_items demo_answer)))) = ''Hi ] there''"
    by code_simp+
  have sz: "h_sizeof (demo_heap\<lparr>h_sizeof := \<lambda>s. if s = ''vv_segment_t'' then 24 else 40\<rparr>) ''vv_transcription_t'' \<noteq> 0"
    "h_sizeof (demo_heap\<lparr>h_sizeof := \<lambda>s. if s = ''vv_segment_t'' then 24 else 40\<rparr>) ''vv_segment_t'' = 24" by simp_all
  have p: "(\<lambda>_. Some demo_answer) (json_text demo_num demo_answer) = Some demo_answer" by (rule refl)
  from postprocess_reads_answer [OF o sz a(1) n a(2,3) p a(4), where F = pp_demo_ops and d = 5, unfolded e]
  show ?thesis by (elim exE conjE) (intro exI conjI; assumption)
qed

subsection \<open>An escaped string is read back\<close>

lemma hex_value_char: "n < 16 \<Longrightarrow> hex_value (hex_char n) = of_nat n"
proof -
  have "list_all (\<lambda>n. hex_value (hex_char n) = of_nat n) [0..<16]" by code_simp
  then show "n < 16 \<Longrightarrow> hex_value (hex_char n) = of_nat n" by (simp add: list_all_iff)
qed

lemma hex4_four:
  "hex4 4 v (a # b # c # d # r) = ((((v * 16 + hex_value a) * 16 + hex_value b) * 16 + hex_value c) * 16 + hex_value d, r)"
proof -
  have "4 = Suc (Suc (Suc (Suc 0)))" by simp
  then show ?thesis by (simp only: hex4.simps)
qed

lemma esc_char_step: "\<exists>x xs. esc_char c = x # xs \<and> x \<noteq> CHR 0x22 \<and> (\<forall>r. json_char x (xs @ r) = (c, r))"
proof (cases "c \<noteq> CHR 0x22 \<and> c \<noteq> CHR 0x5C \<and> c \<noteq> CHR 0x0A \<and> c \<noteq> CHR 0x09 \<and> c \<noteq> CHR 0x0D \<and> (of_char c :: nat) < 32")
  case True
  let ?n = "of_char c :: nat"
  have h: "hex_value (hex_char (?n div 16)) = of_nat (?n div 16)" "hex_value (hex_char (?n mod 16)) = of_nat (?n mod 16)"
    using True by (simp_all add: hex_value_char less_mult_imp_div_less)
  have z: "hex_value (CHR ''0'') = 0" using hex_value_char [of 0] by (simp add: hex_char_def)
  have "(of_nat (?n div 16) * 16 + of_nat (?n mod 16) :: u32) = of_nat ?n"
    by (metis div_mult_mod_eq of_nat_add of_nat_mult of_nat_numeral)
  moreover have "char_of (unat ((of_nat ?n :: u32) AND 0xFF)) = c"
  proof -
    have "(of_nat ?n :: u32) AND 0xFF = take_bit 8 (of_nat ?n)" by (simp add: take_bit_eq_mask mask_eq_exp_minus_1)
    moreover have "unat (of_nat ?n :: u32) = ?n" unfolding unsigned_of_nat of_nat_id using True by (intro take_bit_nat_eq_self) simp
    then have "unat (take_bit 8 (of_nat ?n :: u32)) = take_bit 8 ?n" by (simp only: unsigned_take_bit_eq)
    moreover have "take_bit 8 ?n = ?n" using True by (intro take_bit_nat_eq_self) simp
    ultimately show ?thesis by simp
  qed
  ultimately have "json_char (CHR 0x5C) ([CHR ''u'', CHR ''0'', CHR ''0'', hex_char (?n div 16), hex_char (?n mod 16)] @ r) = (c, r)" for r
    by (simp add: json_char_def hex4_four h z)
  moreover have "esc_char c = CHR 0x5C # [CHR ''u'', CHR ''0'', CHR ''0'', hex_char (?n div 16), hex_char (?n mod 16)]"
    using True by (simp add: esc_char_def)
  ultimately show ?thesis by blast
next
  case False
  then show ?thesis by (auto simp: esc_char_def json_char_def)
qed

lemma json_str_loop_quoted:
  assumes "host_never_fails h" and "owns h (add_mset (Host, a) M)" and "0 < cap" "cap \<le> 2 * length out + 128"
    and "length out + length s < 2 ^ 58"
  shows "\<exists>b h'. json_str_loop (concat (map esc_char s) @ CHR 0x22 # r) a out cap h = (Some (b, out @ s, r), h')"
  using assms
proof (induction s arbitrary: a out cap h)
  case Nil
  then show ?case by (simp add: json_str_loop.simps)
next
  case (Cons c s)
  obtain x xs where x: "esc_char c = x # xs" "x \<noteq> CHR 0x22" "\<And>r. json_char x (xs @ r) = (c, r)" using esc_char_step by metis
  let ?p = "concat (map esc_char s) @ CHR 0x22 # r"
  have unf: "json_str_loop (concat (map esc_char (c # s)) @ CHR 0x22 # r) a out cap h =
      (if length out + 2 > cap then
         (case vv_realloc (Some a) (of_nat (cap * 2)) h of
            (None, h) \<Rightarrow> (None, vv_free (Some a) h) | (Some b, h) \<Rightarrow> json_str_loop ?p b (out @ [c]) (cap * 2) h)
       else json_str_loop ?p a (out @ [c]) cap h)"
    using x by (simp add: json_str_loop.simps [of "x # xs @ ?p"])
  show ?case
  proof (cases "length out + 2 > cap")
    case False
    from Cons.IH [OF Cons.prems(1,2,3), of "out @ [c]"] Cons.prems(4,5) False show ?thesis unfolding unf by simp
  next
    case True
    obtain q h1 where re: "vv_realloc (Some a) (of_nat (cap * 2)) h = (q, h1)" by fastforce
    have "cap * 2 < 2 ^ 64" using Cons.prems(4,5) by simp
    then have nz: "(of_nat (cap * 2) :: u64) \<noteq> 0" using Cons.prems(3) by (intro of_nat_neq_0) auto
    have o: "owns h (opt_block Host (Some a) + M)" using Cons.prems(2) by (simp add: opt_block_def)
    from vv_realloc_owns [OF o nz re] Cons.prems(1) obtain b where b: "q = Some b" "owns h1 (add_mset (Host, b) M)" "host_never_fails h1"
      by (cases q) (auto simp: opt_block_def)
    have "0 < cap * 2" "cap * 2 \<le> 2 * length (out @ [c]) + 128" "length (out @ [c]) + length s < 2 ^ 58"
      using Cons.prems(3-5) True by auto
    from Cons.IH [OF b(3,2) this] show ?thesis unfolding unf using True re b(1) by simp
  qed
qed

text \<open>
  A string as a JSON printer writes it, whatever bytes it has, is read back exactly, and reading stops behind its closing quote.
\<close>

theorem json_string_roundtrip:
  assumes "host_never_fails h" and "owns h M" and "length s < 2 ^ 58"
  shows "\<exists>a h'. read_json_string (quoted s @ r) h = (Some (a, s), r, h')"
proof -
  obtain a h1 where va: "vv_alloc 128 h = (Some a, h1)" and n1: "host_never_fails h1"
    by (rule vv_alloc_succeeds [OF assms(1), of 128]) simp_all
  have o: "owns h1 (add_mset (Host, a) M)" using vv_alloc_owns [OF assms(2) va] by simp
  obtain b h' where l: "json_str_loop (concat (map esc_char s) @ CHR 0x22 # r) a [] 128 h1 = (Some (b, [] @ s, r), h')"
    using json_str_loop_quoted [OF n1 o, of 128 "[]" s r] assms(3) by auto
  then show ?thesis using va by (simp add: read_json_string_def quoted_def)
qed

theorem json_string_roundtrip_witness:
  "\<exists>a h'. read_json_string (quoted [CHR ''a'', CHR 0x22, CHR 0x0A, CHR 0x01] @ '',...'') demo_heap =
     (Some (a, [CHR ''a'', CHR 0x22, CHR 0x0A, CHR 0x01]), '',...'', h')"
  by (rule json_string_roundtrip [OF demo_heap_host demo_heap_owns]) simp

theorem postprocess_memory_witness:
  "case vv_postprocess_text (\<lambda>_. None) pp_demo_ops (Some ''[{Content:'') True 5 demo_heap of
      (st, None, h') \<Rightarrow> st = VV_ERR_OUT_OF_MEMORY \<and> owns h' {#}
    | (st, Some tr, h') \<Rightarrow> st = VV_OK \<and> owns h' (tr_blocks tr) \<and> owns (snd (vv_transcription_free (Some tr) h')) {#}"
proof -
  obtain st res h' where e: "vv_postprocess_text (\<lambda>_. None) pp_demo_ops (Some ''[{Content:'') True 5 demo_heap = (st, res, h')"
    by (rule prod_cases3)
  have l: "length ''[{Content:'' < 2 ^ 28" by simp
  have f: "\<forall>j root. (\<lambda>_ :: string. None :: nat cjson option) j = Some root \<longrightarrow> answer_fits root" by simp
  from postprocess_memory [OF e demo_heap_owns l f] demo_heap_host show ?thesis unfolding e by (auto split: option.splits)
qed

end
