(* ===== verification/Sampling.thy ===== *)
theory Sampling
  imports Half Heap
begin

text \<open>
  Token sampling (\<^verbatim>\<open>src/inference/sampling.c\<close>) on the bit patterns of the logits. Comparing two floats is the order of
  IEEE 754 on those patterns (\<open>f32_lt\<close>, \<open>f32_le\<close>: false for a NaN, the two zeros equal), so the selection is exact; the
  arithmetic of the softmax is a parameter (\<open>sample_ops\<close>), about which no theorem assumes anything. An array is a list
  updated by index.
\<close>

unbundle bit_operations_syntax

subsection \<open>Comparing floats\<close>

definition f32_nan :: "u32 \<Rightarrow> bool" where
  "f32_nan x \<longleftrightarrow> x AND 0x7FFFFFFF > 0x7F800000"

definition f32_key :: "u32 \<Rightarrow> int" where
  "f32_key x = (if x AND 0x80000000 = 0 then uint (x AND 0x7FFFFFFF) else - uint (x AND 0x7FFFFFFF))"

definition f32_lt :: "u32 \<Rightarrow> u32 \<Rightarrow> bool" where
  "f32_lt a b \<longleftrightarrow> \<not> f32_nan a \<and> \<not> f32_nan b \<and> f32_key a < f32_key b"

definition f32_le :: "u32 \<Rightarrow> u32 \<Rightarrow> bool" where
  "f32_le a b \<longleftrightarrow> \<not> f32_nan a \<and> \<not> f32_nan b \<and> f32_key a \<le> f32_key b"

definition neg_FLT_MAX :: u32 where "neg_FLT_MAX = 0xFF7FFFFF"

record sample_ops =
  so_add :: "u32 \<Rightarrow> u32 \<Rightarrow> u32"
  so_sub :: "u32 \<Rightarrow> u32 \<Rightarrow> u32"
  so_mul :: "u32 \<Rightarrow> u32 \<Rightarrow> u32"
  so_div :: "u32 \<Rightarrow> u32 \<Rightarrow> u32"
  so_expf :: "u32 \<Rightarrow> u32"
  so_of_u64 :: "u64 \<Rightarrow> u32"

subsection \<open>Half precision logits\<close>

text \<open>
  The loop over \<open>exp\<close> and \<open>mant\<close>; \<open>exp\<close> wraps below zero. It is partial: a zero \<open>mant\<close>, which the caller excludes,
  would never leave it.
\<close>

partial_function (option) approx_loop :: "u32 \<Rightarrow> u32 \<Rightarrow> (u32 \<times> u32) option" where
  "approx_loop exp mant =
     (if mant AND 0x400 = 0 then approx_loop (exp - 1) (push_bit 1 mant) else Some (exp, mant))"

definition half_to_float_approx :: "u16 \<Rightarrow> u32 option" where
  "half_to_float_approx h =
     (let sign = push_bit 31 (ucast (drop_bit 15 h)); exp = ucast (drop_bit 10 h) AND 0x1F; mant = ucast h AND 0x3FF;
          normal = (\<lambda>exp mant. Some (sign OR push_bit 23 (exp + (127 - 15)) OR push_bit 13 mant)) in
      if exp = 0 then
        if mant = 0 then Some sign
        else
          (case approx_loop exp mant of
             None \<Rightarrow> None
           | Some (exp, mant) \<Rightarrow> normal (exp + 1) (mant AND 0x3FF))
      else if exp = 31 then Some (sign OR 0x7F800000 OR push_bit 13 mant)
      else normal exp mant)"

text \<open>The scan of \<^verbatim>\<open>vv_sample_greedy\<close>: the best value and its index, from index \<open>i\<close> on.\<close>

fun greedy_scan :: "u16 list \<Rightarrow> int \<Rightarrow> u32 \<Rightarrow> int \<Rightarrow> int option" where
  "greedy_scan [] i max_val max_idx = Some max_idx"
| "greedy_scan (l # ls) i max_val max_idx =
     (case half_to_float_approx l of
        None \<Rightarrow> None
      | Some v \<Rightarrow> if f32_lt max_val v then greedy_scan ls (i + 1) v i else greedy_scan ls (i + 1) max_val max_idx)"

text \<open>The status and the token; \<open>vocab_size\<close> is the length of the list. \<open>None\<close> is a loop that does not end.\<close>

definition vv_sample_greedy :: "u16 list option \<Rightarrow> (vv_status \<times> int option) option" where
  "vv_sample_greedy logits =
     (case logits of
        None \<Rightarrow> Some (VV_ERR_NULL_PTR, None)
      | Some ls \<Rightarrow> map_option (\<lambda>t. (VV_OK, Some t)) (greedy_scan ls 0 neg_FLT_MAX 0))"

text \<open>The insertion into the descending arrays, from position \<open>pos\<close> downwards.\<close>

primrec topk_place :: "nat \<Rightarrow> u32 \<Rightarrow> int \<Rightarrow> u32 list \<Rightarrow> int list \<Rightarrow> u32 list \<times> int list" where
  "topk_place 0 v i vals ids = (vals[0 := v], ids[0 := i])"
| "topk_place (Suc pos) v i vals ids =
     (if f32_lt (vals ! pos) v then topk_place pos v i (vals[Suc pos := vals ! pos]) (ids[Suc pos := ids ! pos])
      else (vals[Suc pos := v], ids[Suc pos := i]))"

fun topk_scan :: "nat \<Rightarrow> u16 list \<Rightarrow> int \<Rightarrow> u32 list \<Rightarrow> int list \<Rightarrow> (u32 list \<times> int list) option" where
  "topk_scan k [] i vals ids = Some (vals, ids)"
| "topk_scan k (l # ls) i vals ids =
     (case half_to_float_approx l of
        None \<Rightarrow> None
      | Some v \<Rightarrow>
          if f32_lt (vals ! (k - 1)) v
          then (case topk_place (k - 1) v i vals ids of (vals, ids) \<Rightarrow> topk_scan k ls (i + 1) vals ids)
          else topk_scan k ls (i + 1) vals ids)"

text \<open>The first candidate at which the running sum reaches \<open>r\<close>.\<close>

fun pick_cumulative :: "sample_ops \<Rightarrow> u32 \<Rightarrow> u32 \<Rightarrow> (u32 \<times> int) list \<Rightarrow> int \<Rightarrow> int" where
  "pick_cumulative A r acc [] fallback = fallback"
| "pick_cumulative A r acc ((p, i) # cs) fallback =
     (let acc = so_add A acc p in if f32_le r acc then i else pick_cumulative A r acc cs fallback)"

text \<open>
  The loops over the candidates: the exponentials with their sum, the quotients. \<open>r\<close> is what \<^verbatim>\<open>rand\<close> gives over
  \<^verbatim>\<open>RAND_MAX\<close>.
\<close>

definition topk_draw :: "sample_ops \<Rightarrow> u32 \<Rightarrow> u32 \<Rightarrow> u32 list \<Rightarrow> int list \<Rightarrow> int" where
  "topk_draw A temperature r vals ids =
     (let es = map (\<lambda>v. so_expf A (so_div A (so_sub A v (vals ! 0)) temperature)) vals;
          total = foldl (so_add A) 0 es;
          ps = map (\<lambda>e. so_div A e total) es
      in pick_cumulative A r 0 (zip ps ids) (ids ! 0))"

definition vv_sample_topk ::
  "sample_ops \<Rightarrow> u32 \<Rightarrow> u16 list option \<Rightarrow> int \<Rightarrow> u32 \<Rightarrow> heap \<Rightarrow> (vv_status \<times> int option \<times> heap) option" where
  "vv_sample_topk A r logits k temperature h =
     (case logits of
        None \<Rightarrow> Some (VV_ERR_NULL_PTR, None, h)
      | Some ls \<Rightarrow>
          let k = (if k \<le> 0 then 1 else k) in
          if f32_le temperature 0 then map_option (\<lambda>(s, t). (s, t, h)) (vv_sample_greedy logits)
          else
            let actual_k = (if k < int (length ls) then nat k else length ls);
                (vp, h) = vv_alloc (of_nat actual_k * 4) h;
                (ip, h) = vv_alloc (of_nat actual_k * 4) h
            in if vp = None \<or> ip = None then Some (VV_ERR_OUT_OF_MEMORY, None, vv_free ip (vv_free vp h))
               else
                 (case topk_scan actual_k ls 0 (replicate actual_k neg_FLT_MAX) (replicate actual_k 0) of
                    None \<Rightarrow> None
                  | Some (vals, ids) \<Rightarrow>
                      Some (VV_OK, Some (topk_draw A temperature r vals ids), vv_free ip (vv_free vp h))))"

subsection \<open>Single precision logits\<close>

text \<open>
  The insertion into the ascending arrays: \<open>j\<close> is the place that is free, \<open>n\<close> how many are in use.
\<close>

function sift :: "nat \<Rightarrow> nat \<Rightarrow> u32 \<Rightarrow> int \<Rightarrow> u32 list \<Rightarrow> int list \<Rightarrow> u32 list \<times> int list" where
  "sift n j v i vals ids =
     (if j + 1 < n \<and> f32_lt (vals ! (j + 1)) v
      then sift n (j + 1) v i (vals[j := vals ! (j + 1)]) (ids[j := ids ! (j + 1)])
      else (vals[j := v], ids[j := i]))"
  by pat_completeness auto
termination by (relation "measure (\<lambda>(n, j, v, i, vals, ids). n - j)") auto

declare sift.simps [simp del]

text \<open>One turn of the selection: \<open>vals\<close> and \<open>ids\<close> are the \<open>n\<close> places in use. Growing moves them up by one.\<close>

definition select_turn :: "nat \<Rightarrow> u32 \<Rightarrow> int \<Rightarrow> u32 list \<times> int list \<Rightarrow> u32 list \<times> int list" where
  "select_turn k v i st =
     (case st of (vals, ids) \<Rightarrow>
        if length vals = k then
          if f32_le v (vals ! 0) then (vals, ids) else sift (length vals) 0 v i vals ids
        else
          let vals = neg_FLT_MAX # vals; ids = -1 # ids in sift (length vals) 0 v i vals ids)"

fun select_scan :: "nat \<Rightarrow> u32 list \<Rightarrow> int \<Rightarrow> u32 list \<times> int list \<Rightarrow> u32 list \<times> int list" where
  "select_scan k [] i st = st"
| "select_scan k (v # vs) i st = select_scan k vs (i + 1) (select_turn k v i st)"

text \<open>\<^verbatim>\<open>first\<close> after the nucleus loop, which runs down from \<open>i\<close> with the mass so far.\<close>

fun nucleus :: "sample_ops \<Rightarrow> u32 \<Rightarrow> u32 list \<Rightarrow> u32 \<Rightarrow> nat \<Rightarrow> nat" where
  "nucleus A top_p vals acc i =
     (let acc = so_add A acc (vals ! i) in
      if f32_le top_p acc then i else if i = 0 then 0 else nucleus A top_p vals acc (i - 1))"

declare nucleus.simps [simp del]

definition xorshift64 :: "u64 \<Rightarrow> u64" where
  "xorshift64 x = (let x = x XOR drop_bit 12 x; x = x XOR push_bit 25 x in x XOR drop_bit 27 x)"

text \<open>The loop of the greedy case, from index \<open>i\<close> on.\<close>

function best_logit :: "u32 list \<Rightarrow> nat \<Rightarrow> nat \<Rightarrow> nat" where
  "best_logit logits i best =
     (if i < length logits then best_logit logits (i + 1) (if f32_lt (logits ! best) (logits ! i) then i else best) else best)"
  by pat_completeness auto
termination by (relation "measure (\<lambda>(ls, i, b). length ls - i)") auto

declare best_logit.simps [simp del]

text \<open>From the selected candidates on; the new state of the generator and the token.\<close>

definition draw_candidate ::
  "sample_ops \<Rightarrow> u32 \<Rightarrow> u32 \<Rightarrow> u64 \<Rightarrow> u32 list \<Rightarrow> int list \<Rightarrow> u64 \<times> int" where
  "draw_candidate A temperature top_p rng vals ids =
     (let n = length vals;
          es = map (\<lambda>v. so_expf A (so_div A (so_sub A v (vals ! (n - 1))) temperature)) vals;
          total = foldl (so_add A) 0 es;
          ps = map (\<lambda>e. so_div A e total) es;
          first = (if f32_lt 0 top_p \<and> f32_lt top_p 0x3F800000 then nucleus A top_p ps 0 (n - 1) else 0);
          mass = foldl (so_add A) 0 (drop first ps);
          x = xorshift64 (if rng \<noteq> 0 then rng else 0x9E3779B97F4A7C15);
          r = so_mul A (so_div A (so_of_u64 A (drop_bit 11 (x * 0x2545F4914F6CDD1D))) (so_of_u64 A (push_bit 53 1))) mass
      in (x, pick_cumulative A r 0 (drop first (zip ps ids)) (ids ! (n - 1))))"

definition vv_sample_logits_f32 ::
  "sample_ops \<Rightarrow> u32 list option \<Rightarrow> u32 \<Rightarrow> u32 \<Rightarrow> int \<Rightarrow> u64 \<Rightarrow> vv_status \<times> u64 \<times> int option" where
  "vv_sample_logits_f32 A logits temperature top_p top_k rng =
     (case logits of
        None \<Rightarrow> (VV_ERR_NULL_PTR, rng, None)
      | Some vs \<Rightarrow>
          if vs = [] then (VV_ERR_NULL_PTR, rng, None)
          else if \<not> f32_lt 0 temperature then (VV_OK, rng, Some (int (best_logit vs 1 0)))
          else
            let k = (if top_k > 0 then top_k else 64);
                k = (if k > int (length vs) then int (length vs) else k);
                k = (if k > 512 then 512 else k)
            in case select_scan (nat k) vs 0 ([], []) of
                 (vals, ids) \<Rightarrow>
                   (case draw_candidate A temperature top_p rng vals ids of (rng, t) \<Rightarrow> (VV_OK, rng, Some t)))"

subsection \<open>The two conversions agree\<close>

lemma approx_loop_normalise:
  "2 ^ (10 - n) \<le> unat m \<Longrightarrow> unat m < 2 ^ 11 \<Longrightarrow> n \<le> 10 \<Longrightarrow>
   approx_loop e m = Some (fst (normalise n (e + 1) m) - 1, snd (normalise n (e + 1) m))"
proof (induction n arbitrary: e m)
  case 0
  then have "m AND 0x400 \<noteq> 0" by (simp add: bit_400)
  then show ?case by (subst approx_loop.simps) simp
next
  case (Suc n)
  show ?case
  proof (cases "m AND 0x400 \<noteq> 0")
    case True
    then show ?thesis by (subst approx_loop.simps) simp
  next
    case False
    then have small: "unat m < 2 ^ 10" using bit_400 [OF Suc.prems(2)] by simp
    have u: "unat (push_bit 1 m) = 2 * unat m"
      using small by (simp add: push_bit_eq_mult unat_word_ariths)
    have "10 - n = Suc (10 - Suc n)" using Suc.prems(3) by simp
    then have two: "2 ^ (10 - n) = 2 * (2 :: nat) ^ (10 - Suc n)" by (simp only: power_Suc)
    have "approx_loop (e - 1) (push_bit 1 m) =
        Some (fst (normalise n (e - 1 + 1) (push_bit 1 m)) - 1, snd (normalise n (e - 1 + 1) (push_bit 1 m)))"
    proof (rule Suc.IH)
      show "2 ^ (10 - n) \<le> unat (push_bit 1 m)" unfolding u two using Suc.prems(1) by simp
      show "unat (push_bit 1 m) < 2 ^ 11" using small by (simp only: u) simp
      show "n \<le> 10" using Suc.prems(3) by simp
    qed
    moreover have "approx_loop e m = approx_loop (e - 1) (push_bit 1 m)" using False by (subst approx_loop.simps) simp
    ultimately show ?thesis using False by simp
  qed
qed

lemma approx_fields:
  fixes h :: u16
  shows "(push_bit 31 (ucast (drop_bit 15 h)) :: u32) = push_bit 16 (ucast h AND 0x8000)"
    "(ucast (drop_bit 10 h) AND 0x1F :: u32) = drop_bit 10 (ucast h) AND 0x1F"
proof -
  show "(push_bit 31 (ucast (drop_bit 15 h)) :: u32) = push_bit 16 (ucast h AND 0x8000)"
  proof (rule bit_word_eqI)
    fix n assume "n < LENGTH(32)"
    then have "n = 31 \<or> n < 31" by auto
    then show "bit (push_bit 31 (ucast (drop_bit 15 h)) :: u32) n = bit (push_bit 16 (ucast h AND 0x8000 :: u32)) n"
      unfolding bit_push_bit_iff bit_and_iff bit_8000 bit_unsigned_iff bit_drop_bit_eq by auto
  qed
  show "(ucast (drop_bit 10 h) AND 0x1F :: u32) = drop_bit 10 (ucast h) AND 0x1F"
    by (rule bit_word_eqI) (auto simp: bit_simps dest: bit_imp_le_length)
qed

text \<open>
  The sampler's own conversion, whose loop could run forever on a zero mantissa, returns for every half, and returns what
  the library's conversion gives.
\<close>

theorem half_to_float_approx_exact: "half_to_float_approx h = Some (vv_half_to_float h)"
proof -
  let ?m = "ucast h AND 0x3FF :: u32"
  have lt: "unat ?m < 2 ^ 10"
    unfolding half_fields(1) by simp
  have l: "approx_loop 0 ?m = Some (fst (normalise 10 1 ?m) - 1, snd (normalise 10 1 ?m))" if "?m \<noteq> 0"
  proof -
    have "0 < unat ?m" using that by (simp add: unat_gt_0)
    then show ?thesis using approx_loop_normalise [of 10 ?m 0] lt by simp
  qed
  define e where "e = drop_bit 10 (ucast h) AND (0x1F :: u32)"
  define m where "m = ucast h AND (0x3FF :: u32)"
  define sg where "sg = push_bit 16 (ucast h AND 0x8000 :: u32)"
  have x: "e' - 1 + 1 + (127 - 15) = e' + 127 - 15" "e' + (127 - 15) = e' + 127 - 15" for e' :: u32
    by (simp_all only: diff_add_cancel add_diff_eq)
  obtain e' m' where n: "normalise 10 1 m = (e', m')" by fastforce
  have l: "m \<noteq> 0 \<Longrightarrow> approx_loop 0 m = Some (e' - 1, m')" using l n unfolding m_def [symmetric] by simp
  show ?thesis
    unfolding half_to_float_approx_def vv_half_to_float_def approx_fields Let_def
      e_def [symmetric] m_def [symmetric] sg_def [symmetric] n prod.case
  proof (cases "e = 0")
    case True
    show "(if e = 0 then if m = 0 then Some sg else case approx_loop e m of None \<Rightarrow> None
         | Some (exp, mant) \<Rightarrow> Some (sg OR push_bit 23 (exp + 1 + (127 - 15)) OR push_bit 13 (mant AND 0x3FF))
       else if e = 31 then Some (sg OR 0x7F800000 OR push_bit 13 m)
       else Some (sg OR push_bit 23 (e + (127 - 15)) OR push_bit 13 m)) =
      Some (if e = 0 then if m = 0 then sg else sg OR push_bit 23 (e' + 127 - 15) OR push_bit 13 (m' AND 0x3FF)
        else if e = 31 then sg OR 0x7F800000 OR push_bit 13 m else sg OR push_bit 23 (e + 127 - 15) OR push_bit 13 m)"
    proof (cases "m = 0")
      case False
      show ?thesis unfolding if_P [OF True] if_not_P [OF False] unfolding True l [OF False] option.case prod.case diff_add_cancel x ..
    next
      case m0: True
      show ?thesis unfolding if_P [OF True] if_P [OF m0] ..
    qed
  next
    case False
    show "(if e = 0 then if m = 0 then Some sg else case approx_loop e m of None \<Rightarrow> None
         | Some (exp, mant) \<Rightarrow> Some (sg OR push_bit 23 (exp + 1 + (127 - 15)) OR push_bit 13 (mant AND 0x3FF))
       else if e = 31 then Some (sg OR 0x7F800000 OR push_bit 13 m)
       else Some (sg OR push_bit 23 (e + (127 - 15)) OR push_bit 13 m)) =
      Some (if e = 0 then if m = 0 then sg else sg OR push_bit 23 (e' + 127 - 15) OR push_bit 13 (m' AND 0x3FF)
        else if e = 31 then sg OR 0x7F800000 OR push_bit 13 m else sg OR push_bit 23 (e + 127 - 15) OR push_bit 13 m)"
      unfolding if_not_P [OF False] x by (cases "e = 31") (simp_all only: if_True if_False refl)
  qed
qed

subsection \<open>What the selection keeps\<close>

lemma f32_lt_key: "\<not> f32_nan a \<Longrightarrow> \<not> f32_nan b \<Longrightarrow> f32_lt a b \<longleftrightarrow> f32_key a < f32_key b"
  and f32_le_key: "\<not> f32_nan a \<Longrightarrow> \<not> f32_nan b \<Longrightarrow> f32_le a b \<longleftrightarrow> f32_key a \<le> f32_key b"
  by (simp_all add: f32_lt_def f32_le_def)

text \<open>The insertion on the list of candidates, least first.\<close>

fun insert_up :: "u32 \<times> int \<Rightarrow> (u32 \<times> int) list \<Rightarrow> (u32 \<times> int) list" where
  "insert_up x [] = [x]"
| "insert_up x (y # ys) = (if f32_lt (fst y) (fst x) then y # insert_up x ys else x # y # ys)"

lemma sift_insert:
  assumes "length vals = n" "length ids = n" "j < n"
  shows "case sift n j v i vals ids of (vals', ids') \<Rightarrow> length vals' = n \<and> length ids' = n \<and>
    zip vals' ids' = take j (zip vals ids) @ insert_up (v, i) (drop (Suc j) (zip vals ids))"
  using assms
proof (induction n j v i vals ids rule: sift.induct)
  case (1 n j v i vals ids)
  let ?zs = "zip vals ids"
  show ?case
  proof (cases "j + 1 < n \<and> f32_lt (vals ! (j + 1)) v")
    case True
    let ?vs = "vals[j := vals ! (j + 1)]" and ?is = "ids[j := ids ! (j + 1)]"
    have s: "sift n j v i vals ids = sift n (j + 1) v i ?vs ?is" using True by (subst sift.simps) simp
    have z: "zip ?vs ?is = ?zs[j := ?zs ! (j + 1)]"
      using True 1(2,3) by (simp add: update_zip)
    have "Suc j < length ?zs" using True 1(2,3) by simp
    from Cons_nth_drop_Suc [OF this] have d: "drop (Suc j) ?zs = ?zs ! (j + 1) # drop (Suc (Suc j)) ?zs" by simp
    have t: "take (j + 1) (?zs[j := ?zs ! (j + 1)]) = take j ?zs @ [?zs ! (j + 1)]"
      using True 1(2,3) by (simp add: take_Suc_update)
    have f: "fst (?zs ! (j + 1)) = vals ! (j + 1)" using True 1(2,3) by simp
    show ?thesis using 1(1) [OF True] 1(2,3) True unfolding s z t by (auto simp: d f)
  next
    case False
    have s: "sift n j v i vals ids = (vals[j := v], ids[j := i])" using False by (subst sift.simps) (simp only: if_False)
    have z: "zip (vals[j := v]) (ids[j := i]) = ?zs[j := (v, i)]" by (simp add: update_zip)
    have u: "?zs[j := (v, i)] = take j ?zs @ (v, i) # drop (Suc j) ?zs" using 1(2-4) by (simp add: upd_conv_take_nth_drop)
    have "insert_up (v, i) (drop (Suc j) ?zs) = (v, i) # drop (Suc j) ?zs"
    proof (cases "j + 1 < n")
      case True
      then have "Suc j < length ?zs" and f: "fst (?zs ! (j + 1)) = vals ! (j + 1)" using 1(2,3) by simp_all
      from Cons_nth_drop_Suc [OF this(1)] have "drop (Suc j) ?zs = ?zs ! (j + 1) # drop (Suc (Suc j)) ?zs" by simp
      then show ?thesis using True False f by simp
    next
      case False
      then show ?thesis using 1(2,3) by simp
    qed
    then show ?thesis using 1(2,3) by (simp add: s z u)
  qed
qed

text \<open>One turn, on the candidates.\<close>

definition keep_turn :: "nat \<Rightarrow> u32 \<times> int \<Rightarrow> (u32 \<times> int) list \<Rightarrow> (u32 \<times> int) list" where
  "keep_turn k x zs =
     (if length zs = k then if f32_le (fst x) (fst (zs ! 0)) then zs else insert_up x (tl zs) else insert_up x zs)"

lemma select_turn_keep:
  assumes "length vals = length ids" "0 < k"
  shows "case select_turn k v i (vals, ids) of (vals', ids') \<Rightarrow>
    length vals' = length ids' \<and> zip vals' ids' = keep_turn k (v, i) (zip vals ids)"
proof (cases "length vals = k")
  case True
  then have "vals ! 0 = fst (zip vals ids ! 0)" using assms by simp
  then show ?thesis using sift_insert [of vals k ids 0 v i] True assms
    by (auto simp: select_turn_def keep_turn_def drop_Suc split: prod.splits)
next
  case False
  then show ?thesis using sift_insert [of "neg_FLT_MAX # vals" "Suc (length vals)" "-1 # ids" 0 v i] assms
    by (auto simp: select_turn_def keep_turn_def Let_def split: prod.splits)
qed

definition keep_sorted :: "(u32 \<times> int) list \<Rightarrow> bool" where
  "keep_sorted zs \<longleftrightarrow> sorted (map (f32_key \<circ> fst) zs) \<and> (\<forall>z \<in> set zs. \<not> f32_nan (fst z))"

lemma set_insert_up: "set (insert_up x zs) = insert x (set zs)" and length_insert_up: "length (insert_up x zs) = Suc (length zs)"
  by (induction zs) auto

lemma mset_insert_up: "mset (insert_up x zs) = add_mset x (mset zs)"
  by (induction zs) auto

lemma sorted_insert_up: "keep_sorted zs \<Longrightarrow> \<not> f32_nan (fst x) \<Longrightarrow> keep_sorted (insert_up x zs)"
proof (induction zs)
  case Nil
  then show ?case by (simp add: keep_sorted_def)
next
  case (Cons y zs)
  then have "keep_sorted zs" by (simp add: keep_sorted_def)
  then show ?case using Cons by (auto simp: keep_sorted_def set_insert_up f32_lt_key)
qed

text \<open>
  The invariant of the scan: after the first \<open>i\<close> logits the candidates are the \<open>k\<close> best of them, each with its index.
\<close>

definition kept_best :: "nat \<Rightarrow> u32 list \<Rightarrow> nat \<Rightarrow> (u32 \<times> int) list \<Rightarrow> bool" where
  "kept_best k vs i zs \<longleftrightarrow> keep_sorted zs \<and> length zs = min k i \<and> distinct (map snd zs) \<and>
     (\<forall>z \<in> set zs. \<exists>m < i. z = (vs ! m, int m)) \<and>
     (\<forall>m < i. int m \<notin> snd ` set zs \<longrightarrow> (\<forall>z \<in> set zs. f32_key (vs ! m) \<le> f32_key (fst z)))"

lemma sorted_hd_le: "keep_sorted zs \<Longrightarrow> z \<in> set zs \<Longrightarrow> f32_key (fst (zs ! 0)) \<le> f32_key (fst z)"
  by (cases zs) (auto simp: keep_sorted_def)

lemma keep_turn_best:
  assumes inv: "kept_best k vs i zs" and i: "i < length vs" and nan: "\<not> f32_nan (vs ! i)" and k: "0 < k"
  shows "kept_best k vs (Suc i) (keep_turn k (vs ! i, int i) zs)"
proof -
  let ?x = "(vs ! i, int i)"
  have srt: "keep_sorted zs" and len: "length zs = min k i" and dist: "distinct (map snd zs)"
    and mem: "\<And>z. z \<in> set zs \<Longrightarrow> \<exists>m < i. z = (vs ! m, int m)"
    and rest: "\<And>m z. m < i \<Longrightarrow> int m \<notin> snd ` set zs \<Longrightarrow> z \<in> set zs \<Longrightarrow> f32_key (vs ! m) \<le> f32_key (fst z)"
    using inv by (auto simp: kept_best_def)
  have new: "int i \<notin> snd ` set zs" using mem by fastforce
  have ins: "distinct (map snd (insert_up ?x ys))" if "distinct (map snd ys)" "int i \<notin> snd ` set ys" for ys
    using that by (induction ys) (auto simp: set_insert_up)
  have mem': "\<exists>m < Suc i. z = (vs ! m, int m)" if "z \<in> insert ?x (set zs)" for z using that mem by (metis insertE lessI less_SucI)
  consider (room) "length zs \<noteq> k" | (worse) "length zs = k" "f32_le (vs ! i) (fst (zs ! 0))"
    | (better) "length zs = k" "\<not> f32_le (vs ! i) (fst (zs ! 0))" by blast
  then show ?thesis
  proof cases
    case room
    then have all: "length zs = i" "i < k" using len by auto
    have full: "int m \<in> snd ` set zs" if "m < i" for m
    proof -
      have "snd ` set zs \<subseteq> int ` {..<i}" using mem by fastforce
      moreover have "card (snd ` set zs) = i" using dist all distinct_card [of "map snd zs"] by simp
      ultimately have "snd ` set zs = int ` {..<i}" by (intro card_subset_eq) (auto simp: card_image)
      then show ?thesis using that by auto
    qed
    have "keep_turn k ?x zs = insert_up ?x zs" using room by (simp add: keep_turn_def)
    then show ?thesis unfolding kept_best_def
      using sorted_insert_up [OF srt, of ?x] nan all mem' ins [OF dist new] full
      by (auto simp: set_insert_up length_insert_up less_Suc_eq)
  next
    case worse
    then have z0: "zs ! 0 \<in> set zs" using k by simp
    then have "\<not> f32_nan (fst (zs ! 0))" using srt by (simp add: keep_sorted_def)
    then have "f32_key (vs ! i) \<le> f32_key (fst (zs ! 0))" using worse nan by (simp add: f32_le_key)
    then have le: "f32_key (vs ! i) \<le> f32_key (fst z)" if "z \<in> set zs" for z using sorted_hd_le [OF srt that] by simp
    have "keep_turn k ?x zs = zs" using worse by (simp add: keep_turn_def)
    then show ?thesis unfolding kept_best_def using srt len worse dist mem' rest le by (auto simp: less_Suc_eq)
  next
    case better
    obtain z0 ys where zs: "zs = z0 # ys" using better k by (cases zs) auto
    have n0: "\<not> f32_nan (fst z0)" using srt by (simp add: keep_sorted_def zs)
    have gt: "f32_key (fst z0) < f32_key (vs ! i)" using better nan n0 by (simp add: zs f32_le_key)
    have z0y: "f32_key (fst z0) \<le> f32_key (fst z)" if "z \<in> set ys" for z using sorted_hd_le [OF srt, of z] that by (simp add: zs)
    have ys: "keep_sorted ys" "distinct (map snd ys)" "int i \<notin> snd ` set ys" using srt dist new by (auto simp: zs keep_sorted_def)
    have out: "f32_key (vs ! m) \<le> f32_key (fst z)" if m: "m < Suc i" "int m \<notin> snd ` insert ?x (set ys)" and z: "z \<in> insert ?x (set ys)" for m z
    proof -
      have mi: "m < i" using m by (auto simp: less_Suc_eq)
      have "f32_key (vs ! m) \<le> f32_key (fst z0)"
      proof (cases "int m = snd z0")
        case True
        then show ?thesis using mem [of z0] by (auto simp: zs)
      next
        case False
        then show ?thesis using rest [OF mi, of z0] m by (auto simp: zs)
      qed
      also have "\<dots> \<le> f32_key (fst z)" using z
      proof
        assume "z = ?x"
        then show ?thesis using gt by simp
      qed (rule z0y)
      finally show ?thesis .
    qed
    have "keep_turn k ?x zs = insert_up ?x ys" using better by (simp add: keep_turn_def zs)
    then show ?thesis unfolding kept_best_def
      using sorted_insert_up [OF ys(1), of ?x] nan better len mem' ins [OF ys(2,3)] out
      by (auto simp: set_insert_up length_insert_up zs)
  qed
qed

lemma select_scan_best:
  assumes "0 < k" "\<forall>v \<in> set vs. \<not> f32_nan v"
  shows "i \<le> length vs \<Longrightarrow> length vals = length ids \<Longrightarrow> kept_best k vs i (zip vals ids) \<Longrightarrow>
    case select_scan k (drop i vs) (int i) (vals, ids) of (vals', ids') \<Rightarrow>
      length vals' = length ids' \<and> kept_best k vs (length vs) (zip vals' ids')"
proof (induction "length vs - i" arbitrary: i vals ids)
  case 0
  then show ?case by simp
next
  case (Suc n)
  then have i: "i < length vs" by simp
  obtain vals1 ids1 where t: "select_turn k (vs ! i) (int i) (vals, ids) = (vals1, ids1)" by fastforce
  have t1: "length vals1 = length ids1" "zip vals1 ids1 = keep_turn k (vs ! i, int i) (zip vals ids)"
    using select_turn_keep [OF Suc.prems(2) assms(1), of "vs ! i" "int i"] t by simp_all
  have "kept_best k vs (Suc i) (zip vals1 ids1)"
    unfolding t1(2) by (rule keep_turn_best) (use Suc.prems i assms in auto)
  then have "case select_scan k (drop (Suc i) vs) (int (Suc i)) (vals1, ids1) of (vals', ids') \<Rightarrow>
      length vals' = length ids' \<and> kept_best k vs (length vs) (zip vals' ids')"
    using Suc.hyps(1) [of "Suc i" vals1 ids1] Suc.hyps(2) i t1(1) by simp
  moreover have "select_scan k (drop i vs) (int i) (vals, ids) = select_scan k (drop (Suc i) vs) (int (Suc i)) (vals1, ids1)"
    using i by (simp add: Cons_nth_drop_Suc [symmetric] t add.commute)
  ultimately show ?case by simp
qed

text \<open>How many logits are strictly above that of index \<open>t\<close>.\<close>

definition better_logits :: "u32 list \<Rightarrow> int \<Rightarrow> nat" where
  "better_logits vs t = card {m. m < length vs \<and> f32_key (vs ! nat t) < f32_key (vs ! m)}"

lemma kept_best_rank:
  assumes inv: "kept_best k vs (length vs) zs" and z: "z \<in> set zs"
  shows "0 \<le> snd z \<and> snd z < int (length vs) \<and> better_logits vs (snd z) < k"
proof -
  obtain t where t: "t < length vs" "z = (vs ! t, int t)" using inv z by (auto simp: kept_best_def)
  let ?B = "{m. m < length vs \<and> f32_key (vs ! t) < f32_key (vs ! m)}"
  have "int ` ?B \<subseteq> snd ` set zs - {int t}"
  proof
    fix x assume "x \<in> int ` ?B"
    then obtain m where m: "x = int m" "m < length vs" "f32_key (vs ! t) < f32_key (vs ! m)" by auto
    have "int m \<in> snd ` set zs"
    proof (rule ccontr)
      assume "int m \<notin> snd ` set zs"
      then have "f32_key (vs ! m) \<le> f32_key (fst z)" using inv z m(2) by (simp add: kept_best_def)
      then show False using m(3) t by simp
    qed
    then show "x \<in> snd ` set zs - {int t}" using m by auto
  qed
  then have "card (int ` ?B) \<le> card (snd ` set zs - {int t})" by (intro card_mono) auto
  also have "\<dots> < card (snd ` set zs)" using z t by (intro card_Diff1_less) (auto intro: rev_image_eqI)
  also have "\<dots> \<le> length zs" using card_length [of "map snd zs"] by simp
  also have "\<dots> \<le> k" using inv by (simp add: kept_best_def)
  finally have "card ?B < k" by (simp add: card_image)
  then show ?thesis using t by (simp add: better_logits_def)
qed

lemma pick_cumulative_in: "pick_cumulative A r acc cs fb \<in> insert fb (snd ` set cs)"
  by (induction A r acc cs fb rule: pick_cumulative.induct) (auto simp: Let_def)

lemma draw_candidate_in:
  assumes "length vals = length ids" "ids \<noteq> []"
  shows "snd (draw_candidate A temperature top_p rng vals ids) \<in> set ids"
proof -
  define n where "n = length vals"
  have sub: "insert (ids ! (n - 1)) (snd ` set (drop f (zip ps ids))) \<subseteq> set ids" for f and ps :: "u32 list"
    using assms by (auto simp: n_def dest!: in_set_dropD dest: set_zip_rightD)
  show ?thesis unfolding draw_candidate_def Let_def n_def [symmetric] snd_conv
    by (rule subsetD [OF sub pick_cumulative_in])
qed

lemma best_logit_max:
  assumes "\<forall>v \<in> set vs. \<not> f32_nan v"
  shows "b < length vs \<Longrightarrow> i \<le> length vs \<Longrightarrow> (\<forall>m < i. f32_key (vs ! m) \<le> f32_key (vs ! b)) \<Longrightarrow>
    best_logit vs i b < length vs \<and> (\<forall>m < length vs. f32_key (vs ! m) \<le> f32_key (vs ! best_logit vs i b))"
proof (induction "length vs - i" arbitrary: i b)
  case 0
  then show ?case by (subst (1 2) best_logit.simps) simp
next
  case (Suc n)
  then have i: "i < length vs" by simp
  let ?b = "if f32_lt (vs ! b) (vs ! i) then i else b"
  have "f32_lt (vs ! b) (vs ! i) \<longleftrightarrow> f32_key (vs ! b) < f32_key (vs ! i)"
    using assms i Suc.prems by (intro f32_lt_key) simp_all
  then have "\<forall>m < i + 1. f32_key (vs ! m) \<le> f32_key (vs ! ?b)" using Suc.prems(3) by (fastforce simp: less_Suc_eq)
  moreover have "best_logit vs i b = best_logit vs (i + 1) ?b" using i by (subst best_logit.simps) simp
  ultimately show ?case using Suc.hyps(1) [of "i + 1" ?b] Suc.hyps(2) Suc.prems i by simp
qed

text \<open>
  C11. Whatever the float arithmetic does, the token drawn is an index of the logits and fewer than \<open>k\<close> logits lie strictly
  above its own: \<open>k\<close> is 1 for the greedy case, otherwise \<open>top_k\<close> (64 when it is not positive) and at most 512.
\<close>

theorem sampled_token_among_best:
  assumes "vs \<noteq> []" "\<forall>v \<in> set vs. \<not> f32_nan v"
  shows "\<exists>rng' t. vv_sample_logits_f32 A (Some vs) temperature top_p top_k rng = (VV_OK, rng', Some t) \<and>
    0 \<le> t \<and> t < int (length vs) \<and>
    int (better_logits vs t) < (if f32_lt 0 temperature then min 512 (if top_k > 0 then top_k else 64) else 1)"
proof (cases "f32_lt 0 temperature")
  case False
  let ?t = "best_logit vs 1 0"
  have t: "?t < length vs" "\<forall>m < length vs. f32_key (vs ! m) \<le> f32_key (vs ! ?t)"
    using best_logit_max [OF assms(2), of 0 1] assms(1) by (simp_all add: Suc_le_eq)
  then have "{m. m < length vs \<and> f32_key (vs ! ?t) < f32_key (vs ! m)} = {}" by (auto simp: not_less)
  then have "better_logits vs (int ?t) = 0" by (simp add: better_logits_def)
  then show ?thesis using t(1) False assms(1) by (simp add: vv_sample_logits_f32_def)
next
  case True
  define k where "k = (let k = if top_k > 0 then top_k else 64; k = if k > int (length vs) then int (length vs) else k in if k > 512 then 512 else k)"
  have k: "0 < nat k" "k \<le> min 512 (if top_k > 0 then top_k else 64)"
    using assms(1) by (auto simp: k_def Let_def)
  obtain vals ids where sc: "select_scan (nat k) vs 0 ([], []) = (vals, ids)" by fastforce
  have "kept_best (nat k) vs 0 (zip [] [])" by (simp add: kept_best_def keep_sorted_def)
  then have len: "length vals = length ids" and kb: "kept_best (nat k) vs (length vs) (zip vals ids)"
    using select_scan_best [OF k(1) assms(2), of 0 "[]" "[]"] sc by auto
  have "length (zip vals ids) = min (nat k) (length vs)" using kb by (simp add: kept_best_def)
  then have ne: "ids \<noteq> []" using k(1) assms(1) len by (auto simp: min_def split: if_splits)
  obtain rng' t where d: "draw_candidate A temperature top_p rng vals ids = (rng', t)" by fastforce
  have "t \<in> set ids" using draw_candidate_in [OF len ne, of A temperature top_p rng] d by simp
  then have "t \<in> snd ` set (zip vals ids)" using len by (metis list.set_map map_snd_zip)
  then have r: "0 \<le> t \<and> t < int (length vs) \<and> better_logits vs t < nat k" using kept_best_rank [OF kb] by auto
  then have "int (better_logits vs t) < min 512 (if top_k > 0 then top_k else 64)" using k by linarith
  then show ?thesis using True assms(1) r sc d
    by (simp add: vv_sample_logits_f32_def k_def [symmetric, unfolded Let_def] Let_def)
qed

definition demo_ops :: sample_ops where
  "demo_ops = \<lparr>so_add = (+), so_sub = (-), so_mul = (\<lambda>a b. b), so_div = (\<lambda>a b. a), so_expf = (\<lambda>x. 1), so_of_u64 = ucast\<rparr>"

theorem sampled_token_among_best_witness:
  "\<exists>rng' t. vv_sample_logits_f32 demo_ops (Some [0x3F800000, 0xC0000000, 0x40000000]) 0x3F800000 0x3F000000 2 7 = (VV_OK, rng', Some t) \<and>
    0 \<le> t \<and> t < int (length [0x3F800000, 0xC0000000, 0x40000000 :: u32]) \<and>
    int (better_logits [0x3F800000, 0xC0000000, 0x40000000] t) <
      (if f32_lt 0 0x3F800000 then min 512 (if (2 :: int) > 0 then 2 else 64) else 1)"
  by (rule sampled_token_among_best) (simp_all add: f32_nan_def)

subsection \<open>Greedy decoding of half precision logits\<close>

definition half_key :: "u16 \<Rightarrow> int" where
  "half_key l = f32_key (vv_half_to_float l)"

lemma greedy_scan_max:
  assumes "\<forall>l \<in> set ls. \<not> f32_nan (vv_half_to_float l)" "\<not> f32_nan mv"
  shows "\<exists>t. greedy_scan ls i mv mi = Some t \<and>
    (if \<exists>l \<in> set ls. f32_key mv < half_key l
     then \<exists>m < length ls. t = i + int m \<and> (\<forall>j < length ls. half_key (ls ! j) \<le> half_key (ls ! m)) \<and>
       (\<forall>j < m. half_key (ls ! j) < half_key (ls ! m))
     else t = mi)"
  using assms
proof (induction ls arbitrary: i mv mi)
  case Nil
  then show ?case by simp
next
  case (Cons l ls)
  let ?v = "vv_half_to_float l"
  have n: "\<not> f32_nan ?v" "\<forall>l \<in> set ls. \<not> f32_nan (vv_half_to_float l)" using Cons.prems by simp_all
  have nth: "(\<forall>j < length (l # ls). P ((l # ls) ! j)) \<longleftrightarrow> P l \<and> (\<forall>j < length ls. P (ls ! j))" for P
    by (auto simp: nth_Cons' less_Suc_eq_0_disj)
  show ?case
  proof (cases "f32_key mv < f32_key ?v")
    case True
    then have s: "greedy_scan (l # ls) i mv mi = greedy_scan ls (i + 1) ?v i"
      using f32_lt_key [OF Cons.prems(2) n(1)] by (simp add: half_to_float_approx_exact)
    obtain t where t: "greedy_scan ls (i + 1) ?v i = Some t"
      "if \<exists>l \<in> set ls. f32_key ?v < half_key l
       then \<exists>m < length ls. t = i + 1 + int m \<and> (\<forall>j < length ls. half_key (ls ! j) \<le> half_key (ls ! m)) \<and>
         (\<forall>j < m. half_key (ls ! j) < half_key (ls ! m))
       else t = i" using Cons.IH [OF n(2,1)] by blast
    have ex: "\<exists>l' \<in> set (l # ls). f32_key mv < half_key l'" using True by (simp add: half_key_def)
    show ?thesis
    proof (cases "\<exists>l \<in> set ls. f32_key ?v < half_key l")
      case more: True
      then obtain m where m: "m < length ls" "t = i + 1 + int m" "\<forall>j < length ls. half_key (ls ! j) \<le> half_key (ls ! m)"
        "\<forall>j < m. half_key (ls ! j) < half_key (ls ! m)" using t(2) by auto
      obtain j where j: "j < length ls" "f32_key ?v < half_key (ls ! j)" using more by (auto simp: in_set_conv_nth)
      have "half_key (ls ! j) \<le> half_key (ls ! m)" using m(3) j(1) by blast
      then have "half_key l < half_key (ls ! m)" using j(2) unfolding half_key_def [of l] by linarith
      then have "\<exists>m' < length (l # ls). t = i + int m' \<and> (\<forall>j < length (l # ls). half_key ((l # ls) ! j) \<le> half_key ((l # ls) ! m')) \<and>
         (\<forall>j < m'. half_key ((l # ls) ! j) < half_key ((l # ls) ! m'))"
        using m by (intro exI [of _ "Suc m"]) (auto simp: nth_Cons' less_Suc_eq_0_disj)
      then show ?thesis using ex s t(1) by auto
    next
      case none: False
      then have "\<forall>j < length (l # ls). half_key ((l # ls) ! j) \<le> half_key l"
        unfolding nth [of "\<lambda>x. half_key x \<le> half_key l"] by (auto simp: half_key_def not_less)
      then have "\<exists>m' < length (l # ls). t = i + int m' \<and> (\<forall>j < length (l # ls). half_key ((l # ls) ! j) \<le> half_key ((l # ls) ! m')) \<and>
         (\<forall>j < m'. half_key ((l # ls) ! j) < half_key ((l # ls) ! m'))"
        using none t(2) by (intro exI [of _ 0]) auto
      then show ?thesis using ex s t(1) by auto
    qed
  next
    case False
    then have s: "greedy_scan (l # ls) i mv mi = greedy_scan ls (i + 1) mv mi"
      using f32_lt_key [OF Cons.prems(2) n(1)] by (simp add: half_to_float_approx_exact)
    obtain t where t: "greedy_scan ls (i + 1) mv mi = Some t"
      "if \<exists>l \<in> set ls. f32_key mv < half_key l
       then \<exists>m < length ls. t = i + 1 + int m \<and> (\<forall>j < length ls. half_key (ls ! j) \<le> half_key (ls ! m)) \<and>
         (\<forall>j < m. half_key (ls ! j) < half_key (ls ! m))
       else t = mi" using Cons.IH [OF n(2) Cons.prems(2)] by blast
    show ?thesis
    proof (cases "\<exists>l \<in> set ls. f32_key mv < half_key l")
      case more: True
      then obtain m where m: "m < length ls" "t = i + 1 + int m" "\<forall>j < length ls. half_key (ls ! j) \<le> half_key (ls ! m)"
        "\<forall>j < m. half_key (ls ! j) < half_key (ls ! m)" using t(2) by auto
      obtain j where j: "j < length ls" "f32_key mv < half_key (ls ! j)" using more by (auto simp: in_set_conv_nth)
      have "half_key (ls ! j) \<le> half_key (ls ! m)" using m(3) j(1) by blast
      then have "half_key l < half_key (ls ! m)" using j(2) False unfolding half_key_def [of l] by linarith
      then have "\<exists>m' < length (l # ls). t = i + int m' \<and> (\<forall>j < length (l # ls). half_key ((l # ls) ! j) \<le> half_key ((l # ls) ! m')) \<and>
         (\<forall>j < m'. half_key ((l # ls) ! j) < half_key ((l # ls) ! m'))"
        using m by (intro exI [of _ "Suc m"]) (auto simp: nth_Cons' less_Suc_eq_0_disj)
      then show ?thesis using more s t(1) by auto
    next
      case none: False
      then show ?thesis using s t False by (auto simp: half_key_def)
    qed
  qed
qed

text \<open>
  Greedy decoding returns the first of the largest logits, for logits that are finite or plus infinity.
\<close>

theorem greedy_first_maximum:
  assumes "ls \<noteq> []" "\<forall>l \<in> set ls. f32_lt neg_FLT_MAX (vv_half_to_float l)"
  shows "\<exists>t < length ls. vv_sample_greedy (Some ls) = Some (VV_OK, Some (int t)) \<and>
    (\<forall>j < length ls. half_key (ls ! j) \<le> half_key (ls ! t)) \<and> (\<forall>j < t. half_key (ls ! j) < half_key (ls ! t))"
proof -
  have "\<forall>l \<in> set ls. \<not> f32_nan (vv_half_to_float l)" "\<not> f32_nan neg_FLT_MAX" "\<exists>l \<in> set ls. f32_key neg_FLT_MAX < half_key l"
    using assms by (auto simp: f32_lt_def half_key_def f32_nan_def neg_FLT_MAX_def neq_Nil_conv)
  from greedy_scan_max [OF this(1,2), of 0 0] this(3) show ?thesis by (auto simp: vv_sample_greedy_def)
qed

theorem greedy_first_maximum_witness:
  "\<exists>t < length [0x3C00, 0x4000, 0x4000 :: u16]. vv_sample_greedy (Some [0x3C00, 0x4000, 0x4000]) = Some (VV_OK, Some (int t)) \<and>
    (\<forall>j < length [0x3C00, 0x4000, 0x4000 :: u16]. half_key ([0x3C00, 0x4000, 0x4000] ! j) \<le> half_key ([0x3C00, 0x4000, 0x4000] ! t)) \<and>
    (\<forall>j < t. half_key ([0x3C00, 0x4000, 0x4000] ! j) < half_key ([0x3C00, 0x4000, 0x4000] ! t))"
  by (rule greedy_first_maximum) (simp, code_simp)

subsection \<open>Top-k on half precision logits\<close>

lemma topk_place_ok:
  "length vals = k \<Longrightarrow> length ids = k \<Longrightarrow> pos < k \<Longrightarrow>
   case topk_place pos v i vals ids of (vals', ids') \<Rightarrow> length vals' = k \<and> length ids' = k \<and> set ids' \<subseteq> insert i (set ids)"
proof (induction pos arbitrary: vals ids)
  case 0
  then show ?case using set_update_subset_insert [of ids 0 i] by simp
next
  case (Suc pos)
  have "ids ! pos \<in> set ids" using Suc.prems by simp
  then have "set (ids[Suc pos := ids ! pos]) \<subseteq> set ids" using set_update_subset_insert [of ids "Suc pos" "ids ! pos"] by auto
  then show ?case using Suc.IH [of "vals[Suc pos := vals ! pos]" "ids[Suc pos := ids ! pos]"] Suc.prems
      set_update_subset_insert [of ids "Suc pos" i] by (auto split: prod.splits)
qed

lemma topk_scan_ok:
  assumes "0 < k" "0 \<le> i" "i + int (length ls) \<le> n"
  shows "length vals = k \<Longrightarrow> length ids = k \<Longrightarrow> set ids \<subseteq> {0..<n} \<Longrightarrow>
    \<exists>vals' ids'. topk_scan k ls i vals ids = Some (vals', ids') \<and> length vals' = k \<and> length ids' = k \<and> set ids' \<subseteq> {0..<n}"
  using assms
proof (induction ls arbitrary: i vals ids)
  case Nil
  then show ?case by simp
next
  case (Cons l ls)
  let ?v = "vv_half_to_float l"
  show ?case
  proof (cases "f32_lt (vals ! (k - 1)) ?v")
    case True
    obtain vals1 ids1 where p: "topk_place (k - 1) ?v i vals ids = (vals1, ids1)" by fastforce
    have "length vals1 = k" "length ids1 = k" "set ids1 \<subseteq> {0..<n}"
      using topk_place_ok [OF Cons.prems(1,2), where pos = "k - 1" and v = ?v and i = i] p Cons.prems by auto
    from Cons.IH [OF this, of "i + 1"] show ?thesis using True Cons.prems p by (simp add: half_to_float_approx_exact add.assoc)
  next
    case False
    from Cons.IH [OF Cons.prems(1-3), of "i + 1"] show ?thesis using False Cons.prems by (simp add: half_to_float_approx_exact add.assoc)
  qed
qed

text \<open>
  Whatever the logits (also NaN), the temperature and the arithmetic, \<^verbatim>\<open>vv_sample_topk\<close> ends, gives its two arrays back
  under any failing allocation, and returns either the memory error or a token of the vocabulary.
\<close>

theorem sample_topk_safe:
  assumes "owns h M" "ls \<noteq> []"
  shows "\<exists>s t h'. vv_sample_topk A r (Some ls) k temperature h = Some (s, t, h') \<and> owns h' M \<and>
    (case t of None \<Rightarrow> s = VV_ERR_OUT_OF_MEMORY | Some t \<Rightarrow> s = VV_OK \<and> 0 \<le> t \<and> t < int (length ls))"
proof (cases "f32_le temperature 0")
  case True
  have "\<exists>t. greedy_scan xs i mv mi = Some t \<and> (t = mi \<or> i \<le> t \<and> t < i + int (length xs))" for xs i mv mi
  proof (induction xs arbitrary: i mv mi)
    case (Cons x xs)
    show ?case using Cons.IH [of "i + 1" "vv_half_to_float x" i] Cons.IH [of "i + 1" mv mi]
      by (auto simp: half_to_float_approx_exact)
  qed simp
  from this [of ls 0 neg_FLT_MAX 0] assms True show ?thesis by (auto simp: vv_sample_topk_def Let_def vv_sample_greedy_def)
next
  case False
  define kk where "kk = (let k = (if k \<le> 0 then 1 else k) in if k < int (length ls) then nat k else length ls)"
  have kk: "0 < kk" using assms(2) by (auto simp: kk_def Let_def)
  obtain vp h1 where a1: "vv_alloc (of_nat kk * 4) h = (vp, h1)" by fastforce
  obtain ip h2 where a2: "vv_alloc (of_nat kk * 4) h1 = (ip, h2)" by fastforce
  note o1 = vv_alloc_owns [OF assms(1) a1]
  have o2: "owns h2 (opt_block Host ip + opt_block Host vp + M)"
    using vv_alloc_owns [OF o1 a2] by (cases vp; cases ip) (simp_all add: opt_block_def add_mset_commute)
  have fr: "owns (vv_free ip (vv_free vp h2)) M"
    using o2 by (cases vp; cases ip) (simp_all add: opt_block_def add_mset_commute)
  show ?thesis
  proof (cases "vp = None \<or> ip = None")
    case True
    then show ?thesis using False a1 a2 fr by (auto simp: vv_sample_topk_def Let_def kk_def [symmetric, unfolded Let_def])
  next
    case got: False
    have z: "set (replicate kk (0 :: int)) \<subseteq> {0..<int (length ls)}" using assms(2) by (auto simp: set_replicate_conv_if)
    obtain vals ids where sc: "topk_scan kk ls 0 (replicate kk neg_FLT_MAX) (replicate kk 0) = Some (vals, ids)"
      and v: "length vals = kk" "length ids = kk" "set ids \<subseteq> {0..<int (length ls)}"
      using topk_scan_ok [OF kk, of 0 ls "int (length ls)" "replicate kk neg_FLT_MAX" "replicate kk 0", OF _ _ _ _ z] by auto
    have "topk_draw A temperature r vals ids \<in> set ids"
    proof -
      have "insert (ids ! 0) (snd ` set (zip ps ids)) \<subseteq> set ids" for ps :: "u32 list"
        using v kk by (auto dest: set_zip_rightD)
      then show ?thesis unfolding topk_draw_def Let_def by (rule subsetD) (rule pick_cumulative_in)
    qed
    then show ?thesis using False got a1 a2 fr sc v(3) by (auto simp: vv_sample_topk_def Let_def kk_def [symmetric, unfolded Let_def])
  qed
qed

theorem sample_topk_safe_witness:
  "\<exists>s t h'. vv_sample_topk demo_ops 0 (Some [0x3C00, 0x4000, 0x7E00]) 2 0x3F800000 demo_heap = Some (s, t, h') \<and> owns h' {#} \<and>
    (case t of None \<Rightarrow> s = VV_ERR_OUT_OF_MEMORY | Some t \<Rightarrow> s = VV_OK \<and> 0 \<le> t \<and> t < int (length [0x3C00, 0x4000, 0x7E00 :: u16]))"
  by (rule sample_topk_safe [OF demo_heap_owns]) simp

subsection \<open>The generator\<close>

lemma xor_shift_zero:
  fixes x :: u64
  assumes "\<And>i. i < 64 \<Longrightarrow> bit y i \<Longrightarrow> \<exists>j. bit x j \<and> ord j < (ord i :: nat)" "x XOR y = 0"
  shows "x = 0"
proof (rule ccontr)
  have xy: "x = y" using assms(2) by (metis xor.left_neutral xor.right_neutral xor.assoc xor_self_eq)
  assume "x \<noteq> 0"
  then have "\<exists>i. bit x i" using bit_eq_iff [of x 0] by auto
  then obtain i where i: "bit x i" "\<And>j. bit x j \<Longrightarrow> ord i \<le> ord j"
    using ex_has_least_nat [of "bit x" _ ord] by blast
  have "i < 64" using i(1) bit_imp_le_length by fastforce
  then obtain j where "bit x j" "ord j < ord i" using assms(1) [of i] i(1) xy by auto
  then show False using i(2) by fastforce
qed

lemma xorshift64_nonzero: "x \<noteq> 0 \<Longrightarrow> xorshift64 x \<noteq> 0"
proof -
  have r: "z = 0" if "z XOR drop_bit n z = 0" "0 < n" for z :: u64 and n
  proof (rule xor_shift_zero [where y = "drop_bit n z" and ord = "\<lambda>i. 64 - i"])
    fix i assume "i < 64" "bit (drop_bit n z) i"
    then show "\<exists>j. bit z j \<and> 64 - j < 64 - i" using that(2) by (intro exI [of _ "n + i"]) (simp add: bit_drop_bit_eq)
  qed (rule that(1))
  have l: "z = 0" if "z XOR push_bit n z = 0" "0 < n" for z :: u64 and n
  proof (rule xor_shift_zero [where y = "push_bit n z" and ord = "\<lambda>i. i"])
    fix i assume "i < 64" "bit (push_bit n z) i"
    then show "\<exists>j. bit z j \<and> j < i" using that(2) by (intro exI [of _ "i - n"]) (auto simp: bit_push_bit_iff)
  qed (rule that(1))
  assume "x \<noteq> 0"
  then have y: "x XOR drop_bit 12 x \<noteq> 0" using r [of x 12] by auto
  define y where "y = x XOR drop_bit 12 x"
  have z: "y XOR push_bit 25 y \<noteq> 0" using y l [of y 25] by (auto simp: y_def)
  have "(y XOR push_bit 25 y) XOR drop_bit 27 (y XOR push_bit 25 y) \<noteq> 0" using z r [of "y XOR push_bit 25 y" 27] by auto
  then show "xorshift64 x \<noteq> 0" by (simp add: xorshift64_def Let_def y_def)
qed

text \<open>So a seed, also zero, never gets stuck: after a draw the state is not zero.\<close>

lemma sampler_state_nonzero: "fst (draw_candidate A temperature top_p rng vals ids) \<noteq> 0"
  by (simp add: draw_candidate_def Let_def xorshift64_nonzero)

end
