(* ===== verification/Vad.thy ===== *)
theory Vad
  imports ChatPrompt Sampling
begin

text \<open>
  The voice-activity gate (\<^verbatim>\<open>src/src/audio/vad.c\<close>): samples are pushed in pieces of any size, cut into frames, and the frames of
  an utterance, with the samples before it, are handed out as a segment. Floats are their bits; they are compared
  exactly, and the level of a frame, sums, products and the conversions of times to numbers of samples are the parameter
  \<open>vad_ops\<close>. Lengths are naturals: what is in memory is far from \<open>2 ^ 31\<close> samples.
  For the same reason the \<^verbatim>\<open>int\<close> product \<^verbatim>\<open>sample_rate * 20\<close> of \<^verbatim>\<open>vv_vad_create\<close> (rates below \<open>10 ^ 8\<close>) and the capacities of
  \<^verbatim>\<open>seg_reserve\<close> are ideal integers.
\<close>

subsection \<open>The state\<close>

record vad_ops =
  vo_db :: "u32 list \<Rightarrow> u32"
  vo_add :: "u32 \<Rightarrow> u32 \<Rightarrow> u32"
  vo_sub :: "u32 \<Rightarrow> u32 \<Rightarrow> u32"
  vo_mul :: "u32 \<Rightarrow> u32 \<Rightarrow> u32"
  vo_ms :: "u32 \<Rightarrow> int \<Rightarrow> int"
  vo_sec :: "u32 \<Rightarrow> int \<Rightarrow> int"

record vad_params =
  vp_rate :: int
  vp_start_db :: u32
  vp_stop_db :: u32
  vp_min_speech_ms :: u32
  vp_hangover_ms :: u32
  vp_pre_roll_ms :: u32
  vp_max_segment_s :: u32
  vp_noise_margin_db :: u32
  vp_adapt :: bool

text \<open>The defaults, -38, -45, 250, 700, 300, 30 and 12 as floats.\<close>

definition vv_vad_params_default :: vad_params where
  "vv_vad_params_default =
     \<lparr>vp_rate = 24000, vp_start_db = 0xC2180000, vp_stop_db = 0xC2340000, vp_min_speech_ms = 0x437A0000,
      vp_hangover_ms = 0x442F0000, vp_pre_roll_ms = 0x43960000, vp_max_segment_s = 0x41F00000,
      vp_noise_margin_db = 0x41400000, vp_adapt = True\<rparr>"

text \<open>
  \<open>va_acc\<close>, \<open>va_in\<close> and \<open>va_seg\<close> are the samples in use of the three buffers, beside their blocks and capacities; \<open>va_pre\<close> is
  the whole ring.
\<close>

record vad =
  va_ptr :: nat
  va_p :: vad_params
  va_frame :: nat
  va_acc_ptr :: "nat option"
  va_acc :: "u32 list"
  va_in_ptr :: "nat option"
  va_in :: "u32 list"
  va_in_cap :: nat
  va_in_pos :: nat
  va_pre_ptr :: "nat option"
  va_pre :: "u32 list"
  va_pre_len :: nat
  va_pre_head :: nat
  va_seg_ptr :: "nat option"
  va_seg :: "u32 list"
  va_seg_cap :: nat
  va_active :: bool
  va_silence_run :: int
  va_speech_run :: int
  va_level :: u32
  va_floor :: u32
  va_floor_init :: bool

definition f32_m90 :: u32 where "f32_m90 = 0xC2B40000"

definition f32_m120 :: u32 where "f32_m120 = 0xC2F00000"

definition f32_half :: u32 where "f32_half = 0x3F000000"

definition f32_twentieth :: u32 where "f32_twentieth = 0x3D4CCCCD"

definition start_threshold_of :: "vad_ops \<Rightarrow> vad_params \<Rightarrow> u32 \<Rightarrow> u32" where
  "start_threshold_of F p flr =
     (if \<not> vp_adapt p then vp_start_db p
      else let adaptive = vo_add F flr (vp_noise_margin_db p) in
        if f32_lt (vp_start_db p) adaptive then adaptive else vp_start_db p)"

definition stop_threshold_of :: "vad_ops \<Rightarrow> vad_params \<Rightarrow> u32 \<Rightarrow> u32" where
  "stop_threshold_of F p flr =
     (let gap = vo_sub F (vp_start_db p) (vp_stop_db p) in
      vo_sub F (start_threshold_of F p flr) (if f32_lt 0 gap then gap else 0))"

subsection \<open>The buffers\<close>

text \<open>Room for \<open>extra\<close> more samples in the segment.\<close>

definition seg_reserve :: "nat \<Rightarrow> vad \<Rightarrow> heap \<Rightarrow> bool \<times> vad \<times> heap" where
  "seg_reserve extra v h =
     (if length (va_seg v) + extra \<le> va_seg_cap v then (True, v, h)
      else
        let cap = grow_cap (if va_seg_cap v \<noteq> 0 then va_seg_cap v else nat (vp_rate (va_p v))) (length (va_seg v) + extra) in
        (case vv_alloc (of_nat cap * 4) h of
           (None, h) \<Rightarrow> (False, v, h)
         | (Some nb, h) \<Rightarrow> (True, v\<lparr>va_seg_ptr := Some nb, va_seg_cap := cap\<rparr>, vv_free (va_seg_ptr v) h)))"

text \<open>\<^verbatim>\<open>if (seg_reserve(v, n)) { memcpy(...); v->seg_len += n; }\<close>\<close>

definition seg_append :: "u32 list \<Rightarrow> vad \<Rightarrow> heap \<Rightarrow> vad \<times> heap" where
  "seg_append xs v h =
     (case seg_reserve (length xs) v h of
        (True, v, h) \<Rightarrow> (v\<lparr>va_seg := va_seg v @ xs\<rparr>, h)
      | (False, v, h) \<Rightarrow> (v, h))"

definition pre_put :: "u32 \<Rightarrow> vad \<Rightarrow> vad" where
  "pre_put x v =
     v\<lparr>va_pre := (va_pre v)[va_pre_head v := x], va_pre_head := (va_pre_head v + 1) mod length (va_pre v),
       va_pre_len := (if va_pre_len v < length (va_pre v) then va_pre_len v + 1 else va_pre_len v)\<rparr>"

definition pre_push :: "u32 list \<Rightarrow> vad \<Rightarrow> vad" where
  "pre_push xs v = fold pre_put xs v"

text \<open>What the ring holds, oldest first.\<close>

definition ring_list :: "vad \<Rightarrow> u32 list" where
  "ring_list v =
     (let cap = length (va_pre v); start = (va_pre_head v + cap - va_pre_len v) mod cap
      in map (\<lambda>i. va_pre v ! ((start + i) mod cap)) [0..<va_pre_len v])"

definition pre_drain :: "vad \<Rightarrow> heap \<Rightarrow> vad \<times> heap" where
  "pre_drain v h =
     (case seg_reserve (va_pre_len v) v h of
        (False, v, h) \<Rightarrow> (v, h)
      | (True, v, h) \<Rightarrow> (v\<lparr>va_seg := va_seg v @ ring_list v, va_pre_len := 0\<rparr>, h))"

subsection \<open>Frames\<close>

text \<open>A segment handed out is its block and its samples.\<close>

type_synonym pcm = "(nat option \<times> u32 list) option"

definition emit :: "vad \<Rightarrow> pcm \<times> vad" where
  "emit v =
     (if va_seg v = [] then (None, v\<lparr>va_active := False\<rparr>)
      else (Some (va_seg_ptr v, va_seg v),
            v\<lparr>va_seg_ptr := None, va_seg_cap := 0, va_seg := [], va_active := False, va_silence_run := 0, va_speech_run := 0\<rparr>))"

text \<open>The noise floor after a frame of level \<open>db\<close>.\<close>

definition next_floor :: "vad_ops \<Rightarrow> vad_params \<Rightarrow> bool \<Rightarrow> bool \<Rightarrow> u32 \<Rightarrow> u32 \<Rightarrow> u32" where
  "next_floor F p seeded active flr db =
     (let flr = (if \<not> seeded then db
                 else if \<not> active \<and> f32_lt db (start_threshold_of F p flr) then
                   vo_add F flr (vo_mul F (if f32_lt db flr then f32_half else f32_twentieth) (vo_sub F db flr))
                 else flr)
      in if f32_lt flr f32_m90 then f32_m90 else flr)"

definition process_frame :: "vad_ops \<Rightarrow> u32 list \<Rightarrow> vad \<Rightarrow> heap \<Rightarrow> pcm \<times> vad \<times> heap" where
  "process_frame F f v h =
     (let db = vo_db F f; p = va_p v;
          v = v\<lparr>va_level := db, va_floor := next_floor F p (va_floor_init v) (va_active v) (va_floor v) db, va_floor_init := True\<rparr>;
          min_speech = vo_ms F (vp_min_speech_ms p) (vp_rate p);
          hangover = vo_ms F (vp_hangover_ms p) (vp_rate p);
          max_seg = vo_sec F (vp_max_segment_s p) (vp_rate p);
          n = int (length f)
      in if \<not> va_active v then
           let v = pre_push f v in
           if f32_lt (start_threshold_of F p (va_floor v)) db then
             let v = v\<lparr>va_speech_run := va_speech_run v + n\<rparr> in
             if va_speech_run v \<ge> min_speech then
               (case pre_drain (v\<lparr>va_active := True, va_silence_run := 0\<rparr>) h of (v, h) \<Rightarrow>
                case seg_append f v h of (v, h) \<Rightarrow> (None, v, h))
             else (None, v, h)
           else (None, v\<lparr>va_speech_run := 0\<rparr>, h)
         else
           (case seg_append f v h of (v, h) \<Rightarrow>
              let quiet = f32_lt db (stop_threshold_of F p (va_floor v));
                  v = v\<lparr>va_silence_run := (if quiet then va_silence_run v + n else 0)\<rparr>
              in if quiet \<and> va_silence_run v \<ge> hangover then (case emit v of (out, v) \<Rightarrow> (out, v, h))
                 else if int (length (va_seg v)) \<ge> max_seg then (case emit v of (out, v) \<Rightarrow> (out, v, h))
                 else (None, v, h)))"

subsection \<open>The entry points\<close>

definition in_push :: "u32 list \<Rightarrow> vad \<Rightarrow> heap \<Rightarrow> bool \<times> vad \<times> heap" where
  "in_push pcm v h =
     (let v = (if va_in_pos v > 0 then v\<lparr>va_in := drop (va_in_pos v) (va_in v), va_in_pos := 0\<rparr> else v);
          need = length (va_in v) + length pcm
      in if need > va_in_cap v then
           let cap = grow_cap (if va_in_cap v \<noteq> 0 then va_in_cap v else 4096) need in
           (case vv_alloc (of_nat cap * 4) h of
              (None, h) \<Rightarrow> (False, v, h)
            | (Some nb, h) \<Rightarrow>
                (True, v\<lparr>va_in_ptr := Some nb, va_in_cap := cap, va_in := va_in v @ pcm\<rparr>, vv_free (va_in_ptr v) h))
         else (True, v\<lparr>va_in := va_in v @ pcm\<rparr>, h))"

text \<open>The samples the current frame still needs, as far as there are any.\<close>

definition fill :: "vad \<Rightarrow> vad" where
  "fill v =
     (let need = va_frame v - length (va_acc v); avail = length (va_in v) - va_in_pos v;
          k = (if avail < need then avail else need)
      in v\<lparr>va_acc := va_acc v @ take k (drop (va_in_pos v) (va_in v)), va_in_pos := va_in_pos v + k\<rparr>)"

text \<open>The loop over the FIFO; with no frame length it would not end, which is the value \<open>None\<close>.\<close>

partial_function (option) vad_drain :: "vad_ops \<Rightarrow> vad \<Rightarrow> heap \<Rightarrow> (pcm \<times> vad \<times> heap) option" where
  "vad_drain F v h =
     (if va_in_pos v < length (va_in v) then
        let v = fill v in
        if length (va_acc v) < va_frame v then Some (None, v, h)
        else
          (case process_frame F (va_acc v) (v\<lparr>va_acc := []\<rparr>) h of
             (Some out, v, h) \<Rightarrow> Some (Some out, v, h)
           | (None, v, h) \<Rightarrow> vad_drain F v h)
      else Some (None, v, h))"

definition vv_vad_push :: "vad_ops \<Rightarrow> vad option \<Rightarrow> u32 list option \<Rightarrow> bool \<Rightarrow> heap \<Rightarrow> (pcm \<times> vad option \<times> heap) option" where
  "vv_vad_push F v pcm room h =
     (case (v, pcm) of
        (Some v, Some (x # xs)) \<Rightarrow>
          if \<not> room then Some (None, Some v, h)
          else
            (case in_push (x # xs) v h of
               (False, v, h) \<Rightarrow> Some (None, Some v, h)
             | (True, v, h) \<Rightarrow> map_option (\<lambda>(out, v, h). (out, Some v, h)) (vad_drain F v h))
      | _ \<Rightarrow> Some (None, v, h))"

definition vv_vad_drain :: "vad_ops \<Rightarrow> vad option \<Rightarrow> bool \<Rightarrow> heap \<Rightarrow> (pcm \<times> vad option \<times> heap) option" where
  "vv_vad_drain F v room h =
     (case v of
        None \<Rightarrow> Some (None, None, h)
      | Some v \<Rightarrow>
          if \<not> room then Some (None, Some v, h)
          else map_option (\<lambda>(out, v, h). (out, Some v, h)) (vad_drain F v h))"

definition vv_vad_flush :: "vad option \<Rightarrow> bool \<Rightarrow> heap \<Rightarrow> pcm \<times> vad option \<times> heap" where
  "vv_vad_flush v room h =
     (case v of
        None \<Rightarrow> (None, None, h)
      | Some v \<Rightarrow>
          if \<not> room then (None, Some v, h)
          else
            (case (if va_acc v \<noteq> [] \<and> va_active v then seg_append (va_acc v) v h else (v, h)) of (v, h) \<Rightarrow>
               let v = v\<lparr>va_acc := []\<rparr> in
               if va_seg v = [] then (None, Some v, h) else (case emit v of (out, v) \<Rightarrow> (out, Some v, h))))"

definition vv_vad_free :: "vad option \<Rightarrow> heap \<Rightarrow> heap" where
  "vv_vad_free v h =
     (case v of
        None \<Rightarrow> h
      | Some v \<Rightarrow> vv_free (Some (va_ptr v)) (vv_free (va_in_ptr v) (vv_free (va_seg_ptr v)
                    (vv_free (va_pre_ptr v) (vv_free (va_acc_ptr v) h)))))"

text \<open>\<open>prm\<close> is \<open>None\<close> for the defaults. The ring's capacity is an int; a negative one asks for more memory than there is.\<close>

definition vv_vad_create :: "vad_ops \<Rightarrow> vad_params option \<Rightarrow> bool \<Rightarrow> heap \<Rightarrow> vv_status \<times> vad option \<times> heap" where
  "vv_vad_create F prm room h =
     (if \<not> room then (VV_ERR_NULL_PTR, None, h)
      else
        let p = (case prm of Some p \<Rightarrow> p | None \<Rightarrow> vv_vad_params_default) in
        if vp_rate p \<le> 0 then (VV_ERR_INVALID_ARG, None, h)
        else
          (case vv_alloc (h_sizeof h ''vv_vad_t'') h of
             (None, h) \<Rightarrow> (VV_ERR_OUT_OF_MEMORY, None, h)
           | (Some t, h) \<Rightarrow>
               let frame = nat (vp_rate p * 20 div 1000); pre_cap = vo_ms F (vp_pre_roll_ms p) (vp_rate p) + 1 in
               case vv_alloc (of_nat frame * 4) h of (acc, h) \<Rightarrow>
               case vv_alloc (of_int pre_cap * 4) h of (pre, h) \<Rightarrow>
               let v = \<lparr>va_ptr = t, va_p = p, va_frame = frame, va_acc_ptr = acc, va_acc = [], va_in_ptr = None, va_in = [],
                        va_in_cap = 0, va_in_pos = 0, va_pre_ptr = pre, va_pre = replicate (nat pre_cap) 0, va_pre_len = 0,
                        va_pre_head = 0, va_seg_ptr = None, va_seg = [], va_seg_cap = 0, va_active = False,
                        va_silence_run = 0, va_speech_run = 0, va_level = f32_m120, va_floor = f32_m90, va_floor_init = False\<rparr>
               in if acc = None \<or> pre = None then (VV_ERR_OUT_OF_MEMORY, None, vv_vad_free (Some v) h)
                  else (VV_OK, Some v, h)))"

definition vv_vad_active :: "vad option \<Rightarrow> bool" where
  "vv_vad_active v = (case v of None \<Rightarrow> False | Some v \<Rightarrow> va_active v)"

definition vv_vad_threshold_db :: "vad_ops \<Rightarrow> vad option \<Rightarrow> u32" where
  "vv_vad_threshold_db F v = (case v of None \<Rightarrow> 0 | Some v \<Rightarrow> start_threshold_of F (va_p v) (va_floor v))"

definition vv_vad_level_db :: "vad option \<Rightarrow> u32" where
  "vv_vad_level_db v = (case v of None \<Rightarrow> f32_m120 | Some v \<Rightarrow> va_level v)"

definition vv_vad_noise_floor_db :: "vad option \<Rightarrow> u32" where
  "vv_vad_noise_floor_db v = (case v of None \<Rightarrow> f32_m120 | Some v \<Rightarrow> va_floor v)"

subsection \<open>A capture session\<close>

text \<open>
  The loop of \<^verbatim>\<open>vv_cli mic\<close> (\<^verbatim>\<open>src/cli/cmd_chat.c\<close>) over the pieces the capture device delivers: push, then drain until nothing
  more comes out, and flush at the end. The samples of every segment are collected where the program transcribes them;
  their blocks are freed.
\<close>

definition free_pcm :: "pcm \<Rightarrow> heap \<Rightarrow> heap" where
  "free_pcm out h = (case out of None \<Rightarrow> h | Some (p, _) \<Rightarrow> vv_free p h)"

definition pcm_list :: "pcm \<Rightarrow> u32 list list" where
  "pcm_list out = (case out of None \<Rightarrow> [] | Some s \<Rightarrow> [snd s])"

partial_function (option) take_all ::
  "vad_ops \<Rightarrow> pcm \<Rightarrow> u32 list list \<Rightarrow> vad option \<Rightarrow> heap \<Rightarrow> (u32 list list \<times> vad option \<times> heap) option" where
  "take_all F out done v h =
     (case out of
        None \<Rightarrow> Some (done, v, h)
      | Some s \<Rightarrow>
          (case vv_vad_drain F v True (free_pcm out h) of
             None \<Rightarrow> None
           | Some (out, v, h) \<Rightarrow> take_all F out (done @ [snd s]) v h))"

fun listen :: "vad_ops \<Rightarrow> u32 list list \<Rightarrow> u32 list list \<Rightarrow> vad option \<Rightarrow> heap \<Rightarrow> (u32 list list \<times> vad option \<times> heap) option" where
  "listen F [] done v h = Some (done, v, h)"
| "listen F (xs # pieces) done v h =
     (case vv_vad_push F v (Some xs) True h of
        None \<Rightarrow> None
      | Some (out, v, h) \<Rightarrow>
          (case take_all F out done v h of
             None \<Rightarrow> None
           | Some (done, v, h) \<Rightarrow> listen F pieces done v h))"

definition mic_session :: "vad_ops \<Rightarrow> vad_params \<Rightarrow> u32 list list \<Rightarrow> heap \<Rightarrow> (u32 list list option \<times> heap) option" where
  "mic_session F p pieces h =
     (case vv_vad_create F (Some p) True h of (s, v, h) \<Rightarrow>
        if s \<noteq> VV_OK then Some (None, h)
        else
          (case listen F pieces [] v h of
             None \<Rightarrow> None
           | Some (done, v, h) \<Rightarrow>
               (case vv_vad_flush v True h of (out, v, h) \<Rightarrow> Some (Some (done @ pcm_list out), vv_vad_free v (free_pcm out h)))))"

subsection \<open>The ring holds the last samples\<close>

definition last_n :: "nat \<Rightarrow> 'a list \<Rightarrow> 'a list" where
  "last_n n xs = drop (length xs - n) xs"

lemma last_n_last_n: "last_n n (last_n n xs @ ys) = last_n n (xs @ ys)"
  by (cases "length xs \<le> n") (auto simp: last_n_def add.commute)

definition ring_ok :: "vad \<Rightarrow> bool" where
  "ring_ok v \<longleftrightarrow> 0 < length (va_pre v) \<and> va_pre_head v < length (va_pre v) \<and> va_pre_len v \<le> length (va_pre v)"

lemma ring_nth:
  assumes "ring_ok v" and "i < va_pre_len v"
  shows "ring_list v ! i = va_pre v ! ((va_pre_head v + (length (va_pre v) - va_pre_len v) + i) mod length (va_pre v))"
  using assms by (simp add: ring_list_def Let_def ring_ok_def mod_add_left_eq)

lemma length_ring [simp]: "length (ring_list v) = va_pre_len v"
  by (simp add: ring_list_def Let_def)

lemma off_head: "(h :: nat) < c \<Longrightarrow> 0 < k \<Longrightarrow> k < c \<Longrightarrow> (h + k) mod c \<noteq> h"
  by (cases "h + k < c") (auto simp: mod_if)

lemma ring_put:
  assumes ok: "ring_ok v"
  shows "ring_ok (pre_put x v) \<and> ring_list (pre_put x v) = last_n (length (va_pre v)) (ring_list v @ [x])"
proof -
  let ?c = "length (va_pre v)" and ?h = "va_pre_head v" and ?l = "va_pre_len v"
  have c: "0 < ?c" "?h < ?c" "?l \<le> ?c" using ok by (simp_all add: ring_ok_def)
  have ok': "ring_ok (pre_put x v)" using ok by (auto simp: ring_ok_def pre_put_def)
  have nth: "ring_list (pre_put x v) ! i =
      (va_pre v)[?h := x] ! ((?h + 1 + (?c - va_pre_len (pre_put x v)) + i) mod ?c)" if "i < va_pre_len (pre_put x v)" for i
    unfolding ring_nth [OF ok' that] by (simp add: pre_put_def mod_add_left_eq add.assoc)
  show ?thesis
  proof (cases "?l < ?c")
    case True
    then have l': "va_pre_len (pre_put x v) = ?l + 1" by (simp add: pre_put_def)
    have "ring_list (pre_put x v) = ring_list v @ [x]"
    proof (rule nth_equalityI)
      show "length (ring_list (pre_put x v)) = length (ring_list v @ [x])" by (simp add: l')
    next
      fix i assume "i < length (ring_list (pre_put x v))"
      then have i: "i < ?l + 1" by (simp add: l')
      have e: "?h + 1 + (?c - va_pre_len (pre_put x v)) + i = ?h + (?c - ?l) + i" using True by (simp add: l')
      have n: "ring_list (pre_put x v) ! i = (va_pre v)[?h := x] ! ((?h + (?c - ?l) + i) mod ?c)"
        using nth [of i] i unfolding e by (simp add: l')
      show "ring_list (pre_put x v) ! i = (ring_list v @ [x]) ! i"
      proof (cases "i < ?l")
        case il: True
        have "(?h + (?c - ?l + i)) mod ?c \<noteq> ?h" using c True il by (intro off_head) auto
        then show ?thesis using n il ring_nth [OF ok il] by (simp add: nth_append add.assoc)
      next
        case False
        then have "i = ?l" using i by simp
        then have "(?h + (?c - ?l) + i) mod ?c = ?h" using c by simp
        then show ?thesis using n \<open>i = ?l\<close> c by (simp add: nth_append)
      qed
    qed
    then show ?thesis using ok' True by (simp add: last_n_def)
  next
    case False
    then have l: "?l = ?c" "va_pre_len (pre_put x v) = ?c" using c by (simp_all add: pre_put_def)
    have "ring_list (pre_put x v) = drop 1 (ring_list v @ [x])"
    proof (rule nth_equalityI)
      show "length (ring_list (pre_put x v)) = length (drop 1 (ring_list v @ [x]))" by (simp add: l)
    next
      fix i assume "i < length (ring_list (pre_put x v))"
      then have i: "i < ?c" by (simp add: l)
      have n: "ring_list (pre_put x v) ! i = (va_pre v)[?h := x] ! ((?h + 1 + i) mod ?c)" using nth [of i] i by (simp add: l)
      show "ring_list (pre_put x v) ! i = drop 1 (ring_list v @ [x]) ! i"
      proof (cases "i + 1 < ?c")
        case True
        have "(?h + (1 + i)) mod ?c \<noteq> ?h" using c True by (intro off_head) auto
        then show ?thesis using n ring_nth [OF ok, of "i + 1"] True by (simp add: l nth_append add.assoc less_diff_conv)
      next
        case False
        then have e: "i = ?c - 1" using i by simp
        then have q: "?h + 1 + i = ?h + ?c" using c by simp
        have "(?h + 1 + i) mod ?c = ?h" by (simp only: q mod_add_self2 mod_less [OF c(2)])
        then show ?thesis using n c e by (simp add: l nth_append)
      qed
    qed
    then show ?thesis using ok' by (simp add: last_n_def l)
  qed
qed

lemma ring_push:
  assumes "ring_ok v" and "va_pre_len v \<le> length (va_pre v)"
  shows "ring_ok (pre_push xs v) \<and> ring_list (pre_push xs v) = last_n (length (va_pre v)) (ring_list v @ xs) \<and>
    pre_push xs v = v\<lparr>va_pre := va_pre (pre_push xs v), va_pre_len := va_pre_len (pre_push xs v), va_pre_head := va_pre_head (pre_push xs v)\<rparr> \<and>
    length (va_pre (pre_push xs v)) = length (va_pre v)"
  using assms
proof (induction xs arbitrary: v)
  case Nil
  then show ?case by (simp add: pre_push_def last_n_def)
next
  case (Cons x xs)
  have put: "ring_ok (pre_put x v)" "ring_list (pre_put x v) = last_n (length (va_pre v)) (ring_list v @ [x])"
    "length (va_pre (pre_put x v)) = length (va_pre v)"
    using ring_put [OF Cons.prems(1), of x] by (simp_all add: pre_put_def)
  have "va_pre_len (pre_put x v) \<le> length (va_pre (pre_put x v))" using put(1) by (simp add: ring_ok_def)
  note ih = Cons.IH [OF put(1) this]
  have e: "pre_push (x # xs) v = pre_push xs (pre_put x v)" by (simp add: pre_push_def)
  have "pre_push xs (pre_put x v) = v\<lparr>va_pre := va_pre (pre_push xs (pre_put x v)), va_pre_len := va_pre_len (pre_push xs (pre_put x v)),
      va_pre_head := va_pre_head (pre_push xs (pre_put x v))\<rparr>"
    by (subst ih [THEN conjunct2, THEN conjunct2, THEN conjunct1]) (simp add: pre_put_def)
  then show ?case using ih put(2,3) unfolding e by (simp add: last_n_last_n [of _ _ xs])
qed

subsection \<open>The gate without its buffers\<close>

text \<open>
  What the gate decides, frame by frame, on plain lists: the samples before an utterance, the segment being built, the
  counters and the noise floor. \<open>cap\<close> is the length of the pre-roll.
\<close>

record gate =
  gt_recent :: "u32 list"
  gt_seg :: "u32 list"
  gt_active :: bool
  gt_silence :: int
  gt_speech :: int
  gt_floor :: u32
  gt_seeded :: bool

definition gate_emit :: "gate \<Rightarrow> u32 list option \<times> gate" where
  "gate_emit g =
     (if gt_seg g = [] then (None, g\<lparr>gt_active := False\<rparr>)
      else (Some (gt_seg g), g\<lparr>gt_seg := [], gt_active := False, gt_silence := 0, gt_speech := 0\<rparr>))"

definition gate_step :: "vad_ops \<Rightarrow> vad_params \<Rightarrow> nat \<Rightarrow> u32 list \<Rightarrow> gate \<Rightarrow> u32 list option \<times> gate" where
  "gate_step F p cap f g =
     (let db = vo_db F f; n = int (length f); flr = next_floor F p (gt_seeded g) (gt_active g) (gt_floor g) db;
          g = g\<lparr>gt_floor := flr, gt_seeded := True\<rparr>
      in if gt_active g then
           let seg = gt_seg g @ f; quiet = f32_lt db (stop_threshold_of F p flr);
               silence = (if quiet then gt_silence g + n else 0);
               g = g\<lparr>gt_seg := seg, gt_silence := silence\<rparr>
           in if quiet \<and> silence \<ge> vo_ms F (vp_hangover_ms p) (vp_rate p) \<or> int (length seg) \<ge> vo_sec F (vp_max_segment_s p) (vp_rate p)
              then gate_emit g else (None, g)
         else
           let recent = last_n cap (gt_recent g @ f) in
           if f32_lt (start_threshold_of F p flr) db then
             let speech = gt_speech g + n in
             if speech \<ge> vo_ms F (vp_min_speech_ms p) (vp_rate p)
             then (None, g\<lparr>gt_recent := [], gt_seg := gt_seg g @ recent @ f, gt_active := True, gt_silence := 0, gt_speech := speech\<rparr>)
             else (None, g\<lparr>gt_recent := recent, gt_speech := speech\<rparr>)
           else (None, g\<lparr>gt_recent := recent, gt_speech := 0\<rparr>))"

fun gate_run :: "vad_ops \<Rightarrow> vad_params \<Rightarrow> nat \<Rightarrow> u32 list list \<Rightarrow> gate \<Rightarrow> u32 list list \<times> gate" where
  "gate_run F p cap [] g = ([], g)"
| "gate_run F p cap (f # fs) g =
     (case gate_step F p cap f g of (out, g) \<Rightarrow>
      case gate_run F p cap fs g of (outs, g) \<Rightarrow> ((case out of None \<Rightarrow> outs | Some s \<Rightarrow> s # outs), g))"

text \<open>The whole frames of a list of samples, and what is left.\<close>

function frames_of :: "nat \<Rightarrow> u32 list \<Rightarrow> u32 list list \<times> u32 list" where
  "frames_of n xs =
     (if n = 0 \<or> length xs < n then ([], xs) else case frames_of n (drop n xs) of (fs, r) \<Rightarrow> (take n xs # fs, r))"
  by pat_completeness auto
termination by (relation "measure (\<lambda>(n, xs). length xs)") auto

declare frames_of.simps [simp del]

definition gate_close :: "gate \<Rightarrow> u32 list \<Rightarrow> u32 list list" where
  "gate_close g rest = (let s = gt_seg g @ (if gt_active g then rest else []) in if s = [] then [] else [s])"

definition gate_start :: gate where
  "gate_start = \<lparr>gt_recent = [], gt_seg = [], gt_active = False, gt_silence = 0, gt_speech = 0, gt_floor = f32_m90, gt_seeded = False\<rparr>"

definition vad_frame :: "vad_params \<Rightarrow> nat" where "vad_frame p = nat (vp_rate p * 20 div 1000)"

definition vad_pre :: "vad_ops \<Rightarrow> vad_params \<Rightarrow> nat" where "vad_pre F p = nat (vo_ms F (vp_pre_roll_ms p) (vp_rate p) + 1)"

text \<open>The segments of a whole recording.\<close>

definition gate_session :: "vad_ops \<Rightarrow> vad_params \<Rightarrow> u32 list \<Rightarrow> u32 list list" where
  "gate_session F p xs =
     (case frames_of (vad_frame p) xs of (fs, rest) \<Rightarrow>
      case gate_run F p (vad_pre F p) fs gate_start of (segs, g) \<Rightarrow> segs @ gate_close g rest)"

definition gate_of :: "vad \<Rightarrow> gate" where
  "gate_of v = \<lparr>gt_recent = ring_list v, gt_seg = va_seg v, gt_active = va_active v, gt_silence = va_silence_run v,
     gt_speech = va_speech_run v, gt_floor = va_floor v, gt_seeded = va_floor_init v\<rparr>"

subsection \<open>The buffers and their memory\<close>

definition vad_blocks :: "vad \<Rightarrow> block multiset" where
  "vad_blocks v = add_mset (Host, va_ptr v) (opt_block Host (va_acc_ptr v) + opt_block Host (va_pre_ptr v) +
     opt_block Host (va_seg_ptr v) + opt_block Host (va_in_ptr v))"

definition pcm_blocks :: "pcm \<Rightarrow> block multiset" where
  "pcm_blocks out = (case out of None \<Rightarrow> {#} | Some (p, _) \<Rightarrow> opt_block Host p)"

text \<open>
  \<open>vad_ok\<close>: the structure every operation keeps. Between utterances the segment is empty, an open one has at most
  \<open>seg_most\<close> samples, and its buffer at most \<open>cap_most\<close>, so that lengths stay in an \<open>int\<close> when \<open>cap_most\<close> does.
\<close>

definition seg_most :: "vad_ops \<Rightarrow> vad \<Rightarrow> nat" where
  "seg_most F v = max (nat (vo_sec F (vp_max_segment_s (va_p v)) (vp_rate (va_p v)))) (length (va_pre v) + va_frame v)"

definition cap_most :: "vad_ops \<Rightarrow> vad \<Rightarrow> nat" where
  "cap_most F v = max (nat (vp_rate (va_p v))) (2 * (seg_most F v + va_frame v))"

definition vad_ok :: "vad_ops \<Rightarrow> vad \<Rightarrow> bool" where
  "vad_ok F v \<longleftrightarrow> ring_ok v \<and> length (va_acc v) < va_frame v \<and> va_in_pos v \<le> length (va_in v) \<and> length (va_in v) \<le> va_in_cap v \<and>
     length (va_seg v) \<le> va_seg_cap v \<and> 0 < vp_rate (va_p v) \<and> (va_active v \<or> va_seg v = []) \<and>
     length (va_seg v) \<le> seg_most F v \<and> va_seg_cap v \<le> cap_most F v"

lemma cap_bytes_neq_0: "0 < cap \<Longrightarrow> cap < 2 ^ 61 \<Longrightarrow> of_nat cap * 4 \<noteq> (0 :: u64)"
  using of_nat_neq_0 [of "cap * 4"] by simp

lemma seg_reserve_keeps:
  assumes e: "seg_reserve extra v h = (ok, v', h')" and ow: "owns h (vad_blocks v + M)" and rate: "0 < vp_rate (va_p v)"
    and B: "va_seg_cap v \<le> B" "nat (vp_rate (va_p v)) \<le> B" "2 * (length (va_seg v) + extra) \<le> B"
  shows "owns h' (vad_blocks v' + M) \<and> v' = v\<lparr>va_seg_ptr := va_seg_ptr v', va_seg_cap := va_seg_cap v'\<rparr> \<and>
    (ok \<longrightarrow> length (va_seg v) + extra \<le> va_seg_cap v') \<and> va_seg_cap v \<le> va_seg_cap v' \<and> va_seg_cap v' \<le> B \<and>
    (host_never_fails h \<longrightarrow> host_never_fails h' \<and> (B < 2 ^ 31 \<longrightarrow> ok))"
proof (cases "length (va_seg v) + extra \<le> va_seg_cap v")
  case True
  then show ?thesis using e ow B by (auto simp: seg_reserve_def)
next
  case False
  define c0 where "c0 = (if va_seg_cap v \<noteq> 0 then va_seg_cap v else nat (vp_rate (va_p v)))"
  define cap where "cap = grow_cap c0 (length (va_seg v) + extra)"
  have c0: "0 < c0" "c0 \<le> B" using rate B by (simp_all add: c0_def)
  note g = grow_cap_bounds [OF c0(1), of "length (va_seg v) + extra", folded cap_def]
  have cB: "cap \<le> B" using g c0 B(3) by (auto simp: max_def split: if_splits)
  obtain x h1 where va: "vv_alloc (of_nat cap * 4) h = (x, h1)" by fastforce
  note o = vv_alloc_owns [OF ow va]
  have nz: "of_nat cap * 4 \<noteq> (0 :: u64)" if "B < 2 ^ 31"
    using cB g c0 that by (intro cap_bytes_neq_0) auto
  have eq: "(ok, v', h') = (case x of None \<Rightarrow> (False, v, h1)
      | Some nb \<Rightarrow> (True, v\<lparr>va_seg_ptr := Some nb, va_seg_cap := cap\<rparr>, vv_free (va_seg_ptr v) h1))"
    unfolding e [symmetric] seg_reserve_def Let_def if_not_P [OF False] c0_def [symmetric] cap_def [symmetric] va prod.case
    by (cases x) simp_all
  show ?thesis
  proof (cases x)
    case None
    have "\<not> B < 2 ^ 31" if "host_never_fails h"
      using vv_alloc_never_fails [OF that _ va] nz None by blast
    then show ?thesis using eq None o B alloc_keeps_never_fails [OF _ va] by auto
  next
    case (Some nb)
    have "owns h1 (opt_block Host (va_seg_ptr v) + (add_mset (Host, nb) (add_mset (Host, va_ptr v)
        (opt_block Host (va_acc_ptr v) + opt_block Host (va_pre_ptr v) + opt_block Host (va_in_ptr v))) + M))"
      using o Some by (simp add: vad_blocks_def ac_simps add_mset_commute)
    then have "owns (vv_free (va_seg_ptr v) h1) (vad_blocks (v\<lparr>va_seg_ptr := Some nb, va_seg_cap := cap\<rparr>) + M)"
      using owns_free_opt by (fastforce simp: vad_blocks_def opt_block_def ac_simps add_mset_commute)
    then show ?thesis using eq Some alloc_keeps_never_fails [OF _ va] g False cB by auto
  qed
qed

lemma seg_append_keeps:
  assumes e: "seg_append xs v h = (v', h')" and ow: "owns h (vad_blocks v + M)" and rate: "0 < vp_rate (va_p v)"
    and B: "va_seg_cap v \<le> B" "nat (vp_rate (va_p v)) \<le> B" "2 * (length (va_seg v) + length xs) \<le> B"
    and len: "length (va_seg v) \<le> va_seg_cap v"
  shows "owns h' (vad_blocks v' + M) \<and>
    v' = v\<lparr>va_seg_ptr := va_seg_ptr v', va_seg_cap := va_seg_cap v', va_seg := va_seg v'\<rparr> \<and>
    length (va_seg v') \<le> va_seg_cap v' \<and> va_seg_cap v' \<le> B \<and> length (va_seg v') \<le> length (va_seg v) + length xs \<and>
    (host_never_fails h \<longrightarrow> host_never_fails h' \<and> (B < 2 ^ 31 \<longrightarrow> va_seg v' = va_seg v @ xs))"
proof -
  obtain ok v1 h1 where r: "seg_reserve (length xs) v h = (ok, v1, h1)" by (rule prod_cases3)
  note k = seg_reserve_keeps [OF r ow rate B]
  have seg: "va_seg v1 = va_seg v" by (subst k [THEN conjunct2, THEN conjunct1]) simp
  have "(v', h') = (if ok then v1\<lparr>va_seg := va_seg v @ xs\<rparr> else v1, h1)"
    using e seg by (cases ok) (simp_all add: seg_append_def r)
  then show ?thesis using k seg len by (cases ok) (auto simp: vad_blocks_def)
qed

lemma pre_drain_keeps:
  assumes e: "pre_drain v h = (v', h')" and ow: "owns h (vad_blocks v + M)" and rate: "0 < vp_rate (va_p v)"
    and B: "va_seg_cap v \<le> B" "nat (vp_rate (va_p v)) \<le> B" "2 * (length (va_seg v) + va_pre_len v) \<le> B"
    and len: "length (va_seg v) \<le> va_seg_cap v"
  shows "owns h' (vad_blocks v' + M) \<and>
    v' = v\<lparr>va_seg_ptr := va_seg_ptr v', va_seg_cap := va_seg_cap v', va_seg := va_seg v', va_pre_len := va_pre_len v'\<rparr> \<and>
    length (va_seg v') \<le> va_seg_cap v' \<and> va_seg_cap v' \<le> B \<and> length (va_seg v') \<le> length (va_seg v) + va_pre_len v \<and>
    va_pre_len v' \<le> va_pre_len v \<and>
    (host_never_fails h \<longrightarrow> host_never_fails h' \<and> (B < 2 ^ 31 \<longrightarrow> va_seg v' = va_seg v @ ring_list v \<and> va_pre_len v' = 0))"
proof -
  obtain ok v1 h1 where r: "seg_reserve (va_pre_len v) v h = (ok, v1, h1)" by (rule prod_cases3)
  note k = seg_reserve_keeps [OF r ow rate B]
  have same: "va_seg v1 = va_seg v" "ring_list v1 = ring_list v" "va_pre_len v1 = va_pre_len v"
    by (subst k [THEN conjunct2, THEN conjunct1], simp add: ring_list_def)+
  have "(v', h') = (if ok then v1\<lparr>va_seg := va_seg v @ ring_list v, va_pre_len := 0\<rparr> else v1, h1)"
    using e same by (cases ok) (simp_all add: pre_drain_def r)
  then show ?thesis using k same len by (cases ok) (auto simp: vad_blocks_def)
qed

definition same_input :: "vad \<Rightarrow> vad \<Rightarrow> bool" where
  "same_input v v' \<longleftrightarrow> va_p v' = va_p v \<and> va_frame v' = va_frame v \<and> va_acc v' = va_acc v \<and> va_in v' = va_in v \<and>
     va_in_pos v' = va_in_pos v \<and> va_in_cap v' = va_in_cap v \<and> length (va_pre v') = length (va_pre v)"

lemma emit_keeps:
  assumes e: "emit v = (out, v')" and ow: "owns h (vad_blocks v + M)"
    and ok: "ring_ok v" "length (va_acc v) < va_frame v" "va_in_pos v \<le> length (va_in v)" "length (va_in v) \<le> va_in_cap v"
      "length (va_seg v) \<le> va_seg_cap v" "0 < vp_rate (va_p v)" "va_seg_cap v \<le> cap_most F v"
  shows "owns h (vad_blocks v' + pcm_blocks out + M) \<and> vad_ok F v' \<and> same_input v v' \<and>
    gate_emit (gate_of v) = (map_option snd out, gate_of v')"
proof (cases "va_seg v = []")
  case True
  then have v': "out = None" "v' = v\<lparr>va_active := False\<rparr>" using e by (simp_all add: emit_def)
  show ?thesis using ow ok True unfolding v'
    by (simp add: vad_ok_def same_input_def gate_emit_def gate_of_def vad_blocks_def pcm_blocks_def ring_ok_def ring_list_def
        cap_most_def seg_most_def)
next
  case False
  define w where "w = v\<lparr>va_seg_ptr := None, va_seg_cap := 0, va_seg := [], va_active := False, va_silence_run := 0, va_speech_run := 0\<rparr>"
  have v': "out = Some (va_seg_ptr v, va_seg v)" "v' = w" using e False by (simp_all add: emit_def w_def)
  have "vad_blocks v = vad_blocks w + opt_block Host (va_seg_ptr v)" by (simp add: vad_blocks_def w_def opt_block_def)
  then have o: "owns h (vad_blocks w + pcm_blocks out + M)" using ow by (simp add: pcm_blocks_def v')
  have k: "vad_ok F w" "same_input v w"
    using ok by (simp_all add: w_def vad_ok_def same_input_def ring_ok_def cap_most_def seg_most_def)
  have "gate_emit (gate_of v) = (map_option snd out, gate_of w)"
    using False by (simp add: w_def v' gate_emit_def gate_of_def ring_list_def)
  then show ?thesis using o k v' by simp
qed

lemma active_frame:
  assumes e: "process_frame F f v h = (out, v', h')" and ow: "owns h (vad_blocks v + M)" and ok: "vad_ok F v"
    and f: "length f = va_frame v" and act: "va_active v"
  shows "owns h' (vad_blocks v' + pcm_blocks out + M) \<and> vad_ok F v' \<and> same_input v v' \<and>
    (host_never_fails h \<longrightarrow> host_never_fails h' \<and> (cap_most F v < 2 ^ 31 \<longrightarrow>
       gate_step F (va_p v) (length (va_pre v)) f (gate_of v) = (map_option snd out, gate_of v')))"
proof -
  define flr where "flr = next_floor F (va_p v) (va_floor_init v) (va_active v) (va_floor v) (vo_db F f)"
  define v1 where "v1 = v\<lparr>va_level := vo_db F f, va_floor := flr, va_floor_init := True\<rparr>"
  obtain v2 h2 where a: "seg_append f v1 h = (v2, h2)" by fastforce
  have p: "owns h (vad_blocks v1 + M)" "0 < vp_rate (va_p v1)" "va_seg_cap v1 \<le> cap_most F v" "nat (vp_rate (va_p v1)) \<le> cap_most F v"
    "2 * (length (va_seg v1) + length f) \<le> cap_most F v" "length (va_seg v1) \<le> va_seg_cap v1"
    using ow ok f by (auto simp: v1_def vad_blocks_def vad_ok_def cap_most_def)
  note k = seg_append_keeps [OF a p]
  obtain sp sc ss where v2: "v2 = v1\<lparr>va_seg_ptr := sp, va_seg_cap := sc, va_seg := ss\<rparr>" using k by blast
  define quiet where "quiet = f32_lt (vo_db F f) (stop_threshold_of F (va_p v) flr)"
  define v3 where "v3 = v2\<lparr>va_silence_run := (if quiet then va_silence_run v + int (length f) else 0)\<rparr>"
  define stop where "stop \<longleftrightarrow> quiet \<and> va_silence_run v3 \<ge> vo_ms F (vp_hangover_ms (va_p v)) (vp_rate (va_p v)) \<or>
    int (length ss) \<ge> vo_sec F (vp_max_segment_s (va_p v)) (vp_rate (va_p v))"
  have eq: "process_frame F f v h = (case (if stop then emit v3 else (None, v3)) of (out, v) \<Rightarrow> (out, v, h2))"
    using act a v2 by (auto simp: process_frame_def Let_def v1_def flr_def quiet_def v3_def stop_def split: prod.splits)
  have ow3: "owns h2 (vad_blocks v3 + M)" using k by (simp add: v3_def vad_blocks_def)
  have ok3: "ring_ok v3" "length (va_acc v3) < va_frame v3" "va_in_pos v3 \<le> length (va_in v3)" "length (va_in v3) \<le> va_in_cap v3"
      "length (va_seg v3) \<le> va_seg_cap v3" "0 < vp_rate (va_p v3)" "va_seg_cap v3 \<le> cap_most F v3" "cap_most F v3 = cap_most F v"
      "same_input v v3" "va_active v3" "va_seg v3 = ss"
    using ok k act by (simp_all add: v3_def v2 v1_def vad_ok_def ring_ok_def cap_most_def seg_most_def same_input_def)
  have g: "gate_step F (va_p v) (length (va_pre v)) f (gate_of v) = (if stop then gate_emit (gate_of v3) else (None, gate_of v3))"
    if "host_never_fails h" "cap_most F v < 2 ^ 31"
  proof -
    have "ss = va_seg v @ f" using k that by (simp add: v2 v1_def)
    then show ?thesis using act
      by (simp add: gate_step_def gate_of_def Let_def flr_def v3_def v2 v1_def ring_list_def quiet_def stop_def)
  qed
  show ?thesis
  proof (cases stop)
    case True
    then have "emit v3 = (out, v')" "h' = h2" using e eq by (auto split: prod.splits)
    note m = emit_keeps [OF this(1) ow3 ok3(1-7)]
    have "same_input v v'" using m ok3(9) by (simp add: same_input_def)
    then show ?thesis using m g k True \<open>h' = h2\<close> by auto
  next
    case False
    then have "out = None" "v' = v3" "h' = h2" using e eq by auto
    moreover have "vad_ok F v3" using ok3 False by (auto simp: vad_ok_def stop_def seg_most_def same_input_def)
    ultimately show ?thesis using ow3 ok3(9) g k False by (auto simp: pcm_blocks_def)
  qed
qed

lemma idle_frame:
  assumes e: "process_frame F f v h = (out, v', h')" and ow: "owns h (vad_blocks v + M)" and ok: "vad_ok F v"
    and f: "length f = va_frame v" and act: "\<not> va_active v"
  shows "owns h' (vad_blocks v' + M) \<and> out = None \<and> vad_ok F v' \<and> same_input v v' \<and>
    (host_never_fails h \<longrightarrow> host_never_fails h' \<and> (cap_most F v < 2 ^ 31 \<longrightarrow>
       gate_step F (va_p v) (length (va_pre v)) f (gate_of v) = (None, gate_of v')))"
proof -
  define flr where "flr = next_floor F (va_p v) (va_floor_init v) False (va_floor v) (vo_db F f)"
  define v1 where "v1 = v\<lparr>va_level := vo_db F f, va_floor := flr, va_floor_init := True\<rparr>"
  define v2 where "v2 = pre_push f v1"
  define loud where "loud = f32_lt (start_threshold_of F (va_p v) flr) (vo_db F f)"
  define run where "run = va_speech_run v + int (length f)"
  define trigger where "trigger \<longleftrightarrow> loud \<and> run \<ge> vo_ms F (vp_min_speech_ms (va_p v)) (vp_rate (va_p v))"
  define v4 where "v4 = v2\<lparr>va_speech_run := run, va_active := True, va_silence_run := 0\<rparr>"
  have big: "length (va_pre v) + va_frame v \<le> seg_most F v" "2 * (seg_most F v + va_frame v) \<le> cap_most F v"
    "nat (vp_rate (va_p v)) \<le> cap_most F v"
    by (simp_all add: seg_most_def cap_most_def)
  have seg: "va_seg v = []" using ok act by (simp add: vad_ok_def)
  have ring: "ring_ok v1" "va_pre_len v1 \<le> length (va_pre v1)" "length (va_pre v1) = length (va_pre v)" "ring_list v1 = ring_list v"
    using ok by (simp_all add: v1_def vad_ok_def ring_ok_def ring_list_def)
  note push = ring_push [OF ring(1,2), of f, folded v2_def, unfolded ring(3,4)]
  obtain pr pl ph where v2: "v2 = v1\<lparr>va_pre := pr, va_pre_len := pl, va_pre_head := ph\<rparr>" using push by blast
  have pre: "length pr = length (va_pre v)" "pl \<le> length (va_pre v)" "ring_list v2 = last_n (length (va_pre v)) (ring_list v @ f)" "ring_ok v2"
    using push ring(1,3) by (auto simp: v2 ring_ok_def)
  obtain v5 h1 where d: "pre_drain v4 h = (v5, h1)" by fastforce
  obtain v6 h2 where a: "seg_append f v5 h1 = (v6, h2)" by fastforce
  have v2s: "pre_push f v1 = v2" "va_p v2 = va_p v" "va_floor v2 = flr" "va_active v2 = False" "va_speech_run v2 = va_speech_run v"
    using act by (simp_all add: v2_def [symmetric], simp_all add: v2 v1_def)
  have eq: "process_frame F f v h = (if trigger then (None, v6, h2)
      else (None, v2\<lparr>va_speech_run := (if loud then run else 0)\<rparr>, h))"
    using act d a v2s by (simp add: process_frame_def Let_def flr_def [symmetric] v1_def [symmetric] loud_def run_def trigger_def v4_def)
  have g: "gate_step F (va_p v) (length (va_pre v)) f (gate_of v) = (None, (gate_of v2)
      \<lparr>gt_recent := (if trigger then [] else ring_list v2), gt_seg := (if trigger then ring_list v2 @ f else []),
       gt_active := trigger, gt_silence := (if trigger then 0 else va_silence_run v), gt_speech := (if loud then run else 0)\<rparr>)"
    using act seg pre(3)
    by (simp add: gate_step_def gate_of_def Let_def flr_def loud_def run_def trigger_def, simp add: v2 v1_def flr_def)
  show ?thesis
  proof (cases trigger)
    case False
    then have v': "out = None" "v' = v2\<lparr>va_speech_run := (if loud then run else 0)\<rparr>" "h' = h" using e eq by simp_all
    have "vad_ok F v'" "same_input v v'"
      using ok act pre(1,2,4) unfolding v' by (simp_all add: v2 v1_def vad_ok_def ring_ok_def same_input_def cap_most_def seg_most_def)
    moreover have "vad_blocks v' = vad_blocks v" unfolding v' by (simp add: v2 v1_def vad_blocks_def)
    moreover have "gate_of v' = (gate_of v2)\<lparr>gt_recent := ring_list v2, gt_seg := [], gt_active := False, gt_silence := va_silence_run v,
        gt_speech := (if loud then run else 0)\<rparr>"
      using act seg unfolding v' by (simp add: gate_of_def ring_list_def, simp add: v2 v1_def)
    ultimately show ?thesis using ow g False v' by simp
  next
    case True
    then have v': "out = None" "v' = v6" "h' = h2" using e eq by simp_all
    have p4: "owns h (vad_blocks v4 + M)" "0 < vp_rate (va_p v4)" "va_seg_cap v4 \<le> cap_most F v" "nat (vp_rate (va_p v4)) \<le> cap_most F v"
      "2 * (length (va_seg v4) + va_pre_len v4) \<le> cap_most F v" "length (va_seg v4) \<le> va_seg_cap v4"
      using ow ok seg pre big by (auto simp: v4_def v2 v1_def vad_blocks_def vad_ok_def)
    note k5 = pre_drain_keeps [OF d p4]
    obtain sp sc ss sl where v5: "v5 = v4\<lparr>va_seg_ptr := sp, va_seg_cap := sc, va_seg := ss, va_pre_len := sl\<rparr>" using k5 by blast
    have ss: "length ss \<le> length (va_pre v)" "sl \<le> pl" "length ss \<le> sc" "sc \<le> cap_most F v"
      using k5 seg pre by (simp_all add: v5 v4_def v2 v1_def)
    have p5: "owns h1 (vad_blocks v5 + M)" "0 < vp_rate (va_p v5)" "va_seg_cap v5 \<le> cap_most F v" "nat (vp_rate (va_p v5)) \<le> cap_most F v"
      "2 * (length (va_seg v5) + length f) \<le> cap_most F v" "length (va_seg v5) \<le> va_seg_cap v5"
      using k5 [THEN conjunct1] p4 ss f big by (auto simp: v5)
    note k6 = seg_append_keeps [OF a p5]
    obtain tp tc ts where v6: "v6 = v5\<lparr>va_seg_ptr := tp, va_seg_cap := tc, va_seg := ts\<rparr>" using k6 by blast
    have ts: "length ts \<le> tc" "tc \<le> cap_most F v" "length ts \<le> seg_most F v"
      using k6 ss f big by (simp_all add: v6 v5)
    have most: "seg_most F v6 = seg_most F v" "cap_most F v6 = cap_most F v"
      using pre(1) by (simp_all add: v6 v5 v4_def v2 v1_def cap_most_def seg_most_def)
    have "vad_ok F v6" "same_input v v6"
      using ok pre(1,2,4) ss ts unfolding vad_ok_def most by (simp_all add: v6 v5 v4_def v2 v1_def ring_ok_def same_input_def)
    moreover have "gate_of v6 = (gate_of v2)\<lparr>gt_recent := [], gt_seg := ring_list v2 @ f, gt_active := True, gt_silence := 0, gt_speech := run\<rparr>"
      if "host_never_fails h" "cap_most F v < 2 ^ 31"
    proof -
      have "va_seg v5 = va_seg v4 @ ring_list v4" "va_pre_len v5 = 0" "host_never_fails h1" using k5 that by auto
      moreover have "ring_list v4 = ring_list v2" "va_seg v4 = []" using seg by (simp_all add: v4_def ring_list_def v2 v1_def)
      ultimately have "ss = ring_list v2" "sl = 0" "ts = ring_list v2 @ f" using k6 that by (simp_all add: v6 v5)
      then show ?thesis by (simp add: v6 v5 v4_def gate_of_def ring_list_def)
    qed
    moreover have "loud" using True by (simp add: trigger_def)
    ultimately show ?thesis using k5 k6 g True v' by auto
  qed
qed

text \<open>The samples received and not yet in a frame.\<close>

definition pending :: "vad \<Rightarrow> u32 list" where
  "pending v = va_acc v @ drop (va_in_pos v) (va_in v)"

definition same_setup :: "vad \<Rightarrow> vad \<Rightarrow> bool" where
  "same_setup v v' \<longleftrightarrow> va_p v' = va_p v \<and> va_frame v' = va_frame v \<and> length (va_pre v') = length (va_pre v) \<and> va_in_cap v' = va_in_cap v"

lemma process_frame_keeps:
  assumes e: "process_frame F f v h = (out, v', h')" and ow: "owns h (vad_blocks v + M)" and ok: "vad_ok F v"
    and f: "length f = va_frame v"
  shows "owns h' (vad_blocks v' + pcm_blocks out + M) \<and> vad_ok F v' \<and> same_input v v' \<and>
    (host_never_fails h \<longrightarrow> host_never_fails h' \<and> (cap_most F v < 2 ^ 31 \<longrightarrow>
       gate_step F (va_p v) (length (va_pre v)) f (gate_of v) = (map_option snd out, gate_of v')))"
proof (cases "va_active v")
  case True
  then show ?thesis by (rule active_frame [OF e ow ok f])
next
  case False
  then show ?thesis using idle_frame [OF e ow ok f] by (simp add: pcm_blocks_def)
qed

lemma fill_keeps:
  assumes ok: "vad_ok F v" and more: "va_in_pos v < length (va_in v)"
  shows "length (va_acc (fill v)) < va_frame v \<Longrightarrow> vad_ok F (fill v) \<and> va_in_pos (fill v) = length (va_in (fill v))"
    and "\<not> length (va_acc (fill v)) < va_frame v \<Longrightarrow> length (va_acc (fill v)) = va_frame v"
    and "vad_ok F ((fill v)\<lparr>va_acc := []\<rparr>)" and "same_setup v (fill v)" and "gate_of (fill v) = gate_of v"
    and "pending (fill v) = pending v" and "va_in (fill v) = va_in v" and "va_in_pos v < va_in_pos (fill v)" and "vad_blocks (fill v) = vad_blocks v"
proof -
  define k where "k = (if length (va_in v) - va_in_pos v < va_frame v - length (va_acc v) then length (va_in v) - va_in_pos v
    else va_frame v - length (va_acc v))"
  have w: "fill v = v\<lparr>va_acc := va_acc v @ take k (drop (va_in_pos v) (va_in v)), va_in_pos := va_in_pos v + k\<rparr>"
    by (simp add: fill_def Let_def k_def)
  have l: "length (va_acc v) < va_frame v" using ok by (simp add: vad_ok_def)
  have k: "0 < k" "k \<le> length (va_in v) - va_in_pos v" "k \<le> va_frame v - length (va_acc v)"
    "k = length (va_in v) - va_in_pos v \<or> k = va_frame v - length (va_acc v)"
    using l more by (auto simp: k_def)
  have len: "length (va_acc (fill v)) = length (va_acc v) + k" using k by (simp add: w)
  show "length (va_acc (fill v)) < va_frame v \<Longrightarrow> vad_ok F (fill v) \<and> va_in_pos (fill v) = length (va_in (fill v))"
    using ok more k l len by (auto simp: w vad_ok_def ring_ok_def seg_most_def cap_most_def)
  show "\<not> length (va_acc (fill v)) < va_frame v \<Longrightarrow> length (va_acc (fill v)) = va_frame v" using k l unfolding len by linarith
  show "vad_ok F ((fill v)\<lparr>va_acc := []\<rparr>)" using ok more k l by (auto simp: w vad_ok_def ring_ok_def seg_most_def cap_most_def)
  show "same_setup v (fill v)" "gate_of (fill v) = gate_of v" "vad_blocks (fill v) = vad_blocks v"
    by (simp_all add: w same_setup_def gate_of_def ring_list_def vad_blocks_def)
  have "drop (va_in_pos v) (va_in v) = take k (drop (va_in_pos v) (va_in v)) @ drop (va_in_pos v + k) (va_in v)"
    by (metis append_take_drop_id drop_drop add.commute)
  then show "pending (fill v) = pending v" by (simp add: w pending_def)
  show "va_in (fill v) = va_in v" "va_in_pos v < va_in_pos (fill v)" using k by (simp_all add: w)
qed

lemma vad_drain_keeps:
  assumes "owns h (vad_blocks v + M)" and "vad_ok F v"
  shows "\<exists>out v' h' fs. vad_drain F v h = Some (out, v', h') \<and> owns h' (vad_blocks v' + pcm_blocks out + M) \<and> vad_ok F v' \<and>
    same_setup v v' \<and> pending v = concat fs @ pending v' \<and> (\<forall>f\<in>set fs. length f = va_frame v) \<and>
    (out = None \<longrightarrow> va_in_pos v' = length (va_in v')) \<and> (out \<noteq> None \<longrightarrow> fs \<noteq> []) \<and>
    (host_never_fails h \<longrightarrow> host_never_fails h' \<and> (cap_most F v < 2 ^ 31 \<longrightarrow>
       gate_run F (va_p v) (length (va_pre v)) fs (gate_of v) = (pcm_list out, gate_of v')))"
  using assms
proof (induction "length (va_in v) - va_in_pos v" arbitrary: v h rule: less_induct)
  case less
  note ow = less.prems(1) and ok = less.prems(2)
  show ?case
  proof (cases "va_in_pos v < length (va_in v)")
    case False
    then have "vad_drain F v h = Some (None, v, h)" by (simp add: vad_drain.simps)
    moreover have "va_in_pos v = length (va_in v)" using False ok by (simp add: vad_ok_def)
    ultimately show ?thesis using ow ok
      by (intro exI [of _ None] exI [of _ v] exI [of _ h] exI [of _ "[]"]) (simp add: pcm_blocks_def pcm_list_def same_setup_def)
  next
    case True
    note k = fill_keeps [OF ok True]
    show ?thesis
    proof (cases "length (va_acc (fill v)) < va_frame v")
      case short: True
      have "va_frame (fill v) = va_frame v" using k(4) by (simp add: same_setup_def)
      then have "vad_drain F v h = Some (None, fill v, h)" using True short by (simp add: vad_drain.simps)
      then show ?thesis using ow k(1) [OF short] k(4-9)
        by (intro exI [of _ None] exI [of _ "fill v"] exI [of _ h] exI [of _ "[]"]) (simp add: pcm_blocks_def pcm_list_def)
    next
      case False
      let ?f = "va_acc (fill v)" and ?w = "(fill v)\<lparr>va_acc := []\<rparr>"
      obtain out v1 h1 where p: "process_frame F ?f ?w h = (out, v1, h1)" by (rule prod_cases3)
      have w: "vad_blocks ?w = vad_blocks v" "gate_of ?w = gate_of v" "same_setup v ?w" "length ?f = va_frame ?w" "va_in ?w = va_in v"
        "pending v = ?f @ pending ?w" "va_in_pos v < va_in_pos ?w" "va_acc ?w = []"
        using k(2) [OF False] k(4-9) by (auto simp: vad_blocks_def gate_of_def ring_list_def same_setup_def pending_def)
      have o: "owns h (vad_blocks ?w + M)" using ow w(1) by simp
      note pf = process_frame_keeps [OF p o k(3) w(4)]
      have s: "same_setup v v1" "pending v = ?f @ pending v1" "va_in v1 = va_in v" "va_in_pos v < va_in_pos v1" "cap_most F v1 = cap_most F v"
        "length (va_pre ?w) = length (va_pre v)" "va_p ?w = va_p v" "cap_most F ?w = cap_most F v"
        using pf w by (auto simp: same_setup_def same_input_def pending_def cap_most_def seg_most_def)
      have fr: "length ?f = va_frame v" by (rule k(2) [OF False])
      have "va_frame (fill v) = va_frame v" using k(4) by (simp add: same_setup_def)
      then have eq: "vad_drain F v h = (case out of Some s \<Rightarrow> Some (Some s, v1, h1) | None \<Rightarrow> vad_drain F v1 h1)"
        using True False p by (subst vad_drain.simps) (simp add: Let_def split: option.splits)
      show ?thesis
      proof (cases out)
        case (Some sg)
        have run: "gate_run F (va_p v) (length (va_pre v)) [?f] (gate_of v) = (pcm_list out, gate_of v1)"
          if "host_never_fails h" "cap_most F v < 2 ^ 31"
          using pf that s(6-8) w(2) Some by (simp add: pcm_list_def)
        show ?thesis using pf s run eq Some fr
          by (intro exI [of _ out] exI [of _ v1] exI [of _ h1] exI [of _ "[?f]"]) auto
      next
        case None
        have lt: "length (va_in v1) - va_in_pos v1 < length (va_in v) - va_in_pos v" using s True by simp
        have o1: "owns h1 (vad_blocks v1 + M)" using pf None by (simp add: pcm_blocks_def)
        obtain out' v' h' fs where d: "vad_drain F v1 h1 = Some (out', v', h')" "owns h' (vad_blocks v' + pcm_blocks out' + M)"
          "vad_ok F v'" "same_setup v1 v'" "pending v1 = concat fs @ pending v'" "\<forall>f\<in>set fs. length f = va_frame v1"
          "out' = None \<longrightarrow> va_in_pos v' = length (va_in v')" "out' \<noteq> None \<longrightarrow> fs \<noteq> []"
          "host_never_fails h1 \<longrightarrow> host_never_fails h' \<and> (cap_most F v1 < 2 ^ 31 \<longrightarrow>
             gate_run F (va_p v1) (length (va_pre v1)) fs (gate_of v1) = (pcm_list out', gate_of v'))"
          using less.hyps [OF lt o1] pf by blast
        have run: "gate_run F (va_p v) (length (va_pre v)) (?f # fs) (gate_of v) = (pcm_list out', gate_of v')"
          if "host_never_fails h" "cap_most F v < 2 ^ 31"
          using pf that s(1,5-8) w(2) None d(9) by (simp add: same_setup_def)
        have "pending v = concat (?f # fs) @ pending v'" "\<forall>f\<in>set (?f # fs). length f = va_frame v" "same_setup v v'"
          using s(1,2) d(4-6) fr by (auto simp: same_setup_def)
        then show ?thesis using pf s(3) run eq None d
          by (intro exI [of _ out'] exI [of _ v'] exI [of _ h'] exI [of _ "?f # fs"]) auto
      qed
    qed
  qed
qed

lemma in_push_keeps:
  assumes e: "in_push pcm v h = (ok, v', h')" and ow: "owns h (vad_blocks v + M)" and vo: "vad_ok F v"
  shows "owns h' (vad_blocks v' + M) \<and> vad_ok F v' \<and> va_p v' = va_p v \<and> va_frame v' = va_frame v \<and>
    length (va_pre v') = length (va_pre v) \<and> gate_of v' = gate_of v \<and>
    (va_in_pos v = length (va_in v) \<and> \<not> ok \<longrightarrow> va_in_pos v' = length (va_in v')) \<and>
    (host_never_fails h \<longrightarrow> host_never_fails h' \<and>
      (va_in_pos v = length (va_in v) \<and> va_in_cap v \<le> 2 ^ 30 \<and> length pcm \<le> 2 ^ 29 \<longrightarrow>
         ok \<and> pending v' = pending v @ pcm \<and> va_in_cap v' \<le> 2 ^ 30))"
proof -
  define w where "w = (if va_in_pos v > 0 then v\<lparr>va_in := drop (va_in_pos v) (va_in v), va_in_pos := 0\<rparr> else v)"
  define c0 where "c0 = (if va_in_cap w \<noteq> 0 then va_in_cap w else 4096)"
  define need where "need = length (va_in w) + length pcm"
  define cap where "cap = grow_cap c0 need"
  have w: "vad_ok F w" "vad_blocks w = vad_blocks v" "va_in_cap w = va_in_cap v" "va_in_ptr w = va_in_ptr v" "va_in_pos w = 0"
    "va_p w = va_p v \<and> va_frame w = va_frame v \<and> length (va_pre w) = length (va_pre v)" "gate_of w = gate_of v" "pending w = pending v"
    using vo by (auto simp: w_def vad_ok_def ring_ok_def seg_most_def cap_most_def vad_blocks_def gate_of_def ring_list_def pending_def)
  have g: "need \<le> cap" "c0 \<le> cap" "cap \<le> max c0 (2 * need)" "0 < c0"
    using grow_cap_bounds [of c0 need] by (simp_all add: c0_def cap_def)
  have put: "vad_ok F (w\<lparr>va_in := va_in w @ pcm, va_in_ptr := q, va_in_cap := c\<rparr>)" "gate_of (w\<lparr>va_in := va_in w @ pcm, va_in_ptr := q, va_in_cap := c\<rparr>) = gate_of v"
    "pending (w\<lparr>va_in := va_in w @ pcm, va_in_ptr := q, va_in_cap := c\<rparr>) = pending v @ pcm" if "need \<le> c" for q c
    using w that by (simp_all add: vad_ok_def ring_ok_def seg_most_def cap_most_def gate_of_def ring_list_def pending_def need_def)
  have empty: "need = length pcm" if "va_in_pos v = length (va_in v)" using that by (simp add: need_def w_def)
  show ?thesis
  proof (cases "need > va_in_cap v")
    case False
    define u where "u = w\<lparr>va_in := va_in w @ pcm, va_in_ptr := va_in_ptr w, va_in_cap := va_in_cap w\<rparr>"
    have v': "ok" "h' = h" "v' = u"
      using e False w(3) by (auto simp: in_push_def Let_def w_def [symmetric] need_def u_def)
    have "vad_blocks u = vad_blocks v" unfolding w(2) [symmetric] by (simp add: vad_blocks_def u_def)
    then show ?thesis using put [of "va_in_cap w" "va_in_ptr w"] False w ow v' unfolding u_def [symmetric] by (auto simp: u_def)
  next
    case True
    obtain x h1 where va: "vv_alloc (of_nat cap * 4) h = (x, h1)" by fastforce
    note o = vv_alloc_owns [OF ow va]
    have eq: "(ok, v', h') = (case x of None \<Rightarrow> (False, w, h1)
        | Some nb \<Rightarrow> (True, w\<lparr>va_in_ptr := Some nb, va_in_cap := cap, va_in := va_in w @ pcm\<rparr>, vv_free (va_in_ptr v) h1))"
      unfolding e [symmetric] in_push_def w_def [symmetric] Let_def need_def [symmetric] if_P [OF True [folded w(3)]] c0_def [symmetric]
        cap_def [symmetric] va prod.case by (cases x) (simp_all add: w(4))
    have nz: "cap \<le> 2 ^ 30 \<and> of_nat cap * 4 \<noteq> (0 :: u64)" if "va_in_pos v = length (va_in v)" "va_in_cap v \<le> 2 ^ 30" "length pcm \<le> 2 ^ 29"
    proof -
      have "c0 \<le> 2 ^ 30" using that(2) w(3) by (simp add: c0_def)
      then have "cap \<le> 2 ^ 30" using g(3) empty [OF that(1)] that(3) by (auto simp: max_def split: if_splits)
      then show ?thesis using g(2,4) w(3) by (intro conjI cap_bytes_neq_0) auto
    qed
    show ?thesis
    proof (cases x)
      case None
      moreover have "va_in w = []" if "va_in_pos v = length (va_in v)" using that by (simp add: w_def)
      ultimately show ?thesis using eq o w nz alloc_keeps_never_fails [OF _ va] vv_alloc_never_fails [OF _ _ va] by auto
    next
      case (Some nb)
      define u where "u = w\<lparr>va_in := va_in w @ pcm, va_in_ptr := Some nb, va_in_cap := cap\<rparr>"
      have v': "v' = u" "h' = vv_free (va_in_ptr v) h1" "ok" using eq Some by (simp_all add: u_def)
      have m: "add_mset (Host, nb) (vad_blocks v + M) = opt_block Host (va_in_ptr v) + (vad_blocks u + M)"
        using w(2,4) by (simp add: vad_blocks_def u_def opt_block_def ac_simps)
      have "owns h1 (opt_block Host (va_in_ptr v) + (vad_blocks u + M))" using o unfolding Some option.case m .
      then have "owns h' (vad_blocks u + M)" unfolding v' by (rule owns_free_opt)
      then show ?thesis using put [OF g(1), of "Some nb"] w nz alloc_keeps_never_fails [OF _ va] v'
        unfolding u_def [symmetric] by (auto simp: u_def)
    qed
  qed
qed

subsection \<open>The loops\<close>

lemma gate_run_append:
  "gate_run F p cap (fs @ gs) g =
     (case gate_run F p cap fs g of (a, g) \<Rightarrow> case gate_run F p cap gs g of (b, g) \<Rightarrow> (a @ b, g))"
  by (induction fs arbitrary: g) (auto split: prod.splits option.splits)

lemma free_pcm_owns: "owns h (pcm_blocks out + M) \<Longrightarrow> owns (free_pcm out h) M"
  by (auto simp: pcm_blocks_def free_pcm_def split: option.splits)

lemma free_pcm_never_fails [simp]: "host_never_fails (free_pcm out h) = host_never_fails h"
  by (auto simp: free_pcm_def split: option.splits)

lemma same_setup_most: "same_setup v v' \<Longrightarrow> cap_most F v' = cap_most F v"
  by (simp add: same_setup_def cap_most_def seg_most_def)

lemma take_all_keeps:
  assumes "owns h (vad_blocks v + pcm_blocks out + M)" and "vad_ok F v" and "out = None \<longrightarrow> va_in_pos v = length (va_in v)"
  shows "\<exists>ss v' h' fs. take_all F out done (Some v) h = Some (done @ ss, Some v', h') \<and> owns h' (vad_blocks v' + M) \<and> vad_ok F v' \<and>
    same_setup v v' \<and> pending v = concat fs @ pending v' \<and> (\<forall>f\<in>set fs. length f = va_frame v) \<and> va_in_pos v' = length (va_in v') \<and>
    (host_never_fails h \<longrightarrow> host_never_fails h' \<and> (cap_most F v < 2 ^ 31 \<longrightarrow>
       (\<exists>rs. ss = pcm_list out @ rs \<and> gate_run F (va_p v) (length (va_pre v)) fs (gate_of v) = (rs, gate_of v'))))"
  using assms
proof (induction "length (pending v)" arbitrary: out "done" v h rule: less_induct)
  case less
  note ow = less.prems(1) and ok = less.prems(2)
  show ?case
  proof (cases out)
    case None
    then have "take_all F out done (Some v) h = Some (done, Some v, h)" by (simp add: take_all.simps)
    then show ?thesis using None less.prems
      by (intro exI [of _ "[]"] exI [of _ v] exI [of _ h] exI [of _ "[]"]) (simp add: pcm_blocks_def pcm_list_def same_setup_def)
  next
    case (Some s)
    have o: "owns (free_pcm out h) (vad_blocks v + M)" using ow by (intro free_pcm_owns) (simp add: ac_simps)
    obtain out1 v1 h1 fs where d: "vad_drain F v (free_pcm out h) = Some (out1, v1, h1)" "owns h1 (vad_blocks v1 + pcm_blocks out1 + M)"
      "vad_ok F v1" "same_setup v v1" "pending v = concat fs @ pending v1" "\<forall>f\<in>set fs. length f = va_frame v"
      "out1 = None \<longrightarrow> va_in_pos v1 = length (va_in v1)" "out1 \<noteq> None \<longrightarrow> fs \<noteq> []"
      "host_never_fails h \<longrightarrow> host_never_fails h1 \<and> (cap_most F v < 2 ^ 31 \<longrightarrow>
         gate_run F (va_p v) (length (va_pre v)) fs (gate_of v) = (pcm_list out1, gate_of v1))"
      using vad_drain_keeps [OF o ok] by auto
    have eq: "take_all F out done (Some v) h = take_all F out1 (done @ [snd s]) (Some v1) h1"
      using Some d(1) by (subst take_all.simps) (simp add: vv_vad_drain_def)
    have pl: "pcm_list out = [snd s]" using Some by (simp add: pcm_list_def)
    show ?thesis
    proof (cases out1)
      case None
      then have "take_all F out done (Some v) h = Some (done @ [snd s], Some v1, h1)" unfolding eq by (simp add: take_all.simps)
      then show ?thesis using None d pl
        by (intro exI [of _ "[snd s]"] exI [of _ v1] exI [of _ h1] exI [of _ fs]) (auto simp: pcm_blocks_def pcm_list_def)
    next
      case (Some s1)
      have fr: "0 < va_frame v" using ok by (simp add: vad_ok_def)
      obtain f fs' where fs: "fs = f # fs'" using d(8) Some by (cases fs) auto
      have "length (pending v1) < length (pending v)" using d(5,6) fr by (auto simp: fs)
      from less.hyps [OF this d(2,3,7), of "done @ [snd s]"] obtain ss v' h' gs where
        t: "take_all F out1 (done @ [snd s]) (Some v1) h1 = Some ((done @ [snd s]) @ ss, Some v', h')" "owns h' (vad_blocks v' + M)"
        "vad_ok F v'" "same_setup v1 v'" "pending v1 = concat gs @ pending v'" "\<forall>f\<in>set gs. length f = va_frame v1"
        "va_in_pos v' = length (va_in v')"
        "host_never_fails h1 \<longrightarrow> host_never_fails h' \<and> (cap_most F v1 < 2 ^ 31 \<longrightarrow>
           (\<exists>rs. ss = pcm_list out1 @ rs \<and> gate_run F (va_p v1) (length (va_pre v1)) gs (gate_of v1) = (rs, gate_of v')))"
        by blast
      have st: "same_setup v v'" "va_p v1 = va_p v" "length (va_pre v1) = length (va_pre v)" "va_frame v1 = va_frame v"
        "cap_most F v1 = cap_most F v"
        using d(4) t(4) same_setup_most [OF d(4)] by (auto simp: same_setup_def)
      have g1: "take_all F out done (Some v) h = Some (done @ (snd s # ss), Some v', h')" using t(1) unfolding eq by simp
      have g2: "pending v = concat (fs @ gs) @ pending v'" by (simp add: d(5) t(5))
      have g3: "\<forall>f\<in>set (fs @ gs). length f = va_frame v" using d(6) t(6) st(4) by auto
      have "host_never_fails h'" if "host_never_fails h" using that d(9) t(8) by blast
      moreover have "\<exists>rs. snd s # ss = pcm_list out @ rs \<and> gate_run F (va_p v) (length (va_pre v)) (fs @ gs) (gate_of v) = (rs, gate_of v')"
        if a: "host_never_fails h" "cap_most F v < 2 ^ 31"
      proof -
        have a1: "gate_run F (va_p v) (length (va_pre v)) fs (gate_of v) = (pcm_list out1, gate_of v1)" "host_never_fails h1"
          using a d(9) by blast+
        with a(2) t(8) obtain rs where "ss = pcm_list out1 @ rs" "gate_run F (va_p v) (length (va_pre v)) gs (gate_of v1) = (rs, gate_of v')"
          unfolding st by blast
        then show ?thesis using a1(1) pl by (simp add: gate_run_append)
      qed
      ultimately show ?thesis using g1 g2 g3 t(2,3,7) st(1)
        by (intro exI [of _ "snd s # ss"] exI [of _ v'] exI [of _ h'] exI [of _ "fs @ gs"]) blast
    qed
  qed
qed

lemma push_keeps:
  assumes ow: "owns h (vad_blocks v + M)" and ok: "vad_ok F v" and dr: "va_in_pos v = length (va_in v)"
  shows "\<exists>out v' h' fs. vv_vad_push F (Some v) (Some xs) True h = Some (out, Some v', h') \<and> owns h' (vad_blocks v' + pcm_blocks out + M) \<and>
    vad_ok F v' \<and> va_p v' = va_p v \<and> va_frame v' = va_frame v \<and> length (va_pre v') = length (va_pre v) \<and>
    (out = None \<longrightarrow> va_in_pos v' = length (va_in v')) \<and>
    (host_never_fails h \<and> cap_most F v < 2 ^ 31 \<and> va_in_cap v \<le> 2 ^ 30 \<and> length xs \<le> 2 ^ 29 \<longrightarrow>
     host_never_fails h' \<and> va_in_cap v' \<le> 2 ^ 30 \<and> pending v @ xs = concat fs @ pending v' \<and>
     (\<forall>f\<in>set fs. length f = va_frame v) \<and> gate_run F (va_p v) (length (va_pre v)) fs (gate_of v) = (pcm_list out, gate_of v'))"
proof (cases xs)
  case Nil
  then have "vv_vad_push F (Some v) (Some xs) True h = Some (None, Some v, h)" by (simp add: vv_vad_push_def)
  then show ?thesis using Nil ow ok dr
    by (intro exI [of _ None] exI [of _ v] exI [of _ h] exI [of _ "[]"]) (simp add: pcm_blocks_def pcm_list_def)
next
  case (Cons x xs')
  obtain b v1 h1 where i: "in_push xs v h = (b, v1, h1)" by (rule prod_cases3)
  note k = in_push_keeps [OF i ow ok]
  have eq: "vv_vad_push F (Some v) (Some xs) True h =
      (if b then map_option (\<lambda>(out, v, h). (out, Some v, h)) (vad_drain F v1 h1) else Some (None, Some v1, h1))"
    using i Cons by (cases b) (simp_all add: vv_vad_push_def)
  have m: "cap_most F v1 = cap_most F v" using k by (simp add: cap_most_def seg_most_def)
  show ?thesis
  proof (cases b)
    case False
    then show ?thesis using k eq dr by (intro exI [of _ None] exI [of _ v1] exI [of _ h1]) (auto simp: pcm_blocks_def)
  next
    case True
    obtain out v' h' fs where d: "vad_drain F v1 h1 = Some (out, v', h')" "owns h' (vad_blocks v' + pcm_blocks out + M)"
      "vad_ok F v'" "same_setup v1 v'" "pending v1 = concat fs @ pending v'" "\<forall>f\<in>set fs. length f = va_frame v1"
      "out = None \<longrightarrow> va_in_pos v' = length (va_in v')"
      "host_never_fails h1 \<longrightarrow> host_never_fails h' \<and> (cap_most F v1 < 2 ^ 31 \<longrightarrow>
         gate_run F (va_p v1) (length (va_pre v1)) fs (gate_of v1) = (pcm_list out, gate_of v'))"
      using vad_drain_keeps [of h1 v1 M F] k by blast
    have st: "va_p v1 = va_p v" "length (va_pre v1) = length (va_pre v)" "va_frame v1 = va_frame v" "gate_of v1 = gate_of v"
      "va_p v' = va_p v" "length (va_pre v') = length (va_pre v)" "va_frame v' = va_frame v" "va_in_cap v' = va_in_cap v1"
      using k d(4) by (auto simp: same_setup_def)
    have push: "vv_vad_push F (Some v) (Some xs) True h = Some (out, Some v', h')" using eq True d(1) by simp
    have "pending v @ xs = pending v1 \<and> va_in_cap v1 \<le> 2 ^ 30 \<and> host_never_fails h1"
      if "host_never_fails h" "va_in_cap v \<le> 2 ^ 30" "length xs \<le> 2 ^ 29" using that k dr by auto
    then show ?thesis using push d(2,3,5-8) unfolding st m using st(5-8)
      by (intro exI [of _ out] exI [of _ v'] exI [of _ h'] exI [of _ fs]) auto
  qed
qed

lemma listen_keeps:
  assumes "owns h (vad_blocks v + M)" and "vad_ok F v" and "va_in_pos v = length (va_in v)"
  shows "\<exists>ss v' h' fs. listen F pieces done (Some v) h = Some (done @ ss, Some v', h') \<and> owns h' (vad_blocks v' + M) \<and> vad_ok F v' \<and>
    va_p v' = va_p v \<and> va_frame v' = va_frame v \<and> length (va_pre v') = length (va_pre v) \<and> va_in_pos v' = length (va_in v') \<and>
    (host_never_fails h \<and> cap_most F v < 2 ^ 31 \<and> va_in_cap v \<le> 2 ^ 30 \<and> (\<forall>xs\<in>set pieces. length xs \<le> 2 ^ 29) \<longrightarrow>
     host_never_fails h' \<and> pending v @ concat pieces = concat fs @ pending v' \<and>
     (\<forall>f\<in>set fs. length f = va_frame v) \<and> gate_run F (va_p v) (length (va_pre v)) fs (gate_of v) = (ss, gate_of v'))"
  using assms
proof (induction pieces arbitrary: "done" v h)
  case Nil
  then show ?case by (intro exI [of _ "[]"] exI [of _ v] exI [of _ h] exI [of _ "[]"]) simp
next
  case (Cons xs pieces)
  obtain out v1 h1 fs where p: "vv_vad_push F (Some v) (Some xs) True h = Some (out, Some v1, h1)"
    "owns h1 (vad_blocks v1 + pcm_blocks out + M)" "vad_ok F v1" "va_p v1 = va_p v" "va_frame v1 = va_frame v" "length (va_pre v1) = length (va_pre v)"
    "out = None \<longrightarrow> va_in_pos v1 = length (va_in v1)"
    "host_never_fails h \<and> cap_most F v < 2 ^ 31 \<and> va_in_cap v \<le> 2 ^ 30 \<and> length xs \<le> 2 ^ 29 \<longrightarrow>
     host_never_fails h1 \<and> va_in_cap v1 \<le> 2 ^ 30 \<and> pending v @ xs = concat fs @ pending v1 \<and>
     (\<forall>f\<in>set fs. length f = va_frame v) \<and> gate_run F (va_p v) (length (va_pre v)) fs (gate_of v) = (pcm_list out, gate_of v1)"
    using push_keeps [OF Cons.prems, of xs] by blast
  obtain ss v2 h2 gs where t: "take_all F out done (Some v1) h1 = Some (done @ ss, Some v2, h2)" "owns h2 (vad_blocks v2 + M)" "vad_ok F v2"
    "same_setup v1 v2" "pending v1 = concat gs @ pending v2" "\<forall>f\<in>set gs. length f = va_frame v1" "va_in_pos v2 = length (va_in v2)"
    "host_never_fails h1 \<longrightarrow> host_never_fails h2 \<and> (cap_most F v1 < 2 ^ 31 \<longrightarrow>
       (\<exists>rs. ss = pcm_list out @ rs \<and> gate_run F (va_p v1) (length (va_pre v1)) gs (gate_of v1) = (rs, gate_of v2)))"
    using take_all_keeps [OF p(2,3,7), of "done"] by blast
  obtain ts v' h' hs where l: "listen F pieces (done @ ss) (Some v2) h2 = Some ((done @ ss) @ ts, Some v', h')" "owns h' (vad_blocks v' + M)"
    "vad_ok F v'" "va_p v' = va_p v2" "va_frame v' = va_frame v2" "length (va_pre v') = length (va_pre v2)" "va_in_pos v' = length (va_in v')"
    "host_never_fails h2 \<and> cap_most F v2 < 2 ^ 31 \<and> va_in_cap v2 \<le> 2 ^ 30 \<and> (\<forall>xs\<in>set pieces. length xs \<le> 2 ^ 29) \<longrightarrow>
     host_never_fails h' \<and> pending v2 @ concat pieces = concat hs @ pending v' \<and>
     (\<forall>f\<in>set hs. length f = va_frame v2) \<and> gate_run F (va_p v2) (length (va_pre v2)) hs (gate_of v2) = (ts, gate_of v')"
    using Cons.IH [OF t(2,3,7), of "done @ ss"] by blast
  have st: "va_p v2 = va_p v" "length (va_pre v2) = length (va_pre v)" "va_frame v2 = va_frame v" "va_in_cap v2 = va_in_cap v1"
    "cap_most F v2 = cap_most F v" "cap_most F v1 = cap_most F v"
    using p(4-6) t(4) by (auto simp: same_setup_def cap_most_def seg_most_def)
  have run1: "listen F (xs # pieces) done (Some v) h = Some (done @ (ss @ ts), Some v', h')" using p(1) t(1) l(1) by simp
  have run: "host_never_fails h' \<and> pending v @ concat (xs # pieces) = concat (fs @ gs @ hs) @ pending v' \<and>
     (\<forall>f\<in>set (fs @ gs @ hs). length f = va_frame v) \<and>
     gate_run F (va_p v) (length (va_pre v)) (fs @ gs @ hs) (gate_of v) = (ss @ ts, gate_of v')"
    if a: "host_never_fails h \<and> cap_most F v < 2 ^ 31 \<and> va_in_cap v \<le> 2 ^ 30 \<and> (\<forall>xs\<in>set (xs # pieces). length xs \<le> 2 ^ 29)"
  proof -
    have a1: "host_never_fails h1" "va_in_cap v1 \<le> 2 ^ 30" "pending v @ xs = concat fs @ pending v1" "\<forall>f\<in>set fs. length f = va_frame v"
      "gate_run F (va_p v) (length (va_pre v)) fs (gate_of v) = (pcm_list out, gate_of v1)"
      using p(8) a by auto
    obtain rs where a2: "host_never_fails h2" "ss = pcm_list out @ rs" "gate_run F (va_p v) (length (va_pre v)) gs (gate_of v1) = (rs, gate_of v2)"
      using t(8) a1(1) a unfolding p(4-6) st by blast
    have a3: "host_never_fails h'" "pending v2 @ concat pieces = concat hs @ pending v'" "\<forall>f\<in>set hs. length f = va_frame v"
      "gate_run F (va_p v) (length (va_pre v)) hs (gate_of v2) = (ts, gate_of v')"
      using l(8) a1(2) a2(1) a unfolding st by auto
    have "pending v @ concat (xs # pieces) = concat fs @ pending v1 @ concat pieces" using a1(3) by (simp flip: append_assoc)
    also have "\<dots> = concat (fs @ gs @ hs) @ pending v'" using a3(2) by (simp add: t(5))
    finally show ?thesis using a1 a2 a3 t(6) p(5) by (simp add: gate_run_append ball_Un)
  qed
  from run have run2: "(host_never_fails h \<and> cap_most F v < 2 ^ 31 \<and> va_in_cap v \<le> 2 ^ 30 \<and> (\<forall>xs\<in>set (xs # pieces). length xs \<le> 2 ^ 29) \<longrightarrow>
     host_never_fails h' \<and> pending v @ concat (xs # pieces) = concat (fs @ gs @ hs) @ pending v' \<and>
     (\<forall>f\<in>set (fs @ gs @ hs). length f = va_frame v) \<and>
     gate_run F (va_p v) (length (va_pre v)) (fs @ gs @ hs) (gate_of v) = (ss @ ts, gate_of v'))" by (rule impI)
  have "listen F (xs # pieces) done (Some v) h = Some (done @ (ss @ ts), Some v', h') \<and> owns h' (vad_blocks v' + M) \<and> vad_ok F v' \<and>
    va_p v' = va_p v \<and> va_frame v' = va_frame v \<and> length (va_pre v') = length (va_pre v) \<and> va_in_pos v' = length (va_in v') \<and>
    (host_never_fails h \<and> cap_most F v < 2 ^ 31 \<and> va_in_cap v \<le> 2 ^ 30 \<and> (\<forall>xs\<in>set (xs # pieces). length xs \<le> 2 ^ 29) \<longrightarrow>
     host_never_fails h' \<and> pending v @ concat (xs # pieces) = concat (fs @ gs @ hs) @ pending v' \<and>
     (\<forall>f\<in>set (fs @ gs @ hs). length f = va_frame v) \<and>
     gate_run F (va_p v) (length (va_pre v)) (fs @ gs @ hs) (gate_of v) = (ss @ ts, gate_of v'))"
    by (intro conjI run1 run2 l(2,3,7)) (simp_all only: l(4-6) st(1-3))
  then show ?case by (intro exI)
qed

lemma frames_of_concat:
  "0 < n \<Longrightarrow> length r < n \<Longrightarrow> (\<forall>f\<in>set fs. length f = n) \<Longrightarrow> frames_of n (concat fs @ r) = (fs, r)"
proof (induction fs)
  case Nil
  then show ?case by (subst frames_of.simps) simp
next
  case (Cons f fs)
  then show ?case by (subst frames_of.simps) simp
qed

lemma vad_free_owns: "owns h (vad_blocks v + M) \<Longrightarrow> owns (vv_vad_free (Some v) h) M"
proof -
  assume "owns h (vad_blocks v + M)"
  then have "owns h (opt_block Host (va_acc_ptr v) + (opt_block Host (va_pre_ptr v) + (opt_block Host (va_seg_ptr v) +
      (opt_block Host (va_in_ptr v) + (opt_block Host (Some (va_ptr v)) + M)))))"
    by (simp add: vad_blocks_def opt_block_def ac_simps)
  then show ?thesis unfolding vv_vad_free_def option.case by (intro owns_free_opt)
qed

lemma flush_keeps:
  assumes ow: "owns h (vad_blocks v + M)" and ok: "vad_ok F v"
  shows "\<exists>out v' h'. vv_vad_flush (Some v) True h = (out, Some v', h') \<and> owns h' (vad_blocks v' + pcm_blocks out + M) \<and>
    (host_never_fails h \<and> cap_most F v < 2 ^ 31 \<longrightarrow> pcm_list out = gate_close (gate_of v) (va_acc v))"
proof -
  define more where "more \<longleftrightarrow> va_acc v \<noteq> [] \<and> va_active v"
  obtain v1 h1 where a: "(if more then seg_append (va_acc v) v h else (v, h)) = (v1, h1)" by fastforce
  have p: "0 < vp_rate (va_p v)" "va_seg_cap v \<le> cap_most F v" "nat (vp_rate (va_p v)) \<le> cap_most F v"
    "2 * (length (va_seg v) + length (va_acc v)) \<le> cap_most F v" "length (va_seg v) \<le> va_seg_cap v"
    using ok by (auto simp: vad_ok_def cap_most_def)
  have k: "owns h1 (vad_blocks v1 + M) \<and> (\<exists>sp sc ss. v1 = v\<lparr>va_seg_ptr := sp, va_seg_cap := sc, va_seg := ss\<rparr>) \<and>
    length (va_seg v1) \<le> va_seg_cap v1 \<and> va_seg_cap v1 \<le> cap_most F v \<and>
    (host_never_fails h \<and> cap_most F v < 2 ^ 31 \<longrightarrow> va_seg v1 = va_seg v @ (if va_active v then va_acc v else []))"
  proof (cases more)
    case True
    then have a: "seg_append (va_acc v) v h = (v1, h1)" using a by simp
    show ?thesis using seg_append_keeps [OF a ow p] True by (auto simp: more_def)
  next
    case False
    then have "v1 = v" "h1 = h" using a by simp_all
    moreover have "\<exists>sp sc ss. v = v\<lparr>va_seg_ptr := sp, va_seg_cap := sc, va_seg := ss\<rparr>"
      by (intro exI [of _ "va_seg_ptr v"] exI [of _ "va_seg_cap v"] exI [of _ "va_seg v"]) simp
    moreover have "va_seg v = va_seg v @ (if va_active v then va_acc v else [])" using False by (auto simp: more_def)
    ultimately show ?thesis using ow p(2,5) by simp
  qed
  then obtain sp sc ss where v1: "v1 = v\<lparr>va_seg_ptr := sp, va_seg_cap := sc, va_seg := ss\<rparr>" by blast
  define w where "w = v1\<lparr>va_acc := []\<rparr>"
  have wb: "owns h1 (vad_blocks w + M)" using k by (simp add: w_def vad_blocks_def)
  have eq: "vv_vad_flush (Some v) True h = (if ss = [] then (None, Some w, h1) else (case emit w of (out, v) \<Rightarrow> (out, Some v, h1)))"
    using a by (simp add: vv_vad_flush_def more_def Let_def w_def v1)
  have cl: "gate_close (gate_of v) (va_acc v) = (if ss = [] then [] else [ss])" if "host_never_fails h \<and> cap_most F v < 2 ^ 31"
    using k that by (simp add: gate_close_def gate_of_def Let_def v1)
  show ?thesis
  proof (cases "ss = []")
    case True
    then show ?thesis using eq wb cl by (simp add: pcm_blocks_def pcm_list_def)
  next
    case False
    obtain out v' where em: "emit w = (out, v')" by fastforce
    have ok': "ring_ok w" "length (va_acc w) < va_frame w" "va_in_pos w \<le> length (va_in w)" "length (va_in w) \<le> va_in_cap w"
      "length (va_seg w) \<le> va_seg_cap w" "0 < vp_rate (va_p w)" "va_seg_cap w \<le> cap_most F w"
      using ok k by (simp_all add: w_def v1 vad_ok_def ring_ok_def cap_most_def seg_most_def)
    have "out = Some (sp, ss)" using em False by (auto simp: emit_def w_def v1)
    then show ?thesis using eq em emit_keeps [OF em wb ok'] False cl by (simp add: pcm_list_def)
  qed
qed

subsection \<open>Whole sessions\<close>

lemma create_keeps:
  assumes ow: "owns h M" and ring: "0 \<le> vo_ms F (vp_pre_roll_ms p) (vp_rate p)"
    and e: "vv_vad_create F (Some p) True h = (s, x, h')"
  shows "(s = VV_OK) = (x \<noteq> None)" and "x = None \<Longrightarrow> owns h' M"
    and "x = Some v \<Longrightarrow> owns h' (vad_blocks v + M) \<and> vad_ok F v \<and> va_p v = p \<and> va_frame v = vad_frame p \<and> length (va_pre v) = vad_pre F p \<and>
      va_in v = [] \<and> va_in_pos v = 0 \<and> va_in_cap v = 0 \<and> va_acc v = [] \<and> gate_of v = gate_start"
    and "host_never_fails h \<Longrightarrow> h_sizeof h ''vv_vad_t'' \<noteq> 0 \<Longrightarrow> 50 \<le> vp_rate p \<Longrightarrow> vp_rate p < 2 ^ 31 \<Longrightarrow> vad_pre F p < 2 ^ 31 \<Longrightarrow>
      x \<noteq> None \<and> host_never_fails h'"
proof -
  obtain t h1 where a1: "vv_alloc (h_sizeof h ''vv_vad_t'') h = (t, h1)" by fastforce
  obtain acc h2 where a2: "vv_alloc (of_nat (vad_frame p) * 4) h1 = (acc, h2)" by fastforce
  obtain pre h3 where a3: "vv_alloc (of_int (vo_ms F (vp_pre_roll_ms p) (vp_rate p) + 1) * 4) h2 = (pre, h3)" by fastforce
  define w where "w = \<lparr>va_ptr = the t, va_p = p, va_frame = vad_frame p, va_acc_ptr = acc, va_acc = [], va_in_ptr = None, va_in = [],
     va_in_cap = 0, va_in_pos = 0, va_pre_ptr = pre, va_pre = replicate (vad_pre F p) 0, va_pre_len = 0,
     va_pre_head = 0, va_seg_ptr = None, va_seg = [], va_seg_cap = 0, va_active = False,
     va_silence_run = 0, va_speech_run = 0, va_level = f32_m120, va_floor = f32_m90, va_floor_init = False\<rparr>"
  have eq: "(s, x, h') =
    (if vp_rate p \<le> 0 then (VV_ERR_INVALID_ARG, None, h)
     else if t = None then (VV_ERR_OUT_OF_MEMORY, None, h1)
     else if acc = None \<or> pre = None then (VV_ERR_OUT_OF_MEMORY, None, vv_vad_free (Some w) h3)
     else (VV_OK, Some w, h3))"
  proof (cases "vp_rate p \<le> 0")
    case True
    then show ?thesis using e by (auto simp: vv_vad_create_def)
  next
    case False
    have "(s, x, h') = (case (t, h1) of
        (None, h) \<Rightarrow> (VV_ERR_OUT_OF_MEMORY, None, h)
      | (Some a, h) \<Rightarrow> if acc = None \<or> pre = None then (VV_ERR_OUT_OF_MEMORY, None, vv_vad_free (Some (w\<lparr>va_ptr := a\<rparr>)) h3)
          else (VV_OK, Some (w\<lparr>va_ptr := a\<rparr>), h3))"
      unfolding e [symmetric] vv_vad_create_def Let_def option.case if_not_P [OF False] a1 vad_frame_def [symmetric] vad_pre_def [symmetric]
      using a2 a3 by (cases t) (simp_all only: prod.case option.case w_def vad.simps if_False simp_thms)
    then show ?thesis using False by (cases t) (simp_all add: w_def)
  qed
  show "(s = VV_OK) = (x \<noteq> None)" using eq by (auto split: if_splits)
  note o1 = vv_alloc_owns [OF ow a1]
  have o1': "owns h1 (opt_block Host t + M)" using o1 by (cases t) (simp_all add: opt_block_def)
  have o2: "owns h2 (opt_block Host acc + (opt_block Host t + M))"
    using vv_alloc_owns [OF o1' a2] by (cases acc) (simp_all add: opt_block_def)
  have o3: "owns h3 (opt_block Host pre + (opt_block Host acc + (opt_block Host t + M)))"
    using vv_alloc_owns [OF o2 a3] by (cases pre) (simp_all add: opt_block_def)
  have ob: "owns h3 (vad_blocks w + M)" if "t \<noteq> None"
    using o3 that by (auto simp: vad_blocks_def w_def opt_block_def ac_simps add_mset_commute)
  have t0: "owns h1 M" if "t = None" using o1 that by simp
  show "x = None \<Longrightarrow> owns h' M"
    using eq ow t0 ob vad_free_owns [of h3 w M] by (auto split: if_splits)
  have frame: "0 < vad_frame p" if "acc \<noteq> None" using a2 that by (cases "vad_frame p") (auto simp: vv_alloc_def)
  have wk: "vad_ok F w \<and> gate_of w = gate_start" if "\<not> vp_rate p \<le> 0" "acc \<noteq> None"
    using frame [OF that(2)] that(1) ring
    by (simp add: w_def vad_ok_def ring_ok_def gate_of_def gate_start_def ring_list_def vad_pre_def)
  show "x = Some v \<Longrightarrow> owns h' (vad_blocks v + M) \<and> vad_ok F v \<and> va_p v = p \<and> va_frame v = vad_frame p \<and> length (va_pre v) = vad_pre F p \<and>
      va_in v = [] \<and> va_in_pos v = 0 \<and> va_in_cap v = 0 \<and> va_acc v = [] \<and> gate_of v = gate_start"
  proof -
    assume "x = Some v"
    then have c: "\<not> vp_rate p \<le> 0" "t \<noteq> None" "acc \<noteq> None" "v = w" "h' = h3" using eq by (auto split: if_splits)
    then show ?thesis using ob wk by (simp add: w_def)
  qed
  show "host_never_fails h \<Longrightarrow> h_sizeof h ''vv_vad_t'' \<noteq> 0 \<Longrightarrow> 50 \<le> vp_rate p \<Longrightarrow> vp_rate p < 2 ^ 31 \<Longrightarrow> vad_pre F p < 2 ^ 31 \<Longrightarrow>
      x \<noteq> None \<and> host_never_fails h'"
  proof -
    assume nf: "host_never_fails h" and sz: "h_sizeof h ''vv_vad_t'' \<noteq> 0" and r: "50 \<le> vp_rate p" "vp_rate p < 2 ^ 31" and pr: "vad_pre F p < 2 ^ 31"
    have f: "0 < vad_frame p" "vad_frame p < 2 ^ 31" using r by (auto simp: vad_frame_def)
    have i: "of_int (vo_ms F (vp_pre_roll_ms p) (vp_rate p) + 1) = (of_nat (vad_pre F p) :: u64)" "0 < vad_pre F p"
      using ring by (simp_all add: vad_pre_def)
    note n1 = vv_alloc_never_fails [OF nf sz a1]
    note n2 = vv_alloc_never_fails [OF n1 [THEN conjunct2] _ a2]
    have n2': "acc \<noteq> None \<and> host_never_fails h2" using f by (intro n2 cap_bytes_neq_0) auto
    have "of_int (vo_ms F (vp_pre_roll_ms p) (vp_rate p) + 1) * 4 \<noteq> (0 :: u64)" unfolding i(1) using i(2) pr by (intro cap_bytes_neq_0) auto
    note n3 = vv_alloc_never_fails [OF n2' [THEN conjunct2] this a3]
    show ?thesis using eq n1 n2' n3 r by simp
  qed
qed

text \<open>Sizes and times for which no length leaves an \<open>int\<close>.\<close>

definition mic_fits :: "vad_ops \<Rightarrow> vad_params \<Rightarrow> bool" where
  "mic_fits F p \<longleftrightarrow> 50 \<le> vp_rate p \<and>
     max (nat (vp_rate p)) (2 * (max (nat (vo_sec F (vp_max_segment_s p) (vp_rate p))) (vad_pre F p + vad_frame p) + vad_frame p)) < 2 ^ 31"

text \<open>
  C39. Whatever allocation fails, and however the device cuts the samples, the capture loop with its gate returns: no push or
  drain loops for ever, no segment is freed twice, and when the session is over all the gate's memory, every buffer and
  every segment handed out, has been given back.
\<close>

theorem mic_session_memory:
  assumes ow: "owns h M" and ring: "0 \<le> vo_ms F (vp_pre_roll_ms p) (vp_rate p)"
  shows "\<exists>segs h'. mic_session F p pieces h = Some (segs, h') \<and> owns h' M"
proof -
  obtain s x h1 where c: "vv_vad_create F (Some p) True h = (s, x, h1)" by (rule prod_cases3)
  note k = create_keeps [OF ow ring c]
  show ?thesis
  proof (cases x)
    case None
    then show ?thesis using k(1,2) c by (simp add: mic_session_def)
  next
    case (Some v)
    note k = k(1) k(3) [OF Some]
    then have st: "owns h1 (vad_blocks v + M)" "vad_ok F v" "va_in_pos v = length (va_in v)" "s = VV_OK" using Some by simp_all
    obtain ss v2 h2 where l: "listen F pieces [] (Some v) h1 = Some (ss, Some v2, h2)" "owns h2 (vad_blocks v2 + M)" "vad_ok F v2"
      using listen_keeps [OF st(1-3), of pieces "[]"] by auto
    obtain out v3 h3 where f: "vv_vad_flush (Some v2) True h2 = (out, Some v3, h3)" "owns h3 (vad_blocks v3 + pcm_blocks out + M)"
      using flush_keeps [OF l(2,3)] by blast
    have "owns (free_pcm out h3) (vad_blocks v3 + M)" using f(2) by (intro free_pcm_owns) (simp add: ac_simps)
    then show ?thesis using c Some st(4) l(1) f(1) by (simp add: mic_session_def vad_free_owns)
  qed
qed

text \<open>
  C17. The segments a capture session hands over are exactly those of the gate run frame by frame over the whole recording: how
  the device cuts the samples into pieces makes no difference, no sample is lost in the FIFO, the ring or the part frame,
  and a piece holding two utterances yields both.
\<close>

theorem mic_session_segments:
  assumes ow: "owns h M" and ring: "0 \<le> vo_ms F (vp_pre_roll_ms p) (vp_rate p)" and nf: "host_never_fails h" "h_sizeof h ''vv_vad_t'' \<noteq> 0"
    and fits: "mic_fits F p" and small: "\<forall>xs\<in>set pieces. length xs \<le> 2 ^ 29"
  shows "\<exists>h'. mic_session F p pieces h = Some (Some (gate_session F p (concat pieces)), h')"
proof -
  obtain s x h1 where c: "vv_vad_create F (Some p) True h = (s, x, h1)" by (rule prod_cases3)
  note k = create_keeps [OF ow ring c]
  have "50 \<le> vp_rate p" "nat (vp_rate p) < 2 ^ 31" "vad_pre F p < 2 ^ 31"
    using fits by (auto simp: mic_fits_def max_def split: if_splits)
  then have "x \<noteq> None \<and> host_never_fails h1" by (intro k(4) [OF nf]) auto
  then obtain v where x: "x = Some v" "s = VV_OK" "host_never_fails h1" using k(1) by auto
  note v = k(3) [OF x(1)]
  have m: "cap_most F v < 2 ^ 31" using v fits by (simp add: cap_most_def seg_most_def mic_fits_def)
  have dr: "va_in_pos v = length (va_in v)" "pending v = []" using v by (simp_all add: pending_def)
  have v': "owns h1 (vad_blocks v + M)" "vad_ok F v" "va_p v = p" "va_frame v = vad_frame p" "length (va_pre v) = vad_pre F p"
    "gate_of v = gate_start" using v by simp_all
  obtain ss v2 h2 fs where
    l: "listen F pieces [] (Some v) h1 = Some (ss, Some v2, h2)" "owns h2 (vad_blocks v2 + M)" "vad_ok F v2" "va_in_pos v2 = length (va_in v2)"
      "va_p v2 = p" "va_frame v2 = vad_frame p" "length (va_pre v2) = vad_pre F p"
      "host_never_fails h1 \<and> cap_most F v < 2 ^ 31 \<and> va_in_cap v \<le> 2 ^ 30 \<and> (\<forall>xs\<in>set pieces. length xs \<le> 2 ^ 29) \<longrightarrow>
       host_never_fails h2 \<and> pending v @ concat pieces = concat fs @ pending v2 \<and>
       (\<forall>f\<in>set fs. length f = vad_frame p) \<and> gate_run F p (vad_pre F p) fs gate_start = (ss, gate_of v2)"
    using listen_keeps [OF v'(1,2) dr(1), of pieces "[]"] unfolding v'(3-6) append_Nil by blast
  have r: "host_never_fails h2" "concat pieces = concat fs @ va_acc v2" "\<forall>f\<in>set fs. length f = vad_frame p"
    "gate_run F p (vad_pre F p) fs gate_start = (ss, gate_of v2)"
    using l(4,8) x(3) m v small dr(2) by (auto simp: pending_def)
  have len: "length (va_acc v2) < vad_frame p" using l(3,6) by (simp add: vad_ok_def)
  have m2: "cap_most F v2 < 2 ^ 31" using m v l(5-7) by (simp add: cap_most_def seg_most_def)
  obtain out v3 h3 where f: "vv_vad_flush (Some v2) True h2 = (out, Some v3, h3)" "pcm_list out = gate_close (gate_of v2) (va_acc v2)"
    using flush_keeps [OF l(2,3)] r(1) m2 by auto
  have "frames_of (vad_frame p) (concat pieces) = (fs, va_acc v2)" unfolding r(2) using len r(3) by (intro frames_of_concat) auto
  then have "gate_session F p (concat pieces) = ss @ pcm_list out" by (simp add: gate_session_def r(4) f(2))
  then show ?thesis using c x l(1) f(1) by (simp add: mic_session_def)
qed

text \<open>
  C40. The frame that opens an utterance is in its segment twice: it is pushed into the pre-roll ring before the ring is copied
  out, and appended once more after it. A segment is thus what was in the ring, the opening frame, and the opening frame
  again, although it was recorded once.
\<close>

theorem trigger_frame_twice:
  assumes e: "process_frame F f v h = (out, v', h')" and idle: "\<not> va_active v" and opened: "va_active v'"
    and ow: "owns h (vad_blocks v + M)" and ok: "vad_ok F v" and f: "length f = va_frame v" "va_frame v \<le> length (va_pre v)"
    and nf: "host_never_fails h" and small: "cap_most F v < 2 ^ 31"
  shows "va_seg v' = last_n (length (va_pre v) - va_frame v) (ring_list v) @ f @ f"
proof -
  have g: "gate_step F (va_p v) (length (va_pre v)) f (gate_of v) = (None, gate_of v')"
    using idle_frame [OF e ow ok f(1) idle] nf small by simp
  have seg: "va_seg v = []" using ok idle by (simp add: vad_ok_def)
  have "gt_active (gate_of v')" using opened by (simp add: gate_of_def)
  then have "gt_seg (gate_of v') = last_n (length (va_pre v)) (ring_list v @ f) @ f"
    using g idle seg by (auto simp: gate_step_def gate_of_def Let_def split: if_splits)
  moreover have "last_n (length (va_pre v)) (ring_list v @ f) = last_n (length (va_pre v) - va_frame v) (ring_list v) @ f"
    using f by (simp add: last_n_def)
  ultimately show ?thesis by (simp add: gate_of_def)
qed

definition vad_demo_ops :: vad_ops where
  "vad_demo_ops = \<lparr>vo_db = hd, vo_add = (\<lambda>x y. x), vo_sub = (\<lambda>x y. x), vo_mul = (\<lambda>x y. x), vo_ms = (\<lambda>x r. uint x), vo_sec = (\<lambda>x r. uint x)\<rparr>"

definition vad_demo_params :: vad_params where
  "vad_demo_params = \<lparr>vp_rate = 50, vp_start_db = 0x3F800000, vp_stop_db = 0, vp_min_speech_ms = 1, vp_hangover_ms = 2, vp_pre_roll_ms = 1,
     vp_max_segment_s = 100, vp_noise_margin_db = 0, vp_adapt = False\<rparr>"

definition vad_demo :: vad where
  "vad_demo = \<lparr>va_ptr = 0, va_p = vad_demo_params, va_frame = 1, va_acc_ptr = None, va_acc = [], va_in_ptr = None, va_in = [],
     va_in_cap = 0, va_in_pos = 0, va_pre_ptr = None, va_pre = [1, 2], va_pre_len = 2, va_pre_head = 0, va_seg_ptr = None, va_seg = [],
     va_seg_cap = 0, va_active = False, va_silence_run = 0, va_speech_run = 0, va_level = f32_m120, va_floor = f32_m90, va_floor_init = False\<rparr>"

theorem mic_session_segments_witness:
  "map_option fst (mic_session vad_demo_ops vad_demo_params [[1, 2], [0x40000000, 3, 4, 5]] demo_heap) =
     Some (Some [[2, 0x40000000, 0x40000000, 3, 4]])"
proof -
  have r: "0 \<le> vo_ms vad_demo_ops (vp_pre_roll_ms vad_demo_params) (vp_rate vad_demo_params)" by (simp add: vad_demo_ops_def)
  have f: "mic_fits vad_demo_ops vad_demo_params" by (simp add: mic_fits_def vad_frame_def vad_pre_def vad_demo_ops_def vad_demo_params_def)
  have g: "gate_session vad_demo_ops vad_demo_params (concat [[1, 2], [0x40000000, 3, 4, 5]]) = [[2, 0x40000000, 0x40000000, 3, 4]]"
    by code_simp
  have s: "h_sizeof demo_heap ''vv_vad_t'' \<noteq> 0" by (simp add: demo_heap_def)
  from mic_session_segments [OF demo_heap_owns r demo_heap_host s f, of "[[1, 2], [0x40000000, 3, 4, 5]]"] show ?thesis
    unfolding g by auto
qed

theorem mic_session_memory_witness:
  "\<exists>segs h'. mic_session vad_demo_ops vad_demo_params [[1, 2], [0x40000000, 3]] demo_heap = Some (segs, h') \<and> owns h' {#}"
  by (rule mic_session_memory [OF demo_heap_owns]) (simp add: vad_demo_ops_def)

theorem trigger_frame_twice_witness:
  "(let h = snd (vv_alloc 8 demo_heap); v = vad_demo\<lparr>va_ptr := h_next demo_heap\<rparr> in
    case process_frame vad_demo_ops [0x40000000] v h of (out, v', h') \<Rightarrow> va_seg v' = [2, 0x40000000, 0x40000000])"
proof -
  define h where "h = snd (vv_alloc 8 demo_heap)"
  define v where "v = vad_demo\<lparr>va_ptr := h_next demo_heap\<rparr>"
  obtain x where a: "vv_alloc 8 demo_heap = (x, h)" by (metis h_def prod.collapse)
  then have x: "x = Some (h_next demo_heap)" using vv_alloc_never_fails [OF demo_heap_host _ a] by (auto simp: vv_alloc_def Let_def split: if_splits)
  have ow: "owns h (vad_blocks v + {#})" using vv_alloc_owns [OF demo_heap_owns a] by (simp add: x v_def vad_blocks_def vad_demo_def opt_block_def)
  have nf: "host_never_fails h" by (rule alloc_keeps_never_fails [OF demo_heap_host a])
  obtain out v' h' where e: "process_frame vad_demo_ops [0x40000000] v h = (out, v', h')" by (rule prod_cases3)
  have ok: "vad_ok vad_demo_ops v" by (simp add: vad_ok_def ring_ok_def v_def vad_demo_def vad_demo_params_def)
  have most: "cap_most vad_demo_ops v < 2 ^ 31" by (simp add: cap_most_def seg_most_def v_def vad_demo_def vad_demo_params_def vad_demo_ops_def)
  have idle: "\<not> va_active v" and len: "length [0x40000000 :: u32] = va_frame v" "va_frame v \<le> length (va_pre v)"
    by (simp_all add: v_def vad_demo_def)
  have "gt_active (snd (gate_step vad_demo_ops (va_p v) (length (va_pre v)) [0x40000000] (gate_of v)))"
    unfolding v_def by code_simp
  then have act: "va_active v'" using idle_frame [OF e ow ok len(1) idle] nf most by (simp add: gate_of_def)
  have "va_seg v' = last_n (length (va_pre v) - va_frame v) (ring_list v) @ [0x40000000] @ [0x40000000]"
    by (rule trigger_frame_twice [OF e idle act ow ok len nf most])
  also have "last_n (length (va_pre v) - va_frame v) (ring_list v) = [2]" unfolding v_def by code_simp
  finally show ?thesis using e by (simp add: h_def [symmetric] v_def [symmetric])
qed

end
