(* ===== verification/Options.thy ===== *)
theory Options
  imports KvPool
begin

text \<open>
  The names a user types for the knobs of the engine and the environment override (\<^verbatim>\<open>src/core/attn_backend.c\<close>, the
  enums of \<^verbatim>\<open>include/vibevoice/types.h\<close>). \<open>None\<close> is the count that stands for an unknown name, a C string is a
  \<open>string\<close>, NULL is \<open>None\<close>.
\<close>

datatype vv_weights_source = VV_SOURCE_AUTO | VV_SOURCE_GGUF | VV_SOURCE_SAFETENSORS
datatype vv_vae_numerics = VV_VAE_AUTO | VV_VAE_FLOAT | VV_VAE_INT8
datatype vv_head_format = VV_HEAD_AUTO | VV_HEAD_F16 | VV_HEAD_INT8
datatype vv_kv_paging = VV_KV_PAGED_AUTO | VV_KV_PAGED_OFF | VV_KV_PAGED_ON

definition vv_attn_backend_parse :: "string option \<Rightarrow> vv_attn_backend option" where
  "vv_attn_backend_parse name =
     (case name of
        None \<Rightarrow> Some VV_ATTN_AUTO
      | Some n \<Rightarrow>
          if n = [] then Some VV_ATTN_AUTO
          else if n = ''auto'' then Some VV_ATTN_AUTO
          else if n = ''fa1'' then Some VV_ATTN_FA1
          else if n = ''scalar'' then Some VV_ATTN_FA1
          else if n = ''fa2'' then Some VV_ATTN_FA2
          else if n = ''flashinfer'' then Some VV_ATTN_FLASHINFER
          else if n = ''fi'' then Some VV_ATTN_FLASHINFER
          else None)"

fun vv_attn_backend_name :: "vv_attn_backend option \<Rightarrow> string" where
  "vv_attn_backend_name (Some VV_ATTN_AUTO) = ''auto''"
| "vv_attn_backend_name (Some VV_ATTN_FA1) = ''fa1''"
| "vv_attn_backend_name (Some VV_ATTN_FA2) = ''fa2''"
| "vv_attn_backend_name (Some VV_ATTN_FLASHINFER) = ''flashinfer''"
| "vv_attn_backend_name None = ''?''"

definition vv_weights_source_parse :: "string option \<Rightarrow> vv_weights_source option" where
  "vv_weights_source_parse name =
     (case name of
        None \<Rightarrow> Some VV_SOURCE_AUTO
      | Some n \<Rightarrow>
          if n = [] \<or> n = ''auto'' then Some VV_SOURCE_AUTO
          else if n = ''gguf'' then Some VV_SOURCE_GGUF
          else if n = ''safetensors'' then Some VV_SOURCE_SAFETENSORS
          else None)"

fun vv_weights_source_name :: "vv_weights_source option \<Rightarrow> string" where
  "vv_weights_source_name (Some VV_SOURCE_AUTO) = ''auto''"
| "vv_weights_source_name (Some VV_SOURCE_GGUF) = ''gguf''"
| "vv_weights_source_name (Some VV_SOURCE_SAFETENSORS) = ''safetensors''"
| "vv_weights_source_name None = ''?''"

definition vv_vae_numerics_parse :: "string option \<Rightarrow> vv_vae_numerics option" where
  "vv_vae_numerics_parse name =
     (case name of
        None \<Rightarrow> Some VV_VAE_AUTO
      | Some n \<Rightarrow>
          if n = [] \<or> n = ''auto'' then Some VV_VAE_AUTO
          else if n = ''float'' \<or> n = ''fp16'' \<or> n = ''fp32'' then Some VV_VAE_FLOAT
          else if n = ''int8'' \<or> n = ''i8'' then Some VV_VAE_INT8
          else None)"

fun vv_vae_numerics_name :: "vv_vae_numerics option \<Rightarrow> string" where
  "vv_vae_numerics_name (Some VV_VAE_AUTO) = ''auto''"
| "vv_vae_numerics_name (Some VV_VAE_FLOAT) = ''float''"
| "vv_vae_numerics_name (Some VV_VAE_INT8) = ''int8''"
| "vv_vae_numerics_name None = ''?''"

definition vv_head_format_parse :: "string option \<Rightarrow> vv_head_format option" where
  "vv_head_format_parse name =
     (case name of
        None \<Rightarrow> Some VV_HEAD_AUTO
      | Some n \<Rightarrow>
          if n = [] \<or> n = ''auto'' then Some VV_HEAD_AUTO
          else if n = ''f16'' \<or> n = ''fp16'' then Some VV_HEAD_F16
          else if n = ''int8'' \<or> n = ''i8'' then Some VV_HEAD_INT8
          else None)"

fun vv_head_format_name :: "vv_head_format option \<Rightarrow> string" where
  "vv_head_format_name (Some VV_HEAD_AUTO) = ''auto''"
| "vv_head_format_name (Some VV_HEAD_F16) = ''f16''"
| "vv_head_format_name (Some VV_HEAD_INT8) = ''int8''"
| "vv_head_format_name None = ''?''"

text \<open>\<open>None\<close> is -1; here NULL is an error and the empty string an unknown name.\<close>

definition vv_kv_paging_parse :: "string option \<Rightarrow> vv_kv_paging option" where
  "vv_kv_paging_parse name =
     (case name of
        None \<Rightarrow> None
      | Some n \<Rightarrow>
          if n = ''auto'' then Some VV_KV_PAGED_AUTO
          else if n = ''on'' \<or> n = ''1'' then Some VV_KV_PAGED_ON
          else if n = ''off'' \<or> n = ''0'' then Some VV_KV_PAGED_OFF
          else None)"

definition vv_attn_backend_from_env :: "(string \<Rightarrow> string option) \<Rightarrow> vv_attn_backend \<Rightarrow> vv_attn_backend" where
  "vv_attn_backend_from_env getenv requested =
     (if requested \<noteq> VV_ATTN_AUTO then requested
      else
        let old = (case getenv ''VV_ATTN_MMA'' of
                     Some (c # cs) \<Rightarrow> if c = CHR ''0'' then VV_ATTN_FA1 else VV_ATTN_AUTO
                   | _ \<Rightarrow> VV_ATTN_AUTO)
        in (case getenv ''VV_ATTN'' of
              None \<Rightarrow> old
            | Some e \<Rightarrow>
                if e = [] then old
                else (case vv_attn_backend_parse (Some e) of Some b \<Rightarrow> b | None \<Rightarrow> old)))"

subsection \<open>Names read back\<close>

text \<open>Every knob has this contract: the printed name of a value parses to it, and the default is what NULL parses to.\<close>

locale named_knob =
  fixes parse :: "string option \<Rightarrow> 'a option"
    and name :: "'a option \<Rightarrow> string"
    and auto :: 'a
  assumes parse_name: "parse (Some (name (Some v))) = Some v"
    and parse_null: "parse None = Some auto"
    and parse_empty: "parse (Some []) = Some auto"
    and unknown: "name None = ''?''" "parse (Some ''?'') = None"
begin

lemma name_inj: "name x = name y \<Longrightarrow> x = y"
  using parse_name unknown by (cases x; cases y) (metis option.distinct(1) option.sel)+

lemma roundtrip_log: "parse (Some (name x)) = x"
  using parse_name unknown by (cases x) simp_all

end

interpretation attn: named_knob vv_attn_backend_parse vv_attn_backend_name VV_ATTN_AUTO
proof
  fix v show "vv_attn_backend_parse (Some (vv_attn_backend_name (Some v))) = Some v"
    by (cases v) (simp_all add: vv_attn_backend_parse_def)
qed (simp_all add: vv_attn_backend_parse_def)

interpretation source: named_knob vv_weights_source_parse vv_weights_source_name VV_SOURCE_AUTO
proof
  fix v show "vv_weights_source_parse (Some (vv_weights_source_name (Some v))) = Some v"
    by (cases v) (simp_all add: vv_weights_source_parse_def)
qed (simp_all add: vv_weights_source_parse_def)

interpretation vae: named_knob vv_vae_numerics_parse vv_vae_numerics_name VV_VAE_AUTO
proof
  fix v show "vv_vae_numerics_parse (Some (vv_vae_numerics_name (Some v))) = Some v"
    by (cases v) (simp_all add: vv_vae_numerics_parse_def)
qed (simp_all add: vv_vae_numerics_parse_def)

interpretation lm_head: named_knob vv_head_format_parse vv_head_format_name VV_HEAD_AUTO
proof
  fix v show "vv_head_format_parse (Some (vv_head_format_name (Some v))) = Some v"
    by (cases v) (simp_all add: vv_head_format_parse_def)
qed (simp_all add: vv_head_format_parse_def)

text \<open>
  Whatever a knob prints into the log can be typed back: each of the four families of names parses to the value it
  was printed for, the unknown value included.
\<close>

theorem knob_names_read_back:
  "vv_attn_backend_parse (Some (vv_attn_backend_name a)) = a \<and>
   vv_weights_source_parse (Some (vv_weights_source_name w)) = w \<and>
   vv_vae_numerics_parse (Some (vv_vae_numerics_name n)) = n \<and>
   vv_head_format_parse (Some (vv_head_format_name f)) = f"
  using attn.roundtrip_log source.roundtrip_log vae.roundtrip_log lm_head.roundtrip_log by blast

text \<open>
  The environment never overrides an explicit request; left to itself, \<^verbatim>\<open>VV_ATTN\<close> decides when it names a backend, and
  \<^verbatim>\<open>VV_ATTN_MMA\<close> only when it does not.
\<close>

theorem backend_from_env:
  "vv_attn_backend_from_env getenv requested =
     (if requested \<noteq> VV_ATTN_AUTO then requested
      else case getenv ''VV_ATTN'' of
        Some (c # cs) \<Rightarrow> (case vv_attn_backend_parse (Some (c # cs)) of Some b \<Rightarrow> b
                          | None \<Rightarrow> vv_attn_backend_from_env (getenv(''VV_ATTN'' := None)) VV_ATTN_AUTO)
      | _ \<Rightarrow> vv_attn_backend_from_env (getenv(''VV_ATTN'' := None)) VV_ATTN_AUTO)"
  by (auto simp: vv_attn_backend_from_env_def Let_def split: option.splits list.splits)

end
