(* ===== verification/Spec2Isabelle.thy ===== *)
theory Spec2Isabelle
  imports KvSharing KvCacheOps AdmissionQueue WsParser Safetensors Wav Bpe GgufDequant HttpServe Postprocess Vad Options
begin

text \<open>
  A verification of the host-side core of vibevoice.c, a C inference engine for a speech recogniser: the parts that parse
  what comes from outside (model files, audio files, tokenizers, web sockets), the parts that share memory between
  requests (the KV cache, its page pool, the admission queue, the server object), what turns a request into a prompt and an
  answer into a transcription, and the arithmetic below them.

  The program. \<^verbatim>\<open>src/model/\<close> reads weights (safetensors or GGUF) through a memory mapping; \<^verbatim>\<open>src/text_tokenizer/bpe.c\<close> turns text
  into token ids and back; \<^verbatim>\<open>src/audio/wav.c\<close> reads recordings and
  \<^verbatim>\<open>vad.c\<close> cuts a stream of samples into utterances; \<^verbatim>\<open>src/inference/kv_cache.c\<close> keeps the keys and values of
  every sequence, in a slab of its own or in pages taken from a pool all sequences share, \<^verbatim>\<open>sampling.c\<close> beside it draws the
  tokens and \<^verbatim>\<open>postprocess.c\<close> makes a transcription of the answer; \<^verbatim>\<open>src/server/\<close> reads HTTP requests (\<^verbatim>\<open>http.c\<close>), turns a
  chat request into a prompt (\<^verbatim>\<open>chat_prompt.c\<close>), admits requests in order (\<^verbatim>\<open>vv_queue.h\<close>) and speaks WebSocket and
  server-sent events (\<^verbatim>\<open>ws.c\<close>); \<^verbatim>\<open>src/core/\<close> chooses the devices (\<^verbatim>\<open>gpu_select.c\<close>) and names the knobs
  (\<^verbatim>\<open>attn_backend.c\<close>). All of them allocate through
  \<^verbatim>\<open>src/core/alloc.c\<close> and report with the codes of \<^verbatim>\<open>include/vibevoice/types.h\<close>.

  Theories and what they model.

  \<^item> \<open>Prelude\<close>: machine integers, the status codes and their messages (\<^verbatim>\<open>core/error.c\<close>), little-endian fields, the locale
    \<open>transition_system\<close> (reachable states and inductive invariants), counting and list lemmas.
  \<^item> \<open>Heap\<close>: \<^verbatim>\<open>core/alloc.c\<close> and the device allocator: live blocks, headers, the tracked total; beside them
    the open files and mappings (\<open>os\<close>) and what the system does with a path (\<open>file_system\<close>). \<open>owns h M\<close> says that exactly
    the blocks \<open>M\<close> are live and nothing undefined has happened; every no-leak property is stated with it.
  \<^item> \<open>KvFormat\<close>, \<open>KvPool\<close>, \<open>KvSharing\<close>, \<open>KvCache\<close>, \<open>KvCacheOps\<close>: \<^verbatim>\<open>quant/kv_format.c\<close> and \<^verbatim>\<open>inference/kv_cache.c\<close>. Each stretch
    of \<^verbatim>\<open>reserve_pages\<close> between taking and dropping the pool's lock is one definition; \<open>pool_step\<close> interleaves any number of
    threads; a thread asleep on the pool's condition variable is one that has not seen a broadcast since (\<open>p_freed\<close> counts them). The cache operations follow the code with the slab, the pages and the device copies.
  \<^item> \<open>AdmissionQueue\<close>: \<^verbatim>\<open>server/vv_queue.h\<close> as a step relation over threads, with broadcasts, spurious wake-ups and time-outs.
  \<^item> \<open>WebSocket\<close>, \<open>WsParser\<close>: \<^verbatim>\<open>server/ws.c\<close>: SHA-1, base64, the accept key, frame headers, SSE lines, and the incremental
    parser, which unmasks in place and compacts its buffer.
  \<^item> \<open>Http\<close>, \<open>HttpSafe\<close>: the parsing half of \<^verbatim>\<open>server/http.c\<close> (the reading loop over whatever chunks the network delivers,
    heads, multipart bodies, the error envelope, the WebSocket upgrade) and what it guarantees. \<open>HttpServe\<close>: the other half:
    sending, streamed responses and WebSocket frames, the thread of a connection, and the server object as a step relation
    of the accepting thread, the connections and the thread that stops the server.
  \<^item> \<open>ChatPrompt\<close>: \<^verbatim>\<open>server/chat_prompt.c\<close>. \<open>Postprocess\<close>: \<^verbatim>\<open>inference/postprocess.c\<close>: the JSON inside an answer, the tolerant
    reader, the JSON output. \<open>Sampling\<close>: \<^verbatim>\<open>inference/sampling.c\<close>.
  \<^item> \<open>Options\<close>: \<^verbatim>\<open>core/attn_backend.c\<close>, with the locale \<open>named_knob\<close> of values that are printed and parsed, interpreted on four of
    them. \<open>GpuSelect\<close>: \<^verbatim>\<open>core/gpu_select.c\<close>: lists of devices and caps, the translation of \<^verbatim>\<open>CUDA_VISIBLE_DEVICES\<close>, memory budgets.
  \<^item> \<open>Json\<close>, \<open>CJson\<close>: the tree cJSON would return, and its accessors, with numbers cut to integers for the file loaders and left as
    they are for requests and answers; parsing JSON is a parameter wherever it is used.
  \<^item> \<open>Safetensors\<close>: \<^verbatim>\<open>model/safetensors.c\<close>. \<open>Gguf\<close>, \<open>GgufSafe\<close>, \<open>GgufDequant\<close>: \<^verbatim>\<open>model/gguf.c\<close>: the model, what it
    guarantees, and the decoders. \<open>Half\<close>: the half-precision conversions of \<^verbatim>\<open>types.h\<close>.
  \<^item> \<open>Wav\<close>: \<^verbatim>\<open>audio/wav.c\<close>. \<open>Vad\<close>: \<^verbatim>\<open>audio/vad.c\<close> with the loop of \<^verbatim>\<open>cli/cmd_chat.c\<close> that drives it; \<open>gate_session\<close> is the same gate
    without buffers, on the whole recording.
  \<^item> \<open>Utf8\<close>, \<open>HashTable\<close>, \<open>Tokenizer\<close>, \<open>Bpe\<close>: \<^verbatim>\<open>text_tokenizer/bpe.c\<close>. \<open>HashTable\<close> holds the locale \<open>probe_table\<close> of
    open-addressed tables, interpreted in \<open>Tokenizer\<close> on the vocabulary and on the merges.

  How state is modelled. A struct is a record, its pointers block numbers of the heap, a pointer into a mapping an offset.
  Failure of an allocation is the heap's parameter \<open>h_malloc\<close>, so a statement about every heap covers every pattern of failures.
  A read or write outside a block, a double free or the use of an uninitialised pointer sets \<open>h_bad\<close> or is the result
  \<open>None\<close>. Numbers read from a file keep their width and wrap; sizes and positions the code has already compared with the
  size of the file are naturals. Floats are their bits, or a type variable; their product and their conversion from an
  integer are parameters, so the development fixes which operation is applied to which operands and not how it rounds. Half
  precision is modelled to the bit.

  What the lemmas show. For the pool, the queue and the server object: invariants of all reachable states (pages conserved,
  first come first served, counters exact, no connection left when the server is freed) and that waiting ends when it can
  (no lost wake-up, no wedge, a stopped server comes to its end). For every loader: all or nothing
  under any failures, and that what it hands out lies inside the file; where it does not, a theorem with a concrete input
  shows what happens. For the codecs: round trips (WAV, base64, WebSocket frames both ways, HTTP requests and forms,
  escaped strings, device lists, tokenizer, halves) and equivalence with a reference (SHA-1 padding, byte-pair encoding, the GGUF
  decoders, rounding to nearest, ChatML prompts, the segments of an answer, the most likely tokens of a sampler,
  the utterances of a recording).

  Bounds and fuel. Loops that are not structural have a measure (the bytes left in a WAV file, the capacity still
  missing in the arena). A hash search that finds no free bucket does not end in C; it is a \<open>partial_function\<close> with value \<open>None\<close>
  there, and the tables are proved never to be full. \<open>normalise\<close> takes at most ten turns because a half has ten bits of
  mantissa; nested arrays of a GGUF file are followed to the depth the code allows. Theorems on files assume fewer than
  \<open>2 ^ 62\<close> bytes (\<open>2 ^ 63\<close> for safetensors). The \<^verbatim>\<open>int\<close> offset of a sample in a WAV file is kept at its width (\<open>wav_offset\<close>);
  outcomes of \<^verbatim>\<open>vv_realloc\<close> in the WebSocket parser are indexed by the number of the request.

  Not modelled. The numeric kernels (\<^verbatim>\<open>src/cpu\<close>, \<^verbatim>\<open>src/cuda\<close>, \<^verbatim>\<open>src/metal\<close>, the encoders and the decoder of
  \<^verbatim>\<open>src/tokenizer_encoder\<close> and \<^verbatim>\<open>src/inference\<close>), whose correctness is about floating-point error; the pipeline, loader
  and engine that sequence them; the endpoints of \<^verbatim>\<open>server/api.c\<close>, which join the modelled parts to the engine; the socket options, the
  command line, the capture devices and logging, which are input and output; cJSON and the other vendored code; the Windows
  halves of functions with two, \<^verbatim>\<open>mmap_file\<close> of \<^verbatim>\<open>safetensors.c\<close> among them.
\<close>

end
